(* ===== verification/OvpnPrelude.thy ===== *)
theory OvpnPrelude
  imports Main "HOL-Library.Word" "HOL-Library.Monad_Syntax"
begin

unbundle bit_operations_syntax

text \<open>
  Shared vocabulary of the development: the machine types of the C sources, the
  failure convention, byte order, bounded memory access, and generic lemmas.

  Conventions.
  \<^item> An unsigned C integer of a fixed width is a word (\<open>u8\<close>, \<open>u16\<close>, \<open>u32\<close>); its arithmetic wraps.
    A C \<open>int\<close>, \<open>time_t\<close> or \<open>interval_t\<close> is an \<open>int\<close>: its overflow is undefined in C, so no
    defined run of the program distinguishes the two. A cast from unsigned to \<open>int\<close> is
    written \<open>sint\<close> or \<open>uint\<close> and a cast to an unsigned type \<open>word_of_int\<close>, as in the code.
  \<^item> A result of type \<open>'a option\<close> whose \<open>None\<close> has no other meaning stands for a run that
    does not return: a failed \<open>ASSERT\<close>, an \<open>M_FATAL\<close> message, or an access outside an
    allocated block. So a lemma that an operation returns \<open>Some\<close> also says that it
    touches no memory out of bounds and trips no assertion.
  \<^item> The global \<open>now\<close> (src: otime.c) is a parameter of the operations that read it.
  \<^item> Diagnostic output (\<open>msg\<close>, \<open>dmsg\<close>) has no effect on the state and is left out.
\<close>

named_theorems ovpn_simps \<open>rewrite rules of the components, for well-formed states\<close>
named_theorems ovpn_inv \<open>preservation of the components' invariants\<close>

type_synonym u8 = "8 word"
type_synonym u16 = "16 word"
type_synonym u32 = "32 word"
type_synonym u64 = "64 word"

type_synonym bytes = "u8 list"

subsection \<open>Runs that stop\<close>

text \<open>\<open>ASSERT(c)\<close> of error.h: the program goes on only if the condition holds.\<close>

definition ASSERT :: "bool \<Rightarrow> unit option" where
  "ASSERT c = (if c then Some () else None)"

lemma ASSERT_True [simp]: "c \<Longrightarrow> ASSERT c = Some ()"
  by (simp add: ASSERT_def)

lemma ASSERT_bind_eq_Some [simp]:
  "(ASSERT c \<bind> f = Some y) \<longleftrightarrow> (c \<and> f () = Some y)"
  by (simp add: ASSERT_def)

subsection \<open>Network byte order\<close>

text \<open>
  The bytes that \<open>htonl\<close> (\<open>htons\<close>) leaves in memory, most significant first, and their
  reading by \<open>ntohl\<close> (\<open>ntohs\<close>). Both are the same on little and big endian hosts.
\<close>

definition u32_bytes :: "u32 \<Rightarrow> bytes" where
  "u32_bytes w = [ucast (drop_bit 24 w), ucast (drop_bit 16 w), ucast (drop_bit 8 w), ucast w]"

fun bytes_u32 :: "bytes \<Rightarrow> u32" where
  "bytes_u32 [a, b, c, d] =
     push_bit 24 (ucast a) OR push_bit 16 (ucast b) OR push_bit 8 (ucast c) OR ucast d"
| "bytes_u32 _ = 0"

definition u16_bytes :: "u16 \<Rightarrow> bytes" where
  "u16_bytes w = [ucast (drop_bit 8 w), ucast w]"

fun bytes_u16 :: "bytes \<Rightarrow> u16" where
  "bytes_u16 [a, b] = push_bit 8 (ucast a) OR ucast b"
| "bytes_u16 _ = 0"

lemma length_u32_bytes [simp]: "length (u32_bytes w) = 4"
  by (simp add: u32_bytes_def)

lemma length_u16_bytes [simp]: "length (u16_bytes w) = 2"
  by (simp add: u16_bytes_def)

lemma bytes_u32_u32_bytes [simp]: "bytes_u32 (u32_bytes w) = w"
proof (rule bit_word_eqI)
  fix n assume "n < LENGTH(32)"
  then have "n < 8 \<or> 8 \<le> n \<and> n < 16 \<or> 16 \<le> n \<and> n < 24 \<or> 24 \<le> n \<and> n < 32"
    by auto
  then show "bit (bytes_u32 (u32_bytes w)) n = bit w n"
    by (auto simp: u32_bytes_def bit_simps)
qed

lemma u32_bytes_bytes_u32:
  assumes "length bs = 4"
  shows "u32_bytes (bytes_u32 bs) = bs"
proof -
  obtain a b c d where bs: "bs = [a, b, c, d]"
    using assms by (auto simp: numeral_eq_Suc length_Suc_conv)
  show ?thesis
    unfolding bs u32_bytes_def bytes_u32.simps
    by (intro list.inject [THEN iffD2] conjI refl; rule bit_word_eqI;
        auto simp: bit_simps dest: bit_imp_le_length)
qed

lemma bytes_u16_u16_bytes [simp]: "bytes_u16 (u16_bytes w) = w"
proof (rule bit_word_eqI)
  fix n assume "n < LENGTH(16)"
  then show "bit (bytes_u16 (u16_bytes w)) n = bit w n"
    by (auto simp: u16_bytes_def bit_simps)
qed

subsection \<open>Arithmetic on words that does not wrap\<close>

lemma unat_incr: "i < j \<Longrightarrow> unat (i + 1) = Suc (unat i)" for i j :: "'a::len word"
proof -
  assume "i < j"
  then have "unat i + 1 \<le> unat j" by (simp add: word_less_nat_alt)
  also have "unat j < 2 ^ LENGTH('a)" by (rule unsigned_less)
  finally have "unat i + 1 < 2 ^ LENGTH('a)" .
  then show ?thesis by (simp add: unat_word_ariths)
qed

lemma word_less_incr: "w + 1 \<noteq> 0 \<Longrightarrow> w < w + 1" for w :: "'a::len word"
proof -
  assume nz: "w + 1 \<noteq> 0"
  have lt: "unat w < 2 ^ LENGTH('a)" by (rule unsigned_less)
  have "unat w + 1 \<noteq> 2 ^ LENGTH('a)"
  proof
    assume "unat w + 1 = 2 ^ LENGTH('a)"
    then have "unat (w + 1) = 0" by (simp add: unat_word_ariths)
    with nz show False by (simp add: unat_eq_0)
  qed
  with lt have "unat w + 1 < 2 ^ LENGTH('a)" by linarith
  then show ?thesis by (simp add: word_less_nat_alt unat_word_ariths)
qed

lemma unat_diff: "j \<le> i \<Longrightarrow> unat (i - j) = unat i - unat j" for i j :: "'a::len word"
  by (rule unat_sub)

lemma word_minus_one_le: "w \<noteq> 0 \<Longrightarrow> w - 1 \<le> w" for w :: "'a::len word"
proof -
  assume "w \<noteq> 0"
  then have "1 \<le> w" by (simp add: word_le_nat_alt unat_gt_0 Suc_leI)
  then show ?thesis by (simp add: word_le_nat_alt unat_diff)
qed

lemma unat_word_of_int_nonneg:
  "0 \<le> n \<Longrightarrow> n < 2 ^ LENGTH('a) \<Longrightarrow> unat (word_of_int n :: 'a::len word) = nat n"
  by (simp add: unat_eq_nat_uint uint_word_of_int)

subsection \<open>Bounded memory access\<close>

text \<open>Reading and writing a run of cells of one allocated block; \<open>None\<close> out of bounds.\<close>

definition mem_read :: "'a list \<Rightarrow> int \<Rightarrow> int \<Rightarrow> 'a list option" where
  "mem_read m p n =
     (if 0 \<le> p \<and> 0 \<le> n \<and> p + n \<le> int (length m)
      then Some (take (nat n) (drop (nat p) m)) else None)"

definition mem_write :: "'a list \<Rightarrow> int \<Rightarrow> 'a list \<Rightarrow> 'a list option" where
  "mem_write m p xs =
     (if 0 \<le> p \<and> p + int (length xs) \<le> int (length m)
      then Some (take (nat p) m @ xs @ drop (nat p + length xs) m) else None)"

lemma length_mem_write: "mem_write m p xs = Some m' \<Longrightarrow> length m' = length m"
  by (auto simp: mem_write_def split: if_splits)

lemma mem_write_Some:
  "0 \<le> p \<Longrightarrow> p + int (length xs) \<le> int (length m) \<Longrightarrow>
   mem_write m p xs = Some (take (nat p) m @ xs @ drop (nat p + length xs) m)"
  by (simp add: mem_write_def)

lemma mem_read_Some:
  "0 \<le> p \<Longrightarrow> 0 \<le> n \<Longrightarrow> p + n \<le> int (length m) \<Longrightarrow>
   mem_read m p n = Some (take (nat n) (drop (nat p) m))"
  by (simp add: mem_read_def)

text \<open>One cell of an array: the value read, and the array after a write.\<close>

definition arr_get :: "'a list \<Rightarrow> int \<Rightarrow> 'a option" where
  "arr_get a i = (if 0 \<le> i \<and> i < int (length a) then Some (a ! nat i) else None)"

definition arr_set :: "'a list \<Rightarrow> int \<Rightarrow> 'a \<Rightarrow> 'a list option" where
  "arr_set a i x = (if 0 \<le> i \<and> i < int (length a) then Some (a[nat i := x]) else None)"

lemma arr_get_Some: "0 \<le> i \<Longrightarrow> i < int (length a) \<Longrightarrow> arr_get a i = Some (a ! nat i)"
  by (simp add: arr_get_def)

lemma arr_set_Some: "0 \<le> i \<Longrightarrow> i < int (length a) \<Longrightarrow> arr_set a i x = Some (a[nat i := x])"
  by (simp add: arr_set_def)

subsection \<open>Lists\<close>

lemma take_drop_append_middle:
  "p \<le> length m \<Longrightarrow> take (length xs) (drop p (take p m @ xs @ ys)) = xs"
  by simp

lemma nth_take_replicate_append:
  assumes "d + k < length (take c (replicate k x @ w))"
  shows "d < length w" "take c (replicate k x @ w) ! (d + k) = w ! d"
proof -
  have b: "d + k < c" "d + k < length (replicate k x @ w)"
    using assms by (simp_all only: length_take)
  from b(2) show "d < length w" by simp
  have "take c (replicate k x @ w) ! (d + k) = (replicate k x @ w) ! (d + k)"
    by (rule nth_take [OF b(1)])
  then show "take c (replicate k x @ w) ! (d + k) = w ! d"
    by (simp add: nth_append)
qed

lemma nth_Cons_int: "0 < i \<Longrightarrow> (x # xs) ! nat i = xs ! nat (i - 1)"
  by (simp add: nth_Cons' nat_diff_distrib)

lemma nth_list_update_if: "xs[i := x] ! j = (if j = i \<and> i < length xs then x else xs ! j)"
  by (cases "i < length xs") (auto simp: nth_list_update list_update_beyond)

lemma set_take_nth: "x \<in> set (take n xs) \<longleftrightarrow> (\<exists>i < n. i < length xs \<and> xs ! i = x)"
  by (auto simp: in_set_conv_nth)

text \<open>The loops that scan an array for the first element with a property.\<close>

primrec first_index :: "('a \<Rightarrow> bool) \<Rightarrow> 'a list \<Rightarrow> nat option" where
  "first_index P [] = None"
| "first_index P (x # xs) = (if P x then Some 0 else map_option Suc (first_index P xs))"

lemma first_index_Some:
  "first_index P xs = Some i \<Longrightarrow> i < length xs \<and> P (xs ! i) \<and> (\<forall>j < i. \<not> P (xs ! j))"
proof (induction xs arbitrary: i)
  case (Cons x xs)
  then show ?case by (fastforce simp: nth_Cons' less_Suc_eq_0_disj split: if_splits)
qed simp

lemma first_index_None: "first_index P xs = None \<longleftrightarrow> (\<forall>x \<in> set xs. \<not> P x)"
  by (induction xs) auto

lemma first_index_ex: "x \<in> set xs \<Longrightarrow> P x \<Longrightarrow> \<exists>i. first_index P xs = Some i"
  using first_index_None [of P xs] by fastforce

end
