(* ===== verification/Buffer.thy ===== *)
theory Buffer
  imports OvpnPrelude
begin

text \<open>
  The buffers of \<^verbatim>\<open>openvpn/buffer.h\<close> and \<^verbatim>\<open>openvpn/buffer.c\<close>: a block of
  memory with a head room, a content and a tail room. The first part translates the
  operations, pointers into the block being offsets from its start and \<open>NULL\<close> being
  \<open>None\<close>; the second proves that on a well-formed buffer every operation stays inside the
  block and acts on the content as a queue of octets, and states this as the locale
  \<open>octet_fifo\<close> that the wire formats of the other components are proved against.
\<close>

section \<open>The operations\<close>

record buffer =
  b_capacity :: int
  b_offset :: int
  b_len :: int
  b_data :: "bytes option"

definition BUF_SIZE_MAX :: int where
  "BUF_SIZE_MAX = 1000000"

definition clear_buf :: buffer where
  "clear_buf = \<lparr>b_capacity = 0, b_offset = 0, b_len = 0, b_data = None\<rparr>"

definition buf_defined :: "buffer \<Rightarrow> bool" where
  "buf_defined b \<longleftrightarrow> b_data b \<noteq> None"

definition buf_valid :: "buffer \<Rightarrow> bool" where
  "buf_valid b \<longleftrightarrow> b_data b \<noteq> None \<and> 0 \<le> b_len b"

definition buf_bptr :: "buffer \<Rightarrow> int option" where
  "buf_bptr b = (if buf_valid b then Some (b_offset b) else None)"

definition buf_len :: "buffer \<Rightarrow> int" where
  "buf_len b = (if buf_valid b then b_len b else 0)"

definition buf_blast :: "buffer \<Rightarrow> int option" where
  "buf_blast b =
     (if buf_len b > 0 then map_option (\<lambda>p. p + buf_len b - 1) (buf_bptr b) else None)"

text \<open>
  The parameter of \<open>buf_size_valid\<close> is a \<open>size_t\<close>: a negative \<open>int\<close> converts to a value
  far above the limit.
\<close>

definition buf_size_valid :: "int \<Rightarrow> bool" where
  "buf_size_valid n \<longleftrightarrow> 0 \<le> n \<and> n < BUF_SIZE_MAX"

definition buf_size_valid_signed :: "int \<Rightarrow> bool" where
  "buf_size_valid_signed n \<longleftrightarrow> - BUF_SIZE_MAX \<le> n \<and> n < BUF_SIZE_MAX"

definition buf_reset :: "buffer \<Rightarrow> buffer" where
  "buf_reset b = b\<lparr>b_capacity := 0, b_offset := 0, b_len := 0, b_data := None\<rparr>"

definition buf_reset_len :: "buffer \<Rightarrow> buffer" where
  "buf_reset_len b = b\<lparr>b_len := 0, b_offset := 0\<rparr>"

definition buf_init :: "buffer \<Rightarrow> int \<Rightarrow> bool \<times> buffer" where
  "buf_init b off =
     (if off < 0 \<or> off > b_capacity b \<or> b_data b = None then (False, b)
      else (True, b\<lparr>b_len := 0, b_offset := off\<rparr>))"

definition buf_set_write :: "bytes option \<Rightarrow> int \<Rightarrow> buffer option" where
  "buf_set_write d sz =
     do { ASSERT (buf_size_valid sz);
          m \<leftarrow> (case d of
                 Some m \<Rightarrow> if sz > 0 then map_option Some (mem_write m 0 [0]) else Some (Some m)
               | None \<Rightarrow> Some None);
          Some \<lparr>b_capacity = sz, b_offset = 0, b_len = 0, b_data = m\<rparr> }"

definition buf_set_read :: "bytes option \<Rightarrow> int \<Rightarrow> buffer option" where
  "buf_set_read d sz =
     do { ASSERT (buf_size_valid sz);
          Some \<lparr>b_capacity = sz, b_offset = 0, b_len = sz, b_data = d\<rparr> }"

definition buf_safe :: "buffer \<Rightarrow> int \<Rightarrow> bool" where
  "buf_safe b n \<longleftrightarrow>
     buf_valid b \<and> buf_size_valid n \<and> b_offset b + b_len b + n \<le> b_capacity b"

definition buf_safe_bidir :: "buffer \<Rightarrow> int \<Rightarrow> bool" where
  "buf_safe_bidir b n \<longleftrightarrow>
     (if buf_valid b \<and> buf_size_valid_signed n
      then (let newlen = b_len b + n in 0 \<le> newlen \<and> b_offset b + newlen \<le> b_capacity b)
      else False)"

definition buf_forward_capacity :: "buffer \<Rightarrow> int" where
  "buf_forward_capacity b =
     (if buf_valid b
      then (let ret = b_capacity b - (b_offset b + b_len b) in if ret < 0 then 0 else ret)
      else 0)"

definition buf_forward_capacity_total :: "buffer \<Rightarrow> int" where
  "buf_forward_capacity_total b =
     (if buf_valid b
      then (let ret = b_capacity b - b_offset b in if ret < 0 then 0 else ret)
      else 0)"

definition buf_reverse_capacity :: "buffer \<Rightarrow> int" where
  "buf_reverse_capacity b = (if buf_valid b then b_offset b else 0)"

definition buf_inc_len :: "buffer \<Rightarrow> int \<Rightarrow> bool \<times> buffer" where
  "buf_inc_len b n =
     (if \<not> buf_safe_bidir b n then (False, b) else (True, b\<lparr>b_len := b_len b + n\<rparr>))"

definition buf_prepend :: "buffer \<Rightarrow> int \<Rightarrow> int option \<times> buffer" where
  "buf_prepend b n =
     (if \<not> buf_valid b \<or> n < 0 \<or> n > b_offset b then (None, b)
      else let b' = b\<lparr>b_offset := b_offset b - n, b_len := b_len b + n\<rparr>
           in (buf_bptr b', b'))"

definition buf_advance :: "buffer \<Rightarrow> int \<Rightarrow> bool \<times> buffer" where
  "buf_advance b n =
     (if \<not> buf_valid b \<or> n < 0 \<or> b_len b < n then (False, b)
      else (True, b\<lparr>b_offset := b_offset b + n, b_len := b_len b - n\<rparr>))"

definition buf_write_alloc :: "buffer \<Rightarrow> int \<Rightarrow> int option \<times> buffer" where
  "buf_write_alloc b n =
     (if \<not> buf_safe b n then (None, b)
      else (map_option (\<lambda>p. p + b_len b) (buf_bptr b), b\<lparr>b_len := b_len b + n\<rparr>))"

definition buf_write_alloc_prepend :: "buffer \<Rightarrow> int \<Rightarrow> bool \<Rightarrow> int option \<times> buffer" where
  "buf_write_alloc_prepend b n prep = (if prep then buf_prepend b n else buf_write_alloc b n)"

definition buf_read_alloc :: "buffer \<Rightarrow> int \<Rightarrow> int option \<times> buffer" where
  "buf_read_alloc b n =
     (if n < 0 \<or> b_len b < n then (None, b)
      else (buf_bptr b, b\<lparr>b_offset := b_offset b + n, b_len := b_len b - n\<rparr>))"

text \<open>\<open>memcpy\<close> to and from the block of a buffer, at an offset of the block.\<close>

definition buf_store :: "buffer \<Rightarrow> int \<Rightarrow> bytes \<Rightarrow> buffer option" where
  "buf_store b p xs =
     do { d \<leftarrow> b_data b; m \<leftarrow> mem_write d p xs; Some (b\<lparr>b_data := Some m\<rparr>) }"

definition buf_load :: "buffer \<Rightarrow> int \<Rightarrow> int \<Rightarrow> bytes option" where
  "buf_load b p n = do { d \<leftarrow> b_data b; mem_read d p n }"

definition buf_write :: "buffer \<Rightarrow> bytes \<Rightarrow> (bool \<times> buffer) option" where
  "buf_write dest src =
     (case buf_write_alloc dest (int (length src)) of
        (None, b) \<Rightarrow> Some (False, b)
      | (Some cp, b) \<Rightarrow> do { b' \<leftarrow> buf_store b cp src; Some (True, b') })"

definition buf_write_prepend :: "buffer \<Rightarrow> bytes \<Rightarrow> (bool \<times> buffer) option" where
  "buf_write_prepend dest src =
     (case buf_prepend dest (int (length src)) of
        (None, b) \<Rightarrow> Some (False, b)
      | (Some cp, b) \<Rightarrow> do { b' \<leftarrow> buf_store b cp src; Some (True, b') })"

definition buf_write_u8 :: "buffer \<Rightarrow> int \<Rightarrow> (bool \<times> buffer) option" where
  "buf_write_u8 dest x = buf_write dest [word_of_int x]"

definition buf_write_u16 :: "buffer \<Rightarrow> int \<Rightarrow> (bool \<times> buffer) option" where
  "buf_write_u16 dest x = buf_write dest (u16_bytes (word_of_int x))"

definition buf_write_u32 :: "buffer \<Rightarrow> int \<Rightarrow> (bool \<times> buffer) option" where
  "buf_write_u32 dest x = buf_write dest (u32_bytes (word_of_int x))"

text \<open>The pair \<open>(BPTR(b), BLEN(b))\<close> that \<open>buf_copy\<close> and its kin hand to \<open>memcpy\<close>.\<close>

definition buf_bytes :: "buffer \<Rightarrow> bytes option" where
  "buf_bytes b =
     (case buf_bptr b of None \<Rightarrow> Some [] | Some p \<Rightarrow> buf_load b p (buf_len b))"

definition buf_copy :: "buffer \<Rightarrow> buffer \<Rightarrow> (bool \<times> buffer) option" where
  "buf_copy dest src = do { xs \<leftarrow> buf_bytes src; buf_write dest xs }"

definition buf_copy_n :: "buffer \<Rightarrow> buffer \<Rightarrow> int \<Rightarrow> (bool \<times> buffer \<times> buffer) option" where
  "buf_copy_n dest src n =
     (case buf_read_alloc src n of
        (None, src') \<Rightarrow> Some (False, dest, src')
      | (Some cp, src') \<Rightarrow>
          do { xs \<leftarrow> buf_load src' cp n;
               (ok, dest') \<leftarrow> buf_write dest xs;
               Some (ok, dest', src') })"

definition buf_copy_range ::
  "buffer \<Rightarrow> int \<Rightarrow> buffer \<Rightarrow> int \<Rightarrow> int \<Rightarrow> (bool \<times> buffer) option" where
  "buf_copy_range dest dest_index src src_index src_len =
     (if src_index < 0 \<or> src_len < 0 \<or> src_index + src_len > b_len src
         \<or> dest_index < 0 \<or> b_offset dest + dest_index + src_len > b_capacity dest
      then Some (False, dest)
      else do { xs \<leftarrow> buf_load src (b_offset src + src_index) src_len;
                dest' \<leftarrow> buf_store dest (b_offset dest + dest_index) xs;
                Some (True, if dest_index + src_len > b_len dest'
                            then dest'\<lparr>b_len := dest_index + src_len\<rparr> else dest') })"

definition buf_copy_excess ::
  "buffer \<Rightarrow> buffer \<Rightarrow> int \<Rightarrow> (bool \<times> buffer \<times> buffer) option" where
  "buf_copy_excess dest src n =
     (if n < 0 then Some (False, dest, src)
      else if b_len src > n
      then (let b = src; src' = src\<lparr>b_len := n\<rparr>
            in case buf_advance b n of
                 (False, _) \<Rightarrow> Some (False, dest, src')
               | (True, b') \<Rightarrow>
                   do { (ok, dest') \<leftarrow> buf_copy dest b'; Some (ok, dest', src') })
      else Some (True, dest, src))"

definition buf_read :: "buffer \<Rightarrow> int \<Rightarrow> (bytes option \<times> buffer) option" where
  "buf_read src n =
     (case buf_read_alloc src n of
        (None, b) \<Rightarrow> Some (None, b)
      | (Some cp, b) \<Rightarrow> do { xs \<leftarrow> buf_load b cp n; Some (Some xs, b) })"

definition buf_read_u8 :: "buffer \<Rightarrow> (int \<times> buffer) option" where
  "buf_read_u8 b =
     (if buf_len b < 1 then Some (-1, b)
      else do { p \<leftarrow> buf_bptr b;
                xs \<leftarrow> buf_load b p 1;
                Some (uint (hd xs), snd (buf_advance b 1)) })"

definition buf_read_u16 :: "buffer \<Rightarrow> (int \<times> buffer) option" where
  "buf_read_u16 b =
     do { (r, b') \<leftarrow> buf_read b 2;
          Some (case r of None \<Rightarrow> -1 | Some xs \<Rightarrow> uint (bytes_u16 xs), b') }"

definition buf_read_u32 :: "buffer \<Rightarrow> (u32 \<times> bool \<times> buffer) option" where
  "buf_read_u32 b =
     do { (r, b') \<leftarrow> buf_read b 4;
          Some (case r of None \<Rightarrow> (0, False, b') | Some xs \<Rightarrow> (bytes_u32 xs, True, b')) }"

definition buf_equal :: "buffer \<Rightarrow> buffer \<Rightarrow> bool option" where
  "buf_equal a b = do { xs \<leftarrow> buf_bytes a; ys \<leftarrow> buf_bytes b; Some (buf_len a = buf_len b \<and> xs = ys) }"

definition buf_string_match_head :: "buffer \<Rightarrow> bytes \<Rightarrow> bool option" where
  "buf_string_match_head src match =
     (if int (length match) > b_len src then Some False
      else do { p \<leftarrow> buf_bptr src;
                xs \<leftarrow> buf_load src p (int (length match));
                Some (xs = match) })"

definition alloc_buf :: "int \<Rightarrow> buffer option" where
  "alloc_buf sz =
     do { ASSERT (buf_size_valid sz);
          Some \<lparr>b_capacity = sz, b_offset = 0, b_len = 0,
                b_data = Some (replicate (nat sz) 0)\<rparr> }"

text \<open>
  \<open>clone_buf\<close> copies the content into a fresh block; the rest of that block is whatever
  \<open>malloc\<close> returned, the parameter \<open>fresh\<close> (a block of the buffer's capacity).
\<close>

definition clone_buf :: "bytes \<Rightarrow> buffer \<Rightarrow> buffer option" where
  "clone_buf fresh b =
     do { xs \<leftarrow> buf_bytes b;
          let ret = b\<lparr>b_data := Some (take (nat (b_capacity b)) fresh)\<rparr>;
          case buf_bptr ret of
            None \<Rightarrow> (if xs = [] then Some ret else None)
          | Some p \<Rightarrow> buf_store ret p xs }"

definition buf_clear :: "buffer \<Rightarrow> buffer option" where
  "buf_clear b =
     do { b' \<leftarrow> (if b_capacity b > 0
                 then buf_store b 0 (replicate (nat (b_capacity b)) 0) else Some b);
          Some (b'\<lparr>b_len := 0, b_offset := 0\<rparr>) }"

definition buf_assign :: "buffer \<Rightarrow> buffer \<Rightarrow> (bool \<times> buffer) option" where
  "buf_assign dest src =
     (case buf_init dest (b_offset src) of
        (False, d) \<Rightarrow> Some (False, d)
      | (True, d) \<Rightarrow> buf_copy d src)"

definition free_buf :: "buffer \<Rightarrow> buffer" where
  "free_buf b = clear_buf"

text \<open>
  \<open>buf_sub\<close> returns a buffer whose block is a part of the block of \<open>buf\<close>. In the model the
  part is copied out, with its place, and \<open>buf_sub_sync\<close> writes it back where the code
  would already see the shared bytes.
\<close>

definition buf_sub :: "buffer \<Rightarrow> int \<Rightarrow> bool \<Rightarrow> (buffer \<times> int \<times> buffer) option" where
  "buf_sub b sz prep =
     (case buf_write_alloc_prepend b sz prep of
        (None, b') \<Rightarrow> Some (clear_buf, 0, b')
      | (Some p, b') \<Rightarrow>
          do { xs \<leftarrow> buf_load b' p sz;
               Some (\<lparr>b_capacity = sz, b_offset = 0, b_len = 0, b_data = Some xs\<rparr>, p, b') })"

definition buf_sub_sync :: "buffer \<Rightarrow> int \<Rightarrow> buffer \<Rightarrow> buffer option" where
  "buf_sub_sync b p sub = do { xs \<leftarrow> b_data sub; buf_store b p xs }"

section \<open>Well-formed buffers and their content\<close>

definition buf_ok :: "buffer \<Rightarrow> bool" where
  "buf_ok b \<longleftrightarrow>
     (\<exists>d. b_data b = Some d \<and> int (length d) = b_capacity b) \<and>
     0 \<le> b_offset b \<and> 0 \<le> b_len b \<and> b_offset b + b_len b \<le> b_capacity b \<and>
     b_capacity b < BUF_SIZE_MAX"

definition buf_content :: "buffer \<Rightarrow> bytes" where
  "buf_content b =
     (case b_data b of None \<Rightarrow> [] | Some d \<Rightarrow> take (nat (b_len b)) (drop (nat (b_offset b)) d))"

text \<open>The room behind the content, and the effect of the operations on a well-formed buffer.\<close>

definition buf_room :: "buffer \<Rightarrow> int" where
  "buf_room b = b_capacity b - b_offset b - b_len b"

definition buf_append :: "buffer \<Rightarrow> bytes \<Rightarrow> buffer" where
  "buf_append b xs =
     (let d = the (b_data b); p = nat (b_offset b + b_len b)
      in b\<lparr>b_len := b_len b + int (length xs),
           b_data := Some (take p d @ xs @ drop (p + length xs) d)\<rparr>)"

definition buf_push :: "buffer \<Rightarrow> bytes \<Rightarrow> buffer" where
  "buf_push b xs =
     (let d = the (b_data b); p = nat (b_offset b - int (length xs))
      in b\<lparr>b_offset := b_offset b - int (length xs), b_len := b_len b + int (length xs),
           b_data := Some (take p d @ xs @ drop (p + length xs) d)\<rparr>)"

definition buf_drop :: "buffer \<Rightarrow> int \<Rightarrow> buffer" where
  "buf_drop b n = b\<lparr>b_offset := b_offset b + n, b_len := b_len b - n\<rparr>"

lemma buf_ok_code [code]:
  "buf_ok b \<longleftrightarrow>
     (case b_data b of None \<Rightarrow> False | Some d \<Rightarrow> int (length d) = b_capacity b) \<and>
     0 \<le> b_offset b \<and> 0 \<le> b_len b \<and> b_offset b + b_len b \<le> b_capacity b \<and> b_capacity b < BUF_SIZE_MAX"
  by (auto simp: buf_ok_def split: option.splits)

lemma buf_okE:
  assumes "buf_ok b"
  obtains d where "b_data b = Some d" "int (length d) = b_capacity b" "0 \<le> b_offset b"
    "0 \<le> b_len b" "b_offset b + b_len b \<le> int (length d)" "b_capacity b < BUF_SIZE_MAX"
    "buf_valid b"
  using assms by (auto simp: buf_ok_def buf_valid_def)

lemma buf_ok_bounds:
  "buf_ok b \<Longrightarrow> 0 \<le> b_offset b \<and> 0 \<le> b_len b \<and> b_offset b + b_len b \<le> b_capacity b \<and>
     b_capacity b < BUF_SIZE_MAX"
  by (simp add: buf_ok_def)

lemma buf_ok_valid [simp]: "buf_ok b \<Longrightarrow> buf_valid b"
  by (auto simp: buf_ok_def buf_valid_def)

lemma length_buf_content: "buf_ok b \<Longrightarrow> int (length (buf_content b)) = b_len b"
  by (auto simp: buf_ok_def buf_content_def)

lemma buf_len_ok [simp]: "buf_ok b \<Longrightarrow> buf_len b = int (length (buf_content b))"
  by (simp add: buf_len_def length_buf_content)

lemma buf_bptr_ok [simp]: "buf_ok b \<Longrightarrow> buf_bptr b = Some (b_offset b)"
  by (simp add: buf_bptr_def)

lemma buf_bytes_ok [simp]: "buf_ok b \<Longrightarrow> buf_bytes b = Some (buf_content b)"
  by (elim buf_okE)
     (simp add: buf_bytes_def buf_bptr_def buf_len_def buf_load_def buf_content_def mem_read_Some)

lemma buf_room_nonneg: "buf_ok b \<Longrightarrow> 0 \<le> buf_room b"
  by (auto simp: buf_ok_def buf_room_def)

subsection \<open>Each operation, on a well-formed buffer\<close>

lemma buf_write_ok [ovpn_simps]:
  assumes "buf_ok b"
  shows "buf_write b xs =
    Some (if int (length xs) \<le> buf_room b then (True, buf_append b xs) else (False, b))"
  using assms
  by (elim buf_okE)
     (auto simp: buf_write_def buf_write_alloc_def buf_safe_def buf_size_valid_def buf_bptr_def
        buf_store_def buf_room_def buf_append_def mem_write_Some buf_valid_def Let_def
        split: option.splits)

lemma buf_write_prepend_ok [ovpn_simps]:
  assumes "buf_ok b"
  shows "buf_write_prepend b xs =
    Some (if int (length xs) \<le> b_offset b then (True, buf_push b xs) else (False, b))"
  using assms
  by (elim buf_okE)
     (auto simp: buf_write_prepend_def buf_prepend_def buf_bptr_def buf_valid_def Let_def
        buf_store_def buf_push_def mem_write_Some split: option.splits)

lemma buf_read_ok [ovpn_simps]:
  assumes "buf_ok b" "0 \<le> n"
  shows "buf_read b n =
    Some (if n \<le> b_len b then (Some (take (nat n) (buf_content b)), buf_drop b n) else (None, b))"
  using assms
  by (elim buf_okE)
     (auto simp: buf_read_def buf_read_alloc_def buf_bptr_def buf_load_def mem_read_Some
        buf_content_def buf_drop_def buf_valid_def take_take min_def split: option.splits)

lemma buf_advance_ok [ovpn_simps]:
  assumes "buf_ok b"
  shows "buf_advance b n = (if 0 \<le> n \<and> n \<le> b_len b then (True, buf_drop b n) else (False, b))"
  using assms by (auto simp: buf_advance_def buf_drop_def)

lemma buf_append_ok [simp]:
  assumes "buf_ok b" "int (length xs) \<le> buf_room b"
  shows "buf_ok (buf_append b xs)" "buf_content (buf_append b xs) = buf_content b @ xs"
    "b_offset (buf_append b xs) = b_offset b" "b_capacity (buf_append b xs) = b_capacity b"
    "b_len (buf_append b xs) = b_len b + int (length xs)"
    "buf_room (buf_append b xs) = buf_room b - int (length xs)"
proof -
  obtain d where d: "b_data b = Some d" "int (length d) = b_capacity b" "0 \<le> b_offset b"
    "0 \<le> b_len b" "b_offset b + b_len b \<le> int (length d)" "b_capacity b < BUF_SIZE_MAX"
    using assms(1) by (rule buf_okE)
  obtain o' l where ol: "b_offset b = int o'" "b_len b = int l"
    using d(3,4) nonneg_eq_int by metis
  have fits: "o' + l + length xs \<le> length d"
    using assms(2) d ol by (simp add: buf_room_def)
  show "buf_ok (buf_append b xs)"
    using d ol fits by (simp add: buf_ok_def buf_append_def Let_def nat_add_distrib)
  obtain A B C where ABC: "d = A @ B @ C" "length A = o'" "length B = l"
  proof
    show "d = take o' d @ take l (drop o' d) @ drop l (drop o' d)"
      by (simp only: append_take_drop_id)
  qed (use fits in simp_all)
  have "nat (int l + int (length xs)) = l + length xs" "nat (int o' + int l) = o' + l"
    by simp_all
  then show "buf_content (buf_append b xs) = buf_content b @ xs"
    using d(1) ol ABC by (simp add: buf_content_def buf_append_def Let_def)
qed (simp_all add: buf_append_def buf_room_def Let_def)

lemma buf_push_ok [simp]:
  assumes "buf_ok b" "int (length xs) \<le> b_offset b"
  shows "buf_ok (buf_push b xs)" "buf_content (buf_push b xs) = xs @ buf_content b"
    "b_offset (buf_push b xs) = b_offset b - int (length xs)"
    "b_capacity (buf_push b xs) = b_capacity b"
    "b_len (buf_push b xs) = b_len b + int (length xs)"
    "buf_room (buf_push b xs) = buf_room b"
proof -
  obtain d where d: "b_data b = Some d" "int (length d) = b_capacity b" "0 \<le> b_offset b"
    "0 \<le> b_len b" "b_offset b + b_len b \<le> int (length d)" "b_capacity b < BUF_SIZE_MAX"
    using assms(1) by (rule buf_okE)
  obtain p l where ol: "b_offset b = int (p + length xs)" "b_len b = int l"
    using d(3,4) assms(2) nonneg_eq_int zle_iff_zadd
    by (metis add.commute of_nat_add)
  have fits: "p + length xs + l \<le> length d"
    using d ol by simp
  show "buf_ok (buf_push b xs)"
    using d ol fits by (simp add: buf_ok_def buf_push_def Let_def)
  have "nat (int l + int (length xs)) = length xs + l"
    "nat (int p + int (length xs)) = p + length xs" by simp_all
  then show "buf_content (buf_push b xs) = xs @ buf_content b"
    using d(1) ol fits
    by (simp add: buf_content_def buf_push_def Let_def)
qed (simp_all add: buf_push_def buf_room_def Let_def)

lemma buf_drop_ok [simp]:
  assumes "buf_ok b" "0 \<le> n" "n \<le> b_len b"
  shows "buf_ok (buf_drop b n)" "buf_content (buf_drop b n) = drop (nat n) (buf_content b)"
    "b_offset (buf_drop b n) = b_offset b + n" "b_capacity (buf_drop b n) = b_capacity b"
    "b_len (buf_drop b n) = b_len b - n" "buf_room (buf_drop b n) = buf_room b"
proof -
  show "buf_ok (buf_drop b n)"
    using assms by (auto simp: buf_ok_def buf_drop_def)
  show "buf_content (buf_drop b n) = drop (nat n) (buf_content b)"
    using assms
    by (auto simp: buf_ok_def buf_content_def buf_drop_def nat_add_distrib nat_diff_distrib
        drop_take add.commute)
qed (simp_all add: buf_drop_def buf_room_def)

section \<open>The interface the wire formats use\<close>

text \<open>
  A first-in first-out store of octets with a bounded room: what a component may rely on
  when it writes a record field by field and when it reads one back.
\<close>

locale octet_fifo =
  fixes ok :: "'b \<Rightarrow> bool"
    and cont :: "'b \<Rightarrow> bytes"
    and room :: "'b \<Rightarrow> int"
    and put :: "'b \<Rightarrow> bytes \<Rightarrow> (bool \<times> 'b) option"
    and get :: "'b \<Rightarrow> int \<Rightarrow> (bytes option \<times> 'b) option"
    and app :: "'b \<Rightarrow> bytes \<Rightarrow> 'b"
    and cut :: "'b \<Rightarrow> int \<Rightarrow> 'b"
  assumes put_eq: "ok b \<Longrightarrow>
      put b xs = Some (if int (length xs) \<le> room b then (True, app b xs) else (False, b))"
    and get_eq: "ok b \<Longrightarrow> 0 \<le> n \<Longrightarrow>
      get b n = Some (if n \<le> int (length (cont b))
                      then (Some (take (nat n) (cont b)), cut b n) else (None, b))"
    and ok_app: "ok b \<Longrightarrow> int (length xs) \<le> room b \<Longrightarrow> ok (app b xs)"
    and cont_app: "ok b \<Longrightarrow> int (length xs) \<le> room b \<Longrightarrow> cont (app b xs) = cont b @ xs"
    and room_app: "ok b \<Longrightarrow> int (length xs) \<le> room b \<Longrightarrow> room (app b xs) = room b - int (length xs)"
    and ok_cut: "ok b \<Longrightarrow> 0 \<le> n \<Longrightarrow> n \<le> int (length (cont b)) \<Longrightarrow> ok (cut b n)"
    and cont_cut: "ok b \<Longrightarrow> 0 \<le> n \<Longrightarrow> n \<le> int (length (cont b)) \<Longrightarrow> cont (cut b n) = drop (nat n) (cont b)"
    and room_cut: "ok b \<Longrightarrow> 0 \<le> n \<Longrightarrow> n \<le> int (length (cont b)) \<Longrightarrow> room (cut b n) = room b"
begin

lemmas fifo_simps = put_eq get_eq ok_app cont_app room_app ok_cut cont_cut room_cut

lemma get_prefix:
  assumes "ok b" "cont b = xs @ ys" "n = int (length xs)"
  shows "get b n = Some (Some xs, cut b n)" "cont (cut b n) = ys" "ok (cut b n)"
    "room (cut b n) = room b"
  using assms by (simp_all add: fifo_simps)

text \<open>Writing a list of fields, and reading back fields of given lengths.\<close>

primrec puts :: "'b \<Rightarrow> bytes list \<Rightarrow> (bool \<times> 'b) option" where
  "puts b [] = Some (True, b)"
| "puts b (x # xs) = do { (r, b') \<leftarrow> put b x; if r then puts b' xs else Some (False, b') }"

primrec gets :: "'b \<Rightarrow> nat list \<Rightarrow> (bytes list option \<times> 'b) option" where
  "gets b [] = Some (Some [], b)"
| "gets b (n # ns) =
     do { (r, b') \<leftarrow> get b (int n);
          case r of None \<Rightarrow> Some (None, b')
          | Some x \<Rightarrow> do { (rs, b'') \<leftarrow> gets b' ns; Some (map_option (Cons x) rs, b'') } }"

lemma puts_fit:
  "ok b \<Longrightarrow> int (length (concat xss)) \<le> room b \<Longrightarrow>
   \<exists>b'. puts b xss = Some (True, b') \<and> ok b' \<and> cont b' = cont b @ concat xss \<and>
        room b' = room b - int (length (concat xss))"
proof (induction xss arbitrary: b)
  case (Cons x xss)
  from Cons.prems have x: "int (length x) \<le> room b" by simp
  with Cons.prems have "\<exists>b'. puts (app b x) xss = Some (True, b') \<and> ok b' \<and>
      cont b' = cont (app b x) @ concat xss \<and> room b' = room (app b x) - int (length (concat xss))"
    by (intro Cons.IH) (simp_all add: fifo_simps)
  with Cons.prems x show ?case by (auto simp: fifo_simps)
qed simp

lemma gets_fields:
  "ok b \<Longrightarrow> cont b = concat xss @ ys \<Longrightarrow>
   \<exists>b'. gets b (map length xss) = Some (Some xss, b') \<and> ok b' \<and> cont b' = ys \<and> room b' = room b"
proof (induction xss arbitrary: b)
  case (Cons x xss)
  let ?n = "int (length x)"
  have "cont b = x @ (concat xss @ ys)" using Cons.prems(2) by simp
  note r = get_prefix [OF Cons.prems(1) this refl]
  from Cons.IH [OF r(3,2)] show ?case
    by (auto simp: r(1,4))
qed simp

text \<open>What is written to an empty store is read back field by field.\<close>

lemma puts_gets:
  assumes "ok b" "cont b = []" "int (length (concat xss)) \<le> room b"
  shows "\<exists>b' b''. puts b xss = Some (True, b') \<and> gets b' (map length xss) = Some (Some xss, b'') \<and>
     cont b'' = []"
proof -
  obtain b' where b': "puts b xss = Some (True, b')" "ok b'" "cont b' = concat xss"
    using puts_fit [OF assms(1,3)] assms(2) by auto
  obtain b'' where "gets b' (map length xss) = Some (Some xss, b'')" "cont b'' = []"
    using gets_fields [of b' xss "[]"] b' by auto
  with b' show ?thesis by blast
qed

end

text \<open>The code's buffers provide the interface.\<close>

interpretation bq: octet_fifo buf_ok buf_content buf_room buf_write buf_read buf_append buf_drop
  by unfold_locales (simp_all add: buf_write_ok buf_read_ok length_buf_content)

section \<open>Copies between buffers\<close>

lemma buf_copy_ok [ovpn_simps]:
  assumes "buf_ok dest" "buf_ok src"
  shows "buf_copy dest src =
    Some (if b_len src \<le> buf_room dest then (True, buf_append dest (buf_content src)) else (False, dest))"
  using assms by (simp add: buf_copy_def buf_write_ok length_buf_content)

lemma buf_load_ok:
  assumes "buf_ok b" "b_offset b \<le> p" "0 \<le> n" "p + n \<le> b_offset b + b_len b"
  shows "buf_load b p n = Some (take (nat n) (drop (nat (p - b_offset b)) (buf_content b)))"
  using assms
  by (auto simp: buf_ok_def buf_load_def mem_read_Some buf_content_def drop_take take_take min_def
      nat_diff_distrib nat_add_distrib split: option.splits)

lemma buf_copy_n_ok [ovpn_simps]:
  assumes "buf_ok dest" "buf_ok src" "0 \<le> n" "n \<le> b_len src" "n \<le> buf_room dest"
  shows "buf_copy_n dest src n =
    Some (True, buf_append dest (take (nat n) (buf_content src)), buf_drop src n)"
proof -
  have "buf_read src n = Some (Some (take (nat n) (buf_content src)), buf_drop src n)"
    using assms by (simp add: buf_read_ok)
  then have "buf_load (snd (buf_read_alloc src n)) (b_offset src) n = Some (take (nat n) (buf_content src))"
    using assms by (auto simp: buf_read_def buf_read_alloc_def split: option.splits Option.bind_splits)
  moreover have "buf_read_alloc src n = (Some (b_offset src), buf_drop src n)"
    using assms by (auto simp: buf_read_alloc_def buf_drop_def)
  moreover have "length (buf_content src) = nat (b_len src)"
    using length_buf_content [OF assms(2)] by simp
  ultimately show ?thesis
    using assms by (auto simp: buf_copy_n_def buf_write_ok min_def)
qed

text \<open>
  \<open>buf_copy_range\<close> writes anywhere behind the head room and may leave a gap: its effect is
  stated on the area, the whole part of the block from the head room on.
\<close>

definition buf_area :: "buffer \<Rightarrow> bytes" where
  "buf_area b = (case b_data b of None \<Rightarrow> [] | Some d \<Rightarrow> drop (nat (b_offset b)) d)"

lemma buf_content_area: "buf_content b = take (nat (b_len b)) (buf_area b)"
  by (simp add: buf_content_def buf_area_def split: option.splits)

lemma length_buf_area: "buf_ok b \<Longrightarrow> int (length (buf_area b)) = b_capacity b - b_offset b"
  by (auto simp: buf_ok_def buf_area_def)

lemma buf_copy_range_ok:
  assumes "buf_ok dest" "buf_ok src" "0 \<le> di"
    and fits: "b_offset dest + di + b_len src \<le> b_capacity dest"
  obtains dest' where "buf_copy_range dest di src 0 (b_len src) = Some (True, dest')"
    "buf_ok dest'" "b_offset dest' = b_offset dest" "b_capacity dest' = b_capacity dest"
    "b_len dest' = max (b_len dest) (di + b_len src)"
    "buf_area dest' = take (nat di) (buf_area dest) @ buf_content src
       @ drop (nat di + length (buf_content src)) (buf_area dest)"
proof -
  obtain d where d: "b_data dest = Some d" "int (length d) = b_capacity dest" "0 \<le> b_offset dest"
    "0 \<le> b_len dest" "b_offset dest + b_len dest \<le> int (length d)" "b_capacity dest < BUF_SIZE_MAX"
    using assms(1) by (rule buf_okE)
  let ?xs = "buf_content src" and ?p = "b_offset dest + di"
  have xs: "buf_load src (b_offset src + 0) (b_len src) = Some ?xs"
    using buf_load_ok [OF assms(2), of "b_offset src" "b_len src"] length_buf_content [OF assms(2)]
      buf_ok_bounds [OF assms(2)] by simp
  have len: "int (length ?xs) = b_len src" by (rule length_buf_content [OF assms(2)])
  define m where "m = take (nat ?p) d @ ?xs @ drop (nat ?p + length ?xs) d"
  define dest1 where "dest1 = dest\<lparr>b_data := Some m\<rparr>"
  have st: "buf_store dest ?p ?xs = Some dest1"
    using d assms(3) fits len by (simp add: buf_store_def mem_write_Some m_def dest1_def)
  have lm: "length m = length d"
    using d assms(3) fits len by (simp add: m_def)
  define dest' where "dest' = (if di + b_len src > b_len dest1
      then dest1\<lparr>b_len := di + b_len src\<rparr> else dest1)"
  show ?thesis
  proof
    show "buf_copy_range dest di src 0 (b_len src) = Some (True, dest')"
      using assms(3) fits xs st buf_ok_bounds [OF assms(2)] d
      by (auto simp: buf_copy_range_def dest'_def)
    show "buf_ok dest'"
      using d lm assms(3) fits buf_ok_bounds [OF assms(2)]
      by (auto simp: buf_ok_def dest'_def dest1_def)
    have "nat ?p = nat (b_offset dest) + nat di"
      using d assms(3) by (simp add: nat_add_distrib)
    then show "buf_area dest' = take (nat di) (buf_area dest) @ ?xs
        @ drop (nat di + length ?xs) (buf_area dest)"
      using d assms(3) fits len
      by (simp add: buf_area_def dest'_def dest1_def m_def drop_take ac_simps)
  qed (auto simp: dest'_def dest1_def)
qed

lemma buf_copy_range_overflow:
  "b_capacity dest < b_offset dest + di + b_len src \<Longrightarrow>
   buf_copy_range dest di src 0 (b_len src) = Some (False, dest)"
  by (simp add: buf_copy_range_def)

subsection \<open>Sub-buffers\<close>

lemma buf_sub_append:
  assumes "buf_ok b" "0 \<le> n" "n \<le> buf_room b"
  obtains sub p b' where "buf_sub b n False = Some (sub, p, b')" "buf_ok sub" "buf_defined sub"
    "buf_content sub = []" "buf_room sub = n" "b_offset sub = 0" "b_capacity sub = n"
    "\<And>sub' xs. b_data sub' = Some xs \<Longrightarrow> int (length xs) = n \<Longrightarrow>
       buf_sub_sync b' p sub' = Some (buf_append b xs)"
proof -
  obtain d where d: "b_data b = Some d" "int (length d) = b_capacity b" "0 \<le> b_offset b"
    "0 \<le> b_len b" "b_offset b + b_len b \<le> int (length d)" "b_capacity b < BUF_SIZE_MAX" "buf_valid b"
    using assms(1) by (rule buf_okE)
  let ?p = "b_offset b + b_len b"
  let ?xs = "take (nat n) (drop (nat ?p) d)"
  have len: "int (length ?xs) = n"
    using d assms by (simp add: buf_room_def)
  show ?thesis
  proof
    show "buf_sub b n False =
        Some (\<lparr>b_capacity = n, b_offset = 0, b_len = 0, b_data = Some ?xs\<rparr>, ?p, b\<lparr>b_len := b_len b + n\<rparr>)"
      using d assms
      by (simp add: buf_sub_def buf_write_alloc_prepend_def buf_write_alloc_def buf_safe_def
          buf_size_valid_def buf_room_def buf_load_def mem_read_Some)
    show "buf_ok \<lparr>b_capacity = n, b_offset = 0, b_len = 0, b_data = Some ?xs\<rparr>"
      using d assms len by (auto simp: buf_ok_def buf_room_def split: if_splits)
  qed (use d assms in \<open>auto simp: buf_sub_sync_def buf_store_def buf_append_def Let_def
      mem_write_Some buf_room_def buf_defined_def buf_content_def\<close>)
qed

lemma buf_sub_prepend:
  assumes "buf_ok b" "0 \<le> n" "n \<le> b_offset b"
  obtains sub p b' where "buf_sub b n True = Some (sub, p, b')" "buf_ok sub" "buf_defined sub"
    "buf_content sub = []" "buf_room sub = n" "b_offset sub = 0" "b_capacity sub = n"
    "\<And>sub' xs. b_data sub' = Some xs \<Longrightarrow> int (length xs) = n \<Longrightarrow>
       buf_sub_sync b' p sub' = Some (buf_push b xs)"
proof -
  obtain d where d: "b_data b = Some d" "int (length d) = b_capacity b" "0 \<le> b_offset b"
    "0 \<le> b_len b" "b_offset b + b_len b \<le> int (length d)" "b_capacity b < BUF_SIZE_MAX" "buf_valid b"
    using assms(1) by (rule buf_okE)
  let ?p = "b_offset b - n"
  let ?xs = "take (nat n) (drop (nat ?p) d)"
  have len: "int (length ?xs) = n"
    using d assms by simp
  show ?thesis
  proof
    show "buf_sub b n True =
        Some (\<lparr>b_capacity = n, b_offset = 0, b_len = 0, b_data = Some ?xs\<rparr>, ?p,
              b\<lparr>b_offset := ?p, b_len := b_len b + n\<rparr>)"
      using d assms
      by (simp add: buf_sub_def buf_write_alloc_prepend_def buf_prepend_def buf_bptr_def
          buf_valid_def buf_load_def mem_read_Some)
    show "buf_ok \<lparr>b_capacity = n, b_offset = 0, b_len = 0, b_data = Some ?xs\<rparr>"
      using d assms len by (auto simp: buf_ok_def split: if_splits)
  qed (use d assms in \<open>auto simp: buf_sub_sync_def buf_store_def buf_push_def Let_def
      mem_write_Some buf_room_def buf_defined_def buf_content_def\<close>)
qed

lemma buf_sub_ok:
  assumes "buf_ok b" "0 \<le> n" "if prep then n \<le> b_offset b else n \<le> buf_room b"
  obtains sub p b' where "buf_sub b n prep = Some (sub, p, b')" "buf_ok sub" "buf_defined sub"
    "buf_content sub = []" "buf_room sub = n" "b_offset sub = 0" "b_capacity sub = n"
    "\<And>sub' xs. b_data sub' = Some xs \<Longrightarrow> int (length xs) = n \<Longrightarrow>
       buf_sub_sync b' p sub' = Some (if prep then buf_push b xs else buf_append b xs)"
proof (cases prep)
  case True
  with assms(3) have r: "n \<le> b_offset b" by simp
  show thesis
    by (rule buf_sub_prepend [OF assms(1,2) r], rule that) (auto simp: True)
next
  case False
  with assms(3) have r: "n \<le> buf_room b" by simp
  show thesis
    by (rule buf_sub_append [OF assms(1,2) r], rule that) (auto simp: False)
qed

lemma buf_sub_none:
  assumes "buf_ok b" "0 \<le> n" "if prep then b_offset b < n else buf_room b < n"
  shows "buf_sub b n prep = Some (clear_buf, 0, b)"
  using assms
  by (auto simp: buf_sub_def buf_write_alloc_prepend_def buf_prepend_def buf_write_alloc_def
      buf_safe_def buf_room_def split: if_splits)

subsection \<open>Octets and integers\<close>

lemma buf_read_u8_ok [ovpn_simps]:
  assumes "buf_ok b"
  shows "buf_read_u8 b =
    Some (case buf_content b of [] \<Rightarrow> (-1, b) | x # _ \<Rightarrow> (uint x, buf_drop b 1))"
proof (cases "buf_content b")
  case Nil
  with assms show ?thesis by (simp add: buf_read_u8_def)
next
  case (Cons x xs)
  then have "1 \<le> b_len b" using length_buf_content [OF assms] by simp
  then show ?thesis
    using assms Cons buf_load_ok [OF assms, of "b_offset b" 1]
    by (simp add: buf_read_u8_def buf_advance_ok)
qed

lemma buf_read_u32_prefix:
  assumes "buf_ok b" "buf_content b = u32_bytes w @ ys"
  shows "buf_read b 4 = Some (Some (u32_bytes w), buf_drop b 4)" "buf_ok (buf_drop b 4)"
    "buf_content (buf_drop b 4) = ys"
  using bq.get_prefix [OF assms, of 4] by simp_all

end
