(* ===== verification/CInteger.thy ===== *)
theory CInteger
  imports OvpnPrelude
begin

text \<open>
  The arithmetic helpers of \<^verbatim>\<open>openvpn/integer.h\<close>: minimum and maximum, clamping,
  addition and subtraction on a circle, the power of two above a size and the checked index.
\<close>

definition max_int :: "int \<Rightarrow> int \<Rightarrow> int" where
  "max_int x y = (if x > y then x else y)"

definition min_int :: "int \<Rightarrow> int \<Rightarrow> int" where
  "min_int x y = (if x < y then x else y)"

definition constrain_int :: "int \<Rightarrow> int \<Rightarrow> int \<Rightarrow> int" where
  "constrain_int x mn mx =
     (if mn > mx then mn else if x < mn then mn else if x > mx then mx else x)"

definition modulo_subtract :: "int \<Rightarrow> int \<Rightarrow> int \<Rightarrow> int option" where
  "modulo_subtract x y md =
     (let d1 = x - y; d2 = (if x > y then - md else md) + d1
      in do { ASSERT (0 \<le> x \<and> x < md \<and> 0 \<le> y \<and> y < md);
              Some (if \<bar>d1\<bar> > \<bar>d2\<bar> then d2 else d1) })"

definition modulo_add :: "int \<Rightarrow> int \<Rightarrow> int \<Rightarrow> int option" where
  "modulo_add x y md =
     do { ASSERT (0 \<le> x \<and> x < md \<and> - md \<le> y \<and> y \<le> md);
          let s1 = x + y;
          let s2 = (if s1 \<ge> md then s1 - md else s1);
          Some (if s2 < 0 then s2 + md else s2) }"

text \<open>
  \<open>adjust_power_of_2\<close> doubles a \<open>size_t\<close>, here 64 bits wide, and asserts that it has not
  become zero. Every turn of the loop clears bits from the bottom, so that after at most 64
  doublings either the loop or the assertion ends it: the first argument counts them.
\<close>

fun adjust_power_of_2_loop :: "nat \<Rightarrow> u64 \<Rightarrow> u64 \<Rightarrow> u64 option" where
  "adjust_power_of_2_loop 0 ret u = None"
| "adjust_power_of_2_loop (Suc k) ret u =
     (if ret < u
      then do { let ret' = push_bit 1 ret;
                ASSERT (ret' > 0);
                adjust_power_of_2_loop k ret' u }
      else Some ret)"

definition adjust_power_of_2 :: "u64 \<Rightarrow> u64 option" where
  "adjust_power_of_2 u = adjust_power_of_2_loop 65 1 u"

definition index_verify :: "int \<Rightarrow> int \<Rightarrow> int option" where
  "index_verify i sz = (if i < 0 \<or> i \<ge> sz then None else Some i)"

section \<open>Properties\<close>

lemma max_int_max [simp]: "max_int x y = max x y"
  by (simp add: max_int_def max_def)

lemma min_int_min [simp]: "min_int x y = min x y"
  by (simp add: min_int_def min_def)

lemma constrain_int_bounds: "mn \<le> mx \<Longrightarrow> mn \<le> constrain_int x mn mx \<and> constrain_int x mn mx \<le> mx"
  by (simp add: constrain_int_def)

lemma index_verify_Some [simp]: "0 \<le> i \<Longrightarrow> i < n \<Longrightarrow> index_verify i n = Some i"
  by (simp add: index_verify_def)

text \<open>Within its contract, \<open>modulo_add\<close> is addition modulo the circumference.\<close>

lemma mod_unique_int: "0 \<le> r \<Longrightarrow> r < m \<Longrightarrow> x = r + m * q \<Longrightarrow> x mod m = (r::int)"
  by simp

lemma modulo_add_eq:
  assumes "0 \<le> x" "x < md" "- md \<le> y" "y \<le> md"
  shows "modulo_add x y md = Some ((x + y) mod md)"
proof -
  consider "x + y < 0" | "0 \<le> x + y" "x + y < md" | "md \<le> x + y"
    by linarith
  then show ?thesis
  proof cases
    case 1
    then have "(x + y) mod md = x + y + md"
      using assms by (intro mod_unique_int [where q = "-1"]) auto
    with 1 assms show ?thesis by (simp add: modulo_add_def)
  next
    case 2
    with assms show ?thesis by (simp add: modulo_add_def)
  next
    case 3
    then have "(x + y) mod md = x + y - md"
      using assms by (intro mod_unique_int [where q = 1]) auto
    with 3 assms show ?thesis by (simp add: modulo_add_def)
  qed
qed

lemma modulo_subtract_eq:
  assumes "0 \<le> x" "x < md" "0 \<le> y" "y < md"
  obtains d where "modulo_subtract x y md = Some d" "(y + d) mod md = x" "2 * \<bar>d\<bar> \<le> md"
proof
  let ?d1 = "x - y" and ?d2 = "(if x > y then - md else md) + (x - y)"
  let ?d = "if \<bar>?d1\<bar> > \<bar>?d2\<bar> then ?d2 else ?d1"
  show "modulo_subtract x y md = Some ?d"
    using assms by (simp add: modulo_subtract_def Let_def)
  show "(y + ?d) mod md = x"
    using assms by (auto intro!: mod_unique_int [where q = "-1"] mod_unique_int [where q = 1])
  show "2 * \<bar>?d\<bar> \<le> md"
    using assms by (auto simp: abs_if)
qed

end
