(* ===== verification/CircList.thy ===== *)
theory CircList
  imports CInteger
begin

text \<open>
  The circular lists of \<^verbatim>\<open>openvpn/circ_list.h\<close>: an array, the index of the newest
  item and the number of items. The abstraction \<open>circ_items\<close> lists the items from the newest
  to the oldest; the locale \<open>recent_items\<close> is what the replay window relies on.
\<close>

record 'a circ_list =
  x_head :: int
  x_size :: int
  x_cap :: int
  x_list :: "'a list"

definition circ_list_push :: "'a circ_list \<Rightarrow> 'a \<Rightarrow> 'a circ_list option" where
  "circ_list_push c it =
     do { h \<leftarrow> modulo_add (x_head c) (-1) (x_cap c);
          l \<leftarrow> arr_set (x_list c) h it;
          Some (c\<lparr>x_head := h, x_list := l, x_size := min_int (x_size c + 1) (x_cap c)\<rparr>) }"

definition circ_list_size :: "'a circ_list \<Rightarrow> int" where
  "circ_list_size c = x_size c"

definition circ_list_index :: "'a circ_list \<Rightarrow> int \<Rightarrow> int option" where
  "circ_list_index c i = do { j \<leftarrow> index_verify i (x_size c); modulo_add (x_head c) j (x_cap c) }"

definition circ_list_item :: "'a circ_list \<Rightarrow> int \<Rightarrow> 'a option" where
  "circ_list_item c i = do { j \<leftarrow> circ_list_index c i; arr_get (x_list c) j }"

text \<open>The assignment \<open>CIRC_LIST_ITEM(obj, index) = v\<close>.\<close>

definition circ_list_set :: "'a circ_list \<Rightarrow> int \<Rightarrow> 'a \<Rightarrow> 'a circ_list option" where
  "circ_list_set c i v =
     do { j \<leftarrow> circ_list_index c i; l \<leftarrow> arr_set (x_list c) j v; Some (c\<lparr>x_list := l\<rparr>) }"

definition circ_list_reset :: "'a circ_list \<Rightarrow> 'a circ_list" where
  "circ_list_reset c = c\<lparr>x_head := 0, x_size := 0\<rparr>"

text \<open>\<open>CIRC_LIST_ALLOC\<close> clears the block with \<open>memset\<close>: \<open>z\<close> is the item of zero bytes.\<close>

definition circ_list_alloc :: "'a \<Rightarrow> int \<Rightarrow> 'a circ_list" where
  "circ_list_alloc z sz = \<lparr>x_head = 0, x_size = 0, x_cap = sz, x_list = replicate (nat sz) z\<rparr>"

section \<open>The list a circular list stands for\<close>

definition circ_ok :: "'a circ_list \<Rightarrow> bool" where
  "circ_ok c \<longleftrightarrow> 0 < x_cap c \<and> int (length (x_list c)) = x_cap c \<and>
     0 \<le> x_head c \<and> x_head c < x_cap c \<and> 0 \<le> x_size c \<and> x_size c \<le> x_cap c"

definition circ_items :: "'a circ_list \<Rightarrow> 'a list" where
  "circ_items c =
     map (\<lambda>i. x_list c ! nat ((x_head c + int i) mod x_cap c)) [0..<nat (x_size c)]"

lemma length_circ_items: "circ_ok c \<Longrightarrow> int (length (circ_items c)) = x_size c"
  by (simp add: circ_ok_def circ_items_def)

lemma circ_index_eq:
  assumes "circ_ok c" "0 \<le> i" "i < x_size c"
  shows "circ_list_index c i = Some ((x_head c + i) mod x_cap c)"
  using assms by (simp add: circ_list_index_def circ_ok_def modulo_add_eq)

lemma circ_item_eq:
  assumes "circ_ok c" "0 \<le> i" "i < x_size c"
  shows "circ_list_item c i = Some (circ_items c ! nat i)"
  using assms
  by (simp add: circ_list_item_def circ_index_eq arr_get_Some circ_ok_def circ_items_def)

lemma mod_shift_inj:
  assumes "0 \<le> i" "i < m" "0 \<le> j" "j < m" "(h + i) mod m = (h + j) mod (m::int)"
  shows "i = j"
proof -
  have "(h + i - h) mod m = (h + j - h) mod m"
    using assms(5) by (metis mod_diff_left_eq)
  with assms show ?thesis by simp
qed

lemma circ_set_eq:
  assumes "circ_ok c" "0 \<le> i" "i < x_size c"
  shows "\<exists>c'. circ_list_set c i v = Some c' \<and> circ_ok c' \<and>
    circ_items c' = (circ_items c)[nat i := v] \<and> x_cap c' = x_cap c \<and> x_size c' = x_size c"
proof -
  let ?j = "nat ((x_head c + i) mod x_cap c)"
  let ?c' = "c\<lparr>x_list := (x_list c)[?j := v]\<rparr>"
  have j: "?j < length (x_list c)"
    using assms by (simp add: circ_ok_def nat_less_iff)
  have "circ_list_set c i v = Some ?c'"
    using assms by (simp add: circ_list_set_def circ_index_eq arr_set_Some circ_ok_def)
  moreover have "circ_items ?c' = (circ_items c)[nat i := v]"
  proof (rule nth_equalityI)
    fix n assume n: "n < length (circ_items ?c')"
    then have nl: "int n < x_size c" by (simp add: circ_items_def)
    have "(?j = nat ((x_head c + int n) mod x_cap c)) = (nat i = n)"
    proof
      assume "?j = nat ((x_head c + int n) mod x_cap c)"
      then have "(x_head c + i) mod x_cap c = (x_head c + int n) mod x_cap c"
        using assms by (simp add: circ_ok_def eq_nat_nat_iff)
      then have "i = int n"
        using assms nl by (intro mod_shift_inj [of i "x_cap c" "int n"]) (auto simp: circ_ok_def)
      then show "nat i = n" by simp
    qed (use assms in auto)
    then show "circ_items ?c' ! n = (circ_items c)[nat i := v] ! n"
      using n j assms by (simp add: circ_items_def nth_list_update)
  qed (simp add: circ_items_def)
  ultimately show ?thesis using assms(1) by (simp add: circ_ok_def)
qed

lemma circ_push_eq:
  assumes "circ_ok c"
  shows "\<exists>c'. circ_list_push c v = Some c' \<and> circ_ok c' \<and> x_cap c' = x_cap c \<and>
    circ_items c' = take (nat (x_cap c)) (v # circ_items c) \<and>
    x_size c' = min (x_size c + 1) (x_cap c)"
proof -
  let ?h = "(x_head c + (-1)) mod x_cap c"
  let ?c' = "c\<lparr>x_head := ?h, x_list := (x_list c)[nat ?h := v],
    x_size := min (x_size c + 1) (x_cap c)\<rparr>"
  have h: "0 \<le> ?h" "?h < x_cap c" using assms by (simp_all add: circ_ok_def)
  have hl: "nat ((x_head c - 1) mod x_cap c) < length (x_list c)"
    using h assms by (simp add: circ_ok_def nat_less_iff)
  have push: "circ_list_push c v = Some ?c'"
    using assms h by (simp add: circ_list_push_def modulo_add_eq arr_set_Some circ_ok_def)
  have "circ_items ?c' = take (nat (x_cap c)) (v # circ_items c)"
  proof (rule nth_equalityI)
    show len: "length (circ_items ?c') = length (take (nat (x_cap c)) (v # circ_items c))"
      using assms by (auto simp: circ_items_def circ_ok_def)
    fix n assume n: "n < length (circ_items ?c')"
    then have nb: "int n < x_cap c" "int n \<le> x_size c"
      by (auto simp: circ_items_def)
    show "circ_items ?c' ! n = take (nat (x_cap c)) (v # circ_items c) ! n"
    proof (cases n)
      case 0
      then show ?thesis using n nb hl assms by (simp add: circ_items_def circ_ok_def)
    next
      case (Suc m)
      have "(?h + int n) mod x_cap c = (x_head c + (-1) + int n) mod x_cap c"
        by (rule mod_add_left_eq)
      moreover have "x_head c + (-1) + int n = x_head c + int m"
        using Suc by simp
      ultimately have eq: "(?h + int n) mod x_cap c = (x_head c + int m) mod x_cap c"
        by (simp only:)
      have "(?h + int n) mod x_cap c \<noteq> ?h"
      proof
        assume "(?h + int n) mod x_cap c = ?h"
        then have "(?h + int n) mod x_cap c = (?h + 0) mod x_cap c" by simp
        then have "int n = 0"
          using nb assms by (intro mod_shift_inj [of "int n" "x_cap c" 0 ?h]) (simp_all add: circ_ok_def)
        with Suc show False by simp
      qed
      then have "nat ((?h + int n) mod x_cap c) \<noteq> nat ?h"
        using h assms by (simp add: circ_ok_def eq_nat_nat_iff)
      moreover have "m < nat (x_size c)"
        using nb Suc by simp
      ultimately show ?thesis
        using eq n nb Suc by (simp add: circ_items_def)
    qed
  qed
  with push show ?thesis using assms h by (auto simp: circ_ok_def)
qed

lemma circ_reset_eq:
  assumes "circ_ok c"
  shows "circ_ok (circ_list_reset c)" "circ_items (circ_list_reset c) = []"
    "x_cap (circ_list_reset c) = x_cap c" "x_size (circ_list_reset c) = 0"
  using assms by (simp_all add: circ_ok_def circ_list_reset_def circ_items_def)

lemma circ_alloc_ok:
  "0 < n \<Longrightarrow> circ_ok (circ_list_alloc z n) \<and> circ_items (circ_list_alloc z n) = []"
  by (simp add: circ_ok_def circ_list_alloc_def circ_items_def)

section \<open>The interface of a bounded list of recent items\<close>

locale recent_items =
  fixes ok :: "'c \<Rightarrow> bool"
    and items :: "'c \<Rightarrow> 'a list"
    and cap :: "'c \<Rightarrow> int"
    and push :: "'c \<Rightarrow> 'a \<Rightarrow> 'c option"
    and item :: "'c \<Rightarrow> int \<Rightarrow> 'a option"
    and upd :: "'c \<Rightarrow> int \<Rightarrow> 'a \<Rightarrow> 'c option"
  assumes cap_pos: "ok c \<Longrightarrow> 0 < cap c"
    and len_items: "ok c \<Longrightarrow> int (length (items c)) \<le> cap c"
    and push_law: "ok c \<Longrightarrow> \<exists>c'. push c v = Some c' \<and> ok c' \<and> cap c' = cap c \<and>
        items c' = take (nat (cap c)) (v # items c)"
    and item_law: "ok c \<Longrightarrow> 0 \<le> i \<Longrightarrow> i < int (length (items c)) \<Longrightarrow>
        item c i = Some (items c ! nat i)"
    and upd_law: "ok c \<Longrightarrow> 0 \<le> i \<Longrightarrow> i < int (length (items c)) \<Longrightarrow>
        \<exists>c'. upd c i v = Some c' \<and> ok c' \<and> cap c' = cap c \<and> items c' = (items c)[nat i := v]"
begin

text \<open>Pushing the same value \<open>n\<close> times.\<close>

primrec pushes :: "nat \<Rightarrow> 'c \<Rightarrow> 'a \<Rightarrow> 'c option" where
  "pushes 0 c v = Some c"
| "pushes (Suc n) c v = do { c' \<leftarrow> push c v; pushes n c' v }"

lemma pushes_law:
  "ok c \<Longrightarrow> \<exists>c'. pushes n c v = Some c' \<and> ok c' \<and> cap c' = cap c \<and>
     items c' = take (nat (cap c)) (replicate n v @ items c)"
proof (induction n arbitrary: c)
  case 0
  then show ?case using len_items [of c] by simp
next
  case (Suc n)
  obtain c1 where c1: "push c v = Some c1" "ok c1" "cap c1 = cap c"
    "items c1 = take (nat (cap c)) (v # items c)"
    using push_law [OF Suc.prems] by blast
  obtain c2 where c2: "pushes n c1 v = Some c2" "ok c2" "cap c2 = cap c1"
    "items c2 = take (nat (cap c1)) (replicate n v @ items c1)"
    using Suc.IH [OF c1(2)] by blast
  have "take (nat (cap c)) (replicate n v @ take (nat (cap c)) (v # items c))
      = take (nat (cap c)) (replicate n v @ v # items c)"
    by (simp add: min_def)
  also have "replicate n v @ v # items c = v # replicate n v @ items c"
    by (metis append_Cons append_assoc replicate_append_same self_append_conv2)
  finally show ?case using c1 c2 by simp
qed

lemma nth_pushed:
  assumes "ok c" "pushes n c v = Some c'" "i < length (items c')"
  shows "items c' ! i = (if i < n then v else items c ! (i - n))"
    "\<not> i < n \<Longrightarrow> i - n < length (items c)"
  using pushes_law [OF assms(1), of n v] assms(2,3) by (auto simp: nth_append)

end

interpretation cl: recent_items circ_ok circ_items x_cap circ_list_push circ_list_item circ_list_set
proof unfold_locales
  fix c :: "'a circ_list" and v i
  show "0 < x_cap c" if "circ_ok c"
    using that by (simp add: circ_ok_def)
  show "int (length (circ_items c)) \<le> x_cap c" if "circ_ok c"
    using that length_circ_items [OF that] by (simp add: circ_ok_def)
  show "\<exists>c'. circ_list_push c v = Some c' \<and> circ_ok c' \<and> x_cap c' = x_cap c \<and>
      circ_items c' = take (nat (x_cap c)) (v # circ_items c)" if "circ_ok c"
    using circ_push_eq [OF that, of v] by blast
  show "circ_list_item c i = Some (circ_items c ! nat i)"
    if "circ_ok c" "0 \<le> i" "i < int (length (circ_items c))"
    using that length_circ_items [of c] by (simp add: circ_item_eq)
  show "\<exists>c'. circ_list_set c i v = Some c' \<and> circ_ok c' \<and> x_cap c' = x_cap c \<and>
      circ_items c' = (circ_items c)[nat i := v]"
    if "circ_ok c" "0 \<le> i" "i < int (length (circ_items c))"
    using that length_circ_items [of c] circ_set_eq [of c i v] by auto
qed

end
