(* ===== verification/PacketId.thy ===== *)
theory PacketId
  imports Buffer CircList
begin

text \<open>
  Replay protection, \<^verbatim>\<open>openvpn/packet_id.c\<close>, \<^verbatim>\<open>packet_id.h\<close> and the caller
  \<open>crypto_check_replay\<close> of \<^verbatim>\<open>crypto.c\<close>: the sender numbers its packets, the receiver
  keeps a sliding window of the numbers it has seen, or, over a stream transport, insists on
  consecutive numbers. The main results are that no packet identifier is accepted twice,
  that a sender never repeats one, that a packet in order, or unseen inside the window, is
  accepted, and that the wire format reads back what was written.
\<close>

section \<open>Data\<close>

type_synonym packet_id_type = u32
type_synonym net_time_t = u32

definition PACKET_ID_MAX :: packet_id_type where
  "PACKET_ID_MAX = 0xFFFFFFFF"

definition PACKET_ID_WRAP_TRIGGER :: packet_id_type where
  "PACKET_ID_WRAP_TRIGGER = 0xFF000000"

definition MAX_SEQ_BACKTRACK :: int where
  "MAX_SEQ_BACKTRACK = 65536"

definition MAX_TIME_BACKTRACK :: int where
  "MAX_TIME_BACKTRACK = 600"

definition SEQ_REAP_INTERVAL :: int where
  "SEQ_REAP_INTERVAL = 5"

definition SEQ_UNSEEN :: int where
  "SEQ_UNSEEN = 0"

definition SEQ_EXPIRED :: int where
  "SEQ_EXPIRED = 1"

record packet_id_rec =
  r_last_reap :: int
  r_time :: int
  r_id :: packet_id_type
  r_seq_backtrack :: int
  r_time_backtrack :: int
  r_max_backtrack_stat :: int
  r_initialized :: bool
  r_seq_list :: "int circ_list option"
  r_name :: string
  r_unit :: int

record packet_id_send =
  s_id :: packet_id_type
  s_time :: int

record packet_id_net =
  n_id :: packet_id_type
  n_time :: int

record packet_id =
  p_send :: packet_id_send
  p_rec :: packet_id_rec

record packet_id_persist =
  pp_filename :: "string option"
  pp_fd :: int
  pp_time :: int
  pp_id :: packet_id_type
  pp_time_last_written :: int
  pp_id_last_written :: packet_id_type

section \<open>Operations\<close>

definition packet_id_init :: "int \<Rightarrow> int \<Rightarrow> string \<Rightarrow> int \<Rightarrow> packet_id option" where
  "packet_id_init seq_backtrack time_backtrack name un =
     (let send = \<lparr>s_id = 0, s_time = 0\<rparr>;
          rec0 = \<lparr>r_last_reap = 0, r_time = 0, r_id = 0, r_seq_backtrack = 0,
                  r_time_backtrack = 0, r_max_backtrack_stat = 0, r_initialized = False,
                  r_seq_list = None, r_name = name, r_unit = un\<rparr>
      in if seq_backtrack \<noteq> 0
         then do { ASSERT (0 \<le> seq_backtrack \<and> seq_backtrack \<le> MAX_SEQ_BACKTRACK);
                   ASSERT (0 \<le> time_backtrack \<and> time_backtrack \<le> MAX_TIME_BACKTRACK);
                   Some \<lparr>p_send = send,
                         p_rec = rec0\<lparr>r_seq_list := Some (circ_list_alloc 0 seq_backtrack),
                                      r_seq_backtrack := seq_backtrack,
                                      r_time_backtrack := time_backtrack,
                                      r_initialized := True\<rparr>\<rparr> }
         else Some \<lparr>p_send = send, p_rec = rec0\<lparr>r_initialized := True\<rparr>\<rparr>)"

text \<open>The loop of \<open>packet_id_add\<close> that moves the window up to the new packet.\<close>

function packet_id_fill ::
  "int circ_list \<Rightarrow> packet_id_type \<Rightarrow> packet_id_type \<Rightarrow> (int circ_list \<times> packet_id_type) option"
where
  "packet_id_fill sl i target =
     (if i < target
      then do { sl' \<leftarrow> circ_list_push sl SEQ_UNSEEN; packet_id_fill sl' (i + 1) target }
      else Some (sl, i))"
  by pat_completeness auto
termination
  by (relation "measure (\<lambda>(sl, i, target). unat target - unat i)")
     (auto simp: unat_incr word_less_nat_alt)

declare packet_id_fill.simps [simp del]


definition packet_id_add ::
  "packet_id_rec \<Rightarrow> packet_id_net \<Rightarrow> int \<Rightarrow> packet_id_rec option" where
  "packet_id_add p pin now =
     (case r_seq_list p of
        None \<Rightarrow> Some (p\<lparr>r_time := n_time pin, r_id := n_id pin\<rparr>)
      | Some sl \<Rightarrow>
          (let sb = word_of_int (r_seq_backtrack p) :: packet_id_type;
               restart = (circ_list_size sl = 0
                 \<or> n_time pin > r_time p
                 \<or> (n_id pin \<ge> sb \<and> n_id pin - sb > r_id p));
               tm = (if restart then n_time pin else r_time p);
               i0 = (if restart then (if n_id pin > sb then n_id pin - sb else 0) else r_id p);
               sl0 = (if restart then circ_list_reset sl else sl)
           in do { (sl1, i1) \<leftarrow> packet_id_fill sl0 i0 (n_id pin);
                   let diff = i1 - n_id pin;
                   sl2 \<leftarrow> (if diff < word_of_int (circ_list_size sl1) \<and> now > SEQ_EXPIRED
                          then circ_list_set sl1 (uint diff) now else Some sl1);
                   Some (p\<lparr>r_time := tm, r_id := i1, r_seq_list := Some sl2\<rparr>) }))"

text \<open>The loop of \<open>packet_id_reap\<close> over the indices below the size, which no assignment changes.\<close>

primrec packet_id_reap_loop ::
  "int list \<Rightarrow> int circ_list \<Rightarrow> int \<Rightarrow> int \<Rightarrow> bool \<Rightarrow> int circ_list option" where
  "packet_id_reap_loop [] sl time_backtrack now expire = Some sl"
| "packet_id_reap_loop (i # is) sl time_backtrack now expire =
     do { t \<leftarrow> circ_list_item sl i;
          if t = SEQ_EXPIRED then Some sl
          else (let expire' = (expire \<or> t \<noteq> 0 \<and> t + time_backtrack < now)
                in do { sl' \<leftarrow> (if expire' then circ_list_set sl i SEQ_EXPIRED else Some sl);
                        packet_id_reap_loop is sl' time_backtrack now expire' }) }"

definition packet_id_reap :: "packet_id_rec \<Rightarrow> int \<Rightarrow> packet_id_rec option" where
  "packet_id_reap p now =
     do { sl \<leftarrow> (if r_time_backtrack p \<noteq> 0
                then (case r_seq_list p of
                        None \<Rightarrow> None
                      | Some sl \<Rightarrow> map_option Some
                            (packet_id_reap_loop [0..circ_list_size sl - 1] sl (r_time_backtrack p) now False))
                else Some (r_seq_list p));
          Some (p\<lparr>r_seq_list := sl, r_last_reap := now\<rparr>) }"

definition packet_id_reap_test :: "packet_id_rec \<Rightarrow> int \<Rightarrow> packet_id_rec option" where
  "packet_id_reap_test p now =
     (if r_last_reap p + SEQ_REAP_INTERVAL \<le> now then packet_id_reap p now else Some p)"

definition packet_id_test ::
  "packet_id_rec \<Rightarrow> packet_id_net \<Rightarrow> (bool \<times> packet_id_rec) option" where
  "packet_id_test p pin =
     do { ASSERT (r_initialized p);
          if n_id pin = 0 then Some (False, p)
          else if r_seq_backtrack p \<noteq> 0 then
            (if n_time pin = r_time p then
               (if n_id pin > r_id p then Some (True, p)
                else
                  (let diff = r_id p - n_id pin;
                       p' = (if sint diff > r_max_backtrack_stat p
                             then p\<lparr>r_max_backtrack_stat := sint diff\<rparr> else p)
                   in case r_seq_list p of
                        None \<Rightarrow> None
                      | Some sl \<Rightarrow>
                          if diff \<ge> word_of_int (circ_list_size sl) then Some (False, p')
                          else do { v \<leftarrow> circ_list_item sl (uint diff); Some (v = 0, p') }))
             else if n_time pin < r_time p then Some (False, p)
             else Some (True, p))
          else
            (if n_time pin = r_time p then Some (r_id p = 0 \<or> n_id pin = r_id p + 1, p)
             else if n_time pin < r_time p then Some (False, p)
             else Some (n_id pin = 1, p)) }"

text \<open>
  \<open>crypto_check_replay\<close> of crypto.c, on the receiving state alone; the copy that it makes for
  \<open>--replay-persist\<close> is \<open>packet_id_persist_save_obj\<close> below.
\<close>

definition crypto_check_replay ::
  "packet_id_rec \<Rightarrow> packet_id_net \<Rightarrow> int \<Rightarrow> (bool \<times> packet_id_rec) option" where
  "crypto_check_replay p pin now =
     do { p1 \<leftarrow> packet_id_reap_test p now;
          (ok, p2) \<leftarrow> packet_id_test p1 pin;
          if ok then do { p3 \<leftarrow> packet_id_add p2 pin now; Some (True, p3) }
          else Some (False, p2) }"

definition packet_id_read ::
  "buffer \<Rightarrow> bool \<Rightarrow> (bool \<times> packet_id_net \<times> buffer) option" where
  "packet_id_read b long_form =
     (let pin = \<lparr>n_id = 0, n_time = 0\<rparr>
      in do { (r, b1) \<leftarrow> buf_read b 4;
              case r of
                None \<Rightarrow> Some (False, pin, b1)
              | Some net_id \<Rightarrow>
                  (let pin1 = pin\<lparr>n_id := bytes_u32 net_id\<rparr>
                   in if long_form
                      then do { (r2, b2) \<leftarrow> buf_read b1 4;
                                case r2 of
                                  None \<Rightarrow> Some (False, pin1, b2)
                                | Some net_time \<Rightarrow>
                                    Some (True, pin1\<lparr>n_time := uint (bytes_u32 net_time)\<rparr>, b2) }
                      else Some (True, pin1, b1)) })"

definition packet_id_send_update ::
  "packet_id_send \<Rightarrow> bool \<Rightarrow> int \<Rightarrow> bool \<times> packet_id_send" where
  "packet_id_send_update p long_form now =
     (let p1 = (if s_time p = 0 then p\<lparr>s_time := now\<rparr> else p)
      in if s_id p1 = PACKET_ID_MAX
         then (if \<not> long_form \<or> now \<le> s_time p1 then (False, p1)
               else (True, p1\<lparr>s_time := now, s_id := 0 + 1\<rparr>))
         else (True, p1\<lparr>s_id := s_id p1 + 1\<rparr>))"

text \<open>The writes of a list of fields in order, stopping at the first that has no room.\<close>

definition packet_id_write ::
  "packet_id_send \<Rightarrow> buffer \<Rightarrow> bool \<Rightarrow> bool \<Rightarrow> int \<Rightarrow> (bool \<times> packet_id_send \<times> buffer) option"
where
  "packet_id_write p b long_form prep now =
     (case packet_id_send_update p long_form now of
        (False, p') \<Rightarrow> Some (False, p', b)
      | (True, p') \<Rightarrow>
          (let net_id = u32_bytes (s_id p');
               net_time = u32_bytes (word_of_int (s_time p'))
           in if prep
              then do { (ok1, b1) \<leftarrow> (if long_form then buf_write_prepend b net_time else Some (True, b));
                        if \<not> ok1 then Some (False, p', b1)
                        else do { (ok2, b2) \<leftarrow> buf_write_prepend b1 net_id; Some (ok2, p', b2) } }
              else do { (ok1, b1) \<leftarrow> buf_write b net_id;
                        if \<not> ok1 then Some (False, p', b1)
                        else if long_form
                        then do { (ok2, b2) \<leftarrow> buf_write b1 net_time; Some (ok2, p', b2) }
                        else Some (True, p', b1) }))"

definition packet_id_persist_init :: "packet_id_persist" where
  "packet_id_persist_init =
     \<lparr>pp_filename = None, pp_fd = -1, pp_time = 0, pp_id = 0,
      pp_time_last_written = 0, pp_id_last_written = 0\<rparr>"

definition packet_id_persist_enabled :: "packet_id_persist \<Rightarrow> bool" where
  "packet_id_persist_enabled p \<longleftrightarrow> pp_fd p \<ge> 0"

definition packet_id_persist_close :: "packet_id_persist \<Rightarrow> packet_id_persist" where
  "packet_id_persist_close p =
     (if packet_id_persist_enabled p then packet_id_persist_init else p)"

text \<open>
  Loading and saving: the answers of the operating system are parameters, \<open>fd\<close> of
  \<open>open\<close>, \<open>locked\<close> of \<open>flock\<close> (whose failure is fatal), \<open>img\<close> of a complete
  \<open>read\<close>, \<open>sought\<close> of \<open>lseek\<close> and \<open>written\<close> of a complete \<open>write\<close>.
\<close>

definition packet_id_persist_load ::
  "packet_id_persist \<Rightarrow> string \<Rightarrow> int \<Rightarrow> bool \<Rightarrow> (int \<times> packet_id_type) option
   \<Rightarrow> packet_id_persist option" where
  "packet_id_persist_load p filename fd locked img =
     (if \<not> packet_id_persist_enabled p
      then (let p1 = p\<lparr>pp_fd := fd\<rparr>
            in if fd = -1 then Some p1
               else do { ASSERT locked;
                         let p2 = p1\<lparr>pp_filename := Some filename\<rparr>;
                         Some (case img of
                                 None \<Rightarrow> p2
                               | Some (t, i) \<Rightarrow>
                                   p2\<lparr>pp_time := t, pp_time_last_written := t,
                                      pp_id := i, pp_id_last_written := i\<rparr>) })
      else Some p)"

definition packet_id_persist_save ::
  "packet_id_persist \<Rightarrow> bool \<Rightarrow> bool \<Rightarrow> packet_id_persist \<times> (int \<times> packet_id_type) option" where
  "packet_id_persist_save p sought written =
     (if packet_id_persist_enabled p \<and> pp_time p \<noteq> 0
         \<and> (pp_time p \<noteq> pp_time_last_written p \<or> pp_id p \<noteq> pp_id_last_written p)
         \<and> sought \<and> written
      then (p\<lparr>pp_time_last_written := pp_time p, pp_id_last_written := pp_id p\<rparr>,
            Some (pp_time p, pp_id p))
      else (p, None))"

definition packet_id_persist_save_obj ::
  "packet_id_persist \<Rightarrow> packet_id_rec \<Rightarrow> packet_id_persist" where
  "packet_id_persist_save_obj p r =
     (if packet_id_persist_enabled p \<and> r_time r \<noteq> 0
      then p\<lparr>pp_time := r_time r, pp_id := r_id r\<rparr> else p)"

definition packet_id_persist_load_obj ::
  "packet_id_persist \<Rightarrow> packet_id_rec \<Rightarrow> packet_id_rec" where
  "packet_id_persist_load_obj p r =
     (if packet_id_persist_enabled p \<and> pp_time p \<noteq> 0
      then r\<lparr>r_time := pp_time p, r_id := pp_id p\<rparr> else r)"

definition packet_id_size :: "bool \<Rightarrow> int" where
  "packet_id_size long_form = 4 + (if long_form then 4 else 0)"

definition packet_id_close_to_wrapping :: "packet_id_send \<Rightarrow> bool" where
  "packet_id_close_to_wrapping p \<longleftrightarrow> s_id p \<ge> PACKET_ID_WRAP_TRIGGER"

definition check_timestamp_delta :: "int \<Rightarrow> u32 \<Rightarrow> int \<Rightarrow> bool" where
  "check_timestamp_delta remote max_delta now =
     (let d = (if now \<ge> remote then word_of_int (now - remote)
               else word_of_int (remote - now)) :: u32
      in d \<le> max_delta)"


section \<open>The receiving state\<close>

definition pid_rec_ok :: "packet_id_rec \<Rightarrow> bool" where
  "pid_rec_ok p \<longleftrightarrow> r_initialized p \<and>
     (case r_seq_list p of
        None \<Rightarrow> r_seq_backtrack p = 0 \<and> r_time_backtrack p = 0
      | Some sl \<Rightarrow> circ_ok sl \<and> x_cap sl = r_seq_backtrack p \<and>
          0 < r_seq_backtrack p \<and> r_seq_backtrack p \<le> MAX_SEQ_BACKTRACK)"

definition pid_window :: "packet_id_rec \<Rightarrow> int list" where
  "pid_window p = (case r_seq_list p of None \<Rightarrow> [] | Some sl \<Rightarrow> circ_items sl)"

text \<open>How far an identifier lies behind the newest one.\<close>

definition pid_diff :: "packet_id_rec \<Rightarrow> packet_id_type \<Rightarrow> nat" where
  "pid_diff p i = unat (r_id p) - unat i"

text \<open>What \<open>packet_id_test\<close> decides.\<close>

definition pid_accepts :: "packet_id_rec \<Rightarrow> packet_id_net \<Rightarrow> bool" where
  "pid_accepts p pin \<longleftrightarrow> n_id pin \<noteq> 0 \<and>
     (if r_seq_backtrack p \<noteq> 0
      then r_time p < n_time pin \<or> n_time pin = r_time p \<and>
           (r_id p < n_id pin \<or> pid_diff p (n_id pin) < length (pid_window p)
              \<and> pid_window p ! pid_diff p (n_id pin) = 0)
      else r_time p < n_time pin \<and> n_id pin = 1 \<or>
           n_time pin = r_time p \<and> (r_id p = 0 \<or> n_id pin = r_id p + 1))"

lemma pid_rec_ok_windowE:
  assumes "pid_rec_ok p" "r_seq_backtrack p \<noteq> 0"
  obtains sl where "r_seq_list p = Some sl" "circ_ok sl" "x_cap sl = r_seq_backtrack p"
    "0 < r_seq_backtrack p" "r_seq_backtrack p \<le> MAX_SEQ_BACKTRACK" "pid_window p = circ_items sl"
    "x_size sl = int (length (pid_window p))" "x_size sl \<le> 65536"
proof (cases "r_seq_list p")
  case None
  with assms show thesis by (simp add: pid_rec_ok_def)
next
  case (Some sl)
  with assms have sl: "circ_ok sl" "x_cap sl = r_seq_backtrack p" "0 < r_seq_backtrack p"
    "r_seq_backtrack p \<le> MAX_SEQ_BACKTRACK" "pid_window p = circ_items sl"
    by (simp_all add: pid_rec_ok_def pid_window_def)
  moreover have "x_size sl \<le> x_cap sl" using sl(1) by (simp add: circ_ok_def)
  ultimately show thesis
    using that [OF Some] length_circ_items [OF sl(1)] by (simp add: MAX_SEQ_BACKTRACK_def)
qed

lemma pid_rec_ok_streamE:
  assumes "pid_rec_ok p" "r_seq_backtrack p = 0"
  shows "r_seq_list p = None" "r_time_backtrack p = 0" "pid_window p = []"
  using assms by (auto simp: pid_rec_ok_def pid_window_def split: option.splits)

lemma packet_id_init_ok:
  assumes "packet_id_init sb tb nm un = Some p"
  shows "pid_rec_ok (p_rec p)" "r_seq_backtrack (p_rec p) = sb" "pid_window (p_rec p) = []"
    "r_time (p_rec p) = 0" "r_id (p_rec p) = 0"
  using assms circ_alloc_ok [of sb "0 :: int"]
  by (auto simp: packet_id_init_def pid_rec_ok_def pid_window_def circ_list_alloc_def Let_def
      split: if_splits)

lemma small_word_of_int:
  "0 \<le> n \<Longrightarrow> n \<le> 65536 \<Longrightarrow> unat (word_of_int n :: u32) = nat n"
  by (rule unat_word_of_int_nonneg) auto

lemma max_backtrack_stat_same: "p\<lparr>r_max_backtrack_stat := r_max_backtrack_stat p\<rparr> = p"
  by (cases p) simp

lemma packet_id_test_eq:
  assumes "pid_rec_ok p"
  shows "\<exists>m. packet_id_test p pin = Some (pid_accepts p pin, p\<lparr>r_max_backtrack_stat := m\<rparr>)"
proof -
  have init: "r_initialized p" using assms by (simp add: pid_rec_ok_def)
  show ?thesis
  proof (cases "r_seq_backtrack p = 0 \<or> n_id pin = 0 \<or> n_time pin \<noteq> r_time p \<or> r_id p < n_id pin")
    case True
    then have "packet_id_test p pin = Some (pid_accepts p pin, p)"
      using init by (auto simp: packet_id_test_def pid_accepts_def)
    then show ?thesis by (metis max_backtrack_stat_same)
  next
    case False
    then obtain sl where sl: "r_seq_list p = Some sl" "circ_ok sl" "pid_window p = circ_items sl"
      "x_size sl = int (length (pid_window p))" "x_size sl \<le> 65536"
      using assms by (elim pid_rec_ok_windowE) auto
    have size: "unat (word_of_int (circ_list_size sl) :: u32) = length (pid_window p)"
      using sl(4,5) small_word_of_int [of "x_size sl"] by (simp add: circ_list_size_def)
    let ?d = "r_id p - n_id pin"
    have d: "unat ?d = pid_diff p (n_id pin)"
      using False unat_diff [of "n_id pin" "r_id p"] by (simp add: pid_diff_def not_less)
    have item: "circ_list_item sl (uint ?d) = Some (pid_window p ! unat ?d)"
      if "unat ?d < length (pid_window p)"
    proof -
      have u: "int (unat ?d) = uint ?d" by simp
      with that sl(4) have "uint ?d < x_size sl" by linarith
      then show ?thesis
        using circ_item_eq [OF sl(2), of "uint ?d"] by (simp only: sl(3) unat_eq_nat_uint uint_ge_0)
    qed
    define m where "m = (if sint ?d > r_max_backtrack_stat p then sint ?d else r_max_backtrack_stat p)"
    have "(if sint ?d > r_max_backtrack_stat p then p\<lparr>r_max_backtrack_stat := sint ?d\<rparr> else p)
        = p\<lparr>r_max_backtrack_stat := m\<rparr>"
      by (simp add: m_def max_backtrack_stat_same)
    moreover have "(word_of_int (circ_list_size sl) \<le> ?d) = (\<not> pid_diff p (n_id pin) < length (pid_window p))"
      using size d by (simp add: word_le_nat_alt not_less)
    ultimately have "packet_id_test p pin = Some (pid_accepts p pin, p\<lparr>r_max_backtrack_stat := m\<rparr>)"
      using False init sl(1) item d by (simp add: packet_id_test_def pid_accepts_def Let_def)
    then show ?thesis by blast
  qed
qed

subsection \<open>Expiry keeps what was seen\<close>

lemma packet_id_reap_loop_ok:
  "circ_ok sl \<Longrightarrow> \<forall>i \<in> set is. 0 \<le> i \<and> i < x_size sl \<Longrightarrow>
   \<exists>sl'. packet_id_reap_loop is sl tb now e = Some sl' \<and> circ_ok sl' \<and> x_cap sl' = x_cap sl \<and>
     x_size sl' = x_size sl \<and>
     (\<forall>d < length (circ_items sl). circ_items sl' ! d = circ_items sl ! d
        \<or> circ_items sl' ! d = SEQ_EXPIRED)"
proof (induction "is" arbitrary: sl e)
  case Nil
  then show ?case by simp
next
  case (Cons i "is")
  let ?t = "circ_items sl ! nat i"
  have t: "circ_list_item sl i = Some ?t"
    using Cons.prems by (simp add: circ_item_eq)
  define e' where "e' = (e \<or> ?t \<noteq> 0 \<and> ?t + tb < now)"
  obtain sl1 where sl1: "(if e' then circ_list_set sl i SEQ_EXPIRED else Some sl) = Some sl1"
    "circ_ok sl1" "x_cap sl1 = x_cap sl" "x_size sl1 = x_size sl"
    "circ_items sl1 = (if e' then (circ_items sl)[nat i := SEQ_EXPIRED] else circ_items sl)"
    using circ_set_eq [of sl i SEQ_EXPIRED] Cons.prems by (cases e') auto
  have "\<exists>sl'. packet_id_reap_loop is sl1 tb now e' = Some sl' \<and> circ_ok sl' \<and> x_cap sl' = x_cap sl1 \<and>
     x_size sl' = x_size sl1 \<and>
     (\<forall>d < length (circ_items sl1). circ_items sl' ! d = circ_items sl1 ! d
        \<or> circ_items sl' ! d = SEQ_EXPIRED)"
    using Cons.prems sl1 by (intro Cons.IH) auto
  then obtain sl2 where sl2: "packet_id_reap_loop is sl1 tb now e' = Some sl2" "circ_ok sl2"
    "x_cap sl2 = x_cap sl1" "x_size sl2 = x_size sl1"
    "\<forall>d < length (circ_items sl1). circ_items sl2 ! d = circ_items sl1 ! d
        \<or> circ_items sl2 ! d = SEQ_EXPIRED" by blast
  have "\<forall>d < length (circ_items sl). circ_items sl2 ! d = circ_items sl ! d
        \<or> circ_items sl2 ! d = SEQ_EXPIRED"
    using sl2(5) sl1(5) Cons.prems length_circ_items [of sl]
    by (auto simp: nth_list_update split: if_splits)
  then show ?case
    using t sl1 sl2 Cons.prems(1) by (auto simp: e'_def [symmetric])
qed

lemma packet_id_reap_ok:
  assumes "pid_rec_ok p"
  shows "\<exists>p'. packet_id_reap_test p now = Some p' \<and> pid_rec_ok p' \<and> r_time p' = r_time p \<and>
     r_id p' = r_id p \<and> r_seq_backtrack p' = r_seq_backtrack p \<and>
     r_time_backtrack p' = r_time_backtrack p \<and>
     length (pid_window p') = length (pid_window p) \<and>
     (\<forall>d < length (pid_window p). pid_window p' ! d = pid_window p ! d
        \<or> pid_window p' ! d = SEQ_EXPIRED) \<and>
     (r_time_backtrack p = 0 \<longrightarrow> pid_window p' = pid_window p)"
proof (cases "r_last_reap p + SEQ_REAP_INTERVAL \<le> now \<and> r_time_backtrack p \<noteq> 0")
  case True
  then have "r_seq_backtrack p \<noteq> 0"
    using assms by (auto simp: pid_rec_ok_def split: option.splits)
  then obtain sl where sl: "r_seq_list p = Some sl" "circ_ok sl" "x_cap sl = r_seq_backtrack p"
    "0 < r_seq_backtrack p" "r_seq_backtrack p \<le> MAX_SEQ_BACKTRACK" "pid_window p = circ_items sl"
    using assms by (elim pid_rec_ok_windowE)
  obtain sl' where sl': "packet_id_reap_loop [0..circ_list_size sl - 1] sl (r_time_backtrack p) now False
      = Some sl'" "circ_ok sl'" "x_cap sl' = x_cap sl" "x_size sl' = x_size sl"
     "\<forall>d < length (circ_items sl). circ_items sl' ! d = circ_items sl ! d
        \<or> circ_items sl' ! d = SEQ_EXPIRED"
    using packet_id_reap_loop_ok [OF sl(2), of "[0..circ_list_size sl - 1]" "r_time_backtrack p" now False]
    by (auto simp: circ_list_size_def)
  have "length (circ_items sl') = length (circ_items sl)"
    using length_circ_items [OF sl(2)] length_circ_items [OF sl'(2)] sl'(4) by simp
  with True sl sl' assms show ?thesis
    by (simp add: packet_id_reap_test_def packet_id_reap_def pid_rec_ok_def pid_window_def)
next
  case False
  with assms show ?thesis
    by (auto simp: packet_id_reap_test_def packet_id_reap_def pid_rec_ok_def pid_window_def
        split: option.splits)
qed

subsection \<open>Recording a packet\<close>

lemma packet_id_fill_eq:
  "packet_id_fill sl i t =
     map_option (\<lambda>sl'. (sl', if i < t then t else i)) (cl.pushes (unat t - unat i) sl SEQ_UNSEEN)"
proof (induction sl i t rule: packet_id_fill.induct)
  case (1 sl i t)
  show ?case
  proof (cases "i < t")
    case True
    then have n: "unat t - unat i = Suc (unat t - unat (i + 1))"
      by (simp add: unat_incr word_less_nat_alt)
    have last: "(if i + 1 < t then t else i + 1) = t"
      using unat_incr [OF True] True by (auto simp: word_less_nat_alt word_unat_eq_iff)
    show ?thesis
    proof (cases "circ_list_push sl SEQ_UNSEEN")
      case None
      with True n show ?thesis by (simp add: packet_id_fill.simps [of sl])
    next
      case (Some sl')
      with True n last "1.IH" [OF True Some] show ?thesis
        by (simp add: packet_id_fill.simps [of sl])
    qed
  next
    case False
    then show ?thesis by (simp add: packet_id_fill.simps [of sl] word_less_nat_alt)
  qed
qed

text \<open>
  Whether the packet starts a new window, the number the window is then filled from, and
  the window after the packet.
\<close>

definition pid_restart :: "packet_id_rec \<Rightarrow> packet_id_net \<Rightarrow> bool" where
  "pid_restart p pin \<longleftrightarrow> pid_window p = [] \<or> n_time pin > r_time p \<or>
     unat (r_id p) + nat (r_seq_backtrack p) < unat (n_id pin)"

definition pid_base :: "packet_id_rec \<Rightarrow> packet_id_net \<Rightarrow> nat" where
  "pid_base p pin =
     (if pid_restart p pin then unat (n_id pin) - nat (r_seq_backtrack p) else unat (r_id p))"

definition pid_filled :: "packet_id_rec \<Rightarrow> packet_id_net \<Rightarrow> int list" where
  "pid_filled p pin = take (nat (r_seq_backtrack p))
     (replicate (unat (n_id pin) - pid_base p pin) SEQ_UNSEEN
        @ (if pid_restart p pin then [] else pid_window p))"

lemma packet_id_add_window:
  assumes ok: "pid_rec_ok p" and sb: "r_seq_backtrack p \<noteq> 0"
    and acc: "pid_accepts p pin" and now: "1 < now"
  obtains p' where "packet_id_add p pin now = Some p'" "pid_rec_ok p'"
    "r_seq_backtrack p' = r_seq_backtrack p" "r_time_backtrack p' = r_time_backtrack p"
    "r_time p' = n_time pin" "unat (r_id p') = max (pid_base p pin) (unat (n_id pin))"
    "pid_diff p' (n_id pin) < length (pid_filled p pin)"
    "pid_window p' = (pid_filled p pin)[pid_diff p' (n_id pin) := now]"
proof -
  obtain sl where sl: "r_seq_list p = Some sl" "circ_ok sl" "x_cap sl = r_seq_backtrack p"
    "0 < r_seq_backtrack p" "r_seq_backtrack p \<le> MAX_SEQ_BACKTRACK" "pid_window p = circ_items sl"
    "x_size sl = int (length (pid_window p))" "x_size sl \<le> 65536"
    using ok sb by (rule pid_rec_ok_windowE)
  define sbw :: packet_id_type where "sbw = word_of_int (r_seq_backtrack p)"
  have usb: "unat sbw = nat (r_seq_backtrack p)"
    unfolding sbw_def using sl by (intro small_word_of_int) (auto simp: MAX_SEQ_BACKTRACK_def)
  have restart: "(circ_list_size sl = 0 \<or> n_time pin > r_time p
      \<or> (n_id pin \<ge> sbw \<and> n_id pin - sbw > r_id p)) = pid_restart p pin"
    using sl(7) usb unat_diff [of sbw "n_id pin"]
    by (auto simp: pid_restart_def circ_list_size_def word_le_nat_alt word_less_nat_alt)
  define i0 where "i0 = (if pid_restart p pin then (if n_id pin > sbw then n_id pin - sbw else 0) else r_id p)"
  have ui0: "unat i0 = pid_base p pin"
    using usb unat_diff [of sbw "n_id pin"]
    by (auto simp: i0_def pid_base_def word_less_nat_alt word_le_nat_alt)
  define sl0 where "sl0 = (if pid_restart p pin then circ_list_reset sl else sl)"
  have sl0: "circ_ok sl0" "x_cap sl0 = r_seq_backtrack p"
    "circ_items sl0 = (if pid_restart p pin then [] else pid_window p)"
    using sl circ_reset_eq [OF sl(2)] by (simp_all add: sl0_def)
  obtain sl1 where sl1: "cl.pushes (unat (n_id pin) - unat i0) sl0 SEQ_UNSEEN = Some sl1"
    "circ_ok sl1" "x_cap sl1 = r_seq_backtrack p" "circ_items sl1 = pid_filled p pin"
    using cl.pushes_law [OF sl0(1), of "unat (n_id pin) - unat i0" SEQ_UNSEEN] sl0(2,3) ui0
    by (auto simp: pid_filled_def)
  define i1 where "i1 = (if i0 < n_id pin then n_id pin else i0)"
  have ui1: "unat i1 = max (pid_base p pin) (unat (n_id pin))"
    using ui0 by (auto simp: i1_def word_less_nat_alt)
  have fill: "packet_id_fill sl0 i0 (n_id pin) = Some (sl1, i1)"
    using sl1(1) by (simp add: packet_id_fill_eq i1_def)
  have le: "n_id pin \<le> i1" by (simp add: i1_def not_less)
  let ?d = "i1 - n_id pin"
  have ud: "unat ?d = unat i1 - unat (n_id pin)" by (rule unat_diff [OF le])
  have inside: "unat ?d < length (pid_filled p pin)"
  proof (cases "pid_restart p pin \<or> r_id p < n_id pin")
    case True
    have "0 < unat (n_id pin)"
      using acc by (simp add: pid_accepts_def unat_gt_0)
    then have "pid_base p pin < unat (n_id pin)"
      using True sl(4) by (auto simp: pid_base_def word_less_nat_alt)
    then show ?thesis
      using ud ui1 sl(4) by (simp add: pid_filled_def)
  next
    case False
    then have "pid_diff p (n_id pin) < length (pid_window p)"
      using acc sb by (auto simp: pid_accepts_def pid_restart_def)
    moreover have "length (pid_window p) \<le> nat (r_seq_backtrack p)"
      using sl by (simp add: circ_ok_def le_nat_iff)
    ultimately show ?thesis
      using False ud ui1 by (auto simp: pid_filled_def pid_base_def pid_diff_def word_less_nat_alt)
  qed
  have len1: "int (length (pid_filled p pin)) = x_size sl1"
    using length_circ_items [OF sl1(2)] sl1(4) by simp
  have x1: "0 \<le> x_size sl1" "x_size sl1 \<le> 65536"
    using sl1 sl(5) by (auto simp: circ_ok_def MAX_SEQ_BACKTRACK_def)
  have "int (unat ?d) = uint ?d" by simp
  with inside len1 have dlt: "uint ?d < x_size sl1" by linarith
  have guard: "?d < word_of_int (circ_list_size sl1)"
    using inside len1 small_word_of_int [OF x1] by (simp add: word_less_nat_alt circ_list_size_def)
  have "nat (uint ?d) = unat ?d" by simp
  then obtain sl2 where sl2: "circ_list_set sl1 (uint ?d) now = Some sl2" "circ_ok sl2"
    "circ_items sl2 = (pid_filled p pin)[unat ?d := now]" "x_cap sl2 = r_seq_backtrack p"
    using circ_set_eq [OF sl1(2) uint_ge_0 dlt, of now] unfolding sl1(3,4) by metis
  have tm: "(if pid_restart p pin then n_time pin else r_time p) = n_time pin"
    using acc sb by (auto simp: pid_accepts_def pid_restart_def)
  let ?p' = "p\<lparr>r_time := n_time pin, r_id := i1, r_seq_list := Some sl2\<rparr>"
  show thesis
  proof
    show "packet_id_add p pin now = Some ?p'"
      using sl(1) fill guard now sl2(1) tm
      by (simp add: packet_id_add_def Let_def restart sbw_def [symmetric] i0_def [symmetric]
          sl0_def [symmetric] SEQ_EXPIRED_def)
    show "pid_rec_ok ?p'"
      using ok sl sl2 by (simp add: pid_rec_ok_def)
    show "pid_diff ?p' (n_id pin) < length (pid_filled p pin)"
      using inside ud by (simp add: pid_diff_def)
    show "pid_window ?p' = (pid_filled p pin)[pid_diff ?p' (n_id pin) := now]"
      using sl2 ud by (simp add: pid_window_def pid_diff_def)
    show "unat (r_id ?p') = max (pid_base p pin) (unat (n_id pin))"
      using ui1 by simp
  qed simp_all
qed

section \<open>No packet is accepted twice\<close>

text \<open>
  The invariant: every packet accepted so far is older than the newest, and where it still
  lies inside the window its cell is no longer \<open>SEQ_UNSEEN\<close>.
\<close>

definition pid_seen :: "packet_id_net set \<Rightarrow> packet_id_rec \<Rightarrow> bool" where
  "pid_seen A p \<longleftrightarrow>
     (\<forall>a \<in> A. n_id a \<noteq> 0 \<and> (n_time a < r_time p \<or> n_time a = r_time p \<and> n_id a \<le> r_id p \<and>
        (pid_diff p (n_id a) < length (pid_window p) \<longrightarrow>
           pid_window p ! pid_diff p (n_id a) \<noteq> SEQ_UNSEEN))) \<and>
     (r_seq_backtrack p \<noteq> 0 \<and> pid_window p = [] \<longrightarrow> A = {})"

lemma pid_seen_rejects:
  assumes "pid_seen A p" "a \<in> A"
  shows "\<not> pid_accepts p a"
proof
  assume acc: "pid_accepts p a"
  have a: "n_id a \<noteq> 0" "n_time a < r_time p \<or> n_time a = r_time p \<and> n_id a \<le> r_id p \<and>
        (pid_diff p (n_id a) < length (pid_window p) \<longrightarrow>
           pid_window p ! pid_diff p (n_id a) \<noteq> SEQ_UNSEEN)"
    using assms by (auto simp: pid_seen_def)
  have "r_seq_backtrack p = 0" "n_time a = r_time p" "n_id a \<le> r_id p"
    using acc a by (auto simp: pid_accepts_def SEQ_UNSEEN_def split: if_splits)
  moreover have "n_id a \<noteq> r_id p + 1"
  proof
    assume eq: "n_id a = r_id p + 1"
    then have "r_id p < r_id p + 1" using a(1) by (intro word_less_incr) simp
    with eq \<open>n_id a \<le> r_id p\<close> show False by simp
  qed
  ultimately have "r_id p = 0" using acc by (simp add: pid_accepts_def)
  with \<open>n_id a \<le> r_id p\<close> a(1) show False by simp
qed

lemma pid_seen_add:
  assumes ok: "pid_rec_ok p" and seen: "pid_seen A p" and acc: "pid_accepts p pin" and now: "1 < now"
  shows "\<exists>p'. packet_id_add p pin now = Some p' \<and> pid_rec_ok p' \<and> pid_seen (insert pin A) p' \<and>
    r_seq_backtrack p' = r_seq_backtrack p \<and> r_time_backtrack p' = r_time_backtrack p"
proof (cases "r_seq_backtrack p = 0")
  case True
  note stream = pid_rec_ok_streamE [OF ok True]
  let ?p' = "p\<lparr>r_time := n_time pin, r_id := n_id pin\<rparr>"
  have "pid_seen (insert pin A) ?p'"
  proof -
    have "n_id a \<le> n_id pin" if "a \<in> A" "n_time a = n_time pin" for a
    proof -
      have a: "n_id a \<noteq> 0" "n_time a = r_time p \<longrightarrow> n_id a \<le> r_id p" "n_time a \<le> r_time p"
        using seen that(1) by (auto simp: pid_seen_def)
      have "n_time pin = r_time p" "n_id pin = r_id p + 1"
        using acc True a that(2) by (auto simp: pid_accepts_def)
      moreover have "r_id p < n_id pin"
        using acc calculation(2) word_less_incr [of "r_id p"] by (simp add: pid_accepts_def)
      ultimately show ?thesis using a that(2) by simp
    qed
    moreover have "n_time a \<le> n_time pin" if "a \<in> A" for a
      using seen that acc True by (fastforce simp: pid_seen_def pid_accepts_def)
    moreover have "n_id a \<noteq> 0" if "a \<in> insert pin A" for a
      using seen that acc by (auto simp: pid_seen_def pid_accepts_def)
    moreover have "pid_window ?p' = []" using stream(3) by (simp add: pid_window_def)
    ultimately show ?thesis
      using True by (auto simp: pid_seen_def) (metis order_le_imp_less_or_eq)+
  qed
  moreover have "packet_id_add p pin now = Some ?p'"
    using stream(1) by (simp add: packet_id_add_def)
  moreover have "pid_rec_ok ?p'"
    using ok by (auto simp: pid_rec_ok_def split: option.splits)
  ultimately show ?thesis by auto
next
  case False
  obtain p' where p': "packet_id_add p pin now = Some p'" "pid_rec_ok p'"
    "r_seq_backtrack p' = r_seq_backtrack p" "r_time_backtrack p' = r_time_backtrack p"
    "r_time p' = n_time pin" "unat (r_id p') = max (pid_base p pin) (unat (n_id pin))"
    "pid_diff p' (n_id pin) < length (pid_filled p pin)"
    "pid_window p' = (pid_filled p pin)[pid_diff p' (n_id pin) := now]"
    using packet_id_add_window [OF ok False acc now] .
  have old: "n_time a < r_time p' \<or> n_time a = r_time p' \<and> n_id a \<le> r_id p' \<and>
      (pid_diff p' (n_id a) < length (pid_window p') \<longrightarrow>
         pid_window p' ! pid_diff p' (n_id a) \<noteq> SEQ_UNSEEN)" if "a \<in> A" for a
  proof -
    have a: "n_time a < r_time p \<or> n_time a = r_time p \<and> n_id a \<le> r_id p \<and>
        (pid_diff p (n_id a) < length (pid_window p) \<longrightarrow>
           pid_window p ! pid_diff p (n_id a) \<noteq> SEQ_UNSEEN)" "pid_window p \<noteq> []"
      using seen that False by (auto simp: pid_seen_def)
    have t: "r_time p \<le> n_time pin"
      using acc False by (auto simp: pid_accepts_def)
    show ?thesis
    proof (cases "n_time a < n_time pin")
      case True
      then show ?thesis using p'(5) by simp
    next
      case same: False
      with a t have eq: "n_time a = n_time pin" "n_time pin = r_time p" "n_id a \<le> r_id p"
        by auto
      have ua: "unat (n_id a) \<le> unat (r_id p)" using eq(3) by (simp add: word_le_nat_alt)
      have id: "n_id a \<le> r_id p'"
        using ua p'(6) eq(2) a(2) by (auto simp: word_le_nat_alt pid_base_def pid_restart_def)
      have "pid_window p' ! pid_diff p' (n_id a) \<noteq> SEQ_UNSEEN"
        if inw: "pid_diff p' (n_id a) < length (pid_window p')"
      proof (cases "pid_restart p pin")
        case True
        then have "unat (r_id p) + nat (r_seq_backtrack p) < unat (n_id pin)"
          using a(2) eq(2) by (simp add: pid_restart_def)
        moreover have "length (pid_window p') \<le> nat (r_seq_backtrack p)"
          by (simp add: p'(8) pid_filled_def)
        ultimately have False
          using inw ua p'(6) by (auto simp: pid_diff_def)
        then show ?thesis ..
      next
        case nr: False
        let ?k = "unat (n_id pin) - unat (r_id p)"
        have d: "pid_diff p' (n_id a) = pid_diff p (n_id a) + ?k"
          using ua nr p'(6) by (auto simp: pid_diff_def pid_base_def)
        have "pid_diff p (n_id a) < length (pid_window p)"
          "pid_filled p pin ! pid_diff p' (n_id a) = pid_window p ! pid_diff p (n_id a)"
          using nth_take_replicate_append [of "pid_diff p (n_id a)" ?k "nat (r_seq_backtrack p)"
              SEQ_UNSEEN "pid_window p"] inw nr d
          by (simp_all only: p'(8) length_list_update pid_filled_def pid_base_def if_False)
        then show ?thesis
          using a eq(1,2) inw p'(8) now
          by (cases "pid_diff p' (n_id pin) = pid_diff p' (n_id a)") (auto simp: SEQ_UNSEEN_def)
      qed
      then show ?thesis using eq p'(5) id by simp
    qed
  qed
  have new: "n_id pin \<noteq> 0" "n_time pin = r_time p'" "n_id pin \<le> r_id p'"
    "pid_window p' ! pid_diff p' (n_id pin) \<noteq> SEQ_UNSEEN"
    using acc p' now by (auto simp: pid_accepts_def word_le_nat_alt SEQ_UNSEEN_def)
  have "n_id a \<noteq> 0" if "a \<in> A" for a
    using seen that by (simp add: pid_seen_def)
  moreover have "pid_window p' \<noteq> []" using p'(7,8) by auto
  ultimately have "pid_seen (insert pin A) p'"
    using old new by (auto simp: pid_seen_def)
  with p' show ?thesis by blast
qed

lemma pid_seen_weaken:
  assumes "pid_seen A p" "r_time p' = r_time p" "r_id p' = r_id p"
    "r_seq_backtrack p' = r_seq_backtrack p" "length (pid_window p') = length (pid_window p)"
    "\<forall>d < length (pid_window p). pid_window p' ! d = pid_window p ! d \<or> pid_window p' ! d = SEQ_EXPIRED"
  shows "pid_seen A p'"
proof -
  have diff: "pid_diff p' i = pid_diff p i" for i
    by (simp add: pid_diff_def assms(3))
  have "pid_window p' ! d \<noteq> SEQ_UNSEEN"
    if "d < length (pid_window p)" "pid_window p ! d \<noteq> SEQ_UNSEEN" for d
    using assms(6) that by (fastforce simp: SEQ_UNSEEN_def SEQ_EXPIRED_def)
  moreover have "pid_window p' = [] \<longleftrightarrow> pid_window p = []"
    using assms(5) by (metis length_0_conv)
  ultimately show ?thesis
    using assms(1-5) by (auto simp: pid_seen_def diff)
qed

lemma crypto_check_replay_seen:
  assumes "pid_rec_ok p" "pid_seen A p" "1 < now"
  shows "\<exists>ok p'. crypto_check_replay p pin now = Some (ok, p') \<and> pid_rec_ok p' \<and>
     r_seq_backtrack p' = r_seq_backtrack p \<and>
     (if ok then pin \<notin> A \<and> pid_seen (insert pin A) p' else pid_seen A p')"
proof -
  obtain p1 where p1: "packet_id_reap_test p now = Some p1" "pid_rec_ok p1" "pid_seen A p1"
    "r_seq_backtrack p1 = r_seq_backtrack p"
    using packet_id_reap_ok [OF assms(1), of now] pid_seen_weaken [OF assms(2)] by metis
  obtain m where t: "packet_id_test p1 pin = Some (pid_accepts p1 pin, p1\<lparr>r_max_backtrack_stat := m\<rparr>)"
    using packet_id_test_eq [OF p1(2)] by blast
  let ?p2 = "p1\<lparr>r_max_backtrack_stat := m\<rparr>"
  have p2: "pid_rec_ok ?p2" "pid_seen A ?p2" "pid_accepts ?p2 pin = pid_accepts p1 pin"
    "r_seq_backtrack ?p2 = r_seq_backtrack p"
    using p1 by (auto simp: pid_rec_ok_def pid_seen_def pid_accepts_def pid_window_def pid_diff_def
        split: option.splits)
  show ?thesis
  proof (cases "pid_accepts p1 pin")
    case True
    then obtain p3 where "packet_id_add ?p2 pin now = Some p3" "pid_rec_ok p3"
      "pid_seen (insert pin A) p3" "r_seq_backtrack p3 = r_seq_backtrack p"
      using pid_seen_add [OF p2(1,2) _ assms(3)] p2(3,4) by metis
    moreover have "pin \<notin> A" using True pid_seen_rejects [OF p1(3)] by blast
    ultimately show ?thesis
      using p1(1) t True by (intro exI [of _ True]) (simp add: crypto_check_replay_def)
  next
    case False
    then show ?thesis
      using p1(1) t p2 by (intro exI [of _ False]) (simp add: crypto_check_replay_def)
  qed
qed

text \<open>The packets accepted along a run of receptions, each with the time it happens at.\<close>

fun pid_run ::
  "packet_id_rec \<Rightarrow> (packet_id_net \<times> int) list \<Rightarrow> (packet_id_net list \<times> packet_id_rec) option" where
  "pid_run p [] = Some ([], p)"
| "pid_run p ((pin, now) # xs) =
     do { (ok, p') \<leftarrow> crypto_check_replay p pin now;
          (acc, p'') \<leftarrow> pid_run p' xs;
          Some (if ok then pin # acc else acc, p'') }"

lemma pid_run_distinct:
  "pid_rec_ok p \<Longrightarrow> pid_seen A p \<Longrightarrow> \<forall>x \<in> set xs. 1 < snd x \<Longrightarrow>
   \<exists>acc p'. pid_run p xs = Some (acc, p') \<and> distinct acc \<and> set acc \<inter> A = {}"
proof (induction xs arbitrary: p A)
  case Nil
  then show ?case by simp
next
  case (Cons x xs)
  obtain pin now where x: "x = (pin, now)" by (cases x)
  obtain ok p' where s: "crypto_check_replay p pin now = Some (ok, p')" "pid_rec_ok p'"
    "if ok then pin \<notin> A \<and> pid_seen (insert pin A) p' else pid_seen A p'"
    using crypto_check_replay_seen [OF Cons.prems(1,2)] Cons.prems(3) x by force
  let ?A = "if ok then insert pin A else A"
  obtain acc p'' where r: "pid_run p' xs = Some (acc, p'')" "distinct acc" "set acc \<inter> ?A = {}"
    using Cons.IH [OF s(2), of ?A] s(3) Cons.prems(3) by (auto split: if_splits)
  show ?case
    using s r x by (auto split: if_splits)
qed

text \<open>
  C2. Replay protection. From a freshly initialised receiver, for every window size
  (0, the strict mode of stream transports, included) and every sequence of arriving packet
  identifiers at any times after the epoch's first second, the receiver never fails and
  the identifiers it accepts are pairwise distinct.
\<close>

theorem no_replay:
  assumes "packet_id_init seq_backtrack time_backtrack nm un = Some p"
    and "\<forall>x \<in> set xs. 1 < snd x"
  shows "\<exists>acc p'. pid_run (p_rec p) xs = Some (acc, p') \<and> distinct acc"
proof -
  note init = packet_id_init_ok [OF assms(1)]
  have "pid_seen {} (p_rec p)" by (simp add: pid_seen_def)
  from pid_run_distinct [OF init(1) this assms(2)] show ?thesis by blast
qed

theorem no_replay_witness:
  "\<exists>p acc p'. packet_id_init 64 15 ''ctrl'' 0 = Some p \<and>
     pid_run (p_rec p) [(\<lparr>n_id = 3, n_time = 0\<rparr>, 100), (\<lparr>n_id = 1, n_time = 0\<rparr>, 101),
       (\<lparr>n_id = 3, n_time = 0\<rparr>, 102)] = Some (acc, p') \<and> distinct acc"
proof -
  obtain p where p: "packet_id_init 64 15 ''ctrl'' 0 = Some p"
    by (simp add: packet_id_init_def MAX_SEQ_BACKTRACK_def MAX_TIME_BACKTRACK_def)
  from no_replay [OF this, of "[(\<lparr>n_id = 3, n_time = 0\<rparr>, 100), (\<lparr>n_id = 1, n_time = 0\<rparr>, 101),
       (\<lparr>n_id = 3, n_time = 0\<rparr>, 102)]"]
  show ?thesis using p by auto
qed

section \<open>What is unseen inside the window is accepted\<close>

text \<open>A cell that expires lies at or behind one whose packet came too long ago.\<close>

lemma packet_id_reap_loop_cause:
  assumes "packet_id_reap_loop is sl tb now e = Some sl'" "circ_ok sl" "\<forall>i \<in> set is. 0 \<le> i \<and> i < x_size sl"
    and "sorted is" "d < length (circ_items sl)" "circ_items sl' ! d \<noteq> circ_items sl ! d"
  shows "e \<and> int d \<in> set is \<or>
    (\<exists>j \<le> d. circ_items sl ! j \<noteq> SEQ_UNSEEN \<and> circ_items sl ! j \<noteq> SEQ_EXPIRED \<and> circ_items sl ! j + tb < now)"
  using assms
proof (induction "is" arbitrary: sl e)
  case (Cons i "is")
  let ?t = "circ_items sl ! nat i"
  have i: "0 \<le> i" "i < x_size sl" "nat i < length (circ_items sl)"
    using Cons.prems(2,3) length_circ_items [of sl] by auto
  have t: "circ_list_item sl i = Some ?t" using Cons.prems(2) i by (simp add: circ_item_eq)
  have ne: "?t \<noteq> SEQ_EXPIRED" using Cons.prems(1,6) t by auto
  define e' where "e' = (e \<or> ?t \<noteq> 0 \<and> ?t + tb < now)"
  obtain sl1 where sl1: "(if e' then circ_list_set sl i SEQ_EXPIRED else Some sl) = Some sl1"
    "circ_ok sl1" "x_size sl1 = x_size sl"
    "circ_items sl1 = (if e' then (circ_items sl)[nat i := SEQ_EXPIRED] else circ_items sl)"
    using circ_set_eq [of sl i SEQ_EXPIRED] Cons.prems(2) i by (cases e') auto
  have run: "packet_id_reap_loop is sl1 tb now e' = Some sl'"
    using Cons.prems(1) t ne sl1(1) by (simp add: e'_def [symmetric])
  have cell: "circ_items sl1 ! j = circ_items sl ! j" if "j \<noteq> nat i \<or> \<not> e'" for j using that sl1(4) by auto
  have here: "e \<or> ?t \<noteq> SEQ_UNSEEN \<and> ?t \<noteq> SEQ_EXPIRED \<and> ?t + tb < now" if e' using that ne by (auto simp: e'_def SEQ_UNSEEN_def)
  show ?case
  proof (cases "d = nat i \<and> e'")
    case True
    then show ?thesis using here i(1) by auto
  next
    case False
    then have "circ_items sl' ! d \<noteq> circ_items sl1 ! d" using Cons.prems(6) cell by auto
    then consider (late) "e'" "int d \<in> set is" | (old) j where "j \<le> d" "circ_items sl1 ! j \<noteq> SEQ_UNSEEN"
        "circ_items sl1 ! j \<noteq> SEQ_EXPIRED" "circ_items sl1 ! j + tb < now"
    proof -
      have "sorted is" "\<forall>k \<in> set is. 0 \<le> k \<and> k < x_size sl1" "d < length (circ_items sl1)"
        using Cons.prems(3-5) sl1(3,4) by auto
      then have "e' \<and> int d \<in> set is \<or> (\<exists>j \<le> d. circ_items sl1 ! j \<noteq> SEQ_UNSEEN \<and> circ_items sl1 ! j \<noteq> SEQ_EXPIRED \<and>
          circ_items sl1 ! j + tb < now)"
        using Cons.IH [OF run sl1(2)] \<open>circ_items sl' ! d \<noteq> circ_items sl1 ! d\<close> by blast
      then show ?thesis using late old by blast
    qed
    then show ?thesis
    proof cases
      case late
      then have "nat i \<le> d" using Cons.prems(4) i(1) by (auto simp: nat_le_iff)
      then show ?thesis using here late by auto
    next
      case old
      then have "j \<noteq> nat i \<or> \<not> e'" using sl1(4) i(3) by auto
      then show ?thesis using old cell by metis
    qed
  qed
qed simp

lemma packet_id_reap_cause:
  assumes "pid_rec_ok p" "packet_id_reap_test p now = Some p'" "d < length (pid_window p)"
    and "pid_window p' ! d \<noteq> pid_window p ! d"
  shows "r_time_backtrack p \<noteq> 0 \<and> (\<exists>j \<le> d. pid_window p ! j \<noteq> SEQ_UNSEEN \<and> pid_window p ! j \<noteq> SEQ_EXPIRED \<and>
    pid_window p ! j + r_time_backtrack p < now)"
proof -
  have tb: "r_time_backtrack p \<noteq> 0" "r_last_reap p + SEQ_REAP_INTERVAL \<le> now"
    using assms(2,4) by (auto simp: packet_id_reap_test_def packet_id_reap_def pid_window_def split: if_split_asm)
  then have "r_seq_backtrack p \<noteq> 0" using assms(1) by (auto simp: pid_rec_ok_def split: option.splits)
  then obtain sl where sl: "r_seq_list p = Some sl" "circ_ok sl" "pid_window p = circ_items sl"
    using assms(1) by (elim pid_rec_ok_windowE)
  obtain sl' where sl': "packet_id_reap_loop [0..circ_list_size sl - 1] sl (r_time_backtrack p) now False = Some sl'"
    "pid_window p' = circ_items sl'"
    using assms(2) tb sl(1)
    by (cases "packet_id_reap_loop [0..circ_list_size sl - 1] sl (r_time_backtrack p) now False")
      (auto simp: packet_id_reap_test_def packet_id_reap_def pid_window_def)
  have "sorted [0..circ_list_size sl - 1]" "\<forall>i \<in> set [0..circ_list_size sl - 1]. 0 \<le> i \<and> i < x_size sl"
    by (auto simp: circ_list_size_def)
  then show ?thesis
    using packet_id_reap_loop_cause [OF sl'(1) sl(2)] assms(3,4) tb(1) unfolding sl(3) sl'(2) by blast
qed

text \<open>
  Up to the time \<open>T\<close> the packets of \<open>L\<close> have been accepted, each with the time of its arrival. The window is as long as the
  numbers used so far allow, and a cell that is not \<open>SEQ_UNSEEN\<close> is that of an accepted packet, with its time, or
  expired, because an accepted packet with no smaller number came more than \<open>time_backtrack\<close> before \<open>T\<close>.
\<close>

definition pid_exact :: "(packet_id_net \<times> int) set \<Rightarrow> int \<Rightarrow> packet_id_rec \<Rightarrow> bool" where
  "pid_exact L T p \<longleftrightarrow> r_seq_backtrack p \<noteq> 0 \<and>
     length (pid_window p) = min (nat (r_seq_backtrack p)) (unat (r_id p)) \<and>
     (\<forall>a. n_time a = r_time p \<and> n_id a \<le> r_id p \<and> pid_diff p (n_id a) < length (pid_window p) \<longrightarrow>
        pid_window p ! pid_diff p (n_id a) = SEQ_UNSEEN \<or>
        pid_window p ! pid_diff p (n_id a) \<noteq> SEQ_EXPIRED \<and> (a, pid_window p ! pid_diff p (n_id a)) \<in> L \<or>
        r_time_backtrack p \<noteq> 0 \<and> (\<exists>(b, t) \<in> L. n_time b = n_time a \<and> n_id a \<le> n_id b \<and> t + r_time_backtrack p < T))"

lemma pid_exactD:
  assumes "pid_exact L T p" "n_time a = r_time p" "n_id a \<le> r_id p" "pid_diff p (n_id a) < length (pid_window p)"
  obtains "pid_window p ! pid_diff p (n_id a) = SEQ_UNSEEN"
  | "pid_window p ! pid_diff p (n_id a) \<noteq> SEQ_EXPIRED" "(a, pid_window p ! pid_diff p (n_id a)) \<in> L"
  | b t where "r_time_backtrack p \<noteq> 0" "(b, t) \<in> L" "n_time b = n_time a" "n_id a \<le> n_id b" "t + r_time_backtrack p < T"
  using assms unfolding pid_exact_def by blast

lemma window_arith: "int a < int b + s \<Longrightarrow> 0 < b \<Longrightarrow> b \<le> a \<Longrightarrow> a - b < min (nat s) a" for a b :: nat
  by arith

lemma pid_exact_add:
  assumes ok: "pid_rec_ok p" and ex: "pid_exact L T p" and acc: "pid_accepts p pin" and now: "1 < now"
    and p': "packet_id_add p pin now = Some p'"
  shows "pid_exact (insert (pin, now) L) T p'"
proof -
  have sb: "r_seq_backtrack p \<noteq> 0" using ex by (simp add: pid_exact_def)
  have add: "r_seq_backtrack p' = r_seq_backtrack p" "r_time_backtrack p' = r_time_backtrack p"
    "r_time p' = n_time pin" "unat (r_id p') = max (pid_base p pin) (unat (n_id pin))"
    "pid_diff p' (n_id pin) < length (pid_filled p pin)"
    "pid_window p' = (pid_filled p pin)[pid_diff p' (n_id pin) := now]"
    using packet_id_add_window [OF ok sb acc now] p' by auto
  have "length (pid_window p) = min (nat (r_seq_backtrack p)) (unat (r_id p))" using ex by (simp add: pid_exact_def)
  then have len: "length (pid_window p') = min (nat (r_seq_backtrack p')) (unat (r_id p'))"
    using add(1,4,6) unfolding pid_filled_def pid_base_def
    by (cases "pid_restart p pin") (simp_all add: min_def max_def, arith+)
  have "pid_window p' ! pid_diff p' (n_id a) = SEQ_UNSEEN \<or>
      pid_window p' ! pid_diff p' (n_id a) \<noteq> SEQ_EXPIRED \<and> (a, pid_window p' ! pid_diff p' (n_id a)) \<in> insert (pin, now) L \<or>
      r_time_backtrack p' \<noteq> 0 \<and> (\<exists>(b, t) \<in> insert (pin, now) L. n_time b = n_time a \<and> n_id a \<le> n_id b \<and> t + r_time_backtrack p' < T)"
    (is "?goal a") if a: "n_time a = r_time p'" "n_id a \<le> r_id p'" "pid_diff p' (n_id a) < length (pid_window p')" for a
  proof (cases "pid_diff p' (n_id a) = pid_diff p' (n_id pin)")
    case True
    have "n_id pin \<le> r_id p'" using add(4) by (simp add: word_le_nat_alt)
    with True a(2) have "n_id a = n_id pin"
      by (simp add: pid_diff_def word_le_nat_alt word_unat_eq_iff)
    then have "a = pin" using a(1) add(3) by (cases a; cases pin) simp
    then show ?thesis using add(5,6) now by (simp add: SEQ_EXPIRED_def)
  next
    case False
    let ?k = "unat (n_id pin) - pid_base p pin" and ?e = "pid_diff p' (n_id a)"
    let ?w = "if pid_restart p pin then [] else pid_window p"
    have f: "?e < length (pid_filled p pin)" "pid_window p' ! ?e = pid_filled p pin ! ?e"
      using a(3) False by (simp_all add: add(6))
    show ?thesis
    proof (cases "pid_filled p pin ! ?e = SEQ_UNSEEN")
      case True
      then show ?thesis using f(2) by simp
    next
      case seen: False
      have "\<not> ?e < ?k"
      proof
        assume "?e < ?k"
        moreover have "?e < nat (r_seq_backtrack p)" using f(1) by (simp add: pid_filled_def)
        ultimately have "pid_filled p pin ! ?e = SEQ_UNSEEN"
          by (simp only: pid_filled_def nth_take nth_append length_replicate nth_replicate if_True)
        with seen show False by simp
      qed
      then obtain d where d: "?e = d + ?k" by (metis add.commute le_Suc_ex not_less)
      have x: "d + ?k < length (take (nat (r_seq_backtrack p)) (replicate ?k SEQ_UNSEEN @ ?w))"
        "pid_filled p pin ! ?e = take (nat (r_seq_backtrack p)) (replicate ?k SEQ_UNSEEN @ ?w) ! (d + ?k)"
        using f(1) d by (simp_all only: pid_filled_def)
      have w: "d < length ?w" "pid_filled p pin ! ?e = ?w ! d"
        using nth_take_replicate_append [OF x(1)] x(2) by (simp_all only: simp_thms)
      then have nr: "\<not> pid_restart p pin" by (cases "pid_restart p pin") simp_all
      have t: "n_time pin = r_time p"
        using acc sb nr by (auto simp: pid_accepts_def pid_restart_def)
      have lw: "d < unat (r_id p)" using w(1) nr ex by (simp add: pid_exact_def)
      have "unat (r_id p') = unat (r_id p) + ?k"
        using add(4) nr by (simp add: pid_base_def)
      then have dd: "unat (n_id a) = unat (r_id p) - d"
        using d a(2) lw by (auto simp: pid_diff_def word_le_nat_alt)
      then have diff: "pid_diff p (n_id a) = d" "n_id a \<le> r_id p"
        using lw by (simp_all add: pid_diff_def word_le_nat_alt)
      have v: "pid_window p' ! ?e = pid_window p ! pid_diff p (n_id a)" using f(2) w(2) nr diff(1) by simp
      have "n_time a = r_time p" "pid_diff p (n_id a) < length (pid_window p)" using a(1) add(3) t w(1) nr diff(1) by simp_all
      from pid_exactD [OF ex this(1) diff(2) this(2)] show ?thesis unfolding v add(2)
        by cases auto
    qed
  qed
  then show ?thesis using ex add(1) len by (simp add: pid_exact_def)
qed

lemma pid_exact_reap:
  assumes ok: "pid_rec_ok p" and ex: "pid_exact L T p" and p': "packet_id_reap_test p now = Some p'" and T: "now \<le> T"
  shows "pid_exact L T p'"
proof -
  have f: "r_time p' = r_time p" "r_id p' = r_id p" "r_seq_backtrack p' = r_seq_backtrack p" "r_time_backtrack p' = r_time_backtrack p"
    "length (pid_window p') = length (pid_window p)"
    using packet_id_reap_ok [OF ok, of now] p' by auto
  have diff: "pid_diff p' i = pid_diff p i" for i by (simp add: pid_diff_def f(2))
  have cause: "r_time_backtrack p \<noteq> 0 \<and> (\<exists>(b, t) \<in> L. n_time b = n_time a \<and> n_id a \<le> n_id b \<and> t + r_time_backtrack p < T)"
    if a: "n_time a = r_time p" "n_id a \<le> r_id p" "pid_diff p (n_id a) < length (pid_window p)"
      "pid_window p' ! pid_diff p (n_id a) \<noteq> pid_window p ! pid_diff p (n_id a)" for a
  proof -
    obtain j where j: "r_time_backtrack p \<noteq> 0" "j \<le> pid_diff p (n_id a)" "pid_window p ! j \<noteq> SEQ_UNSEEN"
      "pid_window p ! j \<noteq> SEQ_EXPIRED" "pid_window p ! j + r_time_backtrack p < now"
      using packet_id_reap_cause [OF ok p' a(3,4)] by blast
    define b where "b = \<lparr>n_id = r_id p - of_nat j, n_time = r_time p\<rparr>"
    have "unat (r_id p) < 2 ^ LENGTH(32)" by (rule unsigned_less)
    then have lj: "j < length (pid_window p)" "j \<le> unat (r_id p)" "j < 2 ^ 32"
      using j(2) a(3) by (simp_all add: pid_diff_def)
    have uj: "unat (of_nat j :: packet_id_type) = j" using lj(3) by (simp add: unat_of_nat take_bit_nat_eq_self)
    have ub: "unat (n_id b) = unat (r_id p) - j" using lj(2) uj by (simp add: b_def unat_sub_if_size)
    have b: "n_time b = r_time p" "n_id b \<le> r_id p" "pid_diff p (n_id b) = j"
      using ub lj(2) by (simp_all add: word_le_nat_alt pid_diff_def) (simp add: b_def)
    have le: "n_id a \<le> n_id b" using ub j(2) a(2) by (simp add: word_le_nat_alt pid_diff_def)
    show ?thesis
    proof (rule pid_exactD [OF ex b(1,2)])
      show "pid_diff p (n_id b) < length (pid_window p)" using b(3) lj(1) by simp
    next
      assume "pid_window p ! pid_diff p (n_id b) = SEQ_UNSEEN"
      then show ?thesis using j(3) b(3) by simp
    next
      assume "(b, pid_window p ! pid_diff p (n_id b)) \<in> L"
      then show ?thesis using j(1,5) b(1,3) le T a(1) by (intro conjI bexI [of _ "(b, pid_window p ! j)"]) auto
    next
      fix c t
      assume "(c, t) \<in> L" "n_time c = n_time b" "n_id b \<le> n_id c" "t + r_time_backtrack p < T"
      then show ?thesis using j(1) b(1) le a(1) by (intro conjI bexI [of _ "(c, t)"]) auto
    qed
  qed
  have "pid_window p' ! pid_diff p' (n_id a) = SEQ_UNSEEN \<or>
      pid_window p' ! pid_diff p' (n_id a) \<noteq> SEQ_EXPIRED \<and> (a, pid_window p' ! pid_diff p' (n_id a)) \<in> L \<or>
      r_time_backtrack p' \<noteq> 0 \<and> (\<exists>(b, t) \<in> L. n_time b = n_time a \<and> n_id a \<le> n_id b \<and> t + r_time_backtrack p' < T)"
    if a: "n_time a = r_time p'" "n_id a \<le> r_id p'" "pid_diff p' (n_id a) < length (pid_window p')" for a
  proof (cases "pid_window p' ! pid_diff p (n_id a) = pid_window p ! pid_diff p (n_id a)")
    case True
    have "n_time a = r_time p" "n_id a \<le> r_id p" "pid_diff p (n_id a) < length (pid_window p)" using a f diff by simp_all
    from pid_exactD [OF ex this] show ?thesis unfolding diff True f(4) by cases auto
  next
    case False
    have "n_time a = r_time p" "n_id a \<le> r_id p" "pid_diff p (n_id a) < length (pid_window p)" using a f diff by simp_all
    from cause [OF this False] show ?thesis unfolding f(4) by blast
  qed
  then show ?thesis using ex f by (simp add: pid_exact_def)
qed

lemma crypto_check_replay_exact:
  assumes "pid_rec_ok p" "pid_exact L T p" "1 < now" "now \<le> T"
    and step: "crypto_check_replay p pin now = Some (ok, p')"
  obtains p1 where "pid_exact L T p1" "r_time p1 = r_time p" "r_id p1 = r_id p" "r_seq_backtrack p1 = r_seq_backtrack p"
    "r_time_backtrack p1 = r_time_backtrack p" "ok \<longleftrightarrow> pid_accepts p1 pin"
    "pid_exact (if ok then insert (pin, now) L else L) T p'" "r_time_backtrack p' = r_time_backtrack p"
proof -
  obtain p1 where p1: "packet_id_reap_test p now = Some p1" "pid_rec_ok p1"
    "r_seq_backtrack p1 = r_seq_backtrack p" "r_time_backtrack p1 = r_time_backtrack p"
    "r_time p1 = r_time p" "r_id p1 = r_id p"
    using packet_id_reap_ok [OF assms(1), of now] by auto
  note ex1 = pid_exact_reap [OF assms(1,2) p1(1) assms(4)]
  obtain m where t: "packet_id_test p1 pin = Some (pid_accepts p1 pin, p1\<lparr>r_max_backtrack_stat := m\<rparr>)"
    using packet_id_test_eq [OF p1(2)] by blast
  let ?p2 = "p1\<lparr>r_max_backtrack_stat := m\<rparr>"
  have p2: "pid_rec_ok ?p2" "pid_exact L T ?p2" "pid_accepts ?p2 pin = pid_accepts p1 pin"
    using p1(2) ex1 by (auto simp: pid_rec_ok_def pid_exact_def pid_accepts_def pid_diff_def pid_window_def split: option.splits)
  have ok: "ok \<longleftrightarrow> pid_accepts p1 pin"
    using step p1(1) t by (auto simp: crypto_check_replay_def split: if_splits Option.bind_splits)
  have "pid_exact (if ok then insert (pin, now) L else L) T p' \<and> r_time_backtrack p' = r_time_backtrack p"
  proof (cases "pid_accepts p1 pin")
    case True
    with step p1(1) t have a: "packet_id_add ?p2 pin now = Some p'" ok
      by (auto simp: crypto_check_replay_def split: Option.bind_splits)
    have "r_seq_backtrack ?p2 \<noteq> 0" using p2(2) by (simp add: pid_exact_def)
    then have "r_time_backtrack p' = r_time_backtrack p"
      using packet_id_add_window [OF p2(1) _ _ assms(3), of pin] a(1) p2(3) True p1(4) by fastforce
    then show ?thesis using pid_exact_add [OF p2(1,2) _ assms(3) a(1)] p2(3) True a(2) by simp
  next
    case False
    with step p1(1,4) t p2 show ?thesis by (auto simp: crypto_check_replay_def)
  qed
  then show ?thesis using that ex1 p1(3-6) ok by blast
qed

text \<open>A run of receptions with the times at which the packets were accepted.\<close>

fun pid_log ::
  "packet_id_rec \<Rightarrow> (packet_id_net \<times> int) list \<Rightarrow> ((packet_id_net \<times> int) list \<times> packet_id_rec) option" where
  "pid_log p [] = Some ([], p)"
| "pid_log p ((pin, now) # xs) =
     do { (ok, p') \<leftarrow> crypto_check_replay p pin now;
          (acc, p'') \<leftarrow> pid_log p' xs;
          Some (if ok then (pin, now) # acc else acc, p'') }"

lemma pid_run_log: "pid_run p xs = map_option (\<lambda>(acc, p'). (map fst acc, p')) (pid_log p xs)"
  by (induction p xs rule: pid_log.induct) (auto split: option.split Option.bind_splits)

lemma pid_log_exact:
  "pid_rec_ok p \<Longrightarrow> pid_seen (fst ` L) p \<Longrightarrow> pid_exact L T p \<Longrightarrow> \<forall>x \<in> set xs. 1 < snd x \<and> snd x \<le> T \<Longrightarrow>
   pid_log p xs = Some (acc, p') \<Longrightarrow>
   pid_rec_ok p' \<and> pid_seen (fst ` set acc \<union> fst ` L) p' \<and> pid_exact (set acc \<union> L) T p' \<and>
     r_seq_backtrack p' = r_seq_backtrack p \<and> r_time_backtrack p' = r_time_backtrack p"
proof (induction xs arbitrary: p L acc)
  case (Cons x xs)
  obtain pin now where x: "x = (pin, now)" by (cases x)
  obtain ok p1 acc1 where s: "crypto_check_replay p pin now = Some (ok, p1)" "pid_log p1 xs = Some (acc1, p')"
    "acc = (if ok then (pin, now) # acc1 else acc1)"
    using Cons.prems(5) x by (auto split: Option.bind_split_asm)
  have t: "1 < now" "now \<le> T" using Cons.prems(4) x by auto
  have ok: "pid_rec_ok p1" "if ok then pin \<notin> fst ` L \<and> pid_seen (insert pin (fst ` L)) p1 else pid_seen (fst ` L) p1"
    "r_seq_backtrack p1 = r_seq_backtrack p"
    using crypto_check_replay_seen [OF Cons.prems(1,2) t(1), of pin] s(1) by auto
  let ?L = "if ok then insert (pin, now) L else L"
  have ex: "pid_exact ?L T p1" "r_time_backtrack p1 = r_time_backtrack p"
    by (rule crypto_check_replay_exact [OF Cons.prems(1,3) t s(1)], simp)+
  have "pid_seen (fst ` ?L) p1" using ok(2) by (simp split: if_splits)
  from Cons.IH [OF ok(1) this ex(1) _ s(2)] Cons.prems(4) show ?case
    using s(3) ok(3) ex(2) by (cases ok) auto
qed simp

text \<open>
  C17. The replay window turns away nothing that is new and in time. After any run of receptions, up to the present
  time, a packet that was not accepted yet is accepted if its time stamp is newer than that of the window; and so it is if it has
  the time stamp of the window, lies less than the window size behind the newest number, and no packet with a
  higher number was accepted more than \<open>time_backtrack\<close> seconds ago (with 0 there is no such limit).
\<close>

theorem unseen_in_window_accepted:
  assumes "packet_id_init seq_backtrack time_backtrack nm un = Some p" and "0 < seq_backtrack"
    and "\<forall>x \<in> set xs. 1 < snd x \<and> snd x \<le> now" and "1 < now" and "pid_log (p_rec p) xs = Some (acc, p')"
    and "pin \<notin> fst ` set acc" and "n_id pin \<noteq> 0"
    and "r_time p' < n_time pin \<or>
         n_time pin = r_time p' \<and> uint (r_id p') < uint (n_id pin) + seq_backtrack \<and>
         (time_backtrack = 0 \<or> (\<forall>(b, t) \<in> set acc. n_time b = n_time pin \<and> n_id pin < n_id b \<longrightarrow> now \<le> t + time_backtrack))"
  shows "\<exists>p''. crypto_check_replay p' pin now = Some (True, p'')"
proof -
  note init = packet_id_init_ok [OF assms(1)]
  have "pid_seen (fst ` {}) (p_rec p)" by (simp add: pid_seen_def)
  moreover have tb: "r_time_backtrack (p_rec p) = time_backtrack"
    using assms(1,2) by (auto simp: packet_id_init_def Let_def split: if_splits)
  have "pid_exact {} now (p_rec p)"
    using init assms(2) by (simp add: pid_exact_def)
  ultimately have run: "pid_rec_ok p'" "pid_seen (fst ` set acc) p'" "pid_exact (set acc) now p'"
    "r_seq_backtrack p' = seq_backtrack" "r_time_backtrack p' = time_backtrack"
    using pid_log_exact [OF init(1), of "{}" now xs acc p'] assms(3,5) init(2) tb by simp_all
  obtain ok p'' where r: "crypto_check_replay p' pin now = Some (ok, p'')"
    using crypto_check_replay_seen [OF run(1,2) assms(4)] by blast
  obtain p1 where p1: "pid_exact (set acc) now p1" "r_time p1 = r_time p'" "r_id p1 = r_id p'" "r_seq_backtrack p1 = seq_backtrack"
    "r_time_backtrack p1 = time_backtrack" "ok \<longleftrightarrow> pid_accepts p1 pin"
    using crypto_check_replay_exact [OF run(1,3) assms(4) order_refl r] run(4,5) by metis
  have "pid_accepts p1 pin"
  proof (cases "r_time p' < n_time pin \<or> r_id p' < n_id pin")
    case True
    then show ?thesis using assms(2,7,8) p1(2-4) by (auto simp: pid_accepts_def)
  next
    case False
    then have t: "n_time pin = r_time p1" "n_id pin \<le> r_id p1" using assms(8) p1(2,3) by auto
    have late: "time_backtrack = 0 \<or> (\<forall>(b, t) \<in> set acc. n_time b = n_time pin \<and> n_id pin < n_id b \<longrightarrow> now \<le> t + time_backtrack)"
      and "uint (r_id p') < uint (n_id pin) + seq_backtrack" using assms(8) False by auto
    moreover have "int (unat (r_id p')) = uint (r_id p')" "int (unat (n_id pin)) = uint (n_id pin)" by simp_all
    ultimately have "int (unat (r_id p')) < int (unat (n_id pin)) + seq_backtrack" by linarith
    moreover have "0 < unat (n_id pin)" using assms(7) by (simp add: unat_gt_0)
    moreover have "unat (n_id pin) \<le> unat (r_id p')" using t(2) p1(3) by (simp add: word_le_nat_alt)
    ultimately have "pid_diff p1 (n_id pin) < min (nat seq_backtrack) (unat (r_id p1))"
      unfolding pid_diff_def p1(3) by (rule window_arith)
    then have inw: "pid_diff p1 (n_id pin) < length (pid_window p1)"
      using p1(1,4) by (simp add: pid_exact_def)
    have "pid_window p1 ! pid_diff p1 (n_id pin) = SEQ_UNSEEN"
    proof (rule pid_exactD [OF p1(1) t inw])
      assume "(pin, pid_window p1 ! pid_diff p1 (n_id pin)) \<in> set acc"
      then show ?thesis using assms(6) by force
    next
      fix b t
      assume b: "r_time_backtrack p1 \<noteq> 0" "(b, t) \<in> set acc" "n_time b = n_time pin" "n_id pin \<le> n_id b" "t + r_time_backtrack p1 < now"
      have "b \<noteq> pin" using assms(6) b(2) by force
      then have "n_id pin < n_id b" using b(3,4) by (cases b; cases pin) (auto simp: order_less_le)
      then show ?thesis using late b p1(5) by fastforce
    qed
    then show ?thesis using t inw assms(2,7) p1(4) by (simp add: pid_accepts_def SEQ_UNSEEN_def)
  qed
  then show ?thesis using r p1(6) by simp
qed

theorem unseen_in_window_accepted_witness:
  "\<exists>p acc p' p''. packet_id_init 4 15 ''ctrl'' 0 = Some p \<and>
     pid_log (p_rec p) [(\<lparr>n_id = 9, n_time = 0\<rparr>, 100)] = Some (acc, p') \<and>
     acc = [(\<lparr>n_id = 9, n_time = 0\<rparr>, 100)] \<and> r_id p' = 9 \<and>
     crypto_check_replay p' \<lparr>n_id = 7, n_time = 0\<rparr> 115 = Some (True, p'')"
proof -
  define p where "p = the (packet_id_init 4 15 ''ctrl'' 0)"
  define r where "r = the (pid_log (p_rec p) [(\<lparr>n_id = 9, n_time = 0\<rparr>, 100)])"
  have p: "packet_id_init 4 15 ''ctrl'' 0 = Some p"
    unfolding p_def by (simp add: packet_id_init_def MAX_SEQ_BACKTRACK_def MAX_TIME_BACKTRACK_def)
  have "pid_log (p_rec p) [(\<lparr>n_id = 9, n_time = 0\<rparr>, 100)] = Some r \<and>
      fst r = [(\<lparr>n_id = 9, n_time = 0\<rparr>, 100)] \<and> r_id (snd r) = 9 \<and> r_time (snd r) = 0"
    unfolding r_def p_def by code_simp
  then have r: "pid_log (p_rec p) [(\<lparr>n_id = 9, n_time = 0\<rparr>, 100)] = Some (fst r, snd r)"
    "fst r = [(\<lparr>n_id = 9, n_time = 0\<rparr>, 100)]" "r_id (snd r) = 9" "r_time (snd r) = 0"
    by (cases r; simp del: pid_log.simps)+
  have "\<exists>p''. crypto_check_replay (snd r) \<lparr>n_id = 7, n_time = 0\<rparr> 115 = Some (True, p'')"
    by (rule unseen_in_window_accepted [OF p _ _ _ r(1)]) (simp_all add: r(2-4))
  with p r show ?thesis by blast
qed

end
