(* ===== verification/PacketIdStream.thy ===== *)
theory PacketIdStream
  imports PacketId
begin

text \<open>
  Both ends of the packet numbering of \<^verbatim>\<open>openvpn/packet_id.c\<close>: what a sender writes
  (\<open>packet_id_send_update\<close>, \<open>packet_id_write\<close>) and what the receiver of \<open>PacketId\<close> does with
  it. The wire format reads back, a sender never repeats an identifier, a stream that
  arrives in order is accepted completely, and what a replay window reloaded from
  \<open>--replay-persist\<close> keeps out.
\<close>

section \<open>The wire format\<close>

text \<open>The identifier on the wire for a sender in state \<open>s\<close>: the time is cut to 32 bits.\<close>

definition pid_on_wire :: "packet_id_send \<Rightarrow> bool \<Rightarrow> packet_id_net" where
  "pid_on_wire s long_form =
     \<lparr>n_id = s_id s, n_time = (if long_form then uint (word_of_int (s_time s) :: u32) else 0)\<rparr>"

definition pid_wire_bytes :: "packet_id_send \<Rightarrow> bool \<Rightarrow> bytes" where
  "pid_wire_bytes s long_form =
     u32_bytes (s_id s) @ (if long_form then u32_bytes (word_of_int (s_time s)) else [])"

lemma packet_id_read_wire:
  assumes "buf_ok b" "buf_content b = pid_wire_bytes s lf @ ys"
  shows "\<exists>b'. packet_id_read b lf = Some (True, pid_on_wire s lf, b') \<and> buf_ok b' \<and> buf_content b' = ys"
proof (cases lf)
  case True
  then have c: "buf_content b = u32_bytes (s_id s) @ u32_bytes (word_of_int (s_time s)) @ ys"
    using assms(2) by (simp add: pid_wire_bytes_def)
  note r1 = buf_read_u32_prefix [OF assms(1) c]
  note r2 = buf_read_u32_prefix [OF r1(2,3)]
  show ?thesis
    using r1 r2 True by (simp add: packet_id_read_def pid_on_wire_def bytes_u32_u32_bytes)
next
  case False
  then have c: "buf_content b = u32_bytes (s_id s) @ ys"
    using assms(2) by (simp add: pid_wire_bytes_def)
  note r1 = buf_read_u32_prefix [OF assms(1) c]
  show ?thesis
    using r1 False by (simp add: packet_id_read_def pid_on_wire_def bytes_u32_u32_bytes)
qed

lemma length_u32_bytes_int [simp]: "int (length (u32_bytes w)) = 4"
  by (simp add: u32_bytes_def)

lemma packet_id_write_append:
  assumes "buf_ok b" "packet_id_size lf \<le> buf_room b"
    and "packet_id_send_update s lf now = (True, s')"
  shows "\<exists>b'. packet_id_write s b lf False now = Some (True, s', b') \<and> buf_ok b' \<and>
    buf_content b' = buf_content b @ pid_wire_bytes s' lf \<and> b_offset b' = b_offset b \<and>
    b_capacity b' = b_capacity b \<and> buf_room b' = buf_room b - packet_id_size lf"
proof -
  let ?b1 = "buf_append b (u32_bytes (s_id s'))"
  have room: "int (length (u32_bytes (s_id s'))) \<le> buf_room b"
    using assms(2) by (simp add: packet_id_size_def split: if_splits)
  have 1: "buf_ok ?b1" "buf_content ?b1 = buf_content b @ u32_bytes (s_id s')"
    "buf_room ?b1 = buf_room b - 4"
    using buf_append_ok [OF assms(1) room] by simp_all
  show ?thesis
  proof (cases lf)
    case True
    have "int (length (u32_bytes (word_of_int (s_time s')))) \<le> buf_room ?b1"
      using assms(2) True 1(3) by (simp add: packet_id_size_def)
    then show ?thesis
      using room assms True 1 by (simp add: packet_id_write_def buf_write_ok pid_wire_bytes_def packet_id_size_def)
  next
    case False
    then show ?thesis
      using room assms 1 by (simp add: packet_id_write_def buf_write_ok pid_wire_bytes_def packet_id_size_def)
  qed
qed

lemma packet_id_write_push:
  assumes "buf_ok b" "packet_id_size lf \<le> b_offset b"
    and "packet_id_send_update s lf now = (True, s')"
  shows "\<exists>b'. packet_id_write s b lf True now = Some (True, s', b') \<and> buf_ok b' \<and>
    buf_content b' = pid_wire_bytes s' lf @ buf_content b \<and> b_offset b' = b_offset b - packet_id_size lf \<and>
    b_capacity b' = b_capacity b \<and> buf_room b' = buf_room b"
proof (cases lf)
  case True
  let ?b1 = "buf_push b (u32_bytes (word_of_int (s_time s')))"
  have room: "int (length (u32_bytes (word_of_int (s_time s')))) \<le> b_offset b"
    using assms(2) by (simp add: packet_id_size_def split: if_splits)
  have 1: "buf_ok ?b1" "buf_content ?b1 = u32_bytes (word_of_int (s_time s')) @ buf_content b"
    "b_offset ?b1 = b_offset b - 4"
    using buf_push_ok [OF assms(1) room] by simp_all
  have "int (length (u32_bytes (s_id s'))) \<le> b_offset ?b1"
    using assms(2) True 1(3) by (simp add: packet_id_size_def)
  then show ?thesis
    using room assms True 1 by (simp add: packet_id_write_def buf_write_prepend_ok pid_wire_bytes_def packet_id_size_def)
next
  case False
  then have "int (length (u32_bytes (s_id s'))) \<le> b_offset b"
    using assms(2) by (simp add: packet_id_size_def)
  then show ?thesis
    using assms False by (simp add: packet_id_write_def buf_write_prepend_ok pid_wire_bytes_def packet_id_size_def)
qed

text \<open>
  C18. The packet identifier survives the wire. Whatever follows it, the receiver reads the
  number, and in the long form the time modulo \<open>2 ^ 32\<close>, that the sender's state holds after
  the write, and is left with exactly what came after: when the sender appends it and when it
  prepends it to a payload.
\<close>

theorem packet_id_write_read:
  assumes "buf_ok b" and "packet_id_send_update s lf now = (True, s')"
    and "if prep then packet_id_size lf \<le> b_offset b
         else packet_id_size lf \<le> buf_room b \<and> buf_content b = []"
  shows "\<exists>b' b''. packet_id_write s b lf prep now = Some (True, s', b') \<and>
     packet_id_read b' lf = Some (True, pid_on_wire s' lf, b'') \<and> buf_content b'' = buf_content b"
proof (cases prep)
  case True
  with assms packet_id_write_push [OF assms(1) _ assms(2)] obtain b' where
    "packet_id_write s b lf prep now = Some (True, s', b')" "buf_ok b'"
    "buf_content b' = pid_wire_bytes s' lf @ buf_content b" by auto
  then show ?thesis using packet_id_read_wire [of b' s' lf "buf_content b"] by auto
next
  case False
  with assms packet_id_write_append [OF assms(1) _ assms(2)] obtain b' where
    "packet_id_write s b lf prep now = Some (True, s', b')" "buf_ok b'"
    "buf_content b' = pid_wire_bytes s' lf @ []" by auto
  then show ?thesis using packet_id_read_wire [of b' s' lf "[]"] assms(3) False by auto
qed

theorem packet_id_write_read_witness:
  "\<exists>b' b''. packet_id_write \<lparr>s_id = 6, s_time = 70\<rparr>
       \<lparr>b_capacity = 16, b_offset = 8, b_len = 2, b_data = Some (replicate 16 7)\<rparr> True True 80
     = Some (True, \<lparr>s_id = 7, s_time = 70\<rparr>, b') \<and>
     packet_id_read b' True = Some (True, \<lparr>n_id = 7, n_time = 70\<rparr>, b'') \<and> buf_content b'' = [7, 7]"
proof -
  let ?b = "\<lparr>b_capacity = 16, b_offset = 8, b_len = 2, b_data = Some (replicate 16 7)\<rparr>"
  have h: "buf_ok ?b" "packet_id_send_update \<lparr>s_id = 6, s_time = 70\<rparr> True 80 = (True, \<lparr>s_id = 7, s_time = 70\<rparr>)"
    "packet_id_size True \<le> b_offset ?b" "pid_on_wire \<lparr>s_id = 7, s_time = 70\<rparr> True = \<lparr>n_id = 7, n_time = 70\<rparr>"
    "buf_content ?b = [7, 7]"
    by code_simp+
  show ?thesis
    using packet_id_write_read [OF h(1,2), of True] h(3-5) by (simp only: if_True simp_thms)
qed

section \<open>The sender\<close>

text \<open>The identifiers a sender puts on the wire, one for each time at which it is asked to send.\<close>

fun send_run :: "packet_id_send \<Rightarrow> bool \<Rightarrow> int list \<Rightarrow> packet_id_net list \<times> packet_id_send" where
  "send_run s lf [] = ([], s)"
| "send_run s lf (t # ts) =
     (case packet_id_send_update s lf t of (ok, s') \<Rightarrow>
        (case send_run s' lf ts of (ps, s'') \<Rightarrow>
           (if ok then pid_on_wire s' lf # ps else ps, s'')))"

text \<open>The order of identifiers: by time, then by number.\<close>

definition pid_less :: "packet_id_net \<Rightarrow> packet_id_net \<Rightarrow> bool" where
  "pid_less a b \<longleftrightarrow> n_time a < n_time b \<or> n_time a = n_time b \<and> n_id a < n_id b"

lemma pid_less_trans: "pid_less a b \<Longrightarrow> pid_less b c \<Longrightarrow> pid_less a c"
  by (auto simp: pid_less_def)

lemma pid_less_irrefl [simp]: "\<not> pid_less a a"
  by (simp add: pid_less_def)

lemma uint_u32_time: "0 \<le> t \<Longrightarrow> t < 2 ^ 32 \<Longrightarrow> uint (word_of_int t :: u32) = t"
  by (simp add: uint_word_of_int)

lemma packet_id_max_incr: "i \<noteq> PACKET_ID_MAX \<Longrightarrow> i < i + 1 \<and> i + 1 \<noteq> 0" for i :: u32
proof
  assume "i \<noteq> PACKET_ID_MAX"
  moreover have "(- 1 :: u32) = PACKET_ID_MAX" by code_simp
  ultimately have "i + 1 \<noteq> 0" by (metis eq_neg_iff_add_eq_0)
  then show "i + 1 \<noteq> 0" "i < i + 1" by (simp_all add: word_less_incr)
qed

lemma packet_id_send_update_cases:
  assumes "packet_id_send_update s lf t = (True, s')"
  shows "s_time s' = (if s_time s = 0 then t else s_time s) \<and> s_id s \<noteq> PACKET_ID_MAX \<and> s_id s' = s_id s + 1
    \<or> lf \<and> s_id s' = 1 \<and> s_time s' = t \<and> s_time s < t \<and> s_time s \<noteq> 0"
  using assms by (cases "s_time s = 0") (auto simp: packet_id_send_update_def Let_def split: if_splits)

lemma packet_id_send_update_wire:
  assumes "packet_id_send_update s lf t = (ok, s')" and "0 < t" "t < 2 ^ 32"
    and "0 \<le> s_time s" "s_time s < 2 ^ 32"
  shows "0 \<le> s_time s'" "s_time s' < 2 ^ 32"
    and "if ok then pid_less (pid_on_wire s lf) (pid_on_wire s' lf)
         else pid_on_wire s' lf = pid_on_wire s lf \<or> pid_less (pid_on_wire s lf) (pid_on_wire s' lf)"
  using assms packet_id_max_incr [of "s_id s"]
  by (auto simp: packet_id_send_update_def Let_def pid_on_wire_def pid_less_def uint_u32_time
      simp del: uint_word_of_int_eq split: if_splits)

lemma send_run_sorted:
  assumes "\<forall>t \<in> set ts. 0 < t \<and> t < 2 ^ 32" "0 \<le> s_time s" "s_time s < 2 ^ 32"
  shows "sorted_wrt pid_less (pid_on_wire s lf # fst (send_run s lf ts))"
  using assms
proof (induction ts arbitrary: s)
  case Nil
  then show ?case by simp
next
  case (Cons t ts)
  obtain ok s' where u: "packet_id_send_update s lf t = (ok, s')" by fastforce
  note w = packet_id_send_update_wire [OF u]
  have "sorted_wrt pid_less (pid_on_wire s' lf # fst (send_run s' lf ts))"
    using Cons.prems w by (intro Cons.IH) auto
  then show ?case
    using w(3) Cons.prems u by (auto split: prod.splits if_splits intro: pid_less_trans)
qed

text \<open>
  C15. A sender never uses a packet identifier twice: over any run of transmissions the
  identifiers it puts on the wire increase strictly, by time and then by number, in the long
  form across the wrap of the counter and in the short form, where the sender refuses to wrap.
\<close>

theorem sender_never_repeats:
  assumes "\<forall>t \<in> set ts. 0 < t \<and> t < 2 ^ 32" and "0 \<le> s_time s" and "s_time s < 2 ^ 32"
  shows "sorted_wrt pid_less (fst (send_run s lf ts)) \<and> distinct (fst (send_run s lf ts))"
proof -
  have "sorted_wrt pid_less (fst (send_run s lf ts))"
    using send_run_sorted [OF assms] by simp
  moreover have "sorted_wrt pid_less xs \<Longrightarrow> distinct xs" for xs
    by (induction xs) auto
  ultimately show ?thesis by blast
qed

theorem sender_never_repeats_witness:
  "fst (send_run \<lparr>s_id = 0xFFFFFFFE, s_time = 50\<rparr> True [60, 61, 62]) =
     [\<lparr>n_id = 0xFFFFFFFF, n_time = 50\<rparr>, \<lparr>n_id = 1, n_time = 61\<rparr>, \<lparr>n_id = 2, n_time = 61\<rparr>] \<and>
   sorted_wrt pid_less (fst (send_run \<lparr>s_id = 0xFFFFFFFE, s_time = 50\<rparr> True [60, 61, 62]))"
proof
  show "fst (send_run \<lparr>s_id = 0xFFFFFFFE, s_time = 50\<rparr> True [60, 61, 62]) =
     [\<lparr>n_id = 0xFFFFFFFF, n_time = 50\<rparr>, \<lparr>n_id = 1, n_time = 61\<rparr>, \<lparr>n_id = 2, n_time = 61\<rparr>]"
    by code_simp
  show "sorted_wrt pid_less (fst (send_run \<lparr>s_id = 0xFFFFFFFE, s_time = 50\<rparr> True [60, 61, 62]))"
    using sender_never_repeats [of "[60, 61, 62]" "\<lparr>s_id = 0xFFFFFFFE, s_time = 50\<rparr>" True] by simp
qed

section \<open>A stream that arrives in order\<close>

text \<open>The receiver has taken everything the sender sent.\<close>

definition pid_in_step :: "packet_id_send \<Rightarrow> packet_id_rec \<Rightarrow> bool \<Rightarrow> bool" where
  "pid_in_step s p lf \<longleftrightarrow> pid_rec_ok p \<and> r_id p = s_id s \<and> r_time p = n_time (pid_on_wire s lf) \<and>
     0 \<le> s_time s \<and> s_time s < 2 ^ 32 \<and> (s_time s = 0 \<longrightarrow> s_id s = 0)"

lemma pid_acceptsI:
  assumes "n_id pin \<noteq> 0"
    and "r_time p < n_time pin \<and> n_id pin = 1
      \<or> n_time pin = r_time p \<and> r_id p < n_id pin \<and> n_id pin = r_id p + 1"
  shows "pid_accepts p pin"
  using assms unfolding pid_accepts_def by (simp only: split: if_split) blast

text \<open>An acceptable packet that is newer than all before becomes the newest.\<close>

lemma crypto_check_replay_newer:
  assumes ok: "pid_rec_ok p" and acc: "pid_accepts p pin" and now: "1 < now"
    and new: "r_time p < n_time pin \<or> n_time pin = r_time p \<and> r_id p < n_id pin"
  shows "\<exists>p'. crypto_check_replay p pin now = Some (True, p') \<and> pid_rec_ok p' \<and>
     r_id p' = n_id pin \<and> r_time p' = n_time pin"
proof -
  obtain p1 where p1: "packet_id_reap_test p now = Some p1" "pid_rec_ok p1"
    "r_seq_backtrack p1 = r_seq_backtrack p" "r_time p1 = r_time p" "r_id p1 = r_id p"
    using packet_id_reap_ok [OF ok, of now] by blast
  have acc1: "pid_accepts p1 pin"
    using acc new p1 by (auto simp: pid_accepts_def)
  obtain m where t: "packet_id_test p1 pin = Some (True, p1\<lparr>r_max_backtrack_stat := m\<rparr>)"
    using packet_id_test_eq [OF p1(2), of pin] unfolding acc1 [THEN eqTrueI] by blast
  let ?p2 = "p1\<lparr>r_max_backtrack_stat := m\<rparr>"
  have p2: "pid_rec_ok ?p2" "pid_accepts ?p2 pin" "r_time ?p2 = r_time p" "r_id ?p2 = r_id p"
    using p1 acc1 by (auto simp: pid_rec_ok_def pid_accepts_def pid_window_def pid_diff_def split: option.splits)
  have "\<exists>p'. packet_id_add ?p2 pin now = Some p' \<and> pid_rec_ok p' \<and> r_id p' = n_id pin \<and> r_time p' = n_time pin"
  proof (cases "r_seq_backtrack ?p2 = 0")
    case True
    then show ?thesis
      using pid_rec_ok_streamE [OF p2(1) True] p2(1)
      by (auto simp: packet_id_add_def pid_rec_ok_def)
  next
    case False
    obtain p3 where p3: "packet_id_add ?p2 pin now = Some p3" "pid_rec_ok p3" "r_time p3 = n_time pin"
      "unat (r_id p3) = max (pid_base ?p2 pin) (unat (n_id pin))"
      using packet_id_add_window [OF p2(1) False p2(2) now] by blast
    have "pid_base ?p2 pin \<le> unat (n_id pin)"
      using new p2(3,4) by (auto simp: pid_base_def pid_restart_def word_less_nat_alt)
    then have "r_id p3 = n_id pin" using p3(4) by (simp add: word_unat_eq_iff)
    with p3 show ?thesis by blast
  qed
  then show ?thesis using p1(1) t by (auto simp: crypto_check_replay_def)
qed

lemma pid_in_step_next:
  assumes "pid_in_step s p lf" and u: "packet_id_send_update s lf t = (ok, s')"
    and t: "0 < t" "t < 2 ^ 32" and now: "1 < now"
  shows "ok \<Longrightarrow> \<exists>p'. crypto_check_replay p (pid_on_wire s' lf) now = Some (True, p') \<and> pid_in_step s' p' lf"
    and "\<not> ok \<Longrightarrow> pid_in_step s' p lf"
proof -
  have inv: "pid_rec_ok p" "r_id p = s_id s" "r_time p = n_time (pid_on_wire s lf)"
    "0 \<le> s_time s" "s_time s < 2 ^ 32" "s_time s = 0 \<longrightarrow> s_id s = 0"
    using assms(1) by (simp_all add: pid_in_step_def)
  note w = packet_id_send_update_wire [OF u t inv(4,5)]
  have pos: "s_time s' \<noteq> 0"
    using u t by (auto simp: packet_id_send_update_def Let_def split: if_splits)
  {
    assume ok
    have new: "r_time p < n_time (pid_on_wire s' lf) \<or>
        n_time (pid_on_wire s' lf) = r_time p \<and> r_id p < n_id (pid_on_wire s' lf)"
      using w(3) \<open>ok\<close> inv(2,3) by (auto simp: pid_less_def pid_on_wire_def)
    have nz: "s_id s' \<noteq> 0 \<and> (n_time (pid_on_wire s' lf) = r_time p \<longrightarrow> s_id s' = s_id s + 1)
        \<and> (n_time (pid_on_wire s' lf) \<noteq> r_time p \<longrightarrow> s_id s' = 1)"
      using packet_id_send_update_cases [OF u [unfolded \<open>ok\<close> [THEN eqTrueI]]] inv
    proof (elim disjE conjE)
      assume a: "s_time s' = (if s_time s = 0 then t else s_time s)" "s_id s \<noteq> PACKET_ID_MAX"
        "s_id s' = s_id s + 1"
      show ?thesis
        using a(1,3) inv(3,6) packet_id_max_incr [OF a(2)]
        by (cases "s_time s = 0") (simp_all add: pid_on_wire_def)
    next
      assume a: "lf" "s_id s' = 1" "s_time s' = t" "s_time s < t"
      show ?thesis
        using a inv(3-5) t by (simp add: pid_on_wire_def uint_u32_time del: uint_word_of_int_eq)
    qed
    have n: "n_id (pid_on_wire s' lf) = s_id s'" by (simp add: pid_on_wire_def)
    have "pid_accepts p (pid_on_wire s' lf)"
      using new nz by (intro pid_acceptsI) (auto simp only: n inv(2))
    from crypto_check_replay_newer [OF inv(1) this now new]
    show "\<exists>p'. crypto_check_replay p (pid_on_wire s' lf) now = Some (True, p') \<and> pid_in_step s' p' lf"
      using w(1,2) pos by (auto simp: pid_in_step_def) (auto simp: pid_on_wire_def)
  }
  {
    assume "\<not> ok"
    then have "s_id s = PACKET_ID_MAX" "s_id s' = s_id s" "s_time s \<noteq> 0 \<longrightarrow> s_time s' = s_time s"
      using u by (auto simp: packet_id_send_update_def Let_def split: if_splits)
    moreover have "PACKET_ID_MAX \<noteq> 0" by code_simp
    ultimately show "pid_in_step s' p lf"
      using inv w(1,2) pos by (auto simp: pid_in_step_def pid_on_wire_def)
  }
qed

lemma pid_run_in_step:
  "pid_in_step s p lf \<Longrightarrow> \<forall>t \<in> set ts. 0 < t \<and> t < 2 ^ 32 \<Longrightarrow> \<forall>t \<in> set rs. 1 < t \<Longrightarrow>
   length rs = length (fst (send_run s lf ts)) \<Longrightarrow>
   \<exists>p'. pid_run p (zip (fst (send_run s lf ts)) rs) = Some (fst (send_run s lf ts), p') \<and>
     pid_in_step (snd (send_run s lf ts)) p' lf"
proof (induction ts arbitrary: s p rs)
  case Nil
  then show ?case by simp
next
  case (Cons t ts)
  obtain ok s' where u: "packet_id_send_update s lf t = (ok, s')" by fastforce
  obtain ps s'' where r: "send_run s' lf ts = (ps, s'')" by fastforce
  show ?case
  proof (cases ok)
    case True
    with Cons.prems(4) u r obtain now rs' where rs: "rs = now # rs'" "length rs' = length ps"
      by (auto simp: length_Suc_conv)
    obtain p' where p': "crypto_check_replay p (pid_on_wire s' lf) now = Some (True, p')"
      "pid_in_step s' p' lf"
      using pid_in_step_next(1) [OF Cons.prems(1) u _ _ _ True, of now] Cons.prems(2,3) rs by auto
    show ?thesis
      using Cons.IH [OF p'(2), of rs'] Cons.prems(2,3) p'(1) u r rs True by auto
  next
    case False
    then have "pid_in_step s' p lf"
      using pid_in_step_next(2) [OF Cons.prems(1) u, of 2] Cons.prems(2) by auto
    from Cons.IH [OF this, of rs] Cons.prems(2-4) u r False show ?thesis by auto
  qed
qed

text \<open>
  C16. Nothing is lost when the transport keeps the order. Every packet that a fresh sender
  numbers is accepted by a fresh receiver that gets them in order, in the window mode and in the
  stream mode, in the short and in the long form, and for as long as the sender agrees to send.
\<close>

theorem in_order_stream_accepted:
  assumes "packet_id_init seq_backtrack time_backtrack nm un = Some p"
    and "\<forall>t \<in> set ts. 0 < t \<and> t < 2 ^ 32" and "\<forall>t \<in> set rs. 1 < t"
    and "length rs = length (fst (send_run (p_send p) lf ts))"
  shows "\<exists>p'. pid_run (p_rec p) (zip (fst (send_run (p_send p) lf ts)) rs)
    = Some (fst (send_run (p_send p) lf ts), p')"
proof -
  have "p_send p = \<lparr>s_id = 0, s_time = 0\<rparr>"
    using assms(1) by (auto simp: packet_id_init_def Let_def split: if_splits)
  then have "pid_in_step (p_send p) (p_rec p) lf"
    using packet_id_init_ok [OF assms(1)] by (simp add: pid_in_step_def pid_on_wire_def)
  from pid_run_in_step [OF this assms(2-4)] show ?thesis by blast
qed

theorem in_order_stream_accepted_witness:
  "\<exists>p p'. packet_id_init 0 0 ''tcp'' 0 = Some p \<and>
     pid_run (p_rec p) (zip (fst (send_run (p_send p) True [50, 51])) [60, 61]) =
       Some ([\<lparr>n_id = 1, n_time = 50\<rparr>, \<lparr>n_id = 2, n_time = 50\<rparr>], p')"
proof -
  obtain p where p: "packet_id_init 0 0 ''tcp'' 0 = Some p" "p_send p = \<lparr>s_id = 0, s_time = 0\<rparr>"
    by (simp add: packet_id_init_def)
  have "fst (send_run \<lparr>s_id = 0, s_time = 0\<rparr> True [50, 51]) = [\<lparr>n_id = 1, n_time = 50\<rparr>, \<lparr>n_id = 2, n_time = 50\<rparr>]"
    by code_simp
  then show ?thesis
    using in_order_stream_accepted [OF p(1), of "[50, 51]" "[60, 61]" True] p by auto
qed

section \<open>A window reloaded from disk\<close>

text \<open>A receiver set up by \<open>packet_id_init\<close>, then \<open>packet_id_persist_load_obj\<close>.\<close>

definition pid_reloaded :: "int \<Rightarrow> int \<Rightarrow> string \<Rightarrow> int \<Rightarrow> int \<times> packet_id_type \<Rightarrow> packet_id_rec option" where
  "pid_reloaded seq_backtrack time_backtrack file fd img =
     do { p \<leftarrow> packet_id_init seq_backtrack time_backtrack ''STATIC'' 0;
          pp \<leftarrow> packet_id_persist_load packet_id_persist_init file fd True (Some img);
          Some (packet_id_persist_load_obj pp (p_rec p)) }"

lemma pid_reloaded_state:
  assumes "pid_reloaded sb tb file fd (t, i) = Some r" "0 \<le> fd" "t \<noteq> 0"
  shows "pid_rec_ok r" "r_time r = t" "r_id r = i" "pid_window r = []" "r_seq_backtrack r = sb"
proof -
  obtain p where p: "packet_id_init sb tb ''STATIC'' 0 = Some p" "r = (p_rec p)\<lparr>r_time := t, r_id := i\<rparr>"
    using assms by (auto simp: pid_reloaded_def packet_id_persist_load_def packet_id_persist_init_def
        packet_id_persist_enabled_def packet_id_persist_load_obj_def split: Option.bind_splits)
  with packet_id_init_ok [OF p(1)] show "pid_rec_ok r" "r_time r = t" "r_id r = i"
    "pid_window r = []" "r_seq_backtrack r = sb"
    by (auto simp: pid_rec_ok_def pid_window_def split: option.splits)
qed

lemma crypto_check_replay_accepts:
  assumes "pid_rec_ok p" "pid_window p = []" "1 < now"
  shows "\<exists>p'. crypto_check_replay p pin now = Some (pid_accepts p pin, p')"
proof -
  obtain p1 where p1: "packet_id_reap_test p now = Some p1" "pid_rec_ok p1"
    "r_seq_backtrack p1 = r_seq_backtrack p" "r_time p1 = r_time p" "r_id p1 = r_id p" "pid_window p1 = []"
    using packet_id_reap_ok [OF assms(1), of now] assms(2) by auto
  have acc: "pid_accepts p1 pin = pid_accepts p pin"
    using p1 assms(2) by (simp add: pid_accepts_def)
  show ?thesis
  proof (cases "pid_accepts p pin")
    case True
    have "r_time p < n_time pin \<or> n_time pin = r_time p \<and> r_id p < n_id pin \<or> r_seq_backtrack p = 0"
      using True assms(2) unfolding pid_accepts_def by (auto split: if_splits)
    then show ?thesis
    proof (cases "r_seq_backtrack p = 0")
      case False
      with True assms(2) crypto_check_replay_newer [OF assms(1) True assms(3)] show ?thesis
        unfolding pid_accepts_def by (auto split: if_splits)
    next
      case stream: True
      obtain m where "packet_id_test p1 pin = Some (True, p1\<lparr>r_max_backtrack_stat := m\<rparr>)"
        using packet_id_test_eq [OF p1(2), of pin] unfolding acc True [THEN eqTrueI] by blast
      moreover have "r_seq_list p1 = None" using pid_rec_ok_streamE(1) [OF p1(2)] p1(3) stream by simp
      ultimately show ?thesis using p1(1) True by (simp add: crypto_check_replay_def packet_id_add_def)
    qed
  next
    case False
    obtain m where "packet_id_test p1 pin = Some (False, p1\<lparr>r_max_backtrack_stat := m\<rparr>)"
      using packet_id_test_eq [OF p1(2), of pin] using False unfolding acc by (simp only: simp_thms) blast
    then show ?thesis using p1(1) False by (simp add: crypto_check_replay_def)
  qed
qed

text \<open>
  C20. What \<open>--replay-persist\<close> keeps out. A receiver that reloaded the identifier its
  predecessor saved rejects every packet that is not newer, as its first packet, in both modes.
\<close>

theorem reload_rejects_old:
  assumes "pid_reloaded seq_backtrack time_backtrack file fd (t, i) = Some r"
    and "0 \<le> fd" and "t \<noteq> 0" and "i \<noteq> 0" and "1 < now"
    and "n_time pin < t \<or> n_time pin = t \<and> n_id pin \<le> i"
  shows "\<exists>r'. crypto_check_replay r pin now = Some (False, r')"
proof -
  note s = pid_reloaded_state [OF assms(1-3)]
  have "\<not> pid_accepts r pin"
  proof
    assume a: "pid_accepts r pin"
    then have t: "n_time pin = t" "n_id pin \<noteq> 0" "n_id pin \<le> i"
      using assms(6) s(2) unfolding pid_accepts_def by (auto split: if_splits)
    then have "n_id pin = i + 1"
      using a assms(4) s(2-4) unfolding pid_accepts_def by (auto split: if_splits)
    moreover from this have "i < i + 1" using t(2) by (intro word_less_incr) simp
    ultimately show False using t(3) by simp
  qed
  then show ?thesis using crypto_check_replay_accepts [OF s(1,4) assms(5), of pin] by simp
qed

theorem reload_rejects_old_witness:
  "\<exists>r r'. pid_reloaded 64 15 ''pid'' 3 (1000, 100) = Some r \<and>
     crypto_check_replay r \<lparr>n_id = 90, n_time = 1000\<rparr> 5000 = Some (False, r')"
proof -
  obtain r where r: "pid_reloaded 64 15 ''pid'' 3 (1000, 100) = Some r"
    by (simp add: pid_reloaded_def packet_id_init_def packet_id_persist_load_def packet_id_persist_init_def
        packet_id_persist_enabled_def MAX_SEQ_BACKTRACK_def MAX_TIME_BACKTRACK_def)
  from reload_rejects_old [OF r, of 5000 "\<lparr>n_id = 90, n_time = 1000\<rparr>"] r show ?thesis by simp
qed

lemma crypto_check_replay_reaped:
  assumes "crypto_check_replay p pin now = Some (ok, p')"
  shows "\<not> r_last_reap p' + SEQ_REAP_INTERVAL \<le> now"
proof -
  have add: "packet_id_add q pin now = Some q' \<Longrightarrow> r_last_reap q' = r_last_reap q" for q q'
    by (auto simp: packet_id_add_def Let_def split: option.splits Option.bind_splits)
  have test: "packet_id_test q pin = Some (b, q') \<Longrightarrow> r_last_reap q' = r_last_reap q" for q q' b
    by (auto simp: packet_id_test_def Let_def split: option.splits Option.bind_splits if_splits)
  have reap: "packet_id_reap_test q now = Some q' \<Longrightarrow> \<not> r_last_reap q' + SEQ_REAP_INTERVAL \<le> now" for q q'
    by (auto simp: packet_id_reap_test_def packet_id_reap_def SEQ_REAP_INTERVAL_def
        split: option.splits Option.bind_splits if_splits)
  show ?thesis
    using assms unfolding crypto_check_replay_def
    by (auto split: Option.bind_splits if_splits dest!: add test reap)
qed

text \<open>
  C21. What \<open>--replay-persist\<close> lets in. Only the newest identifier is saved, not the window:
  the first new packet after a reload opens an empty window behind it, so that packets which the
  predecessor had accepted, up to the window size behind, are accepted once more.
\<close>

theorem reload_reopens_window:
  assumes "pid_reloaded seq_backtrack time_backtrack file fd (t, i) = Some r"
    and "0 \<le> fd" and "t \<noteq> 0" and "1 < now" and "i < PACKET_ID_MAX"
    and "0 < j" and "j \<le> i" and "uint i + 1 < uint j + seq_backtrack"
  shows "\<exists>r' r''. crypto_check_replay r \<lparr>n_id = i + 1, n_time = t\<rparr> now = Some (True, r') \<and>
     crypto_check_replay r' \<lparr>n_id = j, n_time = t\<rparr> now = Some (True, r'')"
proof -
  note s = pid_reloaded_state [OF assms(1-3)]
  have i1: "i < i + 1" "i + 1 \<noteq> 0" using packet_id_max_incr [of i] assms(5) by auto
  let ?pin = "\<lparr>n_id = i + 1, n_time = t\<rparr>" and ?old = "\<lparr>n_id = j, n_time = t\<rparr>"
  have sb: "0 < seq_backtrack" using assms(7,8) by (simp add: word_le_def)
  have acc: "pid_accepts r ?pin"
    using i1 s by (intro pid_acceptsI) auto
  obtain r1 where r1: "packet_id_reap_test r now = Some r1" "pid_rec_ok r1" "pid_window r1 = []"
    "r_seq_backtrack r1 = seq_backtrack" "r_time r1 = t" "r_id r1 = i"
    using packet_id_reap_ok [OF s(1), of now] s by auto
  have acc1: "pid_accepts r1 ?pin" using i1 r1 by (intro pid_acceptsI) auto
  obtain m where m: "packet_id_test r1 ?pin = Some (True, r1\<lparr>r_max_backtrack_stat := m\<rparr>)"
    using packet_id_test_eq [OF r1(2), of ?pin] unfolding acc1 [THEN eqTrueI] by blast
  let ?r2 = "r1\<lparr>r_max_backtrack_stat := m\<rparr>"
  have r2: "pid_rec_ok ?r2" "r_seq_backtrack ?r2 \<noteq> 0" "pid_accepts ?r2 ?pin"
    using r1 acc1 sb by (auto simp: pid_rec_ok_def pid_accepts_def pid_window_def split: option.splits)
  obtain r' where r': "packet_id_add ?r2 ?pin now = Some r'" "pid_rec_ok r'"
    "r_seq_backtrack r' = seq_backtrack" "r_time r' = t" "unat (r_id r') = max (pid_base ?r2 ?pin) (unat (i + 1))"
    "pid_window r' = (pid_filled ?r2 ?pin)[pid_diff r' (i + 1) := now]"
    using packet_id_add_window [OF r2 assms(4)] r1(4) by auto
  have "pid_window ?r2 = []" using r1(3) by (simp add: pid_window_def)
  then have base: "pid_base ?r2 ?pin = unat (i + 1) - nat seq_backtrack" "pid_restart ?r2 ?pin"
    using r1(4) by (simp_all add: pid_base_def pid_restart_def)
  then have id: "r_id r' = i + 1" using r'(5) by (simp add: word_unat_eq_iff)
  have step1: "crypto_check_replay r ?pin now = Some (True, r')"
    using r1(1) m r'(1) by (simp add: crypto_check_replay_def)
  have win: "pid_window r' = (replicate (min (nat seq_backtrack) (unat (i + 1))) SEQ_UNSEEN)[0 := now]"
    using r'(6) base r1(4) id by (simp add: pid_filled_def pid_diff_def min_def take_replicate)
  have d: "pid_diff r' j < min (nat seq_backtrack) (unat (i + 1))" "0 < pid_diff r' j"
  proof -
    have "int (unat i) = uint i" "int (unat j) = uint j" by simp_all
    with assms(8) have "int (unat i) + 1 < int (unat j) + seq_backtrack" by linarith
    moreover have "unat (i + 1) = unat i + 1" using unat_incr [OF i1(1)] by simp
    moreover have "0 < unat j" "unat j \<le> unat i"
      using assms(6,7) by (simp_all add: word_less_nat_alt word_le_nat_alt)
    ultimately show "pid_diff r' j < min (nat seq_backtrack) (unat (i + 1))" "0 < pid_diff r' j"
      unfolding pid_diff_def id by linarith+
  qed
  have "j \<le> i + 1" using assms(7) i1(1) by simp
  have acc2: "pid_accepts r' ?old"
    using d assms(6) sb r'(3,4) unfolding pid_accepts_def
    by (simp add: win nth_list_update SEQ_UNSEEN_def)
  have reaped: "packet_id_reap_test r' now = Some r'"
    using crypto_check_replay_reaped [OF step1] by (simp add: packet_id_reap_test_def)
  obtain m' where m': "packet_id_test r' ?old = Some (True, r'\<lparr>r_max_backtrack_stat := m'\<rparr>)"
    using packet_id_test_eq [OF r'(2), of ?old] unfolding acc2 [THEN eqTrueI] by blast
  let ?r3 = "r'\<lparr>r_max_backtrack_stat := m'\<rparr>"
  have r3: "pid_rec_ok ?r3" "r_seq_backtrack ?r3 \<noteq> 0" "pid_accepts ?r3 ?old"
    using r'(2,3) acc2 sb
    by (auto simp: pid_rec_ok_def pid_accepts_def pid_window_def pid_diff_def split: option.splits)
  obtain r'' where "packet_id_add ?r3 ?old now = Some r''"
    using packet_id_add_window [OF r3 assms(4)] by blast
  then have "crypto_check_replay r' ?old now = Some (True, r'')"
    using reaped m' by (simp add: crypto_check_replay_def)
  with step1 show ?thesis by blast
qed

theorem reload_reopens_window_witness:
  "\<exists>r r' r''. pid_reloaded 64 15 ''pid'' 3 (1000, 100) = Some r \<and>
     crypto_check_replay r \<lparr>n_id = 101, n_time = 1000\<rparr> 5000 = Some (True, r') \<and>
     crypto_check_replay r' \<lparr>n_id = 90, n_time = 1000\<rparr> 5000 = Some (True, r'')"
proof -
  obtain r where r: "pid_reloaded 64 15 ''pid'' 3 (1000, 100) = Some r"
    by (simp add: pid_reloaded_def packet_id_init_def packet_id_persist_load_def packet_id_persist_init_def
        packet_id_persist_enabled_def MAX_SEQ_BACKTRACK_def MAX_TIME_BACKTRACK_def)
  from reload_reopens_window [OF r, of 5000 90] r show ?thesis by (simp add: PACKET_ID_MAX_def)
qed

end
