(* ===== verification/SessionId.thy ===== *)
theory SessionId
  imports Buffer
begin

text \<open>
  Session identifiers, \<^verbatim>\<open>openvpn/session_id.h\<close>: eight octets, read from and
  written to a buffer as they are.
\<close>

record session_id =
  sid_id :: bytes

definition SID_SIZE :: int where
  "SID_SIZE = 8"

definition x_session_id_zero :: session_id where
  "x_session_id_zero = \<lparr>sid_id = replicate 8 0\<rparr>"

definition session_id_equal :: "session_id \<Rightarrow> session_id \<Rightarrow> bool" where
  "session_id_equal s1 s2 \<longleftrightarrow> sid_id s1 = sid_id s2"

definition session_id_defined :: "session_id \<Rightarrow> bool" where
  "session_id_defined s \<longleftrightarrow> sid_id s \<noteq> sid_id x_session_id_zero"

definition session_id_read :: "buffer \<Rightarrow> (session_id option \<times> buffer) option" where
  "session_id_read b =
     do { (r, b') \<leftarrow> buf_read b SID_SIZE; Some (map_option (\<lambda>xs. \<lparr>sid_id = xs\<rparr>) r, b') }"

definition session_id_write_prepend :: "session_id \<Rightarrow> buffer \<Rightarrow> (bool \<times> buffer) option" where
  "session_id_write_prepend s b = buf_write_prepend b (sid_id s)"

definition session_id_write :: "session_id \<Rightarrow> buffer \<Rightarrow> (bool \<times> buffer) option" where
  "session_id_write s b = buf_write b (sid_id s)"

text \<open>Every C object of the type has exactly eight octets.\<close>

definition sid_ok :: "session_id \<Rightarrow> bool" where
  "sid_ok s \<longleftrightarrow> length (sid_id s) = 8"

lemma session_id_equal_iff [simp]: "session_id_equal s t \<longleftrightarrow> s = t"
  by (cases s; cases t) (simp add: session_id_equal_def)

lemma session_id_read_prefix:
  assumes "buf_ok b" "buf_content b = sid_id s @ ys" "sid_ok s"
  shows "session_id_read b = Some (Some s, buf_drop b 8)" "buf_ok (buf_drop b 8)"
    "buf_content (buf_drop b 8) = ys"
  using bq.get_prefix [OF assms(1,2), of 8] assms(3)
  by (simp_all add: session_id_read_def SID_SIZE_def sid_ok_def)

end
