(* ===== verification/Reliable.thy ===== *)
theory Reliable
  imports PacketId SessionId CInteger
begin

text \<open>
  The reliability layer of the control channel, \<^verbatim>\<open>openvpn/reliable.c\<close> and
  \<^verbatim>\<open>reliable.h\<close>: acknowledgement records, the receive buffer that puts packets back in
  order, and the send buffer that keeps them until they are acknowledged. A buffer that the
  code hands out by its address is the index of its entry in the array here.
\<close>

section \<open>Data\<close>

definition RELIABLE_ACK_SIZE :: int where
  "RELIABLE_ACK_SIZE = 8"

definition RELIABLE_CAPACITY :: int where
  "RELIABLE_CAPACITY = 8"

definition BIG_TIMEOUT :: int where
  "BIG_TIMEOUT = 60 * 60 * 24 * 7"

record reliable_ack =
  a_len :: int
  a_packet_id :: "packet_id_type list"

record reliable_entry =
  e_active :: bool
  e_timeout :: int
  e_next_try :: int
  e_packet_id :: packet_id_type
  e_opcode :: int
  e_buf :: buffer

record reliable =
  rl_size :: int
  rl_initial_timeout :: int
  rl_packet_id :: packet_id_type
  rl_offset :: int
  rl_hold :: bool
  rl_array :: "reliable_entry list"

text \<open>The entries that the loops \<open>for (i = 0; i < rel->size; ++i)\<close> visit.\<close>

definition rel_entries :: "reliable \<Rightarrow> reliable_entry list" where
  "rel_entries rel = take (nat (rl_size rel)) (rl_array rel)"

definition rel_update :: "reliable \<Rightarrow> nat \<Rightarrow> reliable_entry \<Rightarrow> reliable" where
  "rel_update rel i e = rel\<lparr>rl_array := (rl_array rel)[i := e]\<rparr>"

section \<open>Serial numbers\<close>

definition reliable_pid_in_range1 :: "packet_id_type \<Rightarrow> packet_id_type \<Rightarrow> u32 \<Rightarrow> bool" where
  "reliable_pid_in_range1 test base extent =
     (if test \<ge> base then test - base < extent
      else (test + 0x80000000) - (base + 0x80000000) < extent)"

definition reliable_pid_in_range2 :: "packet_id_type \<Rightarrow> packet_id_type \<Rightarrow> u32 \<Rightarrow> bool" where
  "reliable_pid_in_range2 test base extent =
     (if base + extent \<ge> base then test < base + extent
      else test + 0x80000000 < (base + 0x80000000) + extent)"

definition reliable_pid_min :: "packet_id_type \<Rightarrow> packet_id_type \<Rightarrow> bool" where
  "reliable_pid_min p1 p2 = (\<not> reliable_pid_in_range1 p1 p2 0x80000000)"

section \<open>Acknowledgement records\<close>

definition reliable_ack_empty :: "reliable_ack \<Rightarrow> bool" where
  "reliable_ack_empty ack \<longleftrightarrow> a_len ack = 0"

definition reliable_ack_packet_id_present :: "reliable_ack \<Rightarrow> packet_id_type \<Rightarrow> bool" where
  "reliable_ack_packet_id_present ack pid =
     list_ex (\<lambda>p. p = pid) (take (nat (a_len ack)) (a_packet_id ack))"

definition reliable_ack_read_packet_id :: "buffer \<Rightarrow> (packet_id_type option \<times> buffer) option" where
  "reliable_ack_read_packet_id b =
     do { (r, b') \<leftarrow> buf_read b 4; Some (map_option bytes_u32 r, b') }"

definition reliable_ack_acknowledge_packet_id ::
  "reliable_ack \<Rightarrow> packet_id_type \<Rightarrow> bool \<times> reliable_ack" where
  "reliable_ack_acknowledge_packet_id ack pid =
     (if \<not> reliable_ack_packet_id_present ack pid \<and> a_len ack < RELIABLE_ACK_SIZE
      then (True, ack\<lparr>a_packet_id := (a_packet_id ack)[nat (a_len ack) := pid], a_len := a_len ack + 1\<rparr>)
      else (False, ack))"

text \<open>The loop of \<open>reliable_ack_read\<close> over the \<open>count\<close> identifiers.\<close>

primrec reliable_ack_read_loop ::
  "nat \<Rightarrow> reliable_ack \<Rightarrow> buffer \<Rightarrow> (bool \<times> reliable_ack \<times> buffer) option" where
  "reliable_ack_read_loop 0 ack b = Some (True, ack, b)"
| "reliable_ack_read_loop (Suc n) ack b =
     do { (r, b') \<leftarrow> buf_read b 4;
          case r of
            None \<Rightarrow> Some (False, ack, b')
          | Some net_pid \<Rightarrow>
              if a_len ack \<ge> RELIABLE_ACK_SIZE then Some (False, ack, b')
              else reliable_ack_read_loop n
                     (ack\<lparr>a_packet_id := (a_packet_id ack)[nat (a_len ack) := bytes_u32 net_pid],
                          a_len := a_len ack + 1\<rparr>) b' }"

definition reliable_ack_read ::
  "reliable_ack \<Rightarrow> buffer \<Rightarrow> session_id \<Rightarrow> (bool \<times> reliable_ack \<times> buffer) option" where
  "reliable_ack_read ack b sid =
     do { (r, b1) \<leftarrow> buf_read b 1;
          case r of
            None \<Rightarrow> Some (False, ack, b1)
          | Some cs \<Rightarrow>
              (let count = unat (hd cs)
               in do { (ok, ack', b2) \<leftarrow> reliable_ack_read_loop count ack b1;
                       if \<not> ok then Some (False, ack', b2)
                       else if count \<noteq> 0 then
                         do { (s, b3) \<leftarrow> session_id_read b2;
                              case s of
                                None \<Rightarrow> Some (False, ack', b3)
                              | Some remote \<Rightarrow>
                                  Some (session_id_defined remote \<and> session_id_equal remote sid, ack', b3) }
                       else Some (True, ack', b2) }) }"

definition ACK_SIZE :: "int \<Rightarrow> int" where
  "ACK_SIZE n = 1 + (if n \<noteq> 0 then SID_SIZE else 0) + 4 * n"

primrec reliable_ack_write_ids :: "buffer \<Rightarrow> packet_id_type list \<Rightarrow> buffer option" where
  "reliable_ack_write_ids sub [] = Some sub"
| "reliable_ack_write_ids sub (pid # pids) =
     do { (ok, sub') \<leftarrow> buf_write sub (u32_bytes pid);
          ASSERT ok;
          reliable_ack_write_ids sub' pids }"

text \<open>The loop that moves the identifiers not written to the front.\<close>

function reliable_ack_shift ::
  "packet_id_type list \<Rightarrow> int \<Rightarrow> int \<Rightarrow> int \<Rightarrow> packet_id_type list \<times> int" where
  "reliable_ack_shift a i j len =
     (if j < len then reliable_ack_shift (a[nat i := a ! nat j]) (i + 1) (j + 1) len else (a, i))"
  by pat_completeness auto
termination
  by (relation "measure (\<lambda>(a, i, j, len). nat (len - j))") auto

declare reliable_ack_shift.simps [simp del]

definition reliable_ack_write ::
  "reliable_ack \<Rightarrow> buffer \<Rightarrow> session_id \<Rightarrow> int \<Rightarrow> bool \<Rightarrow> (bool \<times> reliable_ack \<times> buffer) option" where
  "reliable_ack_write ack b sid max_ack prep =
     (let n0 = word_of_int (a_len ack) :: u8;
          n = (if uint n0 > max_ack then word_of_int max_ack else n0)
      in do { (sub, p, b1) \<leftarrow> buf_sub b (ACK_SIZE (uint n)) prep;
              if \<not> buf_defined sub then Some (False, ack, b1)
              else do { (ok, sub1) \<leftarrow> buf_write sub [n];
                        ASSERT ok;
                        sub2 \<leftarrow> reliable_ack_write_ids sub1 (take (unat n) (a_packet_id ack));
                        if n \<noteq> 0 then
                          do { ASSERT (session_id_defined sid);
                               (ok', sub3) \<leftarrow> session_id_write sid sub2;
                               ASSERT ok';
                               b2 \<leftarrow> buf_sub_sync b1 p sub3;
                               let (ids, i) = reliable_ack_shift (a_packet_id ack) 0 (uint n) (a_len ack);
                               Some (True, ack\<lparr>a_packet_id := ids, a_len := i\<rparr>, b2) }
                        else do { b2 \<leftarrow> buf_sub_sync b1 p sub2; Some (True, ack, b2) } } })"

section \<open>The buffers\<close>

definition reliable_entry_zero :: reliable_entry where
  "reliable_entry_zero =
     \<lparr>e_active = False, e_timeout = 0, e_next_try = 0, e_packet_id = 0, e_opcode = 0, e_buf = clear_buf\<rparr>"

text \<open>The loop of \<open>reliable_init\<close>.\<close>

primrec reliable_init_entries ::
  "nat \<Rightarrow> int \<Rightarrow> int \<Rightarrow> reliable_entry list option" where
  "reliable_init_entries 0 buf_size offset = Some []"
| "reliable_init_entries (Suc n) buf_size offset =
     do { b \<leftarrow> alloc_buf buf_size;
          let (ok, b') = buf_init b offset;
          ASSERT ok;
          es \<leftarrow> reliable_init_entries n buf_size offset;
          Some (reliable_entry_zero\<lparr>e_buf := b'\<rparr> # es) }"

definition reliable_init ::
  "int \<Rightarrow> int \<Rightarrow> int \<Rightarrow> bool \<Rightarrow> reliable option" where
  "reliable_init buf_size offset array_size hold =
     do { ASSERT (array_size > 0 \<and> array_size \<le> RELIABLE_CAPACITY);
          es \<leftarrow> reliable_init_entries (nat array_size) buf_size offset;
          Some \<lparr>rl_size = array_size, rl_initial_timeout = 0, rl_packet_id = 0, rl_offset = offset,
                rl_hold = hold,
                rl_array = es @ replicate (nat (RELIABLE_CAPACITY - array_size)) reliable_entry_zero\<rparr> }"

definition reliable_set_timeout :: "reliable \<Rightarrow> int \<Rightarrow> reliable" where
  "reliable_set_timeout rel timeout = rel\<lparr>rl_initial_timeout := timeout\<rparr>"

definition reliable_free :: "reliable \<Rightarrow> reliable" where
  "reliable_free rel =
     rel\<lparr>rl_array := map (\<lambda>e. e\<lparr>e_buf := free_buf (e_buf e)\<rparr>) (rel_entries rel)
           @ drop (nat (rl_size rel)) (rl_array rel)\<rparr>"

definition reliable_empty :: "reliable \<Rightarrow> bool" where
  "reliable_empty rel = list_all (\<lambda>e. \<not> e_active e) (rel_entries rel)"

text \<open>One acknowledged identifier: the first active entry that carries it is released.\<close>

definition reliable_purge_one :: "reliable \<Rightarrow> packet_id_type \<Rightarrow> reliable" where
  "reliable_purge_one rel pid =
     (case first_index (\<lambda>e. e_active e \<and> e_packet_id e = pid) (rel_entries rel) of
        None \<Rightarrow> rel
      | Some j \<Rightarrow> rel_update rel j ((rl_array rel ! j)\<lparr>e_active := False\<rparr>))"

definition reliable_send_purge :: "reliable \<Rightarrow> reliable_ack \<Rightarrow> reliable" where
  "reliable_send_purge rel ack =
     foldl reliable_purge_one rel (take (nat (a_len ack)) (a_packet_id ack))"

definition reliable_can_get :: "reliable \<Rightarrow> bool" where
  "reliable_can_get rel = list_ex (\<lambda>e. \<not> e_active e) (rel_entries rel)"

definition reliable_not_replay :: "reliable \<Rightarrow> packet_id_type \<Rightarrow> bool" where
  "reliable_not_replay rel pid \<longleftrightarrow>
     \<not> reliable_pid_min pid (rl_packet_id rel)
     \<and> \<not> list_ex (\<lambda>e. e_active e \<and> e_packet_id e = pid) (rel_entries rel)"

definition reliable_wont_break_sequentiality :: "reliable \<Rightarrow> packet_id_type \<Rightarrow> bool" where
  "reliable_wont_break_sequentiality rel pid =
     reliable_pid_in_range2 pid (rl_packet_id rel) (word_of_int (rl_size rel))"

definition reliable_get_buf :: "reliable \<Rightarrow> (nat option \<times> reliable) option" where
  "reliable_get_buf rel =
     (case first_index (\<lambda>e. \<not> e_active e) (rel_entries rel) of
        None \<Rightarrow> Some (None, rel)
      | Some i \<Rightarrow>
          (let e = rl_array rel ! i; (ok, b) = buf_init (e_buf e) (rl_offset rel)
           in do { ASSERT ok; Some (Some i, rel_update rel i (e\<lparr>e_buf := b\<rparr>)) }))"

text \<open>The minimum of the identifiers of the active entries, in the order of the array.\<close>

primrec reliable_min_id :: "reliable_entry list \<Rightarrow> packet_id_type option \<Rightarrow> packet_id_type option" where
  "reliable_min_id [] m = m"
| "reliable_min_id (e # es) m =
     reliable_min_id es
       (if e_active e
        then (case m of
                None \<Rightarrow> Some (e_packet_id e)
              | Some min_id \<Rightarrow>
                  if reliable_pid_min (e_packet_id e) min_id then Some (e_packet_id e) else m)
        else m)"

definition reliable_get_buf_output_sequenced :: "reliable \<Rightarrow> (nat option \<times> reliable) option" where
  "reliable_get_buf_output_sequenced rel =
     (case reliable_min_id (rel_entries rel) None of
        None \<Rightarrow> reliable_get_buf rel
      | Some min_id \<Rightarrow>
          if reliable_pid_in_range1 (rl_packet_id rel) min_id (word_of_int (rl_size rel))
          then reliable_get_buf rel else Some (None, rel))"

definition reliable_get_buf_sequenced :: "reliable \<Rightarrow> nat option" where
  "reliable_get_buf_sequenced rel =
     first_index (\<lambda>e. e_active e \<and> e_packet_id e = rl_packet_id rel) (rel_entries rel)"

definition reliable_can_send :: "reliable \<Rightarrow> int \<Rightarrow> bool" where
  "reliable_can_send rel now \<longleftrightarrow>
     0 < length (filter (\<lambda>e. e_active e \<and> now \<ge> e_next_try e) (rel_entries rel)) \<and> \<not> rl_hold rel"

text \<open>The loop of \<open>reliable_send\<close>: the index of the best entry, with its identifier.\<close>

primrec reliable_best ::
  "reliable_entry list \<Rightarrow> nat \<Rightarrow> int \<Rightarrow> (nat \<times> packet_id_type) option \<Rightarrow> (nat \<times> packet_id_type) option"
where
  "reliable_best [] i now best = best"
| "reliable_best (e # es) i now best =
     reliable_best es (Suc i) now
       (if e_active e \<and> now \<ge> e_next_try e
        then (case best of
                None \<Rightarrow> Some (i, e_packet_id e)
              | Some (j, pid) \<Rightarrow> if reliable_pid_min (e_packet_id e) pid then Some (i, e_packet_id e) else best)
        else best)"

definition reliable_send :: "reliable \<Rightarrow> int \<Rightarrow> (nat \<times> int) option \<times> reliable" where
  "reliable_send rel now =
     (case reliable_best (rel_entries rel) 0 now None of
        None \<Rightarrow> (None, rel)
      | Some (i, pid) \<Rightarrow>
          (let e = rl_array rel ! i
           in (Some (i, e_opcode e),
               rel_update rel i (e\<lparr>e_next_try := now + e_timeout e, e_timeout := e_timeout e * 2\<rparr>))))"

definition reliable_schedule_now :: "reliable \<Rightarrow> int \<Rightarrow> reliable" where
  "reliable_schedule_now rel now =
     rel\<lparr>rl_hold := False,
         rl_array := map (\<lambda>e. if e_active e
                             then e\<lparr>e_next_try := now, e_timeout := rl_initial_timeout rel\<rparr> else e)
                         (rel_entries rel) @ drop (nat (rl_size rel)) (rl_array rel)\<rparr>"

primrec reliable_send_timeout_loop :: "reliable_entry list \<Rightarrow> int \<Rightarrow> int \<Rightarrow> int" where
  "reliable_send_timeout_loop [] now ret = ret"
| "reliable_send_timeout_loop (e # es) now ret =
     (if e_active e
      then (if e_next_try e \<le> now then 0
            else reliable_send_timeout_loop es now (min_int ret (e_next_try e - now)))
      else reliable_send_timeout_loop es now ret)"

definition reliable_send_timeout :: "reliable \<Rightarrow> int \<Rightarrow> int" where
  "reliable_send_timeout rel now = reliable_send_timeout_loop (rel_entries rel) now BIG_TIMEOUT"

text \<open>
  The three functions below look for the entry whose buffer they were given; here it is given
  by its index, and an index outside the visited entries is the final \<open>ASSERT(0)\<close>.
\<close>

definition reliable_mark_active_incoming ::
  "reliable \<Rightarrow> nat \<Rightarrow> packet_id_type \<Rightarrow> int \<Rightarrow> reliable option" where
  "reliable_mark_active_incoming rel i pid opcode =
     do { ASSERT (i < length (rel_entries rel));
          ASSERT (\<not> reliable_pid_min pid (rl_packet_id rel));
          Some (rel_update rel i ((rl_array rel ! i)
                 \<lparr>e_active := True, e_packet_id := pid, e_opcode := opcode, e_next_try := 0, e_timeout := 0\<rparr>)) }"

definition reliable_mark_active_outgoing :: "reliable \<Rightarrow> nat \<Rightarrow> int \<Rightarrow> reliable option" where
  "reliable_mark_active_outgoing rel i opcode =
     do { ASSERT (i < length (rel_entries rel));
          let e = rl_array rel ! i;
          let pid = rl_packet_id rel;
          let rel1 = rel\<lparr>rl_packet_id := pid + 1\<rparr>;
          (ok, b) \<leftarrow> buf_write_prepend (e_buf e) (u32_bytes pid);
          ASSERT ok;
          Some (rel_update rel1 i
                 (e\<lparr>e_packet_id := pid, e_buf := b, e_active := True, e_opcode := opcode,
                    e_next_try := 0, e_timeout := rl_initial_timeout rel\<rparr>)) }"

definition reliable_mark_deleted :: "reliable \<Rightarrow> nat \<Rightarrow> bool \<Rightarrow> reliable option" where
  "reliable_mark_deleted rel i inc_pid =
     do { ASSERT (i < length (rel_entries rel));
          let e = rl_array rel ! i;
          let rel1 = rel_update rel i (e\<lparr>e_active := False\<rparr>);
          Some (if inc_pid then rel1\<lparr>rl_packet_id := e_packet_id e + 1\<rparr> else rel1) }"

section \<open>Serial number arithmetic\<close>

lemma reliable_pid_in_range1_iff [simp]:
  "reliable_pid_in_range1 test base extent \<longleftrightarrow> test - base < extent"
  by (simp add: reliable_pid_in_range1_def)

lemma reliable_pid_min_iff: "reliable_pid_min p1 p2 \<longleftrightarrow> 0x80000000 \<le> p1 - p2"
  by (simp add: reliable_pid_min_def not_less)

text \<open>
  The two tests on an incoming identifier together are the window test, as long as the next
  identifier has not passed the middle of the number range.
\<close>

lemma reliable_window:
  assumes "base \<le> 0x80000000" "extent \<le> 8"
  shows "reliable_pid_in_range2 i base extent \<and> \<not> reliable_pid_min i base \<longleftrightarrow> i - base < extent"
proof -
  have b: "unat base \<le> 2147483648" "unat extent \<le> 8" "unat i < 4294967296"
    using assms unsigned_less [of i] by (simp_all add: word_le_nat_alt)
  have s: "unat (base + extent) = unat base + unat extent"
    using b by (simp add: unat_word_ariths)
  have d: "unat (i - base) = (if unat base \<le> unat i then unat i - unat base else unat i + 4294967296 - unat base)"
    by (simp add: unat_sub_if')
  show ?thesis
    using b s d
    by (simp add: reliable_pid_in_range2_def reliable_pid_min_iff word_less_nat_alt word_le_nat_alt) arith
qed

text \<open>Without that: beyond the middle, and short of the end, all identifiers that are more than half the range behind pass too.\<close>

lemma reliable_range_tests:
  assumes "extent \<le> 8"
  shows "reliable_pid_in_range2 i base extent \<and> \<not> reliable_pid_min i base \<longleftrightarrow>
    i - base < extent \<or> 0x80000000 < base \<and> base \<le> base + extent \<and> i < base - 0x80000000"
proof (cases "base \<le> 0x80000000")
  case True
  then have "\<not> 0x80000000 < base" by simp
  then show ?thesis using reliable_window [OF True assms] by blast
next
  case False
  have b: "2147483648 < unat base" "unat base < 4294967296" "unat extent \<le> 8" "unat i < 4294967296"
    using assms False unsigned_less [of i] unsigned_less [of base] by (simp_all add: word_le_nat_alt)
  have d: "unat (i - base) = (if unat base \<le> unat i then unat i - unat base else unat i + 4294967296 - unat base)"
    by (simp add: unat_sub_if')
  have m: "unat (base - 0x80000000) = unat base - 2147483648" using b by (simp add: unat_sub_if')
  have late: "0x80000000 < base" using False by simp
  show ?thesis
  proof (cases "unat base + unat extent < 4294967296")
    case True
    then have s: "unat (base + extent) = unat base + unat extent" by (simp add: unat_word_ariths)
    have "reliable_pid_in_range2 i base extent \<longleftrightarrow> unat i < unat base + unat extent" "base \<le> base + extent"
      by (simp_all add: reliable_pid_in_range2_def word_le_nat_alt word_less_nat_alt s)
    moreover have "\<not> reliable_pid_min i base \<longleftrightarrow> unat (i - base) < 2147483648"
      by (simp add: reliable_pid_min_iff word_le_nat_alt not_le)
    moreover have "i - base < extent \<longleftrightarrow> unat (i - base) < unat extent" "i < base - 0x80000000 \<longleftrightarrow> unat i < unat base - 2147483648"
      by (simp_all add: word_less_nat_alt m)
    ultimately show ?thesis using b late unfolding d by auto
  next
    case wrap: False
    then have s: "unat (base + extent) = unat base + unat extent - 4294967296" using b
      by (simp add: unat_word_ariths le_mod_geq)
    have h: "unat (i + 0x80000000) = (if unat i < 2147483648 then unat i + 2147483648 else unat i - 2147483648)"
      using b by (cases "unat i < 2147483648") (simp_all add: unat_word_ariths le_mod_geq)
    have e: "unat (base + 0x80000000 + extent) = unat base - 2147483648 + unat extent"
      using b wrap by (simp add: unat_word_ariths le_mod_geq)
    have "reliable_pid_in_range2 i base extent \<longleftrightarrow> unat (i + 0x80000000) < unat base - 2147483648 + unat extent" "\<not> base \<le> base + extent"
      using b by (simp_all add: reliable_pid_in_range2_def word_le_nat_alt word_less_nat_alt s e)
    moreover have "\<not> reliable_pid_min i base \<longleftrightarrow> unat (i - base) < 2147483648"
      by (simp add: reliable_pid_min_iff word_le_nat_alt not_le)
    moreover have "i - base < extent \<longleftrightarrow> unat (i - base) < unat extent" by (simp add: word_less_nat_alt)
    ultimately show ?thesis using b wrap unfolding d h by auto
  qed
qed

text \<open>
  C23. What the tests on the identifier of an incoming packet let through. A packet that is not there already is taken if
  its identifier lies within \<open>size\<close> of the next one, as it should be; but beyond the middle of the number range, until the
  window reaches its end, also if it is any identifier below the next one minus half the range, far outside of the window.
\<close>

theorem reliable_range_test_exact:
  assumes "0 < rl_size rel" and "rl_size rel \<le> 8"
  shows "reliable_wont_break_sequentiality rel pid \<and> reliable_not_replay rel pid \<longleftrightarrow>
    (\<forall>e \<in> set (rel_entries rel). e_active e \<longrightarrow> e_packet_id e \<noteq> pid) \<and>
    (let next_id = rl_packet_id rel; n = word_of_int (rl_size rel)
     in pid - next_id < n \<or> 0x80000000 < next_id \<and> next_id \<le> next_id + n \<and> pid < next_id - 0x80000000)"
proof -
  have "uint (word_of_int (rl_size rel) :: u32) = rl_size rel" using assms by (simp add: uint_word_of_int)
  then have "(word_of_int (rl_size rel) :: u32) \<le> 8" using assms by (simp add: word_le_def)
  from reliable_range_tests [OF this, of pid "rl_packet_id rel"] show ?thesis
    by (auto simp: reliable_wont_break_sequentiality_def reliable_not_replay_def list_ex_iff Let_def)
qed

lemma reliable_range_test_exact_witness:
  "let rel = \<lparr>rl_size = 8, rl_initial_timeout = 2, rl_packet_id = 0x90000000, rl_offset = 0,
     rl_hold = False, rl_array = replicate 8 reliable_entry_zero\<rparr>
   in reliable_wont_break_sequentiality rel 5 \<and> reliable_not_replay rel 5 \<and> \<not> 5 - rl_packet_id rel < 8"
proof -
  let ?rel = "\<lparr>rl_size = 8, rl_initial_timeout = 2, rl_packet_id = 0x90000000, rl_offset = 0,
     rl_hold = False, rl_array = replicate 8 reliable_entry_zero\<rparr>"
  have "\<forall>e \<in> set (rel_entries ?rel). \<not> e_active e" by (auto simp: rel_entries_def reliable_entry_zero_def dest: in_set_takeD)
  then show ?thesis using reliable_range_test_exact [of ?rel 5] by (simp add: Let_def)
qed

section \<open>Well-formed states\<close>

definition rel_ok :: "reliable \<Rightarrow> bool" where
  "rel_ok rel \<longleftrightarrow> 0 < rl_size rel \<and> rl_size rel \<le> RELIABLE_CAPACITY \<and>
     int (length (rl_array rel)) = RELIABLE_CAPACITY \<and> 0 \<le> rl_offset rel \<and>
     (\<forall>e \<in> set (rel_entries rel). buf_ok (e_buf e) \<and> rl_offset rel \<le> b_capacity (e_buf e))"

abbreviation rel_count :: "reliable \<Rightarrow> nat" where
  "rel_count rel \<equiv> nat (rl_size rel)"

lemma rel_entries_nth:
  assumes "rel_ok rel"
  shows "length (rel_entries rel) = rel_count rel" "rel_count rel \<le> length (rl_array rel)"
    "i < rel_count rel \<Longrightarrow> rel_entries rel ! i = rl_array rel ! i"
  using assms by (auto simp: rel_ok_def rel_entries_def RELIABLE_CAPACITY_def)

lemma rel_entries_all_ex:
  assumes "rel_ok rel"
  shows "(\<forall>e \<in> set (rel_entries rel). P e) \<longleftrightarrow> (\<forall>i < rel_count rel. P (rl_array rel ! i))"
    and "(\<exists>e \<in> set (rel_entries rel). P e) \<longleftrightarrow> (\<exists>i < rel_count rel. P (rl_array rel ! i))"
proof -
  have a: "(\<forall>e \<in> set (rel_entries rel). P e) \<longleftrightarrow> (\<forall>i < rel_count rel. P (rl_array rel ! i))" for P
    using rel_entries_nth [OF assms] by (auto simp: all_set_conv_all_nth)
  show "(\<forall>e \<in> set (rel_entries rel). P e) \<longleftrightarrow> (\<forall>i < rel_count rel. P (rl_array rel ! i))"
    by (rule a)
  show "(\<exists>e \<in> set (rel_entries rel). P e) \<longleftrightarrow> (\<exists>i < rel_count rel. P (rl_array rel ! i))"
    using a [of "\<lambda>e. \<not> P e"] by blast
qed

lemma rel_nth_update:
  assumes "rel_ok rel" "i < rel_count rel"
  shows "(rl_array rel)[i := e] ! j = (if j = i then e else rl_array rel ! j)"
  using rel_entries_nth(2) [OF assms(1)] assms(2) by (simp add: nth_list_update)

lemma rel_entries_update [simp]:
  "rel_entries (rel_update rel i e) = (rel_entries rel)[i := e]"
  by (simp add: rel_entries_def rel_update_def take_update_swap)

lemma rel_update_simps [simp]:
  "rl_size (rel_update rel i e) = rl_size rel" "rl_packet_id (rel_update rel i e) = rl_packet_id rel"
  "rl_offset (rel_update rel i e) = rl_offset rel" "rl_hold (rel_update rel i e) = rl_hold rel"
  "rl_initial_timeout (rel_update rel i e) = rl_initial_timeout rel"
  "rl_array (rel_update rel i e) = (rl_array rel)[i := e]"
  by (simp_all add: rel_update_def)

lemma rel_update_twice [simp]: "rel_update (rel_update rel i e) i e' = rel_update rel i e'"
  by (simp add: rel_update_def)

lemma rel_entries_packet_id [simp]:
  "rel_entries (rel\<lparr>rl_packet_id := p\<rparr>) = rel_entries rel"
  "rel_entries (rel\<lparr>rl_hold := h\<rparr>) = rel_entries rel"
  by (simp_all add: rel_entries_def)

lemma rel_ok_update:
  assumes "rel_ok rel" "buf_ok (e_buf e)" "rl_offset rel \<le> b_capacity (e_buf e)"
  shows "rel_ok (rel_update rel i e)" "rel_ok ((rel_update rel i e)\<lparr>rl_packet_id := p\<rparr>)"
  using assms set_update_subset_insert [of "rel_entries rel" i e] by (auto simp: rel_ok_def)

section \<open>Acknowledgement records on the wire\<close>

definition ack_ok :: "reliable_ack \<Rightarrow> bool" where
  "ack_ok ack \<longleftrightarrow> int (length (a_packet_id ack)) = RELIABLE_ACK_SIZE \<and>
     0 \<le> a_len ack \<and> a_len ack \<le> RELIABLE_ACK_SIZE"

definition ack_ids :: "reliable_ack \<Rightarrow> packet_id_type list" where
  "ack_ids ack = take (nat (a_len ack)) (a_packet_id ack)"

definition ack_bytes :: "packet_id_type list \<Rightarrow> session_id \<Rightarrow> bytes" where
  "ack_bytes pids sid =
     word_of_nat (length pids) # concat (map u32_bytes pids) @ (if pids = [] then [] else sid_id sid)"

lemma length_ack_ids: "ack_ok ack \<Longrightarrow> int (length (ack_ids ack)) = a_len ack \<and> length (ack_ids ack) \<le> 8"
  by (auto simp: ack_ok_def ack_ids_def RELIABLE_ACK_SIZE_def)

lemma length_concat_u32 [simp]: "length (concat (map u32_bytes pids)) = 4 * length pids"
  by (induction pids) auto

lemma ack_push:
  assumes "ack_ok ack" "a_len ack < RELIABLE_ACK_SIZE"
  assumes "ack' = ack\<lparr>a_packet_id := (a_packet_id ack)[nat (a_len ack) := pid], a_len := a_len ack + 1\<rparr>"
  shows "ack_ok ack'" "ack_ids ack' = ack_ids ack @ [pid]" "a_len ack' = a_len ack + 1"
  using assms
  by (auto simp: ack_ok_def ack_ids_def RELIABLE_ACK_SIZE_def nat_add_distrib take_Suc_conv_app_nth)

lemma reliable_ack_acknowledge_ids:
  assumes "ack_ok ack"
  shows "ack_ok (snd (reliable_ack_acknowledge_packet_id ack pid))"
    and "fst (reliable_ack_acknowledge_packet_id ack pid) \<longleftrightarrow> pid \<notin> set (ack_ids ack) \<and> length (ack_ids ack) < 8"
    and "ack_ids (snd (reliable_ack_acknowledge_packet_id ack pid)) =
      (if pid \<notin> set (ack_ids ack) \<and> length (ack_ids ack) < 8 then ack_ids ack @ [pid] else ack_ids ack)"
proof -
  have p: "reliable_ack_packet_id_present ack pid \<longleftrightarrow> pid \<in> set (ack_ids ack)"
    by (auto simp: reliable_ack_packet_id_present_def ack_ids_def list_ex_iff)
  have l: "length (ack_ids ack) < 8 \<longleftrightarrow> a_len ack < RELIABLE_ACK_SIZE"
    using length_ack_ids [OF assms] by (auto simp: RELIABLE_ACK_SIZE_def)
  show "ack_ok (snd (reliable_ack_acknowledge_packet_id ack pid))"
    "fst (reliable_ack_acknowledge_packet_id ack pid) \<longleftrightarrow> pid \<notin> set (ack_ids ack) \<and> length (ack_ids ack) < 8"
    "ack_ids (snd (reliable_ack_acknowledge_packet_id ack pid)) =
      (if pid \<notin> set (ack_ids ack) \<and> length (ack_ids ack) < 8 then ack_ids ack @ [pid] else ack_ids ack)"
    using ack_push [OF assms _ refl, of pid] assms
    by (auto simp: reliable_ack_acknowledge_packet_id_def p l)
qed

lemma reliable_ack_write_ids_ok:
  "buf_ok b \<Longrightarrow> 4 * int (length pids) \<le> buf_room b \<Longrightarrow>
   \<exists>b'. reliable_ack_write_ids b pids = Some b' \<and> buf_ok b' \<and>
     buf_content b' = buf_content b @ concat (map u32_bytes pids) \<and>
     b_offset b' = b_offset b \<and> b_capacity b' = b_capacity b \<and>
     buf_room b' = buf_room b - 4 * int (length pids)"
proof (induction pids arbitrary: b)
  case (Cons pid pids)
  have r: "int (length (u32_bytes pid)) \<le> buf_room b" using Cons.prems(2) by simp
  note a = buf_append_ok [OF Cons.prems(1) r]
  have "4 * int (length pids) \<le> buf_room (buf_append b (u32_bytes pid))"
    using Cons.prems(2) a(6) by simp
  from Cons.IH [OF a(1) this] show ?case
    using Cons.prems(1) r a by (auto simp: buf_write_ok)
qed simp

lemma reliable_ack_read_loop_ok:
  "buf_ok b \<Longrightarrow> buf_content b = concat (map u32_bytes pids) @ ys \<Longrightarrow> ack_ok ack \<Longrightarrow>
   length (ack_ids ack) + length pids \<le> 8 \<Longrightarrow>
   \<exists>ack' b'. reliable_ack_read_loop (length pids) ack b = Some (True, ack', b') \<and> ack_ok ack' \<and>
     ack_ids ack' = ack_ids ack @ pids \<and> buf_ok b' \<and> buf_content b' = ys"
proof (induction pids arbitrary: b ack)
  case (Cons pid pids)
  have "buf_content b = u32_bytes pid @ (concat (map u32_bytes pids) @ ys)"
    using Cons.prems(2) by simp
  note r = buf_read_u32_prefix [OF Cons.prems(1) this]
  have l: "a_len ack < RELIABLE_ACK_SIZE"
    using Cons.prems(4) length_ack_ids [OF Cons.prems(3)] by (simp add: RELIABLE_ACK_SIZE_def)
  note a = ack_push [OF Cons.prems(3) l refl, of pid]
  from Cons.IH [OF r(2,3) a(1)] Cons.prems(4) a(2) show ?case
    using r(1) l by auto
qed simp

lemma reliable_ack_shift_ok:
  "0 \<le> i \<Longrightarrow> i \<le> j \<Longrightarrow> j \<le> len \<Longrightarrow> len \<le> int (length a) \<Longrightarrow>
   length (fst (reliable_ack_shift a i j len)) = length a \<and>
   snd (reliable_ack_shift a i j len) = i + (len - j) \<and>
   take (nat (i + (len - j))) (fst (reliable_ack_shift a i j len)) =
     take (nat i) a @ drop (nat j) (take (nat len) a)"
proof (induction a i j len rule: reliable_ack_shift.induct)
  case (1 a i j len)
  show ?case
  proof (cases "j < len")
    case True
    let ?a = "a[nat i := a ! nat j]"
    have IH: "length (fst (reliable_ack_shift ?a (i + 1) (j + 1) len)) = length ?a \<and>
      snd (reliable_ack_shift ?a (i + 1) (j + 1) len) = (i + 1) + (len - (j + 1)) \<and>
      take (nat ((i + 1) + (len - (j + 1)))) (fst (reliable_ack_shift ?a (i + 1) (j + 1) len)) =
       take (nat (i + 1)) ?a @ drop (nat (j + 1)) (take (nat len) ?a)"
      using "1.prems" True by (intro "1.IH") auto
    have n: "nat (i + 1) = Suc (nat i)" "nat (j + 1) = Suc (nat j)" "nat i < length a" "nat j < nat len"
      "nat len \<le> length a" "nat i \<le> nat j"
      using "1.prems" True by auto
    have "take (nat (i + 1)) ?a = take (nat i) a @ [a ! nat j]"
      using take_Suc_conv_app_nth [of "nat i" ?a] n(3) by (simp add: n(1) del: nat_less_iff)
    moreover have "drop (nat (j + 1)) (take (nat len) ?a) = drop (Suc (nat j)) (take (nat len) a)"
      using n by (simp add: take_update_swap)
    moreover have "drop (nat j) (take (nat len) a) = a ! nat j # drop (Suc (nat j)) (take (nat len) a)"
      using n Cons_nth_drop_Suc [of "nat j" "take (nat len) a"] by simp
    ultimately show ?thesis
      using IH True by (subst (1 2 3) reliable_ack_shift.simps) (simp add: algebra_simps)
  next
    case False
    with "1.prems" show ?thesis
      by (subst (1 2 3) reliable_ack_shift.simps) simp
  qed
qed

text \<open>A sub-buffer that was filled to the end is its content.\<close>

lemma buf_full_data:
  assumes "buf_ok b" "b_offset b = 0" "buf_room b = 0"
  shows "b_data b = Some (buf_content b)"
proof -
  obtain d where "b_data b = Some d" "int (length d) = b_capacity b" using assms(1) by (auto simp: buf_ok_def)
  then show ?thesis using assms by (auto simp: buf_content_def buf_room_def)
qed

lemma length_ack_bytes:
  "sid_ok sid \<Longrightarrow> int (length (ack_bytes pids sid)) = ACK_SIZE (int (length pids))"
  by (auto simp: ack_bytes_def ACK_SIZE_def SID_SIZE_def sid_ok_def)

lemma reliable_ack_write_ok:
  assumes b: "buf_ok b" and ack: "ack_ok ack" and sid: "sid_ok sid" "session_id_defined sid" and "0 \<le> mx"
  defines "n \<equiv> min (nat mx) (length (ack_ids ack))"
  defines "w \<equiv> ack_bytes (take n (ack_ids ack)) sid"
  assumes room: "if prep then int (length w) \<le> b_offset b else int (length w) \<le> buf_room b"
  shows "\<exists>ack'. reliable_ack_write ack b sid mx prep
      = Some (True, ack', if prep then buf_push b w else buf_append b w) \<and>
    ack_ok ack' \<and> ack_ids ack' = drop n (ack_ids ack)"
proof -
  note len = length_ack_ids [OF ack]
  have n8: "n \<le> 8" "n \<le> length (ack_ids ack)" using len by (auto simp: n_def)
  have nlen: "n \<le> nat (a_len ack)" "int n \<le> a_len ack" using n8 len by linarith+
  let ?n0 = "word_of_int (a_len ack) :: u8"
  have u0: "uint ?n0 = a_len ack"
    using ack by (auto simp: ack_ok_def RELIABLE_ACK_SIZE_def uint_word_of_int)
  define nw where "nw = (if uint ?n0 > mx then word_of_int mx else ?n0)"
  have un: "uint nw = int n"
    using u0 len assms(5) by (auto simp: nw_def n_def uint_word_of_int min_def)
  then have unat: "unat nw = n" by (simp add: unat_eq_nat_uint)
  then have nwn: "nw = word_of_nat n" by (simp flip: unat)
  have sz: "ACK_SIZE (uint nw) = int (length w)"
    using length_ack_bytes [OF sid(1), of "take n (ack_ids ack)"] n8 by (simp add: w_def un)
  have pids: "take (unat nw) (a_packet_id ack) = take n (ack_ids ack)"
    using nlen(1) by (simp add: unat ack_ids_def min_absorb1)
  obtain sub p b' where sub: "buf_sub b (int (length w)) prep = Some (sub, p, b')" "buf_ok sub" "buf_defined sub"
    "buf_content sub = []" "buf_room sub = int (length w)" "b_offset sub = 0"
    and sync: "\<And>sub' xs. b_data sub' = Some xs \<Longrightarrow> int (length xs) = int (length w) \<Longrightarrow>
       buf_sub_sync b' p sub' = Some (if prep then buf_push b xs else buf_append b xs)"
    by (rule buf_sub_ok [OF b _ room]) simp_all
  have lw: "length w = 1 + 4 * n + (if n = 0 then 0 else 8)"
    using n8 sid(1) by (auto simp: w_def ack_bytes_def sid_ok_def)
  note a1 = buf_append_ok [OF sub(2), of "[nw]"]
  have r1: "int (length [nw]) \<le> buf_room sub" using sub(5) lw by simp
  obtain sub2 where sub2: "reliable_ack_write_ids (buf_append sub [nw]) (take n (ack_ids ack)) = Some sub2"
    "buf_ok sub2" "buf_content sub2 = nw # concat (map u32_bytes (take n (ack_ids ack)))"
    "b_offset sub2 = 0" "buf_room sub2 = int (length w) - 1 - 4 * int n"
    using reliable_ack_write_ids_ok [OF a1(1) [OF r1], of "take n (ack_ids ack)"] a1 r1 sub lw n8 by auto
  have first: "buf_write sub [nw] = Some (True, buf_append sub [nw])"
    using r1 by (simp add: buf_write_ok [OF sub(2)])
  show ?thesis
  proof (cases "n = 0")
    case True
    then have nw0: "nw = 0" using nwn by simp
    have "b_data sub2 = Some w"
      using buf_full_data [OF sub2(2,4)] sub2(3,5) lw True nw0 by (simp add: w_def ack_bytes_def)
    with sync [of sub2 w] have "buf_sub_sync b' p sub2 = Some (if prep then buf_push b w else buf_append b w)"
      by simp
    then show ?thesis
      using sub first sub2 nw0 True sz pids ack
      by (simp add: reliable_ack_write_def Let_def nw_def [symmetric])
  next
    case False
    then have nw0: "nw \<noteq> 0" using unat by auto
    let ?sub3 = "buf_append sub2 (sid_id sid)"
    have r3: "int (length (sid_id sid)) \<le> buf_room sub2"
      using sub2(5) lw False sid(1) by (simp add: sid_ok_def)
    note a3 = buf_append_ok [OF sub2(2) r3]
    have third: "session_id_write sid sub2 = Some (True, ?sub3)"
      using r3 by (simp add: session_id_write_def buf_write_ok [OF sub2(2)])
    have "buf_content ?sub3 = w"
      using a3(2) sub2(3) False n8 nwn by (auto simp: w_def ack_bytes_def min_def)
    then have "b_data ?sub3 = Some w"
      using buf_full_data [OF a3(1)] a3(3,6) sub2(4,5) lw False sid(1) by (simp add: sid_ok_def)
    with sync [of ?sub3 w] have s: "buf_sub_sync b' p ?sub3 = Some (if prep then buf_push b w else buf_append b w)"
      by simp
    obtain ids i where sh: "reliable_ack_shift (a_packet_id ack) 0 (int n) (a_len ack) = (ids, i)" by fastforce
    have sh': "length ids = length (a_packet_id ack)" "i = a_len ack - int n"
      "take (nat (a_len ack - int n)) ids = drop n (ack_ids ack)"
      using reliable_ack_shift_ok [of 0 "int n" "a_len ack" "a_packet_id ack"] sh n8 len ack
      by (auto simp: ack_ok_def ack_ids_def)
    show ?thesis
      using sub first sub2 nw0 sz pids third s sh sh' un ack sid(2) n8 len nlen(2)
      by (simp add: reliable_ack_write_def Let_def nw_def [symmetric]) (simp add: ack_ok_def ack_ids_def)
  qed
qed

definition ack_none :: reliable_ack where
  "ack_none = \<lparr>a_len = 0, a_packet_id = replicate 8 0\<rparr>"

lemma ack_none [simp]: "ack_ok ack_none" "ack_ids ack_none = []"
  by (simp_all add: ack_none_def ack_ok_def ack_ids_def RELIABLE_ACK_SIZE_def)

lemma reliable_ack_read_ok:
  assumes b: "buf_ok b" "buf_content b = ack_bytes pids sid @ ys" and sid: "sid_ok sid" "session_id_defined sid"
    and "length pids \<le> 8"
  shows "\<exists>ack b'. reliable_ack_read ack_none b sid = Some (True, ack, b') \<and> ack_ok ack \<and>
    ack_ids ack = pids \<and> buf_ok b' \<and> buf_content b' = ys"
proof -
  let ?n = "word_of_nat (length pids) :: u8"
  have n: "unat ?n = length pids" using assms(5) by (simp add: unat_of_nat)
  let ?rest = "concat (map u32_bytes pids) @ (if pids = [] then [] else sid_id sid) @ ys"
  have "buf_content b = [?n] @ ?rest" using b(2) by (simp add: ack_bytes_def)
  note r = bq.get_prefix [OF b(1) this, of 1]
  obtain ack' b2 where l: "reliable_ack_read_loop (length pids) ack_none (buf_drop b 1) = Some (True, ack', b2)"
    "ack_ok ack'" "ack_ids ack' = pids" "buf_ok b2"
    "buf_content b2 = (if pids = [] then [] else sid_id sid) @ ys"
    using reliable_ack_read_loop_ok [of "buf_drop b 1" pids "(if pids = [] then [] else sid_id sid) @ ys" ack_none]
      r assms(5) by auto
  show ?thesis
  proof (cases "pids = []")
    case True
    then show ?thesis using r l n by (simp add: reliable_ack_read_def)
  next
    case False
    with l(5) have "buf_content b2 = sid_id sid @ ys" by simp
    note s = session_id_read_prefix [OF l(4) this sid(1)]
    show ?thesis using r l n s False sid(2) by (simp add: reliable_ack_read_def)
  qed
qed

text \<open>
  C19. Acknowledgements reach the peer. A record written for the peer's session, in front of a
  packet or at the end of an empty one, is read back by the peer as exactly the first identifiers
  that fit the limit; the sender keeps exactly the others, and what follows the record is left
  to read.
\<close>

theorem reliable_ack_write_read:
  assumes "buf_ok b" and "ack_ok ack" and "sid_ok sid" and "session_id_defined sid" and "0 \<le> mx"
    and "n = min (nat mx) (length (ack_ids ack))"
    and "if prep then ACK_SIZE (int n) \<le> b_offset b
         else ACK_SIZE (int n) \<le> buf_room b \<and> buf_content b = []"
  shows "\<exists>ack' b' r b''. reliable_ack_write ack b sid mx prep = Some (True, ack', b') \<and>
    ack_ok ack' \<and> ack_ids ack' = drop n (ack_ids ack) \<and>
    reliable_ack_read ack_none b' sid = Some (True, r, b'') \<and> ack_ids r = take n (ack_ids ack) \<and>
    buf_ok b'' \<and> buf_content b'' = buf_content b"
proof -
  let ?w = "ack_bytes (take n (ack_ids ack)) sid"
  have lw: "int (length ?w) = ACK_SIZE (int n)"
    using length_ack_bytes [OF assms(3), of "take n (ack_ids ack)"] assms(6) by simp
  have room: "if prep then int (length ?w) \<le> b_offset b else int (length ?w) \<le> buf_room b"
    using assms(7) lw by (cases prep) auto
  obtain ack' where w: "reliable_ack_write ack b sid mx prep
      = Some (True, ack', if prep then buf_push b ?w else buf_append b ?w)"
    "ack_ok ack'" "ack_ids ack' = drop n (ack_ids ack)"
    using reliable_ack_write_ok [OF assms(1-5), of prep] room assms(6) by auto
  let ?b = "if prep then buf_push b ?w else buf_append b ?w"
  have c: "buf_ok ?b" "buf_content ?b = ?w @ buf_content b"
    using buf_push_ok [OF assms(1), of ?w] buf_append_ok [OF assms(1), of ?w] room assms(7)
    by (cases prep; simp)+
  have "length (take n (ack_ids ack)) \<le> 8"
    using length_ack_ids [OF assms(2)] by auto
  from reliable_ack_read_ok [OF c assms(3,4) this] w show ?thesis by blast
qed

theorem reliable_ack_write_read_witness:
  "\<exists>ack' b' r b''. reliable_ack_write \<lparr>a_len = 3, a_packet_id = [7, 8, 9, 0, 0, 0, 0, 0]\<rparr>
       \<lparr>b_capacity = 30, b_offset = 28, b_len = 2, b_data = Some (replicate 30 5)\<rparr>
       \<lparr>sid_id = [1, 2, 3, 4, 5, 6, 7, 8]\<rparr> 2 True = Some (True, ack', b') \<and> ack_ids ack' = [9] \<and>
    reliable_ack_read ack_none b' \<lparr>sid_id = [1, 2, 3, 4, 5, 6, 7, 8]\<rparr> = Some (True, r, b'') \<and>
    ack_ids r = [7, 8] \<and> buf_content b'' = [5, 5]"
proof -
  let ?ack = "\<lparr>a_len = 3, a_packet_id = [7, 8, 9, 0, 0, 0, 0, 0]\<rparr>"
  let ?b = "\<lparr>b_capacity = 30, b_offset = 28, b_len = 2, b_data = Some (replicate 30 5)\<rparr>"
  let ?sid = "\<lparr>sid_id = [1, 2, 3, 4, 5, 6, 7, 8]\<rparr>"
  have h: "buf_ok ?b" "ack_ok ?ack" "sid_ok ?sid" "session_id_defined ?sid" "buf_content ?b = [5, 5]"
    "ack_ids ?ack = [7, 8, 9]" "ACK_SIZE (int 2) \<le> b_offset ?b" "(2 :: nat) = min (nat 2) (length (ack_ids ?ack))"
    by code_simp+
  show ?thesis
    using reliable_ack_write_read [OF h(1-4) _ h(8), of True] h(5-7) by (auto simp: numeral_2_eq_2)
qed

end
