(* ===== verification/SslOpcodes.thy ===== *)
theory SslOpcodes
  imports OvpnPrelude
begin

text \<open>
  The packet opcodes of src: ssl.h. The high five bits of the first octet of a packet hold the
  opcode, the low three the key id.
\<close>

definition P_KEY_ID_MASK :: u8 where "P_KEY_ID_MASK = 0x07"
definition P_OPCODE_SHIFT :: nat where "P_OPCODE_SHIFT = 3"
definition P_CONTROL_HARD_RESET_CLIENT_V1 :: int where "P_CONTROL_HARD_RESET_CLIENT_V1 = 1"
definition P_CONTROL_HARD_RESET_SERVER_V1 :: int where "P_CONTROL_HARD_RESET_SERVER_V1 = 2"
definition P_CONTROL_SOFT_RESET_V1 :: int where "P_CONTROL_SOFT_RESET_V1 = 3"
definition P_CONTROL_V1 :: int where "P_CONTROL_V1 = 4"
definition P_ACK_V1 :: int where "P_ACK_V1 = 5"
definition P_DATA_V1 :: int where "P_DATA_V1 = 6"
definition P_CONTROL_HARD_RESET_CLIENT_V2 :: int where "P_CONTROL_HARD_RESET_CLIENT_V2 = 7"
definition P_CONTROL_HARD_RESET_SERVER_V2 :: int where "P_CONTROL_HARD_RESET_SERVER_V2 = 8"
definition P_DATA_V2 :: int where "P_DATA_V2 = 9"
definition P_CONTROL_HARD_RESET_CLIENT_V3 :: int where "P_CONTROL_HARD_RESET_CLIENT_V3 = 10"
definition P_FIRST_OPCODE :: int where "P_FIRST_OPCODE = 3"
definition P_LAST_OPCODE :: int where "P_LAST_OPCODE = 10"

definition CONTROL_SEND_ACK_MAX :: int where "CONTROL_SEND_ACK_MAX = 4"
definition TLS_RELIABLE_N_SEND_BUFFERS :: int where "TLS_RELIABLE_N_SEND_BUFFERS = 4"
definition TLS_RELIABLE_N_REC_BUFFERS :: int where "TLS_RELIABLE_N_REC_BUFFERS = 8"

end
