(* ===== verification/ReliableChannel.thy ===== *)
theory ReliableChannel
  imports Reliable SslOpcodes
begin

text \<open>
  The control channel over a network that loses, repeats and reorders packets: the steps of
  \<^verbatim>\<open>openvpn/ssl.c\<close> that use the reliability layer (\<open>tls_pre_decrypt\<close> for a packet that
  comes in, \<open>tls_process\<close> for what goes out and for what is handed on to TLS), and a step
  relation for a sender, the network and a receiver. What the receiver hands on is at every
  moment a prefix of what the sender was given, and the receive buffer never clogs.
\<close>

section \<open>The steps of the two ends\<close>

text \<open>
  The last part of \<open>tls_pre_decrypt\<close>, from the test of \<open>P_ACK_V1\<close> on, for a packet \<open>b\<close> whose
  acknowledgement record was read. The first result is \<open>False\<close> where the code goes to \<open>error\<close>.
\<close>

definition control_receive ::
  "reliable \<Rightarrow> reliable_ack \<Rightarrow> buffer \<Rightarrow> int \<Rightarrow> (bool \<times> reliable \<times> reliable_ack) option" where
  "control_receive rel ack b op =
     (if op \<noteq> P_ACK_V1 \<and> reliable_can_get rel
      then do { (r, b1) \<leftarrow> reliable_ack_read_packet_id b;
                case r of
                  None \<Rightarrow> Some (True, rel, ack)
                | Some pid \<Rightarrow>
                    if reliable_wont_break_sequentiality rel pid
                    then (if reliable_not_replay rel pid
                          then do { (ix, rel1) \<leftarrow> reliable_get_buf rel;
                                    case ix of
                                      None \<Rightarrow> None
                                    | Some i \<Rightarrow>
                                        (let e = rl_array rel1 ! i
                                         in do { (ok, nb) \<leftarrow> buf_copy (e_buf e) b1;
                                                 if \<not> ok then Some (False, rel1, ack)
                                                 else do { rel2 \<leftarrow> reliable_mark_active_incoming
                                                               (rel_update rel1 i (e\<lparr>e_buf := nb\<rparr>)) i pid op;
                                                           Some (True, rel2,
                                                             snd (reliable_ack_acknowledge_packet_id ack pid)) } }) }
                          else Some (True, rel, snd (reliable_ack_acknowledge_packet_id ack pid)))
                    else Some (True, rel, ack) }
      else Some (True, rel, ack))"

text \<open>
  In \<open>tls_process\<close>, the next packet in sequence goes to the TLS object; here TLS accepts it
  (\<open>key_state_write_ciphertext\<close> returns 1, or the packet is empty).
\<close>

definition control_deliver :: "reliable \<Rightarrow> (bytes option \<times> reliable) option" where
  "control_deliver rel =
     (case reliable_get_buf_sequenced rel of
        None \<Rightarrow> Some (None, rel)
      | Some i \<Rightarrow>
          do { rel' \<leftarrow> reliable_mark_deleted rel i True;
               Some (Some (buf_content (e_buf (rl_array rel ! i))), rel') })"

text \<open>
  In \<open>tls_process\<close>, ciphertext goes from TLS to the send buffer: \<open>key_state_read_ciphertext\<close>
  has put \<open>payload\<close> into the buffer.
\<close>

definition control_submit :: "reliable \<Rightarrow> bytes \<Rightarrow> int \<Rightarrow> (bool \<times> reliable) option" where
  "control_submit rel payload opcode =
     do { (ix, rel1) \<leftarrow> reliable_get_buf_output_sequenced rel;
          case ix of
            None \<Rightarrow> Some (False, rel1)
          | Some i \<Rightarrow>
              (let e = rl_array rel1 ! i
               in do { (ok, b) \<leftarrow> buf_write (e_buf e) payload;
                       if ok
                       then do { rel2 \<leftarrow> reliable_mark_active_outgoing (rel_update rel1 i (e\<lparr>e_buf := b\<rparr>)) i opcode;
                                 Some (True, rel2) }
                       else Some (False, rel1) }) }"

text \<open>In \<open>tls_process\<close>, a packet that is due goes to the network.\<close>

definition control_transmit :: "reliable \<Rightarrow> int \<Rightarrow> (bytes option \<times> reliable) option" where
  "control_transmit rel now =
     (if reliable_can_send rel now
      then (case reliable_send rel now of
              (None, rel') \<Rightarrow> None
            | (Some (i, opcode), rel') \<Rightarrow> Some (Some (buf_content (e_buf (rl_array rel' ! i))), rel'))
      else Some (None, rel))"

section \<open>Grabbing a buffer\<close>

lemma reliable_get_buf_ok:
  assumes "rel_ok rel"
  shows "if reliable_can_get rel
    then \<exists>i b. reliable_get_buf rel = Some (Some i, rel_update rel i ((rl_array rel ! i)\<lparr>e_buf := b\<rparr>)) \<and>
      i < rel_count rel \<and> \<not> e_active (rl_array rel ! i) \<and> buf_ok b \<and> buf_content b = [] \<and>
      b_offset b = rl_offset rel \<and> b_capacity b = b_capacity (e_buf (rl_array rel ! i))
    else reliable_get_buf rel = Some (None, rel)"
proof (cases "first_index (\<lambda>e. \<not> e_active e) (rel_entries rel)")
  case None
  then have "\<not> reliable_can_get rel"
    by (auto simp: first_index_None reliable_can_get_def list_ex_iff)
  with None show ?thesis by (simp add: reliable_get_buf_def)
next
  case (Some i)
  note n = rel_entries_nth [OF assms]
  from first_index_Some [OF Some] n have i: "i < rel_count rel" "\<not> e_active (rl_array rel ! i)" by auto
  then have "rel_entries rel ! i \<in> set (rel_entries rel)" using n(1) by simp
  then have e: "buf_ok (e_buf (rl_array rel ! i))" "rl_offset rel \<le> b_capacity (e_buf (rl_array rel ! i))"
    "0 \<le> rl_offset rel"
    using assms n(3) i by (auto simp: rel_ok_def)
  have "reliable_can_get rel"
    using i by (auto simp: reliable_can_get_def list_ex_iff rel_entries_all_ex [OF assms])
  moreover let ?b = "(e_buf (rl_array rel ! i))\<lparr>b_len := 0, b_offset := rl_offset rel\<rparr>"
  have "buf_init (e_buf (rl_array rel ! i)) (rl_offset rel) = (True, ?b)"
    using e by (auto simp: buf_init_def buf_ok_def)
  then have "reliable_get_buf rel = Some (Some i, rel_update rel i ((rl_array rel ! i)\<lparr>e_buf := ?b\<rparr>))"
    using Some by (simp add: reliable_get_buf_def Let_def)
  moreover have "buf_ok ?b" "buf_content ?b = []"
    using e by (auto simp: buf_ok_def buf_content_def split: option.splits)
  ultimately show ?thesis using i by (intro if_bool_eq_conj [THEN iffD2] conjI impI exI [of _ i] exI [of _ ?b]) simp_all
qed

text \<open>Two different active entries never carry the same identifier.\<close>

definition rel_distinct :: "reliable \<Rightarrow> bool" where
  "rel_distinct rel \<longleftrightarrow>
     (\<forall>i < rel_count rel. \<forall>j < rel_count rel. e_active (rl_array rel ! i) \<and> e_active (rl_array rel ! j) \<and>
        e_packet_id (rl_array rel ! i) = e_packet_id (rl_array rel ! j) \<longrightarrow> i = j)"

lemma rel_distinct_update:
  assumes "rel_distinct rel" "rel_ok rel" "i < rel_count rel"
    and "e_active e \<Longrightarrow> \<forall>j < rel_count rel. j \<noteq> i \<and> e_active (rl_array rel ! j) \<longrightarrow>
       e_packet_id (rl_array rel ! j) \<noteq> e_packet_id e"
  shows "rel_distinct (rel_update rel i e)"
  unfolding rel_distinct_def rel_update_simps rel_nth_update [OF assms(2,3)]
  using assms(1,4) unfolding rel_distinct_def by (auto split: if_splits)

section \<open>The receiving end\<close>

text \<open>
  The receiver, when the packets of the stream are \<open>msg 0\<close>, \<open>msg 1\<close>, \<open>...\<close>: every packet it holds
  is one of the stream, inside the window that starts at the next packet to hand on.
\<close>

definition rcv_ok :: "(nat \<Rightarrow> bytes) \<Rightarrow> nat \<Rightarrow> reliable \<Rightarrow> bool" where
  "rcv_ok msg k rel \<longleftrightarrow> rel_ok rel \<and> rel_distinct rel \<and> rl_packet_id rel = word_of_nat k \<and>
     (\<forall>i < rel_count rel. e_active (rl_array rel ! i) \<longrightarrow>
        e_packet_id (rl_array rel ! i) - rl_packet_id rel < word_of_int (rl_size rel) \<and>
        buf_content (e_buf (rl_array rel ! i)) = msg (unat (e_packet_id (rl_array rel ! i))))"

lemma rcv_okD:
  assumes "rcv_ok msg k rel"
  shows "rel_ok rel" "rel_distinct rel" "rl_packet_id rel = word_of_nat k"
    "i < rel_count rel \<Longrightarrow> e_active (rl_array rel ! i) \<Longrightarrow>
       e_packet_id (rl_array rel ! i) - rl_packet_id rel < word_of_int (rl_size rel)"
    "i < rel_count rel \<Longrightarrow> e_active (rl_array rel ! i) \<Longrightarrow>
       buf_content (e_buf (rl_array rel ! i)) = msg (unat (e_packet_id (rl_array rel ! i)))"
  using assms by (auto simp: rcv_ok_def)

lemma rcv_ok_update:
  assumes r: "rcv_ok msg k rel" and i: "i < rel_count rel"
    and e: "buf_ok (e_buf e)" "rl_offset rel \<le> b_capacity (e_buf e)"
    and act: "e_active e \<Longrightarrow> e_packet_id e - rl_packet_id rel < word_of_int (rl_size rel) \<and>
        buf_content (e_buf e) = msg (unat (e_packet_id e)) \<and>
        (\<forall>j < rel_count rel. j \<noteq> i \<and> e_active (rl_array rel ! j) \<longrightarrow>
           e_packet_id (rl_array rel ! j) \<noteq> e_packet_id e)"
  shows "rcv_ok msg k (rel_update rel i e)"
  using rcv_okD [OF r] rel_ok_update(1) [OF _ e, of i] rel_distinct_update [OF _ _ i, of e] act
  by (auto simp: rcv_ok_def rel_nth_update [OF rcv_okD(1) [OF r] i])

lemma reliable_wont_break_window:
  assumes "rcv_ok msg k rel" "k < 2 ^ 31"
  shows "reliable_wont_break_sequentiality rel pid \<and> reliable_not_replay rel pid \<longleftrightarrow>
     pid - rl_packet_id rel < word_of_int (rl_size rel) \<and>
     (\<forall>j < rel_count rel. e_active (rl_array rel ! j) \<longrightarrow> e_packet_id (rl_array rel ! j) \<noteq> pid)"
proof -
  note r = rcv_okD [OF assms(1)]
  have base: "rl_packet_id rel \<le> 0x80000000"
    using assms(2) r(3) by (simp add: word_le_nat_alt unat_of_nat)
  have ext: "(word_of_int (rl_size rel) :: u32) \<le> 8"
    using r(1) unat_word_of_int_nonneg [of "rl_size rel", where 'a=32]
    by (auto simp: rel_ok_def RELIABLE_CAPACITY_def word_le_nat_alt)
  have "list_ex (\<lambda>e. e_active e \<and> e_packet_id e = pid) (rel_entries rel) \<longleftrightarrow>
     (\<exists>j < rel_count rel. e_active (rl_array rel ! j) \<and> e_packet_id (rl_array rel ! j) = pid)"
    by (simp only: list_ex_iff rel_entries_all_ex(2) [OF r(1)])
  then show ?thesis
    using reliable_window [OF base ext, of pid]
    by (auto simp: reliable_wont_break_sequentiality_def reliable_not_replay_def)
qed

text \<open>The receiver takes a packet of the stream without aborting and stays well-formed.\<close>

lemma control_receive_ok:
  assumes r: "rcv_ok msg k rel" "k < 2 ^ 31" and b: "buf_ok b"
    and pkt: "buf_content b = u32_bytes pid @ msg (unat pid)"
  shows "\<exists>ok rel' ack'. control_receive rel ack b op = Some (ok, rel', ack') \<and> rcv_ok msg k rel'"
proof (cases "op \<noteq> P_ACK_V1 \<and> reliable_can_get rel \<and> reliable_wont_break_sequentiality rel pid \<and>
    reliable_not_replay rel pid")
  case False
  have "reliable_ack_read_packet_id b = Some (Some pid, buf_drop b 4)"
    using buf_read_u32_prefix [OF b pkt] by (simp add: reliable_ack_read_packet_id_def)
  with False r(1) show ?thesis by (auto simp: control_receive_def)
next
  case True
  note d = rcv_okD [OF r(1)]
  have rd: "reliable_ack_read_packet_id b = Some (Some pid, buf_drop b 4)" "buf_ok (buf_drop b 4)"
    "buf_content (buf_drop b 4) = msg (unat pid)"
    using buf_read_u32_prefix [OF b pkt] by (simp_all add: reliable_ack_read_packet_id_def)
  obtain i nb where g: "reliable_get_buf rel = Some (Some i, rel_update rel i ((rl_array rel ! i)\<lparr>e_buf := nb\<rparr>))"
    "i < rel_count rel" "\<not> e_active (rl_array rel ! i)" "buf_ok nb" "buf_content nb = []"
    "b_capacity nb = b_capacity (e_buf (rl_array rel ! i))"
    using reliable_get_buf_ok [OF d(1)] True by auto
  let ?e = "(rl_array rel ! i)\<lparr>e_buf := nb\<rparr>" and ?rel1 = "rel_update rel i ((rl_array rel ! i)\<lparr>e_buf := nb\<rparr>)"
  have cap: "rl_offset rel \<le> b_capacity nb"
    using d(1) g(2,6) rel_entries_nth [OF d(1)] by (auto simp: rel_ok_def all_set_conv_all_nth)
  have r1: "rcv_ok msg k ?rel1"
    using g(3,4) cap by (intro rcv_ok_update [OF r(1) g(2)]) auto
  have at: "rl_array ?rel1 ! i = ?e"
    using rel_nth_update [OF d(1) g(2)] by simp
  note w = reliable_wont_break_window [OF r(1,2), of pid]
  show ?thesis
  proof (cases "b_len (buf_drop b 4) \<le> buf_room nb")
    case False
    then have "buf_copy nb (buf_drop b 4) = Some (False, nb)"
      using g(4) rd(2) by (simp add: buf_copy_ok)
    then show ?thesis using True rd(1) g(1) at r1 by (auto simp: control_receive_def)
  next
    case fits: True
    let ?nb = "buf_append nb (msg (unat pid))"
    have len: "b_len (buf_drop b 4) = int (length (msg (unat pid)))"
      using length_buf_content [OF rd(2)] rd(3) by simp
    have copy: "buf_copy nb (buf_drop b 4) = Some (True, ?nb)"
      using g(4) rd(2,3) fits by (simp add: buf_copy_ok)
    note a = buf_append_ok [OF g(4), of "msg (unat pid)"]
    let ?e2 = "?e\<lparr>e_buf := ?nb, e_active := True, e_packet_id := pid, e_opcode := op,
      e_next_try := 0, e_timeout := 0\<rparr>"
    have np: "\<not> reliable_pid_min pid (rl_packet_id rel)" using True by (simp add: reliable_not_replay_def)
    have act: "reliable_mark_active_incoming (rel_update ?rel1 i (?e\<lparr>e_buf := ?nb\<rparr>)) i pid op =
        Some (rel_update rel i ?e2)"
      using g(2) np rel_nth_update [OF d(1) g(2)] rel_entries_nth [OF d(1)]
      by (simp add: reliable_mark_active_incoming_def)
    have "rcv_ok msg k (rel_update rel i ?e2)"
      using a fits len cap g(5) True w by (intro rcv_ok_update [OF r(1) g(2)]) auto
    then show ?thesis
      using True rd(1) g(1) at copy act by (auto simp: control_receive_def)
  qed
qed

lemma control_deliver_ok:
  assumes r: "rcv_ok msg k rel" and k: "k < 2 ^ 31"
  shows "\<exists>out rel'. control_deliver rel = Some (out, rel') \<and>
    (case out of None \<Rightarrow> rel' = rel | Some p \<Rightarrow> p = msg k \<and> rcv_ok msg (Suc k) rel')"
proof (cases "reliable_get_buf_sequenced rel")
  case None
  then show ?thesis by (simp add: control_deliver_def)
next
  case (Some i)
  note d = rcv_okD [OF r]
  have i: "i < rel_count rel" "e_active (rl_array rel ! i)" "e_packet_id (rl_array rel ! i) = word_of_nat k"
    using first_index_Some [OF Some [unfolded reliable_get_buf_sequenced_def]] rel_entries_nth [OF d(1)] d(3)
    by auto
  let ?e = "(rl_array rel ! i)\<lparr>e_active := False\<rparr>"
  let ?rel = "(rel_update rel i ?e)\<lparr>rl_packet_id := word_of_nat k + 1\<rparr>"
  have del: "reliable_mark_deleted rel i True = Some ?rel"
    using i rel_entries_nth(1) [OF d(1)] by (simp add: reliable_mark_deleted_def)
  have u: "unat (word_of_nat k :: u32) = k" using k by (simp add: unat_of_nat)
  have out: "buf_content (e_buf (rl_array rel ! i)) = msg k"
    using d(5) [OF i(1,2)] i(3) u by simp
  have e: "buf_ok (e_buf ?e)" "rl_offset rel \<le> b_capacity (e_buf ?e)"
    using d(1) i(1) rel_entries_nth [OF d(1)] by (auto simp: rel_ok_def all_set_conv_all_nth)
  have shrink: "e_packet_id (rl_array rel ! j) - (word_of_nat k + 1) < word_of_int (rl_size rel)"
    if j: "j < rel_count rel" "e_active (rl_array rel ! j)" "j \<noteq> i" for j
  proof -
    let ?w = "e_packet_id (rl_array rel ! j) - word_of_nat k"
    have "e_packet_id (rl_array rel ! j) \<noteq> word_of_nat k"
      using d(2) i j unfolding rel_distinct_def by metis
    then have "?w \<noteq> 0" by simp
    then have "?w - 1 \<le> ?w" by (rule word_minus_one_le)
    moreover have "?w < word_of_int (rl_size rel)" using d(4) [OF j(1,2)] d(3) by simp
    ultimately have "?w - 1 < word_of_int (rl_size rel)" by (rule le_less_trans)
    then show ?thesis by (simp add: algebra_simps)
  qed
  have "rcv_ok msg (Suc k) ?rel"
    unfolding rcv_ok_def
  proof (intro conjI allI impI)
    show "rel_ok ?rel" by (rule rel_ok_update(2) [OF d(1) e])
    have "rel_distinct (rel_update rel i ?e)"
      using d(2) by (intro rel_distinct_update [OF _ d(1) i(1)]) auto
    then show "rel_distinct ?rel" by (simp add: rel_distinct_def)
    show "rl_packet_id ?rel = word_of_nat (Suc k)" by simp
  next
    fix j assume j: "j < rel_count ?rel" "e_active (rl_array ?rel ! j)"
    then have j': "j < rel_count rel" "j \<noteq> i" "e_active (rl_array rel ! j)" "rl_array ?rel ! j = rl_array rel ! j"
      using rel_nth_update [OF d(1) i(1), of ?e j] by (auto split: if_splits)
    show "e_packet_id (rl_array ?rel ! j) - rl_packet_id ?rel < word_of_int (rl_size ?rel)"
      using shrink [OF j'(1,3,2)] unfolding j'(4) by simp
    show "buf_content (e_buf (rl_array ?rel ! j)) = msg (unat (e_packet_id (rl_array ?rel ! j)))"
      unfolding j'(4) by (rule d(5) [OF j'(1,3)])
  qed
  then show ?thesis
    using Some del out by (simp add: control_deliver_def)
qed

text \<open>
  A full receive buffer holds the next packet: its \<open>size\<close> packets are different and in a
  window of \<open>size\<close> numbers.
\<close>

lemma rcv_full_has_next:
  assumes r: "rcv_ok msg k rel" and full: "\<not> reliable_can_get rel"
  shows "reliable_get_buf_sequenced rel \<noteq> None"
proof -
  note d = rcv_okD [OF r]
  let ?n = "rel_count rel" and ?f = "\<lambda>i. unat (e_packet_id (rl_array rel ! i) - rl_packet_id rel)"
  have act: "e_active (rl_array rel ! i)" if "i < ?n" for i
    using full that by (auto simp: reliable_can_get_def list_ex_iff rel_entries_all_ex [OF d(1)])
  have size: "0 < ?n" "unat (word_of_int (rl_size rel) :: u32) = ?n"
    using d(1) unat_word_of_int_nonneg [of "rl_size rel", where 'a=32]
    by (auto simp: rel_ok_def RELIABLE_CAPACITY_def)
  have inj: "inj_on ?f {..<?n}"
  proof (rule inj_onI)
    fix i j assume ij: "i \<in> {..<?n}" "j \<in> {..<?n}" "?f i = ?f j"
    then have "e_packet_id (rl_array rel ! i) = e_packet_id (rl_array rel ! j)"
      by (metis word_unat_eq_iff diff_add_cancel)
    then show "i = j" using d(2) ij(1,2) act unfolding rel_distinct_def by auto
  qed
  have "?f ` {..<?n} \<subseteq> {..<?n}"
    using d(4) act size(2) by (auto simp: word_less_nat_alt)
  then have "?f ` {..<?n} = {..<?n}"
    by (intro card_subset_eq) (simp_all add: card_image [OF inj])
  then obtain i where i: "i < ?n" "?f i = 0" using size(1) by (metis (no_types, lifting) imageE lessThan_iff)
  then have "e_packet_id (rl_array rel ! i) = rl_packet_id rel"
    by (simp add: unat_eq_0)
  then have "\<exists>j < ?n. e_active (rl_array rel ! j) \<and> e_packet_id (rl_array rel ! j) = rl_packet_id rel"
    using i(1) act by blast
  then have "\<exists>e \<in> set (rel_entries rel). e_active e \<and> e_packet_id e = rl_packet_id rel"
    by (simp only: rel_entries_all_ex(2) [OF d(1)])
  then show ?thesis
    unfolding reliable_get_buf_sequenced_def first_index_None by blast
qed

section \<open>The sending end\<close>

text \<open>
  The sender, when \<open>sent\<close> is what it was given: every packet it keeps is one of these, behind
  its number.
\<close>

definition snd_ok :: "bytes list \<Rightarrow> reliable \<Rightarrow> bool" where
  "snd_ok sent rel \<longleftrightarrow> rel_ok rel \<and> rel_distinct rel \<and> rl_packet_id rel = word_of_nat (length sent) \<and>
     (\<forall>i < rel_count rel. e_active (rl_array rel ! i) \<longrightarrow>
        unat (e_packet_id (rl_array rel ! i)) < length sent \<and>
        buf_content (e_buf (rl_array rel ! i)) =
          u32_bytes (e_packet_id (rl_array rel ! i)) @ sent ! unat (e_packet_id (rl_array rel ! i)))"

lemma snd_okD:
  assumes "snd_ok sent rel"
  shows "rel_ok rel" "rel_distinct rel" "rl_packet_id rel = word_of_nat (length sent)"
    "i < rel_count rel \<Longrightarrow> e_active (rl_array rel ! i) \<Longrightarrow>
       unat (e_packet_id (rl_array rel ! i)) < length sent \<and>
       buf_content (e_buf (rl_array rel ! i)) =
         u32_bytes (e_packet_id (rl_array rel ! i)) @ sent ! unat (e_packet_id (rl_array rel ! i))"
  using assms by (auto simp: snd_ok_def)

text \<open>Steps that only release entries or move timers.\<close>

lemma snd_ok_keep:
  assumes s: "snd_ok sent rel"
    and same: "rl_size rel' = rl_size rel" "rl_packet_id rel' = rl_packet_id rel" "rl_offset rel' = rl_offset rel"
      "length (rl_array rel') = length (rl_array rel)"
    and keep: "\<And>i. i < rel_count rel \<Longrightarrow> (e_active (rl_array rel' ! i) \<longrightarrow> e_active (rl_array rel ! i)) \<and>
      e_packet_id (rl_array rel' ! i) = e_packet_id (rl_array rel ! i) \<and>
      e_buf (rl_array rel' ! i) = e_buf (rl_array rel ! i)"
  shows "snd_ok sent rel'"
proof -
  note d = snd_okD [OF s]
  have nth: "rel_entries rel' ! i = rl_array rel' ! i" if "i < rel_count rel" for i
    using that same by (simp add: rel_entries_def)
  have len: "length (rel_entries rel') = rel_count rel"
    using rel_entries_nth(2) [OF d(1)] same by (simp add: rel_entries_def)
  have "\<forall>i < rel_count rel. buf_ok (e_buf (rl_array rel ! i)) \<and> rl_offset rel \<le> b_capacity (e_buf (rl_array rel ! i))"
    using d(1) rel_entries_all_ex(1) [OF d(1), of "\<lambda>e. buf_ok (e_buf e) \<and> rl_offset rel \<le> b_capacity (e_buf e)"]
    by (simp add: rel_ok_def)
  then have "rel_ok rel'"
    using d(1) same keep nth len by (auto simp: rel_ok_def all_set_conv_all_nth)
  moreover have "rel_distinct rel'"
    using d(2) keep same(1) by (auto simp: rel_distinct_def)
  ultimately show ?thesis
    using d(3,4) keep same by (auto simp: snd_ok_def)
qed

lemma reliable_purge_one_ok: "snd_ok sent rel \<Longrightarrow> snd_ok sent (reliable_purge_one rel pid)"
  unfolding reliable_purge_one_def
  by (auto split: option.splits intro!: snd_ok_keep [of sent rel] simp: nth_list_update_if split: if_splits)

lemma reliable_send_purge_ok: "snd_ok sent rel \<Longrightarrow> snd_ok sent (reliable_send_purge rel ack)"
proof -
  have "snd_ok sent rel \<Longrightarrow> snd_ok sent (foldl reliable_purge_one rel pids)" for pids
    by (induction pids arbitrary: rel) (auto intro: reliable_purge_one_ok)
  then show "snd_ok sent rel \<Longrightarrow> snd_ok sent (reliable_send_purge rel ack)"
    by (simp add: reliable_send_purge_def)
qed

lemma reliable_schedule_now_ok: "snd_ok sent rel \<Longrightarrow> snd_ok sent (reliable_schedule_now rel now)"
proof -
  assume s: "snd_ok sent rel"
  note n = rel_entries_nth [OF snd_okD(1) [OF s]]
  show ?thesis
  proof (rule snd_ok_keep [OF s])
    fix i assume i: "i < rel_count rel"
    have "rl_array (reliable_schedule_now rel now) ! i = (if e_active (rl_array rel ! i)
        then (rl_array rel ! i)\<lparr>e_next_try := now, e_timeout := rl_initial_timeout rel\<rparr> else rl_array rel ! i)"
      using i n(1) n(3) [OF i] by (simp add: reliable_schedule_now_def nth_append)
    then show "(e_active (rl_array (reliable_schedule_now rel now) ! i) \<longrightarrow> e_active (rl_array rel ! i)) \<and>
      e_packet_id (rl_array (reliable_schedule_now rel now) ! i) = e_packet_id (rl_array rel ! i) \<and>
      e_buf (rl_array (reliable_schedule_now rel now) ! i) = e_buf (rl_array rel ! i)"
      by simp
  qed (use n(1,2) in \<open>simp_all add: reliable_schedule_now_def\<close>)
qed

lemma reliable_best_ok:
  assumes "reliable_best es k now best = Some (i, pid)"
  shows "best = Some (i, pid) \<or> (k \<le> i \<and> i < k + length es \<and> e_active (es ! (i - k)) \<and>
    e_next_try (es ! (i - k)) \<le> now \<and> e_packet_id (es ! (i - k)) = pid)"
  using assms
proof (induction es arbitrary: k best)
  case (Cons e es)
  let ?b = "if e_active e \<and> now \<ge> e_next_try e
        then (case best of None \<Rightarrow> Some (k, e_packet_id e)
              | Some (j, p) \<Rightarrow> if reliable_pid_min (e_packet_id e) p then Some (k, e_packet_id e) else best)
        else best"
  from Cons.IH [of "Suc k" ?b] Cons.prems
  have "?b = Some (i, pid) \<or> (Suc k \<le> i \<and> i < Suc k + length es \<and> e_active (es ! (i - Suc k)) \<and>
    e_next_try (es ! (i - Suc k)) \<le> now \<and> e_packet_id (es ! (i - Suc k)) = pid)" by simp
  then show ?case
    by (auto simp: nth_Cons' split: if_splits option.splits prod.splits)
qed simp

lemma reliable_best_None:
  "reliable_best es k now best = None \<longleftrightarrow>
     best = None \<and> (\<forall>e \<in> set es. \<not> (e_active e \<and> e_next_try e \<le> now))"
  by (induction es arbitrary: k best) (auto split: option.splits)

lemma control_transmit_ok:
  assumes s: "snd_ok sent rel"
  shows "\<exists>out rel'. control_transmit rel now = Some (out, rel') \<and> snd_ok sent rel' \<and>
    (case out of None \<Rightarrow> True
     | Some p \<Rightarrow> \<exists>pid. unat pid < length sent \<and> p = u32_bytes pid @ sent ! unat pid)"
proof (cases "reliable_can_send rel now")
  case False
  with s show ?thesis by (simp add: control_transmit_def)
next
  case True
  note d = snd_okD [OF s] and n = rel_entries_nth [OF snd_okD(1) [OF s]]
  have "reliable_best (rel_entries rel) 0 now None \<noteq> None"
    using True by (auto simp: reliable_can_send_def reliable_best_None filter_empty_conv)
  then obtain i pid where b: "reliable_best (rel_entries rel) 0 now None = Some (i, pid)" by force
  have i: "i < rel_count rel" "e_active (rl_array rel ! i)" "e_packet_id (rl_array rel ! i) = pid"
    using reliable_best_ok [OF b] n by auto
  let ?e = "rl_array rel ! i"
  let ?rel = "rel_update rel i (?e\<lparr>e_next_try := now + e_timeout ?e, e_timeout := e_timeout ?e * 2\<rparr>)"
  have send: "reliable_send rel now = (Some (i, e_opcode ?e), ?rel)"
    using b by (simp add: reliable_send_def Let_def)
  have "snd_ok sent ?rel"
    by (rule snd_ok_keep [OF s]) (auto simp: nth_list_update_if)
  moreover have "e_buf (rl_array ?rel ! i) = e_buf ?e"
    using rel_nth_update [OF d(1) i(1)] by simp
  ultimately show ?thesis
    using True send d(4) [OF i(1,2)] i(3) by (auto simp: control_transmit_def)
qed

lemma reliable_get_buf_output_sequenced_cases:
  "reliable_get_buf_output_sequenced rel = Some (None, rel) \<or>
   reliable_get_buf_output_sequenced rel = reliable_get_buf rel"
  by (auto simp: reliable_get_buf_output_sequenced_def split: option.splits)

lemma control_submit_ok:
  assumes s: "snd_ok sent rel" and len: "length sent < 2 ^ 31" and off: "4 \<le> rl_offset rel"
  shows "\<exists>ok rel'. control_submit rel p op = Some (ok, rel') \<and> rl_offset rel' = rl_offset rel \<and>
    snd_ok (if ok then sent @ [p] else sent) rel'"
proof (cases "reliable_get_buf_output_sequenced rel = Some (None, rel)")
  case True
  with s show ?thesis by (auto simp: control_submit_def)
next
  case False
  note d = snd_okD [OF s]
  from False have g0: "reliable_get_buf_output_sequenced rel = reliable_get_buf rel"
    "reliable_get_buf rel \<noteq> Some (None, rel)"
    using reliable_get_buf_output_sequenced_cases by metis+
  obtain i b where g: "reliable_get_buf rel = Some (Some i, rel_update rel i ((rl_array rel ! i)\<lparr>e_buf := b\<rparr>))"
    "i < rel_count rel" "\<not> e_active (rl_array rel ! i)" "buf_ok b" "buf_content b = []"
    "b_offset b = rl_offset rel" "b_capacity b = b_capacity (e_buf (rl_array rel ! i))"
    using reliable_get_buf_ok [OF d(1)] g0(2) by (auto split: if_splits)
  let ?e = "(rl_array rel ! i)\<lparr>e_buf := b\<rparr>"
  have at: "rl_array (rel_update rel i ?e) ! i = ?e"
    using rel_nth_update [OF d(1) g(2)] by simp
  have cap: "rl_offset rel \<le> b_capacity b"
    using d(1) g(2,7) rel_entries_nth [OF d(1)] by (auto simp: rel_ok_def all_set_conv_all_nth)
  show ?thesis
  proof (cases "int (length p) \<le> buf_room b")
    case False
    then have "buf_write b p = Some (False, b)" by (simp add: buf_write_ok [OF g(4)])
    moreover have "snd_ok sent (rel_update rel i ?e)"
    proof -
      have "rel_ok (rel_update rel i ?e)"
        using g(4) cap by (intro rel_ok_update(1) [OF d(1)]) simp_all
      moreover have "rel_distinct (rel_update rel i ?e)"
        using g(3) by (intro rel_distinct_update [OF d(2,1) g(2)]) auto
      ultimately show ?thesis
        using d(3,4) g(3) by (auto simp: snd_ok_def rel_nth_update [OF d(1) g(2)])
    qed
    ultimately show ?thesis using g0 g(1) at by (auto simp: control_submit_def)
  next
    case True
    let ?b = "buf_append b p" and ?pid = "word_of_nat (length sent) :: packet_id_type"
    note a = buf_append_ok [OF g(4) True]
    have head: "int (length (u32_bytes ?pid)) \<le> b_offset ?b" using a(3) g(6) off by simp
    note h = buf_push_ok [OF a(1) head]
    let ?b2 = "buf_push ?b (u32_bytes ?pid)"
    let ?e2 = "?e\<lparr>e_packet_id := ?pid, e_buf := ?b2, e_active := True, e_opcode := op,
      e_next_try := 0, e_timeout := rl_initial_timeout rel\<rparr>"
    let ?rel = "(rel_update rel i ?e2)\<lparr>rl_packet_id := ?pid + 1\<rparr>"
    have upd: "rel_update (r\<lparr>rl_packet_id := q\<rparr>) i x = (rel_update r i x)\<lparr>rl_packet_id := q\<rparr>" for r q x
      by (simp add: rel_update_def)
    have act: "reliable_mark_active_outgoing (rel_update rel i (?e\<lparr>e_buf := ?b\<rparr>)) i op = Some ?rel"
      using g(2) rel_nth_update [OF d(1) g(2)] rel_entries_nth [OF d(1)] d(3) head
      by (simp add: reliable_mark_active_outgoing_def buf_write_prepend_ok [OF a(1)] upd Let_def)
    have u: "unat ?pid = length sent" using len by (simp add: unat_of_nat)
    have new: "e_packet_id (rl_array rel ! j) \<noteq> ?pid" if "j < rel_count rel" "e_active (rl_array rel ! j)" for j
      using d(4) [OF that] u by auto
    have old: "unat (e_packet_id (rl_array rel ! j)) < Suc (length sent) \<and>
        buf_content (e_buf (rl_array rel ! j)) =
          u32_bytes (e_packet_id (rl_array rel ! j)) @ (sent @ [p]) ! unat (e_packet_id (rl_array rel ! j))"
      if "j < rel_count rel" "e_active (rl_array rel ! j)" for j
      using d(4) [OF that] by (simp add: nth_append)
    have "rel_ok ?rel"
      using h(1,4) a(4) cap by (intro rel_ok_update(2) [OF d(1)]) simp_all
    moreover have "rel_distinct (rel_update rel i ?e2)"
      using new by (intro rel_distinct_update [OF d(2,1) g(2)]) auto
    then have "rel_distinct ?rel" by (simp add: rel_distinct_def)
    ultimately have "snd_ok (sent @ [p]) ?rel"
      using old h(2) a(2) g(5) u
      by (auto simp: snd_ok_def rel_nth_update [OF d(1) g(2)])
    moreover have "buf_write b p = Some (True, ?b)" using True by (simp add: buf_write_ok [OF g(4)])
    ultimately show ?thesis using g0(1) g(1) at act by (auto simp: control_submit_def)
  qed
qed

section \<open>Sender, network, receiver\<close>

text \<open>
  \<open>ch_net\<close> is every packet the sender ever put on the network: the network may lose a packet,
  repeat it, and hand over packets in any order. Acknowledgements that reach the sender are
  arbitrary, whatever the network or an attacker made of them.
\<close>

record channel =
  ch_snd :: reliable
  ch_sent :: "bytes list"
  ch_net :: "bytes set"
  ch_rcv :: reliable
  ch_ack :: reliable_ack
  ch_delivered :: "bytes list"

inductive chan_step :: "channel \<Rightarrow> channel \<Rightarrow> bool" where
  submit: "control_submit (ch_snd c) p op = Some (ok, snd') \<Longrightarrow>
     chan_step c (c\<lparr>ch_snd := snd', ch_sent := (if ok then ch_sent c @ [p] else ch_sent c)\<rparr>)"
| transmit: "control_transmit (ch_snd c) now = Some (out, snd') \<Longrightarrow>
     chan_step c (c\<lparr>ch_snd := snd', ch_net := ch_net c \<union> set_option out\<rparr>)"
| acked: "chan_step c (c\<lparr>ch_snd := reliable_send_purge (ch_snd c) ack\<rparr>)"
| schedule: "chan_step c (c\<lparr>ch_snd := reliable_schedule_now (ch_snd c) now\<rparr>)"
| receive: "buf_ok b \<Longrightarrow> buf_content b \<in> ch_net c \<Longrightarrow>
     control_receive (ch_rcv c) (ch_ack c) b op = Some (ok, rcv', ack') \<Longrightarrow>
     chan_step c (c\<lparr>ch_rcv := rcv', ch_ack := ack'\<rparr>)"
| ack_written: "reliable_ack_write (ch_ack c) b sid mx prep = Some (ok, ack', b') \<Longrightarrow>
     chan_step c (c\<lparr>ch_ack := ack'\<rparr>)"
| deliver: "control_deliver (ch_rcv c) = Some (out, rcv') \<Longrightarrow>
     chan_step c (c\<lparr>ch_rcv := rcv',
       ch_delivered := (case out of None \<Rightarrow> ch_delivered c | Some p \<Rightarrow> ch_delivered c @ [p])\<rparr>)"

inductive_cases chan_stepE: "chan_step c c'"

inductive chan_reach :: "channel \<Rightarrow> channel \<Rightarrow> bool" where
  start: "chan_reach c c"
| step: "chan_reach c c' \<Longrightarrow> chan_step c' c'' \<Longrightarrow> chan_reach c c''"

text \<open>Both ends fresh from \<open>reliable_init\<close>.\<close>

definition chan_init :: "int \<Rightarrow> int \<Rightarrow> int \<Rightarrow> int \<Rightarrow> channel option" where
  "chan_init buf_size offset send_size rec_size =
     do { s \<leftarrow> reliable_init buf_size offset send_size True;
          r \<leftarrow> reliable_init buf_size offset rec_size False;
          Some \<lparr>ch_snd = s, ch_sent = [], ch_net = {}, ch_rcv = r, ch_ack = ack_none, ch_delivered = []\<rparr> }"

lemma reliable_init_entries_ok:
  "reliable_init_entries n buf_size offset = Some es \<Longrightarrow> length es = n \<and>
     (\<forall>e \<in> set es. \<not> e_active e \<and> buf_ok (e_buf e) \<and> b_capacity (e_buf e) = buf_size \<and> 0 \<le> offset \<and> offset \<le> buf_size)"
proof (induction n arbitrary: es)
  case (Suc n)
  then obtain b b' es' where "alloc_buf buf_size = Some b" "buf_init b offset = (True, b')"
    "reliable_init_entries n buf_size offset = Some es'" "es = reliable_entry_zero\<lparr>e_buf := b'\<rparr> # es'"
    by (auto split: Option.bind_splits prod.splits)
  moreover from this(1,2) have "buf_ok b'" "b_capacity b' = buf_size" "0 \<le> offset" "offset \<le> buf_size"
    by (auto simp: alloc_buf_def buf_init_def buf_ok_def buf_size_valid_def split: if_splits)
  ultimately show ?case using Suc.IH by (auto simp: reliable_entry_zero_def)
qed simp

lemma reliable_init_ok:
  assumes "reliable_init buf_size offset n hold = Some rel"
  shows "rel_ok rel" "rl_packet_id rel = 0" "rl_offset rel = offset" "0 \<le> offset"
    "i < rel_count rel \<Longrightarrow> \<not> e_active (rl_array rel ! i)"
    "i < rel_count rel \<Longrightarrow> b_capacity (e_buf (rl_array rel ! i)) = buf_size"
proof -
  obtain es where es: "reliable_init_entries (nat n) buf_size offset = Some es" "0 < n" "n \<le> RELIABLE_CAPACITY"
    and rel: "rel = \<lparr>rl_size = n, rl_initial_timeout = 0, rl_packet_id = 0, rl_offset = offset, rl_hold = hold,
                rl_array = es @ replicate (nat (RELIABLE_CAPACITY - n)) reliable_entry_zero\<rparr>"
    using assms by (auto simp: reliable_init_def split: Option.bind_splits)
  note e = reliable_init_entries_ok [OF es(1)]
  have ent: "rel_entries rel = es" using e by (simp add: rel_entries_def rel)
  obtain x where "x \<in> set es" using e es(2) by (cases es) auto
  with e have "0 \<le> offset" by auto
  then show "rel_ok rel" "rl_packet_id rel = 0" "rl_offset rel = offset" "0 \<le> offset"
    using e es by (auto simp: rel_ok_def ent) (simp_all add: rel RELIABLE_CAPACITY_def)
  show "i < rel_count rel \<Longrightarrow> \<not> e_active (rl_array rel ! i)"
    "i < rel_count rel \<Longrightarrow> b_capacity (e_buf (rl_array rel ! i)) = buf_size"
    using e by (auto simp: rel nth_append)
qed

text \<open>The invariant. What the stream holds beyond what was sent is open.\<close>

definition stream_of :: "bytes list \<Rightarrow> (nat \<Rightarrow> bytes) \<Rightarrow> bool" where
  "stream_of sent msg \<longleftrightarrow> (\<forall>n < length sent. msg n = sent ! n)"

definition chan_inv :: "channel \<Rightarrow> bool" where
  "chan_inv c \<longleftrightarrow> snd_ok (ch_sent c) (ch_snd c) \<and> 4 \<le> rl_offset (ch_snd c) \<and>
     (\<forall>x \<in> ch_net c. \<exists>pid. unat pid < length (ch_sent c) \<and> x = u32_bytes pid @ ch_sent c ! unat pid) \<and>
     (\<forall>msg. stream_of (ch_sent c) msg \<longrightarrow> rcv_ok msg (length (ch_delivered c)) (ch_rcv c)) \<and>
     (\<exists>rest. ch_sent c = ch_delivered c @ rest)"

lemma chan_invD:
  assumes "chan_inv c"
  shows "snd_ok (ch_sent c) (ch_snd c)" "4 \<le> rl_offset (ch_snd c)"
    "x \<in> ch_net c \<Longrightarrow> \<exists>pid. unat pid < length (ch_sent c) \<and> x = u32_bytes pid @ ch_sent c ! unat pid"
    "stream_of (ch_sent c) msg \<Longrightarrow> rcv_ok msg (length (ch_delivered c)) (ch_rcv c)"
    "\<exists>rest. ch_sent c = ch_delivered c @ rest"
  using assms unfolding chan_inv_def by simp_all

lemma chan_init_inv:
  assumes "chan_init buf_size offset n m = Some c" "4 \<le> offset"
  shows "chan_inv c"
proof -
  obtain s r where i: "reliable_init buf_size offset n True = Some s" "reliable_init buf_size offset m False = Some r"
    and c: "c = \<lparr>ch_snd = s, ch_sent = [], ch_net = {}, ch_rcv = r, ch_ack = ack_none, ch_delivered = []\<rparr>"
    using assms(1) by (auto simp: chan_init_def split: Option.bind_splits)
  note s = reliable_init_ok [OF i(1)] and r = reliable_init_ok [OF i(2)]
  show ?thesis
    using s r assms(2) by (auto simp: chan_inv_def c snd_ok_def rcv_ok_def rel_distinct_def)
qed

lemma reliable_send_purge_offset: "rl_offset (reliable_send_purge rel ack) = rl_offset rel"
proof -
  have "rl_offset (foldl reliable_purge_one rel pids) = rl_offset rel" for pids
    by (induction pids arbitrary: rel) (auto simp: reliable_purge_one_def split: option.splits)
  then show ?thesis by (simp add: reliable_send_purge_def)
qed

lemma control_transmit_offset:
  "control_transmit rel now = Some (out, rel') \<Longrightarrow> rl_offset rel' = rl_offset rel"
  by (auto simp: control_transmit_def reliable_send_def Let_def split: if_splits option.splits prod.splits)

lemma chan_step_inv:
  assumes "chan_step c c'" "chan_inv c" "length (ch_sent c') < 2 ^ 31"
  shows "chan_inv c'"
  using assms
proof (cases rule: chan_step.cases)
  case (submit p op ok snd')
  have len: "length (ch_sent c) < 2 ^ 31" using assms(3) submit(1) by (auto split: if_splits)
  have s: "snd_ok (if ok then ch_sent c @ [p] else ch_sent c) snd'" "rl_offset snd' = rl_offset (ch_snd c)"
    using control_submit_ok [OF _ len, of "ch_snd c" p op] assms(2) submit(2) by (auto simp: chan_inv_def)
  have str: "stream_of (ch_sent c @ [p]) msg \<Longrightarrow> stream_of (ch_sent c) msg" for msg
    by (auto simp: stream_of_def nth_append)
  show ?thesis
  proof (cases ok)
    case True
    have net: "\<exists>pid. unat pid < Suc (length (ch_sent c)) \<and> x = u32_bytes pid @ (ch_sent c @ [p]) ! unat pid"
      if x: "x \<in> ch_net c" for x
    proof -
      obtain pid where "unat pid < length (ch_sent c)" "x = u32_bytes pid @ ch_sent c ! unat pid"
        using chan_invD(3) [OF assms(2) x] by blast
      then show ?thesis by (intro exI [of _ pid]) (simp add: nth_append)
    qed
    obtain rest where rest: "ch_sent c = ch_delivered c @ rest"
      using chan_invD(5) [OF assms(2)] by blast
    have "ch_sent c @ [p] = ch_delivered c @ (rest @ [p])" using rest by simp
    then have "\<exists>rest. ch_sent c @ [p] = ch_delivered c @ rest" by blast
    moreover have "c' = c\<lparr>ch_snd := snd', ch_sent := ch_sent c @ [p]\<rparr>" using submit(1) True by simp
    ultimately show ?thesis
      using s True net chan_invD(2) [OF assms(2)] chan_invD(4) [OF assms(2) str] by (simp add: chan_inv_def)
  next
    case False
    with assms(2) s submit(1) show ?thesis by (auto simp: chan_inv_def)
  qed
next
  case (transmit now out snd')
  have "snd_ok (ch_sent c) snd'" "rl_offset snd' = rl_offset (ch_snd c)"
    "\<forall>p. out = Some p \<longrightarrow> (\<exists>pid. unat pid < length (ch_sent c) \<and> p = u32_bytes pid @ ch_sent c ! unat pid)"
    using control_transmit_ok [of "ch_sent c" "ch_snd c" now] control_transmit_offset [OF transmit(2)]
      assms(2) transmit(2) by (auto simp: chan_inv_def split: option.splits)
  then show ?thesis using assms(2) transmit(1) by (auto simp: chan_inv_def)
next
  case (acked ack)
  then show ?thesis
    using assms(2) reliable_send_purge_ok reliable_send_purge_offset by (auto simp: chan_inv_def)
next
  case (schedule now)
  moreover have "rl_offset (reliable_schedule_now (ch_snd c) now) = rl_offset (ch_snd c)"
    by (simp add: reliable_schedule_now_def)
  ultimately show ?thesis
    using assms(2) reliable_schedule_now_ok by (auto simp: chan_inv_def)
next
  case (receive b op ok rcv' ack')
  obtain pid where pid: "unat pid < length (ch_sent c)" "buf_content b = u32_bytes pid @ ch_sent c ! unat pid"
    using chan_invD(3) [OF assms(2) receive(3)] by blast
  have "rcv_ok msg (length (ch_delivered c)) rcv'" if m: "stream_of (ch_sent c) msg" for msg
  proof -
    have "rcv_ok msg (length (ch_delivered c)) (ch_rcv c)" "length (ch_delivered c) < 2 ^ 31"
      using assms(2,3) m receive(1) by (auto simp: chan_inv_def)
    moreover have "buf_content b = u32_bytes pid @ msg (unat pid)"
      using pid m by (simp add: stream_of_def)
    ultimately show ?thesis
      using control_receive_ok [OF _ _ receive(2), of msg _ "ch_rcv c" pid "ch_ack c" op] receive(4) by fastforce
  qed
  then show ?thesis using assms(2) receive(1) by (auto simp: chan_inv_def)
next
  case (ack_written b sid mx prep ok ack' b')
  then show ?thesis using assms(2) by (auto simp: chan_inv_def)
next
  case (deliver out rcv')
  let ?k = "length (ch_delivered c)"
  obtain rest where rest: "ch_sent c = ch_delivered c @ rest"
    using chan_invD(5) [OF assms(2)] by blast
  have k: "?k < 2 ^ 31" using assms(3) deliver(1) rest by simp
  have step: "case out of None \<Rightarrow> rcv' = ch_rcv c | Some p \<Rightarrow> p = msg ?k \<and> rcv_ok msg (Suc ?k) rcv'"
    if "stream_of (ch_sent c) msg" for msg
    using control_deliver_ok [OF _ k, of msg "ch_rcv c"] that assms(2) deliver(2) by (auto simp: chan_inv_def)
  show ?thesis
  proof (cases out)
    case None
    have "rcv' = ch_rcv c"
      using step [of "\<lambda>n. ch_sent c ! n"] None by (simp add: stream_of_def)
    then show ?thesis using assms(2) None deliver(1) by (auto simp: chan_inv_def)
  next
    case (Some p)
    have lt: "?k < length (ch_sent c)"
    proof (rule ccontr)
      assume "\<not> ?k < length (ch_sent c)"
      moreover have "p = (\<lambda>n. if n < length (ch_sent c) then ch_sent c ! n else p @ [0]) ?k"
        using step [of "\<lambda>n. if n < length (ch_sent c) then ch_sent c ! n else p @ [0]"] Some
        by (simp add: stream_of_def)
      ultimately show False by simp
    qed
    have p: "p = ch_sent c ! ?k"
      using step [of "\<lambda>n. ch_sent c ! n"] Some by (simp add: stream_of_def)
    obtain q rest' where "rest = q # rest'" using lt rest by (cases rest) auto
    then have "ch_sent c = (ch_delivered c @ [p]) @ rest'" using rest p by simp
    then show ?thesis
      using assms(2) Some step deliver(1) unfolding chan_inv_def by auto
  qed
qed

lemma chan_step_sent:
  "chan_step c c' \<Longrightarrow> length (ch_sent c) \<le> length (ch_sent c')"
  by (auto elim: chan_stepE)

lemma chan_reach_inv:
  "chan_reach c c' \<Longrightarrow> chan_inv c \<Longrightarrow> length (ch_sent c') < 2 ^ 31 \<Longrightarrow> chan_inv c'"
proof (induction rule: chan_reach.induct)
  case (step c c' c'')
  then show ?case using chan_step_inv [of c' c''] chan_step_sent [of c' c''] by force
qed simp

text \<open>A concrete run: one packet is sent, transmitted, received and handed on.\<close>

definition demo_snd :: "reliable \<times> bytes \<times> reliable" where
  "demo_snd =
     (let s0 = the (reliable_init 24 8 2 True);
          s1 = snd (the (control_submit s0 [1, 2] 4));
          s2 = reliable_schedule_now s1 9;
          (out, s3) = the (control_transmit s2 9)
      in (s1, the out, s3))"

definition demo_rcv :: "buffer \<times> (bool \<times> reliable \<times> reliable_ack) \<times> (bytes option \<times> reliable)" where
  "demo_rcv =
     (let r0 = the (reliable_init 24 8 2 False);
          b = snd (the (buf_write (the (alloc_buf 24)) (fst (snd demo_snd))));
          r1 = the (control_receive r0 ack_none b 4)
      in (b, r1, the (control_deliver (fst (snd r1)))))"

lemma demo_reach:
  "\<exists>c0 c. chan_init 24 8 2 2 = Some c0 \<and> chan_reach c0 c \<and> ch_sent c = [[1, 2]] \<and> ch_delivered c = [[1, 2]]"
proof -
  define s0 where "s0 = the (reliable_init 24 8 2 True)"
  define r0 where "r0 = the (reliable_init 24 8 2 False)"
  define s1 where "s1 = fst demo_snd"
  define pkt where "pkt = fst (snd demo_snd)"
  define s3 where "s3 = snd (snd demo_snd)"
  define b where "b = fst demo_rcv"
  define r1 where "r1 = fst (snd demo_rcv)"
  define r2 where "r2 = snd (snd demo_rcv)"
  have init: "reliable_init 24 8 2 True = Some s0" "reliable_init 24 8 2 False = Some r0"
    unfolding s0_def r0_def by code_simp+
  have snd: "control_submit s0 [1, 2] 4 = Some (True, s1)"
    "control_transmit (reliable_schedule_now s1 9) 9 = Some (Some pkt, s3)"
    unfolding s0_def s1_def pkt_def s3_def by code_simp+
  have rcv: "buf_ok b" "buf_content b = pkt"
    "control_receive r0 ack_none b 4 = Some (fst r1, fst (snd r1), snd (snd r1))"
    "control_deliver (fst (snd r1)) = Some (fst r2, snd r2)" "fst r2 = Some [1, 2]"
    unfolding r0_def b_def r1_def r2_def pkt_def by code_simp+
  let ?c0 = "\<lparr>ch_snd = s0, ch_sent = [], ch_net = {}, ch_rcv = r0, ch_ack = ack_none, ch_delivered = []\<rparr>"
  have "chan_reach ?c0 ?c0" by (rule start)
  from step [OF this submit [where c = ?c0, simplified, OF snd(1)]]
  have 1: "chan_reach ?c0 (?c0\<lparr>ch_snd := s1, ch_sent := [[1, 2]]\<rparr>)" by simp
  from step [OF 1 schedule [where now = 9]]
  have 2: "chan_reach ?c0 (?c0\<lparr>ch_snd := reliable_schedule_now s1 9, ch_sent := [[1, 2]]\<rparr>)" by simp
  from step [OF 2 transmit [where now = 9 and out = "Some pkt" and snd' = s3]] snd(2)
  have 3: "chan_reach ?c0 (?c0\<lparr>ch_snd := s3, ch_sent := [[1, 2]], ch_net := {pkt}\<rparr>)" by simp
  from step [OF 3 receive [OF rcv(1), where op = 4 and ok = "fst r1" and rcv' = "fst (snd r1)"
      and ack' = "snd (snd r1)"]] rcv(2,3)
  have 4: "chan_reach ?c0 (?c0\<lparr>ch_snd := s3, ch_sent := [[1, 2]], ch_net := {pkt},
      ch_rcv := fst (snd r1), ch_ack := snd (snd r1)\<rparr>)" by simp
  from step [OF 4 deliver [where out = "fst r2" and rcv' = "snd r2"]] rcv(4,5)
  have 5: "chan_reach ?c0 (?c0\<lparr>ch_snd := s3, ch_sent := [[1, 2]], ch_net := {pkt},
      ch_rcv := snd r2, ch_ack := snd (snd r1), ch_delivered := [[1, 2]]\<rparr>)" by simp
  have "chan_init 24 8 2 2 = Some ?c0" using init by (simp add: chan_init_def)
  with 5 show ?thesis by force
qed

text \<open>
  C3. The control channel delivers in order, without loss, repetition or change: whatever the
  network does with the packets and whatever acknowledgements reach the sender, what the receiver
  has handed on is a prefix of what the sender was given, for the first \<open>2 ^ 31\<close> packets.
\<close>

theorem control_channel_in_order:
  assumes "chan_init buf_size offset n m = Some c0" and "4 \<le> offset"
    and "chan_reach c0 c" and "length (ch_sent c) < 2 ^ 31"
  shows "\<exists>rest. ch_sent c = ch_delivered c @ rest"
  using chan_reach_inv [OF assms(3) chan_init_inv [OF assms(1,2)] assms(4)]
  by (simp add: chan_inv_def)

theorem control_channel_in_order_witness:
  "\<exists>c0 c. chan_init 24 8 2 2 = Some c0 \<and> chan_reach c0 c \<and> ch_delivered c = [[1, 2]] \<and>
     (\<exists>rest. ch_sent c = ch_delivered c @ rest)"
proof -
  obtain c0 c where c: "chan_init 24 8 2 2 = Some c0" "chan_reach c0 c" "ch_sent c = [[1, 2]]"
    "ch_delivered c = [[1, 2]]"
    using demo_reach by blast
  have "\<exists>rest. ch_sent c = ch_delivered c @ rest"
    by (rule control_channel_in_order [OF c(1) _ c(2)]) (simp_all add: c(3))
  with c show ?thesis by blast
qed

text \<open>
  C13. No step of the control channel aborts, and the receive buffer never clogs: in every
  state that the two ends can reach, sending, transmitting, taking any packet from the network
  and handing on run without a failing \<open>ASSERT\<close>, and when no receive buffer is free the next
  packet is there to hand on.
\<close>

theorem control_channel_no_abort:
  assumes "chan_init buf_size offset n m = Some c0" and "4 \<le> offset"
    and "chan_reach c0 c" and "length (ch_sent c) < 2 ^ 31"
  shows "control_submit (ch_snd c) p op \<noteq> None \<and> control_transmit (ch_snd c) now \<noteq> None \<and>
    (\<forall>b. buf_ok b \<and> buf_content b \<in> ch_net c \<longrightarrow> control_receive (ch_rcv c) (ch_ack c) b op \<noteq> None) \<and>
    (\<exists>out rcv'. control_deliver (ch_rcv c) = Some (out, rcv') \<and>
       (\<not> reliable_can_get (ch_rcv c) \<longrightarrow> out = Some (ch_sent c ! length (ch_delivered c))))"
proof -
  have inv: "chan_inv c"
    using chan_reach_inv [OF assms(3) chan_init_inv [OF assms(1,2)] assms(4)] .
  let ?msg = "\<lambda>n. ch_sent c ! n" and ?k = "length (ch_delivered c)"
  have s: "snd_ok (ch_sent c) (ch_snd c)" "4 \<le> rl_offset (ch_snd c)"
    and r: "rcv_ok ?msg ?k (ch_rcv c)" and k: "?k < 2 ^ 31"
    using chan_invD [OF inv] assms(4) by (auto simp: stream_of_def)
  have "control_receive (ch_rcv c) (ch_ack c) b op \<noteq> None" if b: "buf_ok b" "buf_content b \<in> ch_net c" for b
  proof -
    obtain pid where "buf_content b = u32_bytes pid @ ?msg (unat pid)"
      using chan_invD(3) [OF inv b(2)] by blast
    from control_receive_ok [OF r k b(1) this, of "ch_ack c" op] show ?thesis by auto
  qed
  moreover obtain out rcv' where d: "control_deliver (ch_rcv c) = Some (out, rcv')"
    "case out of None \<Rightarrow> rcv' = ch_rcv c | Some p \<Rightarrow> p = ?msg ?k \<and> rcv_ok ?msg (Suc ?k) rcv'"
    using control_deliver_ok [OF r k] by blast
  moreover have "out = Some (?msg ?k)" if "\<not> reliable_can_get (ch_rcv c)"
  proof -
    have "out \<noteq> None"
      using rcv_full_has_next [OF r that] d(1)
      by (auto simp: control_deliver_def split: option.splits Option.bind_splits)
    with d(2) show ?thesis by auto
  qed
  ultimately show ?thesis
    using control_submit_ok [OF s(1) assms(4) s(2), of p op] control_transmit_ok [OF s(1), of now] by auto
qed

theorem control_channel_no_abort_witness:
  "\<exists>c0 c. chan_init 24 8 2 2 = Some c0 \<and> chan_reach c0 c \<and> ch_sent c = [[1, 2]] \<and>
     control_submit (ch_snd c) [7] 4 \<noteq> None"
proof -
  obtain c0 c where c: "chan_init 24 8 2 2 = Some c0" "chan_reach c0 c" "ch_sent c = [[1, 2]]"
    using demo_reach by blast
  have "control_submit (ch_snd c) [7] 4 \<noteq> None"
    using control_channel_no_abort [OF c(1) _ c(2), of "[7]" 4] c(3) by simp
  with c show ?thesis by blast
qed

end
