(* ===== verification/Mtu.thy ===== *)
theory Mtu
  imports Buffer CInteger
begin

text \<open>
  Packet geometry, \<^verbatim>\<open>openvpn/mtu.h\<close> and \<^verbatim>\<open>mtu.c\<close>: the sizes derived from a
  frame, the head room with its alignment, and the operations that set and adjust a frame.
\<close>

section \<open>Frames\<close>

record frame =
  link_mtu :: int
  link_mtu_dynamic :: int
  extra_frame :: int
  extra_buffer :: int
  extra_tun :: int
  extra_link :: int
  align_flags :: u32
  align_adjust :: int

definition PAYLOAD_ALIGN :: int where
  "PAYLOAD_ALIGN = 4"

definition TUN_MTU_MIN :: int where
  "TUN_MTU_MIN = 100"

definition FRAME_HEADROOM_MARKER_DECRYPT :: u32 where
  "FRAME_HEADROOM_MARKER_DECRYPT = 1"

definition FRAME_HEADROOM_MARKER_FRAGMENT :: u32 where
  "FRAME_HEADROOM_MARKER_FRAGMENT = 2"

definition FRAME_HEADROOM_MARKER_READ_LINK :: u32 where
  "FRAME_HEADROOM_MARKER_READ_LINK = 4"

definition FRAME_HEADROOM_MARKER_READ_STREAM :: u32 where
  "FRAME_HEADROOM_MARKER_READ_STREAM = 8"

definition TUN_LINK_DELTA :: "frame \<Rightarrow> int" where
  "TUN_LINK_DELTA f = extra_frame f + extra_tun f"

definition TUN_MTU_SIZE :: "frame \<Rightarrow> int" where
  "TUN_MTU_SIZE f = link_mtu f - TUN_LINK_DELTA f"

definition TUN_MTU_SIZE_DYNAMIC :: "frame \<Rightarrow> int" where
  "TUN_MTU_SIZE_DYNAMIC f = link_mtu_dynamic f - TUN_LINK_DELTA f"

definition PAYLOAD_SIZE :: "frame \<Rightarrow> int" where
  "PAYLOAD_SIZE f = link_mtu f - extra_frame f"

definition PAYLOAD_SIZE_DYNAMIC :: "frame \<Rightarrow> int" where
  "PAYLOAD_SIZE_DYNAMIC f = link_mtu_dynamic f - extra_frame f"

definition EXPANDED_SIZE :: "frame \<Rightarrow> int" where
  "EXPANDED_SIZE f = link_mtu f"

definition EXPANDED_SIZE_MIN :: "frame \<Rightarrow> int" where
  "EXPANDED_SIZE_MIN f = TUN_MTU_MIN + TUN_LINK_DELTA f"

definition MAX_RW_SIZE_TUN :: "frame \<Rightarrow> int" where
  "MAX_RW_SIZE_TUN f = PAYLOAD_SIZE f"

definition MAX_RW_SIZE_LINK :: "frame \<Rightarrow> int" where
  "MAX_RW_SIZE_LINK f = EXPANDED_SIZE f + extra_link f"

definition FRAME_HEADROOM_BASE :: "frame \<Rightarrow> int" where
  "FRAME_HEADROOM_BASE f = TUN_LINK_DELTA f + extra_buffer f + extra_link f"

definition BUF_SIZE :: "frame \<Rightarrow> int" where
  "BUF_SIZE f = TUN_MTU_SIZE f + FRAME_HEADROOM_BASE f * 2"

definition frame_headroom :: "frame \<Rightarrow> u32 \<Rightarrow> int" where
  "frame_headroom f flag_mask =
     (let offset = FRAME_HEADROOM_BASE f;
          adjust = (if flag_mask AND align_flags f \<noteq> 0 then align_adjust f else 0);
          delta = (push_bit 24 PAYLOAD_ALIGN - (offset + adjust)) AND (PAYLOAD_ALIGN - 1)
      in offset + delta)"

definition FRAME_HEADROOM :: "frame \<Rightarrow> int" where
  "FRAME_HEADROOM f = frame_headroom f 0"

definition FRAME_HEADROOM_ADJ :: "frame \<Rightarrow> u32 \<Rightarrow> int" where
  "FRAME_HEADROOM_ADJ f fm = frame_headroom f fm"

definition frame_add_to_link_mtu :: "frame \<Rightarrow> int \<Rightarrow> frame" where
  "frame_add_to_link_mtu f n = f\<lparr>link_mtu := link_mtu f + n\<rparr>"

definition frame_add_to_extra_frame :: "frame \<Rightarrow> int \<Rightarrow> frame" where
  "frame_add_to_extra_frame f n = f\<lparr>extra_frame := extra_frame f + n\<rparr>"

definition frame_remove_from_extra_frame :: "frame \<Rightarrow> int \<Rightarrow> frame" where
  "frame_remove_from_extra_frame f n = f\<lparr>extra_frame := extra_frame f - n\<rparr>"

definition frame_add_to_extra_tun :: "frame \<Rightarrow> int \<Rightarrow> frame" where
  "frame_add_to_extra_tun f n = f\<lparr>extra_tun := extra_tun f + n\<rparr>"

definition frame_add_to_extra_link :: "frame \<Rightarrow> int \<Rightarrow> frame" where
  "frame_add_to_extra_link f n = f\<lparr>extra_link := extra_link f + n\<rparr>"

definition frame_add_to_extra_buffer :: "frame \<Rightarrow> int \<Rightarrow> frame" where
  "frame_add_to_extra_buffer f n = f\<lparr>extra_buffer := extra_buffer f + n\<rparr>"

definition frame_add_to_align_adjust :: "frame \<Rightarrow> int \<Rightarrow> frame" where
  "frame_add_to_align_adjust f n = f\<lparr>align_adjust := align_adjust f + n\<rparr>"

definition frame_align_to_extra_frame :: "frame \<Rightarrow> frame" where
  "frame_align_to_extra_frame f = f\<lparr>align_adjust := extra_frame f + extra_link f\<rparr>"

definition frame_or_align_flags :: "frame \<Rightarrow> u32 \<Rightarrow> frame" where
  "frame_or_align_flags f flag_mask = f\<lparr>align_flags := align_flags f OR flag_mask\<rparr>"

definition frame_defined :: "frame \<Rightarrow> bool" where
  "frame_defined f \<longleftrightarrow> link_mtu f > 0"

definition SET_MTU_TUN :: u32 where
  "SET_MTU_TUN = 1"

definition SET_MTU_UPPER_BOUND :: u32 where
  "SET_MTU_UPPER_BOUND = 2"

text \<open>An MTU below the minimum is a fatal error.\<close>

definition frame_finalize :: "frame \<Rightarrow> bool \<Rightarrow> int \<Rightarrow> bool \<Rightarrow> int \<Rightarrow> frame option" where
  "frame_finalize f link_mtu_defined lmtu tun_mtu_defined tun_mtu =
     do { f1 \<leftarrow> (if tun_mtu_defined
                 then do { ASSERT (\<not> link_mtu_defined); Some (f\<lparr>link_mtu := tun_mtu + TUN_LINK_DELTA f\<rparr>) }
                 else do { ASSERT link_mtu_defined; Some (f\<lparr>link_mtu := lmtu\<rparr>) });
          ASSERT (TUN_MTU_SIZE f1 \<ge> TUN_MTU_MIN);
          Some (f1\<lparr>link_mtu_dynamic := link_mtu f1\<rparr>) }"

definition frame_set_mtu_dynamic :: "frame \<Rightarrow> int \<Rightarrow> u32 \<Rightarrow> frame option" where
  "frame_set_mtu_dynamic f mtu flags =
     do { ASSERT (mtu \<ge> 0);
          let mtu1 = (if flags AND SET_MTU_TUN \<noteq> 0 then mtu + TUN_LINK_DELTA f else mtu);
          Some (if flags AND SET_MTU_UPPER_BOUND = 0 \<or> mtu1 < link_mtu_dynamic f
                then f\<lparr>link_mtu_dynamic := constrain_int mtu1 (EXPANDED_SIZE_MIN f) (EXPANDED_SIZE f)\<rparr>
                else f) }"

definition frame_subtract_extra :: "frame \<Rightarrow> frame \<Rightarrow> frame" where
  "frame_subtract_extra f src =
     f\<lparr>extra_frame := extra_frame f - extra_frame src, extra_tun := extra_tun f + extra_frame src\<rparr>"

definition frame_init_mssfix :: "frame \<Rightarrow> int \<Rightarrow> frame option" where
  "frame_init_mssfix f mssfix =
     (if mssfix \<noteq> 0 then frame_set_mtu_dynamic f mssfix SET_MTU_UPPER_BOUND else Some f)"

definition alloc_buf_sock_tun :: "frame \<Rightarrow> bool \<Rightarrow> u32 \<Rightarrow> buffer option" where
  "alloc_buf_sock_tun f tuntap_buffer align_mask =
     do { b \<leftarrow> alloc_buf (BUF_SIZE f);
          let (ok, b1) = buf_init b (FRAME_HEADROOM_ADJ f align_mask);
          ASSERT ok;
          let b2 = b1\<lparr>b_len := (if tuntap_buffer then MAX_RW_SIZE_TUN f else MAX_RW_SIZE_LINK f)\<rparr>;
          ASSERT (buf_safe b2 0);
          Some b2 }"

section \<open>Properties\<close>

lemma and_3_mod: "x AND 3 = x mod 4" for x :: int
  using take_bit_eq_mask [of 2 x] by (simp add: take_bit_eq_mod mask_eq_exp_minus_1)

text \<open>The head room is at most three octets above its base, and aligned after the adjustment.\<close>

lemma frame_headroom_bounds:
  "FRAME_HEADROOM_BASE f \<le> frame_headroom f m \<and> frame_headroom f m < FRAME_HEADROOM_BASE f + PAYLOAD_ALIGN"
  by (simp add: frame_headroom_def Let_def PAYLOAD_ALIGN_def and_3_mod)

lemma frame_headroom_aligned:
  "(frame_headroom f m + (if m AND align_flags f \<noteq> 0 then align_adjust f else 0)) mod PAYLOAD_ALIGN = 0"
proof -
  have p: "push_bit 24 (4::int) = 4 * 16777216" by (simp add: push_bit_eq_mult)
  have "(x + (4 * 16777216 - (x + a)) mod 4 + a) mod 4 = 0" for x a :: int
    by presburger
  then show ?thesis
    by (simp add: frame_headroom_def Let_def PAYLOAD_ALIGN_def and_3_mod p)
qed

lemma frame_finalize_ok:
  assumes "frame_finalize f ld l td t = Some g"
  shows "link_mtu_dynamic g = link_mtu g" "TUN_MTU_MIN \<le> TUN_MTU_SIZE g"
    "EXPANDED_SIZE_MIN g \<le> link_mtu_dynamic g" "ld \<noteq> td"
  using assms
  by (auto simp: frame_finalize_def TUN_MTU_SIZE_def TUN_LINK_DELTA_def EXPANDED_SIZE_MIN_def
      split: if_splits Option.bind_splits)

text \<open>The dynamic MTU stays between its bounds.\<close>

lemma frame_set_mtu_dynamic_bounds:
  assumes "frame_set_mtu_dynamic f mtu flags = Some g"
    and "EXPANDED_SIZE_MIN f \<le> link_mtu_dynamic f" "link_mtu_dynamic f \<le> EXPANDED_SIZE f"
  shows "EXPANDED_SIZE_MIN g \<le> link_mtu_dynamic g \<and> link_mtu_dynamic g \<le> EXPANDED_SIZE g \<and>
    EXPANDED_SIZE g = EXPANDED_SIZE f \<and> EXPANDED_SIZE_MIN g = EXPANDED_SIZE_MIN f \<and>
    (flags AND SET_MTU_UPPER_BOUND \<noteq> 0 \<longrightarrow> link_mtu_dynamic g \<le> link_mtu_dynamic f)"
proof -
  let ?m = "if flags AND SET_MTU_TUN \<noteq> 0 then mtu + TUN_LINK_DELTA f else mtu"
  have g: "g = (if flags AND SET_MTU_UPPER_BOUND = 0 \<or> ?m < link_mtu_dynamic f
      then f\<lparr>link_mtu_dynamic := constrain_int ?m (EXPANDED_SIZE_MIN f) (EXPANDED_SIZE f)\<rparr> else f)"
    using assms(1) unfolding frame_set_mtu_dynamic_def Let_def by (auto split: Option.bind_splits)
  have c: "EXPANDED_SIZE_MIN f \<le> constrain_int ?m (EXPANDED_SIZE_MIN f) (EXPANDED_SIZE f)"
    "constrain_int ?m (EXPANDED_SIZE_MIN f) (EXPANDED_SIZE f) \<le> EXPANDED_SIZE f"
    "?m < link_mtu_dynamic f \<Longrightarrow> constrain_int ?m (EXPANDED_SIZE_MIN f) (EXPANDED_SIZE f) \<le> link_mtu_dynamic f"
    using assms(2,3) by (auto simp: constrain_int_def)
  show ?thesis
    unfolding g using assms(2,3) c
    by (auto simp: EXPANDED_SIZE_def EXPANDED_SIZE_MIN_def TUN_LINK_DELTA_def split: if_splits)
qed

end
