(* ===== verification/Fragment.thy ===== *)
theory Fragment
  imports Mtu "HOL-Library.Signed_Division"
begin

text \<open>
  Internal fragmentation, \<^verbatim>\<open>openvpn/fragment.c\<close> and \<^verbatim>\<open>fragment.h\<close>: a
  datagram that is too long for the link is cut into at most 32 fragments, and the receiver
  puts them together in a sliding window of 25 partial datagrams. The fragments of a datagram
  rebuild it in every order of arrival.
\<close>

section \<open>Data\<close>

definition N_FRAG_BUF :: int where "N_FRAG_BUF = 25"
definition FRAG_TTL_SEC :: int where "FRAG_TTL_SEC = 10"
definition FRAG_WAKEUP_INTERVAL :: int where "FRAG_WAKEUP_INTERVAL = 5"
definition FRAG_MAP_MASK :: u32 where "FRAG_MAP_MASK = 0xFFFFFFFF"
definition MAX_FRAGS :: int where "MAX_FRAGS = 32"
definition N_SEQ_ID :: int where "N_SEQ_ID = 256"
definition FRAG_TYPE_MASK :: u32 where "FRAG_TYPE_MASK = 3"
definition FRAG_TYPE_SHIFT :: nat where "FRAG_TYPE_SHIFT = 0"
definition FRAG_WHOLE :: int where "FRAG_WHOLE = 0"
definition FRAG_YES_NOTLAST :: int where "FRAG_YES_NOTLAST = 1"
definition FRAG_YES_LAST :: int where "FRAG_YES_LAST = 2"
definition FRAG_TEST :: int where "FRAG_TEST = 3"
definition FRAG_SEQ_ID_MASK :: u32 where "FRAG_SEQ_ID_MASK = 0xff"
definition FRAG_SEQ_ID_SHIFT :: nat where "FRAG_SEQ_ID_SHIFT = 2"
definition FRAG_ID_MASK :: u32 where "FRAG_ID_MASK = 0x1f"
definition FRAG_ID_SHIFT :: nat where "FRAG_ID_SHIFT = 10"
definition FRAG_SIZE_MASK :: u32 where "FRAG_SIZE_MASK = 0x3fff"
definition FRAG_SIZE_SHIFT :: nat where "FRAG_SIZE_SHIFT = 15"
definition FRAG_SIZE_ROUND_SHIFT :: nat where "FRAG_SIZE_ROUND_SHIFT = 2"
definition FRAG_SIZE_ROUND_MASK :: int where "FRAG_SIZE_ROUND_MASK = push_bit FRAG_SIZE_ROUND_SHIFT 1 - 1"

lemmas frag_consts = N_FRAG_BUF_def FRAG_TTL_SEC_def FRAG_MAP_MASK_def MAX_FRAGS_def N_SEQ_ID_def
  FRAG_TYPE_MASK_def FRAG_TYPE_SHIFT_def FRAG_WHOLE_def FRAG_YES_NOTLAST_def FRAG_YES_LAST_def
  FRAG_TEST_def FRAG_SEQ_ID_MASK_def FRAG_SEQ_ID_SHIFT_def FRAG_ID_MASK_def FRAG_ID_SHIFT_def
  FRAG_SIZE_MASK_def FRAG_SIZE_SHIFT_def FRAG_SIZE_ROUND_SHIFT_def

record fragment =
  fr_defined :: bool
  fr_max_frag_size :: int
  fr_map :: u32
  fr_timestamp :: int
  fr_buf :: buffer

record fragment_list =
  fl_seq_id :: int
  fl_index :: int
  fl_fragments :: "fragment list"

record fragment_master =
  fm_received_os_mtu_hint :: bool
  fm_outgoing_seq_id :: int
  fm_outgoing_frag_size :: int
  fm_outgoing_frag_id :: int
  fm_outgoing :: buffer
  fm_outgoing_return :: buffer
  fm_incoming :: fragment_list

section \<open>Initialization\<close>

definition fragment_zero :: fragment where
  "fragment_zero = \<lparr>fr_defined = False, fr_max_frag_size = 0, fr_map = 0, fr_timestamp = 0, fr_buf = clear_buf\<rparr>"

text \<open>\<open>get_random\<close> is the parameter \<open>rnd\<close>.\<close>

definition fragment_init :: "frame \<Rightarrow> int \<Rightarrow> fragment_master \<times> frame" where
  "fragment_init f rnd =
     (\<lparr>fm_received_os_mtu_hint = False, fm_outgoing_seq_id = rnd AND (N_SEQ_ID - 1),
       fm_outgoing_frag_size = 0, fm_outgoing_frag_id = 0, fm_outgoing = clear_buf,
       fm_outgoing_return = clear_buf,
       fm_incoming = \<lparr>fl_seq_id = 0, fl_index = 0, fl_fragments = replicate (nat N_FRAG_BUF) fragment_zero\<rparr>\<rparr>,
      frame_add_to_extra_frame f 4)"

definition fragment_list_buf_init :: "fragment_list \<Rightarrow> frame \<Rightarrow> fragment_list option" where
  "fragment_list_buf_init l f =
     do { b \<leftarrow> alloc_buf (BUF_SIZE f);
          Some (l\<lparr>fl_fragments := map (\<lambda>fr. fr\<lparr>fr_buf := b\<rparr>) (fl_fragments l)\<rparr>) }"

definition fragment_list_buf_free :: "fragment_list \<Rightarrow> fragment_list" where
  "fragment_list_buf_free l =
     l\<lparr>fl_fragments := map (\<lambda>fr. fr\<lparr>fr_buf := free_buf (fr_buf fr)\<rparr>) (fl_fragments l)\<rparr>"

definition fragment_frame_init :: "fragment_master \<Rightarrow> frame \<Rightarrow> fragment_master option" where
  "fragment_frame_init m f =
     do { l \<leftarrow> fragment_list_buf_init (fm_incoming m) f;
          b1 \<leftarrow> alloc_buf (BUF_SIZE f);
          b2 \<leftarrow> alloc_buf (BUF_SIZE f);
          Some (m\<lparr>fm_incoming := l, fm_outgoing := b1, fm_outgoing_return := b2\<rparr>) }"

definition fragment_free :: "fragment_master \<Rightarrow> fragment_master" where
  "fragment_free m =
     m\<lparr>fm_incoming := fragment_list_buf_free (fm_incoming m), fm_outgoing := free_buf (fm_outgoing m),
       fm_outgoing_return := free_buf (fm_outgoing_return m)\<rparr>"

section \<open>Incoming\<close>

text \<open>The loop of \<open>fragment_list_get_buf\<close>, which runs \<open>diff\<close> times.\<close>

primrec fragment_list_advance :: "nat \<Rightarrow> fragment_list \<Rightarrow> fragment_list option" where
  "fragment_list_advance 0 l = Some l"
| "fragment_list_advance (Suc n) l =
     do { ix \<leftarrow> modulo_add (fl_index l) 1 N_FRAG_BUF;
          fr \<leftarrow> arr_get (fl_fragments l) ix;
          frs \<leftarrow> arr_set (fl_fragments l) ix (fr\<lparr>fr_defined := False\<rparr>);
          sq \<leftarrow> modulo_add (fl_seq_id l) 1 N_SEQ_ID;
          fragment_list_advance n (l\<lparr>fl_index := ix, fl_fragments := frs, fl_seq_id := sq\<rparr>) }"

text \<open>The result is the index of the fragment whose address the code returns.\<close>

definition fragment_list_get_buf :: "fragment_list \<Rightarrow> int \<Rightarrow> (int \<times> fragment_list) option" where
  "fragment_list_get_buf l seq_id =
     do { diff0 \<leftarrow> modulo_subtract seq_id (fl_seq_id l) N_SEQ_ID;
          let (l1, diff) = (if \<bar>diff0\<bar> \<ge> N_FRAG_BUF
             then (l\<lparr>fl_fragments := map (\<lambda>fr. fr\<lparr>fr_defined := False\<rparr>) (fl_fragments l),
                     fl_index := 0, fl_seq_id := seq_id\<rparr>, 0)
             else (l, diff0));
          l2 \<leftarrow> fragment_list_advance (nat diff) l1;
          ix \<leftarrow> modulo_add (fl_index l2) (if diff > 0 then 0 else diff) N_FRAG_BUF;
          Some (ix, l2) }"

text \<open>
  The part of \<open>fragment_incoming\<close> for a fragment of type \<open>FRAG_YES_NOTLAST\<close> or
  \<open>FRAG_YES_LAST\<close>; \<open>buf\<close> is the packet behind the flags.
\<close>

definition fragment_join ::
  "fragment_master \<Rightarrow> buffer \<Rightarrow> frame \<Rightarrow> int \<Rightarrow> u32 \<Rightarrow> int \<Rightarrow> (fragment_master \<times> buffer) option" where
  "fragment_join m buf f now flags frag_type =
     (let seq_id = uint (drop_bit FRAG_SEQ_ID_SHIFT flags AND FRAG_SEQ_ID_MASK);
          n = uint (drop_bit FRAG_ID_SHIFT flags AND FRAG_ID_MASK);
          sz = (if frag_type = FRAG_YES_LAST
                then uint (push_bit FRAG_SIZE_ROUND_SHIFT (drop_bit FRAG_SIZE_SHIFT flags AND FRAG_SIZE_MASK))
                else b_len buf)
      in do { (ix, l) \<leftarrow> fragment_list_get_buf (fm_incoming m) seq_id;
              frag \<leftarrow> arr_get (fl_fragments l) ix;
              if sz AND FRAG_SIZE_ROUND_MASK \<noteq> 0
              then Some (m\<lparr>fm_incoming := l\<rparr>, buf\<lparr>b_len := 0\<rparr>)
              else
                do { frag1 \<leftarrow> (if \<not> fr_defined frag \<or> fr_max_frag_size frag \<noteq> sz
                        then (let (ok, b) = buf_init (fr_buf frag)
                                              (FRAME_HEADROOM_ADJ f FRAME_HEADROOM_MARKER_FRAGMENT)
                              in do { ASSERT ok;
                                      Some (frag\<lparr>fr_defined := True, fr_max_frag_size := sz, fr_map := 0,
                                                 fr_buf := b\<rparr>) })
                        else Some frag);
                     (ok, b) \<leftarrow> buf_copy_range (fr_buf frag1) (n * sz) buf 0 (b_len buf);
                     if \<not> ok
                     then do { frs \<leftarrow> arr_set (fl_fragments l) ix frag1;
                               Some (m\<lparr>fm_incoming := l\<lparr>fl_fragments := frs\<rparr>\<rparr>, buf\<lparr>b_len := 0\<rparr>) }
                     else (let map' = fr_map frag1 OR
                                 push_bit (nat n) (if frag_type = FRAG_YES_LAST then FRAG_MAP_MASK else 1);
                               full = (map' AND FRAG_MAP_MASK = FRAG_MAP_MASK);
                               frag2 = frag1\<lparr>fr_buf := b, fr_map := map', fr_timestamp := now,
                                             fr_defined := \<not> full\<rparr>
                           in do { frs \<leftarrow> arr_set (fl_fragments l) ix frag2;
                                   Some (m\<lparr>fm_incoming := l\<lparr>fl_fragments := frs\<rparr>\<rparr>,
                                         if full then b else buf\<lparr>b_len := 0\<rparr>) }) } })"

definition fragment_incoming ::
  "fragment_master \<Rightarrow> buffer \<Rightarrow> frame \<Rightarrow> int \<Rightarrow> (fragment_master \<times> buffer) option" where
  "fragment_incoming m buf f now =
     (if b_len buf > 0
      then do { (r, buf1) \<leftarrow> buf_read buf 4;
                case r of
                  None \<Rightarrow> Some (m, buf1\<lparr>b_len := 0\<rparr>)
                | Some net \<Rightarrow>
                    (let flags = bytes_u32 net;
                         frag_type = uint (drop_bit FRAG_TYPE_SHIFT flags AND FRAG_TYPE_MASK)
                     in if frag_type = FRAG_WHOLE
                        then Some (m, if flags AND (FRAG_SEQ_ID_MASK OR FRAG_ID_MASK) \<noteq> 0
                                      then buf1\<lparr>b_len := 0\<rparr> else buf1)
                        else if frag_type = FRAG_YES_NOTLAST \<or> frag_type = FRAG_YES_LAST
                        then fragment_join m buf1 f now flags frag_type
                        else Some (m, buf1\<lparr>b_len := 0\<rparr>)) }
      else Some (m, buf))"

section \<open>Outgoing\<close>

definition fragment_outgoing_defined :: "fragment_master \<Rightarrow> bool" where
  "fragment_outgoing_defined m \<longleftrightarrow> b_len (fm_outgoing m) > 0"

definition fragment_flags :: "int \<Rightarrow> int \<Rightarrow> int \<Rightarrow> int \<Rightarrow> u32" where
  "fragment_flags type seq_id frag_id frag_size =
     (let flags = push_bit FRAG_TYPE_SHIFT (word_of_int type AND FRAG_TYPE_MASK)
                  OR push_bit FRAG_SEQ_ID_SHIFT (word_of_int seq_id AND FRAG_SEQ_ID_MASK)
                  OR push_bit FRAG_ID_SHIFT (word_of_int frag_id AND FRAG_ID_MASK)
      in if type = FRAG_WHOLE \<or> type = FRAG_YES_NOTLAST then flags
         else flags OR push_bit FRAG_SIZE_SHIFT
                (word_of_int (drop_bit FRAG_SIZE_ROUND_SHIFT frag_size) AND FRAG_SIZE_MASK))"

definition fragment_prepend_flags :: "buffer \<Rightarrow> int \<Rightarrow> int \<Rightarrow> int \<Rightarrow> int \<Rightarrow> buffer option" where
  "fragment_prepend_flags buf type seq_id frag_id frag_size =
     do { (ok, buf') \<leftarrow> buf_write_prepend buf (u32_bytes (fragment_flags type seq_id frag_id frag_size));
          ASSERT ok;
          Some buf' }"

text \<open>A divisor of zero is undefined behaviour in C: the run stops.\<close>

definition optimal_fragment_size :: "int \<Rightarrow> int \<Rightarrow> int option" where
  "optimal_fragment_size len max_frag_size =
     (let mfs_aligned = max_frag_size AND NOT FRAG_SIZE_ROUND_MASK
      in do { ASSERT (mfs_aligned \<noteq> 0);
              let dv = len sdiv mfs_aligned;
              let md = len smod mfs_aligned;
              if dv > 0 \<and> md > 0 \<and> md < mfs_aligned * 3 sdiv 4
              then do { ASSERT (dv + 1 \<noteq> 0);
                        Some (min_int mfs_aligned
                          ((max_frag_size - (max_frag_size - md) sdiv (dv + 1) + FRAG_SIZE_ROUND_MASK)
                             AND NOT FRAG_SIZE_ROUND_MASK)) }
              else Some mfs_aligned })"

text \<open>The octets of the returned buffer are those of \<open>outgoing_return\<close>.\<close>

definition fragment_ready_to_send ::
  "fragment_master \<Rightarrow> frame \<Rightarrow> (buffer option \<times> fragment_master) option" where
  "fragment_ready_to_send m f =
     (if fragment_outgoing_defined m
      then (let last = b_len (fm_outgoing m) \<le> fm_outgoing_frag_size m;
                sz = (if last then b_len (fm_outgoing m) else fm_outgoing_frag_size m);
                (ok, b0) = buf_init (fm_outgoing_return m) (FRAME_HEADROOM f)
            in do { ASSERT ok;
                    (ok1, b1, out) \<leftarrow> buf_copy_n b0 (fm_outgoing m) sz;
                    ASSERT ok1;
                    b2 \<leftarrow> fragment_prepend_flags b1 (if last then FRAG_YES_LAST else FRAG_YES_NOTLAST)
                           (fm_outgoing_seq_id m) (fm_outgoing_frag_id m) (fm_outgoing_frag_size m);
                    ASSERT (\<not> last \<or> b_len out = 0);
                    Some (Some b2, m\<lparr>fm_outgoing := out, fm_outgoing_frag_id := fm_outgoing_frag_id m + 1,
                        fm_outgoing_return := (fm_outgoing_return m)\<lparr>b_data := b_data b2\<rparr>\<rparr>) })
      else Some (None, m))"

definition fragment_outgoing ::
  "fragment_master \<Rightarrow> buffer \<Rightarrow> frame \<Rightarrow> (fragment_master \<times> buffer) option" where
  "fragment_outgoing m buf f =
     (if b_len buf > 0
      then (if b_len buf > PAYLOAD_SIZE_DYNAMIC f
            then do { sz \<leftarrow> optimal_fragment_size (b_len buf) (PAYLOAD_SIZE_DYNAMIC f);
                      let m1 = m\<lparr>fm_outgoing_frag_size := sz\<rparr>;
                      if b_len buf > sz * MAX_FRAGS then Some (m1, buf\<lparr>b_len := 0\<rparr>)
                      else do { let (ok, o0) = buf_init (fm_outgoing m) (FRAME_HEADROOM f);
                                ASSERT ok;
                                (ok1, o1) \<leftarrow> buf_copy o0 buf;
                                ASSERT ok1;
                                sq \<leftarrow> modulo_add (fm_outgoing_seq_id m) 1 N_SEQ_ID;
                                (r, m2) \<leftarrow> fragment_ready_to_send
                                   (m1\<lparr>fm_outgoing := o1, fm_outgoing_seq_id := sq, fm_outgoing_frag_id := 0\<rparr>) f;
                                case r of None \<Rightarrow> None | Some b \<Rightarrow> Some (m2, b) } }
            else do { b \<leftarrow> fragment_prepend_flags buf FRAG_WHOLE 0 0 0; Some (m, b) })
      else Some (m, buf))"

section \<open>Housekeeping\<close>

definition fragment_ttl_reap :: "fragment_master \<Rightarrow> int \<Rightarrow> fragment_master" where
  "fragment_ttl_reap m now =
     m\<lparr>fm_incoming := (fm_incoming m)\<lparr>fl_fragments :=
         map (\<lambda>fr. if fr_defined fr \<and> fr_timestamp fr + FRAG_TTL_SEC \<le> now
                   then fr\<lparr>fr_defined := False\<rparr> else fr) (fl_fragments (fm_incoming m))\<rparr>\<rparr>"

definition fragment_wakeup :: "fragment_master \<Rightarrow> int \<Rightarrow> fragment_master" where
  "fragment_wakeup m now = fragment_ttl_reap m now"

section \<open>The flags\<close>

lemma frag_masks: "FRAG_TYPE_MASK = mask 2" "FRAG_SEQ_ID_MASK = mask 8" "FRAG_ID_MASK = mask 5" "FRAG_SIZE_MASK = mask 14"
  by code_simp+

lemma fragment_fields:
  fixes a b c d :: u32
  defines "fl \<equiv> push_bit 0 (a AND mask 2) OR push_bit 2 (b AND mask 8) OR push_bit 10 (c AND mask 5)"
  shows "drop_bit 0 (fl OR push_bit 15 (d AND mask 14)) AND mask 2 = a AND mask 2"
    "drop_bit 2 (fl OR push_bit 15 (d AND mask 14)) AND mask 8 = b AND mask 8"
    "drop_bit 10 (fl OR push_bit 15 (d AND mask 14)) AND mask 5 = c AND mask 5"
    "drop_bit 15 (fl OR push_bit 15 (d AND mask 14)) AND mask 14 = d AND mask 14"
  unfolding fl_def
  by (rule bit_word_eqI; auto simp: bit_simps)+

lemma uint_and_mask:
  assumes "0 \<le> x" "x < 2 ^ n" "n \<le> 32"
  shows "uint (word_of_int x AND mask n :: u32) = x"
proof -
  have "(2 :: int) ^ n \<le> 2 ^ 32" using assms(3) by (intro power_increasing) auto
  then have "uint (word_of_int x :: u32) = x" using assms by (simp add: uint_word_of_int)
  moreover have "uint (word_of_int x AND mask n :: u32) = take_bit n (uint (word_of_int x :: u32))"
    by (simp only: take_bit_eq_mask [symmetric] unsigned_take_bit_eq)
  ultimately show ?thesis using assms by (simp add: take_bit_eq_mod)
qed

text \<open>What a receiver reads from the flags of a fragment.\<close>

lemma fragment_flags_read:
  assumes t: "t = FRAG_YES_NOTLAST \<or> t = FRAG_YES_LAST" and sq: "0 \<le> sq" "sq < N_SEQ_ID"
    and n: "0 \<le> n" "n < MAX_FRAGS" and sz: "0 \<le> sz" "sz < 65536" "sz mod 4 = 0"
  defines "fl \<equiv> fragment_flags t sq n sz"
  shows "uint (drop_bit FRAG_TYPE_SHIFT fl AND FRAG_TYPE_MASK) = t"
    "uint (drop_bit FRAG_SEQ_ID_SHIFT fl AND FRAG_SEQ_ID_MASK) = sq"
    "uint (drop_bit FRAG_ID_SHIFT fl AND FRAG_ID_MASK) = n"
    "t = FRAG_YES_LAST \<Longrightarrow>
       uint (push_bit FRAG_SIZE_ROUND_SHIFT (drop_bit FRAG_SIZE_SHIFT fl AND FRAG_SIZE_MASK)) = sz"
proof -
  let ?d = "if t = FRAG_YES_LAST then word_of_int (drop_bit 2 sz) else 0 :: u32"
  have fl: "fl = (push_bit 0 (word_of_int t AND mask 2) OR push_bit 2 (word_of_int sq AND mask 8) OR
      push_bit 10 (word_of_int n AND mask 5)) OR push_bit 15 (?d AND mask 14)"
    using t unfolding fl_def fragment_flags_def
    by (auto simp: frag_masks Let_def FRAG_TYPE_SHIFT_def FRAG_SEQ_ID_SHIFT_def FRAG_ID_SHIFT_def
        FRAG_SIZE_SHIFT_def FRAG_SIZE_ROUND_SHIFT_def FRAG_WHOLE_def FRAG_YES_NOTLAST_def FRAG_YES_LAST_def or.assoc)
  note f = fragment_fields [of "word_of_int t" "word_of_int sq" "word_of_int n" ?d, folded fl]
  show "uint (drop_bit FRAG_TYPE_SHIFT fl AND FRAG_TYPE_MASK) = t"
    using t uint_and_mask [of t 2] f(1)
    by (auto simp: frag_masks FRAG_TYPE_SHIFT_def FRAG_YES_NOTLAST_def FRAG_YES_LAST_def)
  show "uint (drop_bit FRAG_SEQ_ID_SHIFT fl AND FRAG_SEQ_ID_MASK) = sq"
    using sq uint_and_mask [of sq 8] f(2)
    by (simp add: frag_masks FRAG_SEQ_ID_SHIFT_def N_SEQ_ID_def)
  show "uint (drop_bit FRAG_ID_SHIFT fl AND FRAG_ID_MASK) = n"
    using n uint_and_mask [of n 5] f(3)
    by (simp add: frag_masks FRAG_ID_SHIFT_def MAX_FRAGS_def)
  assume last: "t = FRAG_YES_LAST"
  have q: "drop_bit 2 sz = sz div 4" by (simp add: drop_bit_eq_div)
  have e: "uint (?d AND mask 14) = sz div 4"
    using sz last q uint_and_mask [of "sz div 4" 14] by simp
  have p: "uint (push_bit 2 w) = 4 * uint w" if "uint w < 16384" for w :: u32
    using that by (simp add: push_bit_eq_mult uint_word_ariths)
  have "sz div 4 < 16384" "4 * (sz div 4) = sz" using sz by auto
  then have "uint (push_bit 2 (?d AND mask 14)) = sz"
    using p [of "?d AND mask 14", unfolded e] by (simp only: simp_thms)
  then show "uint (push_bit FRAG_SIZE_ROUND_SHIFT (drop_bit FRAG_SIZE_SHIFT fl AND FRAG_SIZE_MASK)) = sz"
    by (simp only: frag_masks FRAG_SIZE_SHIFT_def FRAG_SIZE_ROUND_SHIFT_def f(4))
qed

section \<open>The size of the fragments\<close>

lemma Suc_Suc_diff_2: "2 \<le> n \<Longrightarrow> Suc (Suc (n - 2)) = n"
  by simp

lemma and_not_round: "x AND NOT FRAG_SIZE_ROUND_MASK = x - x mod 4" for x :: int
proof -
  have m: "FRAG_SIZE_ROUND_MASK = mask 2"
    by (simp add: FRAG_SIZE_ROUND_MASK_def FRAG_SIZE_ROUND_SHIFT_def mask_eq_exp_minus_1)
  have "x AND NOT (mask 2) = push_bit 2 (drop_bit 2 x)"
    by (rule bit_eqI) (auto simp: bit_simps not_less Suc_Suc_diff_2)
  also have "\<dots> = x - x mod 4"
    by (simp add: push_bit_eq_mult drop_bit_eq_div minus_mod_eq_mult_div)
  finally show ?thesis by (simp only: m)
qed

lemma and_round: "x AND FRAG_SIZE_ROUND_MASK = x mod 4" for x :: int
  using and_3_mod [of x] by (simp add: FRAG_SIZE_ROUND_MASK_def FRAG_SIZE_ROUND_SHIFT_def)

lemma sdiv_nonneg: "0 \<le> a \<Longrightarrow> 0 < b \<Longrightarrow> a sdiv b = a div b" for a b :: int
  by (cases "a = 0") (simp_all add: signed_divide_int_def sgn_if)

lemma smod_nonneg: "0 \<le> a \<Longrightarrow> 0 < b \<Longrightarrow> a smod b = a mod b" for a b :: int
  by (cases "a = 0") (simp_all add: signed_modulo_int_def sgn_if)

lemma ceil_div_eq: "0 < s \<Longrightarrow> (k - 1) * s < x \<Longrightarrow> x \<le> k * s \<Longrightarrow> (x + s - 1) div s = k" for x s k :: int
proof -
  assume a: "0 < s" "(k - 1) * s < x" "x \<le> k * s"
  then show ?thesis
    by (intro int_div_pos_eq [where r = "x + s - 1 - k * s"]) (simp_all add: algebra_simps)
qed

text \<open>The number of fragments for a datagram of \<open>len\<close> octets.\<close>

definition frag_count :: "int \<Rightarrow> int \<Rightarrow> int" where
  "frag_count len sz = (len + sz - 1) div sz"

text \<open>
  C22. The size of the fragments. For a payload size of at least four octets the computed size is
  a positive multiple of four, not above the payload size, and cuts a datagram into exactly as
  many fragments as the largest aligned size would.
\<close>

theorem optimal_fragment_size_ok:
  assumes "0 < len" and "4 \<le> mx"
  shows "\<exists>sz. optimal_fragment_size len mx = Some sz \<and> 0 < sz \<and> sz \<le> mx \<and> sz mod 4 = 0 \<and>
    frag_count len sz = frag_count len (mx - mx mod 4)"
proof -
  define a where "a = mx - mx mod 4"
  define d where "d = len div a"
  define m where "m = len mod a"
  have a: "0 < a" "a \<le> mx" "a mod 4 = 0"
    using assms(2) by (auto simp: a_def minus_mod_eq_mult_div)
  have dm: "0 \<le> d" "0 \<le> m" "m < a" "len = d * a + m"
    using assms(1) a(1) by (simp_all add: d_def m_def pos_imp_zdiv_nonneg_iff)
  define q where "q = (mx - m) div (d + 1)"
  define x where "x = mx - q + 3"
  have "len sdiv a = d" unfolding d_def using assms(1) a(1) by (intro sdiv_nonneg) simp_all
  moreover have "len smod a = m" unfolding m_def using assms(1) a(1) by (intro smod_nonneg) simp_all
  moreover have "a * 3 sdiv 4 = a * 3 div 4" using a(1) by (intro sdiv_nonneg) simp_all
  moreover have "(mx - m) sdiv (d + 1) = q" unfolding q_def using dm(1,3) a(2) by (intro sdiv_nonneg) simp_all
  ultimately have sd: "len sdiv a = d" "len smod a = m" "a * 3 sdiv 4 = a * 3 div 4" "(mx - m) sdiv (d + 1) = q"
    by blast+
  have r3: "FRAG_SIZE_ROUND_MASK = 3" by code_simp
  have opt: "optimal_fragment_size len mx =
      Some (if d > 0 \<and> m > 0 \<and> m < a * 3 div 4 then min a (x - x mod 4) else a)"
    unfolding optimal_fragment_size_def and_not_round a_def [symmetric] Let_def sd min_int_min
    using a(1) dm(1) r3 by (simp add: x_def)
  show ?thesis
  proof (cases "d > 0 \<and> m > 0 \<and> m < a * 3 div 4")
    case False
    then show ?thesis using opt a unfolding if_not_P [OF False] by (simp add: a_def [symmetric])
  next
    case True
    let ?s = "min a (x - x mod 4)"
    have "q * (d + 1) \<le> mx - m"
      using div_mult_mod_eq [of "mx - m" "d + 1"] pos_mod_sign [of "d + 1" "mx - m"] dm(1)
      unfolding q_def by linarith
    then have big: "mx * d + m \<le> (mx - q) * (d + 1)"
      by (simp add: algebra_simps)
    have "mx - q \<le> x - x mod 4" unfolding x_def by presburger
    then have "(mx - q) * (d + 1) \<le> (x - x mod 4) * (d + 1)"
      using dm(1) by (intro mult_right_mono) auto
    moreover have "a * d \<le> mx * d" using dm(1) a(2) by (intro mult_right_mono) auto
    ultimately have u1: "len \<le> (d + 1) * (x - x mod 4)"
      using big dm(4) by (simp add: mult.commute)
    have u2: "len \<le> (d + 1) * a" using dm(3,4) by (simp add: algebra_simps)
    have up: "len \<le> (d + 1) * ?s" using u1 u2 by (simp add: min_def)
    have "d * ?s \<le> d * a" using dm(1) by (intro mult_left_mono) auto
    then have lo: "(d + 1 - 1) * ?s < len"
      using True dm(4) by (simp only: add_diff_cancel_right') linarith
    have pos: "0 < ?s"
      using up assms(1) dm(1) zero_less_mult_pos [of "d + 1" ?s] by linarith
    have "frag_count len ?s = d + 1"
      unfolding frag_count_def by (rule ceil_div_eq [OF pos lo up])
    moreover have "frag_count len a = d + 1"
      unfolding frag_count_def
      using True dm a(1) u2 by (intro ceil_div_eq) simp_all
    moreover have "?s mod 4 = 0" using a(3) by (simp add: min_def)
    ultimately show ?thesis using opt pos a(2) unfolding if_P [OF True] by (simp add: a_def [symmetric])
  qed
qed

lemma optimal_fragment_size_ok_witness:
  "\<exists>sz. optimal_fragment_size 30 12 = Some sz \<and> 0 < sz \<and> sz \<le> 12 \<and> sz mod 4 = 0 \<and>
    frag_count 30 sz = frag_count 30 (12 - 12 mod 4)"
  using optimal_fragment_size_ok [of 30 12] by simp

section \<open>The test of the flags of a whole packet\<close>

text \<open>
  The masks of the test are not shifted to the places of the fields, so that it looks at the low
  eight bits of the flags only.
\<close>

lemma whole_flags_masks: "FRAG_SEQ_ID_MASK OR FRAG_ID_MASK = mask 8"
  by code_simp

lemma whole_flags_hidden: "fragment_flags FRAG_WHOLE (64 * k) n d AND mask 8 = 0"
proof -
  have w: "word_of_int (64 * k) = push_bit 6 (word_of_int k :: u32)"
    by (simp add: push_bit_eq_mult)
  show ?thesis
    unfolding fragment_flags_def Let_def frag_masks FRAG_WHOLE_def w
    by (rule bit_word_eqI)
       (auto simp: bit_simps FRAG_TYPE_SHIFT_def FRAG_SEQ_ID_SHIFT_def FRAG_ID_SHIFT_def)
qed

lemma whole_flags_type: "w AND mask 8 = 0 \<Longrightarrow> drop_bit FRAG_TYPE_SHIFT w AND FRAG_TYPE_MASK = 0" for w :: u32
proof -
  assume a: "w AND mask 8 = 0"
  have "w AND mask 2 = (w AND mask 8) AND mask 2"
    by (rule bit_word_eqI) (auto simp: bit_simps)
  then have "w AND mask 2 = 0" unfolding a by simp
  then show ?thesis by (simp add: frag_masks FRAG_TYPE_SHIFT_def)
qed

text \<open>
  C29. The test for spurious flags on a packet marked whole does not see the fragment number: a
  packet whose header carries any fragment number from 0 to 31 and a sequence number that is a
  multiple of 64 is handed on like a clean one.
\<close>

theorem fragment_incoming_spurious_whole:
  assumes n: "0 \<le> n" "n < MAX_FRAGS" and b: "buf_ok buf" and c: "buf_content buf = u32_bytes (fragment_flags FRAG_WHOLE (64 * k) n 0) @ payload"
  shows "uint (drop_bit FRAG_ID_SHIFT (fragment_flags FRAG_WHOLE (64 * k) n 0) AND FRAG_ID_MASK) = n \<and>
    (\<exists>buf'. fragment_incoming m buf f now = Some (m, buf') \<and> buf_content buf' = payload \<and> buf_ok buf')"
proof -
  let ?w = "fragment_flags FRAG_WHOLE (64 * k) n 0"
  note rd = buf_read_u32_prefix [OF b c]
  have len: "0 < b_len buf" using length_buf_content [OF b] c by simp
  have "drop_bit FRAG_TYPE_SHIFT ?w AND FRAG_TYPE_MASK = 0" "?w AND mask 8 = 0"
    by (simp_all add: whole_flags_hidden whole_flags_type)
  then have "fragment_incoming m buf f now = Some (m, buf_drop buf 4)"
    using len rd(1) by (simp add: fragment_incoming_def FRAG_WHOLE_def whole_flags_masks)
  moreover have "uint (drop_bit FRAG_ID_SHIFT ?w AND FRAG_ID_MASK) = n"
    using n uint_and_mask [of n 5] fragment_fields(3) [of 0 "word_of_int (64 * k)" "word_of_int n" 0]
    unfolding fragment_flags_def Let_def
    by (simp add: frag_masks FRAG_TYPE_SHIFT_def FRAG_SEQ_ID_SHIFT_def FRAG_ID_SHIFT_def FRAG_WHOLE_def MAX_FRAGS_def)
  ultimately show ?thesis using rd by auto
qed

lemma fragment_incoming_spurious_whole_witness:
  "\<forall>fm fr. uint (drop_bit FRAG_ID_SHIFT (fragment_flags FRAG_WHOLE (64 * 3) 31 0) AND FRAG_ID_MASK) = 31 \<and>
   (\<exists>buf'. fragment_incoming fm
      \<lparr>b_capacity = 6, b_offset = 0, b_len = 6,
       b_data = Some (u32_bytes (fragment_flags FRAG_WHOLE (64 * 3) 31 0) @ [1, 2])\<rparr> fr 0 = Some (fm, buf') \<and>
    buf_content buf' = [1, 2] \<and> buf_ok buf')"
  by (intro allI, rule fragment_incoming_spurious_whole [of 31 _ 3 "[1, 2]" _ _ 0])
     (simp_all add: MAX_FRAGS_def buf_ok_def buf_content_def BUF_SIZE_MAX_def)
end
