(* ===== verification/FragmentRoundtrip.thy ===== *)
theory FragmentRoundtrip
  imports Fragment
begin

text \<open>
  From end to end through \<^verbatim>\<open>openvpn/fragment.c\<close>: the fragments that
  \<open>fragment_outgoing\<close> and \<open>fragment_ready_to_send\<close> produce for a datagram, and what
  \<open>fragment_incoming\<close> makes of them when they arrive in any order, some more than once.
\<close>

section \<open>The fragments of a datagram\<close>

text \<open>Fragment \<open>i\<close> of \<open>k\<close> of the datagram \<open>d\<close>, cut into parts of \<open>s\<close> octets.\<close>

definition frag_payload :: "bytes \<Rightarrow> nat \<Rightarrow> nat \<Rightarrow> bytes" where
  "frag_payload d s i = take s (drop (i * s) d)"

definition frag_wire :: "bytes \<Rightarrow> nat \<Rightarrow> int \<Rightarrow> nat \<Rightarrow> nat \<Rightarrow> bytes" where
  "frag_wire d s q k i =
     u32_bytes (fragment_flags (if Suc i = k then FRAG_YES_LAST else FRAG_YES_NOTLAST) q (int i) (int s))
     @ frag_payload d s i"

text \<open>\<open>k\<close> parts of \<open>s\<close> octets, the last one not empty, cover the datagram.\<close>

definition frag_cut :: "bytes \<Rightarrow> nat \<Rightarrow> nat \<Rightarrow> bool" where
  "frag_cut d s k \<longleftrightarrow> 0 < s \<and> s mod 4 = 0 \<and> s < 65536 \<and> 0 < k \<and> k \<le> 32 \<and>
     (k - 1) * s < length d \<and> length d \<le> k * s"

lemma frag_cut_last_iff: "frag_cut d s k \<Longrightarrow> i < k \<Longrightarrow> length d - i * s \<le> s \<longleftrightarrow> Suc i = k"
proof -
  assume c: "frag_cut d s k" and i: "i < k"
  show ?thesis
  proof
    assume "length d - i * s \<le> s"
    then have "length d \<le> Suc i * s" by simp
    with c have "(k - 1) * s < Suc i * s" by (simp add: frag_cut_def)
    then have "k - 1 < Suc i" by (simp only: mult_less_cancel2)
    with i show "Suc i = k" by simp
  next
    assume "Suc i = k"
    with c have "length d \<le> Suc i * s" by (simp add: frag_cut_def)
    then show "length d - i * s \<le> s" by simp
  qed
qed

text \<open>The sending side, about to send fragment \<open>i\<close>.\<close>

definition frag_out :: "frame \<Rightarrow> fragment_master \<Rightarrow> bytes \<Rightarrow> nat \<Rightarrow> int \<Rightarrow> nat \<Rightarrow> bool" where
  "frag_out f m d s q i \<longleftrightarrow> buf_ok (fm_outgoing m) \<and> buf_content (fm_outgoing m) = drop (i * s) d \<and>
     fm_outgoing_frag_size m = int s \<and> fm_outgoing_seq_id m = q \<and> fm_outgoing_frag_id m = int i \<and>
     buf_ok (fm_outgoing_return m) \<and> 4 \<le> FRAME_HEADROOM f \<and>
     FRAME_HEADROOM f + int s \<le> b_capacity (fm_outgoing_return m)"

lemma buf_init_ok:
  assumes "buf_ok b" "0 \<le> off" "off \<le> b_capacity b"
  defines "b' \<equiv> b\<lparr>b_len := 0, b_offset := off\<rparr>"
  shows "buf_init b off = (True, b')" "buf_ok b'" "buf_content b' = []"
    "b_offset b' = off" "b_capacity b' = b_capacity b" "buf_room b' = b_capacity b - off" "b_len b' = 0"
  using assms by (auto simp: buf_init_def buf_ok_def buf_content_def buf_room_def split: option.splits)

lemma fragment_ready_to_send_ok:
  assumes cut: "frag_cut d s k" and i: "i < k" and out: "frag_out f m d s q i"
  shows "\<exists>b m'. fragment_ready_to_send m f = Some (Some b, m') \<and> buf_ok b \<and>
    buf_content b = frag_wire d s q k i \<and> frag_out f m' d s q (Suc i) \<and> fm_incoming m' = fm_incoming m"
proof -
  have o: "buf_ok (fm_outgoing m)" "buf_content (fm_outgoing m) = drop (i * s) d"
    "fm_outgoing_frag_size m = int s" "fm_outgoing_seq_id m = q" "fm_outgoing_frag_id m = int i"
    "buf_ok (fm_outgoing_return m)" "4 \<le> FRAME_HEADROOM f"
    "FRAME_HEADROOM f + int s \<le> b_capacity (fm_outgoing_return m)"
    using out by (simp_all add: frag_out_def)
  have "i \<le> k - 1" using i by simp
  then have "i * s \<le> (k - 1) * s" by (rule mult_le_mono1)
  also have "\<dots> < length d" using cut by (simp add: frag_cut_def)
  finally have pos: "i * s < length d" .
  have len: "b_len (fm_outgoing m) = int (length d - i * s)"
    using length_buf_content [OF o(1)] o(2) by simp
  have last: "b_len (fm_outgoing m) \<le> fm_outgoing_frag_size m \<longleftrightarrow> Suc i = k"
    using frag_cut_last_iff [OF cut i] len o(3) by simp
  define n where "n = (if Suc i = k then length d - i * s else s)"
  have n: "n \<le> s" "n \<le> length d - i * s" "take n (drop (i * s) d) = frag_payload d s i"
    using frag_cut_last_iff [OF cut i] by (auto simp: n_def frag_payload_def)
  have sz: "(if b_len (fm_outgoing m) \<le> fm_outgoing_frag_size m then b_len (fm_outgoing m)
      else fm_outgoing_frag_size m) = int n"
    using last len o(3) by (simp add: n_def)
  note b0 = buf_init_ok [OF o(6), of "FRAME_HEADROOM f"]
  let ?b0 = "(fm_outgoing_return m)\<lparr>b_len := 0, b_offset := FRAME_HEADROOM f\<rparr>"
  have h: "0 \<le> FRAME_HEADROOM f" "FRAME_HEADROOM f \<le> b_capacity (fm_outgoing_return m)" using o(7,8) by auto
  have room: "int n \<le> buf_room ?b0" using b0(6) [OF h] o(8) n(1) by simp
  have cp: "buf_copy_n ?b0 (fm_outgoing m) (int n) =
      Some (True, buf_append ?b0 (frag_payload d s i), buf_drop (fm_outgoing m) (int n))"
    using buf_copy_n_ok [OF b0(2) [OF h] o(1), of "int n"] len n room o(2) by simp
  have lp: "int (length (frag_payload d s i)) \<le> buf_room ?b0"
    using room n by (simp add: n(3) [symmetric])
  note b1 = buf_append_ok [OF b0(2) [OF h] lp]
  let ?b1 = "buf_append ?b0 (frag_payload d s i)"
  let ?fl = "fragment_flags (if Suc i = k then FRAG_YES_LAST else FRAG_YES_NOTLAST) q (int i) (int s)"
  have hd: "int (length (u32_bytes ?fl)) \<le> b_offset ?b1" using b1(3) o(7) by simp
  note b2 = buf_push_ok [OF b1(1) hd]
  let ?b2 = "buf_push ?b1 (u32_bytes ?fl)"
  have pre: "fragment_prepend_flags ?b1 (if Suc i = k then FRAG_YES_LAST else FRAG_YES_NOTLAST) q (int i) (int s)
      = Some ?b2"
    using hd by (simp add: fragment_prepend_flags_def buf_write_prepend_ok [OF b1(1)])
  have dr: "buf_ok (buf_drop (fm_outgoing m) (int n))"
    "buf_content (buf_drop (fm_outgoing m) (int n)) = drop n (drop (i * s) d)"
    "b_len (buf_drop (fm_outgoing m) (int n)) = b_len (fm_outgoing m) - int n"
    using buf_drop_ok [OF o(1), of "int n"] len n(2) o(2) by simp_all
  have next_part: "drop n (drop (i * s) d) = drop (Suc i * s) d"
  proof (cases "Suc i = k")
    case True
    then show ?thesis using cut by (auto simp: n_def frag_cut_def)
  next
    case False
    then show ?thesis by (simp add: n_def add.commute)
  qed
  let ?m = "m\<lparr>fm_outgoing := buf_drop (fm_outgoing m) (int n), fm_outgoing_frag_id := int i + 1,
                        fm_outgoing_return := (fm_outgoing_return m)\<lparr>b_data := b_data ?b2\<rparr>\<rparr>"
  have z: "Suc i = k \<longrightarrow> b_len (buf_drop (fm_outgoing m) (int n)) = 0"
    using dr(3) len by (auto simp: n_def)
  have "0 < b_len (fm_outgoing m)" using pos unfolding len by linarith
  then have "fragment_ready_to_send m f = Some (Some ?b2, ?m)"
    using z cp pre b0(1) [OF h] last
    unfolding fragment_ready_to_send_def fragment_outgoing_defined_def Let_def sz o(4,5)
    by (simp add: o(3))
  moreover have "buf_ok ((fm_outgoing_return m)\<lparr>b_data := b_data ?b2\<rparr>)"
    using o(6) b2(1,4) b1(4) b0(5) [OF h] by (auto simp: buf_ok_def)
  then have "frag_out f ?m d s q (Suc i)"
    using o dr next_part by (simp add: frag_out_def)
  moreover have "buf_content ?b2 = frag_wire d s q k i"
    using b2(2) b1(2) b0(3) [OF h] by (simp add: frag_wire_def)
  ultimately show ?thesis using b2(1) by auto
qed


text \<open>Everything a sender puts out for one datagram.\<close>

fun fragment_drain :: "nat \<Rightarrow> fragment_master \<Rightarrow> frame \<Rightarrow> (bytes list \<times> fragment_master) option" where
  "fragment_drain 0 m f = Some ([], m)"
| "fragment_drain (Suc fuel) m f =
     do { (r, m1) \<leftarrow> fragment_ready_to_send m f;
          case r of
            None \<Rightarrow> Some ([], m1)
          | Some b \<Rightarrow> do { (xs, m2) \<leftarrow> fragment_drain fuel m1 f; Some (buf_content b # xs, m2) } }"

definition fragment_send ::
  "fragment_master \<Rightarrow> buffer \<Rightarrow> frame \<Rightarrow> (bytes list \<times> fragment_master) option" where
  "fragment_send m buf f =
     do { (m1, b) \<leftarrow> fragment_outgoing m buf f;
          (xs, m2) \<leftarrow> fragment_drain (nat MAX_FRAGS) m1 f;
          Some (buf_content b # xs, m2) }"

lemma fragment_drain_ok:
  "frag_cut d s k \<Longrightarrow> i \<le> k \<Longrightarrow> frag_out f m d s q i \<Longrightarrow> k - i < fuel \<Longrightarrow>
   \<exists>m'. fragment_drain fuel m f = Some (map (frag_wire d s q k) [i..<k], m') \<and> frag_out f m' d s q k"
proof (induction fuel arbitrary: i m)
  case (Suc fuel)
  show ?case
  proof (cases "i = k")
    case True
    with Suc.prems have "buf_ok (fm_outgoing m)" "buf_content (fm_outgoing m) = drop (k * s) d" "length d \<le> k * s"
      by (auto simp: frag_out_def frag_cut_def)
    then have "\<not> fragment_outgoing_defined m"
      using length_buf_content [of "fm_outgoing m"] by (simp add: fragment_outgoing_defined_def)
    then have "fragment_ready_to_send m f = Some (None, m)" by (simp add: fragment_ready_to_send_def)
    then show ?thesis using True Suc.prems(3) by simp
  next
    case False
    with Suc.prems(2) have i: "i < k" by simp
    obtain b m1 where r: "fragment_ready_to_send m f = Some (Some b, m1)"
      "buf_content b = frag_wire d s q k i" "frag_out f m1 d s q (Suc i)"
      using fragment_ready_to_send_ok [OF Suc.prems(1) i Suc.prems(3)] by blast
    have fuel': "k - Suc i < fuel" using i Suc.prems(4) by arith
    obtain m2 where "fragment_drain fuel m1 f = Some (map (frag_wire d s q k) [Suc i..<k], m2)"
      "frag_out f m2 d s q k"
      using Suc.IH [OF Suc.prems(1) Suc_leI [OF i] r(3) fuel'] by blast
    then show ?thesis using r i by (auto simp: upt_conv_Cons)
  qed
qed simp

text \<open>A sender with its buffers allocated for the frame.\<close>

definition frag_snd_ok :: "frame \<Rightarrow> fragment_master \<Rightarrow> bool" where
  "frag_snd_ok f m \<longleftrightarrow> buf_ok (fm_outgoing m) \<and> buf_ok (fm_outgoing_return m) \<and>
     0 \<le> fm_outgoing_seq_id m \<and> fm_outgoing_seq_id m < N_SEQ_ID \<and> 4 \<le> FRAME_HEADROOM f \<and>
     4 \<le> PAYLOAD_SIZE_DYNAMIC f \<and> PAYLOAD_SIZE_DYNAMIC f < 65536 \<and>
     FRAME_HEADROOM f + PAYLOAD_SIZE_DYNAMIC f \<le> b_capacity (fm_outgoing_return m)"

lemma fragment_send_ok:
  assumes ok: "frag_snd_ok f m" and b: "buf_ok buf" "PAYLOAD_SIZE_DYNAMIC f < b_len buf"
    and fits: "FRAME_HEADROOM f + b_len buf \<le> b_capacity (fm_outgoing m)"
    and few: "frag_count (b_len buf) (PAYLOAD_SIZE_DYNAMIC f - PAYLOAD_SIZE_DYNAMIC f mod 4) \<le> MAX_FRAGS"
  shows "\<exists>s k q m'. frag_cut (buf_content buf) s k \<and> 2 \<le> k \<and> 0 \<le> q \<and> q < N_SEQ_ID \<and>
    fragment_send m buf f = Some (map (frag_wire (buf_content buf) s q k) [0..<k], m')"
proof -
  let ?d = "buf_content buf" and ?P = "PAYLOAD_SIZE_DYNAMIC f"
  have o: "buf_ok (fm_outgoing m)" "buf_ok (fm_outgoing_return m)" "0 \<le> fm_outgoing_seq_id m"
    "fm_outgoing_seq_id m < N_SEQ_ID" "4 \<le> FRAME_HEADROOM f" "4 \<le> ?P" "?P < 65536"
    "FRAME_HEADROOM f + ?P \<le> b_capacity (fm_outgoing_return m)"
    using ok by (simp_all add: frag_snd_ok_def)
  have len: "b_len buf = int (length ?d)" "0 < b_len buf" using length_buf_content [OF b(1)] b(2) o(6) by simp_all
  obtain sz where sz: "optimal_fragment_size (b_len buf) ?P = Some sz" "0 < sz" "sz \<le> ?P" "sz mod 4 = 0"
    "frag_count (b_len buf) sz \<le> MAX_FRAGS"
    using optimal_fragment_size_ok [OF len(2) o(6)] few by auto
  define s where "s = nat sz"
  define k where "k = nat (frag_count (b_len buf) sz)"
  have s1: "sz = int s" "0 < s" "s < 65536"
    using sz o(7) by (auto simp: s_def)
  moreover have "int (s mod 4) = 0" using sz(4) s1(1) by (simp add: zmod_int)
  ultimately have s: "sz = int s" "0 < s" "s mod 4 = 0" "s < 65536" by simp_all
  have "frag_count (b_len buf) sz = (int (length ?d) - 1) div sz + 1"
    unfolding frag_count_def len(1) using sz(2)
    by (metis add.commute add_diff_eq diff_add_eq div_add_self2 less_irrefl)
  moreover have "0 \<le> (int (length ?d) - 1) div sz" using len sz(2) by (simp add: pos_imp_zdiv_nonneg_iff)
  ultimately have k: "int k = (int (length ?d) - 1) div sz + 1" "0 < k" by (simp_all add: k_def)
  have dm: "(int k - 1) * sz + (int (length ?d) - 1) mod sz = int (length ?d) - 1"
    "0 \<le> (int (length ?d) - 1) mod sz" "(int (length ?d) - 1) mod sz < sz"
    using div_mult_mod_eq [of "int (length ?d) - 1" sz] k(1) sz(2) by auto
  have "int ((k - 1) * s) = (int k - 1) * sz" using k(2) s(1) by (simp add: of_nat_diff)
  also have "\<dots> < int (length ?d)" using dm by linarith
  finally have lo: "(k - 1) * s < length ?d" by (simp only: of_nat_less_iff)
  have "int (length ?d) \<le> (int k - 1) * sz + sz" using dm by linarith
  also have "\<dots> = int (k * s)" using s(1) by (simp add: algebra_simps)
  finally have hi: "length ?d \<le> k * s" by (simp only: of_nat_le_iff)
  have cut: "frag_cut ?d s k"
    using s k lo hi sz(5) by (simp add: frag_cut_def k_def MAX_FRAGS_def)
  have k2: "2 \<le> k"
  proof (rule ccontr)
    assume "\<not> 2 \<le> k"
    then have "k = 1" using k(2) by simp
    with hi have "int (length ?d) \<le> int s" by simp
    with b(2) sz(3) len(1) s(1) show False by linarith
  qed
  obtain q where q: "modulo_add (fm_outgoing_seq_id m) 1 N_SEQ_ID = Some q" "0 \<le> q" "q < N_SEQ_ID"
    using modulo_add_eq [of "fm_outgoing_seq_id m" N_SEQ_ID 1] o(3,4) by (auto simp: N_SEQ_ID_def)
  have h: "0 \<le> FRAME_HEADROOM f" "FRAME_HEADROOM f \<le> b_capacity (fm_outgoing m)"
    using o(5) fits len(2) by auto
  note b0 = buf_init_ok [OF o(1) h]
  let ?o0 = "(fm_outgoing m)\<lparr>b_len := 0, b_offset := FRAME_HEADROOM f\<rparr>"
  have room: "b_len buf \<le> buf_room ?o0" using b0(6) fits by simp
  then have cp: "buf_copy ?o0 buf = Some (True, buf_append ?o0 ?d)"
    by (simp add: buf_copy_ok [OF b0(2) b(1)])
  note o1 = buf_append_ok [OF b0(2), of ?d]
  let ?m1 = "m\<lparr>fm_outgoing_frag_size := sz, fm_outgoing := buf_append ?o0 ?d, fm_outgoing_seq_id := q,
    fm_outgoing_frag_id := 0\<rparr>"
  have out: "frag_out f ?m1 ?d s q 0"
    using o o1 room len(1) s(1) b0(3) sz(3) by (simp add: frag_out_def)
  obtain b1 m2 where r: "fragment_ready_to_send ?m1 f = Some (Some b1, m2)"
    "buf_content b1 = frag_wire ?d s q k 0" "frag_out f m2 ?d s q 1"
    using fragment_ready_to_send_ok [OF cut k(2) out] by auto
  have "k \<le> 32" using cut by (simp add: frag_cut_def)
  then have k1: "1 \<le> k" and fl: "k - 1 < nat MAX_FRAGS" using k2 by (simp_all add: MAX_FRAGS_def)
  obtain m3 where d: "fragment_drain (nat MAX_FRAGS) m2 f = Some (map (frag_wire ?d s q k) [1..<k], m3)"
    using fragment_drain_ok [OF cut k1 r(3) fl] by blast
  have "\<not> b_len buf > sz * MAX_FRAGS"
  proof -
    have "k * s \<le> 32 * s" using cut by (simp add: frag_cut_def)
    with hi have "length ?d \<le> 32 * s" by linarith
    then show ?thesis using len(1) s(1) by (simp add: MAX_FRAGS_def)
  qed
  then have "fragment_outgoing m buf f = Some (m2, b1)"
    using len(2) b(2) sz(1) b0(1) cp q(1) r(1) by (simp add: fragment_outgoing_def Let_def)
  moreover have "[0..<k] = 0 # [1..<k]" using k(2) by (simp add: upt_conv_Cons)
  ultimately have "fragment_send m buf f = Some (map (frag_wire ?d s q k) [0..<k], m3)"
    using d r(2) by (simp add: fragment_send_def)
  with cut k2 q(2,3) show ?thesis by blast
qed

section \<open>The window of partial datagrams\<close>

definition fl_ok :: "fragment_list \<Rightarrow> bool" where
  "fl_ok l \<longleftrightarrow> 0 \<le> fl_seq_id l \<and> fl_seq_id l < N_SEQ_ID \<and> 0 \<le> fl_index l \<and> fl_index l < N_FRAG_BUF \<and>
     int (length (fl_fragments l)) = N_FRAG_BUF"

text \<open>What moving the window keeps: the buffers, and that nothing becomes defined.\<close>

definition fl_keeps :: "fragment_list \<Rightarrow> fragment_list \<Rightarrow> bool" where
  "fl_keeps l l' \<longleftrightarrow> length (fl_fragments l') = length (fl_fragments l) \<and>
     (\<forall>i < length (fl_fragments l). fr_buf (fl_fragments l' ! i) = fr_buf (fl_fragments l ! i) \<and>
        (fr_defined (fl_fragments l' ! i) \<longrightarrow> fr_defined (fl_fragments l ! i)))"

lemma fl_keeps_trans: "fl_keeps l l' \<Longrightarrow> fl_keeps l' l'' \<Longrightarrow> fl_keeps l l''"
  by (auto simp: fl_keeps_def)

lemma fragment_list_advance_ok:
  "fl_ok l \<Longrightarrow> \<exists>l'. fragment_list_advance n l = Some l' \<and> fl_ok l' \<and> fl_keeps l l' \<and>
     fl_seq_id l' = (fl_seq_id l + int n) mod N_SEQ_ID \<and> fl_index l' = (fl_index l + int n) mod N_FRAG_BUF"
proof (induction n arbitrary: l)
  case 0
  then show ?case by (simp add: fl_keeps_def fl_ok_def)
next
  case (Suc n)
  let ?ix = "(fl_index l + 1) mod N_FRAG_BUF" and ?sq = "(fl_seq_id l + 1) mod N_SEQ_ID"
  have ix: "modulo_add (fl_index l) 1 N_FRAG_BUF = Some ?ix" "0 \<le> ?ix" "?ix < N_FRAG_BUF"
    using Suc.prems modulo_add_eq [of "fl_index l" N_FRAG_BUF 1] by (auto simp: fl_ok_def N_FRAG_BUF_def)
  have sq: "modulo_add (fl_seq_id l) 1 N_SEQ_ID = Some ?sq" "0 \<le> ?sq" "?sq < N_SEQ_ID"
    using Suc.prems modulo_add_eq [of "fl_seq_id l" N_SEQ_ID 1] by (auto simp: fl_ok_def N_SEQ_ID_def)
  let ?fr = "fl_fragments l ! nat ?ix"
  let ?frs = "(fl_fragments l)[nat ?ix := ?fr\<lparr>fr_defined := False\<rparr>]"
  let ?l = "l\<lparr>fl_index := ?ix, fl_fragments := ?frs, fl_seq_id := ?sq\<rparr>"
  have len: "int (length (fl_fragments l)) = N_FRAG_BUF" using Suc.prems by (simp add: fl_ok_def)
  then have acc: "arr_get (fl_fragments l) ?ix = Some ?fr"
    "arr_set (fl_fragments l) ?ix (?fr\<lparr>fr_defined := False\<rparr>) = Some ?frs"
    using ix(2,3) by (simp_all add: arr_get_Some arr_set_Some)
  have ok: "fl_ok ?l" using ix sq len by (simp add: fl_ok_def)
  have keeps: "fl_keeps l ?l" by (simp add: fl_keeps_def nth_list_update_if)
  obtain l' where l': "fragment_list_advance n ?l = Some l'" "fl_ok l'" "fl_keeps ?l l'"
    "fl_seq_id l' = (?sq + int n) mod N_SEQ_ID" "fl_index l' = (?ix + int n) mod N_FRAG_BUF"
    using Suc.IH [OF ok] by auto
  have "(?sq + int n) mod N_SEQ_ID = (fl_seq_id l + int (Suc n)) mod N_SEQ_ID"
    "(?ix + int n) mod N_FRAG_BUF = (fl_index l + int (Suc n)) mod N_FRAG_BUF"
    by (simp_all add: mod_add_left_eq add.assoc)
  then show ?case
    using l' ix(1) sq(1) acc fl_keeps_trans [OF keeps l'(3)] by simp
qed

text \<open>
  The window finds a place for every sequence identifier, and finds the same place again
  without moving.
\<close>

lemma fragment_list_get_buf_ok:
  assumes "fl_ok l" "0 \<le> q" "q < N_SEQ_ID"
  shows "\<exists>ix l'. fragment_list_get_buf l q = Some (ix, l') \<and> fl_ok l' \<and> fl_keeps l l' \<and>
    0 \<le> ix \<and> ix < N_FRAG_BUF \<and> fragment_list_get_buf l' q = Some (ix, l')"
proof -
  have l: "0 \<le> fl_seq_id l" "fl_seq_id l < N_SEQ_ID" "0 \<le> fl_index l" "fl_index l < N_FRAG_BUF"
    "int (length (fl_fragments l)) = N_FRAG_BUF"
    using assms(1) by (simp_all add: fl_ok_def)
  obtain d where d: "modulo_subtract q (fl_seq_id l) N_SEQ_ID = Some d" "(fl_seq_id l + d) mod N_SEQ_ID = q"
    using modulo_subtract_eq [OF assms(2,3) l(1,2)] by blast
  have same: "modulo_subtract q q N_SEQ_ID = Some 0"
    using assms(2,3) by (simp add: modulo_subtract_def Let_def)
  have stay: "fragment_list_get_buf l' q = Some (fl_index l', l')" if "fl_seq_id l' = q" "fl_ok l'" for l'
    using that same modulo_add_eq [of "fl_index l'" N_FRAG_BUF 0]
    by (simp add: fragment_list_get_buf_def N_FRAG_BUF_def fl_ok_def)
  consider "N_FRAG_BUF \<le> \<bar>d\<bar>" | "\<bar>d\<bar> < N_FRAG_BUF" "0 < d" | "\<bar>d\<bar> < N_FRAG_BUF" "d \<le> 0" by linarith
  then show ?thesis
  proof cases
    case 1
    let ?l = "l\<lparr>fl_fragments := map (\<lambda>fr. fr\<lparr>fr_defined := False\<rparr>) (fl_fragments l), fl_index := 0, fl_seq_id := q\<rparr>"
    have ok: "fl_ok ?l" using l assms(2,3) by (simp add: fl_ok_def N_FRAG_BUF_def)
    have "fragment_list_get_buf l q = Some (0, ?l)"
      using 1 d(1) modulo_add_eq [of 0 N_FRAG_BUF 0]
      by (simp add: fragment_list_get_buf_def N_FRAG_BUF_def)
    moreover have "fl_keeps l ?l" by (simp add: fl_keeps_def)
    ultimately show ?thesis using ok stay [OF _ ok] by (auto simp: N_FRAG_BUF_def)
  next
    case 2
    obtain l' where l': "fragment_list_advance (nat d) l = Some l'" "fl_ok l'" "fl_keeps l l'"
      "fl_seq_id l' = (fl_seq_id l + d) mod N_SEQ_ID"
      using fragment_list_advance_ok [OF assms(1), of "nat d"] 2 by auto
    have "fragment_list_get_buf l q = Some (fl_index l', l')"
      using 2 d(1) l'(1,2) modulo_add_eq [of "fl_index l'" N_FRAG_BUF 0]
      by (simp add: fragment_list_get_buf_def N_FRAG_BUF_def fl_ok_def)
    then show ?thesis using l' d(2) stay [of l'] by (auto simp: fl_ok_def)
  next
    case 3
    have "fragment_list_get_buf l q = Some ((fl_index l + d) mod N_FRAG_BUF, l)"
      using 3 d(1) l modulo_add_eq [of "fl_index l" N_FRAG_BUF d]
      by (simp add: fragment_list_get_buf_def N_FRAG_BUF_def)
    then show ?thesis
      using assms(1) by (auto simp: fl_keeps_def N_FRAG_BUF_def)
  qed
qed

lemma fragment_list_get_buf_stable:
  assumes l: "fl_ok l" and q: "0 \<le> q" "q < N_SEQ_ID" and g: "fragment_list_get_buf l q = Some (ix, l)"
  shows "fragment_list_get_buf (l\<lparr>fl_fragments := frs\<rparr>) q = Some (ix, l\<lparr>fl_fragments := frs\<rparr>)"
proof -
  have b: "0 \<le> fl_seq_id l" "fl_seq_id l < N_SEQ_ID" using l by (simp_all add: fl_ok_def)
  obtain d where d: "modulo_subtract q (fl_seq_id l) N_SEQ_ID = Some d" "(fl_seq_id l + d) mod N_SEQ_ID = q"
    using modulo_subtract_eq [OF q b] by blast
  have same: "modulo_subtract q q N_SEQ_ID = Some 0"
    using q by (simp add: modulo_subtract_def Let_def)
  have "\<bar>d\<bar> < N_FRAG_BUF \<and> d \<le> 0"
  proof (rule ccontr)
    assume n: "\<not> ?thesis"
    have "fl_seq_id l = q"
    proof (cases "\<bar>d\<bar> \<ge> N_FRAG_BUF")
      case True
      with g d(1) have "l = l\<lparr>fl_fragments := map (\<lambda>fr. fr\<lparr>fr_defined := False\<rparr>) (fl_fragments l),
          fl_index := 0, fl_seq_id := q\<rparr>"
        by (auto simp: fragment_list_get_buf_def split: Option.bind_splits)
      then show ?thesis by (metis fragment_list.select_convs(1) fragment_list.surjective fragment_list.update_convs(1))
    next
      case False
      obtain l' where "fragment_list_advance (nat d) l = Some l'" "fl_seq_id l' = (fl_seq_id l + int (nat d)) mod N_SEQ_ID"
        using fragment_list_advance_ok [OF l, of "nat d"] by auto
      moreover from this(1) have "l' = l"
        using False g d(1) by (auto simp: fragment_list_get_buf_def split: Option.bind_splits)
      ultimately show ?thesis using d(2) False n by simp
    qed
    with d(1) same have "d = 0" by simp
    with n show False by (simp add: N_FRAG_BUF_def)
  qed
  then show ?thesis
    using g d(1) by (auto simp: fragment_list_get_buf_def split: Option.bind_splits)
qed

section \<open>Putting the pieces together\<close>

lemma length_frag_payload: "length (frag_payload d s i) = min s (length d - i * s)"
  by (simp add: frag_payload_def min.commute)

lemma frag_cut_ends:
  assumes "frag_cut d s k" "i < k"
  shows "i * s < length d" "i * s + length (frag_payload d s i) \<le> length d"
    "Suc i = k \<Longrightarrow> i * s + length (frag_payload d s i) = length d"
    "Suc i \<noteq> k \<Longrightarrow> length (frag_payload d s i) = s"
proof -
  have "i * s \<le> (k - 1) * s" using assms(2) by (intro mult_le_mono1) simp
  also have "\<dots> < length d" using assms(1) by (simp add: frag_cut_def)
  finally show pos: "i * s < length d" .
  then show "i * s + length (frag_payload d s i) \<le> length d" by (simp add: length_frag_payload)
  show "i * s + length (frag_payload d s i) = length d" if "Suc i = k"
    using frag_cut_last_iff [OF assms] that pos by (simp add: length_frag_payload)
  show "length (frag_payload d s i) = s" if "Suc i \<noteq> k"
    using frag_cut_last_iff [OF assms] that by (simp add: length_frag_payload)
qed

lemma piece_update:
  assumes "i \<le> length a" "p + m \<le> i \<or> i + length x \<le> p"
  shows "take m (drop p (take i a @ x @ drop (i + length x) a)) = take m (drop p a)"
  using assms by (auto simp: drop_take take_take min_def)

lemma piece_new: "i \<le> length a \<Longrightarrow> take (length x) (drop i (take i a @ x @ ys)) = x"
  by simp

lemma pieces_all:
  assumes cut: "frag_cut d s k" and a: "length d \<le> length a"
    and p: "\<forall>i < k. take (length (frag_payload d s i)) (drop (i * s) a) = frag_payload d s i"
  shows "take (length d) a = d"
proof (rule nth_equalityI)
  show "length (take (length d) a) = length d" using a by simp
  fix x assume "x < length (take (length d) a)"
  then have x: "x < length d" by simp
  let ?i = "x div s" and ?r = "x mod s"
  have s: "0 < s" "length d \<le> k * s" using cut by (simp_all add: frag_cut_def)
  have xi: "?i * s + ?r = x" "?r < s" using s(1) by simp_all
  have i: "?i < k" using x s by (simp add: div_less_iff_less_mult)
  have r: "?r < length (frag_payload d s ?i)"
    unfolding length_frag_payload min_less_iff_conj using xi x by linarith
  have le: "?i * s \<le> length a" "?i * s \<le> length d" using xi(1) x a by linarith+
  have "take (length (frag_payload d s ?i)) (drop (?i * s) a) ! ?r = a ! x"
    using nth_drop [OF le(1), of ?r] by (simp only: nth_take [OF r] xi(1))
  moreover have "frag_payload d s ?i ! ?r = d ! x"
    using nth_drop [OF le(2), of ?r] by (simp only: frag_payload_def nth_take [OF xi(2)] xi(1))
  ultimately show "take (length d) a ! x = d ! x"
    using p i x by simp
qed

section \<open>The receiver\<close>

text \<open>The bits of the reassembly map after the fragments in \<open>A\<close>: the last one fills the rest.\<close>

definition frag_bit :: "nat \<Rightarrow> nat set \<Rightarrow> nat \<Rightarrow> bool" where
  "frag_bit k A j \<longleftrightarrow> j \<in> A \<or> k - 1 \<in> A \<and> k - 1 \<le> j"

lemma frag_bit_full:
  assumes "0 < k" "k \<le> 32" "A \<subseteq> {..<k}"
  shows "(\<forall>j < 32. frag_bit k A j) \<longleftrightarrow> A = {..<k}"
proof
  assume all: "\<forall>j < 32. frag_bit k A j"
  have "j \<in> A" if "j < k" for j
    using all [rule_format, of j] that assms(1,2) by (cases "j = k - 1") (auto simp: frag_bit_def)
  with assms(3) show "A = {..<k}" by auto
next
  assume "A = {..<k}"
  then show "\<forall>j < 32. frag_bit k A j" using assms(1) by (auto simp: frag_bit_def)
qed

lemma frag_map_full: "w AND FRAG_MAP_MASK = FRAG_MAP_MASK \<longleftrightarrow> (\<forall>j < 32. bit w j)" for w :: u32
proof -
  have m: "FRAG_MAP_MASK = - 1" by code_simp
  have "w = - 1 \<longleftrightarrow> (\<forall>j < 32. bit w j)"
    by (auto simp: bit_eq_iff bit_simps)
  then show ?thesis by (simp add: m)
qed

text \<open>A reassembly buffer that holds exactly the fragments in \<open>A\<close>.\<close>

definition frag_part :: "fragment \<Rightarrow> int \<Rightarrow> bytes \<Rightarrow> nat \<Rightarrow> nat \<Rightarrow> nat set \<Rightarrow> bool" where
  "frag_part fr hr d s k A \<longleftrightarrow> fr_defined fr \<and> fr_max_frag_size fr = int s \<and> buf_ok (fr_buf fr) \<and>
     b_offset (fr_buf fr) = hr \<and> hr + int (length d) \<le> b_capacity (fr_buf fr) \<and>
     b_len (fr_buf fr) \<le> int (length d) \<and> (k - 1 \<in> A \<longrightarrow> b_len (fr_buf fr) = int (length d)) \<and>
     (\<forall>j < 32. bit (fr_map fr) j \<longleftrightarrow> frag_bit k A j) \<and>
     (\<forall>i \<in> A. take (length (frag_payload d s i)) (drop (i * s) (buf_area (fr_buf fr))) = frag_payload d s i)"

lemma frag_part_start:
  assumes "buf_ok b" "0 \<le> hr" "hr + int (length d) \<le> b_capacity b"
  shows "frag_part (fr\<lparr>fr_defined := True, fr_max_frag_size := int s, fr_map := 0,
     fr_buf := b\<lparr>b_len := 0, b_offset := hr\<rparr>\<rparr>) hr d s k {}"
  using buf_init_ok [OF assms(1,2)] assms by (simp add: frag_part_def frag_bit_def)

lemma frag_part_add:
  assumes cut: "frag_cut d s k" and i: "i < k" and A: "A \<subseteq> {..<k}" and part: "frag_part fr hr d s k A"
    and b: "buf_ok b" "buf_content b = frag_payload d s i"
  shows "\<exists>b'. buf_copy_range (fr_buf fr) (int i * int s) b 0 (b_len b) = Some (True, b') \<and>
    frag_part (fr\<lparr>fr_buf := b', fr_map := fr_map fr OR
        push_bit i (if Suc i = k then FRAG_MAP_MASK else 1), fr_timestamp := now\<rparr>) hr d s k (insert i A)"
proof -
  let ?p = "frag_payload d s i"
  have p: "buf_ok (fr_buf fr)" "b_offset (fr_buf fr) = hr" "hr + int (length d) \<le> b_capacity (fr_buf fr)"
    "b_len (fr_buf fr) \<le> int (length d)" "k - 1 \<in> A \<longrightarrow> b_len (fr_buf fr) = int (length d)"
    "\<And>j. j < 32 \<Longrightarrow> bit (fr_map fr) j \<longleftrightarrow> frag_bit k A j"
    "\<And>j. j \<in> A \<Longrightarrow> take (length (frag_payload d s j)) (drop (j * s) (buf_area (fr_buf fr))) = frag_payload d s j"
    using part by (simp_all add: frag_part_def)
  note e = frag_cut_ends [OF cut i]
  have len: "b_len b = int (length ?p)" using length_buf_content [OF b(1)] b(2) by simp
  have fits: "b_offset (fr_buf fr) + int (i * s) + b_len b \<le> b_capacity (fr_buf fr)"
    using p(2,3) e(2) len by linarith
  obtain b' where b': "buf_copy_range (fr_buf fr) (int (i * s)) b 0 (b_len b) = Some (True, b')"
    "buf_ok b'" "b_offset b' = hr" "b_capacity b' = b_capacity (fr_buf fr)"
    "b_len b' = max (b_len (fr_buf fr)) (int (i * s) + b_len b)"
    "buf_area b' = take (i * s) (buf_area (fr_buf fr)) @ ?p @ drop (i * s + length ?p) (buf_area (fr_buf fr))"
    using buf_copy_range_ok [OF p(1) b(1) _ fits] b(2) p(2) by (metis nat_int of_nat_0_le_iff)
  have area: "i * s \<le> length (buf_area (fr_buf fr))"
    using length_buf_area [OF p(1)] p(2,3) e(1) by linarith
  have pieces: "take (length (frag_payload d s j)) (drop (j * s) (buf_area b')) = frag_payload d s j"
    if "j \<in> insert i A" for j
  proof (cases "j = i")
    case True
    show ?thesis unfolding b'(6) True by (rule piece_new [OF area])
  next
    case False
    with that A have j: "j \<in> A" "j < k" by auto
    have apart: "j * s + length (frag_payload d s j) \<le> i * s \<or> i * s + length ?p \<le> j * s"
    proof (cases "j < i")
      case True
      then have "Suc j * s \<le> i * s" by (intro mult_le_mono1) simp
      then show ?thesis by (simp add: length_frag_payload min_def)
    next
      case ge: False
      with False have "Suc i * s \<le> j * s" by (intro mult_le_mono1) simp
      then show ?thesis by (simp add: length_frag_payload min_def)
    qed
    show ?thesis unfolding b'(6) piece_update [OF area apart] by (rule p(7) [OF j(1)])
  qed
  have bits: "bit (fr_map fr OR push_bit i (if Suc i = k then FRAG_MAP_MASK else 1)) j \<longleftrightarrow> frag_bit k (insert i A) j"
    if "j < 32" for j
  proof -
    have m: "FRAG_MAP_MASK = - 1" by code_simp
    have "bit (push_bit i (if Suc i = k then FRAG_MAP_MASK else 1 :: u32)) j \<longleftrightarrow>
        (if Suc i = k then i \<le> j else j = i)"
      using that by (auto simp: m bit_simps)
    then show ?thesis using p(6) [OF that] i by (auto simp: bit_or_iff frag_bit_def)
  qed
  have "b_len b' \<le> int (length d)" "k - 1 \<in> insert i A \<longrightarrow> b_len b' = int (length d)"
  proof -
    have bl: "b_len b' = max (b_len (fr_buf fr)) (int (i * s + length ?p))" using b'(5) len by simp
    have up: "int (i * s + length ?p) \<le> int (length d)" using e(2) by (simp only: of_nat_le_iff)
    show "b_len b' \<le> int (length d)" by (simp only: bl max.bounded_iff p(4) up simp_thms)
    show "k - 1 \<in> insert i A \<longrightarrow> b_len b' = int (length d)"
    proof
      assume "k - 1 \<in> insert i A"
      then consider "k - 1 \<in> A" | "Suc i = k" using i by fastforce
      then show "b_len b' = int (length d)"
        by cases (use p(4,5) e(3) up in \<open>simp_all only: bl max_absorb1 max_absorb2 simp_thms\<close>)
    qed
  qed
  then show ?thesis
    using part b' pieces bits p(3) by (intro exI [of _ b']) (simp add: frag_part_def)
qed

text \<open>A receiver that has a place for the sequence identifier \<open>q\<close> and holds there the fragments in \<open>A\<close>.\<close>

definition frag_wait ::
  "frame \<Rightarrow> fragment_master \<Rightarrow> bytes \<Rightarrow> nat \<Rightarrow> int \<Rightarrow> nat \<Rightarrow> int \<Rightarrow> nat set \<Rightarrow> bool" where
  "frag_wait f m d s q k ix A \<longleftrightarrow>
     (let l = fm_incoming m; fr = fl_fragments l ! nat ix; hr = FRAME_HEADROOM_ADJ f FRAME_HEADROOM_MARKER_FRAGMENT
      in fl_ok l \<and> fragment_list_get_buf l q = Some (ix, l) \<and> 0 \<le> ix \<and> ix < N_FRAG_BUF \<and> 0 \<le> hr \<and>
         (if A = {} then \<not> fr_defined fr \<and> buf_ok (fr_buf fr) \<and> hr + int (length d) \<le> b_capacity (fr_buf fr)
          else frag_part fr hr d s k A))"

lemma fragment_incoming_wire:
  assumes cut: "frag_cut d s k" and i: "i < k" and A: "A \<subseteq> {..<k}" and q: "0 \<le> q" "q < N_SEQ_ID"
    and w: "frag_wait f m d s q k ix A" and b: "buf_ok b" "buf_content b = frag_wire d s q k i"
  shows "\<exists>m' out. fragment_incoming m b f now = Some (m', out) \<and>
    (if insert i A = {..<k} then buf_content out = d
     else buf_content out = [] \<and> frag_wait f m' d s q k ix (insert i A))"
proof -
  let ?hr = "FRAME_HEADROOM_ADJ f FRAME_HEADROOM_MARKER_FRAGMENT" and ?l = "fm_incoming m"
  let ?fr = "fl_fragments ?l ! nat ix" and ?p = "frag_payload d s i"
  let ?t = "if Suc i = k then FRAG_YES_LAST else FRAG_YES_NOTLAST"
  let ?fl = "fragment_flags ?t q (int i) (int s)" and ?b1 = "buf_drop b 4"
  have l: "fl_ok ?l" "fragment_list_get_buf ?l q = Some (ix, ?l)" "0 \<le> ix" "ix < N_FRAG_BUF" "0 \<le> ?hr"
    "A = {} \<Longrightarrow> \<not> fr_defined ?fr \<and> buf_ok (fr_buf ?fr) \<and> ?hr + int (length d) \<le> b_capacity (fr_buf ?fr)"
    "A \<noteq> {} \<Longrightarrow> frag_part ?fr ?hr d s k A"
    using w by (auto simp: frag_wait_def Let_def)
  have s: "0 < s" "s mod 4 = 0" "s < 65536" "k \<le> 32" "0 < k" using cut by (simp_all add: frag_cut_def)
  note rd = buf_read_u32_prefix [OF b(1) b(2) [unfolded frag_wire_def]]
  have len: "b_len b > 0" "b_len ?b1 = int (length ?p)"
    using length_buf_content [OF b(1)] b(2) length_buf_content [OF rd(2)] rd(3)
    by (simp_all add: frag_wire_def)
  have "int (s mod 4) = 0" using s(2) by simp
  then have s4: "int s mod 4 = 0" by (simp only: of_nat_mod of_nat_numeral)
  note fl = fragment_flags_read [of ?t q "int i" "int s"]
  have fields: "uint (drop_bit FRAG_TYPE_SHIFT ?fl AND FRAG_TYPE_MASK) = ?t"
    "uint (drop_bit FRAG_SEQ_ID_SHIFT ?fl AND FRAG_SEQ_ID_MASK) = q"
    "uint (drop_bit FRAG_ID_SHIFT ?fl AND FRAG_ID_MASK) = int i"
    "(if ?t = FRAG_YES_LAST then uint (push_bit FRAG_SIZE_ROUND_SHIFT (drop_bit FRAG_SIZE_SHIFT ?fl AND FRAG_SIZE_MASK))
      else b_len ?b1) = int s"
    using fl q i s s4 frag_cut_ends(4) [OF cut i] len(2)
    by (auto simp: MAX_FRAGS_def FRAG_YES_LAST_def FRAG_YES_NOTLAST_def split: if_splits)
  have get: "arr_get (fl_fragments ?l) ix = Some ?fr"
    using l(1,3,4) by (simp add: arr_get_Some fl_ok_def)
  define fr1 where "fr1 = (if \<not> fr_defined ?fr \<or> fr_max_frag_size ?fr \<noteq> int s
     then ?fr\<lparr>fr_defined := True, fr_max_frag_size := int s, fr_map := 0,
            fr_buf := (fr_buf ?fr)\<lparr>b_len := 0, b_offset := ?hr\<rparr>\<rparr> else ?fr)"
  have fr1: "frag_part fr1 ?hr d s k A"
  proof (cases "A = {}")
    case True
    with l(6) frag_part_start [where b = "fr_buf ?fr" and hr = ?hr and d = d and fr = ?fr and s = s and k = k] l(5) show ?thesis by (simp add: fr1_def)
  next
    case False
    with l(7) show ?thesis by (simp add: fr1_def frag_part_def)
  qed
  have start: "(if \<not> fr_defined ?fr \<or> fr_max_frag_size ?fr \<noteq> int s
      then (let (ok, b) = buf_init (fr_buf ?fr) ?hr
            in do { ASSERT ok; Some (?fr\<lparr>fr_defined := True, fr_max_frag_size := int s, fr_map := 0, fr_buf := b\<rparr>) })
      else Some ?fr) = Some fr1"
  proof (cases "A = {}")
    case True
    with l(5,6) have "buf_init (fr_buf ?fr) ?hr = (True, (fr_buf ?fr)\<lparr>b_len := 0, b_offset := ?hr\<rparr>)"
      by (intro buf_init_ok) auto
    then show ?thesis by (simp add: fr1_def)
  next
    case False
    with l(7) show ?thesis by (simp add: fr1_def frag_part_def)
  qed
  let ?m = "fr_map fr1 OR push_bit i (if Suc i = k then FRAG_MAP_MASK else 1)"
  obtain b' where cp: "buf_copy_range (fr_buf fr1) (int i * int s) ?b1 0 (b_len ?b1) = Some (True, b')"
    and part: "frag_part (fr1\<lparr>fr_buf := b', fr_map := ?m, fr_timestamp := now\<rparr>) ?hr d s k (insert i A)"
    using frag_part_add [OF cut i A fr1 rd(2,3)] by blast
  let ?full = "?m AND FRAG_MAP_MASK = FRAG_MAP_MASK"
  let ?fr2 = "fr1\<lparr>fr_buf := b', fr_map := ?m, fr_timestamp := now, fr_defined := \<not> ?full\<rparr>"
  let ?l2 = "?l\<lparr>fl_fragments := (fl_fragments ?l)[nat ix := ?fr2]\<rparr>"
  have full: "?full \<longleftrightarrow> insert i A = {..<k}"
    using part frag_bit_full [OF s(5,4), of "insert i A"] i A unfolding frag_map_full
    by (auto simp: frag_part_def)
  have set: "arr_set (fl_fragments ?l) ix ?fr2 = Some ((fl_fragments ?l)[nat ix := ?fr2])"
    using l(1,3,4) by (simp add: arr_set_Some fl_ok_def)
  have join: "fragment_join m ?b1 f now ?fl ?t =
      Some (m\<lparr>fm_incoming := ?l2\<rparr>, if ?full then b' else ?b1\<lparr>b_len := 0\<rparr>)"
  proof -
    have tl: "?t = FRAG_YES_LAST \<longleftrightarrow> Suc i = k" by (simp add: FRAG_YES_LAST_def FRAG_YES_NOTLAST_def)
    show ?thesis
      unfolding fragment_join_def fields Let_def
      by (simp only: l(2) Option.bind.simps prod.case get and_round s4 simp_thms if_False
          start [unfolded Let_def] cp nat_int tl set of_nat_mult)
  qed
  have inc: "fragment_incoming m b f now = fragment_join m ?b1 f now ?fl ?t"
    unfolding fragment_incoming_def using len(1) rd(1) fields(1)
    by (simp add: FRAG_WHOLE_def FRAG_YES_LAST_def FRAG_YES_NOTLAST_def)
  show ?thesis
  proof (cases "insert i A = {..<k}")
    case True
    have b': "b_len b' = int (length d)" "length d \<le> length (buf_area b')"
      "\<forall>j < k. take (length (frag_payload d s j)) (drop (j * s) (buf_area b')) = frag_payload d s j"
      using part True s(5) length_buf_area [of b'] by (auto simp: frag_part_def)
    have "buf_content b' = d"
      using pieces_all [OF cut b'(2,3)] b'(1) by (simp add: buf_content_area)
    then show ?thesis using inc join full True by simp
  next
    case False
    let ?fr3 = "fr1\<lparr>fr_buf := b', fr_map := ?m, fr_timestamp := now\<rparr>"
    have eq: "?fr2 = ?fr3" using False full part by (simp add: frag_part_def)
    have ixl: "nat ix < length (fl_fragments ?l)" using l(1,3,4) by (simp add: fl_ok_def nat_less_iff)
    have l2: "fl_fragments ?l2 ! nat ix = ?fr3" "length (fl_fragments ?l2) = length (fl_fragments ?l)"
      using ixl by (simp_all add: eq)
    have get2: "fragment_list_get_buf ?l2 q = Some (ix, ?l2)"
      by (rule fragment_list_get_buf_stable [OF l(1) q l(2)])
    have "frag_wait f (m\<lparr>fm_incoming := ?l2\<rparr>) d s q k ix (insert i A)"
      using l(1,3-5) get2 part l2 by (simp add: frag_wait_def fl_ok_def)
    moreover have "buf_content (?b1\<lparr>b_len := 0\<rparr>) = []" by (simp add: buf_content_def split: option.splits)
    ultimately show ?thesis using inc join full False by simp
  qed
qed

section \<open>From end to end\<close>

text \<open>A receiver takes packets one after the other; the result lists what it hands on.\<close>

fun fragment_receive_all ::
  "fragment_master \<Rightarrow> buffer list \<Rightarrow> frame \<Rightarrow> int \<Rightarrow> (bytes list \<times> fragment_master) option" where
  "fragment_receive_all m [] f now = Some ([], m)"
| "fragment_receive_all m (b # bs) f now =
     do { (m1, out) \<leftarrow> fragment_incoming m b f now;
          (outs, m2) \<leftarrow> fragment_receive_all m1 bs f now;
          Some (buf_content out # outs, m2) }"

lemma fragment_receive_all_ok:
  assumes cut: "frag_cut d s k" and q: "0 \<le> q" "q < N_SEQ_ID"
  shows "frag_wait f m d s q k ix A \<Longrightarrow> A \<subseteq> {..<k} \<Longrightarrow> is \<noteq> [] \<Longrightarrow> \<forall>i \<in> set is. i < k \<Longrightarrow>
    \<forall>b \<in> set bs. buf_ok b \<Longrightarrow> map buf_content bs = map (frag_wire d s q k) is \<Longrightarrow>
    A \<union> set (butlast is) \<noteq> {..<k} \<Longrightarrow> A \<union> set is = {..<k} \<Longrightarrow>
    \<exists>m'. fragment_receive_all m bs f now = Some (replicate (length is - 1) [] @ [d], m')"
proof (induction "is" arbitrary: m A bs)
  case (Cons i "is")
  obtain b bs' where bs: "bs = b # bs'" "buf_ok b" "buf_content b = frag_wire d s q k i"
    "map buf_content bs' = map (frag_wire d s q k) is" "\<forall>b \<in> set bs'. buf_ok b"
    using Cons.prems(5,6) by (cases bs) auto
  have i: "i < k" using Cons.prems(4) by simp
  obtain m1 out where st: "fragment_incoming m b f now = Some (m1, out)"
    "if insert i A = {..<k} then buf_content out = d
     else buf_content out = [] \<and> frag_wait f m1 d s q k ix (insert i A)"
    using fragment_incoming_wire [OF cut i Cons.prems(2) q Cons.prems(1) bs(2,3)] by blast
  show ?case
  proof (cases "is = []")
    case True
    then have "insert i A = {..<k}" using Cons.prems(8) by auto
    then show ?thesis using st bs True by simp
  next
    case False
    then have n: "insert i A \<union> set (butlast is) \<noteq> {..<k}" "insert i A \<union> set is = {..<k}"
      using Cons.prems(7,8) by auto
    have "set (butlast is) \<subseteq> {..<k}" using Cons.prems(4) by (auto dest: in_set_butlastD)
    with n(1) have ne: "insert i A \<noteq> {..<k}" by auto
    have "\<exists>m'. fragment_receive_all m1 bs' f now = Some (replicate (length is - 1) [] @ [d], m')"
    proof (rule Cons.IH [OF _ _ False _ bs(5,4) n])
      show "frag_wait f m1 d s q k ix (insert i A)" using st(2) ne by simp
    qed (use Cons.prems(2,4) i in auto)
    moreover have "length is = Suc (length is - 1)" using False by (cases "is") auto
    ultimately show ?thesis using st ne bs(1) by (auto simp: replicate_Suc [symmetric] simp del: replicate_Suc)
  qed
qed simp

text \<open>A receiver with nothing in progress and buffers for datagrams of \<open>n\<close> octets.\<close>

definition frag_idle :: "frame \<Rightarrow> fragment_master \<Rightarrow> int \<Rightarrow> bool" where
  "frag_idle f m n \<longleftrightarrow> fl_ok (fm_incoming m) \<and> 0 \<le> FRAME_HEADROOM_ADJ f FRAME_HEADROOM_MARKER_FRAGMENT \<and>
     (\<forall>fr \<in> set (fl_fragments (fm_incoming m)). \<not> fr_defined fr \<and> buf_ok (fr_buf fr) \<and>
        FRAME_HEADROOM_ADJ f FRAME_HEADROOM_MARKER_FRAGMENT + n \<le> b_capacity (fr_buf fr))"

text \<open>An idle receiver finds a place for any datagram; the first packet sees the window moved there.\<close>

lemma frag_idle_wait:
  assumes idle: "frag_idle f m (int (length d))" and q: "0 \<le> q" "q < N_SEQ_ID"
  obtains ix l where "frag_wait f (m\<lparr>fm_incoming := l\<rparr>) d s q k ix {}"
    "fragment_list_get_buf (fm_incoming m) q = Some (ix, l)" "fragment_list_get_buf l q = Some (ix, l)"
proof -
  have l: "fl_ok (fm_incoming m)" using idle by (simp add: frag_idle_def)
  obtain ix l' where g: "fragment_list_get_buf (fm_incoming m) q = Some (ix, l')" "fl_ok l'"
    "fl_keeps (fm_incoming m) l'" "0 \<le> ix" "ix < N_FRAG_BUF" "fragment_list_get_buf l' q = Some (ix, l')"
    using fragment_list_get_buf_ok [OF l q] by blast
  have ixl: "nat ix < length (fl_fragments (fm_incoming m))"
    using l g(4,5) by (simp add: fl_ok_def nat_less_iff)
  then have "fl_fragments (fm_incoming m) ! nat ix \<in> set (fl_fragments (fm_incoming m))" by simp
  with idle g(3) ixl have "\<not> fr_defined (fl_fragments l' ! nat ix)" "buf_ok (fr_buf (fl_fragments l' ! nat ix))"
    "FRAME_HEADROOM_ADJ f FRAME_HEADROOM_MARKER_FRAGMENT + int (length d) \<le> b_capacity (fr_buf (fl_fragments l' ! nat ix))"
    by (auto simp: frag_idle_def fl_keeps_def)
  then have "frag_wait f (m\<lparr>fm_incoming := l'\<rparr>) d s q k ix {}"
    using g idle by (simp add: frag_wait_def frag_idle_def)
  with g(1,6) that show thesis by blast
qed

lemma fragment_incoming_moved:
  assumes "frag_cut d s k" "i < k" "0 \<le> q" "q < N_SEQ_ID" "buf_ok b" "buf_content b = frag_wire d s q k i"
    and g: "fragment_list_get_buf (fm_incoming m) q = Some (ix, l)" "fragment_list_get_buf l q = Some (ix, l)"
  shows "fragment_incoming m b f now = fragment_incoming (m\<lparr>fm_incoming := l\<rparr>) b f now"
proof -
  let ?t = "if Suc i = k then FRAG_YES_LAST else FRAG_YES_NOTLAST"
  let ?fl = "fragment_flags ?t q (int i) (int s)"
  have s: "0 < s" "s mod 4 = 0" "s < 65536" "k \<le> 32" using assms(1) by (simp_all add: frag_cut_def)
  have "int (s mod 4) = 0" using s(2) by simp
  then have s4: "int s mod 4 = 0" by (simp only: of_nat_mod of_nat_numeral)
  note rd = buf_read_u32_prefix [OF assms(5) assms(6) [unfolded frag_wire_def]]
  have len: "b_len b > 0"
    using length_buf_content [OF assms(5)] assms(6) by (simp add: frag_wire_def)
  have fields: "uint (drop_bit FRAG_TYPE_SHIFT ?fl AND FRAG_TYPE_MASK) = ?t"
    "uint (drop_bit FRAG_SEQ_ID_SHIFT ?fl AND FRAG_SEQ_ID_MASK) = q"
    using fragment_flags_read(1,2) [of ?t q "int i" "int s"] assms(2-4) s s4
    by (auto simp: MAX_FRAGS_def split: if_splits)
  have inc: "fragment_incoming m b f now = fragment_join m (buf_drop b 4) f now ?fl ?t" for m
    unfolding fragment_incoming_def using len rd(1) fields(1)
    by (simp add: FRAG_WHOLE_def FRAG_YES_LAST_def FRAG_YES_NOTLAST_def)
  show ?thesis
    unfolding inc fragment_join_def Let_def fields
    by (cases m) (use g in \<open>simp only: Option.bind.simps prod.case fragment_master.select_convs
      fragment_master.update_convs\<close>)
qed

text \<open>
  C4. Fragmentation is lossless in every order of arrival. A datagram that is too long for the
  link leaves the sender as a list of fragments; when packets with these contents reach an idle
  receiver in any order and with any repetitions before the last one completes the set, the
  receiver hands on nothing until then, and then exactly the datagram.
\<close>

theorem fragmentation_lossless:
  assumes "frag_snd_ok f m" and "buf_ok buf" and "PAYLOAD_SIZE_DYNAMIC f < b_len buf"
    and "FRAME_HEADROOM f + b_len buf \<le> b_capacity (fm_outgoing m)"
    and "frag_count (b_len buf) (PAYLOAD_SIZE_DYNAMIC f - PAYLOAD_SIZE_DYNAMIC f mod 4) \<le> MAX_FRAGS"
    and "frag_idle f r (b_len buf)"
  shows "\<exists>xs m'. fragment_send m buf f = Some (xs, m') \<and>
    (\<forall>is bs. (\<forall>b \<in> set bs. buf_ok b) \<and> map buf_content bs = map (\<lambda>i. xs ! i) is \<and>
       set is = {..<length xs} \<and> set (butlast is) \<noteq> {..<length xs} \<longrightarrow>
       (\<exists>r'. fragment_receive_all r bs f now = Some (replicate (length is - 1) [] @ [buf_content buf], r')))"
proof -
  let ?d = "buf_content buf"
  obtain s k q m' where k: "frag_cut ?d s k" "0 \<le> q" "q < N_SEQ_ID"
    and send: "fragment_send m buf f = Some (map (frag_wire ?d s q k) [0..<k], m')"
    using fragment_send_ok [OF assms(1-5)] by blast
  have idle: "frag_idle f r (int (length ?d))" using assms(2,6) length_buf_content [OF assms(2)] by simp
  obtain ix l where w: "frag_wait f (r\<lparr>fm_incoming := l\<rparr>) ?d s q k ix {}"
    "fragment_list_get_buf (fm_incoming r) q = Some (ix, l)" "fragment_list_get_buf l q = Some (ix, l)"
    using frag_idle_wait [OF idle k(2,3)] by blast
  have "\<exists>r'. fragment_receive_all r bs f now = Some (replicate (length is - 1) [] @ [?d], r')"
    if bs: "\<forall>b \<in> set bs. buf_ok b" "map buf_content bs = map (\<lambda>i. map (frag_wire ?d s q k) [0..<k] ! i) is"
      "set is = {..<k}" "set (butlast is) \<noteq> {..<k}" for "is" bs
  proof -
    have lt: "\<forall>i \<in> set is. i < k" using bs(3) by auto
    then have "map (\<lambda>i. map (frag_wire ?d s q k) [0..<k] ! i) is = map (frag_wire ?d s q k) is"
      by (intro map_cong) auto
    with bs(2) have c: "map buf_content bs = map (frag_wire ?d s q k) is" by (rule trans)
    have "0 < k" using k(1) by (simp add: frag_cut_def)
    then have "0 \<in> set is" by (simp only: bs(3) lessThan_iff)
    then have ne: "is \<noteq> []" by (cases "is") simp_all
    have un: "{} \<union> set (butlast is) \<noteq> {..<k}" "{} \<union> set is = {..<k}"
      by (simp_all only: Un_empty_left bs(3,4) simp_thms)
    obtain r' where r': "fragment_receive_all (r\<lparr>fm_incoming := l\<rparr>) bs f now
        = Some (replicate (length is - 1) [] @ [?d], r')"
      using fragment_receive_all_ok [OF k w(1) empty_subsetI ne lt bs(1) c un] by blast
    from ne c obtain i js b bs' where e: "is = i # js" "bs = b # bs'" by (cases "is"; cases bs) auto
    have "fragment_incoming r b f now = fragment_incoming (r\<lparr>fm_incoming := l\<rparr>) b f now"
      by (rule fragment_incoming_moved [OF k(1) _ k(2,3) _ _ w(2,3)]) (use lt bs(1) c e in auto)
    then have "fragment_receive_all r bs f now = fragment_receive_all (r\<lparr>fm_incoming := l\<rparr>) bs f now"
      by (simp only: e fragment_receive_all.simps)
    with r' show ?thesis by (simp only: ex_simps simp_thms) blast
  qed
  moreover have "length (map (frag_wire ?d s q k) [0..<k]) = k" by simp
  ultimately show ?thesis using send by (intro exI conjI) (assumption, metis)
qed

text \<open>Thirty octets over a link that takes twelve: three fragments, the last one first.\<close>

definition demo_frame :: frame where
  "demo_frame = \<lparr>link_mtu = 120, link_mtu_dynamic = 16, extra_frame = 4, extra_buffer = 0, extra_tun = 0,
     extra_link = 0, align_flags = 0, align_adjust = 0\<rparr>"

definition demo_master :: fragment_master where
  "demo_master = the (fragment_frame_init (fst (fragment_init demo_frame 7)) demo_frame)"

definition octets_buf :: "bytes \<Rightarrow> buffer" where
  "octets_buf xs = \<lparr>b_capacity = int (length xs), b_offset = 0, b_len = int (length xs), b_data = Some xs\<rparr>"

theorem fragmentation_lossless_witness:
  "\<exists>xs m' r'. fragment_send demo_master (octets_buf (map word_of_nat [0..<30])) demo_frame = Some (xs, m') \<and>
     length xs = 3 \<and>
     fragment_receive_all demo_master (map octets_buf [xs ! 2, xs ! 0, xs ! 1]) demo_frame 100
       = Some ([[], [], map word_of_nat [0..<30]], r')"
proof -
  let ?d = "map word_of_nat [0..<30] :: bytes" and ?f = demo_frame and ?m = demo_master
  have h: "frag_snd_ok ?f ?m" "buf_ok (octets_buf ?d)" "PAYLOAD_SIZE_DYNAMIC ?f < b_len (octets_buf ?d)"
    "FRAME_HEADROOM ?f + b_len (octets_buf ?d) \<le> b_capacity (fm_outgoing ?m)"
    "frag_count (b_len (octets_buf ?d)) (PAYLOAD_SIZE_DYNAMIC ?f - PAYLOAD_SIZE_DYNAMIC ?f mod 4) \<le> MAX_FRAGS"
    "frag_idle ?f ?m (b_len (octets_buf ?d))" "buf_content (octets_buf ?d) = ?d"
    by code_simp+
  obtain xs m' where s: "fragment_send ?m (octets_buf ?d) ?f = Some (xs, m')"
    and r: "\<And>is bs. (\<forall>b \<in> set bs. buf_ok b) \<and> map buf_content bs = map (\<lambda>i. xs ! i) is \<and>
       set is = {..<length xs} \<and> set (butlast is) \<noteq> {..<length xs} \<Longrightarrow>
       \<exists>r'. fragment_receive_all ?m bs ?f 100 = Some (replicate (length is - 1) [] @ [?d], r')"
    using fragmentation_lossless [OF h(1-6), of 100] unfolding h(7) by blast
  have "map length (fst (the (fragment_send ?m (octets_buf ?d) ?f))) = [16, 16, 10]" by code_simp
  then have lens: "map length xs = [16, 16, 10]" by (simp add: s)
  then obtain a b c where xs: "xs = [a, b, c]" "length a = 16" "length b = 16" "length c = 10" by auto
  have ok: "buf_ok (octets_buf x) \<and> buf_content (octets_buf x) = x" if "length x < 100" for x
    using that by (auto simp: octets_buf_def buf_ok_def buf_content_def BUF_SIZE_MAX_def)
  have "\<exists>r'. fragment_receive_all ?m (map octets_buf [c, a, b]) ?f 100
      = Some (replicate (length [2, 0, 1 :: nat] - 1) [] @ [?d], r')"
    using ok [of a] ok [of b] ok [of c] xs
    by (intro r) (auto simp: lessThan_Suc numeral_eq_Suc)
  then show ?thesis using s xs by (simp add: numeral_eq_Suc)
qed

end
