(* ===== verification/StreamBuf.thy ===== *)
theory StreamBuf
  imports Mtu SslOpcodes
begin

text \<open>
  Packets over a stream: the \<open>stream_buf\<close> of src: socket.c, which cuts the octets of a TCP
  connection into packets, each behind its length, and the TCP parts of the read and write
  functions. The three buffers \<open>buf_init\<close>, \<open>buf\<close> and \<open>next\<close> of the code share one block of memory;
  in the model the octets of the block are those of \<open>sb_buf\<close>.
\<close>

datatype proto_num = PROTO_NONE | PROTO_UDP | PROTO_TCP | PROTO_TCP_SERVER | PROTO_TCP_CLIENT | PROTO_N

datatype port_share_state = PS_DISABLED | PS_ENABLED | PS_FOREIGN

definition SF_PORT_SHARE :: u32 where
  "SF_PORT_SHARE = push_bit 2 1"

record stream_buf =
  sb_buf_init :: buffer
  sb_residual :: buffer
  sb_maxlen :: int
  sb_residual_fully_formed :: bool
  sb_buf :: buffer
  sb_next :: buffer
  sb_len :: int
  sb_error :: bool
  sb_port_share_state :: port_share_state

text \<open>The fields of \<open>struct link_socket\<close> that the functions below use.\<close>

record link_socket =
  ls_stream_buf :: stream_buf
  ls_stream_reset :: bool

section \<open>The operations\<close>

text \<open>
  \<open>is_openvpn_protocol\<close> of src: ps.c, which tells an OpenVPN client from another protocol on a shared port.
\<close>

definition is_openvpn_protocol :: "buffer \<Rightarrow> bool option" where
  "is_openvpn_protocol buf =
     do { p \<leftarrow> buf_bptr buf;
          let len = buf_len buf;
          if len \<ge> 3
          then do { xs \<leftarrow> buf_load buf p 3;
                    Some (xs ! 0 = 0 \<and> xs ! 1 \<ge> 14 \<and>
                      (uint (xs ! 2) = push_bit P_OPCODE_SHIFT P_CONTROL_HARD_RESET_CLIENT_V2
                       \<or> uint (xs ! 2) = push_bit P_OPCODE_SHIFT P_CONTROL_HARD_RESET_CLIENT_V3)) }
          else if len \<ge> 2
          then do { xs \<leftarrow> buf_load buf p 2; Some (xs ! 0 = 0 \<and> xs ! 1 \<ge> 14) }
          else Some True }"

definition stream_buf_reset :: "stream_buf \<Rightarrow> stream_buf" where
  "stream_buf_reset sb =
     sb\<lparr>sb_residual_fully_formed := False, sb_buf := (sb_buf_init sb)\<lparr>b_data := b_data (sb_buf sb)\<rparr>,
        sb_next := buf_reset (sb_next sb), sb_len := -1\<rparr>"

definition stream_buf_init :: "buffer \<Rightarrow> u32 \<Rightarrow> proto_num \<Rightarrow> stream_buf option" where
  "stream_buf_init buf sockflags proto =
     do { let maxlen = b_len buf;
          residual \<leftarrow> alloc_buf maxlen;
          Some (stream_buf_reset
            \<lparr>sb_buf_init = buf\<lparr>b_len := 0\<rparr>, sb_residual = residual, sb_maxlen = maxlen,
             sb_residual_fully_formed = False, sb_buf = buf, sb_next = clear_buf, sb_len = -1, sb_error = False,
             sb_port_share_state = (if sockflags AND SF_PORT_SHARE \<noteq> 0 \<and> proto = PROTO_TCP_SERVER
                                    then PS_ENABLED else PS_DISABLED)\<rparr>) }"

definition stream_buf_set_next :: "stream_buf \<Rightarrow> stream_buf option" where
  "stream_buf_set_next sb =
     (let next = (sb_buf sb)\<lparr>b_offset := b_offset (sb_buf sb) + b_len (sb_buf sb),
                    b_len := (if sb_len sb \<ge> 0 then sb_len sb else sb_maxlen sb) - b_len (sb_buf sb)\<rparr>
      in do { ASSERT (b_len next > 0);
              ASSERT (buf_safe (sb_buf sb) (b_len next));
              Some (sb\<lparr>sb_next := next\<rparr>) })"

definition stream_buf_get_final :: "stream_buf \<Rightarrow> buffer option" where
  "stream_buf_get_final sb = do { ASSERT (buf_defined (sb_buf sb)); Some (sb_buf sb) }"

definition stream_buf_get_next :: "stream_buf \<Rightarrow> buffer option" where
  "stream_buf_get_next sb = do { ASSERT (buf_defined (sb_next sb)); Some (sb_next sb) }"

text \<open>The second half of \<open>stream_buf_added\<close>, when the length of the packet was looked for.\<close>

definition stream_buf_complete :: "stream_buf \<Rightarrow> (bool \<times> stream_buf) option" where
  "stream_buf_complete sb =
     (if sb_len sb > 0 \<and> b_len (sb_buf sb) \<ge> sb_len sb
      then do { let (ok, r) = buf_init (sb_residual sb) 0;
                ASSERT ok;
                (ok', r', b) \<leftarrow> (if b_len (sb_buf sb) > sb_len sb
                                then buf_copy_excess r (sb_buf sb) (sb_len sb)
                                else Some (True, r, sb_buf sb));
                ASSERT ok';
                Some (True, sb\<lparr>sb_residual := r', sb_buf := b\<rparr>) }
      else do { sb' \<leftarrow> stream_buf_set_next sb; Some (False, sb') })"

definition stream_buf_added :: "stream_buf \<Rightarrow> int \<Rightarrow> (bool \<times> stream_buf) option" where
  "stream_buf_added sb length_added =
     do { let sb1 = (if length_added > 0
                     then sb\<lparr>sb_buf := (sb_buf sb)\<lparr>b_len := b_len (sb_buf sb) + length_added\<rparr>\<rparr> else sb);
          if sb_len sb1 < 0 \<and> b_len (sb_buf sb1) \<ge> 2
          then do { ours \<leftarrow> (if sb_port_share_state sb1 = PS_ENABLED
                            then is_openvpn_protocol (sb_buf sb1) else Some True);
                    if \<not> ours
                    then Some (False, sb1\<lparr>sb_port_share_state := PS_FOREIGN, sb_error := True\<rparr>)
                    else do { let sb2 = (if sb_port_share_state sb1 = PS_ENABLED
                                         then sb1\<lparr>sb_port_share_state := PS_DISABLED\<rparr> else sb1);
                              (r, b) \<leftarrow> buf_read (sb_buf sb2) 2;
                              net_size \<leftarrow> r;
                              let sb3 = sb2\<lparr>sb_buf := b, sb_len := uint (bytes_u16 net_size)\<rparr>;
                              if sb_len sb3 < 1 \<or> sb_len sb3 > sb_maxlen sb3
                              then Some (False, (stream_buf_reset sb3)\<lparr>sb_error := True\<rparr>)
                              else stream_buf_complete sb3 } }
          else stream_buf_complete sb1 }"

definition stream_buf_read_setup_dowork :: "link_socket \<Rightarrow> (bool \<times> link_socket) option" where
  "stream_buf_read_setup_dowork sock =
     do { let sb = ls_stream_buf sock;
          sb1 \<leftarrow> (if b_len (sb_residual sb) \<noteq> 0 \<and> \<not> sb_residual_fully_formed sb
                 then do { (ok, b) \<leftarrow> buf_copy (sb_buf sb) (sb_residual sb);
                           ASSERT ok;
                           let (ok', r) = buf_init (sb_residual sb) 0;
                           ASSERT ok';
                           (full, sb') \<leftarrow> stream_buf_added (sb\<lparr>sb_buf := b, sb_residual := r\<rparr>) 0;
                           Some (sb'\<lparr>sb_residual_fully_formed := full\<rparr>) }
                 else Some sb);
          sb2 \<leftarrow> (if \<not> sb_residual_fully_formed sb1 then stream_buf_set_next sb1 else Some sb1);
          Some (\<not> sb_residual_fully_formed sb2, sock\<lparr>ls_stream_buf := sb2\<rparr>) }"

definition stream_buf_close :: "stream_buf \<Rightarrow> stream_buf" where
  "stream_buf_close sb = sb\<lparr>sb_residual := free_buf (sb_residual sb)\<rparr>"

text \<open>
  \<open>recv\<close> is the system call, a parameter: the octets it returns when it is asked for at most
  \<open>n\<close> of them, none when the peer has closed the connection, and \<open>None\<close> for an error. It writes
  them into the block that \<open>next\<close> shares with \<open>buf\<close>.
\<close>

definition link_socket_read_tcp ::
  "link_socket \<Rightarrow> buffer \<Rightarrow> (int \<Rightarrow> bytes option) \<Rightarrow> (int \<times> buffer \<times> link_socket) option" where
  "link_socket_read_tcp sock buf recv =
     do { let sb = ls_stream_buf sock;
          let finish = (\<lambda>sb'. do { final \<leftarrow> stream_buf_get_final sb';
                                   Some (b_len final, final, sock\<lparr>ls_stream_buf := stream_buf_reset sb'\<rparr>) });
          if sb_residual_fully_formed sb then finish sb
          else do { frag \<leftarrow> stream_buf_get_next sb;
                    p \<leftarrow> buf_bptr frag;
                    case recv (buf_len frag) of
                      None \<Rightarrow> Some (-1, buf\<lparr>b_len := -1\<rparr>, sock)
                    | Some [] \<Rightarrow> Some (0, buf\<lparr>b_len := 0\<rparr>, sock\<lparr>ls_stream_reset := True\<rparr>)
                    | Some xs \<Rightarrow>
                        do { b \<leftarrow> buf_store (sb_buf sb) p xs;
                             (full, sb') \<leftarrow> stream_buf_added (sb\<lparr>sb_buf := b\<rparr>) (int (length xs));
                             if full then finish sb'
                             else Some (0, buf\<lparr>b_len := 0\<rparr>, sock\<lparr>ls_stream_buf := sb'\<rparr>) } } }"

text \<open>What \<open>link_socket_write_tcp\<close> does to the buffer before it hands it to the system.\<close>

definition link_socket_write_tcp :: "link_socket \<Rightarrow> buffer \<Rightarrow> buffer option" where
  "link_socket_write_tcp sock buf =
     do { let len = (word_of_int (buf_len buf) :: u16);
          ASSERT (uint len \<le> sb_maxlen (ls_stream_buf sock));
          (ok, buf') \<leftarrow> buf_write_prepend buf (u16_bytes len);
          ASSERT ok;
          Some buf' }"

definition socket_connection_reset :: "link_socket \<Rightarrow> bool \<Rightarrow> int \<Rightarrow> bool \<Rightarrow> bool" where
  "socket_connection_reset sock connection_oriented status econnreset \<longleftrightarrow>
     connection_oriented \<and>
     (ls_stream_reset sock \<or> sb_error (ls_stream_buf sock) \<or> status < 0 \<and> econnreset)"

definition socket_foreign_protocol_detected :: "link_socket \<Rightarrow> bool \<Rightarrow> bool" where
  "socket_foreign_protocol_detected sock connection_oriented \<longleftrightarrow>
     connection_oriented \<and> sb_port_share_state (ls_stream_buf sock) = PS_FOREIGN"

definition socket_read_residual :: "link_socket \<Rightarrow> bool" where
  "socket_read_residual sock \<longleftrightarrow> sb_residual_fully_formed (ls_stream_buf sock)"

section \<open>Well-formed states\<close>

text \<open>
  The geometry that \<open>stream_buf_init\<close> sets up and every operation keeps: behind the head room
  there is room for the length and for a packet of \<open>sb_maxlen\<close> octets.
\<close>

definition sb_ok :: "stream_buf \<Rightarrow> bool" where
  "sb_ok sb \<longleftrightarrow>
     buf_ok (sb_buf sb) \<and> buf_ok (sb_residual sb) \<and> b_offset (sb_residual sb) = 0 \<and>
     b_capacity (sb_residual sb) = sb_maxlen sb \<and> 2 \<le> sb_maxlen sb \<and>
     b_capacity (sb_buf sb) = b_capacity (sb_buf_init sb) \<and> b_len (sb_buf_init sb) = 0 \<and>
     0 \<le> b_offset (sb_buf_init sb) \<and>
     b_offset (sb_buf_init sb) + 2 + sb_maxlen sb \<le> b_capacity (sb_buf_init sb)"

text \<open>The region that the next read fills.\<close>

definition sb_next_ok :: "stream_buf \<Rightarrow> bool" where
  "sb_next_ok sb \<longleftrightarrow>
     buf_defined (sb_next sb) \<and> b_offset (sb_next sb) = b_offset (sb_buf sb) + b_len (sb_buf sb) \<and>
     b_data (sb_next sb) \<noteq> None \<and> b_capacity (sb_next sb) = b_capacity (sb_buf sb) \<and> 0 < b_len (sb_next sb) \<and>
     b_len (sb_next sb) = (if sb_len sb \<ge> 0 then sb_len sb else sb_maxlen sb) - b_len (sb_buf sb)"

lemma sb_okD:
  assumes "sb_ok sb"
  shows "buf_ok (sb_buf sb)" "buf_ok (sb_residual sb)" "b_offset (sb_residual sb) = 0"
    "b_capacity (sb_residual sb) = sb_maxlen sb" "2 \<le> sb_maxlen sb"
    "b_capacity (sb_buf sb) = b_capacity (sb_buf_init sb)" "b_len (sb_buf_init sb) = 0"
    "0 \<le> b_offset (sb_buf_init sb)"
    "b_offset (sb_buf_init sb) + 2 + sb_maxlen sb \<le> b_capacity (sb_buf_init sb)"
  using assms by (simp_all add: sb_ok_def)

lemma sb_ok_buf: "sb_ok sb \<Longrightarrow> buf_ok b \<Longrightarrow> b_capacity b = b_capacity (sb_buf sb) \<Longrightarrow> sb_ok (sb\<lparr>sb_buf := b\<rparr>)"
  by (simp add: sb_ok_def)

lemma sb_ok_fields [simp]:
  "sb_ok (sb\<lparr>sb_next := n\<rparr>) = sb_ok sb" "sb_ok (sb\<lparr>sb_len := l\<rparr>) = sb_ok sb"
  "sb_ok (sb\<lparr>sb_residual_fully_formed := f\<rparr>) = sb_ok sb" "sb_ok (sb\<lparr>sb_error := e\<rparr>) = sb_ok sb"
  "sb_ok (sb\<lparr>sb_port_share_state := s\<rparr>) = sb_ok sb"
  "sb_ok (sb\<lparr>sb_port_share_state := s, sb_buf := b\<rparr>) = sb_ok (sb\<lparr>sb_buf := b\<rparr>)"
  by (simp_all add: sb_ok_def)

lemma buf_store_append:
  assumes "buf_ok b" "int (length xs) \<le> buf_room b"
  obtains b1 where "buf_store b (b_offset b + b_len b) xs = Some b1" "b_len b1 = b_len b"
    "b1\<lparr>b_len := b_len b + int (length xs)\<rparr> = buf_append b xs"
proof -
  obtain d where d: "b_data b = Some d" "int (length d) = b_capacity b" "0 \<le> b_offset b"
    "0 \<le> b_len b" "b_offset b + b_len b \<le> int (length d)" "b_capacity b < BUF_SIZE_MAX"
    using assms(1) by (rule buf_okE)
  have "mem_write d (b_offset b + b_len b) xs =
      Some (take (nat (b_offset b + b_len b)) d @ xs @ drop (nat (b_offset b + b_len b) + length xs) d)"
    using d assms(2) by (intro mem_write_Some) (auto simp: buf_room_def)
  then show ?thesis
    using d
    by (intro that [of "b\<lparr>b_data := Some (take (nat (b_offset b + b_len b)) d @ xs @
          drop (nat (b_offset b + b_len b) + length xs) d)\<rparr>"]) (simp_all add: buf_store_def buf_append_def Let_def)
qed

lemma buf_truncate_ok:
  assumes "buf_ok b" "0 \<le> n" "n \<le> b_len b"
  shows "buf_ok (b\<lparr>b_len := n\<rparr>)" "buf_content (b\<lparr>b_len := n\<rparr>) = take (nat n) (buf_content b)"
  using assms by (auto simp: buf_ok_def buf_content_def)

lemma buf_copy_excess_ok:
  assumes "buf_ok r" "buf_ok b" "0 \<le> n" "n < b_len b" "b_len b - n \<le> buf_room r"
  shows "buf_copy_excess r b n =
    Some (True, buf_append r (drop (nat n) (buf_content b)), b\<lparr>b_len := n\<rparr>)"
  using assms buf_drop_ok [OF assms(2,3)] buf_advance_ok [OF assms(2), of n]
  by (simp add: buf_copy_excess_def buf_copy_ok)

lemma buf_rewind_ok:
  assumes "buf_ok b" "b_offset b = 0"
  shows "buf_init b 0 = (True, b\<lparr>b_len := 0\<rparr>)" "buf_ok (b\<lparr>b_len := 0\<rparr>)" "buf_content (b\<lparr>b_len := 0\<rparr>) = []"
    "buf_room (b\<lparr>b_len := 0\<rparr>) = b_capacity b"
  using assms by (auto simp: buf_ok_def buf_init_def buf_content_def buf_room_def split: option.splits)

lemma stream_buf_set_next_ok:
  assumes "sb_ok sb" and "b_len (sb_buf sb) < (if sb_len sb \<ge> 0 then sb_len sb else sb_maxlen sb)"
    and "b_offset (sb_buf sb) \<le> b_offset (sb_buf_init sb) + 2" and "sb_len sb \<le> sb_maxlen sb"
  obtains n where "stream_buf_set_next sb = Some (sb\<lparr>sb_next := n\<rparr>)" "sb_next_ok (sb\<lparr>sb_next := n\<rparr>)"
proof -
  let ?l = "if sb_len sb \<ge> 0 then sb_len sb else sb_maxlen sb"
  let ?n = "(sb_buf sb)\<lparr>b_offset := b_offset (sb_buf sb) + b_len (sb_buf sb), b_len := ?l - b_len (sb_buf sb)\<rparr>"
  note g = sb_okD [OF assms(1)]
  note bb = buf_ok_bounds [OF g(1)]
  have le: "?l \<le> sb_maxlen sb" using assms(4) by simp
  obtain d where d: "b_data (sb_buf sb) = Some d" using g(1) by (rule buf_okE)
  have safe: "buf_safe (sb_buf sb) (?l - b_len (sb_buf sb))"
    using g bb le assms(2,3) by (simp add: buf_safe_def buf_size_valid_def)
  have "stream_buf_set_next sb = Some (sb\<lparr>sb_next := ?n\<rparr>)"
    using safe assms(2) by (simp add: stream_buf_set_next_def)
  moreover have "sb_next_ok (sb\<lparr>sb_next := ?n\<rparr>)"
    using assms(2) d bb by (auto simp: sb_next_ok_def buf_defined_def)
  ultimately show ?thesis by (rule that)
qed

lemma stream_buf_complete_ok:
  assumes ok: "sb_ok sb" and l: "1 \<le> sb_len sb" "sb_len sb \<le> sb_maxlen sb"
    and off: "b_offset (sb_buf sb) \<le> b_offset (sb_buf_init sb) + 2" and m: "b_len (sb_buf sb) \<le> sb_maxlen sb"
  shows "sb_len sb \<le> b_len (sb_buf sb) \<Longrightarrow>
      \<exists>r b. stream_buf_complete sb = Some (True, sb\<lparr>sb_residual := r, sb_buf := b\<rparr>) \<and>
        sb_ok (sb\<lparr>sb_residual := r, sb_buf := b\<rparr>) \<and> b_len b = sb_len sb \<and> b_offset b = b_offset (sb_buf sb) \<and>
        buf_content b = take (nat (sb_len sb)) (buf_content (sb_buf sb)) \<and>
        buf_content r = drop (nat (sb_len sb)) (buf_content (sb_buf sb))"
    and "b_len (sb_buf sb) < sb_len sb \<Longrightarrow>
      \<exists>n. stream_buf_complete sb = Some (False, sb\<lparr>sb_next := n\<rparr>) \<and> sb_next_ok (sb\<lparr>sb_next := n\<rparr>)"
proof -
  note g = sb_okD [OF ok]
  note rw = buf_rewind_ok [OF g(2,3)]
  let ?b = "sb_buf sb" and ?r = "(sb_residual sb)\<lparr>b_len := 0\<rparr>" and ?c = "buf_content (sb_buf sb)"
  assume full: "sb_len sb \<le> b_len ?b"
  show "\<exists>r b. stream_buf_complete sb = Some (True, sb\<lparr>sb_residual := r, sb_buf := b\<rparr>) \<and>
        sb_ok (sb\<lparr>sb_residual := r, sb_buf := b\<rparr>) \<and> b_len b = sb_len sb \<and> b_offset b = b_offset ?b \<and>
        buf_content b = take (nat (sb_len sb)) ?c \<and> buf_content r = drop (nat (sb_len sb)) ?c"
  proof (cases "sb_len sb = b_len ?b")
    case True
    then have "int (length ?c) = sb_len sb" using length_buf_content [OF g(1)] by simp
    then show ?thesis
      using True l rw g ok
      by (intro exI [of _ ?r] exI [of _ ?b]) (simp add: stream_buf_complete_def sb_ok_def)
  next
    case False
    let ?r' = "buf_append ?r (drop (nat (sb_len sb)) ?c)"
    have len: "int (length (drop (nat (sb_len sb)) ?c)) = b_len ?b - sb_len sb"
      using length_buf_content [OF g(1)] full l by simp
    have room: "b_len ?b - sb_len sb \<le> buf_room ?r"
      using rw(4) g(4) m l by simp
    have ap: "buf_ok ?r'" "buf_content ?r' = drop (nat (sb_len sb)) ?c" "b_offset ?r' = 0"
      "b_capacity ?r' = sb_maxlen sb"
      using buf_append_ok [OF rw(2), of "drop (nat (sb_len sb)) ?c"] room len rw(3) g(3,4) by simp_all
    show ?thesis
      using False full l rw g ok ap room buf_truncate_ok [OF g(1), of "sb_len sb"]
        buf_copy_excess_ok [OF rw(2) g(1), of "sb_len sb"]
      by (intro exI [of _ ?r'] exI [of _ "?b\<lparr>b_len := sb_len sb\<rparr>"]) (simp add: stream_buf_complete_def sb_ok_def)
  qed
next
  assume part: "b_len (sb_buf sb) < sb_len sb"
  obtain n where "stream_buf_set_next sb = Some (sb\<lparr>sb_next := n\<rparr>)" "sb_next_ok (sb\<lparr>sb_next := n\<rparr>)"
    using stream_buf_set_next_ok [OF ok] part l off by auto
  then show "\<exists>n. stream_buf_complete sb = Some (False, sb\<lparr>sb_next := n\<rparr>) \<and> sb_next_ok (sb\<lparr>sb_next := n\<rparr>)"
    using part by (auto simp: stream_buf_complete_def)
qed

section \<open>The stream of packets\<close>

definition tcp_frame :: "bytes \<Rightarrow> bytes" where
  "tcp_frame p = u16_bytes (of_nat (length p)) @ p"

definition tcp_stream :: "bytes list \<Rightarrow> bytes" where
  "tcp_stream ps = concat (map tcp_frame ps)"

definition packets_fit :: "int \<Rightarrow> bytes list \<Rightarrow> bool" where
  "packets_fit m ps \<longleftrightarrow> list_all (\<lambda>p. p \<noteq> [] \<and> int (length p) \<le> m \<and> length p < 2 ^ 16) ps"

text \<open>What a shared port expects of the first packet of a client.\<close>

definition client_hello :: "bytes \<Rightarrow> bool" where
  "client_hello p \<longleftrightarrow> 14 \<le> length p \<and> length p < 256 \<and> (hd p = 56 \<or> hd p = 80)"

definition port_fits :: "stream_buf \<Rightarrow> bytes list \<Rightarrow> bool" where
  "port_fits sb ps \<longleftrightarrow> (sb_port_share_state sb = PS_ENABLED \<longrightarrow> list_all client_hello (take 1 ps))"

lemma tcp_stream_Cons [simp]: "tcp_stream [] = []" "tcp_stream (p # ps) = tcp_frame p @ tcp_stream ps"
  by (simp_all add: tcp_stream_def)

lemma packets_fit_Cons [simp]:
  "packets_fit m []"
  "packets_fit m (p # ps) \<longleftrightarrow> p \<noteq> [] \<and> int (length p) \<le> m \<and> length p < 2 ^ 16 \<and> packets_fit m ps"
  by (simp_all add: packets_fit_def)

lemma uint_frame_length: "length p < 2 ^ 16 \<Longrightarrow> uint (of_nat (length p) :: u16) = int (length p)"
  by (simp add: unsigned_of_nat take_bit_nat_eq_self)

text \<open>Two octets of a stream that begins with a packet are its length.\<close>

lemma tcp_stream_head:
  assumes "c @ rest = tcp_stream ps" "2 \<le> length c"
  obtains p ps' where "ps = p # ps'" "take 2 c = u16_bytes (of_nat (length p))"
    "drop 2 c @ rest = p @ tcp_stream ps'"
proof (cases ps)
  case Nil
  then show ?thesis using assms by simp
next
  case (Cons p ps')
  have e: "c @ rest = u16_bytes (of_nat (length p)) @ p @ tcp_stream ps'"
    using assms(1) Cons by (simp add: tcp_frame_def)
  have "take 2 c = u16_bytes (of_nat (length p))"
    using arg_cong [OF e, of "take 2"] assms(2) by simp
  moreover have "drop 2 c @ rest = p @ tcp_stream ps'"
    using arg_cong [OF e, of "drop 2"] assms(2) by simp
  ultimately show ?thesis using that Cons by simp
qed

lemma is_openvpn_protocol_hello:
  assumes b: "buf_ok b" and e: "buf_content b @ rest = tcp_stream (p # ps)" and "2 \<le> b_len b" and h: "client_hello p"
  shows "is_openvpn_protocol b = Some True"
proof -
  let ?c = "buf_content b"
  obtain x q where p: "p = x # q" using h by (cases p) (auto simp: client_hello_def)
  have len: "int (length ?c) = b_len b" by (rule length_buf_content [OF b])
  have u: "u16_bytes (of_nat (length p)) = [0, of_nat (length p)]"
  proof -
    have "drop_bit 8 (of_nat (length p) :: u16) = 0"
      using h by (intro unat_0_iff [THEN iffD1]) (simp add: client_hello_def unat_div unsigned_of_nat take_bit_nat_eq_self drop_bit_eq_div)
    moreover have "ucast (of_nat (length p) :: u16) = (of_nat (length p) :: u8)"
      by (rule bit_word_eqI) (simp add: bit_simps)
    ultimately show ?thesis by (simp add: u16_bytes_def)
  qed
  have big: "(14 :: u8) \<le> of_nat (length p)"
    using h by (simp add: client_hello_def word_le_nat_alt unsigned_of_nat take_bit_nat_eq_self)
  have st: "?c @ rest = 0 # of_nat (length p) # x # q @ tcp_stream ps"
    using e p u by (simp add: tcp_frame_def)
  have three: "take 3 ?c = [0, of_nat (length p), x]" if "3 \<le> b_len b"
    using arg_cong [OF st, of "take 3"] len that by (simp add: numeral_3_eq_3)
  have two: "take 2 ?c = [0, of_nat (length p)]"
    using arg_cong [OF st, of "take 2"] len assms(3) by (simp add: numeral_2_eq_2)
  have x: "uint x = 56 \<or> uint x = 80" using h p by (auto simp: client_hello_def)
  show ?thesis
    using b len assms(3) three two x big
    by (auto simp: is_openvpn_protocol_def buf_load_ok length_buf_content Let_def P_OPCODE_SHIFT_def push_bit_eq_mult
        P_CONTROL_HARD_RESET_CLIENT_V2_def P_CONTROL_HARD_RESET_CLIENT_V3_def)
qed

section \<open>The state against the stream\<close>

text \<open>
  \<open>tcp_at sb ps xs rest\<close>: the packets \<open>ps\<close> are still to come out, \<open>xs\<close> are the octets in hand and
  \<open>rest\<close> those the network still has. Once the length of a packet is known it is not in \<open>xs\<close>.
\<close>

definition tcp_at :: "stream_buf \<Rightarrow> bytes list \<Rightarrow> bytes \<Rightarrow> bytes \<Rightarrow> bool" where
  "tcp_at sb ps xs rest \<longleftrightarrow>
     sb_ok sb \<and> \<not> sb_error sb \<and> packets_fit (sb_maxlen sb) ps \<and> port_fits sb ps \<and>
     (if sb_len sb < 0
      then sb_len sb = -1 \<and> b_offset (sb_buf sb) = b_offset (sb_buf_init sb) \<and> xs @ rest = tcp_stream ps
      else b_offset (sb_buf sb) = b_offset (sb_buf_init sb) + 2 \<and> sb_port_share_state sb \<noteq> PS_ENABLED \<and>
        (\<exists>p ps'. ps = p # ps' \<and> sb_len sb = int (length p) \<and> xs @ rest = p @ tcp_stream ps'))"

text \<open>Between two rounds: nothing in hand is a complete packet unless the flag says so.\<close>

definition tcp_inv :: "stream_buf \<Rightarrow> bytes list \<Rightarrow> bytes \<Rightarrow> bool" where
  "tcp_inv sb ps rest \<longleftrightarrow>
     tcp_at sb ps (buf_content (sb_buf sb) @ buf_content (sb_residual sb)) rest \<and>
     (if sb_residual_fully_formed sb then 0 \<le> sb_len sb \<and> b_len (sb_buf sb) = sb_len sb
      else if sb_len sb < 0 then b_len (sb_buf sb) = 0 \<or> b_len (sb_buf sb) \<le> 1 \<and> b_len (sb_residual sb) = 0
      else b_len (sb_buf sb) < sb_len sb \<and> b_len (sb_residual sb) = 0)"

text \<open>While octets are added: the residual buffer is empty, and \<open>buf\<close> holds what is in hand.\<close>

definition tcp_mid :: "stream_buf \<Rightarrow> bytes list \<Rightarrow> bytes \<Rightarrow> bool" where
  "tcp_mid sb ps rest \<longleftrightarrow>
     tcp_at sb ps (buf_content (sb_buf sb)) rest \<and> \<not> sb_residual_fully_formed sb \<and>
     b_len (sb_residual sb) = 0 \<and> b_len (sb_buf sb) \<le> sb_maxlen sb"

definition tcp_ready :: "stream_buf \<Rightarrow> bool" where
  "tcp_ready sb \<longleftrightarrow> \<not> sb_residual_fully_formed sb \<and> b_len (sb_residual sb) = 0 \<and> sb_next_ok sb"

lemma buf_content_empty: "buf_ok b \<Longrightarrow> b_len b = 0 \<Longrightarrow> buf_content b = []"
  using length_buf_content [of b] by simp

lemma tcp_at_fields [simp]:
  "tcp_at (sb\<lparr>sb_next := n\<rparr>) ps xs rest = tcp_at sb ps xs rest"
  "tcp_at (sb\<lparr>sb_residual_fully_formed := f\<rparr>) ps xs rest = tcp_at sb ps xs rest"
  by (simp_all add: tcp_at_def port_fits_def)

lemma tcp_midD: "tcp_mid sb ps rest \<Longrightarrow> tcp_at sb ps (buf_content (sb_buf sb)) rest"
  by (simp add: tcp_mid_def)

lemma stream_buf_complete_known:
  assumes m: "tcp_mid sb ps rest" and l: "0 \<le> sb_len sb"
  shows "\<exists>full sb'. stream_buf_complete sb = Some (full, sb') \<and> tcp_inv (sb'\<lparr>sb_residual_fully_formed := full\<rparr>) ps rest \<and>
    \<not> sb_residual_fully_formed sb' \<and> sb_buf_init sb' = sb_buf_init sb \<and> (\<not> full \<longrightarrow> tcp_ready sb')"
proof -
  obtain p ps' where at: "sb_ok sb" "\<not> sb_error sb" "packets_fit (sb_maxlen sb) ps" "port_fits sb ps"
      "b_offset (sb_buf sb) = b_offset (sb_buf_init sb) + 2" "sb_port_share_state sb \<noteq> PS_ENABLED"
      "ps = p # ps'" "sb_len sb = int (length p)" "buf_content (sb_buf sb) @ rest = p @ tcp_stream ps'"
    and mid: "\<not> sb_residual_fully_formed sb" "b_len (sb_residual sb) = 0" "b_len (sb_buf sb) \<le> sb_maxlen sb"
    using m l by (auto simp: tcp_mid_def tcp_at_def)
  note g = sb_okD [OF at(1)]
  have p: "1 \<le> sb_len sb" "sb_len sb \<le> sb_maxlen sb"
    using at(3,7,8) by (cases p; simp)+
  note c = stream_buf_complete_ok [OF at(1) p, unfolded at(5), OF order_refl mid(3)]
  show ?thesis
  proof (cases "sb_len sb \<le> b_len (sb_buf sb)")
    case True
    from c(1) [OF True] obtain r b where s: "stream_buf_complete sb = Some (True, sb\<lparr>sb_residual := r, sb_buf := b\<rparr>)"
      "sb_ok (sb\<lparr>sb_residual := r, sb_buf := b\<rparr>)" "b_len b = sb_len sb" "b_offset b = b_offset (sb_buf_init sb) + 2"
      "buf_content b = take (nat (sb_len sb)) (buf_content (sb_buf sb))"
      "buf_content r = drop (nat (sb_len sb)) (buf_content (sb_buf sb))"
      by blast
    have "buf_content b @ buf_content r = buf_content (sb_buf sb)"
      unfolding s(5,6) by (rule append_take_drop_id)
    then have "tcp_inv (sb\<lparr>sb_residual := r, sb_buf := b, sb_residual_fully_formed := True\<rparr>) ps rest"
      using s(2-4) at p(1) by (simp add: tcp_inv_def tcp_at_def port_fits_def)
    then show ?thesis using s(1) mid(1) by auto
  next
    case False
    then obtain n where s: "stream_buf_complete sb = Some (False, sb\<lparr>sb_next := n\<rparr>)" "sb_next_ok (sb\<lparr>sb_next := n\<rparr>)"
      using c(2) by auto
    have "tcp_inv (sb\<lparr>sb_next := n, sb_residual_fully_formed := False\<rparr>) ps rest"
      using False tcp_midD [OF m] l mid buf_content_empty [OF g(2) mid(2)] by (simp add: tcp_inv_def)
    then show ?thesis using s mid by (intro exI [of _ False] exI [of _ "sb\<lparr>sb_next := n\<rparr>"]) (simp add: tcp_ready_def)
  qed
qed

lemma stream_buf_added_ok:
  assumes m: "tcp_mid sb ps rest"
  shows "\<exists>full sb'. stream_buf_added sb 0 = Some (full, sb') \<and> tcp_inv (sb'\<lparr>sb_residual_fully_formed := full\<rparr>) ps rest \<and>
    \<not> sb_residual_fully_formed sb' \<and> sb_buf_init sb' = sb_buf_init sb \<and> (\<not> full \<longrightarrow> tcp_ready sb')"
proof (cases "0 \<le> sb_len sb")
  case True
  then show ?thesis using stream_buf_complete_known [OF m] by (simp add: stream_buf_added_def)
next
  case False
  let ?b = "sb_buf sb"
  have at: "sb_ok sb" "\<not> sb_error sb" "packets_fit (sb_maxlen sb) ps" "port_fits sb ps" "sb_len sb = -1"
      "b_offset ?b = b_offset (sb_buf_init sb)" "buf_content ?b @ rest = tcp_stream ps"
    and mid: "\<not> sb_residual_fully_formed sb" "b_len (sb_residual sb) = 0" "b_len ?b \<le> sb_maxlen sb"
    using m False by (auto simp: tcp_mid_def tcp_at_def)
  note g = sb_okD [OF at(1)]
  show ?thesis
  proof (cases "2 \<le> b_len ?b")
    case short: False
    obtain n where n: "stream_buf_set_next sb = Some (sb\<lparr>sb_next := n\<rparr>)" "sb_next_ok (sb\<lparr>sb_next := n\<rparr>)"
      using stream_buf_set_next_ok [OF at(1)] short at(5,6) g(5) by auto
    have "stream_buf_added sb 0 = Some (False, sb\<lparr>sb_next := n\<rparr>)"
      using short at(5) n(1) by (simp add: stream_buf_added_def stream_buf_complete_def)
    moreover have "tcp_inv (sb\<lparr>sb_next := n, sb_residual_fully_formed := False\<rparr>) ps rest"
      using short tcp_midD [OF m] mid False buf_content_empty [OF g(2) mid(2)] by (simp add: tcp_inv_def)
    ultimately show ?thesis using n mid by (intro exI [of _ False] exI [of _ "sb\<lparr>sb_next := n\<rparr>"]) (simp add: tcp_ready_def)
  next
    case True
    have two: "2 \<le> length (buf_content ?b)" using True length_buf_content [OF g(1)] by linarith
    obtain p ps' where p: "ps = p # ps'" "take 2 (buf_content ?b) = u16_bytes (of_nat (length p))"
      "drop 2 (buf_content ?b) @ rest = p @ tcp_stream ps'"
      by (rule tcp_stream_head [OF at(7) two])
    have fit: "1 \<le> length p" "int (length p) \<le> sb_maxlen sb" "length p < 2 ^ 16" "uint (of_nat (length p) :: u16) = int (length p)"
      using at(3) p(1) uint_frame_length [of p] by (cases p; simp)+
    let ?s = "if sb_port_share_state sb = PS_ENABLED then PS_DISABLED else sb_port_share_state sb"
    let ?sb = "sb\<lparr>sb_port_share_state := ?s, sb_buf := buf_drop ?b 2, sb_len := int (length p)\<rparr>"
    have ours: "sb_port_share_state sb = PS_ENABLED \<Longrightarrow> is_openvpn_protocol ?b = Some True"
      using is_openvpn_protocol_hello [OF g(1) at(7) [unfolded p(1)] True] at(4) p(1) by (simp add: port_fits_def)
    have rd: "buf_read ?b 2 = Some (Some (u16_bytes (of_nat (length p))), buf_drop ?b 2)"
      using buf_read_ok [OF g(1), of 2] True p(2) by simp
    have add: "stream_buf_added sb 0 = stream_buf_complete ?sb"
      using True at(5) ours rd fit by (auto simp: stream_buf_added_def Let_def)
    have "tcp_mid ?sb ps rest"
      using m p True fit g buf_drop_ok [OF g(1), of 2] sb_ok_buf [OF at(1), of "buf_drop ?b 2"] at mid
      by (auto simp: tcp_mid_def tcp_at_def port_fits_def)
    from stream_buf_complete_known [OF this] show ?thesis
      unfolding add by simp
  qed
qed

section \<open>The steps of the socket\<close>

lemma tcp_invD:
  assumes "tcp_inv sb ps rest"
  shows "tcp_at sb ps (buf_content (sb_buf sb) @ buf_content (sb_residual sb)) rest" "sb_ok sb"
    "sb_len sb \<le> sb_maxlen sb" "b_offset (sb_buf sb) \<le> b_offset (sb_buf_init sb) + 2"
  using assms by (auto simp: tcp_inv_def tcp_at_def split: if_splits dest: sb_okD(5))

lemma tcp_set_next:
  assumes inv: "tcp_inv sb ps rest" and "\<not> sb_residual_fully_formed sb" "b_len (sb_residual sb) = 0"
  obtains n where "stream_buf_set_next sb = Some (sb\<lparr>sb_next := n\<rparr>)" "tcp_inv (sb\<lparr>sb_next := n\<rparr>) ps rest"
    "tcp_ready (sb\<lparr>sb_next := n\<rparr>)"
proof -
  note i = tcp_invD [OF inv]
  have lt: "b_len (sb_buf sb) < (if sb_len sb \<ge> 0 then sb_len sb else sb_maxlen sb)"
    using inv assms(2,3) sb_okD(5) [OF i(2)] by (auto simp: tcp_inv_def)
  obtain n where "stream_buf_set_next sb = Some (sb\<lparr>sb_next := n\<rparr>)" "sb_next_ok (sb\<lparr>sb_next := n\<rparr>)"
    by (rule stream_buf_set_next_ok [OF i(2) lt i(4,3)])
  moreover have "tcp_inv (sb\<lparr>sb_next := n\<rparr>) ps rest" for n
    using inv by (simp add: tcp_inv_def)
  ultimately show ?thesis using that assms(2,3) by (simp add: tcp_ready_def)
qed

lemma tcp_at_residual:
  assumes "tcp_at sb ps xs rest" "sb_ok (sb\<lparr>sb_buf := b, sb_residual := r\<rparr>)" "b_offset b = b_offset (sb_buf sb)"
  shows "tcp_at (sb\<lparr>sb_buf := b, sb_residual := r\<rparr>) ps xs rest"
  using assms by (auto simp: tcp_at_def port_fits_def)

lemma read_setup_ok:
  assumes inv: "tcp_inv (ls_stream_buf sock) ps rest"
  shows "\<exists>need sb'. stream_buf_read_setup_dowork sock = Some (need, sock\<lparr>ls_stream_buf := sb'\<rparr>) \<and>
    tcp_inv sb' ps rest \<and> (need \<longrightarrow> tcp_ready sb') \<and> (\<not> need \<longrightarrow> sb_residual_fully_formed sb')"
proof -
  define sb where "sb = ls_stream_buf sock"
  note inv = inv [folded sb_def]
  note i = tcp_invD [OF inv]
  note g = sb_okD [OF i(2)]
  consider "sb_residual_fully_formed sb" | "\<not> sb_residual_fully_formed sb" "b_len (sb_residual sb) = 0"
    | "\<not> sb_residual_fully_formed sb" "b_len (sb_residual sb) \<noteq> 0" by blast
  then show ?thesis
  proof cases
    case 1
    then show ?thesis using inv
      by (intro exI [of _ False] exI [of _ sb])
         (simp add: stream_buf_read_setup_dowork_def Let_def flip: sb_def)
  next
    case 2
    obtain n where "stream_buf_set_next sb = Some (sb\<lparr>sb_next := n\<rparr>)" "tcp_inv (sb\<lparr>sb_next := n\<rparr>) ps rest"
      "tcp_ready (sb\<lparr>sb_next := n\<rparr>)"
      by (rule tcp_set_next [OF inv 2])
    then show ?thesis using 2
      by (intro exI [of _ True] exI [of _ "sb\<lparr>sb_next := n\<rparr>"])
         (simp add: stream_buf_read_setup_dowork_def Let_def flip: sb_def)
  next
    case 3
    let ?c = "buf_content (sb_residual sb)"
    let ?b = "buf_append (sb_buf sb) ?c" and ?r = "(sb_residual sb)\<lparr>b_len := 0\<rparr>"
    have e: "sb_len sb = -1" "b_len (sb_buf sb) = 0" "b_offset (sb_buf sb) = b_offset (sb_buf_init sb)"
      using inv 3 by (auto simp: tcp_inv_def tcp_at_def split: if_splits)
    note c0 = buf_content_empty [OF g(1) e(2)]
    have len: "int (length ?c) = b_len (sb_residual sb)" by (rule length_buf_content [OF g(2)])
    have room: "int (length ?c) \<le> buf_room (sb_buf sb)"
      using len buf_ok_bounds [OF g(2)] g e by (simp add: buf_room_def)
    note ap = buf_append_ok [OF g(1) room] and rw = buf_rewind_ok [OF g(2,3)]
    have ok: "sb_ok (sb\<lparr>sb_buf := ?b, sb_residual := ?r\<rparr>)"
      using i(2) ap rw g(4) by (simp add: sb_ok_def)
    have "tcp_mid (sb\<lparr>sb_buf := ?b, sb_residual := ?r\<rparr>) ps rest"
      using tcp_at_residual [OF i(1) ok ap(3)] 3 ap(2,5) e(2) c0 len buf_ok_bounds [OF g(2)] g(3,4)
      by (simp add: tcp_mid_def)
    from stream_buf_added_ok [OF this] obtain full sb' where s:
      "stream_buf_added (sb\<lparr>sb_buf := ?b, sb_residual := ?r\<rparr>) 0 = Some (full, sb')"
      "tcp_inv (sb'\<lparr>sb_residual_fully_formed := full\<rparr>) ps rest" "\<not> full \<longrightarrow> tcp_ready sb'" by blast
    have cp: "buf_copy (sb_buf sb) (sb_residual sb) = Some (True, ?b)"
      using buf_copy_ok [OF g(1,2)] room len by simp
    show ?thesis
    proof (cases full)
      case True
      then show ?thesis using 3 cp rw(1) s
        by (intro exI [of _ False] exI [of _ "sb'\<lparr>sb_residual_fully_formed := True\<rparr>"])
           (simp add: stream_buf_read_setup_dowork_def Let_def flip: sb_def)
    next
      case False
      then have r: "b_len (sb_residual (sb'\<lparr>sb_residual_fully_formed := False\<rparr>)) = 0"
        using s(3) by (simp add: tcp_ready_def)
      have inv': "tcp_inv (sb'\<lparr>sb_residual_fully_formed := False\<rparr>) ps rest" using s(2) False by simp
      obtain n where "stream_buf_set_next (sb'\<lparr>sb_residual_fully_formed := False\<rparr>) =
          Some (sb'\<lparr>sb_residual_fully_formed := False, sb_next := n\<rparr>)"
        "tcp_inv (sb'\<lparr>sb_residual_fully_formed := False, sb_next := n\<rparr>) ps rest"
        "tcp_ready (sb'\<lparr>sb_residual_fully_formed := False, sb_next := n\<rparr>)"
        using tcp_set_next [OF inv' _ r] by auto
      then show ?thesis using 3 cp rw(1) s False
        by (intro exI [of _ True] exI [of _ "sb'\<lparr>sb_residual_fully_formed := False, sb_next := n\<rparr>"])
           (simp add: stream_buf_read_setup_dowork_def Let_def flip: sb_def)
    qed
  qed
qed

text \<open>A complete packet is handed out, and the state is ready for the next one.\<close>

lemma stream_buf_final_ok:
  assumes inv: "tcp_inv sb ps rest" and full: "sb_residual_fully_formed sb"
  shows "\<exists>p ps'. ps = p # ps' \<and> stream_buf_get_final sb = Some (sb_buf sb) \<and> buf_content (sb_buf sb) = p \<and>
    b_len (sb_buf sb) = int (length p) \<and> p \<noteq> [] \<and> tcp_inv (stream_buf_reset sb) ps' rest"
proof -
  note i = tcp_invD [OF inv]
  note g = sb_okD [OF i(2)]
  obtain p ps' where at: "\<not> sb_error sb" "packets_fit (sb_maxlen sb) ps" "sb_port_share_state sb \<noteq> PS_ENABLED"
      "ps = p # ps'" "sb_len sb = int (length p)" "b_len (sb_buf sb) = sb_len sb"
      "buf_content (sb_buf sb) @ buf_content (sb_residual sb) @ rest = p @ tcp_stream ps'"
    using inv full by (auto simp: tcp_inv_def tcp_at_def split: if_splits)
  have len: "length (buf_content (sb_buf sb)) = length p"
    using length_buf_content [OF g(1)] at(5,6) by simp
  have e: "buf_content (sb_buf sb) = p" "buf_content (sb_residual sb) @ rest = tcp_stream ps'"
    using at(7) len by simp_all
  obtain d where d: "b_data (sb_buf sb) = Some d" "int (length d) = b_capacity (sb_buf sb)" using g(1) by (rule buf_okE)
  let ?b = "(sb_buf_init sb)\<lparr>b_data := b_data (sb_buf sb)\<rparr>"
  have b: "buf_ok ?b" "buf_content ?b = []"
    using d g buf_ok_bounds [OF g(1)] by (auto simp: buf_ok_def buf_content_def)
  have "sb_ok (stream_buf_reset sb)"
    using b g by (simp add: sb_ok_def stream_buf_reset_def)
  then have "tcp_inv (stream_buf_reset sb) ps' rest"
    using at b e g by (simp add: tcp_inv_def tcp_at_def port_fits_def stream_buf_reset_def)
  then show ?thesis
    using at e d by (auto simp: stream_buf_get_final_def buf_defined_def)
qed

lemma read_tcp_formed:
  assumes "tcp_inv (ls_stream_buf sock) ps rest" "sb_residual_fully_formed (ls_stream_buf sock)"
  shows "\<exists>p ps' out. ps = p # ps' \<and> p \<noteq> [] \<and> link_socket_read_tcp sock buf recv =
      Some (int (length p), out, sock\<lparr>ls_stream_buf := stream_buf_reset (ls_stream_buf sock)\<rparr>) \<and>
    buf_content out = p \<and> tcp_inv (stream_buf_reset (ls_stream_buf sock)) ps' rest"
  using stream_buf_final_ok [OF assms] assms(2) by (auto simp: link_socket_read_tcp_def Let_def)

lemma stream_buf_added_append:
  assumes "sb_ok sb" "int (length xs) \<le> buf_room (sb_buf sb)" "xs \<noteq> []"
  obtains b1 where "buf_store (sb_buf sb) (b_offset (sb_buf sb) + b_len (sb_buf sb)) xs = Some b1"
    "stream_buf_added (sb\<lparr>sb_buf := b1\<rparr>) (int (length xs)) = stream_buf_added (sb\<lparr>sb_buf := buf_append (sb_buf sb) xs\<rparr>) 0"
proof -
  obtain b1 where "buf_store (sb_buf sb) (b_offset (sb_buf sb) + b_len (sb_buf sb)) xs = Some b1"
    "b_len b1 = b_len (sb_buf sb)" "b1\<lparr>b_len := b_len (sb_buf sb) + int (length xs)\<rparr> = buf_append (sb_buf sb) xs"
    by (rule buf_store_append [OF sb_okD(1) [OF assms(1)] assms(2)])
  then show ?thesis using assms(3) by (intro that [of b1]) (simp_all add: stream_buf_added_def)
qed

lemma read_tcp_more:
  assumes inv: "tcp_inv (ls_stream_buf sock) ps (xs @ rest)" and ready: "tcp_ready (ls_stream_buf sock)"
    and xs: "xs \<noteq> []" "int (length xs) \<le> b_len (sb_next (ls_stream_buf sock))"
      "recv (b_len (sb_next (ls_stream_buf sock))) = Some xs"
  shows "\<exists>n out sb'. link_socket_read_tcp sock buf recv = Some (n, out, sock\<lparr>ls_stream_buf := sb'\<rparr>) \<and>
    (n = 0 \<and> tcp_inv sb' ps rest \<or>
     0 < n \<and> (\<exists>p ps'. ps = p # ps' \<and> buf_content out = p \<and> tcp_inv sb' ps' rest))"
proof -
  define sb where "sb = ls_stream_buf sock"
  note inv = inv [folded sb_def] and ready = ready [folded sb_def] and xs = xs [folded sb_def]
  note i = tcp_invD [OF inv]
  note g = sb_okD [OF i(2)]
  have n: "b_offset (sb_next sb) = b_offset (sb_buf sb) + b_len (sb_buf sb)" "b_data (sb_next sb) \<noteq> None"
      "b_len (sb_next sb) = (if sb_len sb \<ge> 0 then sb_len sb else sb_maxlen sb) - b_len (sb_buf sb)"
      "\<not> sb_residual_fully_formed sb" "b_len (sb_residual sb) = 0"
      "buf_defined (sb_next sb)" "0 < b_len (sb_next sb)" "b_capacity (sb_next sb) = b_capacity (sb_buf sb)"
    using ready by (simp_all add: tcp_ready_def sb_next_ok_def)
  have le: "b_len (sb_next sb) + b_len (sb_buf sb) \<le> sb_maxlen sb" using n(3) i(3) by simp
  have room: "int (length xs) \<le> buf_room (sb_buf sb)"
    using xs(2) le i(4) g(6,9) by (simp add: buf_room_def)
  have val: "buf_valid (sb_next sb)" "b_len (sb_next sb) \<ge> 0"
    using n(2,7) by (simp_all add: buf_valid_def)
  note ap = buf_append_ok [OF g(1) room]
  let ?sb = "sb\<lparr>sb_buf := buf_append (sb_buf sb) xs\<rparr>"
  have "tcp_at ?sb ps (buf_content (sb_buf sb) @ xs) rest"
    using i(1) sb_ok_buf [OF i(2) ap(1,4)] ap(3) buf_content_empty [OF g(2) n(5)]
    by (auto simp: tcp_at_def port_fits_def)
  then have "tcp_mid ?sb ps rest"
    using n(4,5) ap(2,5) xs(2) le by (simp add: tcp_mid_def)
  from stream_buf_added_ok [OF this] obtain full sb' where s:
    "stream_buf_added ?sb 0 = Some (full, sb')" "tcp_inv (sb'\<lparr>sb_residual_fully_formed := full\<rparr>) ps rest"
    "\<not> sb_residual_fully_formed sb'" "\<not> full \<longrightarrow> tcp_ready sb'" by blast
  obtain b1 where b1: "buf_store (sb_buf sb) (b_offset (sb_buf sb) + b_len (sb_buf sb)) xs = Some b1"
    "stream_buf_added (sb\<lparr>sb_buf := b1\<rparr>) (int (length xs)) = stream_buf_added ?sb 0"
    by (rule stream_buf_added_append [OF i(2) room xs(1)])
  have get: "stream_buf_get_next sb = Some (sb_next sb)" "buf_bptr (sb_next sb) = Some (b_offset (sb_next sb))"
      "buf_len (sb_next sb) = b_len (sb_next sb)"
    using n(6) val by (simp_all add: stream_buf_get_next_def buf_bptr_def buf_len_def)
  obtain y ys where y: "xs = y # ys" using xs(1) by (cases xs) auto
  show ?thesis
  proof (cases full)
    case False
    then have same: "sb'\<lparr>sb_residual_fully_formed := False\<rparr> = sb'" using s(3) by (cases sb') simp
    have "link_socket_read_tcp sock buf recv = Some (0, buf\<lparr>b_len := 0\<rparr>, sock\<lparr>ls_stream_buf := sb'\<rparr>)"
      using n(4) get b1 s(1) False xs(3) y n(1)
      by (simp add: link_socket_read_tcp_def Let_def flip: sb_def)
    then show ?thesis using s(2) False same by auto
  next
    case True
    let ?f = "sb'\<lparr>sb_residual_fully_formed := True\<rparr>"
    have inv': "tcp_inv ?f ps rest" using s(2) True by simp
    obtain p ps' where p: "ps = p # ps'" "stream_buf_get_final ?f = Some (sb_buf ?f)" "buf_content (sb_buf ?f) = p"
      "b_len (sb_buf ?f) = int (length p)" "p \<noteq> []" "tcp_inv (stream_buf_reset ?f) ps' rest"
      using stream_buf_final_ok [OF inv'] by auto
    have eq: "stream_buf_reset ?f = stream_buf_reset sb'" "stream_buf_get_final sb' = Some (sb_buf sb')"
      using p(2) by (simp_all add: stream_buf_reset_def stream_buf_get_final_def)
    have "link_socket_read_tcp sock buf recv =
        Some (int (length p), sb_buf sb', sock\<lparr>ls_stream_buf := stream_buf_reset sb'\<rparr>)"
      using n(4) get b1 s(1) True xs(3) y n(1) eq p(4)
      by (simp add: link_socket_read_tcp_def Let_def flip: sb_def)
    then show ?thesis using p eq by auto
  qed
qed

section \<open>Rounds of the event loop\<close>

text \<open>
  One round: the set-up before the wait, then the read, if there is something to read or a
  complete packet is in hand. The network has the octets \<open>rest\<close> and gives out at most \<open>k\<close> of them.
\<close>

definition tcp_round :: "nat \<Rightarrow> link_socket \<Rightarrow> bytes \<Rightarrow> (bytes list \<times> link_socket \<times> bytes) option" where
  "tcp_round k sock rest =
     do { (need, s1) \<leftarrow> stream_buf_read_setup_dowork sock;
          let m = min k (nat (b_len (sb_next (ls_stream_buf s1))));
          if need \<and> take m rest = [] then Some ([], s1, rest)
          else do { (n, out, s2) \<leftarrow> link_socket_read_tcp s1 clear_buf (\<lambda>len. Some (take (min k (nat len)) rest));
                    Some (if n > 0 then [buf_content out] else [], s2, if need then drop m rest else rest) } }"

primrec tcp_rounds :: "nat list \<Rightarrow> link_socket \<Rightarrow> bytes \<Rightarrow> (bytes list \<times> link_socket \<times> bytes) option" where
  "tcp_rounds [] sock rest = Some ([], sock, rest)"
| "tcp_rounds (k # ks) sock rest =
     do { (out, sock', rest') \<leftarrow> tcp_round k sock rest;
          (outs, sock'', rest'') \<leftarrow> tcp_rounds ks sock' rest';
          Some (out @ outs, sock'', rest'') }"

lemma tcp_ready_waits:
  assumes "tcp_inv sb ps []" "tcp_ready sb"
  shows "ps = []"
proof (rule ccontr)
  assume "ps \<noteq> []"
  then obtain p qs where ps: "ps = p # qs" by (cases ps) auto
  note i = tcp_invD [OF assms(1)]
  note g = sb_okD [OF i(2)]
  have r: "\<not> sb_residual_fully_formed sb" "buf_content (sb_residual sb) = []"
    using assms(2) buf_content_empty [OF g(2)] by (auto simp: tcp_ready_def)
  have len: "int (length (buf_content (sb_buf sb))) = b_len (sb_buf sb)" by (rule length_buf_content [OF g(1)])
  show False
  proof (cases "sb_len sb < 0")
    case True
    then have "buf_content (sb_buf sb) = tcp_frame p @ tcp_stream qs" "b_len (sb_buf sb) \<le> 1"
      using assms r ps by (auto simp: tcp_inv_def tcp_at_def tcp_ready_def)
    then show False using len by (simp add: tcp_frame_def)
  next
    case False
    then have "buf_content (sb_buf sb) = p @ tcp_stream qs" "b_len (sb_buf sb) < int (length p)"
      using assms r ps by (auto simp: tcp_inv_def tcp_at_def tcp_ready_def)
    then show False using len by simp
  qed
qed

definition tcp_sock_inv :: "link_socket \<Rightarrow> bytes list \<Rightarrow> bytes \<Rightarrow> bool" where
  "tcp_sock_inv sock ps rest \<longleftrightarrow> tcp_inv (ls_stream_buf sock) ps rest \<and> \<not> ls_stream_reset sock"

lemma tcp_round_ok:
  assumes "tcp_sock_inv sock ps rest"
  shows "\<exists>out sock' rest' ps'. tcp_round k sock rest = Some (out, sock', rest') \<and> ps = out @ ps' \<and>
    tcp_sock_inv sock' ps' rest' \<and> length rest' + length ps' \<le> length rest + length ps \<and>
    (0 < k \<and> ps \<noteq> [] \<longrightarrow> length rest' + length ps' < length rest + length ps)"
proof -
  have inv: "tcp_inv (ls_stream_buf sock) ps rest" and nr: "\<not> ls_stream_reset sock"
    using assms by (simp_all add: tcp_sock_inv_def)
  obtain need sb' where s: "stream_buf_read_setup_dowork sock = Some (need, sock\<lparr>ls_stream_buf := sb'\<rparr>)"
    "tcp_inv sb' ps rest" "need \<longrightarrow> tcp_ready sb'" "\<not> need \<longrightarrow> sb_residual_fully_formed sb'"
    using read_setup_ok [OF inv] by blast
  let ?s1 = "sock\<lparr>ls_stream_buf := sb'\<rparr>"
  let ?n = "b_len (sb_next sb')"
  let ?xs = "take (min k (nat ?n)) rest"
  consider (formed) "\<not> need" | (idle) "need" "?xs = []" | (more) "need" "?xs \<noteq> []" by blast
  then show ?thesis
  proof cases
    case formed
    then show ?thesis
      using read_tcp_formed [of ?s1 ps rest clear_buf "\<lambda>len. Some (take (min k (nat len)) rest)"] s nr
      by (auto simp: tcp_round_def tcp_sock_inv_def Let_def)
  next
    case idle
    have "ps = []" if "0 < k"
    proof -
      have "0 < ?n" using s(3) idle by (auto simp: tcp_ready_def sb_next_ok_def)
      then have "rest = []" using idle that by auto
      then show ?thesis using tcp_ready_waits s(2,3) idle by blast
    qed
    then show ?thesis using s idle nr by (auto simp: tcp_round_def tcp_sock_inv_def Let_def)
  next
    case more
    have rest: "rest = ?xs @ drop (min k (nat ?n)) rest" by simp
    have "int (length ?xs) \<le> ?n"
      using s(3) more by (auto simp: tcp_ready_def sb_next_ok_def)
    then obtain n out sb2 where r: "link_socket_read_tcp ?s1 clear_buf (\<lambda>len. Some (take (min k (nat len)) rest)) =
        Some (n, out, ?s1\<lparr>ls_stream_buf := sb2\<rparr>)"
      "n = 0 \<and> tcp_inv sb2 ps (drop (min k (nat ?n)) rest) \<or>
       0 < n \<and> (\<exists>p ps'. ps = p # ps' \<and> buf_content out = p \<and> tcp_inv sb2 ps' (drop (min k (nat ?n)) rest))"
      using read_tcp_more [of ?s1 ps ?xs "drop (min k (nat ?n)) rest" "\<lambda>len. Some (take (min k (nat len)) rest)" clear_buf]
        s more rest by auto
    have "length (drop (min k (nat ?n)) rest) < length rest" using more by (auto simp: min_def split: if_splits)
    then show ?thesis
      using r s(1) more nr by (elim disjE) (auto simp: tcp_round_def tcp_sock_inv_def Let_def)
  qed
qed

lemma tcp_rounds_ok:
  assumes "tcp_sock_inv sock ps rest"
  shows "\<exists>out sock' rest' ps'. tcp_rounds ks sock rest = Some (out, sock', rest') \<and> ps = out @ ps' \<and>
    tcp_sock_inv sock' ps' rest' \<and> (list_all ((<) 0) ks \<and> length rest + length ps \<le> length ks \<longrightarrow> ps' = [])"
  using assms
proof (induction ks arbitrary: sock ps rest)
  case Nil
  then show ?case by auto
next
  case (Cons k ks)
  obtain o1 s1 r1 p1 where r: "tcp_round k sock rest = Some (o1, s1, r1)" "ps = o1 @ p1" "tcp_sock_inv s1 p1 r1"
    "length r1 + length p1 \<le> length rest + length ps"
    "0 < k \<and> ps \<noteq> [] \<longrightarrow> length r1 + length p1 < length rest + length ps"
    using tcp_round_ok [OF Cons.prems] by blast
  obtain o2 s2 r2 p2 where q: "tcp_rounds ks s1 r1 = Some (o2, s2, r2)" "p1 = o2 @ p2" "tcp_sock_inv s2 p2 r2"
    "list_all ((<) 0) ks \<and> length r1 + length p1 \<le> length ks \<longrightarrow> p2 = []"
    using Cons.IH [OF r(3)] by blast
  have "list_all ((<) 0) (k # ks) \<and> length rest + length ps \<le> length (k # ks) \<longrightarrow> p2 = []"
    using r(2,5) q(2,4) by (cases "ps = []") auto
  then show ?case using r q by auto
qed

text \<open>The sender's side: the octets that the writes of a list of buffers put on the connection.\<close>

primrec tcp_sent :: "link_socket \<Rightarrow> buffer list \<Rightarrow> bytes option" where
  "tcp_sent sock [] = Some []"
| "tcp_sent sock (b # bs) =
     do { b' \<leftarrow> link_socket_write_tcp sock b; xs \<leftarrow> tcp_sent sock bs; Some (buf_content b' @ xs) }"

definition tcp_sendable :: "int \<Rightarrow> buffer \<Rightarrow> bool" where
  "tcp_sendable m b \<longleftrightarrow> buf_ok b \<and> 2 \<le> b_offset b \<and> 0 < b_len b \<and> b_len b \<le> m \<and> b_len b < 2 ^ 16"

lemma tcp_sent_ok:
  assumes "list_all (tcp_sendable (sb_maxlen (ls_stream_buf sock))) bs"
  shows "tcp_sent sock bs = Some (tcp_stream (map buf_content bs))"
  using assms
proof (induction bs)
  case (Cons b bs)
  have b: "buf_ok b" "2 \<le> b_offset b" "b_len b \<le> sb_maxlen (ls_stream_buf sock)" "b_len b < 2 ^ 16"
    using Cons.prems by (simp_all add: tcp_sendable_def)
  have len: "int (length (buf_content b)) = b_len b" by (rule length_buf_content [OF b(1)])
  then have "uint (of_nat (length (buf_content b)) :: u16) = b_len b"
    using b(4) uint_frame_length [of "buf_content b"] by simp
  moreover have "buf_content (buf_push b (u16_bytes (of_nat (length (buf_content b))))) = tcp_frame (buf_content b)"
    using b buf_push_ok(2) [OF b(1), of "u16_bytes (of_nat (length (buf_content b)))"] by (simp add: tcp_frame_def)
  ultimately show ?case
    using Cons b by (simp add: link_socket_write_tcp_def buf_write_prepend_ok)
qed simp

lemma stream_buf_init_inv:
  assumes i: "stream_buf_init buf sockflags proto = Some sb" and b: "buf_ok buf" "2 \<le> b_len buf"
    "b_offset buf + 2 + b_len buf \<le> b_capacity buf" and ps: "packets_fit (b_len buf) ps"
    and hello: "sockflags AND SF_PORT_SHARE = 0 \<or> list_all client_hello (take 1 ps)"
  shows "tcp_sock_inv \<lparr>ls_stream_buf = sb, ls_stream_reset = False\<rparr> ps (tcp_stream ps)" "sb_maxlen sb = b_len buf"
proof -
  obtain r where r: "alloc_buf (b_len buf) = Some r"
    using i by (auto simp: stream_buf_init_def Let_def bind_eq_Some_conv)
  have rr: "buf_ok r" "b_offset r = 0" "b_capacity r = b_len buf" "b_len r = 0"
    using r b by (auto simp: alloc_buf_def buf_ok_def buf_size_valid_def)
  have sb: "sb = stream_buf_reset
            \<lparr>sb_buf_init = buf\<lparr>b_len := 0\<rparr>, sb_residual = r, sb_maxlen = b_len buf,
             sb_residual_fully_formed = False, sb_buf = buf, sb_next = clear_buf, sb_len = -1, sb_error = False,
             sb_port_share_state = (if sockflags AND SF_PORT_SHARE \<noteq> 0 \<and> proto = PROTO_TCP_SERVER
                                    then PS_ENABLED else PS_DISABLED)\<rparr>"
    using i r by (simp add: stream_buf_init_def Let_def)
  show "sb_maxlen sb = b_len buf" by (simp add: sb stream_buf_reset_def)
  have z: "buf_ok (buf\<lparr>b_len := 0\<rparr>)" "buf_content (buf\<lparr>b_len := 0\<rparr>) = []"
    using buf_truncate_ok [OF b(1), of 0] b(2) by simp_all
  have same: "(buf\<lparr>b_len := 0\<rparr>)\<lparr>b_data := b_data buf\<rparr> = buf\<lparr>b_len := 0\<rparr>" by (cases buf) simp
  have "sb_ok sb" using z rr b buf_ok_bounds [OF b(1)] by (simp add: sb sb_ok_def stream_buf_reset_def same)
  then show "tcp_sock_inv \<lparr>ls_stream_buf = sb, ls_stream_reset = False\<rparr> ps (tcp_stream ps)"
    using z same rr ps hello buf_content_empty [OF rr(1,4)]
    by (auto simp: tcp_sock_inv_def tcp_inv_def tcp_at_def port_fits_def sb stream_buf_reset_def)
qed

text \<open>
  C5. Packets survive the stream. Whatever pieces the connection delivers the octets in, a fresh
  receiver cuts them into exactly the packets that the sender wrote, in order, and raises no error;
  it never asserts, and when every round brings at least one octet it has handed out all packets
  after as many rounds as there are octets and packets.
\<close>

theorem tcp_packets_survive:
  assumes "stream_buf_init buf sockflags proto = Some sb" and "buf_ok buf" and "2 \<le> b_len buf"
    and "b_offset buf + 2 + b_len buf \<le> b_capacity buf"
    and s: "list_all (tcp_sendable (min (b_len buf) (sb_maxlen (ls_stream_buf peer)))) bs"
    and "sockflags AND SF_PORT_SHARE = 0 \<or> list_all client_hello (take 1 (map buf_content bs))"
  shows "\<exists>wire out sock rest. tcp_sent peer bs = Some wire \<and>
    tcp_rounds ks \<lparr>ls_stream_buf = sb, ls_stream_reset = False\<rparr> wire = Some (out, sock, rest) \<and>
    out = take (length out) (map buf_content bs) \<and> \<not> socket_connection_reset sock True 0 False \<and>
    (list_all ((<) 0) ks \<and> length wire + length bs \<le> length ks \<longrightarrow> out = map buf_content bs)"
proof -
  let ?ps = "map buf_content bs"
  have w: "tcp_sent peer bs = Some (tcp_stream ?ps)"
    using s by (intro tcp_sent_ok) (auto simp: list_all_iff tcp_sendable_def)
  have fit: "packets_fit (b_len buf) ?ps"
    unfolding packets_fit_def list_all_iff
  proof (intro ballI)
    fix p assume "p \<in> set ?ps"
    then obtain b where b: "b \<in> set bs" "p = buf_content b" by auto
    then have t: "tcp_sendable (min (b_len buf) (sb_maxlen (ls_stream_buf peer))) b" using s by (simp add: list_all_iff)
    then have "int (length p) = b_len b" using b(2) length_buf_content by (auto simp: tcp_sendable_def)
    then show "p \<noteq> [] \<and> int (length p) \<le> b_len buf \<and> length p < 2 ^ 16" using t by (auto simp: tcp_sendable_def)
  qed
  have inv: "tcp_sock_inv \<lparr>ls_stream_buf = sb, ls_stream_reset = False\<rparr> ?ps (tcp_stream ?ps)"
    by (rule stream_buf_init_inv [OF assms(1-4) fit assms(6)])
  obtain out sock rest qs where r:
    "tcp_rounds ks \<lparr>ls_stream_buf = sb, ls_stream_reset = False\<rparr> (tcp_stream ?ps) = Some (out, sock, rest)"
    "?ps = out @ qs" "tcp_sock_inv sock qs rest"
    "list_all ((<) 0) ks \<and> length (tcp_stream ?ps) + length ?ps \<le> length ks \<longrightarrow> qs = []"
    using tcp_rounds_ok [OF inv] by blast
  have "\<not> socket_connection_reset sock True 0 False"
    using r(3) by (auto simp: socket_connection_reset_def tcp_sock_inv_def tcp_inv_def tcp_at_def)
  moreover have "out = take (length out) ?ps" unfolding r(2) by simp
  moreover have "list_all ((<) 0) ks \<and> length (tcp_stream ?ps) + length bs \<le> length ks \<longrightarrow> out = ?ps"
  proof -
    have "length (tcp_stream ?ps) + length bs = length (tcp_stream ?ps) + length ?ps" by simp
    moreover have "out = ?ps" if "qs = []" using r(2) that by simp
    ultimately show ?thesis using r(4) by (simp only:) blast
  qed
  ultimately show ?thesis using w r(1) by blast
qed

definition demo_tcp_buf :: "bytes \<Rightarrow> buffer" where
  "demo_tcp_buf xs = \<lparr>b_capacity = 24, b_offset = 4, b_len = int (length xs),
     b_data = Some (replicate 4 0 @ xs @ replicate (20 - length xs) 0)\<rparr>"

definition demo_tcp_sb :: "stream_buf" where
  "demo_tcp_sb = the (stream_buf_init (demo_tcp_buf (replicate 10 0)) 0 PROTO_TCP_CLIENT)"

lemma tcp_packets_survive_witness:
  "\<exists>wire out sock rest.
    tcp_sent \<lparr>ls_stream_buf = demo_tcp_sb, ls_stream_reset = False\<rparr> (map demo_tcp_buf [[1, 2, 3], [4]]) = Some wire \<and>
    tcp_rounds (replicate 20 3) \<lparr>ls_stream_buf = demo_tcp_sb, ls_stream_reset = False\<rparr> wire = Some (out, sock, rest) \<and>
    out = take (length out) (map buf_content (map demo_tcp_buf [[1, 2, 3], [4]])) \<and>
    \<not> socket_connection_reset sock True 0 False \<and>
    (list_all ((<) 0) (replicate 20 (3 :: nat)) \<and> length wire + length (map demo_tcp_buf [[1, 2, 3], [4]]) \<le> length (replicate 20 (3 :: nat))
      \<longrightarrow> out = map buf_content (map demo_tcp_buf [[1, 2, 3], [4]]))"
proof (rule tcp_packets_survive)
  show "stream_buf_init (demo_tcp_buf (replicate 10 0)) 0 PROTO_TCP_CLIENT = Some demo_tcp_sb"
    by (simp add: demo_tcp_sb_def demo_tcp_buf_def stream_buf_init_def alloc_buf_def buf_size_valid_def BUF_SIZE_MAX_def)
qed (simp_all add: demo_tcp_buf_def demo_tcp_sb_def stream_buf_init_def alloc_buf_def buf_size_valid_def BUF_SIZE_MAX_def
    buf_ok_def tcp_sendable_def stream_buf_reset_def)

text \<open>
  C24. A length that is zero or above the limit ends the connection. Whatever a stream carries behind
  it, the packet is not handed out, the octets in hand are thrown away, and the socket asks for a
  reset.
\<close>

theorem tcp_bad_length_resets:
  assumes "sb_ok sb" and "sb_len sb = -1" and "sb_port_share_state sb = PS_DISABLED"
    and "buf_content (sb_buf sb) = u16_bytes n @ xs" and "n = 0 \<or> sb_maxlen sb < uint n"
  shows "\<exists>sb'. stream_buf_added sb 0 = Some (False, sb') \<and> b_len (sb_buf sb') = 0 \<and>
    socket_connection_reset (sock\<lparr>ls_stream_buf := sb'\<rparr>) True status e"
proof -
  note g = sb_okD [OF assms(1)]
  have len: "int (length (buf_content (sb_buf sb))) = b_len (sb_buf sb)" by (rule length_buf_content [OF g(1)])
  have "buf_read (sb_buf sb) 2 = Some (Some (u16_bytes n), buf_drop (sb_buf sb) 2)"
    using buf_read_ok [OF g(1), of 2] len assms(4) by simp
  then have "stream_buf_added sb 0 = Some (False,
      (stream_buf_reset (sb\<lparr>sb_buf := buf_drop (sb_buf sb) 2, sb_len := uint n\<rparr>))\<lparr>sb_error := True\<rparr>)"
    using assms(2,3,5) len assms(4) by (auto simp: stream_buf_added_def Let_def)
  then show ?thesis
    using g(7) by (simp add: stream_buf_reset_def socket_connection_reset_def)
qed

lemma tcp_bad_length_resets_witness:
  "\<forall>sock. \<exists>sb'. stream_buf_added (demo_tcp_sb\<lparr>sb_buf := (demo_tcp_buf [0, 200, 1])\<rparr>) 0 = Some (False, sb') \<and>
    b_len (sb_buf sb') = 0 \<and> socket_connection_reset (sock\<lparr>ls_stream_buf := sb'\<rparr>) True 0 False"
  by (intro allI, rule tcp_bad_length_resets [where n = 200 and xs = "[1]"])
     (simp_all add: demo_tcp_buf_def demo_tcp_sb_def stream_buf_init_def alloc_buf_def buf_size_valid_def BUF_SIZE_MAX_def
       buf_ok_def sb_ok_def stream_buf_reset_def buf_content_def u16_bytes_def)

end
