(* ===== verification/HashTable.thy ===== *)
theory HashTable
  imports CInteger
begin

text \<open>
  The hash tables of src: list.h and list.c: chains of elements, searched with a move to the front,
  iterators that mark elements for deletion while they walk, and the hash function. The code stores
  the two functions of a table in it, and so does the record; a \<open>NULL\<close> key is \<open>None\<close>. A chain is
  a list, a pointer to an element of the chain that an iterator walks is its place.
\<close>

record ('k, 'v) hash_element =
  he_value :: 'v
  he_key :: "'k option"
  he_hash_value :: u32

record ('k, 'v) hash =
  h_n_buckets :: int
  h_n_elements :: int
  h_mask :: int
  h_iv :: u32
  h_hash_function :: "'k \<Rightarrow> u32 \<Rightarrow> u32"
  h_compare_function :: "'k \<Rightarrow> 'k \<Rightarrow> bool"
  h_buckets :: "('k, 'v) hash_element list list"

section \<open>The operations\<close>

text \<open>\<open>ALLOC_ARRAY\<close> with a size that is not positive has no array to index.\<close>

definition hash_init :: "int \<Rightarrow> u32 \<Rightarrow> ('k \<Rightarrow> u32 \<Rightarrow> u32) \<Rightarrow> ('k \<Rightarrow> 'k \<Rightarrow> bool) \<Rightarrow> ('k, 'v) hash option" where
  "hash_init n_buckets iv hash_function compare_function =
     do { ASSERT (n_buckets > 0);
          n \<leftarrow> adjust_power_of_2 (word_of_int n_buckets);
          let k = sint (ucast n :: u32);
          Some \<lparr>h_n_buckets = k, h_n_elements = 0, h_mask = k - 1, h_iv = iv,
                h_hash_function = hash_function, h_compare_function = compare_function,
                h_buckets = replicate (nat k) []\<rparr> }"

definition hash_value :: "('k, 'v) hash \<Rightarrow> 'k \<Rightarrow> u32" where
  "hash_value h key = h_hash_function h key (h_iv h)"

definition hash_n_elements :: "('k, 'v) hash \<Rightarrow> int" where
  "hash_n_elements h = h_n_elements h"

definition hash_n_buckets :: "('k, 'v) hash \<Rightarrow> int" where
  "hash_n_buckets h = h_n_buckets h"

text \<open>The index of the bucket of a hash value; the mask converts to unsigned.\<close>

definition hash_bucket :: "('k, 'v) hash \<Rightarrow> u32 \<Rightarrow> int" where
  "hash_bucket h hv = uint (hv AND word_of_int (h_mask h))"

text \<open>
  The search of a chain: the elements before the one found, the element and those behind it. The
  comparison with a \<open>NULL\<close> key is undefined.
\<close>

primrec hash_search :: "('k \<Rightarrow> 'k \<Rightarrow> bool) \<Rightarrow> 'k \<Rightarrow> u32 \<Rightarrow> ('k, 'v) hash_element list \<Rightarrow>
  (('k, 'v) hash_element list \<times> ('k, 'v) hash_element \<times> ('k, 'v) hash_element list) option option" where
  "hash_search cmp key hv [] = Some None"
| "hash_search cmp key hv (he # hes) =
     do { found \<leftarrow> (if hv = he_hash_value he
                   then do { k \<leftarrow> he_key he; Some (cmp key k) } else Some False);
          if found then Some (Some ([], he, hes))
          else do { r \<leftarrow> hash_search cmp key hv hes;
                    Some (map_option (\<lambda>(before, x, behind). (he # before, x, behind)) r) } }"

definition hash_lookup_fast ::
  "('k, 'v) hash \<Rightarrow> int \<Rightarrow> 'k \<Rightarrow> u32 \<Rightarrow> (('k, 'v) hash_element option \<times> ('k, 'v) hash) option" where
  "hash_lookup_fast h bucket key hv =
     do { b \<leftarrow> arr_get (h_buckets h) bucket;
          r \<leftarrow> hash_search (h_compare_function h) key hv b;
          case r of
            None \<Rightarrow> Some (None, h)
          | Some (before, he, behind) \<Rightarrow>
              do { bs \<leftarrow> arr_set (h_buckets h) bucket (he # before @ behind);
                   Some (Some he, h\<lparr>h_buckets := bs\<rparr>) } }"

definition hash_lookup :: "('k, 'v) hash \<Rightarrow> 'k \<Rightarrow> ('v option \<times> ('k, 'v) hash) option" where
  "hash_lookup h key =
     do { let hv = hash_value h key;
          (he, h') \<leftarrow> hash_lookup_fast h (hash_bucket h hv) key hv;
          Some (map_option he_value he, h') }"

definition hash_remove_fast :: "('k, 'v) hash \<Rightarrow> int \<Rightarrow> 'k \<Rightarrow> u32 \<Rightarrow> (bool \<times> ('k, 'v) hash) option" where
  "hash_remove_fast h bucket key hv =
     do { b \<leftarrow> arr_get (h_buckets h) bucket;
          r \<leftarrow> hash_search (h_compare_function h) key hv b;
          case r of
            None \<Rightarrow> Some (False, h)
          | Some (before, he, behind) \<Rightarrow>
              do { bs \<leftarrow> arr_set (h_buckets h) bucket (before @ behind);
                   Some (True, h\<lparr>h_buckets := bs, h_n_elements := h_n_elements h - 1\<rparr>) } }"

definition hash_add_fast :: "('k, 'v) hash \<Rightarrow> int \<Rightarrow> 'k \<Rightarrow> u32 \<Rightarrow> 'v \<Rightarrow> ('k, 'v) hash option" where
  "hash_add_fast h bucket key hv value =
     do { b \<leftarrow> arr_get (h_buckets h) bucket;
          bs \<leftarrow> arr_set (h_buckets h) bucket (\<lparr>he_value = value, he_key = Some key, he_hash_value = hv\<rparr> # b);
          Some (h\<lparr>h_buckets := bs, h_n_elements := h_n_elements h + 1\<rparr>) }"

text \<open>After a successful search the element is the head of its chain, where its value is replaced.\<close>

definition hash_add :: "('k, 'v) hash \<Rightarrow> 'k \<Rightarrow> 'v \<Rightarrow> bool \<Rightarrow> (bool \<times> ('k, 'v) hash) option" where
  "hash_add h key value repl =
     do { let hv = hash_value h key;
          let bucket = hash_bucket h hv;
          (he, h1) \<leftarrow> hash_lookup_fast h bucket key hv;
          case he of
            Some e \<Rightarrow>
              if repl
              then do { b \<leftarrow> arr_get (h_buckets h1) bucket;
                        bs \<leftarrow> arr_set (h_buckets h1) bucket (e\<lparr>he_value := value\<rparr> # tl b);
                        Some (True, h1\<lparr>h_buckets := bs\<rparr>) }
              else Some (False, h1)
          | None \<Rightarrow> do { h2 \<leftarrow> hash_add_fast h1 bucket key hv value; Some (True, h2) } }"

definition hash_remove :: "('k, 'v) hash \<Rightarrow> 'k \<Rightarrow> (bool \<times> ('k, 'v) hash) option" where
  "hash_remove h key =
     (let hv = hash_value h key in hash_remove_fast h (hash_bucket h hv) key hv)"

text \<open>\<open>hash_free\<close> gives up every element and the table.\<close>

definition hash_free :: "('k, 'v) hash \<Rightarrow> ('k, 'v) hash" where
  "hash_free h = h\<lparr>h_buckets := []\<rparr>"

section \<open>The invariant\<close>

text \<open>
  The functions of a table fit together: the comparison is an equivalence and the hash function
  does not tell equal keys apart.
\<close>

definition hash_contract :: "('k, 'v) hash \<Rightarrow> bool" where
  "hash_contract h \<longleftrightarrow> equivp (h_compare_function h) \<and>
     (\<forall>k k'. h_compare_function h k k' \<longrightarrow> hash_value h k = hash_value h k')"

definition hash_same :: "('k, 'v) hash \<Rightarrow> ('k, 'v) hash_element \<Rightarrow> ('k, 'v) hash_element \<Rightarrow> bool" where
  "hash_same h a b \<longleftrightarrow> (\<exists>k l. he_key a = Some k \<and> he_key b = Some l \<and> h_compare_function h k l)"

definition hash_elem_ok :: "('k, 'v) hash \<Rightarrow> int \<Rightarrow> ('k, 'v) hash_element \<Rightarrow> bool" where
  "hash_elem_ok h i e \<longleftrightarrow>
     (\<exists>k. he_key e = Some k \<and> he_hash_value e = hash_value h k \<and> hash_bucket h (hash_value h k) = i)"

definition hash_bucket_ok :: "('k, 'v) hash \<Rightarrow> int \<Rightarrow> ('k, 'v) hash_element list \<Rightarrow> bool" where
  "hash_bucket_ok h i b \<longleftrightarrow> list_all (hash_elem_ok h i) b \<and> sorted_wrt (\<lambda>x y. \<not> hash_same h x y) b"

definition hash_ok :: "('k, 'v) hash \<Rightarrow> bool" where
  "hash_ok h \<longleftrightarrow> hash_contract h \<and> h_n_buckets h = int (length (h_buckets h)) \<and>
     (\<exists>n \<le> 31. length (h_buckets h) = 2 ^ n) \<and> h_mask h = h_n_buckets h - 1 \<and>
     h_n_elements h = int (length (concat (h_buckets h))) \<and>
     (\<forall>i < length (h_buckets h). hash_bucket_ok h (int i) (h_buckets h ! i))"

text \<open>The map that a table stands for.\<close>

definition key_is :: "('k, 'v) hash \<Rightarrow> 'k \<Rightarrow> ('k, 'v) hash_element \<Rightarrow> bool" where
  "key_is h k e \<longleftrightarrow> (case he_key e of None \<Rightarrow> False | Some l \<Rightarrow> h_compare_function h k l)"

definition bucket_val :: "('k, 'v) hash \<Rightarrow> ('k, 'v) hash_element list \<Rightarrow> 'k \<Rightarrow> 'v option" where
  "bucket_val h b k = map_option he_value (find (key_is h k) b)"

definition hash_val :: "('k, 'v) hash \<Rightarrow> 'k \<Rightarrow> 'v option" where
  "hash_val h k = bucket_val h (h_buckets h ! nat (hash_bucket h (hash_value h k))) k"

text \<open>The other fields do not move.\<close>

lemma hash_fields [simp]:
  "hash_value (h\<lparr>h_buckets := bs\<rparr>) = hash_value h"
  "hash_value (h\<lparr>h_n_elements := n\<rparr>) = hash_value h"
  "hash_bucket (h\<lparr>h_buckets := bs\<rparr>) = hash_bucket h"
  "hash_bucket (h\<lparr>h_n_elements := n\<rparr>) = hash_bucket h"
  "hash_contract (h\<lparr>h_buckets := bs\<rparr>) = hash_contract h"
  "hash_contract (h\<lparr>h_n_elements := n\<rparr>) = hash_contract h"
  "hash_same (h\<lparr>h_buckets := bs\<rparr>) = hash_same h"
  "hash_same (h\<lparr>h_n_elements := n\<rparr>) = hash_same h"
  "key_is (h\<lparr>h_buckets := bs\<rparr>) = key_is h"
  "key_is (h\<lparr>h_n_elements := n\<rparr>) = key_is h"
  by (auto simp: hash_value_def hash_bucket_def hash_contract_def hash_same_def key_is_def fun_eq_iff split: option.splits)

lemma hash_elem_ok_fields [simp]:
  "hash_elem_ok (h\<lparr>h_buckets := bs\<rparr>) = hash_elem_ok h"
  "hash_elem_ok (h\<lparr>h_n_elements := n\<rparr>) = hash_elem_ok h"
  by (simp_all add: hash_elem_ok_def fun_eq_iff)

lemma hash_bucket_ok_fields [simp]:
  "hash_bucket_ok (h\<lparr>h_buckets := bs\<rparr>) = hash_bucket_ok h"
  "hash_bucket_ok (h\<lparr>h_n_elements := n\<rparr>) = hash_bucket_ok h"
  "bucket_val (h\<lparr>h_buckets := bs\<rparr>) = bucket_val h"
  "bucket_val (h\<lparr>h_n_elements := n\<rparr>) = bucket_val h"
  by (simp_all add: hash_bucket_ok_def bucket_val_def fun_eq_iff)

lemma hash_okD:
  assumes "hash_ok h"
  shows "hash_contract h" "h_n_buckets h = int (length (h_buckets h))" "h_mask h = h_n_buckets h - 1"
    "h_n_elements h = int (length (concat (h_buckets h)))"
    "\<And>i. i < length (h_buckets h) \<Longrightarrow> hash_bucket_ok h (int i) (h_buckets h ! i)"
  using assms by (simp_all add: hash_ok_def)

lemma hash_contractD:
  assumes "hash_contract h"
  shows "h_compare_function h k k" "h_compare_function h k l \<Longrightarrow> h_compare_function h l k"
    "h_compare_function h k l \<Longrightarrow> h_compare_function h l m \<Longrightarrow> h_compare_function h k m"
    "h_compare_function h k l \<Longrightarrow> hash_value h k = hash_value h l"
  using assms by (auto simp: hash_contract_def dest: equivp_reflp equivp_symp equivp_transp)

lemma hash_bucket_range:
  assumes "hash_ok h"
  shows "0 \<le> hash_bucket h hv" "hash_bucket h hv < int (length (h_buckets h))"
proof -
  obtain n where n: "n \<le> 31" "length (h_buckets h) = 2 ^ n" using assms by (auto simp: hash_ok_def)
  have "(2::int) ^ n < 2 ^ 32" using n(1) by (intro power_strict_increasing) auto
  then have "uint (word_of_int (2 ^ n - 1) :: u32) = 2 ^ n - 1"
    by (simp only: uint_word_of_int) simp
  moreover have "h_mask h = 2 ^ n - 1" using hash_okD(2,3) [OF assms] n(2) by simp
  moreover have "uint (hv AND word_of_int (h_mask h)) \<le> uint (word_of_int (h_mask h) :: u32)"
    using word_and_le1 [of hv "word_of_int (h_mask h)"] by (simp only: word_le_def)
  ultimately have "uint (hv AND word_of_int (h_mask h)) \<le> 2 ^ n - 1" by (simp only:)
  then show "hash_bucket h hv < int (length (h_buckets h))" using n(2) by (simp add: hash_bucket_def)
  show "0 \<le> hash_bucket h hv" by (simp add: hash_bucket_def)
qed

lemma length_concat_update:
  "i < length xs \<Longrightarrow>
   int (length (concat (xs[i := y]))) = int (length (concat xs)) - int (length (xs ! i)) + int (length y)"
  by (induction xs arbitrary: i) (auto split: nat.splits)

text \<open>A bucket is replaced by another well-formed one.\<close>

lemma hash_replace_bucket:
  fixes b :: "('k, 'v) hash_element list"
  assumes h: "hash_ok h" and i: "0 \<le> i" "i < int (length (h_buckets h))" and b: "hash_bucket_ok h i b"
    and n: "n = h_n_elements h - int (length (h_buckets h ! nat i)) + int (length b)"
  defines "h' \<equiv> h\<lparr>h_buckets := (h_buckets h)[nat i := b], h_n_elements := n\<rparr>"
  shows "hash_ok h'" "h_compare_function h' = h_compare_function h"
    "hash_val h' k = (if hash_bucket h (hash_value h k) = i then bucket_val h b k else hash_val h k)"
proof -
  have lt: "nat i < length (h_buckets h)" using i by linarith
  have "hash_bucket_ok h (int j) ((h_buckets h)[nat i := b] ! j)" if "j < length (h_buckets h)" for j
    using hash_okD(5) [OF h that] that b i by (cases "j = nat i") (auto simp: nth_list_update)
  then show "hash_ok h'"
    using h n length_concat_update [OF lt, of b] by (simp add: hash_ok_def h'_def)
  show "h_compare_function h' = h_compare_function h" by (simp add: h'_def)
  have "nat (hash_bucket h (hash_value h k)) = nat i \<longleftrightarrow> hash_bucket h (hash_value h k) = i"
    using i hash_bucket_range(1) [OF h] by (simp add: eq_nat_nat_iff)
  then show "hash_val h' k = (if hash_bucket h (hash_value h k) = i then bucket_val h b k else hash_val h k)"
    using lt by (simp add: hash_val_def h'_def nth_list_update_if)
qed

lemma hash_search_ok:
  assumes c: "hash_contract h" and "list_all (hash_elem_ok h i) b"
  shows "\<exists>r. hash_search (h_compare_function h) key (hash_value h key) b = Some r \<and>
    (case r of None \<Rightarrow> \<forall>e \<in> set b. \<not> key_is h key e
     | Some (p, x, s) \<Rightarrow> b = p @ x # s \<and> key_is h key x \<and> (\<forall>e \<in> set p. \<not> key_is h key e))"
  using assms(2)
proof (induction b)
  case (Cons e b)
  obtain k where k: "he_key e = Some k" "he_hash_value e = hash_value h k"
    using Cons.prems by (auto simp: hash_elem_ok_def)
  obtain r where r: "hash_search (h_compare_function h) key (hash_value h key) b = Some r"
    "case r of None \<Rightarrow> \<forall>e \<in> set b. \<not> key_is h key e
     | Some (p, x, s) \<Rightarrow> b = p @ x # s \<and> key_is h key x \<and> (\<forall>e \<in> set p. \<not> key_is h key e)"
    using Cons by auto
  show ?case
  proof (cases "h_compare_function h key k")
    case True
    then show ?thesis using k hash_contractD(4) [OF c True] by (simp add: key_is_def)
  next
    case False
    then show ?thesis
      using k r by (cases r) (auto simp: key_is_def)
  qed
qed simp

lemma key_is_same:
  assumes "hash_contract h" "key_is h k x" "key_is h k e"
  shows "hash_same h x e"
proof -
  obtain a b where "he_key x = Some a" "h_compare_function h k a" "he_key e = Some b" "h_compare_function h k b"
    using assms(2,3) by (auto simp: key_is_def split: option.splits)
  moreover from this have "h_compare_function h a b"
    using hash_contractD(3) [OF assms(1) hash_contractD(2) [OF assms(1)]] by blast
  ultimately show ?thesis by (simp add: hash_same_def)
qed

lemma find_none: "\<forall>e \<in> set xs. \<not> P e \<Longrightarrow> find P (xs @ ys) = find P ys"
  by (induction xs) auto

lemma hash_same_sym: "hash_contract h \<Longrightarrow> hash_same h x y \<Longrightarrow> hash_same h y x"
  using hash_contractD(2) by (fastforce simp: hash_same_def)

lemma bucket_at_most_one:
  assumes c: "hash_contract h" and s: "sorted_wrt (\<lambda>x y. \<not> hash_same h x y) (p @ x # q)" and k: "key_is h k x"
  shows "\<forall>e \<in> set p. \<not> key_is h k e" "\<forall>e \<in> set q. \<not> key_is h k e"
  using s key_is_same [OF c k] key_is_same [OF c _ k] by (auto simp: sorted_wrt_append)

lemma bucket_to_front:
  assumes c: "hash_contract h" and b: "hash_bucket_ok h i (p @ x # q)"
  shows "hash_bucket_ok h i (x # p @ q)" "hash_bucket_ok h i (p @ q)"
    "bucket_val h (x # p @ q) = bucket_val h (p @ x # q)"
    "bucket_val h (p @ q) k = (if key_is h k x then None else bucket_val h (p @ x # q) k)"
proof -
  have s: "sorted_wrt (\<lambda>x y. \<not> hash_same h x y) (p @ x # q)" using b by (simp add: hash_bucket_ok_def)
  show "hash_bucket_ok h i (x # p @ q)" "hash_bucket_ok h i (p @ q)"
    using b hash_same_sym [OF c] by (auto simp: hash_bucket_ok_def sorted_wrt_append)
  have "find (key_is h k) (x # p @ q) = find (key_is h k) (p @ x # q)" for k
  proof (cases "key_is h k x")
    case True
    then show ?thesis using find_none [OF bucket_at_most_one(1) [OF c s True]] by simp
  next
    case False
    then show ?thesis by (induction p) auto
  qed
  then show "bucket_val h (x # p @ q) = bucket_val h (p @ x # q)" by (simp add: bucket_val_def fun_eq_iff)
  show "bucket_val h (p @ q) k = (if key_is h k x then None else bucket_val h (p @ x # q) k)"
  proof (cases "key_is h k x")
    case True
    then have "find (key_is h k) (p @ q) = None"
      using bucket_at_most_one [OF c s True] by (auto simp: find_None_iff)
    then show ?thesis using True by (simp add: bucket_val_def)
  next
    case False
    then have "find (key_is h k) (p @ q) = find (key_is h k) (p @ x # q)" by (induction p) auto
    then show ?thesis using False by (simp add: bucket_val_def)
  qed
qed

lemma key_is_compare:
  assumes "hash_contract h" "key_is h k x"
  shows "key_is h k' x \<longleftrightarrow> h_compare_function h k k'"
proof -
  obtain a where a: "he_key x = Some a" "h_compare_function h k a"
    using assms(2) by (auto simp: key_is_def split: option.splits)
  have "h_compare_function h k' a \<longleftrightarrow> h_compare_function h k k'"
    using hash_contractD(2,3) [OF assms(1)] a(2) by metis
  then show ?thesis using a(1) by (simp add: key_is_def)
qed

section \<open>What the operations do to the map\<close>

text \<open>The bucket of a key and what a search in it finds.\<close>

lemma hash_find_ok:
  assumes h: "hash_ok h"
  obtains b where "arr_get (h_buckets h) (hash_bucket h (hash_value h key)) = Some b"
      "hash_bucket_ok h (hash_bucket h (hash_value h key)) b"
      "b = h_buckets h ! nat (hash_bucket h (hash_value h key))"
      "hash_search (h_compare_function h) key (hash_value h key) b = Some None" "hash_val h key = None"
    | b p x q where "arr_get (h_buckets h) (hash_bucket h (hash_value h key)) = Some b"
      "hash_bucket_ok h (hash_bucket h (hash_value h key)) b"
      "b = h_buckets h ! nat (hash_bucket h (hash_value h key))" "b = p @ x # q" "key_is h key x"
      "hash_search (h_compare_function h) key (hash_value h key) b = Some (Some (p, x, q))"
      "hash_val h key = Some (he_value x)"
proof -
  let ?i = "hash_bucket h (hash_value h key)"
  let ?b = "h_buckets h ! nat ?i"
  note r = hash_bucket_range [OF h, of "hash_value h key"]
  have g: "arr_get (h_buckets h) ?i = Some ?b" using r by (simp add: arr_get_Some)
  have ok: "hash_bucket_ok h ?i ?b" using hash_okD(5) [OF h, of "nat ?i"] r by simp
  have elems: "list_all (hash_elem_ok h ?i) ?b" using ok by (simp add: hash_bucket_ok_def)
  obtain res where s: "hash_search (h_compare_function h) key (hash_value h key) ?b = Some res"
    "case res of None \<Rightarrow> \<forall>e \<in> set ?b. \<not> key_is h key e
     | Some (p, x, s) \<Rightarrow> ?b = p @ x # s \<and> key_is h key x \<and> (\<forall>e \<in> set p. \<not> key_is h key e)"
    using hash_search_ok [OF hash_okD(1) [OF h] elems] by blast
  show ?thesis
  proof (cases res)
    case None
    then have "find (key_is h key) ?b = None" using s(2) by (simp add: find_None_iff)
    then show ?thesis using that(1) [OF g ok refl] s(1) None by (simp add: hash_val_def bucket_val_def)
  next
    case (Some t)
    obtain p x q where t: "res = Some (p, x, q)" using Some by (cases t) auto
    have e: "?b = p @ x # q" "key_is h key x" "\<forall>e \<in> set p. \<not> key_is h key e" using s(2) t by simp_all
    have "find (key_is h key) ?b = Some x" using e(2) find_none [OF e(3)] by (simp add: e(1))
    then show ?thesis using that(2) [OF g ok refl e(1,2)] s(1) t by (simp add: hash_val_def bucket_val_def)
  qed
qed

lemma hash_val_same: "hash_ok h \<Longrightarrow> h_compare_function h k k' \<Longrightarrow> hash_val h k = hash_val h k'"
proof -
  assume h: "hash_ok h" and k: "h_compare_function h k k'"
  note c = hash_okD(1) [OF h]
  have "h_compare_function h k a \<longleftrightarrow> h_compare_function h k' a" for a
    using hash_contractD(2,3) [OF c] k by metis
  then have "key_is h k = key_is h k'" by (auto simp: key_is_def fun_eq_iff split: option.splits)
  then show ?thesis using hash_contractD(4) [OF c k] by (simp add: hash_val_def bucket_val_def)
qed

lemma same_bucket:
  assumes "hash_contract h" "hash_bucket_ok h i (p @ x # q)" "key_is h k x"
  shows "hash_bucket h (hash_value h k) = i"
proof -
  have "hash_elem_ok h i x" using assms(2) by (simp add: hash_bucket_ok_def)
  then obtain l where "he_key x = Some l" "hash_bucket h (hash_value h l) = i" by (auto simp: hash_elem_ok_def)
  then show ?thesis using assms(3) hash_contractD(4) [OF assms(1)] by (auto simp: key_is_def)
qed

lemma n_elements_same: "h\<lparr>h_buckets := bs\<rparr> = h\<lparr>h_buckets := bs, h_n_elements := h_n_elements h\<rparr>"
  by (cases h) simp

lemma hash_lookup_fast_ok:
  assumes h: "hash_ok h"
  shows "\<exists>he h'. hash_lookup_fast h (hash_bucket h (hash_value h key)) key (hash_value h key) = Some (he, h') \<and>
    map_option he_value he = hash_val h key \<and> hash_ok h' \<and> hash_val h' = hash_val h \<and>
    h_compare_function h' = h_compare_function h \<and> hash_value h' = hash_value h \<and> hash_bucket h' = hash_bucket h \<and>
    length (h_buckets h') = length (h_buckets h) \<and>
    (he = None \<longrightarrow> h' = h) \<and>
    (\<forall>e. he = Some e \<longrightarrow> key_is h' key e \<and> (\<exists>q. h_buckets h' ! nat (hash_bucket h (hash_value h key)) = e # q))"
proof (rule hash_find_ok [OF h, of key])
  fix b assume "arr_get (h_buckets h) (hash_bucket h (hash_value h key)) = Some b"
    "hash_search (h_compare_function h) key (hash_value h key) b = Some None" "hash_val h key = None"
  then show ?thesis using h by (auto simp: hash_lookup_fast_def)
next
  let ?i = "hash_bucket h (hash_value h key)"
  fix b p x q
  assume f: "arr_get (h_buckets h) ?i = Some b" "hash_bucket_ok h ?i b" "b = h_buckets h ! nat ?i" "b = p @ x # q"
    "key_is h key x" "hash_search (h_compare_function h) key (hash_value h key) b = Some (Some (p, x, q))"
    "hash_val h key = Some (he_value x)"
  note r = hash_bucket_range [OF h, of "hash_value h key"]
  note tf = bucket_to_front [OF hash_okD(1) [OF h] f(2) [unfolded f(4)]]
  define h' where "h' = h\<lparr>h_buckets := (h_buckets h)[nat ?i := x # p @ q], h_n_elements := h_n_elements h\<rparr>"
  have n: "h_n_elements h = h_n_elements h - int (length (h_buckets h ! nat ?i)) + int (length (x # p @ q))"
    unfolding f(3) [symmetric] f(4) by simp
  note rb = hash_replace_bucket [OF h r tf(1) n, folded h'_def]
  have "hash_lookup_fast h ?i key (hash_value h key) = Some (Some x, h')"
    using f(1,6) r by (simp add: hash_lookup_fast_def arr_set_Some h'_def flip: n_elements_same)
  moreover have "hash_val h' k = hash_val h k" for k
    using rb(3) [of k] tf(3) f(3,4) by (simp add: hash_val_def)
  moreover have "h_buckets h' ! nat ?i = x # p @ q" using r by (simp add: h'_def)
  moreover have "hash_value h' = hash_value h" "hash_bucket h' = hash_bucket h" "key_is h' = key_is h"
    "length (h_buckets h') = length (h_buckets h)" by (simp_all add: h'_def)
  ultimately show ?thesis using rb(1,2) f(5,7) by (auto simp: fun_eq_iff)
qed

lemma hash_lookup_ok:
  "hash_ok h \<Longrightarrow> \<exists>h'. hash_lookup h key = Some (hash_val h key, h') \<and> hash_ok h' \<and> hash_val h' = hash_val h \<and>
    h_compare_function h' = h_compare_function h"
  using hash_lookup_fast_ok [of h key] by (auto simp: hash_lookup_def Let_def)

lemma hash_remove_ok:
  assumes h: "hash_ok h"
  shows "\<exists>h'. hash_remove h key = Some (hash_val h key \<noteq> None, h') \<and> hash_ok h' \<and>
    h_compare_function h' = h_compare_function h \<and>
    hash_val h' = (\<lambda>k. if h_compare_function h key k then None else hash_val h k)"
proof (rule hash_find_ok [OF h, of key])
  fix b assume "arr_get (h_buckets h) (hash_bucket h (hash_value h key)) = Some b"
    "hash_search (h_compare_function h) key (hash_value h key) b = Some None" "hash_val h key = None"
  then show ?thesis using h hash_val_same [OF h, of key]
    by (auto simp: hash_remove_def hash_remove_fast_def Let_def fun_eq_iff)
next
  let ?i = "hash_bucket h (hash_value h key)"
  fix b p x q
  assume f: "arr_get (h_buckets h) ?i = Some b" "hash_bucket_ok h ?i b" "b = h_buckets h ! nat ?i" "b = p @ x # q"
    "key_is h key x" "hash_search (h_compare_function h) key (hash_value h key) b = Some (Some (p, x, q))"
    "hash_val h key = Some (he_value x)"
  note c = hash_okD(1) [OF h]
  note r = hash_bucket_range [OF h, of "hash_value h key"]
  note tf = bucket_to_front [OF c f(2) [unfolded f(4)]]
  define h' where "h' = h\<lparr>h_buckets := (h_buckets h)[nat ?i := p @ q], h_n_elements := h_n_elements h - 1\<rparr>"
  have n: "h_n_elements h - 1 = h_n_elements h - int (length (h_buckets h ! nat ?i)) + int (length (p @ q))"
    unfolding f(3) [symmetric] f(4) by simp
  note rb = hash_replace_bucket [OF h r tf(2) n, folded h'_def]
  have "hash_remove h key = Some (True, h')"
    using f(1,6) r by (simp add: hash_remove_def hash_remove_fast_def arr_set_Some h'_def Let_def)
  moreover have "hash_val h' k = (if h_compare_function h key k then None else hash_val h k)" for k
    using rb(3) [of k] tf(4) [of k] f(3,4) same_bucket [OF c f(2) [unfolded f(4)], of k] key_is_compare [OF c f(5), of k]
    by (auto simp: hash_val_def)
  ultimately show ?thesis using rb(1,2) f(7) by (auto simp: fun_eq_iff)
qed

lemma he_value_update [simp]:
  "hash_elem_ok h i (e\<lparr>he_value := v\<rparr>) = hash_elem_ok h i e" "key_is h k (e\<lparr>he_value := v\<rparr>) = key_is h k e"
  "hash_same h (e\<lparr>he_value := v\<rparr>) x = hash_same h e x"
  by (simp_all add: hash_elem_ok_def key_is_def hash_same_def)

lemma hash_add_ok:
  assumes h: "hash_ok h"
  shows "\<exists>h'. hash_add h key v repl = Some (repl \<or> hash_val h key = None, h') \<and> hash_ok h' \<and>
    h_compare_function h' = h_compare_function h \<and>
    hash_val h' = (if repl \<or> hash_val h key = None
                   then (\<lambda>k. if h_compare_function h key k then Some v else hash_val h k) else hash_val h)"
proof -
  let ?hv = "hash_value h key"
  let ?i = "hash_bucket h ?hv"
  obtain he h1 where l: "hash_lookup_fast h ?i key ?hv = Some (he, h1)"
    "map_option he_value he = hash_val h key" "hash_ok h1" "hash_val h1 = hash_val h"
    "h_compare_function h1 = h_compare_function h" "hash_value h1 = hash_value h" "hash_bucket h1 = hash_bucket h"
    "he = None \<longrightarrow> h1 = h"
    "\<forall>e. he = Some e \<longrightarrow> key_is h1 key e \<and> (\<exists>q. h_buckets h1 ! nat ?i = e # q)"
    using hash_lookup_fast_ok [OF h, of key] by blast
  note c1 = hash_okD(1) [OF l(3)]
  have r: "0 \<le> ?i" "?i < int (length (h_buckets h1))"
    using hash_bucket_range [OF l(3), of ?hv] by (simp_all add: l(7))
  have bok: "hash_bucket_ok h1 ?i (h_buckets h1 ! nat ?i)" using hash_okD(5) [OF l(3), of "nat ?i"] r by simp
  have g: "arr_get (h_buckets h1) ?i = Some (h_buckets h1 ! nat ?i)" using r by (simp add: arr_get_Some)
  have hv1: "hash_val h1 k = bucket_val h1 (h_buckets h1 ! nat ?i) k" if "hash_bucket h1 (hash_value h1 k) = ?i" for k
    using that by (simp add: hash_val_def)
  show ?thesis
  proof (cases he)
    case None
    let ?e = "\<lparr>he_value = v, he_key = Some key, he_hash_value = ?hv\<rparr>"
    let ?b = "h_buckets h1 ! nat ?i"
    define h2 where "h2 = h1\<lparr>h_buckets := (h_buckets h1)[nat ?i := ?e # ?b], h_n_elements := h_n_elements h1 + 1\<rparr>"
    have none: "hash_val h key = None" using l(2) None by simp
    then have "hash_val h1 key = None" using l(4) by simp
    then have "find (key_is h1 key) ?b = None" using l(6,7) by (simp add: hash_val_def bucket_val_def)
    then have "\<forall>x \<in> set ?b. \<not> hash_same h1 ?e x"
      by (auto simp: find_None_iff hash_same_def key_is_def)
    moreover have "hash_elem_ok h1 ?i ?e" by (simp add: hash_elem_ok_def l(6,7))
    ultimately have bk: "hash_bucket_ok h1 ?i (?e # ?b)" using bok by (simp add: hash_bucket_ok_def)
    have nn: "h_n_elements h1 + 1 = h_n_elements h1 - int (length ?b) + int (length (?e # ?b))" by simp
    note rb = hash_replace_bucket [OF l(3) r bk nn, folded h2_def]
    have "hash_add h key v repl = Some (True, h2)"
      using l(1) None g r by (simp add: hash_add_def hash_add_fast_def arr_set_Some Let_def h2_def)
    moreover have "hash_val h2 k = (if h_compare_function h key k then Some v else hash_val h k)" for k
    proof (cases "h_compare_function h key k")
      case True
      then have "hash_value h k = ?hv" "key_is h1 k ?e"
        using hash_contractD(2,4) [OF c1] l(5,6) by (auto simp: key_is_def)
      then show ?thesis using True rb(3) [of k] l(6,7) by (simp add: bucket_val_def)
    next
      case False
      then have "\<not> key_is h1 k ?e" using hash_contractD(2) [OF c1] l(5) by (auto simp: key_is_def)
      then have "bucket_val h1 (?e # ?b) k = bucket_val h1 ?b k" by (simp add: bucket_val_def)
      then show ?thesis using False rb(3) [of k] hv1 [of k] by (auto simp: l(4))
    qed
    ultimately show ?thesis using rb(1,2) none l(5) by (auto simp: fun_eq_iff)
  next
    case (Some e)
    obtain q where q: "h_buckets h1 ! nat ?i = e # q" and ke: "key_is h1 key e" using l(9) Some by blast
    have some: "hash_val h key = Some (he_value e)" using l(2) Some by simp
    show ?thesis
    proof (cases repl)
      case False
      then have "hash_add h key v repl = Some (False, h1)"
        using l(1) Some by (simp add: hash_add_def Let_def)
      then show ?thesis using False some l(3,4,5) by simp
    next
      case True
      let ?b = "e\<lparr>he_value := v\<rparr> # q"
      define h2 where "h2 = h1\<lparr>h_buckets := (h_buckets h1)[nat ?i := ?b], h_n_elements := h_n_elements h1\<rparr>"
      have bk: "hash_bucket_ok h1 ?i ?b" using bok unfolding q by (simp add: hash_bucket_ok_def)
      have nn: "h_n_elements h1 = h_n_elements h1 - int (length (h_buckets h1 ! nat ?i)) + int (length ?b)"
        unfolding q by simp
      note rb = hash_replace_bucket [OF l(3) r bk nn, folded h2_def]
      have "hash_add h key v repl = Some (True, h2)"
        using l(1) Some True g r q by (simp add: hash_add_def arr_set_Some Let_def h2_def flip: n_elements_same)
      moreover have "hash_val h2 k = (if h_compare_function h key k then Some v else hash_val h k)" for k
      proof (cases "h_compare_function h key k")
        case True
        then have "hash_value h k = ?hv" "key_is h1 k e"
          using hash_contractD(4) [OF c1] key_is_compare [OF c1 ke] l(5,6) hash_contractD(2) [OF c1] by auto
        then show ?thesis using True rb(3) [of k] l(6,7) by (simp add: bucket_val_def)
      next
        case False
        then have "\<not> key_is h1 k e" using key_is_compare [OF c1 ke] hash_contractD(2) [OF c1] l(5) by auto
        then have "bucket_val h1 ?b k = bucket_val h1 (h_buckets h1 ! nat ?i) k" by (simp add: bucket_val_def q)
        then show ?thesis using False rb(3) [of k] hv1 [of k] by (auto simp: l(4))
      qed
      ultimately show ?thesis using rb(1,2) True l(5) by (auto simp: fun_eq_iff)
    qed
  qed
qed

lemma uint_push_bit_1: "i < 64 \<Longrightarrow> uint (push_bit i 1 :: u64) = 2 ^ i"
proof -
  assume "i < 64"
  then have "(2::int) ^ i < 2 ^ 64" by (intro power_strict_increasing) auto
  then have "uint (word_of_int (2 ^ i) :: u64) = 2 ^ i" by (simp only: uint_word_of_int) simp
  then show ?thesis by (simp only: word_of_int_2p push_bit_of_1)
qed

lemma adjust_power_of_2_loop_ok:
  assumes "uint u \<le> 2 ^ m" and "m < 63" and "ret = push_bit j 1" and "j \<le> m" and "m < j + k"
  shows "\<exists>n. j \<le> n \<and> n \<le> m \<and> adjust_power_of_2_loop k ret u = Some (push_bit n 1) \<and> uint u \<le> 2 ^ n \<and>
    (j < n \<longrightarrow> 2 ^ (n - 1) < uint u)"
  using assms(3-)
proof (induction k arbitrary: ret j)
  case (Suc k)
  show ?case
  proof (cases "ret < u")
    case False
    then show ?thesis using Suc.prems(1,2) assms(2) uint_push_bit_1 [of j]
      by (intro exI [of _ j]) (simp add: word_less_def)
  next
    case True
    then have lt: "(2::int) ^ j < uint u" using uint_push_bit_1 [of j] Suc.prems(1,2) assms(2) by (simp add: word_less_def)
    then have "(2::int) ^ j < 2 ^ m" using assms(1) by linarith
    then have j: "Suc j \<le> m" by (simp add: power_strict_increasing_iff)
    have nx: "push_bit 1 ret = push_bit (Suc j) 1" using Suc.prems(1) by simp
    have pos: "(0 :: u64) < push_bit (Suc j) 1"
      using uint_push_bit_1 [of "Suc j"] j assms(2) by (simp add: word_less_def)
    have "m < Suc j + k" using Suc.prems(3) by simp
    then obtain n where n: "Suc j \<le> n" "n \<le> m" "adjust_power_of_2_loop k (push_bit 1 ret) u = Some (push_bit n 1)"
      "uint u \<le> 2 ^ n" "Suc j < n \<longrightarrow> 2 ^ (n - 1) < uint u"
      using Suc.IH [OF nx j] by blast
    have "2 ^ (n - 1) < uint u"
      using n(1,5) lt by (cases "n = Suc j") auto
    then show ?thesis using n True pos nx
      by (intro exI [of _ n]) (simp add: Let_def)
  qed
qed simp

lemma adjust_power_of_2_ok:
  assumes "uint u \<le> 2 ^ m" "m < 63"
  obtains n where "n \<le> m" "adjust_power_of_2 u = Some (push_bit n 1)" "uint u \<le> 2 ^ n" "n = 0 \<or> 2 ^ (n - 1) < uint u"
  using adjust_power_of_2_loop_ok [OF assms, of 1 0 65] assms(2) by (auto simp: adjust_power_of_2_def)

lemma hash_init_ok:
  assumes n: "0 < n" "n \<le> 2 ^ 30" and "equivp cmp" "\<And>k k'. cmp k k' \<Longrightarrow> f k iv = f k' iv"
  shows "\<exists>h :: ('k, 'v) hash. hash_init n iv f cmp = Some h \<and> hash_ok h \<and> hash_val h = (\<lambda>_. None) \<and> h_compare_function h = cmp \<and>
    h_hash_function h = f \<and> h_iv h = iv"
proof -
  have u: "uint (word_of_int n :: u64) = n" using n by (simp add: uint_word_of_int)
  obtain e where e: "e \<le> 30" "adjust_power_of_2 (word_of_int n) = Some (push_bit e 1)"
    using adjust_power_of_2_ok [of "word_of_int n" 30] n u by auto
  have lt: "(2::int) ^ e < 2 ^ 31" using e(1) by (intro power_strict_increasing) auto
  have "uint (ucast (push_bit e 1 :: u64) :: u32) = 2 ^ e"
    using uint_push_bit_1 [of e] e(1) lt by (simp add: unsigned_ucast_eq take_bit_int_eq_self)
  then have k: "sint (ucast (push_bit e 1 :: u64) :: u32) = 2 ^ e"
    using signed_take_bit_int_eq_self [of 31 "2 ^ e"] lt order_trans [of "- (2 ^ 31)" 0 "2 ^ e :: int"]
    by (simp add: sint_uint)
  define h :: "('k, 'v) hash" where "h = \<lparr>h_n_buckets = 2 ^ e, h_n_elements = 0, h_mask = 2 ^ e - 1, h_iv = iv,
      h_hash_function = f, h_compare_function = cmp, h_buckets = replicate (nat (2 ^ e)) []\<rparr>"
  have "hash_init n iv f cmp = Some h"
    using n(1) e(2) k by (simp add: hash_init_def Let_def h_def)
  moreover have "hash_contract h"
    using assms(3,4) by (simp add: hash_contract_def hash_value_def h_def)
  then have ok: "hash_ok h"
    using e(1) by (auto simp: hash_ok_def hash_bucket_ok_def h_def nat_power_eq)
  have "hash_val h k = None" for k
    using hash_bucket_range [OF ok, of "hash_value h k"] by (simp add: hash_val_def bucket_val_def h_def)
  then have "hash_val h = (\<lambda>_. None)" by (simp add: fun_eq_iff)
  moreover have "h_compare_function h = cmp" "h_hash_function h = f" "h_iv h = iv" by (simp_all add: h_def)
  ultimately show ?thesis using ok by blast
qed

section \<open>The interface\<close>

text \<open>Requests to a key-value store, their answers, and the answers of a function from keys to values.\<close>

datatype ('k, 'v) kv_request = KV_Lookup 'k | KV_Add 'k 'v bool | KV_Remove 'k

datatype 'v kv_reply = KV_Value "'v option" | KV_Done bool

primrec kv_answer :: "('k \<Rightarrow> 'k \<Rightarrow> bool) \<Rightarrow> ('k \<Rightarrow> 'v option) \<Rightarrow> ('k, 'v) kv_request \<Rightarrow> 'v kv_reply \<times> ('k \<Rightarrow> 'v option)" where
  "kv_answer eq m (KV_Lookup k) = (KV_Value (m k), m)"
| "kv_answer eq m (KV_Add k v r) =
     (KV_Done (r \<or> m k = None), if r \<or> m k = None then (\<lambda>l. if eq k l then Some v else m l) else m)"
| "kv_answer eq m (KV_Remove k) = (KV_Done (m k \<noteq> None), \<lambda>l. if eq k l then None else m l)"

primrec kv_answers :: "('k \<Rightarrow> 'k \<Rightarrow> bool) \<Rightarrow> ('k \<Rightarrow> 'v option) \<Rightarrow> ('k, 'v) kv_request list \<Rightarrow> 'v kv_reply list" where
  "kv_answers eq m [] = []"
| "kv_answers eq m (q # qs) = fst (kv_answer eq m q) # kv_answers eq (snd (kv_answer eq m q)) qs"

text \<open>
  A key-value store whose searches may reorganise it: what \<open>hash_lookup\<close>, \<open>hash_add\<close> and
  \<open>hash_remove\<close> promise their callers.
\<close>

locale kv_store =
  fixes ok :: "'t \<Rightarrow> bool" and same :: "'t \<Rightarrow> 'k \<Rightarrow> 'k \<Rightarrow> bool" and val :: "'t \<Rightarrow> 'k \<Rightarrow> 'v option"
    and lookup :: "'t \<Rightarrow> 'k \<Rightarrow> ('v option \<times> 't) option"
    and add :: "'t \<Rightarrow> 'k \<Rightarrow> 'v \<Rightarrow> bool \<Rightarrow> (bool \<times> 't) option"
    and remove :: "'t \<Rightarrow> 'k \<Rightarrow> (bool \<times> 't) option"
  assumes lookup_law: "ok t \<Longrightarrow> \<exists>t'. lookup t k = Some (val t k, t') \<and> ok t' \<and> val t' = val t \<and> same t' = same t"
    and add_law: "ok t \<Longrightarrow> \<exists>t'. add t k v r = Some (r \<or> val t k = None, t') \<and> ok t' \<and> same t' = same t \<and>
      val t' = (if r \<or> val t k = None then (\<lambda>l. if same t k l then Some v else val t l) else val t)"
    and remove_law: "ok t \<Longrightarrow> \<exists>t'. remove t k = Some (val t k \<noteq> None, t') \<and> ok t' \<and> same t' = same t \<and>
      val t' = (\<lambda>l. if same t k l then None else val t l)"
begin

primrec request :: "'t \<Rightarrow> ('k, 'v) kv_request \<Rightarrow> ('v kv_reply \<times> 't) option" where
  "request t (KV_Lookup k) = map_option (\<lambda>(r, t'). (KV_Value r, t')) (lookup t k)"
| "request t (KV_Add k v r) = map_option (\<lambda>(b, t'). (KV_Done b, t')) (add t k v r)"
| "request t (KV_Remove k) = map_option (\<lambda>(b, t'). (KV_Done b, t')) (remove t k)"

primrec run :: "'t \<Rightarrow> ('k, 'v) kv_request list \<Rightarrow> ('v kv_reply list \<times> 't) option" where
  "run t [] = Some ([], t)"
| "run t (q # qs) =
     do { (a, t') \<leftarrow> request t q; (as, t'') \<leftarrow> run t' qs; Some (a # as, t'') }"

lemma request_answer:
  "ok t \<Longrightarrow> \<exists>t'. request t q = Some (fst (kv_answer (same t) (val t) q), t') \<and> ok t' \<and> same t' = same t \<and>
     val t' = snd (kv_answer (same t) (val t) q)"
proof (cases q)
  case (KV_Lookup k)
  then show "ok t \<Longrightarrow> ?thesis" using lookup_law [of t k] by auto
next
  case (KV_Add k v r)
  then show "ok t \<Longrightarrow> ?thesis" using add_law [of t k v r] by auto
next
  case (KV_Remove k)
  then show "ok t \<Longrightarrow> ?thesis" using remove_law [of t k] by auto
qed

lemma run_answers:
  "ok t \<Longrightarrow> \<exists>t'. run t qs = Some (kv_answers (same t) (val t) qs, t') \<and> ok t'"
proof (induction qs arbitrary: t)
  case (Cons q qs)
  obtain t' where t: "request t q = Some (fst (kv_answer (same t) (val t) q), t')"
    "ok t'" "same t' = same t" "val t' = snd (kv_answer (same t) (val t) q)"
    using request_answer [OF Cons.prems] by blast
  then show ?case using Cons.IH [OF t(2)] by auto
qed simp

end

interpretation ht: kv_store hash_ok h_compare_function hash_val hash_lookup hash_add hash_remove
  by unfold_locales (rule hash_lookup_ok hash_add_ok hash_remove_ok, assumption)+

primrec hash_request :: "('k, 'v) hash \<Rightarrow> ('k, 'v) kv_request \<Rightarrow> ('v kv_reply \<times> ('k, 'v) hash) option" where
  "hash_request h (KV_Lookup k) = map_option (\<lambda>(r, h'). (KV_Value r, h')) (hash_lookup h k)"
| "hash_request h (KV_Add k v r) = map_option (\<lambda>(b, h'). (KV_Done b, h')) (hash_add h k v r)"
| "hash_request h (KV_Remove k) = map_option (\<lambda>(b, h'). (KV_Done b, h')) (hash_remove h k)"

primrec hash_run :: "('k, 'v) hash \<Rightarrow> ('k, 'v) kv_request list \<Rightarrow> ('v kv_reply list \<times> ('k, 'v) hash) option" where
  "hash_run h [] = Some ([], h)"
| "hash_run h (q # qs) =
     do { (a, h') \<leftarrow> hash_request h q; (as, h'') \<leftarrow> hash_run h' qs; Some (a # as, h'') }"

lemma hash_request_ht: "hash_request h q = ht.request h q"
  by (cases q) simp_all

lemma hash_run_ht: "hash_run h qs = ht.run h qs"
  by (induction qs arbitrary: h) (simp_all add: hash_request_ht)

text \<open>
  C6. A hash table is a map. From a fresh table of any size, hash function and seed, every sequence of
  searches, insertions (with and without replacement) and removals gets the answers that a plain
  function from keys to values gives, although the searches reorder the chains; no step aborts.
\<close>

theorem hash_refines_map:
  fixes qs :: "('k, 'v) kv_request list"
  assumes "0 < n" and "n \<le> 2 ^ 30" and "equivp cmp" and "\<And>k k'. cmp k k' \<Longrightarrow> f k iv = f k' iv"
  shows "\<exists>h h'. hash_init n iv f cmp = Some h \<and> hash_run h qs = Some (kv_answers cmp (\<lambda>_. None) qs, h') \<and>
    h_n_elements h' = int (length (concat (h_buckets h')))"
proof -
  obtain h :: "('k, 'v) hash" where h: "hash_init n iv f cmp = Some h" "hash_ok h" "hash_val h = (\<lambda>_. None)" "h_compare_function h = cmp"
    using hash_init_ok [of n cmp f iv, OF assms] by blast
  obtain h' where "hash_run h qs = Some (kv_answers cmp (\<lambda>_. None) qs, h')" "hash_ok h'"
    using ht.run_answers [OF h(2), of qs] h(3,4) by (auto simp: hash_run_ht)
  then show ?thesis using h(1) hash_okD(4) by blast
qed

definition demo_requests :: "(u32, bool) kv_request list" where
  "demo_requests = [KV_Add 5 True False, KV_Add 9 False False, KV_Add 5 False False, KV_Lookup 5, KV_Remove 9, KV_Lookup 9]"

lemma hash_refines_map_witness:
  "\<exists>h h'. hash_init 3 7 (\<lambda>k iv. k XOR iv) (=) = Some h \<and>
    hash_run h demo_requests = Some (kv_answers (=) (\<lambda>_. None) demo_requests, h') \<and>
    h_n_elements h' = int (length (concat (h_buckets h')))"
  by (rule hash_refines_map) (simp_all add: identity_equivp)

end
