(* ===== verification/Proto.thy ===== *)
theory Proto
  imports Buffer
begin

text \<open>
  Packet headers and Internet checksums (src: proto.h, proto.c). A packet is the list of its octets.
  The code reads header fields through packed structs, so that a field of 16 or 32 bits is loaded as
  the host stores it: \<open>load16\<close> and \<open>load32\<close> are the loads of a little-endian host (all targets of the
  Android build), and \<open>ntohs\<close> swaps. A load outside the packet is an undefined run.
\<close>

section \<open>Memory and byte order\<close>

definition load16 :: "bytes \<Rightarrow> int \<Rightarrow> int option" where
  "load16 p i = do { a \<leftarrow> arr_get p i; b \<leftarrow> arr_get p (i + 1); Some (uint a + 256 * uint b) }"

definition store16 :: "bytes \<Rightarrow> int \<Rightarrow> int \<Rightarrow> bytes option" where
  "store16 p i v = do { p1 \<leftarrow> arr_set p i (word_of_int (v mod 256)); arr_set p1 (i + 1) (word_of_int (v div 256)) }"

definition load32 :: "bytes \<Rightarrow> int \<Rightarrow> u32 option" where
  "load32 p i = do { a \<leftarrow> load16 p i; b \<leftarrow> load16 p (i + 2); Some (word_of_int (a + 65536 * b)) }"

definition store32 :: "bytes \<Rightarrow> int \<Rightarrow> u32 \<Rightarrow> bytes option" where
  "store32 p i v = do { p1 \<leftarrow> store16 p i (uint v mod 65536); store16 p1 (i + 2) (uint v div 65536) }"

definition htons :: "int \<Rightarrow> int" where
  "htons v = 256 * (v mod 256) + v div 256 mod 256"

definition ntohs :: "int \<Rightarrow> int" where
  "ntohs v = htons v"

section \<open>Headers\<close>

definition DEV_TYPE_TUN :: int where "DEV_TYPE_TUN = 2"
definition DEV_TYPE_TAP :: int where "DEV_TYPE_TAP = 3"
definition OPENVPN_ETH_P_IPV4 :: int where "OPENVPN_ETH_P_IPV4 = 0x0800"
definition OPENVPN_ETH_P_IPV6 :: int where "OPENVPN_ETH_P_IPV6 = 0x86DD"
definition OPENVPN_ETH_P_ARP :: int where "OPENVPN_ETH_P_ARP = 0x0806"
definition OPENVPN_ETH_P_8021Q :: int where "OPENVPN_ETH_P_8021Q = 0x8100"
definition OPENVPN_IP_OFFMASK :: int where "OPENVPN_IP_OFFMASK = 0x1fff"
definition OPENVPN_IPPROTO_TCP :: int where "OPENVPN_IPPROTO_TCP = 6"
definition OPENVPN_IPPROTO_UDP :: int where "OPENVPN_IPPROTO_UDP = 17"
definition OPENVPN_TCPH_SYN_MASK :: u8 where "OPENVPN_TCPH_SYN_MASK = 2"
definition OPENVPN_TCPOPT_EOL :: u8 where "OPENVPN_TCPOPT_EOL = 0"
definition OPENVPN_TCPOPT_NOP :: u8 where "OPENVPN_TCPOPT_NOP = 1"
definition OPENVPN_TCPOPT_MAXSEG :: u8 where "OPENVPN_TCPOPT_MAXSEG = 2"
definition OPENVPN_TCPOLEN_MAXSEG :: int where "OPENVPN_TCPOLEN_MAXSEG = 4"

text \<open>Sizes of the structs, and the places of their fields.\<close>

definition sizeof_ethhdr :: int where "sizeof_ethhdr = 14"
definition sizeof_8021qhdr :: int where "sizeof_8021qhdr = 18"
definition sizeof_iphdr :: int where "sizeof_iphdr = 20"
definition sizeof_ipv6hdr :: int where "sizeof_ipv6hdr = 40"
definition sizeof_tcphdr :: int where "sizeof_tcphdr = 20"
definition sizeof_udphdr :: int where "sizeof_udphdr = 8"

definition OPENVPN_IPH_GET_VER :: "u8 \<Rightarrow> int" where
  "OPENVPN_IPH_GET_VER v = uint (drop_bit 4 v AND 0x0F)"

definition OPENVPN_IPH_GET_LEN :: "u8 \<Rightarrow> int" where
  "OPENVPN_IPH_GET_LEN v = push_bit 2 (uint (v AND 0x0F))"

definition OPENVPN_TCPH_GET_DOFF :: "u8 \<Rightarrow> int" where
  "OPENVPN_TCPH_GET_DOFF d = drop_bit 2 (uint (d AND 0xF0))"

definition MTU_TO_MSS :: "int \<Rightarrow> int" where
  "MTU_TO_MSS mtu = mtu - sizeof_iphdr - sizeof_tcphdr"

text \<open>The version of the packet in a tunnel, or -1, and the offset of its IP header.\<close>

definition get_tun_ip_ver :: "int \<Rightarrow> buffer \<Rightarrow> int \<Rightarrow> (int \<times> int) option" where
  "get_tun_ip_ver tunnel_type buf ip_hdr_offset =
     (if tunnel_type = DEV_TYPE_TUN
      then if buf_len buf \<ge> sizeof_iphdr
           then do { b \<leftarrow> arr_get (buf_content buf) 0; Some (OPENVPN_IPH_GET_VER b, 0) }
           else Some (-1, 0)
      else if tunnel_type = DEV_TYPE_TAP
      then if buf_len buf \<ge> sizeof_ethhdr
           then do { net \<leftarrow> load16 (buf_content buf) 12;
                     let proto = ntohs net;
                     Some (if proto = OPENVPN_ETH_P_IPV6 then 6 else if proto = OPENVPN_ETH_P_IPV4 then 4 else -1,
                           sizeof_ethhdr) }
           else Some (-1, sizeof_ethhdr)
      else Some (-1, ip_hdr_offset))"

definition is_ipv_X :: "int \<Rightarrow> buffer \<Rightarrow> int \<Rightarrow> (bool \<times> buffer) option" where
  "is_ipv_X tunnel_type buf ip_ver =
     do { r \<leftarrow> (if tunnel_type = DEV_TYPE_TUN
               then Some (if buf_len buf < sizeof_iphdr then None else Some 0)
               else if tunnel_type = DEV_TYPE_TAP
               then if buf_len buf < sizeof_ethhdr + sizeof_iphdr then Some None
                    else do { proto0 \<leftarrow> load16 (buf_content buf) 12;
                              (proto, offset) \<leftarrow>
                                (if proto0 = htons OPENVPN_ETH_P_8021Q
                                 then do { pr \<leftarrow> load16 (buf_content buf) 16; Some (pr, sizeof_8021qhdr) }
                                 else Some (proto0, sizeof_ethhdr));
                              Some (if ntohs proto \<noteq> (if ip_ver = 6 then OPENVPN_ETH_P_IPV6 else OPENVPN_ETH_P_IPV4)
                                    then None else Some offset) }
               else Some None);
          case r of
            None \<Rightarrow> Some (False, buf)
          | Some offset \<Rightarrow>
              do { b \<leftarrow> arr_get (buf_content buf) offset;
                   Some (if OPENVPN_IPH_GET_VER b = ip_ver then buf_advance buf offset else (False, buf)) } }"

definition is_ipv4 :: "int \<Rightarrow> buffer \<Rightarrow> (bool \<times> buffer) option" where
  "is_ipv4 tunnel_type buf = is_ipv_X tunnel_type buf 4"

definition is_ipv6 :: "int \<Rightarrow> buffer \<Rightarrow> (bool \<times> buffer) option" where
  "is_ipv6 tunnel_type buf = is_ipv_X tunnel_type buf 6"

section \<open>Checksums\<close>

text \<open>\<open>acc\<close> has the old words added and the new words subtracted; the arithmetic is that of \<open>int\<close>.\<close>

definition ADJUST_CHECKSUM :: "int \<Rightarrow> int \<Rightarrow> int" where
  "ADJUST_CHECKSUM acc cksum =
     (let fold_carry = (\<lambda>a :: int. let b = drop_bit 16 a + (a AND 0xffff) in b + drop_bit 16 b);
          a = acc + cksum
      in if a < 0 then NOT (fold_carry (- a)) mod 2 ^ 16 else fold_carry a mod 2 ^ 16)"

definition ADD_CHECKSUM_32 :: "int \<Rightarrow> u32 \<Rightarrow> int" where
  "ADD_CHECKSUM_32 acc w = acc + uint (w AND 0xffff) + uint (drop_bit 16 w)"

definition SUB_CHECKSUM_32 :: "int \<Rightarrow> u32 \<Rightarrow> int" where
  "SUB_CHECKSUM_32 acc w = acc - uint (w AND 0xffff) - uint (drop_bit 16 w)"

text \<open>The loops of \<open>ip_checksum\<close>: 16 bit words of octets, most significant first, the last one padded.\<close>

fun ip_checksum_payload :: "bytes \<Rightarrow> u32 \<Rightarrow> u32" where
  "ip_checksum_payload (a # b # rest) acc =
     ip_checksum_payload rest (acc + ucast ((push_bit 8 (ucast a) AND 0xFF00) + (ucast b AND 0xFF) :: u16))"
| "ip_checksum_payload [a] acc = acc + ucast (push_bit 8 (ucast a) AND 0xFF00 :: u16)"
| "ip_checksum_payload [] acc = acc"

text \<open>Two carries are enough for a sum of 32 bits: the third test of the loop always ends it.\<close>

primrec ip_checksum_carry :: "nat \<Rightarrow> u32 \<Rightarrow> u32 option" where
  "ip_checksum_carry 0 acc = None"
| "ip_checksum_carry (Suc k) acc =
     (if drop_bit 16 acc \<noteq> 0 then ip_checksum_carry k ((acc AND 0xFFFF) + drop_bit 16 acc) else Some acc)"

text \<open>\<open>af_inet\<close> tells the address family: four octets of each address are read, or sixteen.\<close>

definition ip_checksum :: "bool \<Rightarrow> bytes \<Rightarrow> int \<Rightarrow> bytes \<Rightarrow> bytes \<Rightarrow> int \<Rightarrow> u16 option" where
  "ip_checksum af_inet payload len_payload src_addr dest_addr proto =
     do { let addr_len = (if af_inet then 4 else 16);
          p \<leftarrow> (if len_payload \<le> 0 then Some [] else mem_read payload 0 len_payload);
          s \<leftarrow> mem_read src_addr 0 addr_len;
          d \<leftarrow> mem_read dest_addr 0 addr_len;
          let acc = ip_checksum_payload d (ip_checksum_payload s (ip_checksum_payload p 0))
                      + ucast (word_of_int len_payload :: u16) + ucast (word_of_int proto :: u16);
          r \<leftarrow> ip_checksum_carry 4 acc;
          Some (NOT (ucast r)) }"

section \<open>The sums behind the checksums\<close>

text \<open>The sum of the 16 bit words of a packet as the host loads them, a last odd octet padded.\<close>

fun word_sum :: "bytes \<Rightarrow> int" where
  "word_sum (a # b # rest) = uint a + 256 * uint b + word_sum rest"
| "word_sum [a] = uint a"
| "word_sum [] = 0"

text \<open>A checksum is right when the sum is 0 modulo 65535, in one byte order as in the other.\<close>

fun net_sum :: "bytes \<Rightarrow> int" where
  "net_sum (a # b # rest) = 256 * uint a + uint b + net_sum rest"
| "net_sum [a] = 256 * uint a"
| "net_sum [] = 0"

lemma net_sum_word_sum: "65535 dvd 256 * word_sum p - net_sum p"
proof (induction p rule: net_sum.induct)
  case (1 a b rest)
  have "256 * word_sum (a # b # rest) - net_sum (a # b # rest) = 65535 * uint b + (256 * word_sum rest - net_sum rest)"
    by simp
  then show ?case using 1 by simp
qed simp_all

lemma checksum_byte_order: "65535 dvd net_sum p \<longleftrightarrow> 65535 dvd word_sum p"
proof -
  have "65535 dvd net_sum p \<longleftrightarrow> 65535 dvd 256 * word_sum p"
    using net_sum_word_sum [of p] by (metis dvd_diff_commute dvd_diff_right_iff)
  moreover have "coprime (65535 :: int) 256" by code_simp
  ultimately show ?thesis using coprime_dvd_mult_right_iff by blast
qed

lemma and_ffff: "a AND 0xffff = a mod 65536" for a :: int
  using take_bit_eq_mask [of 16 a] by (simp add: take_bit_eq_mod mask_eq_exp_minus_1)

lemma not_mod_65536: "NOT x mod 65536 = 65535 - x mod 65536" for x :: int
proof -
  define q where "q = x div 65536"
  define r where "r = x mod 65536"
  have "x = 65536 * q + r" "0 \<le> r" "r < 65536" by (simp_all add: q_def r_def)
  then have "NOT x mod 65536 = 65535 - r"
    by (intro int_mod_pos_eq [where q = "- q - 1"]) (simp_all add: not_eq_complement)
  then show ?thesis by (simp add: r_def)
qed

lemma fold_carry_ok:
  assumes "0 \<le> a" "a < 2 ^ 31"
  shows "65535 dvd (drop_bit 16 a + (a AND 0xffff) + drop_bit 16 (drop_bit 16 a + (a AND 0xffff))) mod 65536 - (a :: int)"
proof -
  define x where "x = a div 65536"
  define y where "y = a mod 65536"
  have q: "0 \<le> x" "x < 32768" "0 \<le> y" "y < 65536" "a = 65536 * x + y"
    using assms by (simp_all add: x_def y_def)
  have f: "drop_bit 16 a + (a AND 0xffff) + drop_bit 16 (drop_bit 16 a + (a AND 0xffff)) = x + y + (x + y) div 65536"
    by (simp add: drop_bit_eq_div and_ffff x_def y_def)
  show ?thesis
  proof (cases "x + y < 65536")
    case True
    then have "(x + y + (x + y) div 65536) mod 65536 - a = 65535 * (- x)" using q by simp
    then show ?thesis unfolding f by (simp only: dvd_triv_left)
  next
    case False
    then have "(x + y) div 65536 = 1" using q by (intro int_div_pos_eq [where r = "x + y - 65536"]) simp_all
    moreover have "(x + y + 1) mod 65536 = x + y - 65535"
      using False q by (intro int_mod_pos_eq [where q = 1]) simp_all
    ultimately have "(x + y + (x + y) div 65536) mod 65536 - a = 65535 * (- x - 1)" using q by simp
    then show ?thesis unfolding f by (simp only: dvd_triv_left)
  qed
qed

lemma adjust_checksum_ok:
  assumes "- (2 ^ 31) < acc + c" "acc + c < 2 ^ 31"
  shows "0 \<le> ADJUST_CHECKSUM acc c" "ADJUST_CHECKSUM acc c < 2 ^ 16"
    "65535 dvd ADJUST_CHECKSUM acc c - (acc + c)"
proof -
  show "0 \<le> ADJUST_CHECKSUM acc c" "ADJUST_CHECKSUM acc c < 2 ^ 16"
    by (simp_all add: ADJUST_CHECKSUM_def Let_def)
  let ?f = "\<lambda>a :: int. (drop_bit 16 a + (a AND 0xffff) + drop_bit 16 (drop_bit 16 a + (a AND 0xffff))) mod 65536"
  show "65535 dvd ADJUST_CHECKSUM acc c - (acc + c)"
  proof (cases "acc + c < 0")
    case True
    then have "ADJUST_CHECKSUM acc c - (acc + c) = 65535 - (?f (- (acc + c)) - (- (acc + c)))"
      by (simp add: ADJUST_CHECKSUM_def Let_def not_mod_65536)
    moreover have "65535 dvd ?f (- (acc + c)) - (- (acc + c))"
      using True assms by (intro fold_carry_ok) simp_all
    ultimately show ?thesis by (metis dvd_diff dvd_refl)
  next
    case False
    then have "ADJUST_CHECKSUM acc c = ?f (acc + c)" by (simp add: ADJUST_CHECKSUM_def Let_def)
    then show ?thesis using fold_carry_ok [of "acc + c"] False assms by simp
  qed
qed

text \<open>Replacing one word of a packet changes the sum by the difference of the words.\<close>

lemma word_sum_nth:
  assumes "Suc (2 * k) < length p"
  shows "word_sum (p [2 * k := a, Suc (2 * k) := b]) =
    word_sum p - (uint (p ! (2 * k)) + 256 * uint (p ! Suc (2 * k))) + (uint a + 256 * uint b)"
  using assms
proof (induction k arbitrary: p)
  case 0
  then obtain x y q where "p = x # y # q" by (cases p rule: word_sum.cases) auto
  then show ?case by simp
next
  case (Suc k)
  then obtain x y q where p: "p = x # y # q" by (cases p rule: word_sum.cases) auto
  then show ?case using Suc.IH [of q] Suc.prems by simp
qed

lemma load16_ok: "0 \<le> i \<Longrightarrow> i + 1 < int (length p) \<Longrightarrow>
    load16 p i = Some (uint (p ! nat i) + 256 * uint (p ! Suc (nat i)))"
  by (simp add: load16_def arr_get_Some nat_add_distrib)

lemma store16_ok: "0 \<le> i \<Longrightarrow> i + 1 < int (length p) \<Longrightarrow>
    store16 p i v = Some (p [nat i := word_of_int (v mod 256), Suc (nat i) := word_of_int (v div 256)])"
  by (simp add: store16_def arr_set_Some nat_add_distrib)

lemma load16_range:
  assumes "load16 p i = Some v"
  shows "0 \<le> v" "v < 65536"
proof -
  obtain a b :: u8 where v: "v = uint a + 256 * uint b" using assms by (auto simp: load16_def bind_eq_Some_conv)
  have "uint a < 256" "uint b < 256" using uint_lt2p [of a] uint_lt2p [of b] by simp_all
  moreover have "0 \<le> uint a" "0 \<le> uint b" by simp_all
  ultimately show "0 \<le> v" "v < 65536" unfolding v by linarith+
qed

text \<open>A store at an even place, against the sum.\<close>

lemma store16_sum:
  assumes "even i" "0 \<le> i" "i + 1 < int (length p)" "0 \<le> v" "v < 2 ^ 16"
  obtains p' old where "store16 p i v = Some p'" "load16 p i = Some old" "word_sum p' = word_sum p - old + v"
    "length p' = length p"
proof -
  obtain k where k: "nat i = 2 * k" using assms(1,2) by (metis even_nat_iff evenE)
  have "uint (word_of_int (v mod 256) :: u8) + 256 * uint (word_of_int (v div 256) :: u8) = v"
    using assms(4,5) by (simp add: uint_word_of_int)
  then show ?thesis
    using that [OF store16_ok [OF assms(2,3)] load16_ok [OF assms(2,3)]] word_sum_nth [of k p] assms(2,3) k by simp
qed

section \<open>The computed checksum\<close>

lemma uint_u8_bounds: "0 \<le> uint a" "uint a < 256" "uint a \<le> 255" for a :: u8
proof -
  show "uint a < 256" using uint_lt2p [of a] by simp
  then show "uint a \<le> 255" by linarith
qed simp

lemma uint_u16_of_octets:
  "uint ((push_bit 8 (ucast a) AND 0xFF00) + (ucast b AND 0xFF) :: u16) = 256 * uint a + uint b" for a b :: u8
proof -
  have m: "(0xFF :: u16) = mask 8" "(0xFF00 :: u16) = push_bit 8 (mask 8)" by (simp_all add: mask_eq_exp_minus_1)
  have "ucast b AND 0xFF = (ucast b :: u16)" unfolding m by (rule bit_word_eqI) (auto simp: bit_simps dest: bit_imp_le_length)
  moreover have "push_bit 8 (ucast a) AND 0xFF00 = (push_bit 8 (ucast a) :: u16)"
    unfolding m by (rule bit_word_eqI) (auto simp: bit_simps)
  moreover have "uint (push_bit 8 (ucast a) :: u16) = 256 * uint a"
    using uint_u8_bounds [of a] by (simp add: push_bit_eq_mult uint_word_ariths unsigned_ucast_eq take_bit_int_eq_self)
  moreover have "uint (ucast b :: u16) = uint b"
    using uint_u8_bounds [of b] by (simp add: unsigned_ucast_eq take_bit_int_eq_self)
  ultimately show ?thesis
    using uint_u8_bounds [of a] uint_u8_bounds [of b] by (simp add: uint_word_ariths)
qed

lemma net_sum_nonneg: "0 \<le> net_sum p"
  by (induction p rule: net_sum.induct) simp_all

lemma net_sum_bound: "net_sum p \<le> 65535 * ((int (length p) + 1) div 2)"
proof (induction p rule: net_sum.induct)
  case (1 a b rest)
  have "(int (length (a # b # rest)) + 1) div 2 = (int (length rest) + 1) div 2 + 1" by simp
  then show ?case using 1 uint_u8_bounds [of a] uint_u8_bounds [of b] by simp
next
  case (2 a)
  then show ?case using uint_u8_bounds [of a] by simp
qed simp

lemma uint_add_no_wrap: "uint x + uint y < 2 ^ LENGTH('a) \<Longrightarrow> uint (x + y) = uint x + uint y" for x y :: "'a::len word"
  by (simp add: uint_word_ariths)

lemma uint_ucast_u16_u32: "uint (ucast w :: u32) = uint w" for w :: u16
  using uint_lt2p [of w] by (simp add: unsigned_ucast_eq take_bit_int_eq_self)

lemma ip_checksum_payload_sum:
  "uint acc + net_sum p < 2 ^ 32 \<Longrightarrow> uint (ip_checksum_payload p acc) = uint acc + net_sum p"
proof (induction p acc rule: ip_checksum_payload.induct)
  case (1 a b rest acc)
  let ?w = "(push_bit 8 (ucast a) AND 0xFF00) + (ucast b AND 0xFF) :: u16"
  have "uint (acc + ucast ?w) = uint acc + (256 * uint a + uint b)"
    using 1(2) net_sum_nonneg [of rest] uint_u16_of_octets [of a b]
    by (subst uint_add_no_wrap) (simp_all add: uint_ucast_u16_u32)
  then show ?case using 1 by simp
next
  case (2 a acc)
  have "uint (push_bit 8 (ucast a) AND 0xFF00 :: u16) = 256 * uint a" using uint_u16_of_octets [of a 0] by simp
  then show ?case using 2 by (simp, subst uint_add_no_wrap) (simp_all add: uint_ucast_u16_u32)
qed simp

lemma carry_step:
  "uint ((s AND 0xFFFF) + drop_bit 16 s) = uint s mod 65536 + uint s div 65536" for s :: u32
proof -
  have a: "uint (s AND 0xFFFF) = uint s mod 65536" by (simp add: uint_and and_ffff)
  have d: "uint (drop_bit 16 s) = uint s div 65536" by (simp add: drop_bit_eq_div uint_div)
  have "uint s < 2 ^ 32" using uint_lt2p [of s] by simp
  then have "uint s div 65536 < 65536" by simp
  then show ?thesis using a d by (subst uint_add_no_wrap) simp_all
qed

lemma ip_checksum_carry_ok:
  "\<exists>r. ip_checksum_carry 4 s = Some r \<and> uint r < 65536 \<and> 65535 dvd uint r - uint s"
proof -
  let ?n = "\<lambda>s :: u32. (s AND 0xFFFF) + drop_bit 16 s"
  have z: "drop_bit 16 s = 0 \<longleftrightarrow> uint s < 65536" for s :: u32
  proof -
    have "drop_bit 16 s = 0 \<longleftrightarrow> uint (drop_bit 16 s) = 0" by (simp add: uint_0_iff)
    also have "\<dots> \<longleftrightarrow> uint s div 65536 = 0" by (simp add: drop_bit_eq_div uint_div)
    also have "\<dots> \<longleftrightarrow> uint s < 65536" by (auto simp: zdiv_eq_0_iff)
    finally show ?thesis .
  qed
  have dv: "65535 dvd uint (?n s) - uint s" for s :: u32
  proof -
    have "uint (?n s) - uint s = 65535 * (- (uint s div 65536))"
      unfolding carry_step using mult_div_mod_eq [of 65536 "uint s"] by linarith
    then show ?thesis by (simp only: dvd_triv_left)
  qed
  have b1: "uint (?n s) \<le> 131070" for s :: u32
  proof -
    have "uint s < 2 ^ 32" using uint_lt2p [of s] by simp
    then have "uint s div 65536 \<le> 65535" by simp
    moreover have "uint s mod 65536 \<le> 65535" by simp
    ultimately show ?thesis unfolding carry_step by linarith
  qed
  have b2: "uint (?n s) < 65536" if "uint s \<le> 131070" for s :: u32
  proof -
    have "uint s div 65536 = 0 \<or> uint s div 65536 = 1" using that by (simp add: zdiv_eq_0_iff) linarith
    moreover have "65536 * (uint s div 65536) + uint s mod 65536 = uint s" "uint s mod 65536 < 65536"
      by simp_all
    ultimately show ?thesis unfolding carry_step using that by linarith
  qed
  have step: "ip_checksum_carry (Suc k) s = (if uint s < 65536 then Some s else ip_checksum_carry k (?n s))" for k s
    by (simp add: z)
  have four: "ip_checksum_carry 4 s = ip_checksum_carry (Suc (Suc (Suc (Suc 0)))) s"
    by (rule arg_cong2 [where f = ip_checksum_carry]) simp_all
  have dv2: "65535 dvd uint (?n (?n s)) - uint s"
    using dvd_add [OF dv [of "?n s"] dv [of s]] by simp
  show ?thesis
    using b1 [of s] b2 [OF b1 [of s]] dv [of s] dv2
    unfolding four by (simp only: step) auto
qed

lemma uint_not_u16: "uint (NOT w) = 65535 - uint w" for w :: u16
proof -
  have "uint (NOT w) = NOT (uint w) mod 65536" by (simp only: unsigned_not_eq take_bit_eq_mod) simp
  moreover have "uint w < 65536" using uint_lt2p [of w] by simp
  ultimately show ?thesis by (simp add: not_mod_65536)
qed

text \<open>
  C28. The computed checksum verifies. For a payload of fewer than \<open>2 ^ 16\<close> octets, with the pseudo
  header of either address family, the words of everything the checksum covers and the checksum itself
  add up to zero in one's complement arithmetic.
\<close>

theorem ip_checksum_verifies:
  assumes "length payload < 2 ^ 16" and "length src = (if v4 then 4 else 16)" and "length dst = length src"
    and "0 \<le> proto" and "proto < 2 ^ 16"
  shows "\<exists>c. ip_checksum v4 payload (int (length payload)) src dst proto = Some c \<and>
    65535 dvd net_sum payload + net_sum src + net_sum dst + int (length payload) + proto + uint c"
proof -
  let ?n = "int (length payload)"
  have s: "net_sum payload \<le> 65535 * 32768" "net_sum src \<le> 65535 * 8" "net_sum dst \<le> 65535 * 8"
    using net_sum_bound [of payload] net_sum_bound [of src] net_sum_bound [of dst] assms(1-3)
    by (auto split: if_splits)
  note nn = net_sum_nonneg [of payload] net_sum_nonneg [of src] net_sum_nonneg [of dst]
  let ?acc = "ip_checksum_payload dst (ip_checksum_payload src (ip_checksum_payload payload 0))"
  have a: "uint ?acc = net_sum payload + net_sum src + net_sum dst"
    using s nn by (subst ip_checksum_payload_sum; (subst ip_checksum_payload_sum; (subst ip_checksum_payload_sum)?)?) simp_all
  have w: "uint (word_of_int ?n :: u16) = ?n" "uint (word_of_int proto :: u16) = proto"
    using assms(1,4,5) by (simp_all add: unsigned_of_nat take_bit_nat_eq_self uint_word_of_int)
  let ?t = "?acc + ucast (word_of_int ?n :: u16) + ucast (word_of_int proto :: u16)"
  have t: "uint ?t = net_sum payload + net_sum src + net_sum dst + ?n + proto"
    using s nn a w assms(1,4,5) by (simp only: uint_ucast_u16_u32 uint_word_ariths w a) simp
  obtain r where r: "ip_checksum_carry 4 ?t = Some r" "uint r < 65536" "65535 dvd uint r - uint ?t"
    using ip_checksum_carry_ok by blast
  have u: "uint (ucast r :: u16) = uint r" using r(2) by (simp add: unsigned_ucast_eq take_bit_int_eq_self)
  have c: "uint (NOT (ucast r :: u16)) = 65535 - uint r" by (simp only: uint_not_u16 u)
  have "65535 dvd uint ?t + (65535 - uint r)"
  proof -
    have "uint ?t + (65535 - uint r) = 65535 - (uint r - uint ?t)" by simp
    then show ?thesis using r(3) by (metis dvd_diff dvd_refl)
  qed
  moreover have "ip_checksum v4 payload ?n src dst proto = Some (NOT (ucast r))"
    using assms(2,3) r(1) by (auto simp: ip_checksum_def mem_read_Some Let_def)
  ultimately show ?thesis using c t by (intro exI [of _ "NOT (ucast r)"]) simp
qed

lemma ip_checksum_verifies_witness:
  "\<exists>c. ip_checksum True [1, 2, 3] (int (length [1 :: u8, 2, 3])) [10, 0, 0, 1] [10, 0, 0, 2] 17 = Some c \<and>
    65535 dvd net_sum [1, 2, 3] + net_sum [10, 0, 0, 1] + net_sum [10, 0, 0, 2] + int (length [1 :: u8, 2, 3]) + 17 + uint c"
  by (rule ip_checksum_verifies) simp_all

end
