(* ===== verification/MssFixup.thy ===== *)
theory MssFixup
  imports Proto
begin

text \<open>
  The clamping of the maximum segment size of TCP connections that go through the tunnel (src: mss.c):
  the option is lowered in the segments that open a connection, and the checksum is updated for the
  words that changed.
\<close>

lemma uint_nonzero_pos: "uint x \<noteq> 0 \<Longrightarrow> 0 < uint x"
  by (metis order.strict_iff_order unsigned_greater_eq)

section \<open>The operations\<close>

text \<open>
  The loop over the options of the segment \<open>p\<close>: \<open>opt\<close> is the place of the next option, \<open>olen\<close> the
  number of octets of options left. The new checksum goes to the places 16 and 17.
\<close>

function mss_options :: "bytes \<Rightarrow> int \<Rightarrow> int \<Rightarrow> u16 \<Rightarrow> bytes option" where
  "mss_options p opt olen maxmss =
     (if olen > 1
      then do { k \<leftarrow> arr_get p opt;
                if k = OPENVPN_TCPOPT_EOL then Some p
                else if k = OPENVPN_TCPOPT_NOP then mss_options p (opt + 1) (olen - 1) maxmss
                else do { l \<leftarrow> arr_get p (opt + 1);
                          let optlen = uint l;
                          if optlen \<le> 0 \<or> optlen > olen then Some p
                          else if k = OPENVPN_TCPOPT_MAXSEG \<and> optlen = OPENVPN_TCPOLEN_MAXSEG
                          then do { hi \<leftarrow> arr_get p (opt + 2);
                                    lo \<leftarrow> arr_get p (opt + 3);
                                    let mssval = push_bit 8 (uint hi) + uint lo;
                                    p' \<leftarrow> (if mssval > uint maxmss
                                          then do { p1 \<leftarrow> arr_set p (opt + 2) (ucast (drop_bit 8 maxmss AND 0xff));
                                                    p2 \<leftarrow> arr_set p1 (opt + 3) (ucast (maxmss AND 0xff));
                                                    c \<leftarrow> load16 p2 16;
                                                    store16 p2 16 (ADJUST_CHECKSUM (htons mssval - htons (uint maxmss)) c) }
                                          else Some p);
                                    mss_options p' (opt + optlen) (olen - optlen) maxmss }
                          else mss_options p (opt + optlen) (olen - optlen) maxmss } }
      else Some p)"
  by pat_completeness auto
termination
  by (relation "measure (\<lambda>(p, opt, olen, maxmss). nat olen)") (auto simp: OPENVPN_TCPOLEN_MAXSEG_def dest!: uint_nonzero_pos)

declare mss_options.simps [simp del]

definition mss_fixup_dowork :: "buffer \<Rightarrow> u16 \<Rightarrow> buffer option" where
  "mss_fixup_dowork buf maxmss =
     (if buf_len buf < sizeof_tcphdr then Some buf
      else do { let p = buf_content buf;
                d \<leftarrow> arr_get p 12;
                let hlen = OPENVPN_TCPH_GET_DOFF d;
                if hlen \<le> sizeof_tcphdr \<or> hlen > buf_len buf then Some buf
                else do { p' \<leftarrow> mss_options p sizeof_tcphdr (hlen - sizeof_tcphdr) maxmss;
                          ofs \<leftarrow> buf_bptr buf;
                          buf_store buf ofs p' } })"

text \<open>The buffer that \<open>buf_advance\<close> moves is a copy of the header of \<open>buf\<close> with the same block of memory.\<close>

definition mss_fixup_ipv4 :: "buffer \<Rightarrow> int \<Rightarrow> buffer option" where
  "mss_fixup_ipv4 buf maxmss =
     (if buf_len buf < sizeof_iphdr then Some buf
      else do { let pip = buf_content buf;
                version_len \<leftarrow> arr_get pip 0;
                protocol \<leftarrow> arr_get pip 9;
                tot_len \<leftarrow> load16 pip 2;
                frag_off \<leftarrow> load16 pip 6;
                let hlen = OPENVPN_IPH_GET_LEN version_len;
                if uint protocol = OPENVPN_IPPROTO_TCP \<and> ntohs tot_len = buf_len buf
                  \<and> ntohs frag_off AND OPENVPN_IP_OFFMASK = 0 \<and> hlen \<le> buf_len buf
                  \<and> buf_len buf - hlen \<ge> sizeof_tcphdr
                then (case buf_advance buf hlen of
                        (False, _) \<Rightarrow> Some buf
                      | (True, newbuf) \<Rightarrow>
                          do { flags \<leftarrow> arr_get (buf_content newbuf) 13;
                               if flags AND OPENVPN_TCPH_SYN_MASK \<noteq> 0
                               then do { nb \<leftarrow> mss_fixup_dowork newbuf (word_of_int maxmss);
                                         Some (buf\<lparr>b_data := b_data nb\<rparr>) }
                               else Some buf })
                else Some buf })"

text \<open>The cast in \<open>(uint16_t) maxmss-20\<close> applies to \<open>maxmss\<close>; the parameter converts the difference once more.\<close>

definition mss_fixup_ipv6 :: "buffer \<Rightarrow> int \<Rightarrow> buffer option" where
  "mss_fixup_ipv6 buf maxmss =
     (if buf_len buf < sizeof_ipv6hdr then Some buf
      else do { let pip6 = buf_content buf;
                payload_len \<leftarrow> load16 pip6 4;
                nexthdr \<leftarrow> arr_get pip6 6;
                if buf_len buf \<noteq> ntohs payload_len + 40 then Some buf
                else if uint nexthdr \<noteq> OPENVPN_IPPROTO_TCP then Some buf
                else (case buf_advance buf 40 of
                        (False, _) \<Rightarrow> Some buf
                      | (True, newbuf) \<Rightarrow>
                          if buf_len newbuf \<ge> sizeof_tcphdr
                          then do { flags \<leftarrow> arr_get (buf_content newbuf) 13;
                                    if flags AND OPENVPN_TCPH_SYN_MASK \<noteq> 0
                                    then do { nb \<leftarrow> mss_fixup_dowork newbuf
                                                (word_of_int (uint (word_of_int maxmss :: u16) - 20));
                                              Some (buf\<lparr>b_data := b_data nb\<rparr>) }
                                    else Some buf }
                          else Some buf) })"

section \<open>The places of the option\<close>

text \<open>The places of the size options of a segment, found with the same walk.\<close>

function mss_places :: "bytes \<Rightarrow> int \<Rightarrow> int \<Rightarrow> int list" where
  "mss_places p opt olen =
     (if olen > 1 \<and> p ! nat opt \<noteq> OPENVPN_TCPOPT_EOL
      then if p ! nat opt = OPENVPN_TCPOPT_NOP then mss_places p (opt + 1) (olen - 1)
           else (let optlen = uint (p ! nat (opt + 1))
                 in if optlen \<le> 0 \<or> optlen > olen then []
                    else (if p ! nat opt = OPENVPN_TCPOPT_MAXSEG \<and> optlen = OPENVPN_TCPOLEN_MAXSEG then [opt] else [])
                         @ mss_places p (opt + optlen) (olen - optlen))
      else [])"
  by pat_completeness auto
termination
  by (relation "measure (\<lambda>(p, opt, olen). nat olen)") (auto dest!: uint_nonzero_pos)

declare mss_places.simps [simp del]

definition mss_at :: "bytes \<Rightarrow> int \<Rightarrow> int" where
  "mss_at p opt = 256 * uint (p ! nat (opt + 2)) + uint (p ! nat (opt + 3))"

text \<open>The segment with one option lowered and the checksum updated.\<close>

definition mss_clamp :: "bytes \<Rightarrow> int \<Rightarrow> u16 \<Rightarrow> bytes" where
  "mss_clamp p opt m =
     (if mss_at p opt > uint m
      then (let c = ADJUST_CHECKSUM (htons (mss_at p opt) - htons (uint m)) (uint (p ! 16) + 256 * uint (p ! 17))
            in p [nat (opt + 2) := ucast (drop_bit 8 m AND 0xff), nat (opt + 3) := ucast (m AND 0xff),
                  16 := word_of_int (c mod 256), 17 := word_of_int (c div 256)])
      else p)"

lemma length_mss_clamp [simp]: "length (mss_clamp p opt m) = length p"
  by (simp add: mss_clamp_def Let_def)

lemma mss_clamp_nth:
  "j \<noteq> 16 \<Longrightarrow> j \<noteq> 17 \<Longrightarrow> j \<noteq> nat (opt + 2) \<Longrightarrow> j \<noteq> nat (opt + 3) \<Longrightarrow> mss_clamp p opt m ! j = p ! j"
  by (simp add: mss_clamp_def Let_def)

text \<open>The walk lowers the options it finds, one after the other.\<close>

lemma mss_options_step:
  assumes "20 \<le> opt" "opt + 4 \<le> int (length p)" "olen > 1" "4 \<le> olen"
    and "p ! nat opt = OPENVPN_TCPOPT_MAXSEG" "uint (p ! nat (opt + 1)) = OPENVPN_TCPOLEN_MAXSEG"
  shows "mss_options p opt olen m = mss_options (mss_clamp p opt m) (opt + 4) (olen - 4) m"
proof -
  have n: "nat (opt + 2) \<noteq> 16" "nat (opt + 2) \<noteq> 17" "nat (opt + 3) \<noteq> 16" "nat (opt + 3) \<noteq> 17"
    using assms(1) by auto
  have "arr_get p opt = Some OPENVPN_TCPOPT_MAXSEG" "arr_get p (opt + 1) = Some (p ! nat (opt + 1))"
    "arr_get p (opt + 2) = Some (p ! nat (opt + 2))" "arr_get p (opt + 3) = Some (p ! nat (opt + 3))"
    using assms by (simp_all add: arr_get_Some)
  moreover have "arr_set p (opt + 2) x = Some (p [nat (opt + 2) := x])"
    "arr_set (p [nat (opt + 2) := x]) (opt + 3) y = Some (p [nat (opt + 2) := x, nat (opt + 3) := y])" for x y
    using assms(1,2) by (simp_all add: arr_set_Some)
  moreover have "load16 (p [nat (opt + 2) := x, nat (opt + 3) := y]) 16 = Some (uint (p ! 16) + 256 * uint (p ! 17))" for x y
    using assms(1,2) n by (simp add: load16_ok)
  moreover have "store16 (p [nat (opt + 2) := x, nat (opt + 3) := y]) 16 v =
      Some (p [nat (opt + 2) := x, nat (opt + 3) := y, 16 := word_of_int (v mod 256), 17 := word_of_int (v div 256)])" for x y v
    using assms(1,2) by (simp add: store16_ok)
  ultimately show ?thesis
    using assms(3-)
    by (subst mss_options.simps)
       (simp add: mss_clamp_def mss_at_def Let_def push_bit_eq_mult OPENVPN_TCPOPT_MAXSEG_def OPENVPN_TCPOPT_EOL_def
        OPENVPN_TCPOPT_NOP_def OPENVPN_TCPOLEN_MAXSEG_def mult.commute)
qed

lemma mss_places_cases:
  "\<not> (olen > 1 \<and> p ! nat opt \<noteq> OPENVPN_TCPOPT_EOL) \<Longrightarrow> mss_places p opt olen = []"
  "olen > 1 \<Longrightarrow> p ! nat opt \<noteq> OPENVPN_TCPOPT_EOL \<Longrightarrow> p ! nat opt = OPENVPN_TCPOPT_NOP \<Longrightarrow>
     mss_places p opt olen = mss_places p (opt + 1) (olen - 1)"
  "olen > 1 \<Longrightarrow> p ! nat opt \<noteq> OPENVPN_TCPOPT_EOL \<Longrightarrow> p ! nat opt \<noteq> OPENVPN_TCPOPT_NOP \<Longrightarrow>
     uint (p ! nat (opt + 1)) \<le> 0 \<or> uint (p ! nat (opt + 1)) > olen \<Longrightarrow> mss_places p opt olen = []"
  "olen > 1 \<Longrightarrow> p ! nat opt \<noteq> OPENVPN_TCPOPT_EOL \<Longrightarrow> p ! nat opt \<noteq> OPENVPN_TCPOPT_NOP \<Longrightarrow>
     uint (p ! nat (opt + 1)) = l \<Longrightarrow> \<not> (l \<le> 0 \<or> l > olen) \<Longrightarrow>
     mss_places p opt olen =
       (if p ! nat opt = OPENVPN_TCPOPT_MAXSEG \<and> l = OPENVPN_TCPOLEN_MAXSEG then [opt] else [])
         @ mss_places p (opt + l) (olen - l)"
  by (subst mss_places.simps, simp only: Let_def if_True if_False simp_thms)+

lemma mss_options_cases:
  assumes "0 \<le> opt" "opt + olen \<le> int (length p)"
  shows "\<not> (olen > 1 \<and> p ! nat opt \<noteq> OPENVPN_TCPOPT_EOL) \<Longrightarrow> mss_options p opt olen m = Some p"
    "olen > 1 \<Longrightarrow> p ! nat opt \<noteq> OPENVPN_TCPOPT_EOL \<Longrightarrow> p ! nat opt = OPENVPN_TCPOPT_NOP \<Longrightarrow>
       mss_options p opt olen m = mss_options p (opt + 1) (olen - 1) m"
    "olen > 1 \<Longrightarrow> p ! nat opt \<noteq> OPENVPN_TCPOPT_EOL \<Longrightarrow> p ! nat opt \<noteq> OPENVPN_TCPOPT_NOP \<Longrightarrow>
       uint (p ! nat (opt + 1)) \<le> 0 \<or> uint (p ! nat (opt + 1)) > olen \<Longrightarrow> mss_options p opt olen m = Some p"
    "olen > 1 \<Longrightarrow> p ! nat opt \<noteq> OPENVPN_TCPOPT_EOL \<Longrightarrow> p ! nat opt \<noteq> OPENVPN_TCPOPT_NOP \<Longrightarrow>
       uint (p ! nat (opt + 1)) = l \<Longrightarrow> \<not> (l \<le> 0 \<or> l > olen) \<Longrightarrow>
       \<not> (p ! nat opt = OPENVPN_TCPOPT_MAXSEG \<and> l = OPENVPN_TCPOLEN_MAXSEG) \<Longrightarrow>
       mss_options p opt olen m = mss_options p (opt + l) (olen - l) m"
proof -
  have g: "arr_get p opt = Some (p ! nat opt)" "arr_get p (opt + 1) = Some (p ! nat (opt + 1))" if "olen > 1"
    using assms that by (simp_all add: arr_get_Some)
  show "mss_options p opt olen m = Some p" if "\<not> (olen > 1 \<and> p ! nat opt \<noteq> OPENVPN_TCPOPT_EOL)"
    using that g by (subst mss_options.simps) auto
  show "mss_options p opt olen m = mss_options p (opt + 1) (olen - 1) m"
    if "olen > 1" "p ! nat opt \<noteq> OPENVPN_TCPOPT_EOL" "p ! nat opt = OPENVPN_TCPOPT_NOP"
    using that g by (subst mss_options.simps) simp
  show "mss_options p opt olen m = Some p"
    if "olen > 1" "p ! nat opt \<noteq> OPENVPN_TCPOPT_EOL" "p ! nat opt \<noteq> OPENVPN_TCPOPT_NOP"
      "uint (p ! nat (opt + 1)) \<le> 0 \<or> uint (p ! nat (opt + 1)) > olen"
    using that g by (subst mss_options.simps) (auto simp: Let_def)
  show "mss_options p opt olen m = mss_options p (opt + l) (olen - l) m"
    if "olen > 1" "p ! nat opt \<noteq> OPENVPN_TCPOPT_EOL" "p ! nat opt \<noteq> OPENVPN_TCPOPT_NOP"
       "uint (p ! nat (opt + 1)) = l" "\<not> (l \<le> 0 \<or> l > olen)"
       "\<not> (p ! nat opt = OPENVPN_TCPOPT_MAXSEG \<and> l = OPENVPN_TCPOLEN_MAXSEG)"
    using that g by (subst mss_options.simps) (auto simp: Let_def)
qed

lemma mss_places_cong:
  "0 \<le> opt \<Longrightarrow> (\<And>j. nat opt \<le> j \<Longrightarrow> p ! j = q ! j) \<Longrightarrow> mss_places p opt olen = mss_places q opt olen"
proof (induction "nat olen" arbitrary: opt olen rule: less_induct)
  case less
  have e: "p ! nat opt = q ! nat opt" "p ! nat (opt + 1) = q ! nat (opt + 1)" using less.prems by simp_all
  let ?l = "uint (q ! nat (opt + 1))"
  consider (stop) "\<not> (olen > 1 \<and> q ! nat opt \<noteq> OPENVPN_TCPOPT_EOL)"
    | (nop) "olen > 1" "q ! nat opt \<noteq> OPENVPN_TCPOPT_EOL" "q ! nat opt = OPENVPN_TCPOPT_NOP"
    | (bad) "olen > 1" "q ! nat opt \<noteq> OPENVPN_TCPOPT_EOL" "q ! nat opt \<noteq> OPENVPN_TCPOPT_NOP" "?l \<le> 0 \<or> ?l > olen"
    | (opt) "olen > 1" "q ! nat opt \<noteq> OPENVPN_TCPOPT_EOL" "q ! nat opt \<noteq> OPENVPN_TCPOPT_NOP" "\<not> (?l \<le> 0 \<or> ?l > olen)"
    by blast
  then show ?case
  proof cases
    case stop
    then show ?thesis using mss_places_cases(1) e by simp
  next
    case nop
    have "mss_places p (opt + 1) (olen - 1) = mss_places q (opt + 1) (olen - 1)"
      using nop less.prems by (intro less.hyps) auto
    then show ?thesis using mss_places_cases(2) [of olen p opt] mss_places_cases(2) [of olen q opt] nop e by simp
  next
    case bad
    then show ?thesis using mss_places_cases(3) [of olen p opt] mss_places_cases(3) [of olen q opt] e by simp
  next
    case opt
    have "mss_places p (opt + ?l) (olen - ?l) = mss_places q (opt + ?l) (olen - ?l)"
      using opt less.prems by (intro less.hyps) (auto dest!: uint_nonzero_pos)
    then show ?thesis using mss_places_cases(4) [of olen p opt ?l] mss_places_cases(4) [of olen q opt ?l] opt e by simp
  qed
qed

lemma mss_options_fold:
  "20 \<le> opt \<Longrightarrow> opt + olen \<le> int (length p) \<Longrightarrow>
   mss_options p opt olen m = Some (fold (\<lambda>i q. mss_clamp q i m) (mss_places p opt olen) p)"
proof (induction "nat olen" arbitrary: p opt olen rule: less_induct)
  case less
  let ?l = "uint (p ! nat (opt + 1))"
  have o0: "0 \<le> opt" using less.prems by simp
  note oc = mss_options_cases [OF o0 less.prems(2)]
  consider (stop) "\<not> (olen > 1 \<and> p ! nat opt \<noteq> OPENVPN_TCPOPT_EOL)"
    | (nop) "olen > 1" "p ! nat opt \<noteq> OPENVPN_TCPOPT_EOL" "p ! nat opt = OPENVPN_TCPOPT_NOP"
    | (bad) "olen > 1" "p ! nat opt \<noteq> OPENVPN_TCPOPT_EOL" "p ! nat opt \<noteq> OPENVPN_TCPOPT_NOP" "?l \<le> 0 \<or> ?l > olen"
    | (mss) "olen > 1" "p ! nat opt \<noteq> OPENVPN_TCPOPT_EOL" "p ! nat opt \<noteq> OPENVPN_TCPOPT_NOP" "\<not> (?l \<le> 0 \<or> ?l > olen)"
        "p ! nat opt = OPENVPN_TCPOPT_MAXSEG \<and> ?l = OPENVPN_TCPOLEN_MAXSEG"
    | (opt) "olen > 1" "p ! nat opt \<noteq> OPENVPN_TCPOPT_EOL" "p ! nat opt \<noteq> OPENVPN_TCPOPT_NOP" "\<not> (?l \<le> 0 \<or> ?l > olen)"
        "\<not> (p ! nat opt = OPENVPN_TCPOPT_MAXSEG \<and> ?l = OPENVPN_TCPOLEN_MAXSEG)"
    by blast
  then show ?case
  proof cases
    case stop
    then show ?thesis using oc(1) mss_places_cases(1) by simp
  next
    case nop
    have "mss_options p (opt + 1) (olen - 1) m = Some (fold (\<lambda>i q. mss_clamp q i m) (mss_places p (opt + 1) (olen - 1)) p)"
      using nop less.prems by (intro less.hyps) auto
    then show ?thesis using oc(2) mss_places_cases(2) [of olen p opt] nop by simp
  next
    case bad
    then show ?thesis using oc(3) mss_places_cases(3) [of olen p opt] by simp
  next
    case mss
    have l4: "?l = 4" "4 \<le> olen" using mss by (simp_all add: OPENVPN_TCPOLEN_MAXSEG_def)
    have step: "mss_options p opt olen m = mss_options (mss_clamp p opt m) (opt + 4) (olen - 4) m"
      using less.prems mss l4 by (intro mss_options_step) simp_all
    have pl: "mss_places p opt olen = opt # mss_places p (opt + 4) (olen - 4)"
      using mss_places_cases(4) [OF mss(1-3) refl mss(4)] mss(5) l4 by simp
    have cong: "mss_places (mss_clamp p opt m) (opt + 4) (olen - 4) = mss_places p (opt + 4) (olen - 4)"
      using less.prems by (intro mss_places_cong mss_clamp_nth) auto
    have "mss_options (mss_clamp p opt m) (opt + 4) (olen - 4) m =
        Some (fold (\<lambda>i q. mss_clamp q i m) (mss_places (mss_clamp p opt m) (opt + 4) (olen - 4)) (mss_clamp p opt m))"
      using less.prems l4 by (intro less.hyps) auto
    then show ?thesis unfolding step pl cong by simp
  next
    case opt
    have "mss_options p (opt + ?l) (olen - ?l) m =
        Some (fold (\<lambda>i q. mss_clamp q i m) (mss_places p (opt + ?l) (olen - ?l)) p)"
      using opt less.prems by (intro less.hyps) (auto dest!: uint_nonzero_pos)
    then show ?thesis using oc(4) [OF opt(1-3) refl opt(4,5)] mss_places_cases(4) [OF opt(1-3) refl opt(4)] opt(5)
      by simp
  qed
qed

lemma mss_places_bounds:
  "i \<in> set (mss_places p opt olen) \<Longrightarrow> opt \<le> i \<and> i + 4 \<le> opt + olen"
  "sorted_wrt (\<lambda>i j. i + 4 \<le> j) (mss_places p opt olen)"
proof -
  have "(\<forall>i \<in> set (mss_places p opt olen). opt \<le> i \<and> i + 4 \<le> opt + olen) \<and>
      sorted_wrt (\<lambda>i j. i + 4 \<le> j) (mss_places p opt olen)"
  proof (induction "nat olen" arbitrary: opt olen rule: less_induct)
    case less
    let ?l = "uint (p ! nat (opt + 1))"
    consider (stop) "\<not> (olen > 1 \<and> p ! nat opt \<noteq> OPENVPN_TCPOPT_EOL)"
      | (nop) "olen > 1" "p ! nat opt \<noteq> OPENVPN_TCPOPT_EOL" "p ! nat opt = OPENVPN_TCPOPT_NOP"
      | (bad) "olen > 1" "p ! nat opt \<noteq> OPENVPN_TCPOPT_EOL" "p ! nat opt \<noteq> OPENVPN_TCPOPT_NOP" "?l \<le> 0 \<or> ?l > olen"
      | (opt) "olen > 1" "p ! nat opt \<noteq> OPENVPN_TCPOPT_EOL" "p ! nat opt \<noteq> OPENVPN_TCPOPT_NOP" "\<not> (?l \<le> 0 \<or> ?l > olen)"
      by blast
    then show ?case
    proof cases
      case stop
      then show ?thesis using mss_places_cases(1) by simp
    next
      case nop
      have "nat (olen - 1) < nat olen" using nop by simp
      from less [OF this, of "opt + 1"] show ?thesis using mss_places_cases(2) [OF nop] by auto
    next
      case bad
      then show ?thesis using mss_places_cases(3) by simp
    next
      case opt
      have "nat (olen - ?l) < nat olen" using opt by (auto dest!: uint_nonzero_pos)
      note ih = less [OF this, of "opt + ?l"]
      have pos: "0 < ?l" using opt(4) by linarith
      have "opt \<le> i \<and> i + 4 \<le> opt + olen" if "i \<in> set (mss_places p (opt + ?l) (olen - ?l))" for i
        using ih that pos by force
      then show ?thesis
        using ih opt(4) mss_places_cases(4) [OF opt(1-3) refl opt(4)] by (auto simp: OPENVPN_TCPOLEN_MAXSEG_def)
    qed
  qed
  then show "i \<in> set (mss_places p opt olen) \<Longrightarrow> opt \<le> i \<and> i + 4 \<le> opt + olen"
    "sorted_wrt (\<lambda>i j. i + 4 \<le> j) (mss_places p opt olen)" by blast+
qed

section \<open>One option\<close>

lemma mss_at_bounds: "0 \<le> mss_at p opt" "mss_at p opt < 65536"
  using uint_u8_bounds [of "p ! nat (opt + 2)"] uint_u8_bounds [of "p ! nat (opt + 3)"] by (auto simp: mss_at_def)

lemma uint_drop_8: "uint (drop_bit 8 m) mod 256 = uint m div 256" "uint m div 256 mod 256 = uint m div 256" for m :: u16
proof -
  have "0 \<le> uint m" "uint m < 65536" using uint_lt2p [of m] by simp_all
  then have "0 \<le> uint m div 256" "uint m div 256 < 256" by (simp_all add: pos_imp_zdiv_nonneg_iff)
  then show "uint (drop_bit 8 m) mod 256 = uint m div 256" "uint m div 256 mod 256 = uint m div 256"
    by (simp_all add: drop_bit_eq_div uint_div)
qed

lemma uint_high_low:
  "uint (ucast (drop_bit 8 m AND 0xff) :: u8) = uint m div 256" "uint (ucast (m AND 0xff) :: u8) = uint m mod 256" for m :: u16
proof -
  have k: "x AND 0xff = x mod 256" for x :: int
    using take_bit_eq_mask [of 8 x] by (simp add: take_bit_eq_mod mask_eq_exp_minus_1)
  show "uint (ucast (drop_bit 8 m AND 0xff) :: u8) = uint m div 256"
    by (simp add: unsigned_ucast_eq uint_and k take_bit_eq_mod uint_drop_8)
  show "uint (ucast (m AND 0xff) :: u8) = uint m mod 256"
    by (simp add: unsigned_ucast_eq uint_and k take_bit_eq_mod)
qed

lemma mss_at_clamp:
  assumes "20 \<le> opt" "opt + 4 \<le> int (length p)"
  shows "mss_at (mss_clamp p opt m) opt = min (mss_at p opt) (uint m)"
proof (cases "mss_at p opt > uint m")
  case True
  have n: "nat (opt + 2) \<noteq> 16" "nat (opt + 2) \<noteq> 17" "nat (opt + 3) \<noteq> 16" "nat (opt + 3) \<noteq> 17"
    "nat (opt + 2) < length p" "nat (opt + 3) < length p" "nat (opt + 2) \<noteq> nat (opt + 3)"
    using assms by auto
  then have "mss_at (mss_clamp p opt m) opt = 256 * uint (ucast (drop_bit 8 m AND 0xff) :: u8) + uint (ucast (m AND 0xff) :: u8)"
    using True by (simp only: mss_clamp_def mss_at_def Let_def if_True nth_list_update length_list_update) simp
  then have "mss_at (mss_clamp p opt m) opt = uint m" by (simp add: uint_high_low uint_drop_8)
  then show ?thesis using True by simp
next
  case False
  then show ?thesis by (simp add: mss_clamp_def)
qed

lemma mss_clamp_sum:
  assumes "20 \<le> opt" "opt + 4 \<le> int (length p)" "even opt"
  shows "65535 dvd word_sum (mss_clamp p opt m) - word_sum p"
proof (cases "mss_at p opt > uint m")
  case True
  obtain k where k: "nat (opt + 2) = 2 * k" "nat (opt + 3) = Suc (2 * k)"
  proof -
    obtain j where "opt = 2 * j" using assms(3) by (rule evenE)
    then show ?thesis using assms(1) by (intro that [of "nat (j + 1)"]) auto
  qed
  have lt: "Suc (2 * k) < length p" using k assms(1,2) by linarith
  let ?hi = "ucast (drop_bit 8 m AND 0xff) :: u8" and ?lo = "ucast (m AND 0xff) :: u8"
  let ?old = "uint (p ! 16) + 256 * uint (p ! 17)"
  define p2 where "p2 = p [2 * k := ?hi, Suc (2 * k) := ?lo]"
  define c where "c = ADJUST_CHECKSUM (htons (mss_at p opt) - htons (uint m)) ?old"
  have k8: "8 < k" using k(1) assms(1) by linarith
  have p2: "p2 ! 16 = p ! 16" "p2 ! 17 = p ! 17" "length p2 = length p" using k8 by (simp_all add: p2_def)
  have m16: "uint m < 65536" using uint_lt2p [of m] by simp
  have old: "htons (mss_at p opt) = uint (p ! (2 * k)) + 256 * uint (p ! Suc (2 * k))"
    using uint_u8_bounds [of "p ! (2 * k)"] uint_u8_bounds [of "p ! Suc (2 * k)"]
    by (simp add: htons_def mss_at_def k)
  have new: "uint ?hi + 256 * uint ?lo = htons (uint m)"
    using m16 by (simp add: htons_def uint_high_low uint_drop_8)
  have s2: "word_sum p2 = word_sum p - htons (mss_at p opt) + htons (uint m)"
    unfolding p2_def old using word_sum_nth [OF lt, of ?hi ?lo] new by simp
  have hb: "0 \<le> htons v" "htons v < 65536" for v
  proof -
    have "0 \<le> v mod 256" "v mod 256 \<le> 255" "0 \<le> v div 256 mod 256" "v div 256 mod 256 \<le> 255" by simp_all
    then show "0 \<le> htons v" "htons v < 65536" unfolding htons_def by linarith+
  qed
  have ob: "0 \<le> ?old" "?old < 65536" using uint_u8_bounds [of "p ! 16"] uint_u8_bounds [of "p ! 17"] by auto
  have c: "0 \<le> c" "c < 65536" "65535 dvd c - (htons (mss_at p opt) - htons (uint m) + ?old)"
    using adjust_checksum_ok [of "htons (mss_at p opt) - htons (uint m)" ?old] hb [of "mss_at p opt"] hb [of "uint m"] ob
    by (simp_all add: c_def)
  have "uint (word_of_int (c mod 256) :: u8) + 256 * uint (word_of_int (c div 256) :: u8) = c"
    using c(1,2) by (simp add: uint_word_of_int)
  then have s3: "word_sum (p2 [16 := word_of_int (c mod 256), 17 := word_of_int (c div 256)]) = word_sum p2 - ?old + c"
    using word_sum_nth [of 8 p2 "word_of_int (c mod 256)" "word_of_int (c div 256)"] p2 lt k8 by simp
  have "mss_clamp p opt m = p2 [16 := word_of_int (c mod 256), 17 := word_of_int (c div 256)]"
    using True by (simp add: mss_clamp_def Let_def p2_def c_def k)
  then have "word_sum (mss_clamp p opt m) - word_sum p = c - (htons (mss_at p opt) - htons (uint m) + ?old)"
    using s2 s3 by simp
  then show ?thesis using c(3) by simp
next
  case False
  then show ?thesis by (simp add: mss_clamp_def)
qed

section \<open>All options\<close>

lemma mss_fold:
  fixes m :: u16
  assumes "\<And>i. i \<in> set is \<Longrightarrow> 20 \<le> i \<and> i + 4 \<le> int (length p)" and "sorted_wrt (\<lambda>i j. i + 4 \<le> j) is"
  defines "q \<equiv> fold (\<lambda>i q. mss_clamp q i m) is p"
  shows "length q = length p \<and> (\<forall>i \<in> set is. mss_at q i = min (mss_at p i) (uint m)) \<and>
    (\<forall>j. j \<noteq> 16 \<and> j \<noteq> 17 \<and> (\<forall>i \<in> set is. int j \<noteq> i + 2 \<and> int j \<noteq> i + 3) \<longrightarrow> q ! j = p ! j) \<and>
    ((\<forall>i \<in> set is. even i) \<longrightarrow> 65535 dvd word_sum q - word_sum p)"
  using assms(1,2) unfolding q_def
proof (induction "is" arbitrary: p)
  case (Cons i "is")
  let ?p = "mss_clamp p i m"
  let ?q = "fold (\<lambda>i q. mss_clamp q i m) is ?p"
  have i: "20 \<le> i" "i + 4 \<le> int (length p)" using Cons.prems(1) by auto
  have sep: "i + 4 \<le> j" if "j \<in> set is" for j using Cons.prems(2) that by simp
  have IH: "length ?q = length ?p \<and> (\<forall>i \<in> set is. mss_at ?q i = min (mss_at ?p i) (uint m)) \<and>
    (\<forall>j. j \<noteq> 16 \<and> j \<noteq> 17 \<and> (\<forall>i \<in> set is. int j \<noteq> i + 2 \<and> int j \<noteq> i + 3) \<longrightarrow> ?q ! j = ?p ! j) \<and>
    ((\<forall>i \<in> set is. even i) \<longrightarrow> 65535 dvd word_sum ?q - word_sum ?p)"
    using Cons.prems by (intro Cons.IH) auto
  have at: "mss_at ?p j = mss_at p j" if "j \<in> set is" for j
    using sep [OF that] i by (simp add: mss_at_def mss_clamp_nth)
  have keep: "?q ! j = ?p ! j" if "j \<noteq> 16" "j \<noteq> 17" "\<forall>i \<in> set is. int j \<noteq> i + 2 \<and> int j \<noteq> i + 3" for j
    using IH that by blast
  have "?q ! nat (i + 2) = ?p ! nat (i + 2)" "?q ! nat (i + 3) = ?p ! nat (i + 3)"
    by (rule keep; use i sep in \<open>fastforce\<close>)+
  then have "mss_at ?q i = min (mss_at p i) (uint m)"
    using mss_at_clamp [OF i] by (simp add: mss_at_def)
  moreover have "?p ! j = p ! j" if "j \<noteq> 16" "j \<noteq> 17" "int j \<noteq> i + 2" "int j \<noteq> i + 3" for j
    using that i by (intro mss_clamp_nth) auto
  moreover have "65535 dvd word_sum ?q - word_sum p" if "even i" "65535 dvd word_sum ?q - word_sum ?p"
    using dvd_add [OF that(2) mss_clamp_sum [OF i that(1), of m]] by simp
  ultimately show ?case using IH at by auto
qed simp

lemma buf_store_content:
  assumes "buf_ok b" "int (length xs) = b_len b"
  obtains b' where "buf_store b (b_offset b) xs = Some b'" "buf_ok b'" "buf_content b' = xs"
    "b_offset b' = b_offset b" "b_len b' = b_len b" "b_capacity b' = b_capacity b"
proof -
  obtain d where d: "b_data b = Some d" "int (length d) = b_capacity b" "0 \<le> b_offset b"
    "0 \<le> b_len b" "b_offset b + b_len b \<le> int (length d)" "b_capacity b < BUF_SIZE_MAX"
    using assms(1) by (rule buf_okE)
  let ?m = "take (nat (b_offset b)) d @ xs @ drop (nat (b_offset b) + length xs) d"
  have "buf_store b (b_offset b) xs = Some (b\<lparr>b_data := Some ?m\<rparr>)"
    using d assms(2) by (simp add: buf_store_def mem_write_Some)
  moreover have "buf_ok (b\<lparr>b_data := Some ?m\<rparr>)" "buf_content (b\<lparr>b_data := Some ?m\<rparr>) = xs"
    using d assms(2) by (auto simp: buf_ok_def buf_content_def)
  ultimately show ?thesis by (rule that) simp_all
qed

lemma doff_bounds: "0 \<le> OPENVPN_TCPH_GET_DOFF d" "OPENVPN_TCPH_GET_DOFF d \<le> 60"
proof -
  have "d AND 0xF0 \<le> 0xF0" by (rule word_and_le1)
  then have "uint (d AND 0xF0) \<le> 240" by (simp add: word_le_def)
  then show "OPENVPN_TCPH_GET_DOFF d \<le> 60" by (simp add: OPENVPN_TCPH_GET_DOFF_def drop_bit_eq_div)
qed (simp add: OPENVPN_TCPH_GET_DOFF_def)

text \<open>The places of the size options of a whole segment.\<close>

definition segment_mss_places :: "bytes \<Rightarrow> int list" where
  "segment_mss_places p =
     (let hlen = OPENVPN_TCPH_GET_DOFF (p ! 12)
      in if int (length p) < 20 \<or> hlen \<le> 20 \<or> hlen > int (length p) then []
         else mss_places p 20 (hlen - 20))"

lemma mss_fixup_dowork_fold:
  assumes "buf_ok buf"
  obtains buf' where "mss_fixup_dowork buf m = Some buf'" "buf_ok buf'"
    "buf_content buf' = fold (\<lambda>i q. mss_clamp q i m) (segment_mss_places (buf_content buf)) (buf_content buf)"
    "\<forall>i \<in> set (segment_mss_places (buf_content buf)). 20 \<le> i \<and> i + 4 \<le> int (length (buf_content buf))"
    "sorted_wrt (\<lambda>i j. i + 4 \<le> j) (segment_mss_places (buf_content buf))"
proof -
  let ?p = "buf_content buf"
  let ?h = "OPENVPN_TCPH_GET_DOFF (?p ! 12)"
  have len: "buf_len buf = int (length ?p)" by (rule buf_len_ok [OF assms])
  show ?thesis
  proof (cases "int (length ?p) < 20 \<or> ?h \<le> 20 \<or> ?h > int (length ?p)")
    case True
    then have "mss_fixup_dowork buf m = Some buf"
      using len by (auto simp: mss_fixup_dowork_def sizeof_tcphdr_def arr_get_Some Let_def)
    then show ?thesis using True assms by (intro that [of buf]) (auto simp: segment_mss_places_def Let_def)
  next
    case False
    let ?is = "mss_places ?p 20 (?h - 20)"
    let ?q = "fold (\<lambda>i q. mss_clamp q i m) ?is ?p"
    have pl: "segment_mss_places ?p = ?is" using False by (simp add: segment_mss_places_def Let_def)
    have b: "20 \<le> i \<and> i + 4 \<le> int (length ?p)" if "i \<in> set ?is" for i
      using mss_places_bounds(1) [OF that] False by simp
    have s: "sorted_wrt (\<lambda>i j. i + 4 \<le> j) ?is" by (rule mss_places_bounds(2))
    have lq: "length ?q = length ?p" using mss_fold [OF b s, of m] by blast
    have opts: "mss_options ?p 20 (?h - 20) m = Some ?q" using False by (intro mss_options_fold) simp_all
    obtain b' where b': "buf_store buf (b_offset buf) ?q = Some b'" "buf_ok b'" "buf_content b' = ?q"
      using buf_store_content [OF assms, of ?q] lq length_buf_content [OF assms] by auto
    have "mss_fixup_dowork buf m = Some b'"
      using False len opts b'(1) assms by (simp add: mss_fixup_dowork_def sizeof_tcphdr_def arr_get_Some Let_def)
    then show ?thesis using b' b s by (intro that [of b']) (simp_all add: pl)
  qed
qed

text \<open>
  C26. The clamp lowers exactly the segment size. Whatever octets a segment has, the walk over its options
  stays inside of it, every size option ends at the smaller of its value and the limit, and no octet is
  touched but those of a size option and of the checksum.
\<close>

theorem mss_fixup_clamps:
  assumes "buf_ok buf"
  shows "\<exists>buf'. mss_fixup_dowork buf m = Some buf' \<and> length (buf_content buf') = length (buf_content buf) \<and>
    (\<forall>i \<in> set (segment_mss_places (buf_content buf)).
       mss_at (buf_content buf') i = min (mss_at (buf_content buf) i) (uint m)) \<and>
    (\<forall>j. j \<noteq> 16 \<and> j \<noteq> 17 \<and>
       (\<forall>i \<in> set (segment_mss_places (buf_content buf)). int j \<noteq> i + 2 \<and> int j \<noteq> i + 3) \<longrightarrow>
       buf_content buf' ! j = buf_content buf ! j)"
proof -
  obtain buf' where b: "mss_fixup_dowork buf m = Some buf'" "buf_ok buf'"
    "buf_content buf' = fold (\<lambda>i q. mss_clamp q i m) (segment_mss_places (buf_content buf)) (buf_content buf)"
    "\<forall>i \<in> set (segment_mss_places (buf_content buf)). 20 \<le> i \<and> i + 4 \<le> int (length (buf_content buf))"
    "sorted_wrt (\<lambda>i j. i + 4 \<le> j) (segment_mss_places (buf_content buf))"
    by (rule mss_fixup_dowork_fold [OF assms, where m = m])
  then show ?thesis using mss_fold [OF b(4) [rule_format] b(5), of m] by auto
qed

definition demo_syn :: "bytes \<Rightarrow> buffer" where
  "demo_syn opts = (let p = [0x30, 0x39, 0, 80, 0, 0, 0, 1, 0, 0, 0, 0, 0x70, 2, 0xff, 0xff, 0xa5, 0x6a, 0, 0] @ opts
     in \<lparr>b_capacity = int (length p), b_offset = 0, b_len = int (length p), b_data = Some p\<rparr>)"

lemma demo_syn_ok: "length opts = 8 \<Longrightarrow> buf_ok (demo_syn opts)"
  by (simp add: demo_syn_def Let_def buf_ok_def BUF_SIZE_MAX_def)

lemma mss_fixup_clamps_witness:
  "\<exists>buf'. mss_fixup_dowork (demo_syn [2, 4, 5, 180, 1, 1, 1, 0]) 1200 = Some buf' \<and>
    length (buf_content buf') = length (buf_content (demo_syn [2, 4, 5, 180, 1, 1, 1, 0])) \<and>
    (\<forall>i \<in> set (segment_mss_places (buf_content (demo_syn [2, 4, 5, 180, 1, 1, 1, 0]))).
       mss_at (buf_content buf') i = min (mss_at (buf_content (demo_syn [2, 4, 5, 180, 1, 1, 1, 0])) i) (uint (1200 :: u16))) \<and>
    (\<forall>j. j \<noteq> 16 \<and> j \<noteq> 17 \<and>
       (\<forall>i \<in> set (segment_mss_places (buf_content (demo_syn [2, 4, 5, 180, 1, 1, 1, 0]))). int j \<noteq> i + 2 \<and> int j \<noteq> i + 3) \<longrightarrow>
       buf_content buf' ! j = buf_content (demo_syn [2, 4, 5, 180, 1, 1, 1, 0]) ! j)"
  by (rule mss_fixup_clamps) (simp add: demo_syn_ok)

lemma net_sum_diff_iff: "65535 dvd net_sum p - net_sum q \<longleftrightarrow> 65535 dvd word_sum p - word_sum q"
proof -
  let ?e = "(256 * word_sum q - net_sum q) - (256 * word_sum p - net_sum p)"
  have e: "65535 dvd ?e" by (intro dvd_diff net_sum_word_sum)
  have "net_sum p - net_sum q = 256 * (word_sum p - word_sum q) + ?e" by simp
  then have "65535 dvd net_sum p - net_sum q \<longleftrightarrow> 65535 dvd 256 * (word_sum p - word_sum q)"
    using dvd_add_left_iff [OF e, of "256 * (word_sum p - word_sum q)"] by (simp only:)
  also have "\<dots> \<longleftrightarrow> 65535 dvd word_sum p - word_sum q"
  proof
    assume "65535 dvd 256 * (word_sum p - word_sum q)"
    then have "65535 dvd 256 * (256 * (word_sum p - word_sum q)) - 65535 * (word_sum p - word_sum q)"
      by (rule dvd_diff [OF dvd_mult dvd_triv_left])
    then show "65535 dvd word_sum p - word_sum q" by (simp add: algebra_simps)
  qed (rule dvd_mult)
  finally show ?thesis .
qed

text \<open>
  C27. The clamp keeps the checksum right when the size options stand at even places: the sum of the words
  of the segment is the same modulo 65535 before and after.
\<close>

theorem mss_fixup_keeps_checksum:
  assumes "buf_ok buf" and "list_all even (segment_mss_places (buf_content buf))"
  shows "\<exists>buf'. mss_fixup_dowork buf m = Some buf' \<and>
    65535 dvd net_sum (buf_content buf') - net_sum (buf_content buf)"
proof -
  obtain buf' where b: "mss_fixup_dowork buf m = Some buf'" "buf_ok buf'"
    "buf_content buf' = fold (\<lambda>i q. mss_clamp q i m) (segment_mss_places (buf_content buf)) (buf_content buf)"
    "\<forall>i \<in> set (segment_mss_places (buf_content buf)). 20 \<le> i \<and> i + 4 \<le> int (length (buf_content buf))"
    "sorted_wrt (\<lambda>i j. i + 4 \<le> j) (segment_mss_places (buf_content buf))"
    by (rule mss_fixup_dowork_fold [OF assms(1), where m = m])
  have "65535 dvd word_sum (buf_content buf') - word_sum (buf_content buf)"
    using mss_fold [OF b(4) [rule_format] b(5), of m] assms(2) b(3) by (simp add: list_all_iff)
  then show ?thesis using b(1) by (simp add: net_sum_diff_iff)
qed

lemma mss_fixup_keeps_checksum_witness:
  "\<exists>buf'. mss_fixup_dowork (demo_syn [2, 4, 5, 180, 1, 1, 1, 0]) 1200 = Some buf' \<and>
    65535 dvd net_sum (buf_content buf') - net_sum (buf_content (demo_syn [2, 4, 5, 180, 1, 1, 1, 0]))"
proof (rule mss_fixup_keeps_checksum)
  show "list_all even (segment_mss_places (buf_content (demo_syn [2, 4, 5, 180, 1, 1, 1, 0])))"
    by code_simp
qed (simp add: demo_syn_ok)

lemma word_sum_update: "j < length p \<Longrightarrow> word_sum (p[j := b]) = word_sum p + (if even j then 1 else 256) * (uint b - uint (p ! j))"
proof (induction p arbitrary: j rule: word_sum.induct)
  case (1 x y p)
  consider "j = 0" | "j = 1" | k where "j = Suc (Suc k)" by (metis One_nat_def not0_implies_Suc)
  then show ?case
  proof cases
    case (3 k)
    then show ?thesis using "1.IH" [of k] "1.prems" by simp
  qed (simp_all add: algebra_simps)
qed simp_all

text \<open>At an odd place the two octets of the value belong to two words, but are counted as one.\<close>

lemma mss_clamp_sum_odd:
  assumes "20 \<le> opt" "opt + 4 \<le> int (length p)" "odd opt" "uint m < mss_at p opt"
  shows "65535 dvd word_sum (mss_clamp p opt m) - word_sum p \<longleftrightarrow> 257 dvd mss_at p opt - uint m"
proof -
  define i where "i = nat (opt + 2)"
  have i: "nat (opt + 3) = Suc i" "odd i" "20 < i" "Suc i < length p"
    using assms(1-3) by (simp_all add: i_def even_nat_iff)
  let ?hi = "ucast (drop_bit 8 m AND 0xff) :: u8" and ?lo = "ucast (m AND 0xff) :: u8"
  let ?old = "uint (p ! 16) + 256 * uint (p ! 17)"
  define acc where "acc = htons (mss_at p opt) - htons (uint m)"
  define c where "c = ADJUST_CHECKSUM acc ?old"
  define p2 where "p2 = p [i := ?hi, Suc i := ?lo]"
  have m16: "0 \<le> uint m" "uint m < 65536" using uint_lt2p [of m] by simp_all
  have ha: "htons (mss_at p opt) = uint (p ! i) + 256 * uint (p ! Suc i)"
    using uint_u8_bounds [of "p ! i"] uint_u8_bounds [of "p ! Suc i"] by (simp add: htons_def mss_at_def i(1) i_def [symmetric])
  have hm: "htons (uint m) = uint m div 256 + 256 * (uint m mod 256)" using m16 by (simp add: htons_def uint_drop_8)
  have hb: "0 \<le> htons (mss_at p opt)" "htons (mss_at p opt) < 65536" "0 \<le> htons (uint m)" "htons (uint m) < 65536"
    using uint_u8_bounds [of "p ! i"] uint_u8_bounds [of "p ! Suc i"] m16 unfolding ha hm by (auto simp: pos_imp_zdiv_nonneg_iff)
  have s2: "word_sum p2 = word_sum p + 256 * (uint m div 256 - uint (p ! i)) + (uint m mod 256 - uint (p ! Suc i))"
    using i word_sum_update [of i p ?hi] word_sum_update [of "Suc i" "p[i := ?hi]" ?lo] by (simp add: p2_def uint_high_low uint_drop_8)
  have p2: "p2 ! 16 = p ! 16" "p2 ! 17 = p ! 17" "length p2 = length p" using i(3) by (simp_all add: p2_def)
  have ob: "0 \<le> ?old" "?old < 65536" using uint_u8_bounds [of "p ! 16"] uint_u8_bounds [of "p ! 17"] by auto
  have c: "0 \<le> c" "c < 65536" "65535 dvd c - (acc + ?old)"
    using adjust_checksum_ok [of acc ?old] hb ob by (simp_all add: c_def acc_def)
  have "uint (word_of_int (c mod 256) :: u8) + 256 * uint (word_of_int (c div 256) :: u8) = c"
    using c(1,2) by (simp add: uint_word_of_int)
  then have s3: "word_sum (p2 [16 := word_of_int (c mod 256), 17 := word_of_int (c div 256)]) = word_sum p2 - ?old + c"
    using word_sum_nth [of 8 p2 "word_of_int (c mod 256)" "word_of_int (c div 256)"] p2 i by simp
  have "mss_clamp p opt m = p2 [16 := word_of_int (c mod 256), 17 := word_of_int (c div 256)]"
    using assms(4) by (simp add: mss_clamp_def Let_def p2_def c_def acc_def i(1) i_def [symmetric])
  then have d: "word_sum (mss_clamp p opt m) - word_sum p =
      (c - (acc + ?old)) + 255 * ((uint m div 256 - uint m mod 256) - (uint (p ! i) - uint (p ! Suc i)))" (is "_ = _ + 255 * ?d")
    using s2 s3 by (simp add: acc_def ha hm algebra_simps)
  have "65535 dvd word_sum (mss_clamp p opt m) - word_sum p \<longleftrightarrow> 65535 dvd 255 * ?d"
    unfolding d using c(3) by (simp add: dvd_add_right_iff)
  also have "\<dots> \<longleftrightarrow> 257 dvd ?d" using dvd_mult_cancel_left [of 255 257 ?d] by simp
  also have "?d = (mss_at p opt - uint m) + 257 * (uint m div 256 - uint (p ! i))"
  proof -
    define q r where "q = uint m div 256" and "r = uint m mod 256"
    have "uint m = 256 * q + r" by (simp add: q_def r_def)
    then show ?thesis unfolding q_def [symmetric] r_def [symmetric] by (simp add: mss_at_def i(1) i_def [symmetric])
  qed
  also have "257 dvd \<dots> \<longleftrightarrow> 257 dvd mss_at p opt - uint m" by (simp add: dvd_add_left_iff)
  finally show ?thesis .
qed

text \<open>
  C30. At an odd place it does not. Whatever the segment, when its size option stands at an odd place and is lowered, the sum
  of the words is the same modulo 65535 as before only if the size goes down by a multiple of 257; so the checksum of a
  correct segment is wrong behind the clamp in all other cases.
\<close>

theorem mss_fixup_odd_place:
  assumes "buf_ok buf" and "segment_mss_places (buf_content buf) = [i]" and "odd i" and "uint m < mss_at (buf_content buf) i"
  shows "\<exists>buf'. mss_fixup_dowork buf m = Some buf' \<and>
    (65535 dvd net_sum (buf_content buf') - net_sum (buf_content buf) \<longleftrightarrow> 257 dvd mss_at (buf_content buf) i - uint m)"
proof -
  obtain b' where b': "mss_fixup_dowork buf m = Some b'"
    "buf_content b' = fold (\<lambda>i q. mss_clamp q i m) (segment_mss_places (buf_content buf)) (buf_content buf)"
    "\<forall>i \<in> set (segment_mss_places (buf_content buf)). 20 \<le> i \<and> i + 4 \<le> int (length (buf_content buf))"
    by (rule mss_fixup_dowork_fold [OF assms(1), where m = m])
  have "buf_content b' = mss_clamp (buf_content buf) i m" "20 \<le> i" "i + 4 \<le> int (length (buf_content buf))"
    using b'(2,3) by (simp_all add: assms(2))
  then show ?thesis using mss_clamp_sum_odd [OF _ _ assms(3,4)] b'(1) by (simp add: net_sum_diff_iff)
qed

lemma mss_fixup_odd_place_witness:
  "\<exists>buf'. mss_fixup_dowork (demo_syn [1, 2, 4, 5, 180, 1, 1, 0]) 1200 = Some buf' \<and>
    \<not> 65535 dvd net_sum (buf_content buf') - net_sum (buf_content (demo_syn [1, 2, 4, 5, 180, 1, 1, 0]))"
proof -
  let ?b = "demo_syn [1, 2, 4, 5, 180, 1, 1, 0]"
  have ok: "buf_ok ?b" by (simp add: demo_syn_ok)
  have pl: "segment_mss_places (buf_content ?b) = [21]" by code_simp
  have v: "mss_at (buf_content ?b) 21 = 1460" by code_simp
  show ?thesis using mss_fixup_odd_place [OF ok pl, of 1200] v by simp
qed

end
