(* ===== verification/ClientNat.thy ===== *)
theory ClientNat
  imports Proto
begin

text \<open>
  Address translation in the client (src: clinat.c, clinat.h): a list of rules rewrites the source or the
  destination of the packets that enter or leave the tunnel, and the checksums are updated.
\<close>

section \<open>The rules\<close>

definition MAX_CLIENT_NAT :: int where "MAX_CLIENT_NAT = 64"
definition CN_OUTGOING :: int where "CN_OUTGOING = 0"
definition CN_INCOMING :: int where "CN_INCOMING = 1"
definition CN_SNAT :: int where "CN_SNAT = 0"
definition CN_DNAT :: int where "CN_DNAT = 1"

text \<open>Addresses are in network order, as \<open>load32\<close> reads them. A list of rules holds the used entries of the array.\<close>

record client_nat_entry =
  ce_type :: int
  ce_network :: u32
  ce_netmask :: u32
  ce_foreign_network :: u32

definition add_entry :: "client_nat_entry list \<Rightarrow> client_nat_entry \<Rightarrow> bool \<times> client_nat_entry list" where
  "add_entry dest e = (if int (length dest) \<ge> MAX_CLIENT_NAT then (False, dest) else (True, dest @ [e]))"

definition new_client_nat_list :: "client_nat_entry list" where
  "new_client_nat_list = []"

definition clone_client_nat_option_list :: "client_nat_entry list \<Rightarrow> client_nat_entry list" where
  "clone_client_nat_option_list src = src"

primrec copy_client_nat_option_list :: "client_nat_entry list \<Rightarrow> client_nat_entry list \<Rightarrow> client_nat_entry list" where
  "copy_client_nat_option_list dest [] = dest"
| "copy_client_nat_option_list dest (e # src) =
     (case add_entry dest e of (False, dest') \<Rightarrow> dest' | (True, dest') \<Rightarrow> copy_client_nat_option_list dest' src)"

text \<open>\<open>getaddr\<close> is the resolver, a parameter: the address of a host name or of a dotted quad, or none.\<close>

definition add_client_nat_to_option_list ::
  "(string \<Rightarrow> u32 option) \<Rightarrow> client_nat_entry list \<Rightarrow> string \<Rightarrow> string \<Rightarrow> string \<Rightarrow> string \<Rightarrow> client_nat_entry list" where
  "add_client_nat_to_option_list getaddr dest type network netmask foreign_network =
     (if type = ''snat'' \<or> type = ''dnat''
      then case getaddr network of
             None \<Rightarrow> dest
           | Some n \<Rightarrow>
               (case getaddr netmask of
                  None \<Rightarrow> dest
                | Some m \<Rightarrow>
                    (case getaddr foreign_network of
                       None \<Rightarrow> dest
                     | Some f \<Rightarrow>
                         snd (add_entry dest
                           \<lparr>ce_type = (if type = ''snat'' then CN_SNAT else CN_DNAT),
                            ce_network = n, ce_netmask = m, ce_foreign_network = f\<rparr>)))
      else dest)"

section \<open>The translation\<close>

text \<open>One rule: the packet, the accumulated change of the checksum, and the fields already rewritten.\<close>

definition client_nat_rule ::
  "int \<Rightarrow> client_nat_entry \<Rightarrow> bytes \<times> int \<times> int \<Rightarrow> (bytes \<times> int \<times> int) option" where
  "client_nat_rule direction e st =
     (case st of (h, accumulate, alog) \<Rightarrow>
        do { let to_daddr = (ce_type e XOR direction \<noteq> 0);
             let addr_ptr = (if to_daddr then 16 else 12);
             let amask = (if to_daddr then 2 else 1);
             addr \<leftarrow> load32 h addr_ptr;
             let from = (if direction \<noteq> 0 then ce_foreign_network e else ce_network e);
             let to = (if direction \<noteq> 0 then ce_network e else ce_foreign_network e);
             if addr AND ce_netmask e = from \<and> amask AND alog = 0
             then do { let addr' = (addr AND NOT (ce_netmask e)) OR to;
                       h' \<leftarrow> store32 h addr_ptr addr';
                       Some (h', SUB_CHECKSUM_32 (ADD_CHECKSUM_32 accumulate addr) addr', alog OR amask) }
             else Some st })"

primrec client_nat_rules ::
  "int \<Rightarrow> client_nat_entry list \<Rightarrow> bytes \<times> int \<times> int \<Rightarrow> (bytes \<times> int \<times> int) option" where
  "client_nat_rules direction [] st = Some st"
| "client_nat_rules direction (e # es) st =
     do { st' \<leftarrow> client_nat_rule direction e st; client_nat_rules direction es st' }"

definition adjust_at :: "bytes \<Rightarrow> int \<Rightarrow> int \<Rightarrow> bytes option" where
  "adjust_at h i accumulate = do { c \<leftarrow> load16 h i; store16 h i (ADJUST_CHECKSUM accumulate c) }"

definition client_nat_packet :: "client_nat_entry list \<Rightarrow> bytes \<Rightarrow> int \<Rightarrow> bytes option" where
  "client_nat_packet es h direction =
     do { (h1, accumulate, alog) \<leftarrow> client_nat_rules direction es (h, 0, 0);
          if alog \<noteq> 0
          then do { h2 \<leftarrow> adjust_at h1 10 accumulate;
                    protocol \<leftarrow> arr_get h2 9;
                    if uint protocol = OPENVPN_IPPROTO_TCP
                    then if int (length h) \<ge> sizeof_iphdr + sizeof_tcphdr
                         then adjust_at h2 36 accumulate else Some h2
                    else if uint protocol = OPENVPN_IPPROTO_UDP
                    then if int (length h) \<ge> sizeof_iphdr + sizeof_udphdr
                         then adjust_at h2 26 accumulate else Some h2
                    else Some h2 }
          else Some h1 }"

definition client_nat_transform :: "client_nat_entry list \<Rightarrow> buffer \<Rightarrow> int \<Rightarrow> buffer option" where
  "client_nat_transform es ipbuf direction =
     do { h \<leftarrow> client_nat_packet es (buf_content ipbuf) direction;
          ofs \<leftarrow> buf_bptr ipbuf;
          buf_store ipbuf ofs h }"

section \<open>Words of a packet\<close>

lemma word_sum_append: "even (length xs) \<Longrightarrow> word_sum (xs @ ys) = word_sum xs + word_sum ys"
  by (induction xs rule: word_sum.induct) auto

definition half_words :: "u32 \<Rightarrow> int" where
  "half_words w = uint (w AND 0xffff) + uint (drop_bit 16 w)"

lemma half_words_eq: "half_words w = uint w mod 65536 + uint w div 65536"
  by (simp add: half_words_def uint_and and_ffff drop_bit_eq_div uint_div)

lemma half_words_bounds: "0 \<le> half_words w" "half_words w \<le> 131070"
proof -
  have "uint w < 4294967296" using uint_lt2p [of w] by simp
  then have "uint w div 65536 \<le> 65535" by simp
  moreover have "uint w mod 65536 \<le> 65535" by simp
  ultimately show "half_words w \<le> 131070" unfolding half_words_eq by linarith
qed (simp add: half_words_def)

lemma checksum_32: "SUB_CHECKSUM_32 (ADD_CHECKSUM_32 acc v) w = acc + half_words v - half_words w"
  by (simp add: SUB_CHECKSUM_32_def ADD_CHECKSUM_32_def half_words_def)

lemma load16_store16:
  assumes "0 \<le> i" "i + 1 < int (length p)" "store16 p i v = Some p'" "0 \<le> v" "v < 65536"
  shows "load16 p' i = Some v" "length p' = length p" "\<And>j. j \<noteq> nat i \<Longrightarrow> j \<noteq> Suc (nat i) \<Longrightarrow> p' ! j = p ! j"
proof -
  have p': "p' = p [nat i := word_of_int (v mod 256), Suc (nat i) := word_of_int (v div 256)]"
    using assms by (simp add: store16_ok)
  show "length p' = length p" by (simp add: p')
  show "\<And>j. j \<noteq> nat i \<Longrightarrow> j \<noteq> Suc (nat i) \<Longrightarrow> p' ! j = p ! j" by (simp add: p')
  have "uint (word_of_int (v mod 256) :: u8) + 256 * uint (word_of_int (v div 256) :: u8) = v"
    using assms(4,5) by (simp add: uint_word_of_int)
  then show "load16 p' i = Some v" using assms(1,2) by (simp add: p' load16_ok)
qed

lemma store32_ok:
  assumes "even i" "0 \<le> i" "i + 3 < int (length p)"
  obtains p' old where "store32 p i v = Some p'" "load32 p i = Some old" "load32 p' i = Some v"
    "word_sum p' = word_sum p - half_words old + half_words v" "length p' = length p"
    "\<And>j. j < nat i \<or> nat i + 4 \<le> j \<Longrightarrow> p' ! j = p ! j"
proof -
  let ?lo = "uint v mod 65536" and ?hi = "uint v div 65536"
  have vb: "0 \<le> ?lo" "?lo < 65536" "0 \<le> ?hi" "?hi < 65536"
  proof -
    have "uint v < 4294967296" using uint_lt2p [of v] by simp
    then show "?hi < 65536" "0 \<le> ?hi" by (simp_all add: pos_imp_zdiv_nonneg_iff)
  qed simp_all
  obtain p1 a where 1: "store16 p i ?lo = Some p1" "load16 p i = Some a" "word_sum p1 = word_sum p - a + ?lo"
    "length p1 = length p"
    using store16_sum [OF assms(1,2), of p ?lo] assms(3) vb by auto
  obtain p2 b where 2: "store16 p1 (i + 2) ?hi = Some p2" "load16 p1 (i + 2) = Some b" "word_sum p2 = word_sum p1 - b + ?hi"
    "length p2 = length p1"
    using store16_sum [of "i + 2" p1 ?hi] assms vb 1(4) by auto
  have ii: "nat (i + 2) = nat i + 2" using assms(2) by simp
  note k1 = load16_store16(3) [OF assms(2) _ 1(1) vb(1,2)]
  note k2 = load16_store16(1,3) [OF _ _ 2(1) vb(3,4)]
  have b: "load16 p (i + 2) = Some b"
    using 2(2) 1(4) k1 assms(2,3) ii by (simp add: load16_ok)
  have "load16 p2 i = load16 p1 i"
    using k2(2) 1(4) 2(4) assms(2,3) ii by (simp add: load16_ok)
  then have l1: "load16 p2 i = Some ?lo"
    using load16_store16(1) [OF assms(2) _ 1(1) vb(1,2)] assms(3) by simp
  have ab: "0 \<le> a" "a < 65536" "0 \<le> b" "b < 65536" using load16_range [OF 1(2)] load16_range [OF b] by auto
  let ?old = "word_of_int (a + 65536 * b) :: u32"
  have u: "uint ?old = a + 65536 * b" using ab by (simp only: uint_word_of_int) simp
  have old: "half_words ?old = a + b" unfolding half_words_eq u using ab by simp
  show ?thesis
  proof
    show "store32 p i v = Some p2" using 1(1) 2(1) by (simp add: store32_def)
    show "load32 p i = Some ?old" using 1(2) b by (simp add: load32_def)
    have "load16 p2 (i + 2) = Some ?hi" using k2(1) assms(2,3) 1(4) by simp
    then have "load32 p2 i = Some (word_of_int (?lo + 65536 * ?hi))"
      using l1 by (simp only: load32_def bind.simps Let_def)
    moreover have "?lo + 65536 * ?hi = uint v" by simp
    ultimately show "load32 p2 i = Some v" by (simp only: word_of_int_uint)
    show "word_sum p2 = word_sum p - half_words ?old + half_words v"
      using 1(3) 2(3) old by (simp add: half_words_eq)
    show "length p2 = length p" using 1(4) 2(4) by simp
    show "p2 ! j = p ! j" if "j < nat i \<or> nat i + 4 \<le> j" for j
      using that k1 [of j] k2(2) [of j] ii assms(2,3) 1(4) by auto
  qed
qed

section \<open>What the rules change\<close>

definition nat_mid :: "bytes \<Rightarrow> bytes \<times> int \<times> int \<Rightarrow> bool" where
  "nat_mid h st \<longleftrightarrow> (case st of (h1, acc, alog) \<Rightarrow>
     length h1 = length h \<and> (\<forall>j. j < 12 \<or> 20 \<le> j \<longrightarrow> h1 ! j = h ! j) \<and> acc = word_sum h - word_sum h1 \<and>
     (alog = 0 \<and> h1 = h \<or> alog \<in> {1, 2} \<and> \<bar>acc\<bar> \<le> 131070 \<or> alog = 3 \<and> \<bar>acc\<bar> \<le> 262140))"

lemma client_nat_rule_ok:
  assumes "nat_mid h st" and "20 \<le> length h"
  shows "\<exists>st'. client_nat_rule direction e st = Some st' \<and> nat_mid h st'"
proof -
  obtain h1 acc alog where st: "st = (h1, acc, alog)" by (cases st) auto
  have m: "length h1 = length h" "\<And>j. j < 12 \<or> 20 \<le> j \<Longrightarrow> h1 ! j = h ! j" "acc = word_sum h - word_sum h1"
    "alog = 0 \<and> h1 = h \<or> alog \<in> {1, 2} \<and> \<bar>acc\<bar> \<le> 131070 \<or> alog = 3 \<and> \<bar>acc\<bar> \<le> 262140"
    using assms(1) by (auto simp: nat_mid_def st)
  let ?d = "ce_type e XOR direction \<noteq> 0"
  let ?p = "(if ?d then 16 else 12) :: int" and ?m = "(if ?d then 2 else 1) :: int"
  have p: "even ?p" "0 \<le> ?p" "?p + 3 < int (length h1)" using assms(2) m(1) by auto
  obtain old where old: "load32 h1 ?p = Some old" by (rule store32_ok [OF p, of 0]) 
  show ?thesis
  proof (cases "old AND ce_netmask e = (if direction \<noteq> 0 then ce_foreign_network e else ce_network e) \<and> ?m AND alog = 0")
    case False
    then show ?thesis using assms(1) old
      by (intro exI [of _ st]) (auto simp: client_nat_rule_def st Let_def)
  next
    case True
    let ?v = "(old AND NOT (ce_netmask e)) OR (if direction \<noteq> 0 then ce_network e else ce_foreign_network e)"
    obtain h2 old' where s: "store32 h1 ?p ?v = Some h2" "load32 h1 ?p = Some old'" "load32 h2 ?p = Some ?v"
      "word_sum h2 = word_sum h1 - half_words old' + half_words ?v" "length h2 = length h1"
      "\<And>j. j < nat ?p \<or> nat ?p + 4 \<le> j \<Longrightarrow> h2 ! j = h1 ! j"
      by (rule store32_ok [OF p, of ?v]) blast
    have "old' = old" using s(2) old by simp
    note s = s [unfolded this]
    let ?acc = "acc + half_words old - half_words ?v"
    have "client_nat_rule direction e st = Some (h2, ?acc, alog OR ?m)"
      using True old s(1) by (auto simp: client_nat_rule_def st Let_def checksum_32)
    moreover have "h2 ! j = h ! j" if "j < 12 \<or> 20 \<le> j" for j
      using that s(6) [of j] m(2) [of j] by (auto split: if_splits)
    moreover have "alog OR ?m \<in> {1, 2} \<and> \<bar>?acc\<bar> \<le> 131070 \<or> alog OR ?m = 3 \<and> \<bar>?acc\<bar> \<le> 262140"
      using m(3,4) True half_words_bounds [of old] half_words_bounds [of ?v] by (auto split: if_splits)
    ultimately show ?thesis
      using m(1,3) s(4,5) by (auto simp: nat_mid_def)
  qed
qed

lemma client_nat_rules_ok:
  "nat_mid h st \<Longrightarrow> 20 \<le> length h \<Longrightarrow> \<exists>st'. client_nat_rules direction es st = Some st' \<and> nat_mid h st'"
proof (induction es arbitrary: st)
  case (Cons e es)
  then show ?case using client_nat_rule_ok [of h st direction e] by auto
qed simp

lemma adjust_at_ok:
  assumes "even i" "0 \<le> i" "i + 1 < int (length h)" "\<bar>acc\<bar> \<le> 262140"
  shows "\<exists>h'. adjust_at h i acc = Some h' \<and> length h' = length h \<and> 65535 dvd word_sum h' - (word_sum h + acc) \<and>
    (\<forall>j. j \<noteq> nat i \<longrightarrow> j \<noteq> Suc (nat i) \<longrightarrow> h' ! j = h ! j)"
proof -
  obtain c where c: "load16 h i = Some c" using load16_ok [OF assms(2,3)] by simp
  note cb = load16_range [OF c]
  let ?c = "ADJUST_CHECKSUM acc c"
  have a: "0 \<le> ?c" "?c < 2 ^ 16" "65535 dvd ?c - (acc + c)"
    using adjust_checksum_ok [of acc c] cb assms(4) by simp_all
  obtain h' old where s: "store16 h i ?c = Some h'" "load16 h i = Some old" "word_sum h' = word_sum h - old + ?c"
    "length h' = length h"
    by (rule store16_sum [OF assms(1-3) a(1,2)])
  show ?thesis
  proof (intro exI conjI allI impI)
    show "adjust_at h i acc = Some h'" using c s(1) by (simp add: adjust_at_def)
    have "word_sum h' - (word_sum h + acc) = ?c - (acc + c)" using s(2,3) c by simp
    then show "65535 dvd word_sum h' - (word_sum h + acc)" using a(3) by (simp only:)
    show "h' ! j = h ! j" if "j \<noteq> nat i" "j \<noteq> Suc (nat i)" for j
      using load16_store16(3) [OF assms(2,3) s(1)] a(1,2) that by simp
  qed (use s(4) in simp)
qed

section \<open>The sums of the headers\<close>

text \<open>The words that the checksum of the IP header covers, and those of the checksum behind it: addresses and payload.\<close>

definition ip_header_sum :: "bytes \<Rightarrow> int" where
  "ip_header_sum h = word_sum (take 20 h)"

definition transport_sum :: "bytes \<Rightarrow> int" where
  "transport_sum h = word_sum (drop 12 h)"

lemma word_sum_split: "even n \<Longrightarrow> n \<le> length h \<Longrightarrow> word_sum h = word_sum (take n h) + word_sum (drop n h)"
  using word_sum_append [of "take n h" "drop n h"] by simp

lemma sum_agree:
  assumes "length g = length h" "even n" "n \<le> length h"
  shows "(\<And>j. j < n \<Longrightarrow> g ! j = h ! j) \<Longrightarrow> word_sum (drop n g) - word_sum (drop n h) = word_sum g - word_sum h"
    "(\<And>j. n \<le> j \<Longrightarrow> g ! j = h ! j) \<Longrightarrow> word_sum (take n g) - word_sum (take n h) = word_sum g - word_sum h"
proof -
  assume "\<And>j. j < n \<Longrightarrow> g ! j = h ! j"
  then have "take n g = take n h" using assms(1,3) by (intro nth_equalityI) auto
  then show "word_sum (drop n g) - word_sum (drop n h) = word_sum g - word_sum h"
    using word_sum_split [OF assms(2), of g] word_sum_split [OF assms(2,3)] assms(1,3) by simp
next
  assume "\<And>j. n \<le> j \<Longrightarrow> g ! j = h ! j"
  then have "drop n g = drop n h" using assms(1,3) by (intro nth_equalityI) auto
  then show "word_sum (take n g) - word_sum (take n h) = word_sum g - word_sum h"
    using word_sum_split [OF assms(2), of g] word_sum_split [OF assms(2,3)] assms(1,3) by simp
qed

lemma client_nat_packet_sums:
  assumes "20 \<le> length h"
  shows "\<exists>h'. client_nat_packet es h direction = Some h' \<and> length h' = length h \<and>
    65535 dvd ip_header_sum h' - ip_header_sum h \<and>
    (uint (h ! 9) = 6 \<and> 40 \<le> length h \<or> uint (h ! 9) = 17 \<and> 28 \<le> length h \<longrightarrow>
      65535 dvd transport_sum h' - transport_sum h)"
proof -
  have "nat_mid h (h, 0, 0)" by (simp add: nat_mid_def)
  then obtain h1 acc alog where r: "client_nat_rules direction es (h, 0, 0) = Some (h1, acc, alog)" "nat_mid h (h1, acc, alog)"
    using client_nat_rules_ok [OF _ assms] by (metis prod_cases3)
  have m: "length h1 = length h" "\<And>j. j < 12 \<or> 20 \<le> j \<Longrightarrow> h1 ! j = h ! j" "acc = word_sum h - word_sum h1"
    "alog = 0 \<Longrightarrow> h1 = h" "\<bar>acc\<bar> \<le> 262140"
    using r(2) by (auto simp: nat_mid_def)
  show ?thesis
  proof (cases "alog = 0")
    case True
    then show ?thesis using r(1) m(4) by (simp add: client_nat_packet_def)
  next
    case changed: False
    have l1: "(10::int) + 1 < int (length h1)" using assms m(1) by simp
    obtain h2 where h2: "adjust_at h1 10 acc = Some h2" "length h2 = length h1" "65535 dvd word_sum h2 - (word_sum h1 + acc)"
      "\<And>j. j \<noteq> nat 10 \<Longrightarrow> j \<noteq> Suc (nat 10) \<Longrightarrow> h2 ! j = h1 ! j"
      using adjust_at_ok [OF _ _ l1 m(5)] by auto
    have l20: "length h2 = length h" "20 \<le> length h2" using h2(2) m(1) assms by simp_all
    have "word_sum (take 20 h2) - word_sum (take 20 h) = word_sum h2 - word_sum h"
      using l20 assms m(2) h2(4) by (intro sum_agree(2)) simp_all
    then have ip: "65535 dvd ip_header_sum h2 - ip_header_sum h"
      using h2(3) m(3) by (simp add: ip_header_sum_def)
    have "h2 ! 9 = h ! 9" using h2(4) [of 9] m(2) [of 9] by simp
    then have proto: "arr_get h2 9 = Some (h ! 9)" using l20 by (simp add: arr_get_Some)
    have d12: "word_sum (drop 12 h2) = word_sum (drop 12 h1)"
    proof -
      have "drop 12 h2 = drop 12 h1" using h2(2,4) by (intro nth_equalityI) auto
      then show ?thesis by simp
    qed
    have t1: "word_sum (drop 12 h1) - word_sum (drop 12 h) = word_sum h1 - word_sum h"
      using m(1,2) assms by (intro sum_agree(1)) simp_all
    have tail: "\<exists>h3. adjust_at h2 i acc = Some h3 \<and> length h3 = length h \<and> 65535 dvd ip_header_sum h3 - ip_header_sum h \<and>
        65535 dvd transport_sum h3 - transport_sum h"
      if i: "even i" "20 \<le> i" "i + 1 < int (length h)" for i
    proof -
      have i0: "0 \<le> i" "i + 1 < int (length h2)" using i l20 by simp_all
      obtain h3 where h3: "adjust_at h2 i acc = Some h3" "length h3 = length h2" "65535 dvd word_sum h3 - (word_sum h2 + acc)"
        "\<And>j. j \<noteq> nat i \<Longrightarrow> j \<noteq> Suc (nat i) \<Longrightarrow> h3 ! j = h2 ! j"
        using adjust_at_ok [OF i(1) i0 m(5)] by auto
      have "take 20 h3 = take 20 h2" using h3(2,4) i(2) by (intro nth_equalityI) auto
      then have "65535 dvd ip_header_sum h3 - ip_header_sum h" using ip by (simp add: ip_header_sum_def)
      moreover have "word_sum (drop 12 h3) - word_sum (drop 12 h2) = word_sum h3 - word_sum h2"
        using h3(2,4) i(2) l20 by (intro sum_agree(1)) simp_all
      then have "transport_sum h3 - transport_sum h = word_sum h3 - (word_sum h2 + acc)"
        using d12 t1 m(3) by (simp add: transport_sum_def)
      then have "65535 dvd transport_sum h3 - transport_sum h" using h3(3) by simp
      ultimately show ?thesis using h3(1,2) l20 by simp
    qed
    consider (tcp) "uint (h ! 9) = 6" "40 \<le> length h" | (udp) "uint (h ! 9) = 17" "28 \<le> length h"
      | (none) "\<not> (uint (h ! 9) = 6 \<and> 40 \<le> length h \<or> uint (h ! 9) = 17 \<and> 28 \<le> length h)" by blast
    then show ?thesis
    proof cases
      case tcp
      then have "client_nat_packet es h direction = adjust_at h2 36 acc"
        using r(1) changed h2(1) proto
        by (simp add: client_nat_packet_def OPENVPN_IPPROTO_TCP_def sizeof_iphdr_def sizeof_tcphdr_def)
      then show ?thesis using tail [of 36] tcp by auto
    next
      case udp
      then have "client_nat_packet es h direction = adjust_at h2 26 acc"
        using r(1) changed h2(1) proto
        by (simp add: client_nat_packet_def OPENVPN_IPPROTO_TCP_def OPENVPN_IPPROTO_UDP_def sizeof_iphdr_def sizeof_udphdr_def)
      then show ?thesis using tail [of 26] udp by auto
    next
      case none
      then have "client_nat_packet es h direction = Some h2"
        using r(1) changed h2(1) proto
        by (auto simp: client_nat_packet_def OPENVPN_IPPROTO_TCP_def OPENVPN_IPPROTO_UDP_def sizeof_iphdr_def
            sizeof_tcphdr_def sizeof_udphdr_def)
      then show ?thesis using none ip l20 by auto
    qed
  qed
qed

text \<open>
  C14. Translation keeps the checksums right. Whatever the rules and the packet, the sum over the IP header
  is the same modulo 65535 as before; and for a TCP segment or a UDP datagram behind a header of twenty
  octets so is the sum over addresses and payload that its checksum covers.
\<close>

theorem client_nat_keeps_checksums:
  assumes "20 \<le> length h"
  shows "\<exists>h'. client_nat_packet es h direction = Some h' \<and> length h' = length h \<and>
    65535 dvd ip_header_sum h' - ip_header_sum h \<and>
    (uint (h ! 9) = 6 \<and> 40 \<le> length h \<or> uint (h ! 9) = 17 \<and> 28 \<le> length h \<longrightarrow>
      65535 dvd transport_sum h' - transport_sum h)"
  by (rule client_nat_packet_sums [OF assms])

lemma client_nat_keeps_checksums_witness:
  "\<exists>h'. client_nat_packet [] (replicate 20 0) CN_OUTGOING = Some h' \<and> 65535 dvd ip_header_sum h' - ip_header_sum (replicate 20 0)"
  using client_nat_keeps_checksums [of "replicate 20 0" "[]" CN_OUTGOING] by auto

section \<open>There and back\<close>

lemma load32_cong:
  assumes "0 \<le> i" "i + 3 < int (length g)" "length g = length h" "\<And>j. nat i \<le> j \<Longrightarrow> j < nat i + 4 \<Longrightarrow> g ! j = h ! j"
  shows "load32 g i = load32 h i"
proof -
  have "nat (i + 2) = nat i + 2" using assms(1) by simp
  then have "load16 g i = load16 h i" "load16 g (i + 2) = load16 h (i + 2)"
    using assms by (simp_all add: load16_ok)
  then show ?thesis by (simp add: load32_def)
qed

lemma adjust_at_keeps:
  assumes "adjust_at h i acc = Some h'" "0 \<le> i" "i + 1 < int (length h)" "\<bar>acc\<bar> \<le> 262140"
  shows "length h' = length h" "\<And>j. j \<noteq> nat i \<Longrightarrow> j \<noteq> Suc (nat i) \<Longrightarrow> h' ! j = h ! j"
proof -
  obtain c where c: "load16 h i = Some c" using load16_ok [OF assms(2,3)] by simp
  have s: "store16 h i (ADJUST_CHECKSUM acc c) = Some h'" using assms(1) c by (simp add: adjust_at_def)
  have "0 \<le> ADJUST_CHECKSUM acc c" "ADJUST_CHECKSUM acc c < 65536"
    using adjust_checksum_ok [of acc c] load16_range [OF c] assms(4) by simp_all
  then show "length h' = length h" "\<And>j. j \<noteq> nat i \<Longrightarrow> j \<noteq> Suc (nat i) \<Longrightarrow> h' ! j = h ! j"
    using load16_store16(2,3) [OF assms(2,3) s] by auto
qed

text \<open>After the rules, only the checksums are written: the addresses stay.\<close>

lemma client_nat_packet_addresses:
  assumes "client_nat_rules direction es (h, 0, 0) = Some (h1, acc, alog)" "client_nat_packet es h direction = Some h'"
    "20 \<le> length h"
  shows "load32 h' 12 = load32 h1 12 \<and> load32 h' 16 = load32 h1 16"
proof -
  have "nat_mid h (h, 0, 0)" by (simp add: nat_mid_def)
  then have m: "length h1 = length h" "\<bar>acc\<bar> \<le> 262140" "alog = 0 \<Longrightarrow> h1 = h"
    using client_nat_rules_ok [OF _ assms(3), of "(h, 0, 0)" direction es] assms(1) by (auto simp: nat_mid_def)
  have "length h' = length h1 \<and> (\<forall>j. 12 \<le> j \<and> j < 20 \<longrightarrow> h' ! j = h1 ! j)"
  proof (cases "alog = 0")
    case True
    then show ?thesis using assms(1,2) by (simp add: client_nat_packet_def)
  next
    case False
    then obtain h2 where h2: "adjust_at h1 10 acc = Some h2"
      and h': "h' = h2 \<or> adjust_at h2 36 acc = Some h' \<and> 40 \<le> length h \<or> adjust_at h2 26 acc = Some h' \<and> 28 \<le> length h"
      using assms(1,2)
      by (auto simp: client_nat_packet_def bind_eq_Some_conv sizeof_iphdr_def sizeof_tcphdr_def sizeof_udphdr_def
          split: if_splits)
    have l2: "length h2 = length h1" "\<forall>j. 12 \<le> j \<longrightarrow> h2 ! j = h1 ! j"
      using adjust_at_keeps [OF h2 _ _ m(2)] m(1) assms(3) by auto
    consider "h' = h2" | i where "20 \<le> i" "i + 1 < int (length h)" "adjust_at h2 i acc = Some h'"
    proof -
      have "(40::nat) \<le> length h \<Longrightarrow> (36::int) + 1 < int (length h)" "(28::nat) \<le> length h \<Longrightarrow> (26::int) + 1 < int (length h)"
        by linarith+
      then show ?thesis using h' that(1) that(2) [of 36] that(2) [of 26] by auto
    qed
    then show ?thesis
    proof cases
      case 1
      then show ?thesis using l2 by simp
    next
      case (2 i)
      then show ?thesis using adjust_at_keeps [OF 2(3) _ _ m(2)] l2 m(1) by auto
    qed
  qed
  then show ?thesis using m(1) assms(3) by (intro conjI load32_cong) auto
qed

text \<open>A rule whose two networks lie under its mask.\<close>

definition nat_rule_ok :: "client_nat_entry \<Rightarrow> bool" where
  "nat_rule_ok e \<longleftrightarrow> ce_network e AND ce_netmask e = ce_network e \<and> ce_foreign_network e AND ce_netmask e = ce_foreign_network e"

lemma nat_address:
  assumes "n AND m = n" "f AND m = f" "a AND m = n"
  shows "((a AND NOT m) OR f) AND m = f" "(((a AND NOT m) OR f) AND NOT m) OR n = (a :: u32)"
proof -
  have f: "\<And>i. bit f i \<Longrightarrow> bit m i" using assms(2) by (metis bit_and_iff)
  have n: "\<And>i. i < 32 \<Longrightarrow> bit n i = (bit a i \<and> bit m i)" using assms(3) by (metis bit_and_iff)
  show "((a AND NOT m) OR f) AND m = f"
    by (rule bit_word_eqI) (use f in \<open>auto simp: bit_simps\<close>)
  show "(((a AND NOT m) OR f) AND NOT m) OR n = a"
    by (rule bit_word_eqI) (use f n in \<open>auto simp: bit_simps\<close>)
qed

lemma client_nat_one_rule:
  assumes "20 \<le> length h" "client_nat_packet [e] h direction = Some h'"
    "p = (if ce_type e XOR direction \<noteq> 0 then 16 else 12)" "load32 h p = Some a"
    "a AND ce_netmask e = (if direction \<noteq> 0 then ce_foreign_network e else ce_network e)"
  shows "load32 h' p = Some ((a AND NOT (ce_netmask e)) OR (if direction \<noteq> 0 then ce_network e else ce_foreign_network e))"
proof -
  let ?v = "(a AND NOT (ce_netmask e)) OR (if direction \<noteq> 0 then ce_network e else ce_foreign_network e)"
  have p: "even p" "0 \<le> p" "p + 3 < int (length h)" using assms(1,3) by auto
  obtain h1 old where s: "store32 h p ?v = Some h1" "load32 h p = Some old" "load32 h1 p = Some ?v"
    by (rule store32_ok [OF p, of ?v]) blast
  let ?acc = "SUB_CHECKSUM_32 (ADD_CHECKSUM_32 0 a) ?v" and ?m = "(if ce_type e XOR direction \<noteq> 0 then 2 else 1) :: int"
  have "client_nat_rules direction [e] (h, 0, 0) = Some (h1, ?acc, ?m)"
    using assms(3-5) s(1) by (auto simp: client_nat_rule_def Let_def split: if_splits)
  from client_nat_packet_addresses [OF this assms(2,1)] show ?thesis
    using assms(3) s(3) by (auto split: if_splits)
qed

text \<open>
  C25. Translation is undone on the way back. For a source-translation rule whose networks lie under its mask,
  a packet leaving with a source address of the network gets a foreign address, and a packet that comes in for
  that foreign address is given the original one as its destination.
\<close>

theorem client_nat_returns:
  assumes "nat_rule_ok e" and "ce_type e = CN_SNAT" and "20 \<le> length h" and "20 \<le> length g"
    and "load32 h 12 = Some a" and "a AND ce_netmask e = ce_network e"
    and "client_nat_packet [e] h CN_OUTGOING = Some h'" and "load32 g 16 = load32 h' 12"
    and "client_nat_packet [e] g CN_INCOMING = Some g'"
  shows "load32 g' 16 = Some a"
proof -
  let ?v = "(a AND NOT (ce_netmask e)) OR ce_foreign_network e"
  note d = CN_SNAT_def CN_OUTGOING_def CN_INCOMING_def
  have ok: "ce_network e AND ce_netmask e = ce_network e" "ce_foreign_network e AND ce_netmask e = ce_foreign_network e"
    using assms(1) by (simp_all add: nat_rule_ok_def)
  note na = nat_address [OF ok assms(6)]
  have "load32 h' 12 = Some ?v"
    using client_nat_one_rule [OF assms(3,7), of 12 a] assms(2,5,6) by (simp add: d)
  then have "load32 g 16 = Some ?v" using assms(8) by simp
  then have "load32 g' 16 = Some ((?v AND NOT (ce_netmask e)) OR ce_network e)"
    using client_nat_one_rule [OF assms(4,9), of 16 ?v] assms(2) na(1) by (simp add: d)
  then show ?thesis using na(2) by simp
qed

definition demo_rule :: client_nat_entry where
  "demo_rule = \<lparr>ce_type = CN_SNAT, ce_network = 0x0000a8c0, ce_netmask = 0x0000ffff, ce_foreign_network = 0x0000000a\<rparr>"

definition demo_out :: bytes where
  "demo_out = [0x45, 0, 0, 28, 0, 0, 0, 0, 64, 17, 0, 0, 0xc0, 0xa8, 0, 7, 8, 8, 8, 8, 0, 53, 0, 53, 0, 8, 0, 0]"

definition demo_in :: bytes where
  "demo_in = [0x45, 0, 0, 28, 0, 0, 0, 0, 64, 17, 0, 0, 8, 8, 8, 8, 0x0a, 0, 0, 7, 0, 53, 0, 53, 0, 8, 0, 0]"

lemmas demo_nat = demo_rule_def demo_out_def demo_in_def CN_SNAT_def CN_OUTGOING_def CN_INCOMING_def

lemma demo_loads:
  "load32 demo_out 12 = Some 0x0700a8c0" "load32 demo_in 16 = Some 0x0700000a"
  by (simp_all add: demo_nat load32_def load16_def arr_get_def)

lemmas demo_nat_eval = demo_nat client_nat_packet_def client_nat_rule_def load32_def load16_def store32_def
  store16_def arr_get_def arr_set_def adjust_at_def SUB_CHECKSUM_32_def ADD_CHECKSUM_32_def ADJUST_CHECKSUM_def
  sizeof_iphdr_def sizeof_tcphdr_def sizeof_udphdr_def OPENVPN_IPPROTO_UDP_def OPENVPN_IPPROTO_TCP_def Let_def

lemma demo_nat_out:
  "client_nat_packet [demo_rule] demo_out CN_OUTGOING =
    Some [0x45, 0, 0, 28, 0, 0, 0, 0, 64, 17, 182, 168, 0x0a, 0, 0, 7, 8, 8, 8, 8, 0, 53, 0, 53, 0, 8, 182, 168]"
  by (simp add: demo_nat_eval)

lemma demo_nat_in:
  "client_nat_packet [demo_rule] demo_in CN_INCOMING =
    Some [0x45, 0, 0, 28, 0, 0, 0, 0, 64, 17, 73, 87, 8, 8, 8, 8, 0xc0, 0xa8, 0, 7, 0, 53, 0, 53, 0, 8, 73, 87]"
  by (simp add: demo_nat_eval)

lemma client_nat_returns_witness:
  "\<exists>g'. client_nat_packet [demo_rule] demo_in CN_INCOMING = Some g' \<and> load32 g' 16 = Some 0x0700a8c0"
proof -
  have ok: "nat_rule_ok demo_rule" "ce_type demo_rule = CN_SNAT" "20 \<le> length demo_out" "20 \<le> length demo_in"
    "0x0700a8c0 AND ce_netmask demo_rule = ce_network demo_rule"
    by (simp_all add: nat_rule_ok_def demo_nat)
  show ?thesis
    using client_nat_returns [OF ok(1-4) demo_loads(1) ok(5) demo_nat_out _ demo_nat_in] demo_loads(2)
    by (simp add: demo_nat_in load32_def load16_def arr_get_def)
qed





end
