(* ===== verification/Crypto.thy ===== *)
theory Crypto
  imports PacketIdStream Mtu
begin

text \<open>
  Protection of packets (src: crypto.h, crypto.c): sealing with a cipher and a keyed hash, opening with the
  tests of the hash and of the packet identifier. The cryptographic library is a parameter.
\<close>

section \<open>Contexts\<close>

definition OPENVPN_AEAD_TAG_LENGTH :: int where "OPENVPN_AEAD_TAG_LENGTH = 16"
definition OPENVPN_MAX_IV_LENGTH :: int where "OPENVPN_MAX_IV_LENGTH = 16"
definition OPENVPN_AEAD_MIN_IV_LEN :: int where "OPENVPN_AEAD_MIN_IV_LEN = 4 + 8"
definition OPENVPN_MAX_CIPHER_BLOCK_SIZE :: int where "OPENVPN_MAX_CIPHER_BLOCK_SIZE = 32"
definition OPENVPN_MAX_HMAC_SIZE :: int where "OPENVPN_MAX_HMAC_SIZE = 64"
definition CO_PACKET_ID_LONG_FORM :: u32 where "CO_PACKET_ID_LONG_FORM = 1"
definition CO_IGNORE_PACKET_ID :: u32 where "CO_IGNORE_PACKET_ID = 2"

datatype cipher_mode = OPENVPN_MODE_CBC | OPENVPN_MODE_OFB_CFB | OPENVPN_MODE_AEAD | OPENVPN_MODE_OTHER

text \<open>
  A cipher context of the library, with the key inside. Between two resets it is given an initialisation vector,
  the additional data and one input; what it writes is a function of these three: the output of
  \<open>cipher_ctx_update\<close>, of \<open>cipher_ctx_final\<close>, the tag, and the output of
  \<open>cipher_ctx_final_check_tag\<close> for a tag. \<open>None\<close> is the failure of a call.
\<close>

record cipher_ctx =
  cc_mode :: cipher_mode
  cc_iv_length :: int
  cc_block_size :: int
  cc_reset :: "bytes \<Rightarrow> bool"
  cc_update :: "bytes \<Rightarrow> bytes \<Rightarrow> bytes \<Rightarrow> bytes option"
  cc_final :: "bytes \<Rightarrow> bytes \<Rightarrow> bytes \<Rightarrow> bytes option"
  cc_get_tag :: "bytes \<Rightarrow> bytes \<Rightarrow> bytes \<Rightarrow> bytes option"
  cc_final_check_tag :: "bytes \<Rightarrow> bytes \<Rightarrow> bytes \<Rightarrow> bytes \<Rightarrow> bytes option"

text \<open>A keyed hash of the library: its size, and the hash of a message.\<close>

record hmac_ctx =
  hc_size :: int
  hc_hmac :: "bytes \<Rightarrow> bytes"

record key_ctx =
  kc_cipher :: "cipher_ctx option"
  kc_hmac :: "hmac_ctx option"
  kc_implicit_iv :: bytes
  kc_implicit_iv_len :: int

record crypto_options =
  co_encrypt :: key_ctx
  co_decrypt :: key_ctx
  co_packet_id :: packet_id
  co_pid_persist :: "packet_id_persist option"
  co_flags :: u32

definition cipher_kt_mode_aead :: "cipher_ctx option \<Rightarrow> bool" where
  "cipher_kt_mode_aead c = (case c of None \<Rightarrow> False | Some x \<Rightarrow> cc_mode x = OPENVPN_MODE_AEAD)"

definition cipher_kt_mode_cbc :: "cipher_ctx option \<Rightarrow> bool" where
  "cipher_kt_mode_cbc c = (case c of None \<Rightarrow> False | Some x \<Rightarrow> cc_mode x = OPENVPN_MODE_CBC)"

definition cipher_kt_mode_ofb_cfb :: "cipher_ctx option \<Rightarrow> bool" where
  "cipher_kt_mode_ofb_cfb c = (case c of None \<Rightarrow> False | Some x \<Rightarrow> cc_mode x = OPENVPN_MODE_OFB_CFB)"

definition cipher_kt_tag_size :: "cipher_ctx option \<Rightarrow> int" where
  "cipher_kt_tag_size c = (if cipher_kt_mode_aead c then OPENVPN_AEAD_TAG_LENGTH else 0)"

definition packet_id_initialized :: "packet_id \<Rightarrow> bool" where
  "packet_id_initialized p = r_initialized (p_rec p)"

definition co_long_form :: "crypto_options \<Rightarrow> bool" where
  "co_long_form opt \<longleftrightarrow> co_flags opt AND CO_PACKET_ID_LONG_FORM \<noteq> 0"

definition co_set_send :: "crypto_options \<Rightarrow> packet_id_send \<Rightarrow> crypto_options" where
  "co_set_send opt s = opt\<lparr>co_packet_id := (co_packet_id opt)\<lparr>p_send := s\<rparr>\<rparr>"

definition co_set_rec :: "crypto_options \<Rightarrow> packet_id_rec \<Rightarrow> crypto_options" where
  "co_set_rec opt r = opt\<lparr>co_packet_id := (co_packet_id opt)\<lparr>p_rec := r\<rparr>\<rparr>"

text \<open>\<open>BEND(b)\<close>, as an offset in the block; output of the library at a place, then \<open>ASSERT(buf_inc_len)\<close>.\<close>

definition buf_bend :: "buffer \<Rightarrow> int option" where
  "buf_bend b = map_option (\<lambda>p. p + buf_len b) (buf_bptr b)"

definition cipher_output :: "buffer \<Rightarrow> int \<Rightarrow> bytes \<Rightarrow> buffer option" where
  "cipher_output work place out =
     do { w \<leftarrow> buf_store work place out;
          let (ok, w') = buf_inc_len w (int (length out));
          ASSERT ok;
          Some w' }"

text \<open>
  The first \<open>n\<close> octets of the zeroed array for the initialisation vector; no more of it is used, and there is
  no run with a longer vector than the array holds.
\<close>

definition iv_array :: "int \<Rightarrow> bytes option" where
  "iv_array n = (if 0 \<le> n \<and> n \<le> OPENVPN_MAX_IV_LENGTH then Some (replicate (nat n) 0) else None)"

section \<open>Sealing\<close>

text \<open>
  The results: the new \<open>buf\<close> and the options, whose sending state has moved. On an error the buffer is emptied.
\<close>

definition encrypt_error :: "buffer \<Rightarrow> crypto_options \<Rightarrow> buffer \<times> crypto_options" where
  "encrypt_error buf opt = (buf\<lparr>b_len := 0\<rparr>, opt)"

definition openvpn_encrypt_aead ::
  "buffer \<Rightarrow> buffer \<Rightarrow> crypto_options \<Rightarrow> int \<Rightarrow> (buffer \<times> crypto_options) option" where
  "openvpn_encrypt_aead buf work opt now =
     do { let ctx = co_encrypt opt;
          let mac_len = cipher_kt_tag_size (kc_cipher ctx);
          cipher \<leftarrow> kc_cipher ctx;
          ASSERT (cipher_kt_mode_aead (Some cipher));
          ASSERT (packet_id_initialized (co_packet_id opt));
          let iv_len = cc_iv_length cipher;
          ASSERT (OPENVPN_AEAD_MIN_IV_LEN \<le> iv_len \<and> iv_len \<le> OPENVPN_MAX_IV_LENGTH);
          iv0 \<leftarrow> iv_array iv_len;
          iv_buffer \<leftarrow> buf_set_write (Some iv0) iv_len;
          (ok, send, iv_buffer1) \<leftarrow> packet_id_write (p_send (co_packet_id opt)) iv_buffer False False now;
          let opt1 = co_set_send opt send;
          if \<not> ok then Some (encrypt_error buf opt1)
          else do { implicit \<leftarrow> mem_read (kc_implicit_iv ctx) 0 (kc_implicit_iv_len ctx);
                    (ok2, iv_buffer2) \<leftarrow> buf_write iv_buffer1 implicit;
                    ASSERT ok2;
                    ASSERT (b_len iv_buffer2 = iv_len);
                    explicit \<leftarrow> buf_load iv_buffer2 0 (iv_len - kc_implicit_iv_len ctx);
                    (ok3, work1) \<leftarrow> buf_write work explicit;
                    ASSERT ok3;
                    iv \<leftarrow> buf_load iv_buffer2 0 iv_len;
                    ASSERT (cc_reset cipher iv);
                    let (mac_out, work2) = buf_write_alloc work1 mac_len;
                    mac_out' \<leftarrow> mac_out;
                    if \<not> buf_safe work2 (b_len buf + cc_block_size cipher)
                    then Some (encrypt_error buf opt1)
                    else do { p \<leftarrow> buf_bptr work2;
                              ad \<leftarrow> buf_load work2 p (buf_len work2 - mac_len);
                              input \<leftarrow> buf_bytes buf;
                              out1 \<leftarrow> cc_update cipher iv ad input;
                              place1 \<leftarrow> buf_bend work2;
                              work3 \<leftarrow> cipher_output work2 place1 out1;
                              out2 \<leftarrow> cc_final cipher iv ad input;
                              place2 \<leftarrow> buf_bend work3;
                              work4 \<leftarrow> cipher_output work3 place2 out2;
                              tag \<leftarrow> cc_get_tag cipher iv ad input;
                              work5 \<leftarrow> buf_store work4 mac_out' (take (nat mac_len) tag);
                              Some (work5, opt1) } } }"

text \<open>
  The tail of \<open>openvpn_encrypt_v1\<close>: the hash of all that follows its start, written to its place.
\<close>

definition encrypt_hmac :: "hmac_ctx option \<Rightarrow> int option \<Rightarrow> int option \<Rightarrow> buffer \<Rightarrow> buffer option" where
  "encrypt_hmac hmac hmac_start mac_out work =
     (case hmac of
        None \<Rightarrow> Some work
      | Some h \<Rightarrow> do { start \<leftarrow> hmac_start;
                       m \<leftarrow> mac_out;
                       e \<leftarrow> buf_bend work;
                       msg \<leftarrow> buf_load work start (e - start);
                       buf_store work m (hc_hmac h msg) })"

text \<open>
  \<open>random\<close> is what \<open>prng_bytes\<close> puts into the initialisation vector.
\<close>

definition openvpn_encrypt_v1 ::
  "buffer \<Rightarrow> buffer \<Rightarrow> crypto_options \<Rightarrow> bytes \<Rightarrow> int \<Rightarrow> (buffer \<times> crypto_options) option" where
  "openvpn_encrypt_v1 buf work opt random now =
     (if b_len buf > 0
      then let ctx = co_encrypt opt;
               pid = co_packet_id opt;
               lf = co_long_form opt
           in case kc_cipher ctx of
                Some cipher \<Rightarrow>
                  do { let iv_size = cc_iv_length cipher;
                       iv0 \<leftarrow> iv_array iv_size;
                       (mac_out, hmac_start, work1) \<leftarrow>
                          (case kc_hmac ctx of
                             None \<Rightarrow> Some (None, None, work)
                           | Some h \<Rightarrow>
                               do { let (m, w) = buf_write_alloc work (hc_size h);
                                    m' \<leftarrow> m;
                                    e \<leftarrow> buf_bend w;
                                    Some (Some m', Some e, w) });
                       (ok, send, buf1, iv_buf) \<leftarrow>
                          (if cipher_kt_mode_cbc (Some cipher)
                           then do { iv \<leftarrow> mem_write iv0 0 (take (nat iv_size) random);
                                     (ok, send, b) \<leftarrow> (if packet_id_initialized pid
                                                       then packet_id_write (p_send pid) buf lf True now
                                                       else Some (True, p_send pid, buf));
                                     Some (ok, send, b, iv) }
                           else if cipher_kt_mode_ofb_cfb (Some cipher)
                           then do { ASSERT (packet_id_initialized pid);
                                     b \<leftarrow> buf_set_write (Some iv0) iv_size;
                                     (ok, send, b') \<leftarrow> packet_id_write (p_send pid) b True False now;
                                     ASSERT ok;
                                     iv \<leftarrow> b_data b';
                                     Some (True, send, buf, iv) }
                           else None);
                       let opt1 = co_set_send opt send;
                       if \<not> ok then Some (encrypt_error buf1 opt1)
                       else do { iv \<leftarrow> mem_read iv_buf 0 iv_size;
                                 (ok2, work2) \<leftarrow> buf_write work1 iv;
                                 ASSERT ok2;
                                 ASSERT (cc_reset cipher iv);
                                 if \<not> buf_safe work2 (b_len buf1 + cc_block_size cipher)
                                 then Some (encrypt_error buf1 opt1)
                                 else do { input \<leftarrow> buf_bytes buf1;
                                           out1 \<leftarrow> cc_update cipher iv [] input;
                                           place1 \<leftarrow> buf_bend work2;
                                           work3 \<leftarrow> cipher_output work2 place1 out1;
                                           out2 \<leftarrow> cc_final cipher iv [] input;
                                           place2 \<leftarrow> buf_bend work3;
                                           work4 \<leftarrow> cipher_output work3 place2 out2;
                                           ASSERT (cc_mode cipher \<noteq> OPENVPN_MODE_CBC \<or> int (length out2) = iv_size);
                                           work5 \<leftarrow> encrypt_hmac (kc_hmac ctx) hmac_start mac_out work4;
                                           Some (work5, opt1) } } }
              | None \<Rightarrow>
                  do { (ok, send, buf1) \<leftarrow> (if packet_id_initialized pid
                                             then packet_id_write (p_send pid) buf lf True now
                                             else Some (True, p_send pid, buf));
                       let opt1 = co_set_send opt send;
                       if \<not> ok then Some (encrypt_error buf1 opt1)
                       else do { (mac_out, hmac_start, buf2) \<leftarrow>
                                   (case kc_hmac ctx of
                                      None \<Rightarrow> Some (None, None, buf1)
                                    | Some h \<Rightarrow>
                                        do { s \<leftarrow> buf_bptr buf1;
                                             let (m, b) = buf_prepend buf1 (hc_size h);
                                             m' \<leftarrow> m;
                                             Some (Some m', Some s, b) });
                                 buf3 \<leftarrow> (if buf_len work \<noteq> 0
                                          then do { hdr \<leftarrow> buf_bytes work;
                                                    (_, b) \<leftarrow> buf_write_prepend buf2 hdr;
                                                    Some b }
                                          else Some buf2);
                                 work1 \<leftarrow> encrypt_hmac (kc_hmac ctx) hmac_start mac_out buf3;
                                 Some (work1, opt1) } }
      else Some (buf, opt))"

definition openvpn_encrypt ::
  "buffer \<Rightarrow> buffer \<Rightarrow> crypto_options option \<Rightarrow> bytes \<Rightarrow> int \<Rightarrow> (buffer \<times> crypto_options option) option" where
  "openvpn_encrypt buf work opt random now =
     (case opt of
        Some o1 \<Rightarrow>
          if b_len buf > 0
          then do { (b, o2) \<leftarrow> (if cipher_kt_mode_aead (kc_cipher (co_encrypt o1))
                               then openvpn_encrypt_aead buf work o1 now
                               else openvpn_encrypt_v1 buf work o1 random now);
                    Some (b, Some o2) }
          else Some (buf, opt)
      | None \<Rightarrow> Some (buf, opt))"

section \<open>Opening\<close>

text \<open>\<open>crypto_check_replay\<close> with its options: the copy for \<open>--replay-persist\<close> is made in the long form.\<close>

definition co_check_replay :: "crypto_options \<Rightarrow> packet_id_net \<Rightarrow> int \<Rightarrow> (bool \<times> crypto_options) option" where
  "co_check_replay opt pin now =
     do { (ok, r) \<leftarrow> crypto_check_replay (p_rec (co_packet_id opt)) pin now;
          let opt1 = co_set_rec opt r;
          Some (ok, if ok \<and> co_long_form opt
                    then opt1\<lparr>co_pid_persist := map_option (\<lambda>p. packet_id_persist_save_obj p r) (co_pid_persist opt)\<rparr>
                    else opt1) }"

definition decrypt_error :: "buffer \<Rightarrow> crypto_options \<Rightarrow> bool \<times> buffer \<times> crypto_options" where
  "decrypt_error buf opt = (False, buf\<lparr>b_len := 0\<rparr>, opt)"

text \<open>\<open>ad_start\<close> is a place in the block of \<open>buf\<close>: where the authenticated header begins.\<close>

definition openvpn_decrypt_aead ::
  "buffer \<Rightarrow> buffer \<Rightarrow> crypto_options \<Rightarrow> frame \<Rightarrow> int \<Rightarrow> int \<Rightarrow> (bool \<times> buffer \<times> crypto_options) option" where
  "openvpn_decrypt_aead buf work opt frame ad_start now =
     do { let ctx = co_decrypt opt;
          ASSERT (b_len buf > 0);
          cipher \<leftarrow> kc_cipher ctx;
          ASSERT (cipher_kt_mode_aead (Some cipher));
          bp \<leftarrow> buf_bptr buf;
          ASSERT (0 \<le> ad_start \<and> ad_start \<le> bp);
          let (ok, work0) = buf_init work (FRAME_HEADROOM_ADJ frame FRAME_HEADROOM_MARKER_DECRYPT);
          ASSERT ok;
          ASSERT (packet_id_initialized (co_packet_id opt));
          let iv_len = cc_iv_length cipher;
          let il = kc_implicit_iv_len ctx;
          ASSERT (il \<le> iv_len);
          if b_len buf + il < iv_len then Some (decrypt_error buf opt)
          else do {
            explicit \<leftarrow> buf_load buf bp (iv_len - il);
            implicit \<leftarrow> mem_read (kc_implicit_iv ctx) 0 il;
            let iv = explicit @ implicit;
            if \<not> cc_reset cipher iv then Some (decrypt_error buf opt)
            else do {
              (ok1, pin, buf1) \<leftarrow> packet_id_read buf False;
              let tag_size = cipher_kt_tag_size (Some cipher);
              if \<not> ok1 \<or> b_len buf1 < tag_size then Some (decrypt_error buf1 opt)
              else do {
                tag_ptr \<leftarrow> buf_bptr buf1;
                let (ok2, buf2) = buf_advance buf1 tag_size;
                ASSERT ok2;
                if b_len buf2 < 1 \<or> \<not> buf_safe work0 (b_len buf2 + cc_block_size cipher)
                then Some (decrypt_error buf2 opt)
                else do {
                  bp2 \<leftarrow> buf_bptr buf2;
                  ad \<leftarrow> buf_load buf2 ad_start (bp2 - ad_start - tag_size);
                  tag \<leftarrow> buf_load buf2 tag_ptr tag_size;
                  input \<leftarrow> buf_bytes buf2;
                  case cc_update cipher iv ad input of
                    None \<Rightarrow> Some (decrypt_error buf2 opt)
                  | Some out1 \<Rightarrow>
                      do { place \<leftarrow> buf_bptr work0;
                           work1 \<leftarrow> cipher_output work0 place out1;
                           case cc_final_check_tag cipher iv ad input tag of
                             None \<Rightarrow> Some (decrypt_error buf2 opt)
                           | Some out2 \<Rightarrow>
                               do { work2 \<leftarrow> cipher_output work1 (place + int (length out1)) out2;
                                    (fresh, opt1) \<leftarrow> co_check_replay opt pin now;
                                    if fresh then Some (True, work2, opt1)
                                    else Some (decrypt_error buf2 opt1) } } } } } } }"

definition openvpn_decrypt_v1 ::
  "buffer \<Rightarrow> buffer \<Rightarrow> crypto_options \<Rightarrow> frame \<Rightarrow> int \<Rightarrow> (bool \<times> buffer \<times> crypto_options) option" where
  "openvpn_decrypt_v1 buf work opt frame now =
     (if b_len buf > 0
      then do {
        let ctx = co_decrypt opt;
        let pid = co_packet_id opt;
        let lf = co_long_form opt;
        (auth, buf1) \<leftarrow>
          (case kc_hmac ctx of
             None \<Rightarrow> Some (True, buf)
           | Some h \<Rightarrow>
               if b_len buf < hc_size h then Some (False, buf)
               else do { bp \<leftarrow> buf_bptr buf;
                         msg \<leftarrow> buf_load buf (bp + hc_size h) (buf_len buf - hc_size h);
                         mac \<leftarrow> buf_load buf bp (hc_size h);
                         if take (nat (hc_size h)) (hc_hmac h msg) \<noteq> mac then Some (False, buf)
                         else do { let (ok, b) = buf_advance buf (hc_size h); ASSERT ok; Some (True, b) } });
        if \<not> auth then Some (decrypt_error buf1 opt)
        else do {
          (res, buf2) \<leftarrow>
            (case kc_cipher ctx of
               Some cipher \<Rightarrow>
                 do { let iv_size = cc_iv_length cipher;
                      let (ok, work0) = buf_init work (FRAME_HEADROOM_ADJ frame FRAME_HEADROOM_MARKER_DECRYPT);
                      ASSERT ok;
                      if b_len buf1 < iv_size then Some (None, buf1)
                      else do { bp \<leftarrow> buf_bptr buf1;
                                iv \<leftarrow> buf_load buf1 bp iv_size;
                                let (ok2, buf2) = buf_advance buf1 iv_size;
                                ASSERT ok2;
                                if b_len buf2 < 1 \<or> \<not> cc_reset cipher iv \<or>
                                   \<not> buf_safe work0 (b_len buf2 + cc_block_size cipher)
                                then Some (None, buf2)
                                else do {
                                  input \<leftarrow> buf_bytes buf2;
                                  case cc_update cipher iv [] input of
                                    None \<Rightarrow> Some (None, buf2)
                                  | Some out1 \<Rightarrow>
                                      do { place \<leftarrow> buf_bptr work0;
                                           work1 \<leftarrow> cipher_output work0 place out1;
                                           case cc_final cipher iv [] input of
                                             None \<Rightarrow> Some (None, buf2)
                                           | Some out2 \<Rightarrow>
                                               do { work2 \<leftarrow> cipher_output work1 (place + int (length out1)) out2;
                                                    if cipher_kt_mode_cbc (Some cipher)
                                                    then if packet_id_initialized pid
                                                         then do { (ok3, pin, work3) \<leftarrow> packet_id_read work2 lf;
                                                                   Some (if ok3 then Some (work3, Some pin) else None, buf2) }
                                                         else Some (Some (work2, None), buf2)
                                                    else if cipher_kt_mode_ofb_cfb (Some cipher)
                                                    then do { ASSERT (packet_id_initialized pid);
                                                              b \<leftarrow> buf_set_read (Some iv) iv_size;
                                                              (ok3, pin, _) \<leftarrow> packet_id_read b True;
                                                              Some (if ok3 then Some (work2, Some pin) else None, buf2) }
                                                    else None } } } } }
             | None \<Rightarrow>
                 if packet_id_initialized pid
                 then do { (ok, pin, work1) \<leftarrow> packet_id_read buf1 lf;
                           Some (if ok then Some (work1, if co_flags opt AND CO_IGNORE_PACKET_ID \<noteq> 0 then None else Some pin)
                                 else None, buf1) }
                 else Some (Some (buf1, None), buf1));
          case res of
            None \<Rightarrow> Some (decrypt_error buf2 opt)
          | Some (work3, None) \<Rightarrow> Some (True, work3, opt)
          | Some (work3, Some pin) \<Rightarrow>
              do { (fresh, opt1) \<leftarrow> co_check_replay opt pin now;
                   if fresh then Some (True, work3, opt1) else Some (decrypt_error buf2 opt1) } } }
      else Some (True, buf, opt))"

definition openvpn_decrypt ::
  "buffer \<Rightarrow> buffer \<Rightarrow> crypto_options option \<Rightarrow> frame \<Rightarrow> int \<Rightarrow> int \<Rightarrow>
   (bool \<times> buffer \<times> crypto_options option) option" where
  "openvpn_decrypt buf work opt frame ad_start now =
     (case opt of
        Some o1 \<Rightarrow>
          if b_len buf > 0
          then do { (ok, b, o2) \<leftarrow> (if cipher_kt_mode_aead (kc_cipher (co_decrypt o1))
                                   then openvpn_decrypt_aead buf work o1 frame ad_start now
                                   else openvpn_decrypt_v1 buf work o1 frame now);
                    Some (ok, b, Some o2) }
          else Some (True, buf, opt)
      | None \<Rightarrow> Some (True, buf, opt))"

end
