(* ===== verification/CryptoSeal.thy ===== *)
theory CryptoSeal
  imports Crypto
begin

text \<open>
  What the packets of \<open>Crypto\<close> look like: octet strings made from a header, a packet identifier and a
  payload; and that opening undoes sealing in the AEAD modes.
\<close>

section \<open>Places in a buffer\<close>

lemma buf_load_content:
  assumes "buf_ok b" "buf_content b = A @ X @ B" "p = b_offset b + int (length A)" "n = int (length X)"
  shows "buf_load b p n = Some X"
proof -
  obtain d where d: "b_data b = Some d" "int (length d) = b_capacity b" "0 \<le> b_offset b"
    "0 \<le> b_len b" "b_offset b + b_len b \<le> int (length d)"
    using assms(1) by (rule buf_okE)
  have len: "int (length A + length X + length B) = b_len b"
    using length_buf_content [OF assms(1)] assms(2) by simp
  have "take (nat (b_len b)) (drop (nat (b_offset b)) d) = A @ X @ B"
    using assms(2) d(1) by (simp add: buf_content_def)
  then have "take (length X) (drop (length A) (take (nat (b_len b)) (drop (nat (b_offset b)) d))) = X" by simp
  moreover have "nat p = length A + nat (b_offset b)" using assms(3) d(3) by simp
  moreover have "length X \<le> nat (b_len b) - length A" using len by linarith
  ultimately have "take (length X) (drop (nat p) d) = X" by (simp add: drop_take min_absorb1)
  then show ?thesis using assms(3,4) d len by (simp add: buf_load_def mem_read_Some)
qed

lemma buf_store_inside:
  assumes "buf_ok b" "buf_content b = A @ X @ B" "p = b_offset b + int (length A)" "length T = length X"
  obtains b' where "buf_store b p T = Some b'" "buf_ok b'" "buf_content b' = A @ T @ B"
    "b_offset b' = b_offset b" "b_len b' = b_len b" "b_capacity b' = b_capacity b"
proof -
  obtain d where d: "b_data b = Some d" "int (length d) = b_capacity b" "0 \<le> b_offset b"
    "0 \<le> b_len b" "b_offset b + b_len b \<le> int (length d)" "b_capacity b < BUF_SIZE_MAX"
    using assms(1) by (rule buf_okE)
  have len: "int (length A + length X + length B) = b_len b"
    using length_buf_content [OF assms(1)] assms(2) by simp
  obtain o' l where ol: "b_offset b = int o'" "b_len b = int l"
    using d(3,4) nonneg_eq_int by metis
  have c: "take l (drop o' d) = A @ X @ B"
    using assms(2) d(1) ol by (simp add: buf_content_def)
  have l: "l = length A + length X + length B" using len ol by simp
  have "d = take o' d @ take l (drop o' d) @ drop (o' + l) d"
    by (metis append_take_drop_id drop_drop add.commute)
  then obtain P Q where PQ: "d = P @ (A @ X @ B) @ Q" "length P = o'"
    using c d(5) ol d(2) by (metis length_take min.absorb2 of_nat_le_iff le_add1 le_trans of_nat_add)
  have np: "nat p = o' + length A" using assms(3) ol by simp
  have w: "mem_write d p T = Some (P @ (A @ T @ B) @ Q)"
    using PQ np assms(3,4) ol by (simp add: mem_write_def)
  define b' where "b' = b\<lparr>b_data := Some (P @ (A @ T @ B) @ Q)\<rparr>"
  show thesis
  proof (rule that)
    show "buf_store b p T = Some b'" using d(1) w by (simp add: buf_store_def b'_def)
    show "buf_ok b'" using d PQ assms(4) by (simp add: buf_ok_def b'_def)
    show "buf_content b' = A @ T @ B" using ol PQ(2) l assms(4) by (simp add: buf_content_def b'_def)
  qed (simp_all add: b'_def)
qed

lemma buf_bend_ok [simp]: "buf_ok b \<Longrightarrow> buf_bend b = Some (b_offset b + b_len b)"
  by (simp add: buf_bend_def length_buf_content)

lemma buf_safe_ok: "buf_ok b \<Longrightarrow> buf_safe b n \<longleftrightarrow> 0 \<le> n \<and> n \<le> buf_room b"
  using buf_ok_bounds [of b] by (auto simp: buf_safe_def buf_size_valid_def buf_room_def)

text \<open>Space taken at the end is an appended string, of which nothing but the length is known.\<close>

lemma buf_write_alloc_ok:
  assumes "buf_ok b" "0 \<le> n" "n \<le> buf_room b"
  obtains xs b' where "buf_write_alloc b n = (Some (b_offset b + b_len b), b')" "int (length xs) = n"
    "buf_ok b'" "buf_content b' = buf_content b @ xs" "b_offset b' = b_offset b" "b_len b' = b_len b + n"
    "b_capacity b' = b_capacity b" "buf_room b' = buf_room b - n"
proof -
  obtain d where d: "b_data b = Some d" "int (length d) = b_capacity b" "0 \<le> b_offset b"
    "0 \<le> b_len b" "b_offset b + b_len b \<le> int (length d)" "b_capacity b < BUF_SIZE_MAX" "buf_valid b"
    using assms(1) by (rule buf_okE)
  let ?xs = "take (nat n) (drop (nat (b_offset b + b_len b)) d)" and ?b = "b\<lparr>b_len := b_len b + n\<rparr>"
  have fits: "b_offset b + b_len b + n \<le> int (length d)" using assms(3) d(2) by (simp add: buf_room_def)
  show thesis
  proof (rule that)
    show "buf_write_alloc b n = (Some (b_offset b + b_len b), ?b)"
      using d assms by (simp add: buf_write_alloc_def buf_safe_ok)
    show "int (length ?xs) = n" using fits d assms(2) by simp
    show "buf_ok ?b" using d fits assms(2) by (simp add: buf_ok_def)
    have "nat (b_len b + n) = nat (b_len b) + nat n" using d(4) assms(2) by (simp add: nat_add_distrib)
    moreover have "nat (b_offset b + b_len b) = nat (b_len b) + nat (b_offset b)" using d(3,4) by (simp add: nat_add_distrib)
    ultimately show "buf_content ?b = buf_content b @ ?xs"
      using d(1) by (simp add: buf_content_def take_add)
  qed (simp_all add: buf_room_def)
qed

lemma cipher_output_ok:
  assumes "buf_ok b" "int (length xs) \<le> buf_room b"
  shows "cipher_output b (b_offset b + b_len b) xs = Some (buf_append b xs)"
proof -
  obtain d where d: "b_data b = Some d" "int (length d) = b_capacity b" "0 \<le> b_offset b"
    "0 \<le> b_len b" "b_offset b + b_len b \<le> int (length d)" "b_capacity b < BUF_SIZE_MAX" "buf_valid b"
    using assms(1) by (rule buf_okE)
  have fits: "b_offset b + b_len b + int (length xs) \<le> int (length d)" using assms(2) d(2) by (simp add: buf_room_def)
  then show ?thesis
    using d by (simp add: cipher_output_def buf_store_def mem_write_Some buf_inc_len_def buf_safe_bidir_def
        buf_valid_def buf_size_valid_signed_def BUF_SIZE_MAX_def buf_append_def Let_def)
qed

lemma buf_init_empty:
  assumes "buf_ok b" "0 \<le> n" "n \<le> b_capacity b"
  shows "buf_init b n = (True, b\<lparr>b_len := 0, b_offset := n\<rparr>)" "buf_ok (b\<lparr>b_len := 0, b_offset := n\<rparr>)"
    "buf_content (b\<lparr>b_len := 0, b_offset := n\<rparr>) = []" "buf_room (b\<lparr>b_len := 0, b_offset := n\<rparr>) = b_capacity b - n"
  using assms by (auto simp: buf_init_def buf_ok_def buf_content_def buf_room_def split: option.splits)

lemma buf_set_write_ok:
  assumes "int (length z) = n" "0 \<le> n" "n < BUF_SIZE_MAX"
  obtains b where "buf_set_write (Some z) n = Some b" "buf_ok b" "buf_content b = []" "buf_room b = n" "b_offset b = 0"
proof -
  define m where "m = (if n > 0 then 0 # drop 1 z else z)"
  define b where "b = \<lparr>b_capacity = n, b_offset = 0, b_len = 0, b_data = Some m\<rparr>"
  have "int (length m) = n" using assms(1,2) by (simp add: m_def)
  then show thesis
    using that [of b] assms by (simp add: buf_set_write_def buf_size_valid_def mem_write_def b_def m_def buf_ok_def
        buf_content_def buf_room_def)
qed

section \<open>Two ends with one key\<close>

text \<open>The whole output of a cipher for an input.\<close>

definition cipher_seal :: "cipher_ctx \<Rightarrow> bytes \<Rightarrow> bytes \<Rightarrow> bytes \<Rightarrow> bytes option" where
  "cipher_seal e iv ad p = do { c1 \<leftarrow> cc_update e iv ad p; c2 \<leftarrow> cc_final e iv ad p; Some (c1 @ c2) }"

definition cipher_open :: "cipher_ctx \<Rightarrow> bytes \<Rightarrow> bytes \<Rightarrow> bytes option" where
  "cipher_open d iv c = do { p1 \<leftarrow> cc_update d iv [] c; p2 \<leftarrow> cc_final d iv [] c; Some (p1 @ p2) }"

definition cipher_open_tag :: "cipher_ctx \<Rightarrow> bytes \<Rightarrow> bytes \<Rightarrow> bytes \<Rightarrow> bytes \<Rightarrow> bytes option" where
  "cipher_open_tag d iv ad c t =
     do { p1 \<leftarrow> cc_update d iv ad c; p2 \<leftarrow> cc_final_check_tag d iv ad c t; Some (p1 @ p2) }"

text \<open>What a cipher promises about its sizes: the output exceeds the input by at most a block.\<close>

definition cipher_sizes :: "cipher_ctx \<Rightarrow> bool" where
  "cipher_sizes c \<longleftrightarrow> 0 < cc_block_size c \<and> cc_block_size c \<le> OPENVPN_MAX_CIPHER_BLOCK_SIZE \<and>
     0 < cc_iv_length c \<and> cc_iv_length c \<le> OPENVPN_MAX_IV_LENGTH \<and>
     (\<forall>iv ad p o1 o2. cc_update c iv ad p = Some o1 \<longrightarrow>
        int (length o1) \<le> int (length p) + cc_block_size c \<and>
        (cc_final c iv ad p = Some o2 \<longrightarrow> int (length (o1 @ o2)) \<le> int (length p) + cc_block_size c) \<and>
        (\<forall>t. cc_final_check_tag c iv ad p t = Some o2 \<longrightarrow> int (length (o1 @ o2)) \<le> int (length p) + cc_block_size c))"

lemma cipher_sizesD:
  assumes "cipher_sizes c" "cc_update c iv ad p = Some o1"
  shows "int (length o1) \<le> int (length p) + cc_block_size c"
    "cc_final c iv ad p = Some o2 \<Longrightarrow> int (length (o1 @ o2)) \<le> int (length p) + cc_block_size c"
    "cc_final_check_tag c iv ad p t = Some o2 \<Longrightarrow> int (length (o1 @ o2)) \<le> int (length p) + cc_block_size c"
  using assms unfolding cipher_sizes_def by blast+

text \<open>The two directions of an AEAD key: the tag that sealing makes, and only that, opens the packet again.\<close>

definition aead_pair :: "cipher_ctx \<Rightarrow> cipher_ctx \<Rightarrow> bool" where
  "aead_pair e d \<longleftrightarrow> cc_mode e = OPENVPN_MODE_AEAD \<and> cc_mode d = OPENVPN_MODE_AEAD \<and>
     cc_iv_length e = cc_iv_length d \<and> OPENVPN_AEAD_MIN_IV_LEN \<le> cc_iv_length e \<and> cipher_sizes e \<and> cipher_sizes d \<and>
     (\<forall>iv. int (length iv) = cc_iv_length e \<longrightarrow> cc_reset e iv \<and> cc_reset d iv) \<and>
     (\<forall>iv ad p. \<exists>c t. cipher_seal e iv ad p = Some c \<and> cc_get_tag e iv ad p = Some t \<and>
        int (length t) = OPENVPN_AEAD_TAG_LENGTH \<and> length c = length p) \<and>
     (\<forall>iv ad p c t. cipher_open_tag d iv ad c t = Some p \<longleftrightarrow>
        cipher_seal e iv ad p = Some c \<and> cc_get_tag e iv ad p = Some t)"

lemma aead_pairD:
  assumes "aead_pair e d"
  shows "cc_mode e = OPENVPN_MODE_AEAD" "cc_mode d = OPENVPN_MODE_AEAD" "cc_iv_length d = cc_iv_length e"
    "OPENVPN_AEAD_MIN_IV_LEN \<le> cc_iv_length e" "cipher_sizes e" "cipher_sizes d"
    "int (length iv) = cc_iv_length e \<Longrightarrow> cc_reset e iv \<and> cc_reset d iv"
    "\<exists>c t. cipher_seal e iv ad p = Some c \<and> cc_get_tag e iv ad p = Some t \<and>
       int (length t) = OPENVPN_AEAD_TAG_LENGTH \<and> length c = length p"
    "cipher_open_tag d iv ad c t = Some p \<longleftrightarrow> cipher_seal e iv ad p = Some c \<and> cc_get_tag e iv ad p = Some t"
proof -
  note pair = assms [unfolded aead_pair_def]
  show "cc_mode e = OPENVPN_MODE_AEAD" "cc_mode d = OPENVPN_MODE_AEAD" "cc_iv_length d = cc_iv_length e"
    "OPENVPN_AEAD_MIN_IV_LEN \<le> cc_iv_length e" "cipher_sizes e" "cipher_sizes d"
    using pair by (elim conjE; simp only:)+
  show "int (length iv) = cc_iv_length e \<Longrightarrow> cc_reset e iv \<and> cc_reset d iv"
    using pair by (elim conjE) (erule allE, erule mp)
  show "\<exists>c t. cipher_seal e iv ad p = Some c \<and> cc_get_tag e iv ad p = Some t \<and>
       int (length t) = OPENVPN_AEAD_TAG_LENGTH \<and> length c = length p"
    using pair by (elim conjE) (drule spec, drule spec, drule spec, assumption)
  show "cipher_open_tag d iv ad c t = Some p \<longleftrightarrow> cipher_seal e iv ad p = Some c \<and> cc_get_tag e iv ad p = Some t"
    using pair by (elim conjE) (simp only:)
qed

text \<open>The implicit vectors that both ends derive from the key exchange.\<close>

definition implicit_ok :: "key_ctx \<Rightarrow> cipher_ctx \<Rightarrow> bool" where
  "implicit_ok k c \<longleftrightarrow> kc_cipher k = Some c \<and> int (length (kc_implicit_iv k)) = OPENVPN_MAX_IV_LENGTH \<and>
     kc_implicit_iv_len k = cc_iv_length c - 4"

definition implicit_iv :: "key_ctx \<Rightarrow> bytes" where
  "implicit_iv k = take (nat (kc_implicit_iv_len k)) (kc_implicit_iv k)"

text \<open>The packet on the wire: the header and the number are authenticated, the payload is encrypted.\<close>

definition aead_packet :: "key_ctx \<Rightarrow> bytes \<Rightarrow> packet_id_type \<Rightarrow> bytes \<Rightarrow> bytes option" where
  "aead_packet k hdr i p =
     do { e \<leftarrow> kc_cipher k;
          let iv = u32_bytes i @ implicit_iv k;
          c \<leftarrow> cipher_seal e iv (hdr @ u32_bytes i) p;
          t \<leftarrow> cc_get_tag e iv (hdr @ u32_bytes i) p;
          Some (hdr @ u32_bytes i @ t @ c) }"

lemma openvpn_encrypt_aead_ok:
  assumes pair: "aead_pair e d" and k: "implicit_ok (co_encrypt opt) e"
    and ok: "buf_ok buf" "buf_ok work" and init: "packet_id_initialized (co_packet_id opt)"
    and send: "packet_id_send_update (p_send (co_packet_id opt)) False now = (True, s')"
    and room: "4 + OPENVPN_AEAD_TAG_LENGTH + b_len buf + cc_block_size e \<le> buf_room work"
  shows "\<exists>b'. openvpn_encrypt_aead buf work opt now = Some (b', co_set_send opt s') \<and> buf_ok b' \<and>
    aead_packet (co_encrypt opt) (buf_content work) (s_id s') (buf_content buf) = Some (buf_content b') \<and>
    b_offset b' = b_offset work \<and> b_capacity b' = b_capacity work"
proof -
  let ?k = "co_encrypt opt" and ?hdr = "buf_content work" and ?p = "buf_content buf" and ?n = "u32_bytes (s_id s')"
  let ?il = "kc_implicit_iv_len ?k" and ?ivl = "cc_iv_length e" and ?tl = OPENVPN_AEAD_TAG_LENGTH
  let ?iv = "?n @ implicit_iv ?k" and ?ad = "?hdr @ ?n"
  have ke: "kc_cipher ?k = Some e" and il: "?il = ?ivl - 4" "int (length (kc_implicit_iv ?k)) = OPENVPN_MAX_IV_LENGTH"
    using k by (simp_all add: implicit_ok_def)
  have e: "cc_mode e = OPENVPN_MODE_AEAD" "OPENVPN_AEAD_MIN_IV_LEN \<le> ?ivl" "cipher_sizes e"
    "\<And>iv. int (length iv) = ?ivl \<Longrightarrow> cc_reset e iv"
    using aead_pairD [OF pair] by simp_all
  have bs: "0 < cc_block_size e" "?ivl \<le> OPENVPN_MAX_IV_LENGTH" using e(3) by (auto simp: cipher_sizes_def)
  note num = OPENVPN_AEAD_MIN_IV_LEN_def OPENVPN_MAX_IV_LENGTH_def OPENVPN_AEAD_TAG_LENGTH_def
  have ivb: "4 \<le> ?ivl" "?ivl \<le> 16" using e(2) bs(2) by (simp_all add: num)
  have imp: "int (length (implicit_iv ?k)) = ?il" "mem_read (kc_implicit_iv ?k) 0 ?il = Some (implicit_iv ?k)"
    using il ivb by (simp_all add: implicit_iv_def mem_read_def num)
  define z :: bytes where "z = replicate (nat ?ivl) 0"
  have z: "iv_array ?ivl = Some z" using ivb by (simp add: iv_array_def z_def num)
  obtain v0 where v0: "buf_set_write (Some z) ?ivl = Some v0" "buf_ok v0" "buf_content v0 = []" "buf_room v0 = ?ivl"
    "b_offset v0 = 0"
    by (rule buf_set_write_ok [of z ?ivl]) (use ivb in \<open>auto simp: z_def BUF_SIZE_MAX_def\<close>)
  obtain v1 where v1: "packet_id_write (p_send (co_packet_id opt)) v0 False False now = Some (True, s', v1)" "buf_ok v1"
    "buf_content v1 = ?n" "buf_room v1 = ?il" "b_offset v1 = 0"
    using packet_id_write_append [OF v0(2) _ send] v0(3-5) ivb il(1)
    by (auto simp: packet_id_size_def pid_wire_bytes_def)
  define v2 where "v2 = buf_append v1 (implicit_iv ?k)"
  have v2: "buf_write v1 (implicit_iv ?k) = Some (True, v2)" "buf_ok v2" "buf_content v2 = ?iv" "b_offset v2 = 0" "b_len v2 = ?ivl"
    using v1 imp(1) il(1) length_buf_content [OF v1(2)] by (simp_all add: v2_def buf_write_ok)
  have ld: "buf_load v2 0 (?ivl - ?il) = Some ?n" "buf_load v2 0 ?ivl = Some ?iv"
    using buf_load_content [OF v2(2), of "[]" ?n "implicit_iv ?k" 0 4] buf_load_content [OF v2(2), of "[]" ?iv "[]" 0 ?ivl]
      v2(3,4) il(1) imp(1) by simp_all
  have wl: "int (length ?n) = 4" by simp
  define w1 where "w1 = buf_append work ?n"
  have w1: "buf_write work ?n = Some (True, w1)" "buf_ok w1" "buf_content w1 = ?ad" "b_offset w1 = b_offset work"
    "buf_room w1 = buf_room work - 4" "b_capacity w1 = b_capacity work"
    using room ok length_buf_content [OF ok(1)] bs by (simp_all add: w1_def buf_write_ok num)
  obtain gap w2 where w2: "buf_write_alloc w1 ?tl = (Some (b_offset w1 + b_len w1), w2)" "int (length gap) = ?tl"
    "buf_ok w2" "buf_content w2 = buf_content w1 @ gap" "b_offset w2 = b_offset w1" "b_len w2 = b_len w1 + ?tl"
    "b_capacity w2 = b_capacity w1" "buf_room w2 = buf_room w1 - ?tl"
    by (rule buf_write_alloc_ok [of w1 ?tl]) (use w1 room bs length_buf_content [OF ok(1)] in \<open>auto simp: num\<close>)
  obtain c t where ct: "cipher_seal e ?iv ?ad ?p = Some c" "cc_get_tag e ?iv ?ad ?p = Some t" "int (length t) = ?tl"
    using aead_pairD(8) [OF pair] by metis
  then obtain c1 c2 where c: "cc_update e ?iv ?ad ?p = Some c1" "cc_final e ?iv ?ad ?p = Some c2" "c = c1 @ c2"
    by (auto simp: cipher_seal_def bind_eq_Some_conv)
  have cl: "int (length (c1 @ c2)) \<le> b_len buf + cc_block_size e"
    using cipher_sizesD(2) [OF e(3) c(1,2)] length_buf_content [OF ok(1)] by simp
  have l1: "int (length c1) \<le> buf_room w2" "int (length c1) + int (length c2) \<le> buf_room w2"
    using cl room w1(5) w2(8) by (simp_all add: num)
  define w3 where "w3 = buf_append w2 c1"
  have w3: "cipher_output w2 (b_offset w2 + b_len w2) c1 = Some w3" "buf_ok w3" "buf_content w3 = buf_content w2 @ c1"
    "b_offset w3 = b_offset w2" "buf_room w3 = buf_room w2 - int (length c1)" "b_capacity w3 = b_capacity w2"
    using cipher_output_ok [OF w2(3) l1(1)] w2(3) l1(1) by (simp_all add: w3_def)
  define w4 where "w4 = buf_append w3 c2"
  have w4: "cipher_output w3 (b_offset w3 + b_len w3) c2 = Some w4" "buf_ok w4" "buf_content w4 = buf_content w3 @ c2"
    "b_offset w4 = b_offset w3" "b_capacity w4 = b_capacity w3"
    using cipher_output_ok [OF w3(2), of c2] w3(2,5) l1(2) by (simp_all add: w4_def)
  obtain w5 where w5: "buf_store w4 (b_offset w1 + b_len w1) t = Some w5" "buf_ok w5" "buf_content w5 = ?ad @ t @ c1 @ c2"
    "b_offset w5 = b_offset w4" "b_capacity w5 = b_capacity w4"
    by (rule buf_store_inside [OF w4(2), of ?ad gap "c1 @ c2" "b_offset w1 + b_len w1" t])
      (use w1(2,3) w2 w3 w4 ct(3) length_buf_content [OF w1(2)] in auto)
  have safe: "buf_safe w2 (b_len buf + cc_block_size e)"
    using buf_safe_ok [OF w2(3)] room w1(5) w2(8) bs buf_ok_bounds [OF ok(1)] by (simp add: num)
  have ad: "buf_load w2 (b_offset w2) (buf_len w2 - ?tl) = Some ?ad"
    by (rule buf_load_content [of w2 "[]" ?ad gap]) (use w1 w2 in auto)
  have tag: "cipher_kt_tag_size (Some e) = ?tl" "cipher_kt_mode_aead (Some e)"
    using e(1) by (simp_all add: cipher_kt_tag_size_def cipher_kt_mode_aead_def)
  have tt: "take (nat ?tl) t = t" using ct(3) by simp
  have "openvpn_encrypt_aead buf work opt now = Some (w5, co_set_send opt s')"
    unfolding openvpn_encrypt_aead_def Let_def ke tag
    using init e(2,4) bs(2) z v0(1) v1(1) v2 imp ld il w1(1) w2(1,3) safe ad ok(1) c(1,2) w3(1,2) w4(1,2) ct(2) tt w5(1) ivb
    by (simp add: tag)
  moreover have "aead_packet ?k ?hdr (s_id s') ?p = Some (buf_content w5)"
    using ke ct(1,2) c(3) w5(3) by (simp add: aead_packet_def)
  ultimately show ?thesis using w5 w4(4,5) w3(4,6) w2(5,7) w1(4,6) by auto
qed

section \<open>Opening a packet\<close>

text \<open>What opening makes of the octets behind the header: the number and the payload, or nothing.\<close>

definition aead_open :: "key_ctx \<Rightarrow> bytes \<Rightarrow> bytes \<Rightarrow> (packet_id_type \<times> bytes) option" where
  "aead_open k hdr w =
     (if length w < 21 then None
      else do { d \<leftarrow> kc_cipher k;
                p \<leftarrow> cipher_open_tag d (take 4 w @ implicit_iv k) (hdr @ take 4 w) (drop 20 w) (take 16 (drop 4 w));
                Some (bytes_u32 (take 4 w), p) })"

lemma packet_id_read_short:
  assumes "buf_ok b" "4 \<le> b_len b"
  shows "packet_id_read b False = Some (True, \<lparr>n_id = bytes_u32 (take 4 (buf_content b)), n_time = 0\<rparr>, buf_drop b 4)"
  using assms by (simp add: packet_id_read_def buf_read_ok)

lemma openvpn_decrypt_aead_eq:
  assumes pair: "aead_pair e d" and k: "implicit_ok (co_decrypt opt) d"
    and full: "buf_ok full" "buf_content full = hdr @ w" "w \<noteq> []" and init: "packet_id_initialized (co_packet_id opt)"
    and work: "buf_ok work" "0 \<le> H" "H + int (length w) + cc_block_size d \<le> b_capacity work"
    and H: "H = FRAME_HEADROOM_ADJ frame FRAME_HEADROOM_MARKER_DECRYPT"
  shows "\<exists>b0 b1. openvpn_decrypt_aead (buf_drop full (int (length hdr))) work opt frame (b_offset full) now =
      (case aead_open (co_decrypt opt) hdr w of
         None \<Rightarrow> Some (decrypt_error b0 opt)
       | Some (i, p) \<Rightarrow> do { (fresh, opt1) \<leftarrow> co_check_replay opt \<lparr>n_id = i, n_time = 0\<rparr> now;
                            if fresh then Some (True, b1, opt1) else Some (decrypt_error b0 opt1) }) \<and>
      (\<forall>i p. aead_open (co_decrypt opt) hdr w = Some (i, p) \<longrightarrow> buf_ok b1 \<and> buf_content b1 = p)"
proof -
  let ?k = "co_decrypt opt" and ?buf = "buf_drop full (int (length hdr))"
  let ?il = "kc_implicit_iv_len ?k" and ?ivl = "cc_iv_length d" and ?tl = OPENVPN_AEAD_TAG_LENGTH
  note num = OPENVPN_AEAD_MIN_IV_LEN_def OPENVPN_MAX_IV_LENGTH_def OPENVPN_AEAD_TAG_LENGTH_def
  note P = aead_pairD [OF pair]
  have kd: "kc_cipher ?k = Some d" and il: "?il = ?ivl - 4" "int (length (kc_implicit_iv ?k)) = OPENVPN_MAX_IV_LENGTH"
    using k by (simp_all add: implicit_ok_def)
  have bs: "0 < cc_block_size d" "?ivl \<le> OPENVPN_MAX_IV_LENGTH" using P(6) by (simp_all add: cipher_sizes_def)
  have ivb: "12 \<le> ?ivl" "?ivl \<le> 16" using P(3,4) bs(2) by (simp_all add: num)
  have imp: "int (length (implicit_iv ?k)) = ?il" "mem_read (kc_implicit_iv ?k) 0 ?il = Some (implicit_iv ?k)"
    using il ivb by (simp_all add: implicit_iv_def mem_read_def num)
  have fl: "b_len full = int (length hdr) + int (length w)" using length_buf_content [OF full(1)] full(2) by simp
  have buf: "buf_ok ?buf" "buf_content ?buf = w" "b_offset ?buf = b_offset full + int (length hdr)"
    "b_len ?buf = int (length w)"
    using full fl by simp_all
  have tag: "cipher_kt_tag_size (Some d) = ?tl" "cipher_kt_mode_aead (Some d)"
    using P(2) by (simp_all add: cipher_kt_tag_size_def cipher_kt_mode_aead_def)
  define work0 where "work0 = work\<lparr>b_len := 0, b_offset := H\<rparr>"
  have w0: "buf_init work H = (True, work0)" "buf_ok work0" "buf_content work0 = []" "buf_room work0 = b_capacity work - H"
    "b_offset work0 = H" "b_len work0 = 0"
    using buf_init_empty [OF work(1,2)] work(3) bs(1) by (simp_all add: work0_def)
  have pre: "0 \<le> b_offset full" "0 < b_len ?buf" "b_offset full \<le> b_offset ?buf"
    using buf_ok_bounds [OF full(1)] full(3) buf(3,4) by simp_all
  note start = openvpn_decrypt_aead_def Let_def kd tag H [symmetric] w0(1)
  show ?thesis
  proof (cases "length w < 4")
    case True
    then have "openvpn_decrypt_aead ?buf work opt frame (b_offset full) now = Some (decrypt_error ?buf opt)"
      unfolding start using pre buf il init ivb by (simp add: tag)
    then show ?thesis using True by (auto simp: aead_open_def)
  next
    case l4: False
    let ?n = "take 4 w" and ?i = "bytes_u32 (take 4 w)"
    let ?iv = "?n @ implicit_iv ?k" and ?ad = "hdr @ ?n"
    define b1 where "b1 = buf_drop ?buf 4"
    have b1: "packet_id_read ?buf False = Some (True, \<lparr>n_id = ?i, n_time = 0\<rparr>, b1)" "buf_ok b1" "b_len b1 = int (length w) - 4"
      "b_offset b1 = b_offset full + int (length hdr) + 4" "buf_content b1 = drop 4 w"
      using packet_id_read_short [OF buf(1)] buf l4 by (simp_all add: b1_def)
    have ld: "buf_load ?buf (b_offset full + int (length hdr)) (?ivl - ?il) = Some ?n"
      using buf_load_content [OF buf(1), of "[]" ?n "drop 4 w"] buf l4 il(1) by simp
    have rs: "cc_reset d ?iv" using P(3) P(7) [of ?iv] imp(1) il(1) l4 by simp
    note step1 = start pre buf il(1) init ivb ld imp(2) rs b1 l4
    show ?thesis
    proof (cases "length w < 20")
      case True
      then have "openvpn_decrypt_aead ?buf work opt frame (b_offset full) now = Some (decrypt_error b1 opt)"
        unfolding start using pre buf il(1) init ivb ld imp(2) rs b1 l4 by (simp add: tag num)
      then show ?thesis using True by (auto simp: aead_open_def)
    next
      case l20: False
      define b2 where "b2 = buf_drop b1 ?tl"
      have b2: "buf_advance b1 ?tl = (True, b2)" "buf_ok b2" "b_len b2 = int (length w) - 20"
        "b_offset b2 = b_offset full + int (length hdr) + 20" "buf_content b2 = drop 20 w"
        using b1 l20 by (simp_all add: b2_def buf_advance_ok num)
      show ?thesis
      proof (cases "length w = 20")
        case True
        then have "openvpn_decrypt_aead ?buf work opt frame (b_offset full) now = Some (decrypt_error b2 opt)"
          unfolding start using pre buf il(1) init ivb ld imp(2) rs b1 b2 l4 by (simp add: tag num)
        then show ?thesis using True by (auto simp: aead_open_def)
      next
        case False
        with l20 have l21: "21 \<le> length w" by simp
        let ?t = "take 16 (drop 4 w)" and ?c = "drop 20 w"
        have same: "buf_load b2 x n = buf_load full x n" for x n by (simp add: buf_load_def b1_def b2_def buf_drop_def)
        have "?t @ drop 16 (drop 4 w) = drop 4 w" by (rule append_take_drop_id)
        then have "?t @ ?c = drop 4 w" by simp
        then have w4: "w = ?n @ ?t @ ?c" by simp
        have ld2: "buf_load b2 (b_offset full) (b_offset b2 - b_offset full - ?tl) = Some ?ad"
          "buf_load b2 (b_offset b1) ?tl = Some ?t"
          using buf_load_content [OF full(1), of "[]" ?ad "?t @ ?c" "b_offset full" "4 + int (length hdr)"]
            buf_load_content [OF full(1), of ?ad ?t ?c "b_offset b1" ?tl] full(2) w4 l21 b1(4) b2(4)
          by (simp_all add: same num)
        have safe: "buf_safe work0 (b_len b2 + cc_block_size d)"
          using buf_safe_ok [OF w0(2)] w0(4) work(3) b2(3) bs(1) l21 by simp
        note step2 = pre buf il(1) init ivb ld imp(2) rs b1 b2 l4 ld2 safe
        show ?thesis
        proof (cases "cc_update d ?iv ?ad ?c")
          case None
          then have "openvpn_decrypt_aead ?buf work opt frame (b_offset full) now = Some (decrypt_error b2 opt)"
            unfolding start using step2 l21 by (simp add: tag num)
          then show ?thesis using None l21 kd by (auto simp: aead_open_def cipher_open_tag_def)
        next
          case (Some o1)
          have o1: "int (length o1) \<le> buf_room work0"
            using cipher_sizesD(1) [OF P(6) Some] w0(4) work(3) l21 by simp
          define w1 where "w1 = buf_append work0 o1"
          have w1: "cipher_output work0 (b_offset work0) o1 = Some w1" "buf_ok w1" "buf_content w1 = o1"
            "b_offset w1 = H" "buf_room w1 = buf_room work0 - int (length o1)" "b_len w1 = int (length o1)"
            using cipher_output_ok [OF w0(2) o1] w0 o1 by (simp_all add: w1_def)
          show ?thesis
          proof (cases "cc_final_check_tag d ?iv ?ad ?c ?t")
            case None
            then have "openvpn_decrypt_aead ?buf work opt frame (b_offset full) now = Some (decrypt_error b2 opt)"
              unfolding start using step2 l21 Some w0(2) w1(1) by (simp add: tag num)
            then show ?thesis using None Some l21 kd by (auto simp: aead_open_def cipher_open_tag_def)
          next
            case fin: (Some o2)
            have o2: "int (length o2) \<le> buf_room w1"
              using cipher_sizesD(3) [OF P(6) Some fin] w0(4) w1(5) work(3) l21 by simp
            define w2 where "w2 = buf_append w1 o2"
            have w2: "cipher_output w1 (H + int (length o1)) o2 = Some w2" "buf_ok w2" "buf_content w2 = o1 @ o2"
              using cipher_output_ok [OF w1(2) o2] w1 o2 by (simp_all add: w2_def)
            have "openvpn_decrypt_aead ?buf work opt frame (b_offset full) now =
                do { (fresh, opt1) \<leftarrow> co_check_replay opt \<lparr>n_id = ?i, n_time = 0\<rparr> now;
                     if fresh then Some (True, w2, opt1) else Some (decrypt_error b2 opt1) }"
              unfolding start using step2 l21 Some fin w0(2,5) w1(1) w2(1) by (simp add: tag num)
            moreover have "aead_open ?k hdr w = Some (?i, o1 @ o2)"
              using Some fin l21 kd by (simp add: aead_open_def cipher_open_tag_def)
            ultimately show ?thesis using w2(2,3) by auto
          qed
        qed
      qed
    qed
  qed
qed

text \<open>Opening accepts exactly the packets that sealing makes.\<close>

lemma aead_open_iff:
  assumes pair: "aead_pair e d" and k: "implicit_ok ke e" "implicit_ok kd d" "implicit_iv ke = implicit_iv kd"
  shows "aead_open kd hdr w = Some (i, p) \<longleftrightarrow> aead_packet ke hdr i p = Some (hdr @ w) \<and> p \<noteq> []"
proof
  have kk: "kc_cipher ke = Some e" "kc_cipher kd = Some d" using k by (simp_all add: implicit_ok_def)
  note P = aead_pairD [OF pair]
  {
    assume o: "aead_open kd hdr w = Some (i, p)"
    then have w: "21 \<le> length w" "i = bytes_u32 (take 4 w)"
      "cipher_open_tag d (take 4 w @ implicit_iv kd) (hdr @ take 4 w) (drop 20 w) (take 16 (drop 4 w)) = Some p"
      using kk by (auto simp: aead_open_def bind_eq_Some_conv split: if_splits)
    have n: "u32_bytes i = take 4 w" using w by (simp add: u32_bytes_bytes_u32)
    have s: "cipher_seal e (u32_bytes i @ implicit_iv ke) (hdr @ u32_bytes i) p = Some (drop 20 w)"
      "cc_get_tag e (u32_bytes i @ implicit_iv ke) (hdr @ u32_bytes i) p = Some (take 16 (drop 4 w))"
      using P(9) w(3) k(3) n by simp_all
    have "take 16 (drop 4 w) @ drop 16 (drop 4 w) = drop 4 w" by (rule append_take_drop_id)
    then have "take 16 (drop 4 w) @ drop 20 w = drop 4 w" by simp
    moreover have "p \<noteq> []" using s(1) P(8) [of "u32_bytes i @ implicit_iv ke" "hdr @ u32_bytes i" p] w(1) by auto
    ultimately show "aead_packet ke hdr i p = Some (hdr @ w) \<and> p \<noteq> []"
      using s kk n by (simp add: aead_packet_def)
  }
  {
    assume s: "aead_packet ke hdr i p = Some (hdr @ w) \<and> p \<noteq> []"
    then obtain c t where ct: "cipher_seal e (u32_bytes i @ implicit_iv ke) (hdr @ u32_bytes i) p = Some c"
      "cc_get_tag e (u32_bytes i @ implicit_iv ke) (hdr @ u32_bytes i) p = Some t" "w = u32_bytes i @ t @ c"
      using kk by (auto simp: aead_packet_def bind_eq_Some_conv Let_def)
    then have l: "length t = 16" "length c = length p"
      using P(8) [of "u32_bytes i @ implicit_iv ke" "hdr @ u32_bytes i" p]
      by (auto simp: OPENVPN_AEAD_TAG_LENGTH_def)
    have "1 \<le> length p" using s by (cases p) simp_all
    then have "21 \<le> length w" using ct(3) l by simp
    moreover have "take 4 w = u32_bytes i" "take 16 (drop 4 w) = t" "drop 20 w = c" using ct(3) l(1) by simp_all
    moreover have "cipher_open_tag d (u32_bytes i @ implicit_iv kd) (hdr @ u32_bytes i) c t = Some p"
      using P(9) ct(1,2) k(3) by simp
    ultimately show "aead_open kd hdr w = Some (i, p)" using kk by (simp add: aead_open_def)
  }
qed

lemma aead_packet_form:
  assumes "aead_pair e d" "implicit_ok ke e" "aead_packet ke hdr i p = Some x"
  obtains w where "x = hdr @ w" "length w = 20 + length p"
proof -
  obtain c t where ct: "cipher_seal e (u32_bytes i @ implicit_iv ke) (hdr @ u32_bytes i) p = Some c"
    "cc_get_tag e (u32_bytes i @ implicit_iv ke) (hdr @ u32_bytes i) p = Some t" "x = hdr @ u32_bytes i @ t @ c"
    using assms(2,3) by (auto simp: aead_packet_def bind_eq_Some_conv Let_def implicit_ok_def)
  then have "length t = 16" "length c = length p"
    using aead_pairD(8) [OF assms(1), of "u32_bytes i @ implicit_iv ke" "hdr @ u32_bytes i" p]
    by (auto simp: OPENVPN_AEAD_TAG_LENGTH_def)
  then show thesis using that [of "u32_bytes i @ t @ c"] ct(3) by simp
qed

end
