(* ===== verification/DataChannel.thy ===== *)
theory DataChannel
  imports CryptoSeal "HOL-Library.Multiset"
begin

text \<open>
  Both ends of the data channel: a locale for the contract of a protected packet format, its lemmas on what a
  receiver hands on, and the AEAD format of \<open>Crypto\<close> as an instance.
\<close>

section \<open>The contract of a packet format\<close>

text \<open>
  For a key \<open>k\<close> that both ends share, \<open>sealed k i p w\<close> says that \<open>w\<close> is a packet with number \<open>i\<close>
  and payload \<open>p\<close>. A receiver opens the packets that sealing makes, and nothing else.
\<close>

locale protected_packets =
  fixes good :: "'k \<Rightarrow> bool"
    and sealed :: "'k \<Rightarrow> packet_id_net \<Rightarrow> bytes \<Rightarrow> bytes \<Rightarrow> bool"
    and open_packet :: "'k \<Rightarrow> bytes \<Rightarrow> (packet_id_net \<times> bytes) option"
  assumes open_iff: "good k \<Longrightarrow> open_packet k w = Some (i, p) \<longleftrightarrow> sealed k i p w"
begin

text \<open>The packets that a receiver hands on, with their numbers: opened, and not seen before.\<close>

primrec receive :: "'k \<Rightarrow> packet_id_rec \<Rightarrow> (bytes \<times> int) list \<Rightarrow> ((packet_id_net \<times> bytes) list \<times> packet_id_rec) option" where
  "receive k r [] = Some ([], r)"
| "receive k r (x # xs) =
     (case open_packet k (fst x) of
        None \<Rightarrow> receive k r xs
      | Some (i, p) \<Rightarrow>
          do { (ok, r1) \<leftarrow> crypto_check_replay r i (snd x);
               (acc, r2) \<leftarrow> receive k r1 xs;
               Some (if ok then (i, p) # acc else acc, r2) })"

lemma receive_sound:
  "good k \<Longrightarrow> pid_rec_ok r \<Longrightarrow> pid_seen A r \<Longrightarrow> \<forall>x \<in> set xs. 1 < snd x \<Longrightarrow>
   \<exists>acc r'. receive k r xs = Some (acc, r') \<and> distinct (map fst acc) \<and> fst ` set acc \<inter> A = {} \<and>
     (\<forall>(i, p) \<in> set acc. \<exists>x \<in> set xs. sealed k i p (fst x))"
proof (induction xs arbitrary: r A)
  case (Cons x xs)
  show ?case
  proof (cases "open_packet k (fst x)")
    case None
    then show ?thesis using Cons.IH [OF Cons.prems(1-3)] Cons.prems(4) by fastforce
  next
    case (Some ip)
    obtain i p where ip: "open_packet k (fst x) = Some (i, p)" using Some by (cases ip) simp
    then have s: "sealed k i p (fst x)" using open_iff [OF Cons.prems(1)] by simp
    obtain ok r1 where c: "crypto_check_replay r i (snd x) = Some (ok, r1)" "pid_rec_ok r1"
      "if ok then i \<notin> A \<and> pid_seen (insert i A) r1 else pid_seen A r1"
      using crypto_check_replay_seen [OF Cons.prems(2,3)] Cons.prems(4) by force
    obtain acc r2 where r: "receive k r1 xs = Some (acc, r2)" "distinct (map fst acc)"
      "fst ` set acc \<inter> (if ok then insert i A else A) = {}" "\<forall>(i, p) \<in> set acc. \<exists>x \<in> set xs. sealed k i p (fst x)"
      using Cons.IH [OF Cons.prems(1) c(2), of "if ok then insert i A else A"] c(3) Cons.prems(4)
      by (auto split: if_splits)
    show ?thesis using ip c(1,3) r s by (auto split: if_splits)
  qed
qed simp

text \<open>When no arriving packet is forged, each payload is handed on at most as often as it was sent.\<close>

lemma receive_at_most_once:
  assumes "good k" "pid_rec_ok r" "pid_seen {} r" "\<forall>x \<in> set xs. 1 < snd x"
    and "distinct (map fst sent)"
    and "\<forall>x \<in> set xs. \<forall>i p. sealed k i p (fst x) \<longrightarrow> (i, p) \<in> set sent"
  shows "\<exists>acc r'. receive k r xs = Some (acc, r') \<and> mset (map snd acc) \<subseteq># mset (map snd sent)"
proof -
  obtain acc r' where r: "receive k r xs = Some (acc, r')" "distinct (map fst acc)"
    "\<forall>(i, p) \<in> set acc. \<exists>x \<in> set xs. sealed k i p (fst x)"
    using receive_sound [OF assms(1-4)] by blast
  have "set acc \<subseteq> set sent" using r(3) assms(6) by fast
  moreover have "distinct acc" "distinct sent" using r(2) assms(5) by (auto simp: distinct_map)
  ultimately have "mset acc \<subseteq># mset sent"
    by (metis subset_imp_msubset_mset_set List.finite_set mset_set_set)
  then show ?thesis using r(1) by (auto intro: image_mset_subseteq_mono)
qed

end

section \<open>A receiver in a state\<close>

text \<open>
  The packets that a receiver in the code is given, each at a time, and what it hands on: \<open>step\<close> is the function
  of the code for one packet, with the state that it changes.
\<close>

fun receiver_run ::
  "('s \<Rightarrow> 'x \<Rightarrow> int \<Rightarrow> (bytes option \<times> 's) option) \<Rightarrow> 's \<Rightarrow> ('x \<times> int) list \<Rightarrow> (bytes list \<times> 's) option" where
  "receiver_run step s [] = Some ([], s)"
| "receiver_run step s ((x, now) # xs) =
     do { (out, s1) \<leftarrow> step s x now;
          (acc, s2) \<leftarrow> receiver_run step s1 xs;
          Some (case out of None \<Rightarrow> acc | Some p \<Rightarrow> p # acc, s2) }"

text \<open>
  The contract of such a receiver: what does not open changes nothing; what opens is handed on when its number is
  fresh, and the state keeps its key and its invariant.
\<close>

locale packet_receiver = protected_packets good sealed open_packet
  for good :: "'k \<Rightarrow> bool" and sealed :: "'k \<Rightarrow> packet_id_net \<Rightarrow> bytes \<Rightarrow> bytes \<Rightarrow> bool"
    and open_packet :: "'k \<Rightarrow> bytes \<Rightarrow> (packet_id_net \<times> bytes) option" +
  fixes key :: "'s \<Rightarrow> 'k"
    and window :: "'s \<Rightarrow> packet_id_rec"
    and inv :: "'s \<Rightarrow> bool"
    and packet :: "'x \<Rightarrow> bytes"
    and arrives :: "'x \<Rightarrow> bool"
    and step :: "'s \<Rightarrow> 'x \<Rightarrow> int \<Rightarrow> (bytes option \<times> 's) option"
  assumes inv_good: "inv s \<Longrightarrow> good (key s)"
    and step_shut: "inv s \<Longrightarrow> arrives x \<Longrightarrow> open_packet (key s) (packet x) = None \<Longrightarrow> step s x now = Some (None, s)"
    and step_open: "inv s \<Longrightarrow> arrives x \<Longrightarrow> open_packet (key s) (packet x) = Some (i, p) \<Longrightarrow>
      crypto_check_replay (window s) i now = Some (ok, r) \<Longrightarrow>
      \<exists>s'. step s x now = Some (if ok then Some p else None, s') \<and> inv s' \<and> window s' = r \<and> key s' = key s"
begin

lemma run_receive:
  "inv s \<Longrightarrow> pid_rec_ok (window s) \<Longrightarrow> pid_seen A (window s) \<Longrightarrow> \<forall>x \<in> set xs. arrives (fst x) \<and> 1 < snd x \<Longrightarrow>
   \<exists>acc s'. receive (key s) (window s) (map (\<lambda>x. (packet (fst x), snd x)) xs) = Some (acc, window s') \<and>
     receiver_run step s xs = Some (map snd acc, s')"
proof (induction xs arbitrary: s A)
  case Nil
  then show ?case by simp
next
  case (Cons x xs)
  obtain y now where x: "x = (y, now)" by (cases x)
  have y: "arrives y" "1 < now" using Cons.prems(4) x by simp_all
  show ?case
  proof (cases "open_packet (key s) (packet y)")
    case None
    obtain acc s' where "receive (key s) (window s) (map (\<lambda>x. (packet (fst x), snd x)) xs) = Some (acc, window s')"
      "receiver_run step s xs = Some (map snd acc, s')"
      using Cons.IH [OF Cons.prems(1-3)] Cons.prems(4) by auto
    then show ?thesis using None step_shut [OF Cons.prems(1) y(1) None] x by auto
  next
    case (Some ip)
    obtain i p where ip: "open_packet (key s) (packet y) = Some (i, p)" using Some by (cases ip) simp
    obtain ok r where c: "crypto_check_replay (window s) i now = Some (ok, r)" "pid_rec_ok r"
      "if ok then i \<notin> A \<and> pid_seen (insert i A) r else pid_seen A r"
      using crypto_check_replay_seen [OF Cons.prems(2,3) y(2)] by blast
    obtain s1 where s1: "step s y now = Some (if ok then Some p else None, s1)" "inv s1" "window s1 = r" "key s1 = key s"
      using step_open [OF Cons.prems(1) y(1) ip c(1)] by blast
    have seen: "pid_seen (if ok then insert i A else A) (window s1)" using c(3) s1(3) by (simp split: if_splits)
    obtain acc s' where "receive (key s) r (map (\<lambda>x. (packet (fst x), snd x)) xs) = Some (acc, window s')"
      "receiver_run step s1 xs = Some (map snd acc, s')"
      using Cons.IH [OF s1(2) _ seen] Cons.prems(4) c(2) s1(3,4) by auto
    then show ?thesis using ip c(1) s1(1) x
      by (intro exI [of _ "if ok then (i, p) # acc else acc"] exI [of _ s']; cases ok) simp_all
  qed
qed

lemma run_at_most_once:
  assumes "inv s" "pid_rec_ok (window s)" "pid_seen {} (window s)" "\<forall>x \<in> set xs. arrives (fst x) \<and> 1 < snd x"
    and "distinct (map fst sent)"
    and "\<And>x i p. x \<in> set xs \<Longrightarrow> sealed (key s) i p (packet (fst x)) \<Longrightarrow> (i, p) \<in> set sent"
  shows "\<exists>out s'. receiver_run step s xs = Some (out, s') \<and> mset out \<subseteq># mset (map snd sent)"
proof -
  let ?ys = "map (\<lambda>x. (packet (fst x), snd x)) xs"
  obtain acc s' where run: "receive (key s) (window s) ?ys = Some (acc, window s')" "receiver_run step s xs = Some (map snd acc, s')"
    using run_receive [OF assms(1-4)] by blast
  have "\<forall>y \<in> set ?ys. 1 < snd y" "\<forall>y \<in> set ?ys. \<forall>i p. sealed (key s) i p (fst y) \<longrightarrow> (i, p) \<in> set sent"
    using assms(4,6) by auto
  then have "mset (map snd acc) \<subseteq># mset (map snd sent)"
    using receive_at_most_once [OF inv_good [OF assms(1)] assms(2,3), of ?ys sent] assms(5) run(1) by auto
  then show ?thesis using run(2) by blast
qed

end

section \<open>The AEAD format\<close>

definition aead_good :: "key_ctx \<times> key_ctx \<times> bytes \<Rightarrow> bool" where
  "aead_good k = (case k of (ke, kd, hdr) \<Rightarrow>
     \<exists>e d. aead_pair e d \<and> implicit_ok ke e \<and> implicit_ok kd d \<and> implicit_iv ke = implicit_iv kd)"

definition aead_sealed :: "key_ctx \<times> key_ctx \<times> bytes \<Rightarrow> packet_id_net \<Rightarrow> bytes \<Rightarrow> bytes \<Rightarrow> bool" where
  "aead_sealed k i p w = (case k of (ke, kd, hdr) \<Rightarrow>
     n_time i = 0 \<and> aead_packet ke hdr (n_id i) p = Some (hdr @ w) \<and> p \<noteq> [])"

definition aead_opened :: "key_ctx \<times> key_ctx \<times> bytes \<Rightarrow> bytes \<Rightarrow> (packet_id_net \<times> bytes) option" where
  "aead_opened k w = (case k of (ke, kd, hdr) \<Rightarrow>
     map_option (\<lambda>(i, p). (\<lparr>n_id = i, n_time = 0\<rparr>, p)) (aead_open kd hdr w))"

interpretation aead: protected_packets aead_good aead_sealed aead_opened
proof unfold_locales
  fix k w i p
  assume good: "aead_good k"
  obtain ke kd hdr where k: "k = (ke, kd, hdr)" by (cases k)
  have iff: "aead_open kd hdr w = Some (j, q) \<longleftrightarrow> aead_packet ke hdr j q = Some (hdr @ w) \<and> q \<noteq> []" for j q
    using good aead_open_iff [of _ _ ke kd] by (auto simp: aead_good_def k)
  show "aead_opened k w = Some (i, p) \<longleftrightarrow> aead_sealed k i p w"
    by (cases i) (auto simp: aead_opened_def aead_sealed_def k iff)
qed

text \<open>
  The receiver as the code runs it: the datagram in its buffer, \<open>hl\<close> octets of header before the packet. What
  is handed on is what a successful \<open>openvpn_decrypt\<close> leaves in the buffer.
\<close>

definition decrypt_step ::
  "int \<Rightarrow> buffer \<Rightarrow> frame \<Rightarrow> crypto_options \<Rightarrow> buffer \<Rightarrow> int \<Rightarrow> (bytes option \<times> crypto_options) option" where
  "decrypt_step hl work frame opt full now =
     do { (ok, b, opt') \<leftarrow> openvpn_decrypt (buf_drop full hl) work (Some opt) frame (b_offset full) now;
          opt1 \<leftarrow> opt';
          Some (if ok \<and> b_len b > 0 then Some (buf_content b) else None, opt1) }"

definition datagram_ok :: "bytes \<Rightarrow> int \<Rightarrow> buffer \<Rightarrow> bool" where
  "datagram_ok hdr limit full \<longleftrightarrow>
     buf_ok full \<and> (\<exists>w. w \<noteq> [] \<and> buf_content full = hdr @ w \<and> int (length w) \<le> limit)"

definition packet_of :: "int \<Rightarrow> buffer \<Rightarrow> bytes" where
  "packet_of hl full = drop (nat hl) (buf_content full)"

text \<open>The state that a run keeps: keys that belong together, and a work buffer with room for the largest datagram.\<close>

definition decrypt_inv :: "key_ctx \<Rightarrow> bytes \<Rightarrow> buffer \<Rightarrow> frame \<Rightarrow> int \<Rightarrow> crypto_options \<Rightarrow> bool" where
  "decrypt_inv ke hdr work frame limit opt \<longleftrightarrow>
     aead_good (ke, co_decrypt opt, hdr) \<and> packet_id_initialized (co_packet_id opt) \<and> buf_ok work \<and>
     0 \<le> FRAME_HEADROOM_ADJ frame FRAME_HEADROOM_MARKER_DECRYPT \<and>
     FRAME_HEADROOM_ADJ frame FRAME_HEADROOM_MARKER_DECRYPT + limit + OPENVPN_MAX_CIPHER_BLOCK_SIZE \<le> b_capacity work"

lemma co_check_replay_eq:
  "co_check_replay opt pin now =
     do { (ok, r) \<leftarrow> crypto_check_replay (p_rec (co_packet_id opt)) pin now;
          Some (ok, (co_set_rec opt r)\<lparr>co_pid_persist :=
            (if ok \<and> co_long_form opt then map_option (\<lambda>p. packet_id_persist_save_obj p r) (co_pid_persist opt)
             else co_pid_persist opt)\<rparr>) }"
  by (cases "crypto_check_replay (p_rec (co_packet_id opt)) pin now")
    (auto simp: co_check_replay_def co_set_rec_def Let_def)

lemma co_check_replay_Some:
  assumes "crypto_check_replay (p_rec (co_packet_id opt)) pin now = Some (ok, r)"
  obtains opt1 where "co_check_replay opt pin now = Some (ok, opt1)" "p_rec (co_packet_id opt1) = r"
    "co_decrypt opt1 = co_decrypt opt" "co_encrypt opt1 = co_encrypt opt" "co_flags opt1 = co_flags opt"
  using assms by (simp add: co_check_replay_eq co_set_rec_def)

lemma crypto_check_replay_initialized:
  assumes "crypto_check_replay p pin now = Some (ok, r)"
  shows "r_initialized r"
proof -
  obtain p1 where "packet_id_reap_test p now = Some p1" using assms by (auto simp: crypto_check_replay_def bind_eq_Some_conv)
  obtain p2 where p2: "packet_id_test p1 pin = Some (ok, p2)" "ok \<longrightarrow> packet_id_add p2 pin now = Some r" "\<not> ok \<longrightarrow> r = p2"
    using assms \<open>packet_id_reap_test p now = Some p1\<close> by (auto simp: crypto_check_replay_def bind_eq_Some_conv split: if_splits)
  have "r_initialized p2" using p2(1) by (auto simp: packet_id_test_def bind_eq_Some_conv Let_def ASSERT_def split: if_splits option.splits)
  then show ?thesis using p2(2,3)
    by (cases ok) (auto simp: packet_id_add_def bind_eq_Some_conv Let_def split: option.splits if_splits)
qed

lemma decrypt_step_eq:
  assumes inv: "decrypt_inv ke hdr work frame limit opt" and full: "datagram_ok hdr limit full"
  shows "\<exists>w b0 b1. packet_of (int (length hdr)) full = w \<and> decrypt_step (int (length hdr)) work frame opt full now =
      (case aead_open (co_decrypt opt) hdr w of
         None \<Rightarrow> Some (None, opt)
       | Some (i, p) \<Rightarrow> do { (fresh, opt1) \<leftarrow> co_check_replay opt \<lparr>n_id = i, n_time = 0\<rparr> now;
                            Some (if fresh then Some p else None, opt1) })"
proof -
  let ?k = "co_decrypt opt" and ?hl = "int (length hdr)" and ?H = "FRAME_HEADROOM_ADJ frame FRAME_HEADROOM_MARKER_DECRYPT"
  obtain e d where ed: "aead_pair e d" "implicit_ok ke e" "implicit_ok ?k d" "implicit_iv ke = implicit_iv ?k"
    using inv by (auto simp: decrypt_inv_def aead_good_def)
  have I: "packet_id_initialized (co_packet_id opt)" "buf_ok work" "0 \<le> ?H" "?H + limit + OPENVPN_MAX_CIPHER_BLOCK_SIZE \<le> b_capacity work"
    using inv by (simp_all add: decrypt_inv_def)
  obtain w where w: "buf_ok full" "w \<noteq> []" "buf_content full = hdr @ w" "int (length w) \<le> limit"
    using full by (auto simp: datagram_ok_def)
  have "cc_block_size d \<le> OPENVPN_MAX_CIPHER_BLOCK_SIZE" using aead_pairD(6) [OF ed(1)] by (simp add: cipher_sizes_def)
  then have room: "?H + int (length w) + cc_block_size d \<le> b_capacity work" using I(4) w(4) by simp
  have "1 \<le> length w" using w(2) by (cases w) simp_all
  then have len: "b_len (buf_drop full ?hl) > 0" using length_buf_content [OF w(1)] w(2,3) by (simp add: buf_drop_def)
  have aead: "cipher_kt_mode_aead (kc_cipher ?k)"
    using ed(3) aead_pairD(2) [OF ed(1)] by (simp add: implicit_ok_def cipher_kt_mode_aead_def)
  have pk: "packet_of ?hl full = w" using w(3) by (simp add: packet_of_def)
  obtain b0 b1 where D: "openvpn_decrypt_aead (buf_drop full ?hl) work opt frame (b_offset full) now =
      (case aead_open ?k hdr w of None \<Rightarrow> Some (decrypt_error b0 opt)
       | Some (i, p) \<Rightarrow> do { (fresh, opt1) \<leftarrow> co_check_replay opt \<lparr>n_id = i, n_time = 0\<rparr> now;
                            if fresh then Some (True, b1, opt1) else Some (decrypt_error b0 opt1) })"
    "\<forall>i p. aead_open ?k hdr w = Some (i, p) \<longrightarrow> buf_ok b1 \<and> buf_content b1 = p"
    using openvpn_decrypt_aead_eq [OF ed(1,3) w(1,3,2) I(1-3) room refl] by blast
  have b1: "buf_ok b1" "buf_content b1 = p" "0 < b_len b1" if "aead_open ?k hdr w = Some (i, p)" for i p
  proof -
    show b: "buf_ok b1" "buf_content b1 = p" using D(2) that by auto
    have "p \<noteq> []" using aead_open_iff [OF ed] that by auto
    then show "0 < b_len b1" using length_buf_content [OF b(1)] b(2) by (cases p) auto
  qed
  show ?thesis
  proof (cases "aead_open ?k hdr w")
    case None
    then show ?thesis using D(1) len aead pk by (simp add: decrypt_step_def openvpn_decrypt_def decrypt_error_def)
  next
    case (Some ip)
    obtain i p where ip: "aead_open ?k hdr w = Some (i, p)" using Some by (cases ip) simp
    show ?thesis
    proof (cases "co_check_replay opt \<lparr>n_id = i, n_time = 0\<rparr> now")
      case None
      then show ?thesis using D(1) len aead pk ip by (simp add: decrypt_step_def openvpn_decrypt_def)
    next
      case (Some fo)
      then show ?thesis using D(1) len aead pk ip b1 [OF ip]
        by (cases fo) (simp add: decrypt_step_def openvpn_decrypt_def decrypt_error_def)
    qed
  qed
qed

interpretation dc: packet_receiver aead_good aead_sealed aead_opened
  "\<lambda>opt. (ke, co_decrypt opt, hdr)" "\<lambda>opt. p_rec (co_packet_id opt)" "decrypt_inv ke hdr work frame limit"
  "packet_of (int (length hdr))" "datagram_ok hdr limit" "decrypt_step (int (length hdr)) work frame"
  for ke hdr work frame limit
proof unfold_locales
  fix opt full now i p ok r
  assume inv: "decrypt_inv ke hdr work frame limit opt"
  show "aead_good (ke, co_decrypt opt, hdr)" using inv by (simp add: decrypt_inv_def)
  assume full: "datagram_ok hdr limit full"
  note step = decrypt_step_eq [OF inv full, of now]
  show "aead_opened (ke, co_decrypt opt, hdr) (packet_of (int (length hdr)) full) = None \<Longrightarrow>
      decrypt_step (int (length hdr)) work frame opt full now = Some (None, opt)"
    using step by (auto simp: aead_opened_def)
  assume op: "aead_opened (ke, co_decrypt opt, hdr) (packet_of (int (length hdr)) full) = Some (i, p)"
    and c: "crypto_check_replay (p_rec (co_packet_id opt)) i now = Some (ok, r)"
  obtain opt1 where o1: "co_check_replay opt i now = Some (ok, opt1)" "p_rec (co_packet_id opt1) = r" "co_decrypt opt1 = co_decrypt opt"
    by (rule co_check_replay_Some [OF c])
  have "decrypt_inv ke hdr work frame limit opt1"
    using inv o1 crypto_check_replay_initialized [OF c] by (simp add: decrypt_inv_def packet_id_initialized_def)
  then show "\<exists>opt'. decrypt_step (int (length hdr)) work frame opt full now = Some (if ok then Some p else None, opt') \<and>
      decrypt_inv ke hdr work frame limit opt' \<and> p_rec (co_packet_id opt') = r \<and>
      (ke, co_decrypt opt', hdr) = (ke, co_decrypt opt, hdr)"
    using step op o1 by (auto simp: aead_opened_def)
qed

section \<open>Properties\<close>

text \<open>
  C1. The data channel hands on each payload at most as often as it was sent. A receiver starts with a fresh
  replay window; whatever datagrams arrive (reordered, repeated, damaged, or made up), as long as none of them is
  a forgery, that is a correctly sealed packet that the peer did not send, the run never fails, and the
  payloads that \<open>openvpn_decrypt\<close> hands on are payloads the peer sent, with no payload more often than sent.
\<close>

theorem data_channel_at_most_once:
  assumes "decrypt_inv ke hdr work frame limit opt" and "packet_id_init sb tb nm un = Some (co_packet_id opt)"
    and "\<forall>x \<in> set xs. datagram_ok hdr limit (fst x) \<and> 1 < snd x"
    and "distinct (map fst sent)"
    and "\<forall>x \<in> set xs. \<forall>i p. aead_packet ke hdr i p = Some (buf_content (fst x)) \<longrightarrow> (i, p) \<in> set sent"
  shows "\<exists>out opt'. receiver_run (decrypt_step (int (length hdr)) work frame) opt xs = Some (out, opt') \<and>
    mset out \<subseteq># mset (map snd sent)"
proof -
  let ?sent = "map (\<lambda>(i, p). (\<lparr>n_id = i, n_time = 0\<rparr>, p)) sent"
  have r: "pid_rec_ok (p_rec (co_packet_id opt))" "pid_seen {} (p_rec (co_packet_id opt))"
    using packet_id_init_ok(1) [OF assms(2)] by (simp_all add: pid_seen_def)
  have d: "distinct (map fst ?sent)" using assms(4) by (induction sent) (auto simp: image_iff)
  have s: "(i, p) \<in> set ?sent"
    if x: "x \<in> set xs" and sealed: "aead_sealed (ke, co_decrypt opt, hdr) i p (packet_of (int (length hdr)) (fst x))" for x i p
  proof -
    have "buf_content (fst x) = hdr @ packet_of (int (length hdr)) (fst x)"
      using assms(3) x by (auto simp: datagram_ok_def packet_of_def)
    then have "(n_id i, p) \<in> set sent" using assms(5) x sealed by (auto simp: aead_sealed_def)
    moreover have "i = \<lparr>n_id = n_id i, n_time = 0\<rparr>" using sealed by (cases i) (simp add: aead_sealed_def)
    ultimately show ?thesis by (auto intro!: image_eqI [of _ _ "(n_id i, p)"])
  qed
  have ms: "map snd ?sent = map snd sent" by (induction sent) auto
  obtain out opt' where "receiver_run (decrypt_step (int (length hdr)) work frame) opt xs = Some (out, opt')"
    "mset out \<subseteq># mset (map snd ?sent)"
    using dc.run_at_most_once [OF assms(1) r assms(3) d] s by blast
  then show ?thesis unfolding ms by blast
qed

text \<open>What one end has sealed the other end opens, behind the same header and unless it is a replay.\<close>

lemma seal_open:
  assumes "aead_pair e d" and "implicit_ok (co_encrypt s) e" and "implicit_ok (co_decrypt r) d"
    and "implicit_iv (co_encrypt s) = implicit_iv (co_decrypt r)"
    and "buf_ok buf" and "0 < b_len buf" and "buf_ok swork"
    and "packet_id_initialized (co_packet_id s)" and "packet_id_send_update (p_send (co_packet_id s)) False now = (True, s')"
    and "4 + OPENVPN_AEAD_TAG_LENGTH + b_len buf + cc_block_size e \<le> buf_room swork"
    and "packet_id_initialized (co_packet_id r)"
    and "buf_ok rwork" and "H = FRAME_HEADROOM_ADJ frame FRAME_HEADROOM_MARKER_DECRYPT" and "0 \<le> H"
    and "H + 4 + OPENVPN_AEAD_TAG_LENGTH + b_len buf + cc_block_size d \<le> b_capacity rwork"
    and "co_check_replay r \<lparr>n_id = s_id s', n_time = 0\<rparr> now' = Some (True, r')"
  shows "\<exists>b1 b2 w. openvpn_encrypt buf swork (Some s) rnd now = Some (b1, Some (co_set_send s s')) \<and>
    openvpn_decrypt (buf_drop b1 (b_len swork)) rwork (Some r) frame (b_offset b1) now' = Some (True, b2, Some r') \<and>
    buf_content b2 = buf_content buf \<and> buf_ok b1 \<and> buf_content b1 = buf_content swork @ w \<and> w \<noteq> []"
proof -
  let ?hdr = "buf_content swork" and ?p = "buf_content buf"
  obtain b1 where e: "openvpn_encrypt_aead buf swork s now = Some (b1, co_set_send s s')" "buf_ok b1"
    "aead_packet (co_encrypt s) ?hdr (s_id s') ?p = Some (buf_content b1)"
    using openvpn_encrypt_aead_ok [OF assms(1,2,5,7,8,9,10)] by blast
  obtain w where w: "buf_content b1 = ?hdr @ w" "length w = 20 + length ?p"
    by (rule aead_packet_form [OF assms(1,2) e(3)])
  have p: "?p \<noteq> []" using assms(6) length_buf_content [OF assms(5)] by auto
  have op: "aead_open (co_decrypt r) ?hdr w = Some (s_id s', ?p)"
    using aead_open_iff [OF assms(1-4)] e(3) w(1) p by simp
  then have wn: "w \<noteq> []" by (auto simp: aead_open_def)
  have wl: "int (length w) = 4 + OPENVPN_AEAD_TAG_LENGTH + b_len buf"
    using w(2) length_buf_content [OF assms(5)] by (simp add: OPENVPN_AEAD_TAG_LENGTH_def)
  have hl: "b_len swork = int (length ?hdr)" using length_buf_content [OF assms(7)] by simp
  have room: "H + int (length w) + cc_block_size d \<le> b_capacity rwork" using assms(15) wl by simp
  obtain b0 b2 where D: "openvpn_decrypt_aead (buf_drop b1 (b_len swork)) rwork r frame (b_offset b1) now' =
      (case aead_open (co_decrypt r) ?hdr w of None \<Rightarrow> Some (decrypt_error b0 r)
       | Some (i, p) \<Rightarrow> do { (fresh, opt1) \<leftarrow> co_check_replay r \<lparr>n_id = i, n_time = 0\<rparr> now';
                            if fresh then Some (True, b2, opt1) else Some (decrypt_error b0 opt1) })"
    "buf_content b2 = ?p"
    using openvpn_decrypt_aead_eq [OF assms(1,3) e(2) w(1) wn assms(11,12,14) room assms(13), where now = now'] op hl by auto
  have "openvpn_decrypt_aead (buf_drop b1 (b_len swork)) rwork r frame (b_offset b1) now' = Some (True, b2, r')"
    using D(1) op assms(16) by simp
  moreover have "b_len (buf_drop b1 (b_len swork)) > 0"
    using length_buf_content [OF e(2)] w hl by (simp add: buf_drop_def)
  moreover have "cipher_kt_mode_aead (kc_cipher (co_encrypt s))" "cipher_kt_mode_aead (kc_cipher (co_decrypt r))"
    using assms(2,3) aead_pairD(1,2) [OF assms(1)] by (simp_all add: implicit_ok_def cipher_kt_mode_aead_def)
  ultimately show ?thesis using e(1,2) D(2) assms(6) w(1) wn by (simp add: openvpn_encrypt_def openvpn_decrypt_def)
qed

text \<open>
  C11. What does not authenticate changes nothing. A datagram that is not a correctly sealed packet, for any
  number and payload, is refused: the buffer is emptied and the options, with them the replay window, stay as
  they are, so a forger can neither inject a payload nor use up packet numbers.
\<close>

theorem forgery_leaves_state:
  assumes "aead_good (ke, co_decrypt opt, hdr)" and "packet_id_initialized (co_packet_id opt)"
    and "buf_ok work" and "H = FRAME_HEADROOM_ADJ frame FRAME_HEADROOM_MARKER_DECRYPT" and "0 \<le> H"
    and "buf_ok full" and "buf_content full = hdr @ w" and "w \<noteq> []"
    and "H + int (length w) + OPENVPN_MAX_CIPHER_BLOCK_SIZE \<le> b_capacity work"
    and "\<forall>i p. p \<noteq> [] \<longrightarrow> aead_packet ke hdr i p \<noteq> Some (hdr @ w)"
  shows "\<exists>b. openvpn_decrypt (buf_drop full (int (length hdr))) work (Some opt) frame (b_offset full) now =
    Some (False, b, Some opt) \<and> b_len b = 0"
proof -
  obtain e d where ed: "aead_pair e d" "implicit_ok ke e" "implicit_ok (co_decrypt opt) d"
    "implicit_iv ke = implicit_iv (co_decrypt opt)"
    using assms(1) by (auto simp: aead_good_def)
  have none: "aead_open (co_decrypt opt) hdr w = None"
    using aead_open_iff [OF ed, of hdr w] assms(10) by (metis not_None_eq prod.exhaust)
  have "cc_block_size d \<le> OPENVPN_MAX_CIPHER_BLOCK_SIZE" using aead_pairD(6) [OF ed(1)] by (simp add: cipher_sizes_def)
  then have room: "H + int (length w) + cc_block_size d \<le> b_capacity work" using assms(9) by simp
  obtain b0 where "openvpn_decrypt_aead (buf_drop full (int (length hdr))) work opt frame (b_offset full) now =
      Some (decrypt_error b0 opt)"
    using openvpn_decrypt_aead_eq [OF ed(1,3) assms(6,7,8,2,3,5) room assms(4)] none by auto
  moreover have "1 \<le> length w" using assms(8) by (cases w) simp_all
  then have "b_len (buf_drop full (int (length hdr))) > 0"
    using length_buf_content [OF assms(6)] assms(7) by (simp add: buf_drop_def)
  moreover have "cipher_kt_mode_aead (kc_cipher (co_decrypt opt))"
    using ed(3) aead_pairD(2) [OF ed(1)] by (simp add: implicit_ok_def cipher_kt_mode_aead_def)
  ultimately show ?thesis by (simp add: openvpn_decrypt_def decrypt_error_def)
qed

section \<open>A cipher to try the properties on\<close>

text \<open>It leaves the payload as it is; the tag depends on all that is authenticated.\<close>

definition demo_tag :: "bytes \<Rightarrow> bytes \<Rightarrow> bytes \<Rightarrow> bytes" where
  "demo_tag iv ad p = take 16 (rev (iv @ ad @ p) @ replicate 16 0)"

definition demo_cipher :: cipher_ctx where
  "demo_cipher = \<lparr>cc_mode = OPENVPN_MODE_AEAD, cc_iv_length = 12, cc_block_size = 1, cc_reset = (\<lambda>_. True),
     cc_update = (\<lambda>iv ad p. Some p), cc_final = (\<lambda>iv ad p. Some []), cc_get_tag = (\<lambda>iv ad p. Some (demo_tag iv ad p)),
     cc_final_check_tag = (\<lambda>iv ad p t. if t = demo_tag iv ad p then Some [] else None)\<rparr>"

definition demo_key :: key_ctx where
  "demo_key = \<lparr>kc_cipher = Some demo_cipher, kc_hmac = None, kc_implicit_iv = replicate 16 9, kc_implicit_iv_len = 8\<rparr>"

definition demo_opts :: crypto_options where
  "demo_opts = \<lparr>co_encrypt = demo_key, co_decrypt = demo_key, co_packet_id = the (packet_id_init 64 15 ''data'' 0),
     co_pid_persist = None, co_flags = 0\<rparr>"

definition demo_crypto_frame :: frame where
  "demo_crypto_frame = \<lparr>link_mtu = 100, link_mtu_dynamic = 0, extra_frame = 0, extra_buffer = 0, extra_tun = 0,
     extra_link = 0, align_flags = 0, align_adjust = 0\<rparr>"

definition demo_buf :: "bytes \<Rightarrow> buffer" where
  "demo_buf c = \<lparr>b_capacity = 100, b_offset = 10, b_len = int (length c), b_data = Some (replicate 10 0 @ c @ replicate (90 - length c) 0)\<rparr>"

lemma demo_buf_ok: "length c \<le> 90 \<Longrightarrow> buf_ok (demo_buf c) \<and> buf_content (demo_buf c) = c \<and> b_len (demo_buf c) = int (length c) \<and>
    buf_room (demo_buf c) = 90 - int (length c) \<and> b_capacity (demo_buf c) = 100"
  by (auto simp: demo_buf_def buf_ok_def buf_content_def buf_room_def BUF_SIZE_MAX_def)

lemma demo_pair: "aead_pair demo_cipher demo_cipher"
  by (auto simp: aead_pair_def demo_cipher_def cipher_sizes_def cipher_seal_def cipher_open_tag_def demo_tag_def
      OPENVPN_AEAD_MIN_IV_LEN_def OPENVPN_MAX_IV_LENGTH_def OPENVPN_AEAD_TAG_LENGTH_def OPENVPN_MAX_CIPHER_BLOCK_SIZE_def
      split: if_splits)

lemma demo_implicit: "implicit_ok demo_key demo_cipher"
  by (simp add: implicit_ok_def demo_key_def demo_cipher_def OPENVPN_MAX_IV_LENGTH_def)

lemma demo_good: "aead_good (demo_key, co_decrypt demo_opts, hdr)"
  using demo_pair demo_implicit by (auto simp: aead_good_def demo_opts_def)

lemma demo_init: "packet_id_init 64 15 ''data'' 0 = Some (co_packet_id demo_opts)"
  "packet_id_initialized (co_packet_id demo_opts)" "p_send (co_packet_id demo_opts) = \<lparr>s_id = 0, s_time = 0\<rparr>"
  by (simp_all add: demo_opts_def packet_id_init_def MAX_SEQ_BACKTRACK_def MAX_TIME_BACKTRACK_def packet_id_initialized_def)

lemma demo_headroom: "FRAME_HEADROOM_ADJ demo_crypto_frame FRAME_HEADROOM_MARKER_DECRYPT = 0"
  by (simp add: FRAME_HEADROOM_ADJ_def frame_headroom_def demo_crypto_frame_def FRAME_HEADROOM_BASE_def TUN_LINK_DELTA_def
      PAYLOAD_ALIGN_def)

lemma forgery_leaves_state_witness:
  "\<exists>b. openvpn_decrypt (buf_drop (demo_buf [1, 2]) 1) (demo_buf []) (Some demo_opts) demo_crypto_frame
      (b_offset (demo_buf [1, 2])) 100 = Some (False, b, Some demo_opts) \<and> b_len b = 0"
proof -
  have "\<forall>i p. p \<noteq> [] \<longrightarrow> aead_packet demo_key [1] i p \<noteq> Some ([1] @ [2])"
    using aead_packet_form [OF demo_pair demo_implicit] by fastforce
  from forgery_leaves_state [OF demo_good demo_init(2) _ demo_headroom [symmetric] _ _ _ _ _ this]
  show ?thesis using demo_buf_ok [of "[]"] demo_buf_ok [of "[1, 2]"] by (simp add: OPENVPN_MAX_CIPHER_BLOCK_SIZE_def)
qed

lemma demo_fresh: "\<exists>r'. co_check_replay demo_opts \<lparr>n_id = 1, n_time = 0\<rparr> 100 = Some (True, r')"
proof -
  let ?r = "p_rec (co_packet_id demo_opts)"
  have r: "r_time ?r = 0" "r_id ?r = 0"
    by (simp_all add: demo_opts_def packet_id_init_def MAX_SEQ_BACKTRACK_def MAX_TIME_BACKTRACK_def)
  then have a: "pid_accepts ?r \<lparr>n_id = 1, n_time = 0\<rparr>" by (intro pid_acceptsI) simp_all
  then obtain r' where "crypto_check_replay ?r \<lparr>n_id = 1, n_time = 0\<rparr> 100 = Some (True, r')"
    using crypto_check_replay_newer [OF packet_id_init_ok(1) [OF demo_init(1)] a, of 100] r by auto
  then show ?thesis by (simp add: co_check_replay_eq)
qed

lemma data_channel_at_most_once_witness:
  "\<exists>full out opt'. aead_packet demo_key [1] 1 [5, 6] = Some (buf_content full) \<and>
    receiver_run (decrypt_step 1 (demo_buf []) demo_crypto_frame) demo_opts [(full, 100), (full, 101)] = Some (out, opt') \<and>
    mset out \<subseteq># {#[5, 6]#}"
proof -
  obtain x where x: "aead_packet demo_key [1] 1 [5, 6] = Some x"
    by (simp add: aead_packet_def demo_key_def demo_cipher_def cipher_seal_def)
  obtain w where w: "x = [1] @ w" "length w = 22"
    using aead_packet_form [OF demo_pair demo_implicit x] by force
  let ?full = "demo_buf x"
  have f: "buf_ok ?full" "buf_content ?full = [1] @ w" using demo_buf_ok [of x] w by simp_all
  have same: "(i, p) = (1, [5, 6])" if "aead_packet demo_key [1] i p = Some (buf_content ?full)" for i p
  proof -
    have "p \<noteq> []" using aead_packet_form [OF demo_pair demo_implicit that] f(2) w(2) by fastforce
    then have "aead_open demo_key [1] w = Some (i, p)" "aead_open demo_key [1] w = Some (1, [5, 6])"
      using aead_open_iff [OF demo_pair demo_implicit demo_implicit, of "[1]" w] that x f(2) w(1) by simp_all
    then show ?thesis by simp
  qed
  have dg: "datagram_ok [1] 22 ?full" using f w(2) by (auto simp: datagram_ok_def)
  have inv: "decrypt_inv demo_key [1] (demo_buf []) demo_crypto_frame 22 demo_opts"
    using demo_buf_ok [of "[]"] demo_good demo_init(2)
    by (simp add: decrypt_inv_def demo_headroom OPENVPN_MAX_CIPHER_BLOCK_SIZE_def)
  obtain out opt' where "receiver_run (decrypt_step 1 (demo_buf []) demo_crypto_frame) demo_opts [(?full, 100), (?full, 101)] = Some (out, opt')"
    "mset out \<subseteq># {#[5, 6]#}"
    using data_channel_at_most_once [OF inv demo_init(1), of "[(?full, 100), (?full, 101)]" "[(1, [5, 6])]"] same dg by auto
  moreover have "aead_packet demo_key [1] 1 [5, 6] = Some (buf_content ?full)" using x w(1) f(2) by simp
  ultimately show ?thesis by blast
qed

end
