(* ===== verification/TlsCrypt.thy ===== *)
theory TlsCrypt
  imports DataChannel SessionId
begin

text \<open>
  Wrapping of control channel packets (src: tls_crypt.h, tls_crypt.c): the header and the packet identifier are
  authenticated, the rest is encrypted under an initialisation vector taken from the authentication tag.
\<close>

section \<open>Wrapping and unwrapping\<close>

definition TLS_CRYPT_TAG_SIZE :: int where "TLS_CRYPT_TAG_SIZE = 32"
definition TLS_CRYPT_PID_SIZE :: int where "TLS_CRYPT_PID_SIZE = 8"
definition TLS_CRYPT_BLOCK_SIZE :: int where "TLS_CRYPT_BLOCK_SIZE = 16"
definition TLS_CRYPT_OFF_PID :: int where "TLS_CRYPT_OFF_PID = 1 + SID_SIZE"
definition TLS_CRYPT_OFF_TAG :: int where "TLS_CRYPT_OFF_TAG = TLS_CRYPT_OFF_PID + TLS_CRYPT_PID_SIZE"
definition TLS_CRYPT_OFF_CT :: int where "TLS_CRYPT_OFF_CT = TLS_CRYPT_OFF_TAG + TLS_CRYPT_TAG_SIZE"

definition tls_crypt_buf_overhead :: int where
  "tls_crypt_buf_overhead = packet_id_size True + TLS_CRYPT_TAG_SIZE + TLS_CRYPT_BLOCK_SIZE"

definition tls_crypt_adjust_frame_parameters :: "frame \<Rightarrow> frame" where
  "tls_crypt_adjust_frame_parameters f = frame_add_to_extra_frame f tls_crypt_buf_overhead"

text \<open>
  The result is the answer, the buffer \<open>dst\<close> and the options. The last output of the cipher is written to the
  start of \<open>dst\<close>, as the code has it; a stream cipher has none.
\<close>

definition tls_crypt_wrap :: "buffer \<Rightarrow> buffer \<Rightarrow> crypto_options \<Rightarrow> int \<Rightarrow> (bool \<times> buffer \<times> crypto_options) option" where
  "tls_crypt_wrap src dst opt now =
     do { let ctx = co_encrypt opt;
          cipher \<leftarrow> kc_cipher ctx;
          hmac \<leftarrow> kc_hmac ctx;
          ASSERT (packet_id_initialized (co_packet_id opt));
          ASSERT (hc_size hmac = 256 div 8);
          (ok, send, dst1) \<leftarrow> packet_id_write (p_send (co_packet_id opt)) dst True False now;
          let opt1 = co_set_send opt send;
          if \<not> ok \<or> \<not> buf_safe dst1 (buf_len src + TLS_CRYPT_BLOCK_SIZE + TLS_CRYPT_TAG_SIZE)
          then Some (False, dst1\<lparr>b_len := 0\<rparr>, opt1)
          else do { ad \<leftarrow> buf_bytes dst1;
                    input \<leftarrow> buf_bytes src;
                    let (tag, dst2) = buf_write_alloc dst1 TLS_CRYPT_TAG_SIZE;
                    place \<leftarrow> tag;
                    let t = hc_hmac hmac (ad @ input);
                    dst3 \<leftarrow> buf_store dst2 place t;
                    let iv = take (nat (cc_iv_length cipher)) t;
                    ASSERT (cc_reset cipher iv);
                    out1 \<leftarrow> cc_update cipher iv [] input;
                    e \<leftarrow> buf_bend dst3;
                    dst4 \<leftarrow> cipher_output dst3 e out1;
                    out2 \<leftarrow> cc_final cipher iv [] input;
                    s \<leftarrow> buf_bptr dst4;
                    dst5 \<leftarrow> cipher_output dst4 s out2;
                    Some (True, dst5, opt1) } }"

definition tls_crypt_error :: "buffer \<Rightarrow> crypto_options \<Rightarrow> bool \<times> buffer \<times> crypto_options" where
  "tls_crypt_error dst opt = (False, dst\<lparr>b_len := 0\<rparr>, opt)"

definition tls_crypt_unwrap :: "buffer \<Rightarrow> buffer \<Rightarrow> crypto_options \<Rightarrow> int \<Rightarrow> (bool \<times> buffer \<times> crypto_options) option" where
  "tls_crypt_unwrap src dst opt now =
     do { let ctx = co_decrypt opt;
          let ignore = (co_flags opt AND CO_IGNORE_PACKET_ID \<noteq> 0);
          ASSERT (b_len src > 0);
          cipher \<leftarrow> kc_cipher ctx;
          ASSERT (packet_id_initialized (co_packet_id opt) \<or> ignore);
          if buf_len src < TLS_CRYPT_OFF_CT \<or> \<not> buf_safe dst (buf_len src - TLS_CRYPT_OFF_CT + TLS_CRYPT_BLOCK_SIZE)
          then Some (tls_crypt_error dst opt)
          else do {
            sp \<leftarrow> buf_bptr src;
            tag \<leftarrow> buf_load src (sp + TLS_CRYPT_OFF_TAG) TLS_CRYPT_TAG_SIZE;
            let iv = take (nat (cc_iv_length cipher)) tag;
            if \<not> cc_reset cipher iv then Some (tls_crypt_error dst opt)
            else do {
              input \<leftarrow> buf_load src (sp + TLS_CRYPT_OFF_CT) (buf_len src - TLS_CRYPT_OFF_CT);
              case cc_update cipher iv [] input of
                None \<Rightarrow> Some (tls_crypt_error dst opt)
              | Some out1 \<Rightarrow>
                  do { dp \<leftarrow> buf_bptr dst;
                       dst1 \<leftarrow> cipher_output dst dp out1;
                       case cc_final cipher iv [] input of
                         None \<Rightarrow> Some (tls_crypt_error dst1 opt)
                       | Some out2 \<Rightarrow>
                           do { dst2 \<leftarrow> cipher_output dst1 dp out2;
                                hmac \<leftarrow> kc_hmac ctx;
                                ad \<leftarrow> buf_load src sp TLS_CRYPT_OFF_TAG;
                                plain \<leftarrow> buf_bytes dst2;
                                if tag \<noteq> take (nat TLS_CRYPT_TAG_SIZE) (hc_hmac hmac (ad @ plain))
                                then Some (tls_crypt_error dst2 opt)
                                else if ignore then Some (True, dst2, opt)
                                else do { let (ok, tmp) = buf_advance src TLS_CRYPT_OFF_PID;
                                          ASSERT ok;
                                          (ok1, pin, _) \<leftarrow> packet_id_read tmp True;
                                          ASSERT ok1;
                                          (fresh, opt1) \<leftarrow> co_check_replay opt pin now;
                                          Some (if fresh then (True, dst2, opt1) else tls_crypt_error dst2 opt1) } } } } } }"

section \<open>Client keys wrapped by the server's key\<close>

definition TLS_CRYPT_V2_MAX_WKC_LEN :: int where "TLS_CRYPT_V2_MAX_WKC_LEN = 1024"
definition TLS_CRYPT_V2_CLIENT_KEY_LEN :: int where "TLS_CRYPT_V2_CLIENT_KEY_LEN = 2048 div 8"
definition TLS_CRYPT_V2_TAG_SIZE :: int where "TLS_CRYPT_V2_TAG_SIZE = TLS_CRYPT_TAG_SIZE"
definition TLS_CRYPT_V2_MAX_METADATA_LEN :: int where
  "TLS_CRYPT_V2_MAX_METADATA_LEN =
     TLS_CRYPT_V2_MAX_WKC_LEN - (TLS_CRYPT_V2_CLIENT_KEY_LEN + TLS_CRYPT_V2_TAG_SIZE + 2)"

text \<open>
  The client key is the array \<open>key2.keys\<close>, 256 octets. The two calls of \<open>cipher_ctx_update\<close> continue one
  stream: the second yields what the output for both inputs has beyond the first.
\<close>

definition tls_crypt_v2_wrap_client_key ::
  "buffer \<Rightarrow> bytes \<Rightarrow> buffer \<Rightarrow> key_ctx \<Rightarrow> (bool \<times> buffer) option" where
  "tls_crypt_v2_wrap_client_key wkc src_key src_metadata server_key =
     do { cipher \<leftarrow> kc_cipher server_key;
          work \<leftarrow> alloc_buf (TLS_CRYPT_V2_MAX_WKC_LEN + cc_block_size cipher);
          let (tag, work1) = buf_write_alloc work TLS_CRYPT_TAG_SIZE;
          case tag of
            None \<Rightarrow> Some (False, wkc)
          | Some place \<Rightarrow>
              do { let net_len = u16_bytes (word_of_int (int (length src_key) + buf_len src_metadata + TLS_CRYPT_V2_TAG_SIZE + 2));
                   hmac \<leftarrow> kc_hmac server_key;
                   metadata \<leftarrow> buf_bytes src_metadata;
                   let t = hc_hmac hmac (net_len @ src_key @ metadata);
                   work2 \<leftarrow> buf_store work1 place t;
                   let iv = take (nat (cc_iv_length cipher)) t;
                   ASSERT (cc_reset cipher iv);
                   if buf_forward_capacity work2 < int (length src_key) + buf_len src_metadata + 2 + cc_block_size cipher
                   then Some (False, wkc)
                   else do { out1 \<leftarrow> cc_update cipher iv [] src_key;
                             e1 \<leftarrow> buf_bend work2;
                             work3 \<leftarrow> cipher_output work2 e1 out1;
                             out12 \<leftarrow> cc_update cipher iv [] (src_key @ metadata);
                             e2 \<leftarrow> buf_bend work3;
                             work4 \<leftarrow> cipher_output work3 e2 (drop (length out1) out12);
                             out3 \<leftarrow> cc_final cipher iv [] (src_key @ metadata);
                             e3 \<leftarrow> buf_bend work4;
                             work5 \<leftarrow> cipher_output work4 e3 out3;
                             (ok, work6) \<leftarrow> buf_write work5 net_len;
                             ASSERT ok;
                             buf_copy wkc work6 } } }"

text \<open>
  The result: the answer, the client key (cleared on failure) and the metadata buffer. \<open>wkc\<close> is passed by value.
\<close>

definition tls_crypt_v2_unwrap_client_key ::
  "buffer \<Rightarrow> buffer \<Rightarrow> key_ctx \<Rightarrow> (bool \<times> bytes \<times> buffer) option" where
  "tls_crypt_v2_unwrap_client_key metadata wkc server_key =
     (let no_key = replicate (nat TLS_CRYPT_V2_CLIENT_KEY_LEN) 0;
          failed = Some (False, no_key, metadata)
      in if TLS_CRYPT_V2_MAX_WKC_LEN < buf_len wkc \<or> buf_len wkc < 2 then failed
         else do {
           tag_ptr \<leftarrow> buf_bptr wkc;
           e \<leftarrow> buf_bend wkc;
           net_len \<leftarrow> buf_load wkc (e - 2) 2;
           if uint (bytes_u16 net_len) \<noteq> buf_len wkc then failed
           else do {
             let (_, wkc1) = buf_inc_len wkc (- 2);
             let (ok, wkc2) = buf_advance wkc1 TLS_CRYPT_TAG_SIZE;
             if \<not> ok then failed
             else do {
               cipher \<leftarrow> kc_cipher server_key;
               tag \<leftarrow> buf_load wkc tag_ptr TLS_CRYPT_TAG_SIZE;
               let iv = take (nat (cc_iv_length cipher)) tag;
               if \<not> cc_reset cipher iv then failed
               else do {
                 plaintext \<leftarrow> buf_set_write (Some (replicate (nat TLS_CRYPT_V2_MAX_WKC_LEN) 0)) TLS_CRYPT_V2_MAX_WKC_LEN;
                 input \<leftarrow> buf_bytes wkc2;
                 case cc_update cipher iv [] input of
                   None \<Rightarrow> failed
                 | Some out1 \<Rightarrow>
                     do { p \<leftarrow> buf_bptr plaintext;
                          plaintext1 \<leftarrow> cipher_output plaintext p out1;
                          case cc_final cipher iv [] input of
                            None \<Rightarrow> failed
                          | Some out2 \<Rightarrow>
                              do { e1 \<leftarrow> buf_bend plaintext1;
                                   plaintext2 \<leftarrow> cipher_output plaintext1 e1 out2;
                                   hmac \<leftarrow> kc_hmac server_key;
                                   plain \<leftarrow> buf_bytes plaintext2;
                                   if tag \<noteq> take (nat TLS_CRYPT_TAG_SIZE) (hc_hmac hmac (net_len @ plain)) then failed
                                   else if buf_len plaintext2 < TLS_CRYPT_V2_CLIENT_KEY_LEN then failed
                                   else do { key \<leftarrow> buf_load plaintext2 p TLS_CRYPT_V2_CLIENT_KEY_LEN;
                                             let (ok1, plaintext3) = buf_advance plaintext2 TLS_CRYPT_V2_CLIENT_KEY_LEN;
                                             ASSERT ok1;
                                             (ok2, metadata1) \<leftarrow> buf_copy metadata plaintext3;
                                             if ok2 then Some (True, key, metadata1) else Some (False, no_key, metadata1) } } } } } } })"

datatype tls_wrap_mode = TLS_WRAP_NONE | TLS_WRAP_AUTH | TLS_WRAP_CRYPT

record tls_wrap_ctx =
  tw_mode :: tls_wrap_mode
  tw_opt :: crypto_options
  tw_work :: buffer
  tw_tls_crypt_v2_server_key :: key_ctx
  tw_tls_crypt_v2_wkc :: "buffer option"
  tw_tls_crypt_v2_metadata :: buffer
  tw_cleanup_key_ctx :: bool

text \<open>
  \<open>load_key\<close> is \<open>tls_crypt_v2_load_client_key\<close>, which makes the two contexts in the crypto library; \<open>verify\<close> is the
  script of \<open>--tls-crypt-v2-verify\<close>, when there is one. A packet of less than two octets is
  reported, but the code goes on and reads its last two octets.
\<close>

definition tls_crypt_v2_extract_client_key ::
  "(bytes \<Rightarrow> key_ctx \<times> key_ctx) \<Rightarrow> (buffer \<Rightarrow> bool) option \<Rightarrow> buffer \<Rightarrow> tls_wrap_ctx \<Rightarrow>
   (bool \<times> buffer \<times> tls_wrap_ctx) option" where
  "tls_crypt_v2_extract_client_key load_key verify buf ctx =
     (if kc_cipher (tw_tls_crypt_v2_server_key ctx) = None then Some (False, buf, ctx)
      else do {
        e \<leftarrow> buf_bend buf;
        net_len \<leftarrow> buf_load buf (e - 2) 2;
        let wkc_len = uint (bytes_u16 net_len);
        let (ok, wkc) = buf_advance buf (buf_len buf - wkc_len);
        if \<not> ok then Some (False, buf, ctx)
        else do {
          m \<leftarrow> alloc_buf TLS_CRYPT_V2_MAX_METADATA_LEN;
          (ok1, key, m1) \<leftarrow> tls_crypt_v2_unwrap_client_key m wkc (tw_tls_crypt_v2_server_key ctx);
          let ctx1 = ctx\<lparr>tw_tls_crypt_v2_metadata := m1\<rparr>;
          if \<not> ok1 then Some (False, buf, ctx1)
          else do {
            let (enc, dec) = load_key key;
            let opt1 = (tw_opt ctx)\<lparr>co_flags := co_flags (tw_opt ctx) OR CO_PACKET_ID_LONG_FORM,
                                    co_encrypt := enc, co_decrypt := dec\<rparr>;
            let ctx2 = ctx1\<lparr>tw_mode := TLS_WRAP_CRYPT, tw_cleanup_key_ctx := True, tw_opt := opt1\<rparr>;
            let (ok2, buf1) = buf_inc_len buf (- buf_len wkc);
            ASSERT ok2;
            Some (case verify of None \<Rightarrow> True | Some v \<Rightarrow> v m1, buf1, ctx2) } } })"

section \<open>What a wrapped packet is\<close>

text \<open>
  A stream cipher in both directions: the output is as long as the input, nothing is left for the end, and what
  one direction makes the other undoes. Every start of an input gives the start of the output.
\<close>

definition ctr_pair :: "cipher_ctx \<Rightarrow> cipher_ctx \<Rightarrow> bool" where
  "ctr_pair e d \<longleftrightarrow> cc_iv_length e = 16 \<and> cc_iv_length d = 16 \<and>
     0 \<le> cc_block_size e \<and> cc_block_size e \<le> 16 \<and>
     (\<forall>iv. int (length iv) = 16 \<longrightarrow> cc_reset e iv \<and> cc_reset d iv) \<and>
     (\<forall>iv p. cc_final e iv [] p = Some [] \<and> cc_final d iv [] p = Some []) \<and>
     (\<forall>iv p. \<exists>c. cc_update e iv [] p = Some c \<and> length c = length p) \<and>
     (\<forall>iv c. \<exists>p. cc_update d iv [] c = Some p \<and> length p = length c) \<and>
     (\<forall>iv p q c. cc_update e iv [] (p @ q) = Some c \<longrightarrow> cc_update e iv [] p = Some (take (length p) c)) \<and>
     (\<forall>iv p c. cc_update d iv [] c = Some p \<longleftrightarrow> cc_update e iv [] p = Some c)"

definition hmac_ok :: "hmac_ctx \<Rightarrow> bool" where
  "hmac_ok h \<longleftrightarrow> hc_size h = 32 \<and> (\<forall>m. int (length (hc_hmac h m)) = hc_size h)"

lemma ctr_pairD:
  assumes "ctr_pair e d"
  shows "cc_iv_length e = 16" "cc_iv_length d = 16" "0 \<le> cc_block_size e" "cc_block_size e \<le> 16"
    "length iv = 16 \<Longrightarrow> cc_reset e iv \<and> cc_reset d iv" "cc_final e iv [] p = Some []" "cc_final d iv [] p = Some []"
    "\<exists>c. cc_update e iv [] p = Some c \<and> length c = length p"
    "\<exists>c. cc_update d iv [] p = Some c \<and> length c = length p"
    "cc_update e iv [] (p @ q) = Some c \<Longrightarrow> cc_update e iv [] p = Some (take (length p) c)"
    "cc_update d iv [] c = Some p \<longleftrightarrow> cc_update e iv [] p = Some c"
proof -
  note pair = assms [unfolded ctr_pair_def]
  show "cc_iv_length e = 16" "cc_iv_length d = 16" "0 \<le> cc_block_size e" "cc_block_size e \<le> 16"
    using pair by (elim conjE; simp only:)+
  show "length iv = 16 \<Longrightarrow> cc_reset e iv \<and> cc_reset d iv" using pair by (elim conjE) simp
  show "cc_final e iv [] p = Some []" "cc_final d iv [] p = Some []" using pair by (elim conjE; simp only:)+
  show "\<exists>c. cc_update e iv [] p = Some c \<and> length c = length p" using pair by (elim conjE) (drule spec, drule spec, assumption)
  show "\<exists>c. cc_update d iv [] p = Some c \<and> length c = length p" using pair by (elim conjE) blast
  show "cc_update e iv [] (p @ q) = Some c \<Longrightarrow> cc_update e iv [] p = Some (take (length p) c)"
    using pair by (elim conjE) blast
  show "cc_update d iv [] c = Some p \<longleftrightarrow> cc_update e iv [] p = Some c" using pair by (elim conjE) (simp only:)
qed

lemma hmac_okD: "hmac_ok h \<Longrightarrow> hc_size h = 32" "hmac_ok h \<Longrightarrow> length (hc_hmac h m) = 32"
proof -
  assume h: "hmac_ok h"
  then show s: "hc_size h = 32" by (simp add: hmac_ok_def)
  have "int (length (hc_hmac h m)) = hc_size h" using h by (simp add: hmac_ok_def)
  then show "length (hc_hmac h m) = 32" using s by simp
qed

text \<open>A packet identifier in the long form, and the packet for a header of an opcode and a session identifier.\<close>

definition pin_bytes :: "packet_id_net \<Rightarrow> bytes" where
  "pin_bytes i = u32_bytes (n_id i) @ u32_bytes (word_of_int (n_time i))"

definition pin_long :: "packet_id_net \<Rightarrow> bool" where
  "pin_long i \<longleftrightarrow> 0 \<le> n_time i \<and> n_time i < 2 ^ 32"

definition tls_crypt_packet :: "cipher_ctx \<Rightarrow> hmac_ctx \<Rightarrow> bytes \<Rightarrow> packet_id_net \<Rightarrow> bytes \<Rightarrow> bytes option" where
  "tls_crypt_packet e h hdr i p =
     do { let ad = hdr @ pin_bytes i;
          let t = hc_hmac h (ad @ p);
          c \<leftarrow> cc_update e (take 16 t) [] p;
          Some (ad @ t @ c) }"

definition tls_crypt_open :: "cipher_ctx \<Rightarrow> hmac_ctx \<Rightarrow> bytes \<Rightarrow> (packet_id_net \<times> bytes) option" where
  "tls_crypt_open d h w =
     (if length w < 49 then None
      else do { let t = take 32 (drop 17 w);
                p \<leftarrow> cc_update d (take 16 t) [] (drop 49 w);
                if t \<noteq> hc_hmac h (take 17 w @ p) then None
                else Some (\<lparr>n_id = bytes_u32 (take 4 (drop 9 w)), n_time = uint (bytes_u32 (take 4 (drop 13 w)))\<rparr>, p) })"

lemma pin_bytes_length [simp]: "length (pin_bytes i) = 8"
  by (simp add: pin_bytes_def)

lemma pin_read_back:
  "pin_long i \<Longrightarrow> \<lparr>n_id = bytes_u32 (u32_bytes (n_id i)), n_time = uint (bytes_u32 (u32_bytes (word_of_int (n_time i))))\<rparr> = i"
  by (cases i) (simp add: pin_long_def uint_u32_time)

lemma pin_bytes_of_octets:
  assumes "length w = 8"
  shows "pin_bytes \<lparr>n_id = bytes_u32 (take 4 w), n_time = uint (bytes_u32 (drop 4 w))\<rparr> = w"
    "pin_long \<lparr>n_id = bytes_u32 (take 4 w), n_time = uint (bytes_u32 (drop 4 w))\<rparr>"
proof -
  show "pin_bytes \<lparr>n_id = bytes_u32 (take 4 w), n_time = uint (bytes_u32 (drop 4 w))\<rparr> = w"
    using assms by (simp add: pin_bytes_def u32_bytes_bytes_u32)
  show "pin_long \<lparr>n_id = bytes_u32 (take 4 w), n_time = uint (bytes_u32 (drop 4 w))\<rparr>"
    using uint_lt2p [of "bytes_u32 (drop 4 w)"] by (simp add: pin_long_def)
qed

lemma take_drop_split: "n + m \<le> length w \<Longrightarrow> drop n w = take m (drop n w) @ drop (n + m) w" for w :: "'a list"
  by (metis append_take_drop_id add.commute drop_drop)

lemma tls_crypt_open_iff:
  assumes "ctr_pair e d" "hmac_ok h"
  shows "tls_crypt_open d h w = Some (i, p) \<longleftrightarrow>
    pin_long i \<and> (\<exists>hdr. length hdr = 9 \<and> tls_crypt_packet e h hdr i p = Some w)"
proof
  have hl: "length (hc_hmac h m) = 32" for m using hmac_okD(2) [OF assms(2)] .
  {
    assume o: "tls_crypt_open d h w = Some (i, p)"
    let ?t = "take 32 (drop 17 w)"
    have w: "49 \<le> length w" "cc_update d (take 16 ?t) [] (drop 49 w) = Some p" "?t = hc_hmac h (take 17 w @ p)"
      "i = \<lparr>n_id = bytes_u32 (take 4 (drop 9 w)), n_time = uint (bytes_u32 (take 4 (drop 13 w)))\<rparr>"
      using o by (auto simp: tls_crypt_open_def bind_eq_Some_conv Let_def split: if_splits)
    have l8: "length (take 8 (drop 9 w)) = 8" using w(1) by simp
    have t4: "take 4 (take 8 (drop 9 w)) = take 4 (drop 9 w)" "drop 4 (take 8 (drop 9 w)) = take 4 (drop 13 w)"
      by (simp_all add: drop_take)
    have i: "pin_bytes i = take 8 (drop 9 w)" "pin_long i"
      using pin_bytes_of_octets [OF l8] w(4) t4 by simp_all
    have ad: "take 9 w @ pin_bytes i = take 17 w" using i(1) take_add [of 9 8 w] by simp
    have "drop 17 w = ?t @ drop 49 w" using take_drop_split [of 17 32 w] w(1) by simp
    then have ww: "take 17 w @ ?t @ drop 49 w = w" using append_take_drop_id [of 17 w] by simp
    have "cc_update e (take 16 ?t) [] p = Some (drop 49 w)" using ctr_pairD(11) [OF assms(1)] w(2) by blast
    then have "tls_crypt_packet e h (take 9 w) i p = Some w"
      using ad w(3) ww by (simp add: tls_crypt_packet_def Let_def)
    moreover have "length (take 9 w) = 9" using w(1) by simp
    ultimately show "pin_long i \<and> (\<exists>hdr. length hdr = 9 \<and> tls_crypt_packet e h hdr i p = Some w)" using i(2) by blast
  }
  {
    assume "pin_long i \<and> (\<exists>hdr. length hdr = 9 \<and> tls_crypt_packet e h hdr i p = Some w)"
    then obtain hdr where pk: "pin_long i" "length hdr = 9" "tls_crypt_packet e h hdr i p = Some w" by blast
    define t where "t = hc_hmac h ((hdr @ pin_bytes i) @ p)"
    obtain c where c: "cc_update e (take 16 t) [] p = Some c" "w = hdr @ pin_bytes i @ t @ c"
      using pk(3) by (auto simp: tls_crypt_packet_def bind_eq_Some_conv Let_def t_def)
    have tl: "length t = 32" by (simp add: t_def hl)
    have parts: "take 17 w = hdr @ pin_bytes i" "take 32 (drop 17 w) = t" "drop 49 w = c"
      "take 4 (drop 9 w) = u32_bytes (n_id i)" "take 4 (drop 13 w) = u32_bytes (word_of_int (n_time i))" "49 \<le> length w"
      using pk(2) tl by (simp_all add: c(2) pin_bytes_def)
    have "cc_update d (take 16 t) [] c = Some p" using ctr_pairD(11) [OF assms(1)] c(1) by blast
    then show "tls_crypt_open d h w = Some (i, p)"
      using parts pin_read_back [OF pk(1)] t_def by (simp add: tls_crypt_open_def Let_def)
  }
qed

section \<open>The code makes and opens these packets\<close>

lemma cipher_output_nil: "buf_ok b \<Longrightarrow> cipher_output b (b_offset b) [] = Some b"
  by (cases b) (auto simp: buf_ok_def cipher_output_def buf_store_def mem_write_def buf_inc_len_def buf_safe_bidir_def
      buf_valid_def buf_size_valid_signed_def BUF_SIZE_MAX_def Let_def)

lemma tls_crypt_wrap_ok:
  assumes k: "kc_cipher (co_encrypt opt) = Some e" "kc_hmac (co_encrypt opt) = Some h" "ctr_pair e d" "hmac_ok h"
    and ok: "buf_ok src" "buf_ok dst" and init: "packet_id_initialized (co_packet_id opt)"
    and send: "packet_id_send_update (p_send (co_packet_id opt)) True now = (True, s')"
    and room: "8 + 32 + 16 + b_len src \<le> buf_room dst"
  shows "\<exists>b'. tls_crypt_wrap src dst opt now = Some (True, b', co_set_send opt s') \<and> buf_ok b' \<and>
    tls_crypt_packet e h (buf_content dst) (pid_on_wire s' True) (buf_content src) = Some (buf_content b')"
proof -
  let ?p = "buf_content src" and ?hdr = "buf_content dst" and ?w = "pid_wire_bytes s' True"
  have pin: "pin_bytes (pid_on_wire s' True) = ?w" by (simp add: pin_bytes_def pid_on_wire_def pid_wire_bytes_def)
  have pl: "length ?w = 8" by (simp add: pid_wire_bytes_def)
  note num = TLS_CRYPT_TAG_SIZE_def TLS_CRYPT_BLOCK_SIZE_def
  have sl: "int (length ?p) = b_len src" by (rule length_buf_content [OF ok(1)])
  have s0: "0 \<le> b_len src" using buf_ok_bounds [OF ok(1)] by simp
  obtain d1 where d1: "packet_id_write (p_send (co_packet_id opt)) dst True False now = Some (True, s', d1)" "buf_ok d1"
    "buf_content d1 = ?hdr @ ?w" "b_offset d1 = b_offset dst" "buf_room d1 = buf_room dst - 8"
    using packet_id_write_append [OF ok(2) _ send] room s0 by (auto simp: packet_id_size_def)
  obtain gap d2 where d2: "buf_write_alloc d1 32 = (Some (b_offset d1 + b_len d1), d2)" "int (length gap) = 32"
    "buf_ok d2" "buf_content d2 = buf_content d1 @ gap" "b_offset d2 = b_offset d1" "buf_room d2 = buf_room d1 - 32"
    by (rule buf_write_alloc_ok [of d1 32]) (use d1 room s0 in auto)
  define t where "t = hc_hmac h ((?hdr @ ?w) @ ?p)"
  have tl: "length t = 32" using hmac_okD(2) [OF k(4)] by (simp add: t_def)
  obtain d3 where d3: "buf_store d2 (b_offset d1 + b_len d1) t = Some d3" "buf_ok d3" "buf_content d3 = (?hdr @ ?w) @ t"
    "b_offset d3 = b_offset d2" "b_len d3 = b_len d2" "b_capacity d3 = b_capacity d2"
    by (rule buf_store_inside [OF d2(3), of "?hdr @ ?w" gap "[]" "b_offset d1 + b_len d1" t])
      (use d1 d2 tl length_buf_content [OF d1(2)] in auto)
  have r3: "buf_room d3 = buf_room d2" using d3 by (simp add: buf_room_def)
  obtain c where c: "cc_update e (take 16 t) [] ?p = Some c" "length c = length ?p"
    using ctr_pairD(8) [OF k(3), of "take 16 t" ?p] by blast
  define d4 where "d4 = buf_append d3 c"
  have lc: "int (length c) \<le> buf_room d3" using c(2) sl r3 d2(6) d1(5) room by simp
  have d4: "cipher_output d3 (b_offset d3 + b_len d3) c = Some d4" "buf_ok d4" "buf_content d4 = (?hdr @ ?w) @ t @ c"
    using cipher_output_ok [OF d3(2) lc] d3(2,3) lc by (simp_all add: d4_def)
  have d5: "cipher_output d4 (b_offset d4) [] = Some d4"
    by (rule cipher_output_nil [OF d4(2)])
  have safe: "buf_safe d1 (int (length ?p) + 16 + 32)"
    using buf_safe_ok [OF d1(2)] room d1(5) sl s0 by simp
  have rs: "cc_reset e (take 16 t)" using ctr_pairD(5) [OF k(3)] tl by simp
  have iv: "cc_iv_length e = 16" "cc_final e (take 16 t) [] ?p = Some []" "hc_size h = 32"
    using ctr_pairD(1,6) [OF k(3)] hmac_okD(1) [OF k(4)] by simp_all
  have "tls_crypt_wrap src dst opt now = Some (True, d4, co_set_send opt s')"
    unfolding tls_crypt_wrap_def Let_def k(1,2) num
    using init d1(1,2,3) safe ok(1) d2(1) d3(1,2) t_def rs iv c(1) d4(1,2) d5 by simp
  moreover have "tls_crypt_packet e h ?hdr (pid_on_wire s' True) ?p = Some (buf_content d4)"
    using c(1) d4(3) t_def pin by (simp add: tls_crypt_packet_def Let_def)
  ultimately show ?thesis using d4(2) by blast
qed

lemma packet_id_read_long:
  assumes "buf_ok b" "8 \<le> b_len b"
  shows "\<exists>b'. packet_id_read b True = Some (True,
    \<lparr>n_id = bytes_u32 (take 4 (buf_content b)), n_time = uint (bytes_u32 (take 4 (drop 4 (buf_content b))))\<rparr>, b')"
  using assms by (simp add: packet_id_read_def buf_read_ok)

lemma tls_crypt_unwrap_eq:
  assumes k: "kc_cipher (co_decrypt opt) = Some d" "kc_hmac (co_decrypt opt) = Some h" "ctr_pair e d" "hmac_ok h"
    and ok: "buf_ok src" "0 < b_len src" "buf_ok dst" "buf_content dst = []" and init: "packet_id_initialized (co_packet_id opt)"
    and flags: "co_flags opt AND CO_IGNORE_PACKET_ID = 0" and room: "b_len src \<le> buf_room dst"
  shows "\<exists>b0 b1. tls_crypt_unwrap src dst opt now =
      (case tls_crypt_open d h (buf_content src) of
         None \<Rightarrow> Some (tls_crypt_error b0 opt)
       | Some (i, p) \<Rightarrow> do { (fresh, opt1) \<leftarrow> co_check_replay opt i now;
                            Some (if fresh then (True, b1, opt1) else tls_crypt_error b1 opt1) }) \<and>
      (\<forall>i p. tls_crypt_open d h (buf_content src) = Some (i, p) \<longrightarrow> buf_ok b1 \<and> buf_content b1 = p)"
proof -
  let ?w = "buf_content src"
  have wl: "int (length ?w) = b_len src" by (rule length_buf_content [OF ok(1)])
  note num = TLS_CRYPT_OFF_CT_def TLS_CRYPT_OFF_TAG_def TLS_CRYPT_OFF_PID_def SID_SIZE_def TLS_CRYPT_PID_SIZE_def
    TLS_CRYPT_TAG_SIZE_def TLS_CRYPT_BLOCK_SIZE_def
  have off: "TLS_CRYPT_OFF_CT = 49" "TLS_CRYPT_OFF_TAG = 17" "TLS_CRYPT_OFF_PID = 9" "TLS_CRYPT_TAG_SIZE = 32"
    "TLS_CRYPT_BLOCK_SIZE = 16" by (simp_all add: num)
  note start = tls_crypt_unwrap_def Let_def k(1,2) off
  show ?thesis
  proof (cases "length ?w < 49")
    case True
    then have "tls_crypt_unwrap src dst opt now = Some (tls_crypt_error dst opt)"
      unfolding start using ok init by simp
    then show ?thesis using True by (auto simp: tls_crypt_open_def)
  next
    case False
    then have l49: "49 \<le> length ?w" by simp
    define t where "t = take 32 (drop 17 ?w)"
    define c where "c = drop 49 ?w"
    define ad where "ad = take 17 ?w"
    have w: "?w = ad @ t @ c" using take_drop_split [of 17 32 ?w] l49 append_take_drop_id [of 17 ?w]
      by (simp add: t_def c_def ad_def)
    have tl: "length t = 32" "length ad = 17" "int (length c) = b_len src - 49" using l49 wl by (simp_all add: t_def c_def ad_def)
    have safe: "buf_safe dst (int (length ?w) - 49 + 16)"
      using buf_safe_ok [OF ok(3)] room wl l49 by simp
    have ld: "buf_load src (b_offset src + 17) 32 = Some t" "buf_load src (b_offset src + 49) (int (length ?w) - 49) = Some c"
      "buf_load src (b_offset src) 17 = Some ad"
      using buf_load_content [OF ok(1), of ad t c "b_offset src + 17" 32]
        buf_load_content [OF ok(1), of "ad @ t" c "[]" "b_offset src + 49" "int (length ?w) - 49"]
        buf_load_content [OF ok(1), of "[]" ad "t @ c" "b_offset src" 17] w tl wl by simp_all
    obtain p where p: "cc_update d (take 16 t) [] c = Some p" "length p = length c"
      using ctr_pairD(9) [OF k(3), of "take 16 t" c] by blast
    have d0: "b_len dst = 0" using length_buf_content [OF ok(3)] ok(4) by simp
    define d1 where "d1 = buf_append dst p"
    have lp: "int (length p) \<le> buf_room dst" using p(2) tl(3) room by simp
    have d1: "cipher_output dst (b_offset dst) p = Some d1" "buf_ok d1" "buf_content d1 = p" "b_offset d1 = b_offset dst"
      using cipher_output_ok [OF ok(3) lp] d0 ok(3,4) lp by (simp_all add: d1_def)
    have d2: "cipher_output d1 (b_offset dst) [] = Some d1" using cipher_output_nil [OF d1(2)] d1(4) by simp
    have rs: "cc_reset d (take 16 t)" using ctr_pairD(5) [OF k(3)] tl by simp
    have iv: "cc_iv_length d = 16" "cc_final d (take 16 t) [] c = Some []"
      using ctr_pairD(2,7) [OF k(3)] by simp_all
    have hl: "take 32 (hc_hmac h m) = hc_hmac h m" for m using hmac_okD(2) [OF k(4)] by simp
    have op: "tls_crypt_open d h ?w = (if t \<noteq> hc_hmac h (ad @ p) then None
        else Some (\<lparr>n_id = bytes_u32 (take 4 (drop 9 ?w)), n_time = uint (bytes_u32 (take 4 (drop 13 ?w)))\<rparr>, p))"
      using l49 p(1) by (simp add: tls_crypt_open_def Let_def flip: t_def c_def ad_def)
    show ?thesis
    proof (cases "t = hc_hmac h (ad @ p)")
      case bad: False
      have "tls_crypt_unwrap src dst opt now = Some (tls_crypt_error d1 opt)"
        unfolding start using ok init safe ld rs iv p(1) d1 d2 l49 hl bad by simp
      then show ?thesis using op bad by auto
    next
      case good: True
      define s9 where "s9 = buf_drop src 9"
      have s9: "buf_advance src 9 = (True, s9)" "buf_ok s9" "8 \<le> b_len s9" "buf_content s9 = drop 9 ?w"
        using ok(1) l49 wl by (simp_all add: s9_def buf_advance_ok)
      obtain s17 where rd: "packet_id_read s9 True = Some (True,
          \<lparr>n_id = bytes_u32 (take 4 (drop 9 ?w)), n_time = uint (bytes_u32 (take 4 (drop 13 ?w)))\<rparr>, s17)"
        using packet_id_read_long [OF s9(2,3)] s9(4) by auto
      have "tls_crypt_unwrap src dst opt now = do { (fresh, opt1) \<leftarrow> co_check_replay opt
            \<lparr>n_id = bytes_u32 (take 4 (drop 9 ?w)), n_time = uint (bytes_u32 (take 4 (drop 13 ?w)))\<rparr> now;
            Some (if fresh then (True, d1, opt1) else tls_crypt_error d1 opt1) }"
        unfolding start using ok init safe ld rs iv p(1) d1 d2 l49 hl good s9(1) rd flags by simp
      then show ?thesis using op good d1(2,3) by auto
    qed
  qed
qed

section \<open>The wrapped format as an instance\<close>

definition tc_good :: "cipher_ctx \<times> cipher_ctx \<times> hmac_ctx \<Rightarrow> bool" where
  "tc_good k = (case k of (e, d, h) \<Rightarrow> ctr_pair e d \<and> hmac_ok h)"

definition tc_sealed :: "cipher_ctx \<times> cipher_ctx \<times> hmac_ctx \<Rightarrow> packet_id_net \<Rightarrow> bytes \<Rightarrow> bytes \<Rightarrow> bool" where
  "tc_sealed k i p w = (case k of (e, d, h) \<Rightarrow>
     pin_long i \<and> (\<exists>hdr. length hdr = 9 \<and> tls_crypt_packet e h hdr i p = Some w))"

definition tc_opened :: "cipher_ctx \<times> cipher_ctx \<times> hmac_ctx \<Rightarrow> bytes \<Rightarrow> (packet_id_net \<times> bytes) option" where
  "tc_opened k w = (case k of (e, d, h) \<Rightarrow> tls_crypt_open d h w)"

interpretation tc: protected_packets tc_good tc_sealed tc_opened
proof unfold_locales
  fix k w i p
  assume "tc_good k"
  then show "tc_opened k w = Some (i, p) \<longleftrightarrow> tc_sealed k i p w"
    using tls_crypt_open_iff by (cases k) (simp add: tc_good_def tc_opened_def tc_sealed_def)
qed

text \<open>What a receiver of wrapped packets hands on: \<open>dst\<close> is the empty work buffer of the wrapping context.\<close>

definition unwrap_step :: "buffer \<Rightarrow> crypto_options \<Rightarrow> buffer \<Rightarrow> int \<Rightarrow> (bytes option \<times> crypto_options) option" where
  "unwrap_step dst opt src now =
     do { (ok, b, opt1) \<leftarrow> tls_crypt_unwrap src dst opt now;
          Some (if ok then Some (buf_content b) else None, opt1) }"

definition unwrap_inv :: "cipher_ctx \<Rightarrow> cipher_ctx \<Rightarrow> hmac_ctx \<Rightarrow> buffer \<Rightarrow> crypto_options \<Rightarrow> bool" where
  "unwrap_inv e d h dst opt \<longleftrightarrow>
     tc_good (e, d, h) \<and> kc_cipher (co_decrypt opt) = Some d \<and> kc_hmac (co_decrypt opt) = Some h \<and>
     packet_id_initialized (co_packet_id opt) \<and> co_flags opt AND CO_IGNORE_PACKET_ID = 0 \<and>
     buf_ok dst \<and> buf_content dst = []"

definition wrapped_ok :: "buffer \<Rightarrow> buffer \<Rightarrow> bool" where
  "wrapped_ok dst src \<longleftrightarrow> buf_ok src \<and> 0 < b_len src \<and> b_len src \<le> buf_room dst"

lemma unwrap_step_eq:
  assumes inv: "unwrap_inv e d h dst opt" and src: "wrapped_ok dst src"
  shows "unwrap_step dst opt src now =
    (case tls_crypt_open d h (buf_content src) of
       None \<Rightarrow> Some (None, opt)
     | Some (i, p) \<Rightarrow> do { (fresh, opt1) \<leftarrow> co_check_replay opt i now; Some (if fresh then Some p else None, opt1) })"
proof -
  have g: "ctr_pair e d" "hmac_ok h" "kc_cipher (co_decrypt opt) = Some d" "kc_hmac (co_decrypt opt) = Some h"
    "packet_id_initialized (co_packet_id opt)" "co_flags opt AND CO_IGNORE_PACKET_ID = 0" "buf_ok dst" "buf_content dst = []"
    using inv by (simp_all add: unwrap_inv_def tc_good_def)
  have s: "buf_ok src" "0 < b_len src" "b_len src \<le> buf_room dst" using src by (simp_all add: wrapped_ok_def)
  obtain b0 b1 where u: "tls_crypt_unwrap src dst opt now =
      (case tls_crypt_open d h (buf_content src) of
         None \<Rightarrow> Some (tls_crypt_error b0 opt)
       | Some (i, p) \<Rightarrow> do { (fresh, opt1) \<leftarrow> co_check_replay opt i now;
                            Some (if fresh then (True, b1, opt1) else tls_crypt_error b1 opt1) })"
    "\<forall>i p. tls_crypt_open d h (buf_content src) = Some (i, p) \<longrightarrow> buf_ok b1 \<and> buf_content b1 = p"
    using tls_crypt_unwrap_eq [OF g(3,4,1,2) s(1,2) g(7,8,5,6) s(3)] by blast
  show ?thesis
  proof (cases "tls_crypt_open d h (buf_content src)")
    case None
    then show ?thesis using u(1) by (simp add: unwrap_step_def tls_crypt_error_def)
  next
    case (Some ip)
    obtain i p where ip: "tls_crypt_open d h (buf_content src) = Some (i, p)" using Some by (cases ip) simp
    show ?thesis
    proof (cases "co_check_replay opt i now")
      case None
      then show ?thesis using u(1) ip by (simp add: unwrap_step_def)
    next
      case (Some fo)
      then show ?thesis using u ip by (cases fo) (simp add: unwrap_step_def tls_crypt_error_def)
    qed
  qed
qed

interpretation tcr: packet_receiver tc_good tc_sealed tc_opened
  "\<lambda>opt. (e, d, h)" "\<lambda>opt. p_rec (co_packet_id opt)" "unwrap_inv e d h dst" buf_content "wrapped_ok dst" "unwrap_step dst"
  for e d h dst
proof unfold_locales
  fix opt src now i p ok r
  assume inv: "unwrap_inv e d h dst opt"
  show "tc_good (e, d, h)" using inv by (simp add: unwrap_inv_def)
  assume src: "wrapped_ok dst src"
  note step = unwrap_step_eq [OF inv src, of now]
  show "tc_opened (e, d, h) (buf_content src) = None \<Longrightarrow> unwrap_step dst opt src now = Some (None, opt)"
    using step by (simp add: tc_opened_def)
  assume op: "tc_opened (e, d, h) (buf_content src) = Some (i, p)"
    and c: "crypto_check_replay (p_rec (co_packet_id opt)) i now = Some (ok, r)"
  obtain opt1 where o1: "co_check_replay opt i now = Some (ok, opt1)" "p_rec (co_packet_id opt1) = r"
    "co_decrypt opt1 = co_decrypt opt" "co_flags opt1 = co_flags opt"
    by (rule co_check_replay_Some [OF c])
  have "unwrap_inv e d h dst opt1"
    using inv o1 crypto_check_replay_initialized [OF c] by (simp add: unwrap_inv_def packet_id_initialized_def)
  then show "\<exists>opt'. unwrap_step dst opt src now = Some (if ok then Some p else None, opt') \<and>
      unwrap_inv e d h dst opt' \<and> p_rec (co_packet_id opt') = r \<and> (e, d, h) = (e, d, h)"
    using step op o1 by (auto simp: tc_opened_def)
qed

text \<open>
  C32. Control channel packets under \<open>--tls-crypt\<close> are handed on at most as often as they were sent: whatever
  arrives, as long as nothing is a correctly wrapped packet that the peer did not send, \<open>tls_crypt_unwrap\<close>
  never fails an assertion and yields only what the peer wrapped, each content no more often than wrapped.
\<close>

theorem control_packets_at_most_once:
  assumes "unwrap_inv e d h dst opt" and "packet_id_init sb tb nm un = Some (co_packet_id opt)"
    and "\<forall>x \<in> set xs. wrapped_ok dst (fst x) \<and> 1 < snd x"
    and "distinct (map fst sent)"
    and "\<forall>x \<in> set xs. \<forall>hdr i p. length hdr = 9 \<and> pin_long i \<and>
      tls_crypt_packet e h hdr i p = Some (buf_content (fst x)) \<longrightarrow> (i, p) \<in> set sent"
  shows "\<exists>out opt'. receiver_run (unwrap_step dst) opt xs = Some (out, opt') \<and> mset out \<subseteq># mset (map snd sent)"
proof -
  have r: "pid_rec_ok (p_rec (co_packet_id opt))" "pid_seen {} (p_rec (co_packet_id opt))"
    using packet_id_init_ok(1) [OF assms(2)] by (simp_all add: pid_seen_def)
  have "(i, p) \<in> set sent" if "x \<in> set xs" "tc_sealed (e, d, h) i p (buf_content (fst x))" for x i p
    using that assms(5) by (auto simp: tc_sealed_def)
  then show ?thesis using tcr.run_at_most_once [OF assms(1) r assms(3,4)] by blast
qed

text \<open>
  C33. A control packet wrapped by one end is unwrapped by the other to what it was, when its identifier is fresh.
\<close>

theorem tls_crypt_roundtrip:
  assumes "tc_good (e, d, h)" and "kc_cipher (co_encrypt s) = Some e" and "kc_hmac (co_encrypt s) = Some h"
    and "packet_id_initialized (co_packet_id s)" and "packet_id_send_update (p_send (co_packet_id s)) True now = (True, s')"
    and "buf_ok src" and "buf_ok dst" and "length (buf_content dst) = 9" and "8 + 32 + 16 + b_len src \<le> buf_room dst"
    and "unwrap_inv e d h rdst r" and "49 + b_len src \<le> buf_room rdst"
    and "crypto_check_replay (p_rec (co_packet_id r)) (pid_on_wire s' True) now' = Some (True, w)"
  shows "\<exists>b r'. tls_crypt_wrap src dst s now = Some (True, b, co_set_send s s') \<and>
    unwrap_step rdst r b now' = Some (Some (buf_content src), r')"
proof -
  have g: "ctr_pair e d" "hmac_ok h" using assms(1) by (simp_all add: tc_good_def)
  obtain b where b: "tls_crypt_wrap src dst s now = Some (True, b, co_set_send s s')" "buf_ok b"
    "tls_crypt_packet e h (buf_content dst) (pid_on_wire s' True) (buf_content src) = Some (buf_content b)"
    using tls_crypt_wrap_ok [OF assms(2,3) g assms(6,7,4,5,9)] by blast
  have pin: "pin_long (pid_on_wire s' True)"
    using uint_lt2p [of "word_of_int (s_time s') :: u32"] by (simp add: pin_long_def pid_on_wire_def)
  have op: "tls_crypt_open d h (buf_content b) = Some (pid_on_wire s' True, buf_content src)"
    using tls_crypt_open_iff [OF g] pin assms(8) b(3) by blast
  have "length (buf_content b) = 49 + length (buf_content src)"
  proof -
    let ?t = "hc_hmac h ((buf_content dst @ pin_bytes (pid_on_wire s' True)) @ buf_content src)"
    obtain c where "cc_update e (take 16 ?t) [] (buf_content src) = Some c"
      "buf_content b = (buf_content dst @ pin_bytes (pid_on_wire s' True)) @ ?t @ c"
      using b(3) by (auto simp: tls_crypt_packet_def bind_eq_Some_conv Let_def)
    then show ?thesis using ctr_pairD(8) [OF g(1), of "take 16 ?t" "buf_content src"] assms(8) hmac_okD(2) [OF g(2)] by auto
  qed
  then have "wrapped_ok rdst b"
    using b(2) assms(6,11) length_buf_content [OF b(2)] length_buf_content [OF assms(6)] by (simp add: wrapped_ok_def)
  note st = unwrap_step_eq [OF assms(10) this, of now']
  obtain r' where "co_check_replay r (pid_on_wire s' True) now' = Some (True, r')" by (rule co_check_replay_Some [OF assms(12)])
  then show ?thesis using st op b(1) by auto
qed

section \<open>A stream cipher and a hash to try the properties on\<close>

definition demo_ctr :: cipher_ctx where
  "demo_ctr = \<lparr>cc_mode = OPENVPN_MODE_OTHER, cc_iv_length = 16, cc_block_size = 1, cc_reset = (\<lambda>_. True),
     cc_update = (\<lambda>iv ad p. Some p), cc_final = (\<lambda>iv ad p. Some []), cc_get_tag = (\<lambda>iv ad p. None),
     cc_final_check_tag = (\<lambda>iv ad p t. None)\<rparr>"

definition demo_hmac :: hmac_ctx where
  "demo_hmac = \<lparr>hc_size = 32, hc_hmac = (\<lambda>m. take 32 (rev m @ replicate 32 7))\<rparr>"

definition demo_ctl_opts :: crypto_options where
  "demo_ctl_opts = \<lparr>co_encrypt = \<lparr>kc_cipher = Some demo_ctr, kc_hmac = Some demo_hmac, kc_implicit_iv = [], kc_implicit_iv_len = 0\<rparr>,
     co_decrypt = \<lparr>kc_cipher = Some demo_ctr, kc_hmac = Some demo_hmac, kc_implicit_iv = [], kc_implicit_iv_len = 0\<rparr>,
     co_packet_id = the (packet_id_init 64 15 ''ctl'' 0), co_pid_persist = None, co_flags = 1\<rparr>"

lemma demo_tc_good: "tc_good (demo_ctr, demo_ctr, demo_hmac)"
  by (auto simp: tc_good_def ctr_pair_def hmac_ok_def demo_ctr_def demo_hmac_def)

lemma demo_ctl_init: "packet_id_init 64 15 ''ctl'' 0 = Some (co_packet_id demo_ctl_opts)"
  "packet_id_initialized (co_packet_id demo_ctl_opts)" "p_send (co_packet_id demo_ctl_opts) = \<lparr>s_id = 0, s_time = 0\<rparr>"
  "r_time (p_rec (co_packet_id demo_ctl_opts)) = 0" "r_id (p_rec (co_packet_id demo_ctl_opts)) = 0"
  by (simp_all add: demo_ctl_opts_def packet_id_init_def MAX_SEQ_BACKTRACK_def MAX_TIME_BACKTRACK_def packet_id_initialized_def)

lemma demo_unwrap_inv: "unwrap_inv demo_ctr demo_ctr demo_hmac (demo_buf []) demo_ctl_opts"
  using demo_tc_good demo_ctl_init(2) demo_buf_ok [of "[]"]
  by (simp add: unwrap_inv_def demo_ctl_opts_def CO_IGNORE_PACKET_ID_def)

lemma demo_ctl_fresh:
  "\<exists>w. crypto_check_replay (p_rec (co_packet_id demo_ctl_opts)) (pid_on_wire \<lparr>s_id = 1, s_time = 100\<rparr> True) 101 = Some (True, w)"
proof -
  let ?r = "p_rec (co_packet_id demo_ctl_opts)" and ?pin = "pid_on_wire \<lparr>s_id = 1, s_time = 100\<rparr> True"
  have pin: "n_id ?pin = 1" "n_time ?pin = 100" by (simp_all add: pid_on_wire_def)
  then have a: "pid_accepts ?r ?pin" using demo_ctl_init(4) by (intro pid_acceptsI) simp_all
  show ?thesis
    using crypto_check_replay_newer [OF packet_id_init_ok(1) [OF demo_ctl_init(1)] a, of 101] pin demo_ctl_init(4) by auto
qed

lemma tls_crypt_roundtrip_witness:
  "\<exists>b s r'. tls_crypt_wrap (demo_buf [5, 6]) (demo_buf (replicate 9 1)) demo_ctl_opts 100 = Some (True, b, s) \<and>
    unwrap_step (demo_buf []) demo_ctl_opts b 101 = Some (Some [5, 6], r')"
proof -
  obtain w where w: "crypto_check_replay (p_rec (co_packet_id demo_ctl_opts)) (pid_on_wire \<lparr>s_id = 1, s_time = 100\<rparr> True) 101 = Some (True, w)"
    using demo_ctl_fresh by blast
  have s: "packet_id_send_update (p_send (co_packet_id demo_ctl_opts)) True 100 = (True, \<lparr>s_id = 1, s_time = 100\<rparr>)"
    by (simp add: demo_ctl_init(3) packet_id_send_update_def PACKET_ID_MAX_def)
  have k: "kc_cipher (co_encrypt demo_ctl_opts) = Some demo_ctr" "kc_hmac (co_encrypt demo_ctl_opts) = Some demo_hmac"
    by (simp_all add: demo_ctl_opts_def)
  from tls_crypt_roundtrip [OF demo_tc_good k demo_ctl_init(2) s _ _ _ _ demo_unwrap_inv _ w, of "demo_buf [5, 6]" "demo_buf (replicate 9 1)"]
  show ?thesis using demo_buf_ok [of "[5, 6]"] demo_buf_ok [of "replicate 9 1"] demo_buf_ok [of "[]"] by auto
qed

lemma control_packets_at_most_once_witness:
  "\<exists>src out opt'. tls_crypt_packet demo_ctr demo_hmac (replicate 9 1) \<lparr>n_id = 1, n_time = 100\<rparr> [5, 6] = Some (buf_content src) \<and>
    receiver_run (unwrap_step (demo_buf [])) demo_ctl_opts [(src, 100), (src, 101)] = Some (out, opt') \<and> mset out \<subseteq># {#[5, 6]#}"
proof -
  let ?i = "\<lparr>n_id = 1, n_time = 100\<rparr> :: packet_id_net" and ?h9 = "replicate 9 1 :: bytes"
  obtain x where x: "tls_crypt_packet demo_ctr demo_hmac ?h9 ?i [5, 6] = Some x"
    by (simp add: tls_crypt_packet_def demo_ctr_def Let_def)
  have xl: "length x = 51"
    using x by (auto simp: tls_crypt_packet_def demo_ctr_def demo_hmac_def Let_def)
  let ?src = "demo_buf x"
  have c: "buf_content ?src = x" "buf_ok ?src" "b_len ?src = 51" using demo_buf_ok [of x] xl by simp_all
  have g: "ctr_pair demo_ctr demo_ctr" "hmac_ok demo_hmac" using demo_tc_good by (simp_all add: tc_good_def)
  have "pin_long ?i" by (simp add: pin_long_def)
  then have o1: "tls_crypt_open demo_ctr demo_hmac x = Some (?i, [5, 6])"
    using tls_crypt_open_iff [OF g] x by (metis length_replicate)
  have same: "(i, p) = (?i, [5, 6])" if "length hdr = 9" "pin_long i" "tls_crypt_packet demo_ctr demo_hmac hdr i p = Some (buf_content ?src)" for hdr i p
    using tls_crypt_open_iff [OF g, of x i p] that o1 c(1) by auto
  have "wrapped_ok (demo_buf []) ?src" using c demo_buf_ok [of "[]"] by (simp add: wrapped_ok_def)
  then have w: "\<forall>x \<in> set [(?src, 100::int), (?src, 101)]. wrapped_ok (demo_buf []) (fst x) \<and> 1 < snd x" by simp
  have nf: "\<forall>x \<in> set [(?src, 100::int), (?src, 101)]. \<forall>hdr i p. length hdr = 9 \<and> pin_long i \<and>
      tls_crypt_packet demo_ctr demo_hmac hdr i p = Some (buf_content (fst x)) \<longrightarrow> (i, p) \<in> set [(?i, [5, 6])]"
    using same by fastforce
  obtain out opt' where "receiver_run (unwrap_step (demo_buf [])) demo_ctl_opts [(?src, 100), (?src, 101)] = Some (out, opt')"
    "mset out \<subseteq># {#[5, 6]#}"
    using control_packets_at_most_once [OF demo_unwrap_inv demo_ctl_init(1) w _ nf] by (auto simp del: receiver_run.simps)
  then show ?thesis using x by (intro exI [of _ ?src]) (simp add: c(1) del: receiver_run.simps)
qed

section \<open>Client keys survive wrapping\<close>

lemma bytes_u16_len: "0 \<le> n \<Longrightarrow> n < 65536 \<Longrightarrow> uint (bytes_u16 (u16_bytes (word_of_int n))) = n"
  by (simp add: uint_word_of_int)

text \<open>The wrapped key: the tag, the encrypted key and metadata, and the length of it all.\<close>

definition wrapped_key :: "cipher_ctx \<Rightarrow> hmac_ctx \<Rightarrow> bytes \<Rightarrow> bytes \<Rightarrow> bytes option" where
  "wrapped_key e h key m =
     do { let len = u16_bytes (word_of_int (int (length key) + int (length m) + 34));
          let t = hc_hmac h (len @ key @ m);
          c \<leftarrow> cc_update e (take 16 t) [] (key @ m);
          Some (t @ c @ len) }"

lemma cipher_output_nil_end:
  assumes "buf_ok b"
  shows "cipher_output b (b_offset b + b_len b) [] = Some b"
  using cipher_output_ok [OF assms, of "[]"] buf_room_nonneg [OF assms] assms
  by (elim buf_okE) (simp add: buf_append_def Let_def)

lemma tls_crypt_v2_wrap_ok:
  assumes k: "kc_cipher sk = Some e" "kc_hmac sk = Some h" "ctr_pair e d" "hmac_ok h"
    and src: "length key = 256" "buf_ok md" "b_len md \<le> 734"
    and wkc: "buf_ok wkc" "b_len md + 290 \<le> buf_room wkc"
  shows "\<exists>x. tls_crypt_v2_wrap_client_key wkc key md sk = Some (True, buf_append wkc x) \<and>
    wrapped_key e h key (buf_content md) = Some x \<and> int (length x) = b_len md + 290"
proof -
  let ?m = "buf_content md"
  have ml: "int (length ?m) = b_len md" by (rule length_buf_content [OF src(2)])
  have m0: "0 \<le> b_len md" using buf_ok_bounds [OF src(2)] by simp
  note num = TLS_CRYPT_TAG_SIZE_def TLS_CRYPT_V2_MAX_WKC_LEN_def TLS_CRYPT_V2_TAG_SIZE_def
  have bs: "0 \<le> cc_block_size e" "cc_block_size e \<le> 16" using ctr_pairD(3,4) [OF k(3)] by simp_all
  define w0 where "w0 = \<lparr>b_capacity = 1024 + cc_block_size e, b_offset = 0, b_len = 0,
    b_data = Some (replicate (nat (1024 + cc_block_size e)) 0)\<rparr>"
  have w0: "alloc_buf (1024 + cc_block_size e) = Some w0" "buf_ok w0" "buf_content w0 = []" "b_offset w0 = 0" "b_len w0 = 0"
    "buf_room w0 = 1024 + cc_block_size e"
    using bs by (simp_all add: w0_def alloc_buf_def buf_size_valid_def buf_ok_def buf_content_def buf_room_def BUF_SIZE_MAX_def)
  obtain gap w1 where w1: "buf_write_alloc w0 32 = (Some (b_offset w0 + b_len w0), w1)" "int (length gap) = 32"
    "buf_ok w1" "buf_content w1 = buf_content w0 @ gap" "b_offset w1 = b_offset w0" "b_len w1 = b_len w0 + 32"
    "b_capacity w1 = b_capacity w0" "buf_room w1 = buf_room w0 - 32"
    by (rule buf_write_alloc_ok [of w0 32]) (use w0 bs in auto)
  define len where "len = u16_bytes (word_of_int (int (length key) + int (length ?m) + 34))"
  define t where "t = hc_hmac h (len @ key @ ?m)"
  have tl: "length t = 32" "length len = 2" using hmac_okD(2) [OF k(4)] by (simp_all add: t_def len_def)
  obtain w2 where w2: "buf_store w1 0 t = Some w2" "buf_ok w2" "buf_content w2 = [] @ t @ []" "b_offset w2 = b_offset w1"
    "b_len w2 = b_len w1" "b_capacity w2 = b_capacity w1"
    by (rule buf_store_inside [OF w1(3), of "[]" gap "[]" 0 t]) (use w0 w1 tl in auto)
  have r2: "buf_room w2 = 992 + cc_block_size e" using w0(6) w1(8) w2 by (simp add: buf_room_def)
  obtain c where c: "cc_update e (take 16 t) [] (key @ ?m) = Some c" "length c = length (key @ ?m)"
    using ctr_pairD(8) [OF k(3), of "take 16 t" "key @ ?m"] by blast
  have c1: "cc_update e (take 16 t) [] key = Some (take 256 c)"
    using ctr_pairD(10) [OF k(3) c(1)] src(1) by simp
  define w3 where "w3 = buf_append w2 (take 256 c)"
  have l1: "int (length (take 256 c)) = 256" "int (length (drop 256 c)) = b_len md" using c(2) src(1) ml by simp_all
  have w3: "cipher_output w2 (b_offset w2 + b_len w2) (take 256 c) = Some w3" "buf_ok w3" "buf_content w3 = t @ take 256 c"
    "buf_room w3 = 736 + cc_block_size e"
    using cipher_output_ok [OF w2(2), of "take 256 c"] w2(2,3) l1 r2 bs by (simp_all add: w3_def)
  define w4 where "w4 = buf_append w3 (drop 256 c)"
  have w4: "cipher_output w3 (b_offset w3 + b_len w3) (drop 256 c) = Some w4" "buf_ok w4" "buf_content w4 = t @ c"
    "buf_room w4 = 736 + cc_block_size e - b_len md"
    using cipher_output_ok [OF w3(2), of "drop 256 c"] w3(2,3,4) l1 src(3) bs by (simp_all add: w4_def)
  have w5: "cipher_output w4 (b_offset w4 + b_len w4) [] = Some w4"
    by (rule cipher_output_nil_end [OF w4(2)])
  define w6 where "w6 = buf_append w4 len"
  have w6: "buf_write w4 len = Some (True, w6)" "buf_ok w6" "buf_content w6 = t @ c @ len"
    using w4 tl(2) src(3) bs by (simp_all add: w6_def buf_write_ok)
  have fwd: "buf_forward_capacity w2 = 992 + cc_block_size e"
    using w2(2) r2 bs by (simp add: buf_forward_capacity_def buf_room_def Let_def)
  have rs: "cc_reset e (take 16 t)" using ctr_pairD(5) [OF k(3)] tl by simp
  have iv: "cc_iv_length e = 16" "cc_final e (take 16 t) [] (key @ ?m) = Some []"
    using ctr_pairD(1,6) [OF k(3)] by simp_all
  have len': "u16_bytes (word_of_int (int (length key) + int (length ?m) + 32 + 2)) = len"
  proof -
    have "int (length key) + int (length ?m) + 32 + 2 = int (length key) + int (length ?m) + 34" by simp
    then show ?thesis by (simp only: len_def)
  qed
  have x: "int (length (t @ c @ len)) = b_len md + 290" using tl c(2) src(1) ml by simp
  have cp: "buf_copy wkc w6 = Some (True, buf_append wkc (t @ c @ len))"
    using w6(2,3) wkc x by (simp add: buf_copy_def buf_write_ok)
  have "tls_crypt_v2_wrap_client_key wkc key md sk = Some (True, buf_append wkc (t @ c @ len))"
    unfolding tls_crypt_v2_wrap_client_key_def Let_def k(1,2) num
    using w0(1,4,5) w1(1) src(1,2) len' t_def w2(1,2) fwd rs iv c(1) c1 l1 w3(1,2) w4(1,2) w5 w6(1) cp src(3) ml
    by (simp add: ml)
  moreover have "wrapped_key e h key ?m = Some (t @ c @ len)"
    using c(1) by (simp add: wrapped_key_def Let_def t_def len_def)
  ultimately show ?thesis using x by blast
qed

lemma u16_self_len:
  assumes "length key = 256" "int (length m) \<le> 734"
  shows "uint (bytes_u16 (u16_bytes (word_of_int (int (length key) + int (length m) + 34)))) = int (length m) + 290"
  using bytes_u16_len [of "int (length key) + int (length m) + 34"] assms by simp

lemma buf_inc_len_neg:
  assumes "buf_ok b" "0 \<le> n" "n \<le> b_len b"
  shows "buf_inc_len b (- n) = (True, b\<lparr>b_len := b_len b - n\<rparr>)" "buf_ok (b\<lparr>b_len := b_len b - n\<rparr>)"
    "buf_content (b\<lparr>b_len := b_len b - n\<rparr>) = take (nat (b_len b - n)) (buf_content b)"
proof -
  obtain d where d: "b_data b = Some d" "int (length d) = b_capacity b" "0 \<le> b_offset b"
    "0 \<le> b_len b" "b_offset b + b_len b \<le> int (length d)" "b_capacity b < BUF_SIZE_MAX" "buf_valid b"
    using assms(1) by (rule buf_okE)
  show "buf_inc_len b (- n) = (True, b\<lparr>b_len := b_len b - n\<rparr>)"
    using d assms by (simp add: buf_inc_len_def buf_safe_bidir_def buf_size_valid_signed_def BUF_SIZE_MAX_def)
  show "buf_ok (b\<lparr>b_len := b_len b - n\<rparr>)" using d assms by (simp add: buf_ok_def)
  have "nat (b_len b - n) \<le> nat (b_len b)" using assms by simp
  then show "buf_content (b\<lparr>b_len := b_len b - n\<rparr>) = take (nat (b_len b - n)) (buf_content b)"
    using d(1) by (simp add: buf_content_def min_absorb1)
qed

lemma tls_crypt_v2_unwrap_ok:
  assumes k: "kc_cipher sk = Some d" "kc_hmac sk = Some h" "ctr_pair e d" "hmac_ok h"
    and x: "wrapped_key e h key m = Some (buf_content wkc)" "length key = 256" "int (length m) \<le> 734"
    and wkc: "buf_ok wkc"
    and md: "buf_ok md" "int (length m) \<le> buf_room md"
  shows "tls_crypt_v2_unwrap_client_key md wkc sk = Some (True, key, buf_append md m)"
proof -
  note num = TLS_CRYPT_TAG_SIZE_def TLS_CRYPT_V2_MAX_WKC_LEN_def
  define len where "len = u16_bytes (word_of_int (int (length key) + int (length m) + 34))"
  define t where "t = hc_hmac h (len @ key @ m)"
  have tl: "length t = 32" "length len = 2" using hmac_okD(2) [OF k(4)] by (simp_all add: t_def len_def)
  obtain c where c: "cc_update e (take 16 t) [] (key @ m) = Some c" "length c = length (key @ m)"
    "buf_content wkc = t @ c @ len"
  proof -
    from x(1) obtain c where "cc_update e (take 16 t) [] (key @ m) = Some c" "buf_content wkc = t @ c @ len"
      by (auto simp: wrapped_key_def Let_def t_def len_def bind_eq_Some_conv)
    with ctr_pairD(8) [OF k(3), of "take 16 t" "key @ m"] tl that show ?thesis by auto
  qed
  have L: "b_len wkc = int (length m) + 290" "int (length c) = int (length m) + 256"
    using length_buf_content [OF wkc] c(2,3) tl x(2) by simp_all
  have cl: "uint (bytes_u16 len) = b_len wkc" using u16_self_len [OF x(2,3)] L by (simp add: len_def)
  define chop where "chop = wkc\<lparr>b_len := b_len wkc - 2\<rparr>"
  have chop: "buf_inc_len wkc (- 2) = (True, chop)" "buf_ok chop" "buf_content chop = t @ c"
    using buf_inc_len_neg [OF wkc, of 2] L tl c(3) by (auto simp: chop_def)
  have adv: "buf_advance chop 32 = (True, buf_drop chop 32)" "buf_ok (buf_drop chop 32)" "buf_content (buf_drop chop 32) = c"
    using chop L tl by (simp_all add: buf_advance_ok chop_def)
  have ld: "buf_load wkc (b_offset wkc) 32 = Some t" "buf_load wkc (b_offset wkc + b_len wkc - 2) 2 = Some len"
    by (rule buf_load_content [OF wkc, of "[]" t "c @ len"]; simp add: c(3) tl)
       (rule buf_load_content [OF wkc, of "t @ c" len "[]"]; simp add: c(3) tl L)
  obtain p0 where p0: "buf_set_write (Some (replicate 1024 0)) 1024 = Some p0" "buf_ok p0" "buf_content p0 = []"
    "buf_room p0 = 1024" "b_offset p0 = 0"
    by (rule buf_set_write_ok [of "replicate 1024 0" 1024]) (auto simp: BUF_SIZE_MAX_def)
  have p0l: "b_len p0 = 0" using length_buf_content [OF p0(2)] p0(3) by simp
  define p1 where "p1 = buf_append p0 (key @ m)"
  have fits: "int (length (key @ m)) \<le> buf_room p0" using p0(4) x(2,3) by simp
  have p1: "cipher_output p0 0 (key @ m) = Some p1" "buf_ok p1" "buf_content p1 = key @ m" "b_offset p1 = 0"
    "b_len p1 = 256 + int (length m)"
    using cipher_output_ok [OF p0(2) fits] p0(2,3,5) fits p0l x(2) by (simp_all add: p1_def)
  have p2: "cipher_output p1 (b_len p1) [] = Some p1" using cipher_output_nil_end [OF p1(2)] p1(4) by simp
  have ldk: "buf_load p1 0 256 = Some key"
    using buf_load_content [OF p1(2), of "[]" key m 0 256] p1(3,4) x(2) by simp
  have adk: "buf_advance p1 256 = (True, buf_drop p1 256)" "buf_ok (buf_drop p1 256)" "buf_content (buf_drop p1 256) = m"
    using p1 x(2) by (simp_all add: buf_advance_ok)
  have cpy: "buf_copy md (buf_drop p1 256) = Some (True, buf_append md m)"
    using buf_copy_ok [OF md(1) adk(2)] length_buf_content [OF adk(2)] md(2) adk(3) by simp
  have rs: "cc_reset d (take 16 t)" using ctr_pairD(5) [OF k(3)] tl by simp
  have iv: "cc_iv_length d = 16" "cc_final d (take 16 t) [] c = Some []" "cc_update d (take 16 t) [] c = Some (key @ m)"
    using ctr_pairD(2,7,11) [OF k(3)] c(1) by simp_all
  have tt: "take 32 (hc_hmac h (len @ key @ m)) = t" using tl by (simp add: t_def)
  have wl: "buf_len wkc = b_len wkc" "\<not> 1024 < b_len wkc" "\<not> b_len wkc < 2" using wkc L x(3) by (simp_all add: length_buf_content)
  have n: "nat 1024 = 1024" "nat 32 = 32" "nat 16 = 16" by simp_all
  have bl: "buf_len p1 = 256 + int (length m)" "\<not> 256 + int (length m) < 256" using p1 x(2) by simp_all
  show ?thesis
    unfolding tls_crypt_v2_unwrap_client_key_def Let_def k(1,2) num TLS_CRYPT_V2_CLIENT_KEY_LEN_def TLS_CRYPT_V2_TAG_SIZE_def num wl(1)
    using wl(2,3) cl ld chop(1) adv rs iv p0(1,2,5) p1(1,2,4) p2 tt ldk adk(1) cpy wkc p1(3) bl
    by (simp add: n)
qed

text \<open>C34. A client key that was wrapped under the server's key, with metadata of at most 734 octets, is unwrapped by
  the holder of that key to the same key and the same metadata.\<close>

theorem tls_crypt_v2_key_roundtrip:
  assumes "kc_cipher sk = Some e" "kc_hmac sk = Some h" "kc_cipher sk' = Some d" "kc_hmac sk' = Some h"
    and pair: "ctr_pair e d" "hmac_ok h"
    and src: "length key = 256" "buf_ok md" "b_len md \<le> 734"
    and wkc: "buf_ok wkc" "buf_content wkc = []" "b_len md + 290 \<le> buf_room wkc"
    and out: "buf_ok out" "b_len md \<le> buf_room out"
  shows "\<exists>w. tls_crypt_v2_wrap_client_key wkc key md sk = Some (True, w) \<and> buf_ok w \<and> b_len w = b_len md + 290 \<and>
    tls_crypt_v2_unwrap_client_key out w sk' = Some (True, key, buf_append out (buf_content md))"
proof -
  have ml: "int (length (buf_content md)) = b_len md" by (rule length_buf_content [OF src(2)])
  obtain x where x: "tls_crypt_v2_wrap_client_key wkc key md sk = Some (True, buf_append wkc x)"
    "wrapped_key e h key (buf_content md) = Some x" "int (length x) = b_len md + 290"
    using tls_crypt_v2_wrap_ok [OF assms(1,2) pair src wkc(1,3)] by blast
  have w: "buf_ok (buf_append wkc x)" "buf_content (buf_append wkc x) = x" "b_len (buf_append wkc x) = b_len md + 290"
    using wkc x(3) length_buf_content [OF wkc(1)] by simp_all
  have "tls_crypt_v2_unwrap_client_key out (buf_append wkc x) sk' = Some (True, key, buf_append out (buf_content md))"
    by (rule tls_crypt_v2_unwrap_ok [OF assms(3,4) pair])
       (use x(2) w(1,2) src out ml in simp_all)
  then show ?thesis using x(1) w by blast
qed

lemma tls_crypt_v2_key_roundtrip_witness:
  "\<exists>w. tls_crypt_v2_wrap_client_key (the (alloc_buf 1024)) (replicate 256 9) (demo_buf [1, 2, 3]) (co_encrypt demo_ctl_opts) = Some (True, w) \<and>
    tls_crypt_v2_unwrap_client_key (demo_buf []) w (co_decrypt demo_ctl_opts) = Some (True, replicate 256 9, buf_append (demo_buf []) [1, 2, 3])"
proof -
  have k: "kc_cipher (co_encrypt demo_ctl_opts) = Some demo_ctr" "kc_hmac (co_encrypt demo_ctl_opts) = Some demo_hmac"
    "kc_cipher (co_decrypt demo_ctl_opts) = Some demo_ctr" "kc_hmac (co_decrypt demo_ctl_opts) = Some demo_hmac"
    by (simp_all add: demo_ctl_opts_def)
  have g: "ctr_pair demo_ctr demo_ctr" "hmac_ok demo_hmac" using demo_tc_good by (simp_all add: tc_good_def)
  have a: "buf_ok (the (alloc_buf 1024))" "buf_content (the (alloc_buf 1024)) = []" "buf_room (the (alloc_buf 1024)) = 1024"
    by (simp_all add: alloc_buf_def buf_size_valid_def buf_ok_def buf_content_def buf_room_def BUF_SIZE_MAX_def)
  show ?thesis
    using tls_crypt_v2_key_roundtrip [OF k g _ _ _ a(1,2), of "replicate 256 9" "demo_buf [1, 2, 3]" "demo_buf []"]
      demo_buf_ok [of "[1, 2, 3]"] demo_buf_ok [of "[]"] a(3) by auto
qed

text \<open>A wrapped key has its tag, 32 octets, the key, 256, and its length, 2; fewer are refused.\<close>

lemma unwrap_short:
  assumes k: "kc_cipher sk = Some d" "kc_hmac sk = Some h" "ctr_pair e d" "hmac_ok h"
    and wkc: "buf_ok wkc" "b_len wkc < 290"
  shows "tls_crypt_v2_unwrap_client_key m wkc sk = Some (False, replicate (nat TLS_CRYPT_V2_CLIENT_KEY_LEN) 0, m)"
proof -
  note num = TLS_CRYPT_TAG_SIZE_def TLS_CRYPT_V2_MAX_WKC_LEN_def TLS_CRYPT_V2_CLIENT_KEY_LEN_def
  let ?failed = "Some (False, replicate (nat TLS_CRYPT_V2_CLIENT_KEY_LEN) 0, m)"
  have wl: "buf_len wkc = b_len wkc" using wkc(1) by (simp add: length_buf_content)
  show ?thesis
  proof (cases "b_len wkc < 2")
    case True
    then show ?thesis using wkc by (simp add: tls_crypt_v2_unwrap_client_key_def Let_def wl)
  next
    case two: False
    define len where "len = drop (nat (b_len wkc - 2)) (buf_content wkc)"
    have ll: "length len = 2" using two length_buf_content [OF wkc(1)] by (simp add: len_def)
    have ld: "buf_load wkc (b_offset wkc + b_len wkc - 2) 2 = Some len"
      using buf_load_ok [OF wkc(1), of "b_offset wkc + b_len wkc - 2" 2] two ll by (simp add: len_def)
    define chop where "chop = wkc\<lparr>b_len := b_len wkc - 2\<rparr>"
    have chop: "buf_inc_len wkc (- 2) = (True, chop)" "buf_ok chop" "b_len chop = b_len wkc - 2"
      using buf_inc_len_neg [OF wkc(1), of 2] two by (simp_all add: chop_def)
    show ?thesis
    proof (cases "uint (bytes_u16 len) = b_len wkc \<and> 34 \<le> b_len wkc")
      case False
      have "buf_advance chop 32 = (False, chop)" if "b_len wkc < 34" using that chop(2,3) by (simp add: buf_advance_ok)
      then show ?thesis using two ld chop(1) False wkc num
        unfolding tls_crypt_v2_unwrap_client_key_def Let_def wl by auto
    next
      case announced: True
      have adv: "buf_advance chop 32 = (True, buf_drop chop 32)" "buf_ok (buf_drop chop 32)" "b_len (buf_drop chop 32) = b_len wkc - 34"
        using chop announced by (simp_all add: buf_advance_ok)
      define t where "t = take 32 (buf_content wkc)"
      have tl: "length t = 32" using announced length_buf_content [OF wkc(1)] by (simp add: t_def)
      have ldt: "buf_load wkc (b_offset wkc) 32 = Some t"
        using buf_load_ok [OF wkc(1), of "b_offset wkc" 32] announced by (simp add: t_def)
      define c where "c = buf_content (buf_drop chop 32)"
      have cl: "int (length c) = b_len wkc - 34" using length_buf_content [OF adv(2)] adv(3) by (simp add: c_def)
      obtain x where x: "cc_update d (take 16 t) [] c = Some x" "length x = length c"
        using ctr_pairD(9) [OF k(3), of "take 16 t" c] by blast
      have rs: "cc_reset d (take 16 t)" "cc_iv_length d = 16" "cc_final d (take 16 t) [] c = Some []"
        using ctr_pairD(2,5,7) [OF k(3)] tl by simp_all
      obtain p0 where p0: "buf_set_write (Some (replicate 1024 0)) 1024 = Some p0" "buf_ok p0" "buf_content p0 = []"
        "buf_room p0 = 1024" "b_offset p0 = 0"
        by (rule buf_set_write_ok [of "replicate 1024 0" 1024]) (auto simp: BUF_SIZE_MAX_def)
      have p0l: "b_len p0 = 0" using length_buf_content [OF p0(2)] p0(3) by simp
      define p1 where "p1 = buf_append p0 x"
      have fits: "int (length x) \<le> buf_room p0" using p0(4) x(2) cl wkc(2) by simp
      have p1: "cipher_output p0 0 x = Some p1" "buf_ok p1" "buf_content p1 = x" "b_offset p1 = 0" "b_len p1 = b_len wkc - 34"
        using cipher_output_ok [OF p0(2) fits] p0(2,3,5) fits p0l x(2) cl by (simp_all add: p1_def)
      have p2: "cipher_output p1 (b_len p1) [] = Some p1" using cipher_output_nil_end [OF p1(2)] p1(4) by simp
      have bl: "buf_len p1 = b_len wkc - 34" "b_len wkc - 34 < 256" "\<not> 1024 < b_len wkc" using p1(2,5) wkc(2) length_buf_content by simp_all
      have n: "nat 1024 = 1024" "nat 32 = 32" "nat 16 = 16" by simp_all
      show ?thesis
        unfolding tls_crypt_v2_unwrap_client_key_def Let_def k(1,2) num wl
        using two announced ld chop(1) adv(1,2) ldt rs x(1) p0(1,2,5) p1(1,2,4) p2 wkc(1) bl p1(3)
        by (simp add: n c_def [symmetric])
    qed
  qed
qed

text \<open>
  C35. A packet that is too short for a wrapped client key is refused. The length of the key is taken from the last two octets
  before the end of the packet. When these lie in the memory of the buffer, and announce less than a wrapped key has, 290
  octets, or more than the packet has, as they must when the packet is shorter than that, the packet is refused and neither it
  nor the mode or the keys of the session change. For a packet of fewer than two octets the code reports that it has no
  length and reads these octets all the same, from in front of the packet: where the buffer has no room there, the read
  is outside of its memory.
\<close>

theorem tls_crypt_v2_short_packet:
  assumes "kc_cipher (tw_tls_crypt_v2_server_key ctx) = Some d" and "kc_hmac (tw_tls_crypt_v2_server_key ctx) = Some h"
    and "ctr_pair e d" and "hmac_ok h" and "buf_ok buf"
  shows "case buf_load buf (b_offset buf + b_len buf - 2) 2 of
      None \<Rightarrow> b_offset buf + b_len buf < 2 \<and> tls_crypt_v2_extract_client_key load_key verify buf ctx = None
    | Some len \<Rightarrow> 2 \<le> b_offset buf + b_len buf \<and>
        (b_len buf < 290 \<or> uint (bytes_u16 len) < 290 \<or> b_len buf < uint (bytes_u16 len) \<longrightarrow>
           (\<exists>ctx'. tls_crypt_v2_extract_client_key load_key verify buf ctx = Some (False, buf, ctx') \<and>
              tw_mode ctx' = tw_mode ctx \<and> tw_opt ctx' = tw_opt ctx))"
proof -
  obtain dt where dt: "b_data buf = Some dt" "int (length dt) = b_capacity buf" "0 \<le> b_offset buf"
    "0 \<le> b_len buf" "b_offset buf + b_len buf \<le> int (length dt)"
    using assms(5) by (rule buf_okE)
  show ?thesis
  proof (cases "b_offset buf + b_len buf < 2")
    case True
    then have "buf_load buf (b_offset buf + b_len buf - 2) 2 = None" using dt by (simp add: buf_load_def mem_read_def)
    then show ?thesis using True assms(1,5) by (simp add: tls_crypt_v2_extract_client_key_def)
  next
    case far: False
    then obtain x where x: "buf_load buf (b_offset buf + b_len buf - 2) 2 = Some x"
      using dt by (simp add: buf_load_def mem_read_Some)
    let ?n = "uint (bytes_u16 x)"
    have m: "alloc_buf TLS_CRYPT_V2_MAX_METADATA_LEN \<noteq> None"
      by (simp add: alloc_buf_def buf_size_valid_def BUF_SIZE_MAX_def TLS_CRYPT_V2_MAX_METADATA_LEN_def
          TLS_CRYPT_V2_MAX_WKC_LEN_def TLS_CRYPT_V2_CLIENT_KEY_LEN_def TLS_CRYPT_V2_TAG_SIZE_def TLS_CRYPT_TAG_SIZE_def)
    have bl: "buf_len buf = b_len buf" using assms(5) by (simp add: length_buf_content)
    have "\<exists>ctx'. tls_crypt_v2_extract_client_key load_key verify buf ctx = Some (False, buf, ctx') \<and>
        tw_mode ctx' = tw_mode ctx \<and> tw_opt ctx' = tw_opt ctx" if short: "b_len buf < 290 \<or> ?n < 290 \<or> b_len buf < ?n"
    proof (cases "?n \<le> b_len buf")
      case True
      have a: "buf_advance buf (b_len buf - ?n) = (True, buf_drop buf (b_len buf - ?n))"
        using True assms(5) by (simp add: buf_advance_ok)
      have w: "buf_ok (buf_drop buf (b_len buf - ?n))" "b_len (buf_drop buf (b_len buf - ?n)) < 290"
        using True assms(5) short dt(4) by auto
      show ?thesis
        using x a m assms(1,5) by (auto simp: tls_crypt_v2_extract_client_key_def Let_def bl unwrap_short [OF assms(1-4) w])
    next
      case False
      then have "buf_advance buf (b_len buf - ?n) = (False, buf)" using assms(5) by (simp add: buf_advance_ok)
      then show ?thesis using x assms(1,5) by (auto simp: tls_crypt_v2_extract_client_key_def Let_def bl)
    qed
    then show ?thesis using far x by simp
  qed
qed

definition demo_server_ctx :: tls_wrap_ctx where
  "demo_server_ctx = \<lparr>tw_mode = TLS_WRAP_NONE, tw_opt = demo_ctl_opts, tw_work = demo_buf [],
     tw_tls_crypt_v2_server_key = co_decrypt demo_ctl_opts, tw_tls_crypt_v2_wkc = None,
     tw_tls_crypt_v2_metadata = demo_buf [], tw_cleanup_key_ctx = False\<rparr>"

lemma tls_crypt_v2_short_packet_witness:
  "tls_crypt_v2_extract_client_key (\<lambda>_. (co_encrypt demo_ctl_opts, co_decrypt demo_ctl_opts)) None
     \<lparr>b_capacity = 4, b_offset = 0, b_len = 1, b_data = Some [1, 2, 3, 4]\<rparr> demo_server_ctx = None \<and>
   (\<exists>c. tls_crypt_v2_extract_client_key (\<lambda>_. (co_encrypt demo_ctl_opts, co_decrypt demo_ctl_opts)) None
     (demo_buf [1, 2, 3]) demo_server_ctx = Some (False, demo_buf [1, 2, 3], c))"
proof -
  have k: "kc_cipher (tw_tls_crypt_v2_server_key demo_server_ctx) = Some demo_ctr"
    "kc_hmac (tw_tls_crypt_v2_server_key demo_server_ctx) = Some demo_hmac"
    by (simp_all add: demo_server_ctx_def demo_ctl_opts_def)
  have g: "ctr_pair demo_ctr demo_ctr" "hmac_ok demo_hmac" using demo_tc_good by (simp_all add: tc_good_def)
  have b: "buf_ok \<lparr>b_capacity = 4, b_offset = 0, b_len = 1, b_data = Some [1, 2, 3, 4]\<rparr>"
    by (simp add: buf_ok_def BUF_SIZE_MAX_def)
  have d: "buf_ok (demo_buf [1, 2, 3])" "b_len (demo_buf [1, 2, 3]) = 3" "b_offset (demo_buf [1, 2, 3]) = 10"
    using demo_buf_ok [of "[1, 2, 3]"] by (simp_all add: demo_buf_def)
  note t = tls_crypt_v2_short_packet [OF k g, of _ "\<lambda>_. (co_encrypt demo_ctl_opts, co_decrypt demo_ctl_opts)" None]
  show ?thesis using t [OF b] t [OF d(1)] d(2,3) by (auto split: option.split_asm)
qed

end
