(* ===== verification/Timing.thy ===== *)
theory Timing
  imports OvpnPrelude CInteger
begin

text \<open>
  Points in time and the timers made of them (src: otime.h, otime.c, interval.h, interval.c): arithmetic on
  \<open>struct timeval\<close>, the clock that does not run backwards, the limit on the frequency of events, the
  \<open>interval\<close> that holds back expensive work and the recurring \<open>event_timeout\<close>.
\<close>

section \<open>Points in time\<close>

record timeval =
  tv_sec :: int
  tv_usec :: int

definition tv_clear :: timeval where "tv_clear = \<lparr>tv_sec = 0, tv_usec = 0\<rparr>"

definition tv_defined :: "timeval \<Rightarrow> bool" where
  "tv_defined tv \<longleftrightarrow> tv_sec tv > 0 \<and> tv_usec tv > 0"

text \<open>The product with \<open>max_seconds\<close> is of unsigned integers; the result is converted to \<open>int\<close>.\<close>

definition tv_subtract :: "timeval \<Rightarrow> timeval \<Rightarrow> u32 \<Rightarrow> int" where
  "tv_subtract tv1 tv2 max_seconds =
     (let max_usec = sint (max_seconds * 1000000);
          sec_diff = sint (word_of_int (tv_sec tv1 - tv_sec tv2) :: u32)
      in if sec_diff > sint max_seconds + 10 then max_usec
         else if sec_diff < - (sint max_seconds + 10) then - max_usec
         else constrain_int (sec_diff * 1000000 + (tv_usec tv1 - tv_usec tv2)) (- max_usec) max_usec)"

definition tv_add :: "timeval \<Rightarrow> timeval \<Rightarrow> timeval" where
  "tv_add dest src =
     (let sec = tv_sec dest + tv_sec src;
          usec = tv_usec dest + tv_usec src;
          sec1 = sec + drop_bit 20 usec;
          usec1 = usec AND 0x000FFFFF
      in if usec1 \<ge> 1000000 then \<lparr>tv_sec = sec1 + 1, tv_usec = usec1 - 1000000\<rparr>
         else \<lparr>tv_sec = sec1, tv_usec = usec1\<rparr>)"

definition tv_lt :: "timeval \<Rightarrow> timeval \<Rightarrow> bool" where
  "tv_lt t1 t2 =
     (if tv_sec t1 < tv_sec t2 then True else if tv_sec t1 > tv_sec t2 then False else tv_usec t1 < tv_usec t2)"

definition tv_le :: "timeval \<Rightarrow> timeval \<Rightarrow> bool" where
  "tv_le t1 t2 =
     (if tv_sec t1 < tv_sec t2 then True else if tv_sec t1 > tv_sec t2 then False else tv_usec t1 \<le> tv_usec t2)"

definition tv_ge :: "timeval \<Rightarrow> timeval \<Rightarrow> bool" where
  "tv_ge t1 t2 =
     (if tv_sec t1 > tv_sec t2 then True else if tv_sec t1 < tv_sec t2 then False else tv_usec t1 \<ge> tv_usec t2)"

definition tv_gt :: "timeval \<Rightarrow> timeval \<Rightarrow> bool" where
  "tv_gt t1 t2 =
     (if tv_sec t1 > tv_sec t2 then True else if tv_sec t1 < tv_sec t2 then False else tv_usec t1 > tv_usec t2)"

definition tv_eq :: "timeval \<Rightarrow> timeval \<Rightarrow> bool" where
  "tv_eq t1 t2 \<longleftrightarrow> tv_sec t1 = tv_sec t2 \<and> tv_usec t1 = tv_usec t2"

text \<open>The loop that makes the microseconds nonnegative.\<close>

function tv_borrow :: "int \<Rightarrow> int \<Rightarrow> int \<times> int" where
  "tv_borrow sec usec = (if usec < 0 then tv_borrow (sec - 1) (usec + 1000000) else (sec, usec))"
  by pat_completeness auto
termination by (relation "measure (\<lambda>(s, u). nat (- u))") auto

declare tv_borrow.simps [simp del]

definition tv_delta :: "timeval \<Rightarrow> timeval \<Rightarrow> timeval" where
  "tv_delta t1 t2 =
     (let (sec, usec) = tv_borrow (tv_sec t2 - tv_sec t1) (tv_usec t2 - tv_usec t1)
      in if sec < 0 then \<lparr>tv_sec = 0, tv_usec = 0\<rparr> else \<lparr>tv_sec = sec, tv_usec = usec\<rparr>)"

definition TV_WITHIN_SIGMA_MAX_SEC :: u32 where "TV_WITHIN_SIGMA_MAX_SEC = 600"

definition tv_within_sigma :: "timeval \<Rightarrow> timeval \<Rightarrow> u32 \<Rightarrow> bool" where
  "tv_within_sigma t1 t2 sigma =
     (let delta = tv_subtract t1 t2 TV_WITHIN_SIGMA_MAX_SEC
      in - sint sigma \<le> delta \<and> delta \<le> sint sigma)"

definition interval_earliest_wakeup :: "int \<Rightarrow> int \<Rightarrow> int \<Rightarrow> int" where
  "interval_earliest_wakeup wakeup at current =
     (if at > current
      then let delta = at - current;
               w = (if delta < wakeup then delta else wakeup)
           in if w < 0 then 0 else w
      else wakeup)"

section \<open>The clock\<close>

text \<open>The global variables \<open>now\<close>, \<open>now_adj\<close> and \<open>now_usec\<close>.\<close>

record clock =
  ck_now :: int
  ck_adj :: int
  ck_usec :: int

definition update_now :: "clock \<Rightarrow> int \<Rightarrow> clock" where
  "update_now c system_time =
     (let real_time = system_time + ck_adj c
      in if real_time > ck_now c
         then let overshoot = real_time - ck_now c - 1
              in if overshoot > 86400 \<and> ck_adj c \<ge> overshoot
                 then c\<lparr>ck_adj := ck_adj c - overshoot, ck_now := real_time - overshoot\<rparr>
                 else c\<lparr>ck_now := real_time\<rparr>
         else if real_time < ck_now c - 10 then c\<lparr>ck_adj := ck_adj c + (ck_now c - real_time)\<rparr>
         else c)"

definition update_now_usec :: "clock \<Rightarrow> timeval \<Rightarrow> clock" where
  "update_now_usec c tv =
     (let last = ck_now c;
          c1 = update_now c (tv_sec tv)
      in if ck_now c1 > last \<or> (ck_now c1 = last \<and> tv_usec tv > ck_usec c1)
         then c1\<lparr>ck_usec := tv_usec tv\<rparr> else c1)"

text \<open>The answer of \<open>gettimeofday\<close> is a parameter; \<open>None\<close> is its failure.\<close>

definition openvpn_gettimeofday :: "timeval option \<Rightarrow> timeval \<Rightarrow> clock \<Rightarrow> bool \<times> timeval \<times> clock" where
  "openvpn_gettimeofday answer tv c =
     (case answer of
        None \<Rightarrow> (False, tv, c)
      | Some t \<Rightarrow> let c1 = update_now_usec c t in (True, \<lparr>tv_sec = ck_now c1, tv_usec = ck_usec c1\<rparr>, c1))"

section \<open>A limit on the frequency of events\<close>

record frequency_limit =
  fl_max :: int
  fl_per :: int
  fl_n :: int
  fl_reset :: int

definition frequency_limit_init :: "int \<Rightarrow> int \<Rightarrow> frequency_limit option" where
  "frequency_limit_init max_events per =
     do { ASSERT (max_events \<ge> 0 \<and> per \<ge> 0);
          Some \<lparr>fl_max = max_events, fl_per = per, fl_n = 0, fl_reset = 0\<rparr> }"

definition frequency_limit_event_allowed :: "frequency_limit \<Rightarrow> int \<Rightarrow> bool \<times> frequency_limit" where
  "frequency_limit_event_allowed f now =
     (if fl_per f \<noteq> 0
      then let f1 = (if now \<ge> fl_reset f + fl_per f then f\<lparr>fl_reset := now, fl_n := 0\<rparr> else f);
               f2 = f1\<lparr>fl_n := fl_n f1 + 1\<rparr>
           in (fl_n f2 \<le> fl_max f2, f2)
      else (True, f))"

section \<open>Intervals and timeouts\<close>

record interval =
  iv_refresh :: int
  iv_horizon :: int
  iv_future_trigger :: int
  iv_last_action :: int
  iv_last_test_true :: int

definition interval_init :: "int \<Rightarrow> int \<Rightarrow> interval" where
  "interval_init horizon refresh =
     \<lparr>iv_refresh = refresh, iv_horizon = horizon, iv_future_trigger = 0, iv_last_action = 0, iv_last_test_true = 0\<rparr>"

definition interval_test :: "interval \<Rightarrow> int \<Rightarrow> bool \<times> interval" where
  "interval_test tmr now =
     (let trigger = (iv_future_trigger tmr \<noteq> 0 \<and> now \<ge> iv_future_trigger tmr);
          tmr1 = (if trigger then tmr\<lparr>iv_future_trigger := 0\<rparr> else tmr)
      in if iv_last_action tmr1 + iv_horizon tmr1 > now \<or> iv_last_test_true tmr1 + iv_refresh tmr1 \<le> now \<or> trigger
         then (True, tmr1\<lparr>iv_last_test_true := now\<rparr>)
         else (False, tmr1))"

definition interval_schedule_wakeup :: "interval \<Rightarrow> int \<Rightarrow> int \<Rightarrow> int" where
  "interval_schedule_wakeup tmr wakeup now =
     interval_earliest_wakeup
       (interval_earliest_wakeup wakeup (iv_last_test_true tmr + iv_refresh tmr) now) (iv_future_trigger tmr) now"

definition interval_future_trigger :: "interval \<Rightarrow> int \<Rightarrow> int \<Rightarrow> interval" where
  "interval_future_trigger tmr wakeup now =
     (if wakeup \<noteq> 0 then tmr\<lparr>iv_future_trigger := now + wakeup\<rparr> else tmr)"

definition interval_action :: "interval \<Rightarrow> int \<Rightarrow> interval" where
  "interval_action tmr now = tmr\<lparr>iv_last_action := now\<rparr>"

record event_timeout =
  et_defined :: bool
  et_n :: int
  et_last :: int

definition event_timeout_clear :: event_timeout where
  "event_timeout_clear = \<lparr>et_defined = False, et_n = 0, et_last = 0\<rparr>"

definition event_timeout_init :: "int \<Rightarrow> int \<Rightarrow> event_timeout" where
  "event_timeout_init n local_now = \<lparr>et_defined = True, et_n = (if n \<ge> 0 then n else 0), et_last = local_now\<rparr>"

definition event_timeout_reset :: "event_timeout \<Rightarrow> int \<Rightarrow> event_timeout" where
  "event_timeout_reset et now = (if et_defined et then et\<lparr>et_last := now\<rparr> else et)"

definition event_timeout_modify_wakeup :: "event_timeout \<Rightarrow> int \<Rightarrow> event_timeout" where
  "event_timeout_modify_wakeup et n = (if et_defined et then et\<lparr>et_n := (if n \<ge> 0 then n else 0)\<rparr> else et)"

definition event_timeout_remaining :: "event_timeout \<Rightarrow> int \<Rightarrow> int" where
  "event_timeout_remaining et now = et_last et - now + et_n et"

text \<open>\<open>tv\<close> may be a null pointer, here \<open>None\<close>.\<close>

definition event_timeout_trigger ::
  "event_timeout \<Rightarrow> timeval option \<Rightarrow> int \<Rightarrow> int \<Rightarrow> bool \<times> event_timeout \<times> timeval option" where
  "event_timeout_trigger et tv et_const_retry now =
     (if et_defined et
      then let wakeup = et_last et - now + et_n et;
               (ret, et1, wakeup1) =
                 (if wakeup \<le> 0
                  then if et_const_retry < 0 then (True, et\<lparr>et_last := now\<rparr>, et_n et) else (False, et, et_const_retry)
                  else (False, et, wakeup))
           in (ret, et1,
               case tv of None \<Rightarrow> None
               | Some t \<Rightarrow> Some (if wakeup1 < tv_sec t then \<lparr>tv_sec = wakeup1, tv_usec = 0\<rparr> else t))
      else (False, et, tv))"

section \<open>Their properties\<close>

text \<open>The number of microseconds that a point in time stands for.\<close>

definition tv_micros :: "timeval \<Rightarrow> int" where
  "tv_micros t = tv_sec t * 1000000 + tv_usec t"

definition tv_normal :: "timeval \<Rightarrow> bool" where
  "tv_normal t \<longleftrightarrow> 0 \<le> tv_usec t \<and> tv_usec t < 1000000"

lemma tv_le_micros: "tv_normal t1 \<Longrightarrow> tv_normal t2 \<Longrightarrow> tv_le t1 t2 \<longleftrightarrow> tv_micros t1 \<le> tv_micros t2"
  by (auto simp: tv_le_def tv_micros_def tv_normal_def)

lemma tv_lt_micros: "tv_normal t1 \<Longrightarrow> tv_normal t2 \<Longrightarrow> tv_lt t1 t2 \<longleftrightarrow> tv_micros t1 < tv_micros t2"
  by (auto simp: tv_lt_def tv_micros_def tv_normal_def)

lemma tv_lt_le: "tv_lt t1 t2 \<longleftrightarrow> \<not> tv_le t2 t1"
  by (auto simp: tv_lt_def tv_le_def)

lemma tv_le_linear: "tv_le t1 t2 \<or> tv_le t2 t1" by (auto simp: tv_le_def)

lemma tv_le_trans: "tv_le t1 t2 \<Longrightarrow> tv_le t2 t3 \<Longrightarrow> tv_le t1 t3"
  by (auto simp: tv_le_def split: if_splits)

lemma tv_le_refl [simp]: "tv_le t t" by (simp add: tv_le_def)

lemma sint_small: "- 2147483648 \<le> n \<Longrightarrow> n < 2147483648 \<Longrightarrow> sint (word_of_int n :: u32) = n"
  by (simp add: int_word_sint)

text \<open>Two times less than ten minutes apart are within \<open>sigma\<close> if and only if their difference is.\<close>

lemma tv_within_sigma_micros:
  assumes "\<bar>tv_sec t1 - tv_sec t2\<bar> \<le> 610" "tv_normal t1" "tv_normal t2" "sint sigma < 600000000"
  shows "tv_within_sigma t1 t2 sigma \<longleftrightarrow> \<bar>tv_micros t1 - tv_micros t2\<bar> \<le> sint sigma"
proof -
  have d: "sint (word_of_int (tv_sec t1 - tv_sec t2) :: u32) = tv_sec t1 - tv_sec t2"
    using assms(1) by (intro sint_small) auto
  have n: "sint (600 :: u32) = 600" "sint ((600 :: u32) * 1000000) = 600000000" by simp_all
  have "tv_subtract t1 t2 TV_WITHIN_SIGMA_MAX_SEC = constrain_int (tv_micros t1 - tv_micros t2) (- 600000000) 600000000"
    using assms(1) unfolding tv_subtract_def Let_def d TV_WITHIN_SIGMA_MAX_SEC_def n tv_micros_def
    by (simp add: algebra_simps) (use assms(1) in linarith)
  then show ?thesis using assms(4) by (auto simp: tv_within_sigma_def constrain_int_def Let_def)
qed

lemma update_now_mono: "ck_now c \<le> ck_now (update_now c t)"
  by (auto simp: update_now_def Let_def)

end
