(* ===== verification/Schedule.thy ===== *)
theory Schedule
  imports Timing "HOL-Library.Tree" "HOL-Library.Product_Lexorder"
begin

text \<open>
  The scheduler of the server (src: schedule.h, schedule.c): a treap of wakeup times, whose nodes are part of the
  client instances. The nodes lie in a heap and refer to each other by address; a null pointer is \<open>None\<close>.
\<close>

section \<open>The treap\<close>

type_synonym addr = nat

record schedule_entry =
  se_tv :: timeval
  se_pri :: u32
  se_parent :: "addr option"
  se_lt :: "addr option"
  se_gt :: "addr option"

record schedule =
  sch_earliest_wakeup :: "addr option"
  sch_root :: "addr option"

type_synonym sched_heap = "addr \<rightharpoonup> schedule_entry"

definition IN_TREE :: "schedule_entry \<Rightarrow> bool" where "IN_TREE e \<longleftrightarrow> se_pri e \<noteq> 0"

definition upd_entry :: "sched_heap \<Rightarrow> addr \<Rightarrow> (schedule_entry \<Rightarrow> schedule_entry) \<Rightarrow> sched_heap option" where
  "upd_entry h a f = do { x \<leftarrow> h a; Some (h(a \<mapsto> f x)) }"

text \<open>\<open>rnd\<close> holds what further calls of \<open>random\<close> give; a run that uses them up has no result.\<close>

definition sched_pri :: "u32 \<Rightarrow> u32" where "sched_pri r = (if r < 1 then 1 else r)"

fun schedule_set_pri :: "sched_heap \<Rightarrow> addr \<Rightarrow> u32 list \<Rightarrow> (sched_heap \<times> u32 list) option" where
  "schedule_set_pri h e [] = None"
| "schedule_set_pri h e (r # rnd) = do { h1 \<leftarrow> upd_entry h e (\<lambda>x. x\<lparr>se_pri := sched_pri r\<rparr>); Some (h1, rnd) }"

definition schedule_entry_compare :: "schedule_entry \<Rightarrow> schedule_entry \<Rightarrow> int" where
  "schedule_entry_compare e1 e2 =
     (if tv_sec (se_tv e1) < tv_sec (se_tv e2) then - 1
      else if tv_sec (se_tv e1) > tv_sec (se_tv e2) then 1
      else if tv_usec (se_tv e1) < tv_usec (se_tv e2) then - 1
      else if tv_usec (se_tv e1) > tv_usec (se_tv e2) then 1
      else if se_pri e1 < se_pri e2 then - 1
      else if se_pri e1 > se_pri e2 then 1
      else 0)"

definition schedule_detach_parent ::
  "schedule \<Rightarrow> sched_heap \<Rightarrow> addr option \<Rightarrow> (schedule \<times> sched_heap) option" where
  "schedule_detach_parent s h e =
     (case e of
        None \<Rightarrow> Some (s, h)
      | Some a \<Rightarrow>
          do { x \<leftarrow> h a;
               case se_parent x of
                 Some p \<Rightarrow>
                   do { y \<leftarrow> h p;
                        h1 \<leftarrow> (if se_lt y = e then Some (h(p \<mapsto> y\<lparr>se_lt := None\<rparr>))
                              else if se_gt y = e then Some (h(p \<mapsto> y\<lparr>se_gt := None\<rparr>))
                              else None);
                        h2 \<leftarrow> upd_entry h1 a (\<lambda>x. x\<lparr>se_parent := None\<rparr>);
                        Some (s, h2) }
               | None \<Rightarrow> Some (if sch_root s = e then s\<lparr>sch_root := None\<rparr> else s, h) })"

definition schedule_rotate_up ::
  "schedule \<Rightarrow> sched_heap \<Rightarrow> addr option \<Rightarrow> (schedule \<times> sched_heap) option" where
  "schedule_rotate_up s h e =
     (case e of
        None \<Rightarrow> Some (s, h)
      | Some a \<Rightarrow>
          do { x \<leftarrow> h a;
               case se_parent x of
                 None \<Rightarrow> Some (s, h)
               | Some p \<Rightarrow>
                   do { let lt = se_lt x;
                        let gt = se_gt x;
                        y \<leftarrow> h p;
                        let gp = se_parent y;
                        (s1, h1) \<leftarrow> (case gp of
                            Some g \<Rightarrow>
                              do { z \<leftarrow> h g;
                                   if se_gt z = Some p then Some (s, h(g \<mapsto> z\<lparr>se_gt := e\<rparr>))
                                   else if se_lt z = Some p then Some (s, h(g \<mapsto> z\<lparr>se_lt := e\<rparr>))
                                   else None }
                          | None \<Rightarrow> Some (s\<lparr>sch_root := e\<rparr>, h));
                        h2 \<leftarrow> upd_entry h1 a (\<lambda>x. x\<lparr>se_parent := gp\<rparr>);
                        h3 \<leftarrow> upd_entry h2 p (\<lambda>y. y\<lparr>se_parent := e\<rparr>);
                        y3 \<leftarrow> h3 p;
                        h6 \<leftarrow> (if se_gt y3 = e
                              then do { h4 \<leftarrow> upd_entry h3 a (\<lambda>x. x\<lparr>se_lt := Some p\<rparr>);
                                        h5 \<leftarrow> upd_entry h4 p (\<lambda>y. y\<lparr>se_gt := lt\<rparr>);
                                        case lt of None \<Rightarrow> Some h5
                                        | Some b \<Rightarrow> upd_entry h5 b (\<lambda>z. z\<lparr>se_parent := Some p\<rparr>) }
                              else if se_lt y3 = e
                              then do { h4 \<leftarrow> upd_entry h3 a (\<lambda>x. x\<lparr>se_gt := Some p\<rparr>);
                                        h5 \<leftarrow> upd_entry h4 p (\<lambda>y. y\<lparr>se_lt := gt\<rparr>);
                                        case gt of None \<Rightarrow> Some h5
                                        | Some b \<Rightarrow> upd_entry h5 b (\<lambda>z. z\<lparr>se_parent := Some p\<rparr>) }
                              else None);
                        Some (s1, h6) } })"

text \<open>The loop of \<open>schedule_remove_node\<close>, which may run forever on a heap that is not a tree.\<close>

partial_function (option) schedule_sink ::
  "schedule \<Rightarrow> sched_heap \<Rightarrow> addr \<Rightarrow> (schedule \<times> sched_heap) option" where
  "schedule_sink s h e =
     do { x \<leftarrow> h e;
          if se_lt x = None \<and> se_gt x = None then Some (s, h)
          else do { (s1, h1) \<leftarrow> (case se_lt x of
                        Some l \<Rightarrow> (case se_gt x of
                            Some g \<Rightarrow> do { xl \<leftarrow> h l;
                                          xg \<leftarrow> h g;
                                          if se_pri xl < se_pri xg then schedule_rotate_up s h (se_lt x)
                                          else schedule_rotate_up s h (se_gt x) }
                          | None \<Rightarrow> schedule_rotate_up s h (se_lt x))
                      | None \<Rightarrow> schedule_rotate_up s h (se_gt x));
                    schedule_sink s1 h1 e } }"

definition schedule_remove_node :: "schedule \<Rightarrow> sched_heap \<Rightarrow> addr \<Rightarrow> (schedule \<times> sched_heap) option" where
  "schedule_remove_node s h e =
     do { (s1, h1) \<leftarrow> schedule_sink s h e;
          (s2, h2) \<leftarrow> schedule_detach_parent s1 h1 (Some e);
          h3 \<leftarrow> upd_entry h2 e (\<lambda>x. x\<lparr>se_pri := 0\<rparr>);
          Some (s2, h3) }"

partial_function (option) schedule_insert_at ::
  "schedule \<Rightarrow> sched_heap \<Rightarrow> addr \<Rightarrow> addr option \<Rightarrow> u32 list \<Rightarrow> (sched_heap \<times> u32 list) option" where
  "schedule_insert_at s h e c rnd =
     do { c1 \<leftarrow> c;
          x \<leftarrow> h e;
          y \<leftarrow> h c1;
          let comp = schedule_entry_compare x y;
          if comp = - 1
          then (case se_lt y of
                  Some d \<Rightarrow> schedule_insert_at s h e (Some d) rnd
                | None \<Rightarrow> do { h1 \<leftarrow> upd_entry h c1 (\<lambda>y. y\<lparr>se_lt := Some e\<rparr>);
                              h2 \<leftarrow> upd_entry h1 e (\<lambda>x. x\<lparr>se_parent := c\<rparr>);
                              Some (h2, rnd) })
          else if comp = 1
          then (case se_gt y of
                  Some d \<Rightarrow> schedule_insert_at s h e (Some d) rnd
                | None \<Rightarrow> do { h1 \<leftarrow> upd_entry h c1 (\<lambda>y. y\<lparr>se_gt := Some e\<rparr>);
                              h2 \<leftarrow> upd_entry h1 e (\<lambda>x. x\<lparr>se_parent := c\<rparr>);
                              Some (h2, rnd) })
          else do { (h1, rnd1) \<leftarrow> schedule_set_pri h e rnd;
                    schedule_insert_at s h1 e (sch_root s) rnd1 } }"

definition schedule_insert :: "schedule \<Rightarrow> sched_heap \<Rightarrow> addr \<Rightarrow> u32 list \<Rightarrow> (sched_heap \<times> u32 list) option" where
  "schedule_insert s h e rnd = schedule_insert_at s h e (sch_root s) rnd"

text \<open>The loop at the end of \<open>schedule_add_modify\<close>.\<close>

partial_function (option) schedule_float ::
  "schedule \<Rightarrow> sched_heap \<Rightarrow> addr \<Rightarrow> (schedule \<times> sched_heap) option" where
  "schedule_float s h e =
     do { x \<leftarrow> h e;
          case se_parent x of
            None \<Rightarrow> Some (s, h)
          | Some p \<Rightarrow>
              do { y \<leftarrow> h p;
                   if se_pri y > se_pri x
                   then do { (s1, h1) \<leftarrow> schedule_rotate_up s h (Some e); schedule_float s1 h1 e }
                   else Some (s, h) } }"

definition schedule_add_modify ::
  "schedule \<Rightarrow> sched_heap \<Rightarrow> addr \<Rightarrow> u32 list \<Rightarrow> (schedule \<times> sched_heap \<times> u32 list) option" where
  "schedule_add_modify s h e rnd =
     do { x \<leftarrow> h e;
          (s1, h1) \<leftarrow> (if IN_TREE x then schedule_remove_node s h e else Some (s, h));
          (h2, rnd1) \<leftarrow> schedule_set_pri h1 e rnd;
          (s2, h3, rnd2) \<leftarrow> (case sch_root s1 of
              Some _ \<Rightarrow> do { (h3, rnd2) \<leftarrow> schedule_insert s1 h2 e rnd1; Some (s1, h3, rnd2) }
            | None \<Rightarrow> Some (s1\<lparr>sch_root := Some e\<rparr>, h2, rnd1));
          (s3, h4) \<leftarrow> schedule_float s2 h3 e;
          Some (s3, h4, rnd2) }"

partial_function (option) schedule_least :: "sched_heap \<Rightarrow> addr \<Rightarrow> addr option" where
  "schedule_least h e =
     do { x \<leftarrow> h e;
          case se_lt x of None \<Rightarrow> Some e | Some l \<Rightarrow> schedule_least h l }"

definition schedule_find_least :: "sched_heap \<Rightarrow> addr option \<Rightarrow> addr option option" where
  "schedule_find_least h e =
     (case e of None \<Rightarrow> Some None | Some a \<Rightarrow> do { l \<leftarrow> schedule_least h a; Some (Some l) })"

definition schedule_init :: schedule where
  "schedule_init = \<lparr>sch_earliest_wakeup = None, sch_root = None\<rparr>"

definition schedule_remove_entry :: "schedule \<Rightarrow> sched_heap \<Rightarrow> addr \<Rightarrow> (schedule \<times> sched_heap) option" where
  "schedule_remove_entry s h e = schedule_remove_node (s\<lparr>sch_earliest_wakeup := None\<rparr>) h e"

definition schedule_add_entry ::
  "schedule \<Rightarrow> sched_heap \<Rightarrow> addr \<Rightarrow> timeval \<Rightarrow> u32 \<Rightarrow> u32 list \<Rightarrow> (schedule \<times> sched_heap \<times> u32 list) option" where
  "schedule_add_entry s h e tv sigma rnd =
     do { x \<leftarrow> h e;
          if \<not> IN_TREE x \<or> sigma = 0 \<or> \<not> tv_within_sigma tv (se_tv x) sigma
          then do { h1 \<leftarrow> upd_entry h e (\<lambda>x. x\<lparr>se_tv := tv\<rparr>);
                    (s1, h2, rnd1) \<leftarrow> schedule_add_modify s h1 e rnd;
                    Some (s1\<lparr>sch_earliest_wakeup := None\<rparr>, h2, rnd1) }
          else Some (s, h, rnd) }"

definition schedule_get_earliest_wakeup ::
  "schedule \<Rightarrow> sched_heap \<Rightarrow> timeval \<Rightarrow> (addr option \<times> timeval \<times> schedule) option" where
  "schedule_get_earliest_wakeup s h wakeup =
     do { s1 \<leftarrow> (if sch_earliest_wakeup s = None
               then do { l \<leftarrow> schedule_find_least h (sch_root s); Some (s\<lparr>sch_earliest_wakeup := l\<rparr>) }
               else Some s);
          case sch_earliest_wakeup s1 of
            None \<Rightarrow> Some (None, wakeup, s1)
          | Some r \<Rightarrow> do { x \<leftarrow> h r; Some (Some r, se_tv x, s1) } }"

section \<open>The tree in the heap\<close>

text \<open>The heap holds the tree \<open>t\<close>, whose root the pointer \<open>p\<close> names and has the parent \<open>q\<close>.\<close>

fun tree_at :: "sched_heap \<Rightarrow> addr option \<Rightarrow> addr option \<Rightarrow> addr tree \<Rightarrow> bool" where
  "tree_at h p q Leaf \<longleftrightarrow> p = None"
| "tree_at h p q (Node l a r) \<longleftrightarrow> p = Some a \<and>
     (\<exists>x. h a = Some x \<and> se_parent x = q \<and> tree_at h (se_lt x) p l \<and> tree_at h (se_gt x) p r)"

text \<open>A place in a tree: the way up from it. \<open>InLt p r\<close> is the left place under \<open>p\<close>, beside \<open>r\<close>.\<close>

datatype crumb = InLt addr "addr tree" | InGt "addr tree" addr

fun plug :: "addr tree \<Rightarrow> crumb list \<Rightarrow> addr tree" where
  "plug t [] = t"
| "plug t (InLt p r # cs) = plug (Node t p r) cs"
| "plug t (InGt l p # cs) = plug (Node l p t) cs"

fun lefts :: "crumb list \<Rightarrow> addr list" where
  "lefts [] = []"
| "lefts (InLt p r # cs) = lefts cs"
| "lefts (InGt l p # cs) = lefts cs @ inorder l @ [p]"

fun rights :: "crumb list \<Rightarrow> addr list" where
  "rights [] = []"
| "rights (InLt p r # cs) = p # inorder r @ rights cs"
| "rights (InGt l p # cs) = rights cs"

fun ctx_at :: "addr option \<Rightarrow> sched_heap \<Rightarrow> addr option \<Rightarrow> addr option \<Rightarrow> crumb list \<Rightarrow> bool" where
  "ctx_at root h e q [] \<longleftrightarrow> root = e \<and> q = None"
| "ctx_at root h e q (InLt p r # cs) \<longleftrightarrow> q = Some p \<and>
     (\<exists>y. h p = Some y \<and> se_lt y = e \<and> tree_at h (se_gt y) (Some p) r \<and> ctx_at root h (Some p) (se_parent y) cs)"
| "ctx_at root h e q (InGt l p # cs) \<longleftrightarrow> q = Some p \<and>
     (\<exists>y. h p = Some y \<and> se_gt y = e \<and> tree_at h (se_lt y) (Some p) l \<and> ctx_at root h (Some p) (se_parent y) cs)"

lemma inorder_plug: "inorder (plug t cs) = lefts cs @ inorder t @ rights cs"
  by (induction t cs rule: plug.induct) simp_all

lemma set_tree_plug: "set_tree (plug t cs) = set (lefts cs) \<union> set_tree t \<union> set (rights cs)"
  using arg_cong [OF inorder_plug [of t cs], of set] by (simp add: Un_assoc)

lemma tree_at_plug: "tree_at h root None (plug t cs) \<longleftrightarrow> (\<exists>e q. ctx_at root h e q cs \<and> tree_at h e q t)"
proof (induction t cs rule: plug.induct)
  case (2 t p r cs) then show ?case by auto
next
  case (3 t l p cs) then show ?case by auto
qed auto

lemma tree_at_root: "tree_at h p q t \<Longrightarrow> p = (case t of Leaf \<Rightarrow> None | Node l a r \<Rightarrow> Some a)"
  by (cases t) simp_all

text \<open>A tree does not depend on the heap outside its nodes.\<close>

lemma tree_at_other [simp]: "a \<notin> set_tree t \<Longrightarrow> tree_at (h(a \<mapsto> x)) p q t \<longleftrightarrow> tree_at h p q t"
  by (induction t arbitrary: p q) auto

lemma ctx_at_other [simp]:
  "a \<notin> set (lefts cs) \<Longrightarrow> a \<notin> set (rights cs) \<Longrightarrow> ctx_at root (h(a \<mapsto> x)) e q cs \<longleftrightarrow> ctx_at root h e q cs"
  by (induction cs arbitrary: e q rule: lefts.induct) auto

text \<open>Where a tree with the root \<open>a\<close> stands, its place can be found.\<close>

lemma plug_ex: "a \<in> set_tree t \<Longrightarrow> \<exists>l r cs. t = plug (Node l a r) cs"
proof (induction t)
  case (Node l b r)
  show ?case
  proof (cases "a = b")
    case True then show ?thesis by (metis plug.simps(1))
  next
    case False
    with Node consider l' r' cs where "l = plug (Node l' a r') cs" | l' r' cs where "r = plug (Node l' a r') cs" by auto
    then show ?thesis
    proof cases
      case 1
      have "plug t (cs @ [InLt b r]) = Node (plug t cs) b r" for t by (induction t cs rule: plug.induct) simp_all
      then show ?thesis using 1 by metis
    next
      case 2
      have "plug t (cs @ [InGt l b]) = Node l b (plug t cs)" for t by (induction t cs rule: plug.induct) simp_all
      then show ?thesis using 2 by metis
    qed
  qed
qed simp

text \<open>What no operation on the links touches: the times and the priorities, and every entry outside a set.\<close>

definition same_keys :: "sched_heap \<Rightarrow> sched_heap \<Rightarrow> bool" where
  "same_keys h h' \<longleftrightarrow> (\<forall>b. map_option (\<lambda>x. (se_tv x, se_pri x)) (h' b) = map_option (\<lambda>x. (se_tv x, se_pri x)) (h b))"

definition same_outside :: "addr set \<Rightarrow> sched_heap \<Rightarrow> sched_heap \<Rightarrow> bool" where
  "same_outside A h h' \<longleftrightarrow> (\<forall>b. b \<notin> A \<longrightarrow> h' b = h b)"

lemma same_keys_refl [simp]: "same_keys h h" by (simp add: same_keys_def)
lemma same_keys_trans: "same_keys h h1 \<Longrightarrow> same_keys h1 h2 \<Longrightarrow> same_keys h h2" by (simp add: same_keys_def)
lemma same_outside_refl [simp]: "same_outside A h h" by (simp add: same_outside_def)
lemma same_outside_trans: "same_outside A h h1 \<Longrightarrow> same_outside A h1 h2 \<Longrightarrow> same_outside A h h2"
  by (simp add: same_outside_def)

section \<open>Rotation\<close>

lemma tree_at_member: "tree_at h (Some a) q t \<Longrightarrow> a \<in> set_tree t"
  by (cases t) auto

lemma tree_at_agree: "tree_at h p q t \<Longrightarrow> (\<And>b. b \<in> set_tree t \<Longrightarrow> h' b = h b) \<Longrightarrow> tree_at h' p q t"
  by (induction t arbitrary: p q) auto

text \<open>The first step of a rotation: the link from above is turned to another node.\<close>

definition relink :: "schedule \<Rightarrow> sched_heap \<Rightarrow> addr option \<Rightarrow> addr \<Rightarrow> addr \<Rightarrow> (schedule \<times> sched_heap) option" where
  "relink s h gp p a =
     (case gp of
        Some g \<Rightarrow>
          do { z \<leftarrow> h g;
               if se_gt z = Some p then Some (s, h(g \<mapsto> z\<lparr>se_gt := Some a\<rparr>))
               else if se_lt z = Some p then Some (s, h(g \<mapsto> z\<lparr>se_lt := Some a\<rparr>))
               else None }
      | None \<Rightarrow> Some (s\<lparr>sch_root := Some a\<rparr>, h))"

lemma relink_ok:
  assumes "ctx_at (sch_root s) h (Some p) gp cs" "distinct (lefts cs @ rights cs)" "p \<notin> set (lefts cs)" "p \<notin> set (rights cs)"
  shows "\<exists>s' h'. relink s h gp p a = Some (s', h') \<and> sch_earliest_wakeup s' = sch_earliest_wakeup s \<and>
    ctx_at (sch_root s') h' (Some a) gp cs \<and> same_keys h h' \<and> same_outside (set (lefts cs) \<union> set (rights cs)) h h'"
proof (cases cs rule: lefts.cases)
  case 1
  then show ?thesis using assms by (auto simp: relink_def)
next
  case (2 g S cs')
  then obtain z where z: "gp = Some g" "h g = Some z" "se_lt z = Some p" "tree_at h (se_gt z) (Some g) S"
    "ctx_at (sch_root s) h (Some g) (se_parent z) cs'" using assms(1) by auto
  have "se_gt z \<noteq> Some p" using z(4) assms(4) 2 by (auto dest: tree_at_member)
  then show ?thesis using z assms(2-) unfolding 2
    by (auto simp: relink_def same_keys_def same_outside_def)
next
  case (3 S g cs')
  then obtain z where z: "gp = Some g" "h g = Some z" "se_gt z = Some p" "tree_at h (se_lt z) (Some g) S"
    "ctx_at (sch_root s) h (Some g) (se_parent z) cs'" using assms(1) by auto
  then show ?thesis using assms(2-) unfolding 3
    by (auto simp: relink_def same_keys_def same_outside_def)
qed

lemma rotate_up_eq:
  "h a = Some x \<Longrightarrow> se_parent x = Some p \<Longrightarrow> h p = Some y \<Longrightarrow> relink s h (se_parent y) p a = Some (s1, h1) \<Longrightarrow>
   schedule_rotate_up s h (Some a) =
     do { h2 \<leftarrow> upd_entry h1 a (\<lambda>x. x\<lparr>se_parent := se_parent y\<rparr>);
          h3 \<leftarrow> upd_entry h2 p (\<lambda>y. y\<lparr>se_parent := Some a\<rparr>);
          y3 \<leftarrow> h3 p;
          h6 \<leftarrow> (if se_gt y3 = Some a
                then do { h4 \<leftarrow> upd_entry h3 a (\<lambda>x. x\<lparr>se_lt := Some p\<rparr>);
                          h5 \<leftarrow> upd_entry h4 p (\<lambda>y. y\<lparr>se_gt := se_lt x\<rparr>);
                          case se_lt x of None \<Rightarrow> Some h5 | Some b \<Rightarrow> upd_entry h5 b (\<lambda>z. z\<lparr>se_parent := Some p\<rparr>) }
                else if se_lt y3 = Some a
                then do { h4 \<leftarrow> upd_entry h3 a (\<lambda>x. x\<lparr>se_gt := Some p\<rparr>);
                          h5 \<leftarrow> upd_entry h4 p (\<lambda>y. y\<lparr>se_lt := se_gt x\<rparr>);
                          case se_gt x of None \<Rightarrow> Some h5 | Some b \<Rightarrow> upd_entry h5 b (\<lambda>z. z\<lparr>se_parent := Some p\<rparr>) }
                else None);
          Some (s1, h6) }"
  unfolding relink_def by (simp add: schedule_rotate_up_def Let_def)

lemma rotate_up_lt:
  assumes "ctx_at (sch_root s) h (Some a) q (InLt p R # cs)" "tree_at h (Some a) q (Node A a B)"
    and dist: "distinct (inorder (plug (Node A a B) (InLt p R # cs)))"
  shows "\<exists>s' h' q'. schedule_rotate_up s h (Some a) = Some (s', h') \<and> sch_earliest_wakeup s' = sch_earliest_wakeup s \<and>
    ctx_at (sch_root s') h' (Some a) q' cs \<and> tree_at h' (Some a) q' (Node A a (Node B p R)) \<and>
    same_keys h h' \<and> same_outside (set_tree (plug (Node A a B) (InLt p R # cs))) h h'"
proof -
  obtain x y where xy: "h a = Some x" "se_parent x = Some p" "h p = Some y" "se_lt y = Some a"
    "tree_at h (se_gt y) (Some p) R" "ctx_at (sch_root s) h (Some p) (se_parent y) cs"
    "tree_at h (se_lt x) (Some a) A" "tree_at h (se_gt x) (Some a) B"
    using assms(1,2) by auto
  let ?C = "set (lefts cs) \<union> set (rights cs)"
  have d: "distinct (lefts cs @ rights cs)" "a \<noteq> p" "a \<notin> ?C" "p \<notin> ?C" "a \<notin> set_tree A" "a \<notin> set_tree B" "a \<notin> set_tree R"
    "p \<notin> set_tree A" "p \<notin> set_tree B" "p \<notin> set_tree R" "set_tree A \<inter> ?C = {}" "set_tree B \<inter> ?C = {}" "set_tree R \<inter> ?C = {}"
    "set_tree A \<inter> set_tree B = {}" "set_tree A \<inter> set_tree R = {}" "set_tree B \<inter> set_tree R = {}" "distinct (inorder B)"
    using dist by (auto simp: inorder_plug)
  obtain s1 h1 where r: "relink s h (se_parent y) p a = Some (s1, h1)" "sch_earliest_wakeup s1 = sch_earliest_wakeup s"
    "ctx_at (sch_root s1) h1 (Some a) (se_parent y) cs" "same_keys h h1" "same_outside ?C h h1"
    using relink_ok [OF xy(6) d(1), of a] d(4) by auto
  have out: "h1 b = h b" if "b \<notin> ?C" for b using r(5) that by (simp add: same_outside_def)
  have h1: "h1 a = Some x" "h1 p = Some y" using out d(3,4) xy(1,3) by auto
  have trees: "tree_at h1 (se_gt y) (Some p) R" "tree_at h1 (se_lt x) (Some a) A" "tree_at h1 (se_gt x) (Some a) B"
    by (rule tree_at_agree [OF xy(5)] tree_at_agree [OF xy(7)] tree_at_agree [OF xy(8)], use out d in blast)+
  have ne: "se_gt y \<noteq> Some a" using xy(5) d(7) by (auto dest: tree_at_member)
  show ?thesis
  proof (cases B)
    case Leaf
    then show ?thesis
      using xy(1-4) r(1-4) h1 trees d ne r(5)
      by (auto simp: rotate_up_eq upd_entry_def same_keys_def same_outside_def set_tree_plug)
  next
    case (Node B1 b B2)
    then obtain z where "h1 b = Some z" "se_gt x = Some b" "se_parent z = Some a" "tree_at h1 (se_lt z) (Some b) B1" "tree_at h1 (se_gt z) (Some b) B2"
      using trees(3) by auto
    then show ?thesis
      using xy(1-4) r(1-4) h1 trees d ne r(5) Node
      by (auto simp: rotate_up_eq upd_entry_def same_keys_def same_outside_def set_tree_plug)
  qed
qed

lemma rotate_up_gt:
  assumes "ctx_at (sch_root s) h (Some a) q (InGt L p # cs)" "tree_at h (Some a) q (Node A a B)"
    and dist: "distinct (inorder (plug (Node A a B) (InGt L p # cs)))"
  shows "\<exists>s' h' q'. schedule_rotate_up s h (Some a) = Some (s', h') \<and> sch_earliest_wakeup s' = sch_earliest_wakeup s \<and>
    ctx_at (sch_root s') h' (Some a) q' cs \<and> tree_at h' (Some a) q' (Node (Node L p A) a B) \<and>
    same_keys h h' \<and> same_outside (set_tree (plug (Node A a B) (InGt L p # cs))) h h'"
proof -
  obtain x y where xy: "h a = Some x" "se_parent x = Some p" "h p = Some y" "se_gt y = Some a"
    "tree_at h (se_lt y) (Some p) L" "ctx_at (sch_root s) h (Some p) (se_parent y) cs"
    "tree_at h (se_lt x) (Some a) A" "tree_at h (se_gt x) (Some a) B"
    using assms(1,2) by auto
  let ?C = "set (lefts cs) \<union> set (rights cs)"
  have d: "distinct (lefts cs @ rights cs)" "a \<noteq> p" "a \<notin> ?C" "p \<notin> ?C" "a \<notin> set_tree A" "a \<notin> set_tree B" "a \<notin> set_tree L"
    "p \<notin> set_tree A" "p \<notin> set_tree B" "p \<notin> set_tree L" "set_tree A \<inter> ?C = {}" "set_tree B \<inter> ?C = {}" "set_tree L \<inter> ?C = {}"
    "set_tree A \<inter> set_tree B = {}" "set_tree A \<inter> set_tree L = {}" "set_tree B \<inter> set_tree L = {}" "distinct (inorder A)"
    using dist by (auto simp: inorder_plug)
  obtain s1 h1 where r: "relink s h (se_parent y) p a = Some (s1, h1)" "sch_earliest_wakeup s1 = sch_earliest_wakeup s"
    "ctx_at (sch_root s1) h1 (Some a) (se_parent y) cs" "same_keys h h1" "same_outside ?C h h1"
    using relink_ok [OF xy(6) d(1), of a] d(4) by auto
  have out: "h1 b = h b" if "b \<notin> ?C" for b using r(5) that by (simp add: same_outside_def)
  have h1: "h1 a = Some x" "h1 p = Some y" using out d(3,4) xy(1,3) by auto
  have trees: "tree_at h1 (se_lt y) (Some p) L" "tree_at h1 (se_lt x) (Some a) A" "tree_at h1 (se_gt x) (Some a) B"
    by (rule tree_at_agree [OF xy(5)] tree_at_agree [OF xy(7)] tree_at_agree [OF xy(8)], use out d in blast)+
  show ?thesis
  proof (cases A)
    case Leaf
    then show ?thesis
      using xy(1-4) r(1-4) h1 trees d r(5)
      by (auto simp: rotate_up_eq upd_entry_def same_keys_def same_outside_def set_tree_plug)
  next
    case (Node A1 b A2)
    then obtain z where "h1 b = Some z" "se_lt x = Some b" "se_parent z = Some a" "tree_at h1 (se_lt z) (Some b) A1" "tree_at h1 (se_gt z) (Some b) A2"
      using trees(2) by auto
    then show ?thesis
      using xy(1-4) r(1-4) h1 trees d r(5) Node
      by (auto simp: rotate_up_eq upd_entry_def same_keys_def same_outside_def set_tree_plug)
  qed
qed

section \<open>Priorities\<close>

text \<open>A relation holds from every node to all nodes below it; and the same around a place.\<close>

fun heapy :: "(addr \<Rightarrow> addr \<Rightarrow> bool) \<Rightarrow> addr tree \<Rightarrow> bool" where
  "heapy P Leaf \<longleftrightarrow> True"
| "heapy P (Node l a r) \<longleftrightarrow> (\<forall>b \<in> set_tree l \<union> set_tree r. P a b) \<and> heapy P l \<and> heapy P r"

fun heapy_ctx :: "(addr \<Rightarrow> addr \<Rightarrow> bool) \<Rightarrow> addr set \<Rightarrow> crumb list \<Rightarrow> bool" where
  "heapy_ctx P S [] \<longleftrightarrow> True"
| "heapy_ctx P S (InLt p r # cs) \<longleftrightarrow>
     (\<forall>b \<in> S \<union> set_tree r. P p b) \<and> heapy P r \<and> heapy_ctx P (insert p (S \<union> set_tree r)) cs"
| "heapy_ctx P S (InGt l p # cs) \<longleftrightarrow>
     (\<forall>b \<in> S \<union> set_tree l. P p b) \<and> heapy P l \<and> heapy_ctx P (insert p (S \<union> set_tree l)) cs"

lemma heapy_plug: "heapy P (plug t cs) \<longleftrightarrow> heapy P t \<and> heapy_ctx P (set_tree t) cs"
proof (induction t cs rule: plug.induct)
  case (3 t l p cs)
  then show ?case by (auto simp: Un_commute insert_commute)
qed (auto simp: Un_commute)

definition pri_of :: "sched_heap \<Rightarrow> addr \<Rightarrow> u32" where
  "pri_of h b = (case h b of None \<Rightarrow> 0 | Some x \<Rightarrow> se_pri x)"

lemma same_keys_pri: "same_keys h h' \<Longrightarrow> pri_of h' b = pri_of h b"
  by (auto simp: same_keys_def pri_of_def dest!: spec [of _ b] split: option.splits)

text \<open>The order of the priorities, but for the node \<open>a\<close>.\<close>

definition pri_but :: "(addr \<Rightarrow> u32) \<Rightarrow> addr \<Rightarrow> addr \<Rightarrow> addr \<Rightarrow> bool" where
  "pri_but pr a b c \<longleftrightarrow> b = a \<or> c = a \<or> pr b \<le> pr c"

lemma heapy_lift_lt:
  assumes "heapy (pri_but pr a) (Node (Node A1 l A2) a B)" "a \<notin> set_tree B"
    and "case B of Leaf \<Rightarrow> True | Node _ g _ \<Rightarrow> pr l \<le> pr g"
  shows "heapy (pri_but pr a) (Node A1 l (Node A2 a B))"
proof (cases B)
  case Leaf
  then show ?thesis using assms by (auto simp: pri_but_def)
next
  case (Node B1 g B2)
  have "pri_but pr a l b" if "b \<in> set_tree B" for b
    using that assms Node by (auto simp: pri_but_def)
  then show ?thesis using assms by (auto simp: pri_but_def)
qed

lemma heapy_lift_gt:
  assumes "heapy (pri_but pr a) (Node A a (Node B1 g B2))" "a \<notin> set_tree A"
    and "case A of Leaf \<Rightarrow> True | Node _ l _ \<Rightarrow> pr g \<le> pr l"
  shows "heapy (pri_but pr a) (Node (Node A a B1) g B2)"
proof (cases A)
  case Leaf
  then show ?thesis using assms by (auto simp: pri_but_def)
next
  case (Node A1 l A2)
  have "pri_but pr a g b" if "b \<in> set_tree A" for b
    using that assms Node by (auto simp: pri_but_def)
  then show ?thesis using assms by (auto simp: pri_but_def)
qed

section \<open>Operations on the tree\<close>

definition sched_tree :: "schedule \<Rightarrow> sched_heap \<Rightarrow> addr tree \<Rightarrow> bool" where
  "sched_tree s h t \<longleftrightarrow> tree_at h (sch_root s) None t \<and> distinct (inorder t)"

fun root_of :: "addr tree \<Rightarrow> addr option" where
  "root_of Leaf = None"
| "root_of (Node l a r) = Some a"

fun parent_of :: "crumb list \<Rightarrow> addr option" where
  "parent_of [] = None"
| "parent_of (InLt p r # cs) = Some p"
| "parent_of (InGt l p # cs) = Some p"

lemma tree_at_root_of: "tree_at h p q t \<Longrightarrow> p = root_of t" by (cases t) simp_all

lemma ctx_at_parent: "ctx_at root h e q cs \<Longrightarrow> q = parent_of cs" by (cases cs rule: parent_of.cases) simp_all

lemma sched_tree_node:
  assumes "sched_tree s h (plug (Node l a r) cs)"
  obtains x where "h a = Some x" "se_lt x = root_of l" "se_gt x = root_of r" "se_parent x = parent_of cs"
proof -
  obtain e q where "ctx_at (sch_root s) h e q cs" "tree_at h e q (Node l a r)"
    using assms by (auto simp: sched_tree_def tree_at_plug)
  then show thesis using that by (auto dest: tree_at_root_of ctx_at_parent)
qed

lemma sched_tree_root: "sched_tree s h t \<Longrightarrow> sch_root s = root_of t"
  by (auto simp: sched_tree_def dest: tree_at_root_of)

lemma rotate_lt_tree:
  assumes "sched_tree s h (plug (Node (Node A a B) p R) cs)"
  shows "\<exists>s' h'. schedule_rotate_up s h (Some a) = Some (s', h') \<and> sch_earliest_wakeup s' = sch_earliest_wakeup s \<and>
    sched_tree s' h' (plug (Node A a (Node B p R)) cs) \<and> same_keys h h' \<and>
    same_outside (set_tree (plug (Node (Node A a B) p R) cs)) h h'"
proof -
  have eq: "plug (Node (Node A a B) p R) cs = plug (Node A a B) (InLt p R # cs)" by simp
  obtain q where "ctx_at (sch_root s) h (Some a) q (InLt p R # cs)" "tree_at h (Some a) q (Node A a B)"
    using assms unfolding sched_tree_def eq tree_at_plug by auto
  then obtain s' h' q' where "schedule_rotate_up s h (Some a) = Some (s', h')" "sch_earliest_wakeup s' = sch_earliest_wakeup s"
    "ctx_at (sch_root s') h' (Some a) q' cs" "tree_at h' (Some a) q' (Node A a (Node B p R))" "same_keys h h'"
    "same_outside (set_tree (plug (Node A a B) (InLt p R # cs))) h h'"
    using rotate_up_lt [of s h a q p R cs A B] assms unfolding sched_tree_def eq by blast
  moreover have "distinct (inorder (plug (Node A a (Node B p R)) cs))"
    using assms by (simp add: sched_tree_def inorder_plug)
  ultimately show ?thesis unfolding sched_tree_def tree_at_plug eq by blast
qed

lemma rotate_gt_tree:
  assumes "sched_tree s h (plug (Node L p (Node A a B)) cs)"
  shows "\<exists>s' h'. schedule_rotate_up s h (Some a) = Some (s', h') \<and> sch_earliest_wakeup s' = sch_earliest_wakeup s \<and>
    sched_tree s' h' (plug (Node (Node L p A) a B) cs) \<and> same_keys h h' \<and>
    same_outside (set_tree (plug (Node L p (Node A a B)) cs)) h h'"
proof -
  have eq: "plug (Node L p (Node A a B)) cs = plug (Node A a B) (InGt L p # cs)" by simp
  obtain q where "ctx_at (sch_root s) h (Some a) q (InGt L p # cs)" "tree_at h (Some a) q (Node A a B)"
    using assms unfolding sched_tree_def eq tree_at_plug by auto
  then obtain s' h' q' where "schedule_rotate_up s h (Some a) = Some (s', h')" "sch_earliest_wakeup s' = sch_earliest_wakeup s"
    "ctx_at (sch_root s') h' (Some a) q' cs" "tree_at h' (Some a) q' (Node (Node L p A) a B)" "same_keys h h'"
    "same_outside (set_tree (plug (Node A a B) (InGt L p # cs))) h h'"
    using rotate_up_gt [of s h a q L p cs A B] assms unfolding sched_tree_def eq by blast
  moreover have "distinct (inorder (plug (Node (Node L p A) a B) cs))"
    using assms by (simp add: sched_tree_def inorder_plug)
  ultimately show ?thesis unfolding sched_tree_def tree_at_plug eq by blast
qed

lemma set_plug_eq: "inorder (plug t cs) = inorder (plug t' cs') \<Longrightarrow> set_tree (plug t cs) = set_tree (plug t' cs')"
  by (metis set_inorder)

text \<open>One step of the loop of \<open>schedule_remove_node\<close>.\<close>

definition sink_step :: "schedule \<Rightarrow> sched_heap \<Rightarrow> schedule_entry \<Rightarrow> (schedule \<times> sched_heap) option" where
  "sink_step s h x = (case se_lt x of
      Some l \<Rightarrow> (case se_gt x of
          Some g \<Rightarrow> do { xl \<leftarrow> h l;
                        xg \<leftarrow> h g;
                        if se_pri xl < se_pri xg then schedule_rotate_up s h (se_lt x)
                        else schedule_rotate_up s h (se_gt x) }
        | None \<Rightarrow> schedule_rotate_up s h (se_lt x))
    | None \<Rightarrow> schedule_rotate_up s h (se_gt x))"

lemma sink_step_ok:
  assumes t: "sched_tree s h (plug (Node l a r) cs)" and some: "l \<noteq> Leaf \<or> r \<noteq> Leaf"
    and hp: "heapy (pri_but (pri_of h) a) (plug (Node l a r) cs)" and x: "h a = Some x"
  obtains s' h' l' r' cs' where "sink_step s h x = Some (s', h')" "sch_earliest_wakeup s' = sch_earliest_wakeup s"
    "sched_tree s' h' (plug (Node l' a r') cs')" "size l' + size r' < size l + size r"
    "inorder (plug (Node l' a r') cs') = inorder (plug (Node l a r) cs)"
    "heapy (pri_but (pri_of h) a) (plug (Node l' a r') cs')" "same_keys h h'" "same_outside (set_tree (plug (Node l a r) cs)) h h'"
proof -
  note found = that
  have x': "se_lt x = root_of l" "se_gt x = root_of r" using sched_tree_node [OF t] x by auto
  have dist: "distinct (inorder (plug (Node l a r) cs))" using t by (simp add: sched_tree_def)
  have up_lt: thesis if l: "l = Node A1 b A2" and step: "sink_step s h x = schedule_rotate_up s h (Some b)"
    and le: "case r of Leaf \<Rightarrow> True | Node _ g _ \<Rightarrow> pri_of h b \<le> pri_of h g" for A1 b A2
  proof -
    obtain s' h' where "schedule_rotate_up s h (Some b) = Some (s', h')" "sch_earliest_wakeup s' = sch_earliest_wakeup s"
      "sched_tree s' h' (plug (Node A1 b (Node A2 a r)) cs)" "same_keys h h'" "same_outside (set_tree (plug (Node l a r) cs)) h h'"
      using rotate_lt_tree [OF t [unfolded l]] unfolding l by blast
    moreover have "heapy (pri_but (pri_of h) a) (plug (Node A1 b (Node A2 a r)) cs)"
      using hp heapy_lift_lt [of "pri_of h" a A1 b A2 r] le dist unfolding l heapy_plug
      by (auto simp: inorder_plug insert_commute Un_ac)
    ultimately show thesis using found [of s' h' A2 r "InGt A1 b # cs"] step by (simp add: inorder_plug l)
  qed
  have up_gt: thesis if r: "r = Node B1 b B2" and step: "sink_step s h x = schedule_rotate_up s h (Some b)"
    and le: "case l of Leaf \<Rightarrow> True | Node _ g _ \<Rightarrow> pri_of h b \<le> pri_of h g" for B1 b B2
  proof -
    obtain s' h' where "schedule_rotate_up s h (Some b) = Some (s', h')" "sch_earliest_wakeup s' = sch_earliest_wakeup s"
      "sched_tree s' h' (plug (Node (Node l a B1) b B2) cs)" "same_keys h h'" "same_outside (set_tree (plug (Node l a r) cs)) h h'"
      using rotate_gt_tree [OF t [unfolded r]] unfolding r by blast
    moreover have "heapy (pri_but (pri_of h) a) (plug (Node (Node l a B1) b B2) cs)"
      using hp heapy_lift_gt [of "pri_of h" a l B1 b B2] le dist unfolding r heapy_plug
      by (auto simp: inorder_plug insert_commute Un_ac)
    ultimately show thesis using found [of s' h' l B1 "InLt b B2 # cs"] step by (simp add: inorder_plug r)
  qed
  show thesis
  proof (cases l)
    case Leaf
    then obtain B1 b B2 where "r = Node B1 b B2" using some by (cases r) auto
    then show thesis using up_gt Leaf x' by (simp add: sink_step_def)
  next
    case l: (Node A1 b A2)
    show thesis
    proof (cases r)
      case Leaf
      then show thesis using up_lt l x' by (simp add: sink_step_def)
    next
      case r: (Node B1 c B2)
      obtain xb where xb: "h b = Some xb"
        by (rule sched_tree_node [where s = s and h = h and l = A1 and a = b and r = A2 and cs = "InLt a r # cs"]) (use t l in auto)
      obtain xc where xc: "h c = Some xc"
        by (rule sched_tree_node [where s = s and h = h and l = B1 and a = c and r = B2 and cs = "InGt l a # cs"]) (use t r in auto)
      show thesis
      proof (cases "se_pri xb < se_pri xc")
        case True
        then show thesis using up_lt [OF l] r x' l xb xc by (simp add: sink_step_def pri_of_def)
      next
        case False
        then show thesis using up_gt [OF r] l x' r xb xc by (simp add: sink_step_def pri_of_def)
      qed
    qed
  qed
qed

lemma pri_but_cong: "same_keys h h' \<Longrightarrow> pri_but (pri_of h') a = pri_but (pri_of h) a"
  by (simp add: pri_but_def fun_eq_iff same_keys_pri)

lemma schedule_sink_ok:
  assumes "sched_tree s h (plug (Node l a r) cs)" "heapy (pri_but (pri_of h) a) (plug (Node l a r) cs)"
  shows "\<exists>s' h' cs'. schedule_sink s h a = Some (s', h') \<and> sch_earliest_wakeup s' = sch_earliest_wakeup s \<and>
    sched_tree s' h' (plug (Node Leaf a Leaf) cs') \<and>
    inorder (plug (Node Leaf a Leaf) cs') = inorder (plug (Node l a r) cs) \<and>
    heapy (pri_but (pri_of h) a) (plug (Node Leaf a Leaf) cs') \<and> same_keys h h' \<and>
    same_outside (set_tree (plug (Node l a r) cs)) h h'"
  using assms
proof (induction "size l + size r" arbitrary: s h l r cs rule: less_induct)
  case less
  obtain x where x: "h a = Some x" "se_lt x = root_of l" "se_gt x = root_of r" "se_parent x = parent_of cs"
    using sched_tree_node [OF less.prems(1)] by blast
  show ?case
  proof (cases "l = Leaf \<and> r = Leaf")
    case True
    have "schedule_sink s h a = Some (s, h)" using x True by (subst schedule_sink.simps) simp
    then show ?thesis using less.prems True by auto
  next
    case False
    then have some: "l \<noteq> Leaf \<or> r \<noteq> Leaf" by simp
    obtain s1 h1 l1 r1 cs1 where s1: "sink_step s h x = Some (s1, h1)" "sch_earliest_wakeup s1 = sch_earliest_wakeup s"
      "sched_tree s1 h1 (plug (Node l1 a r1) cs1)" "size l1 + size r1 < size l + size r"
      "inorder (plug (Node l1 a r1) cs1) = inorder (plug (Node l a r) cs)"
      "heapy (pri_but (pri_of h) a) (plug (Node l1 a r1) cs1)" "same_keys h h1" "same_outside (set_tree (plug (Node l a r) cs)) h h1"
      using sink_step_ok [OF less.prems(1) some less.prems(2) x(1)] by metis
    have "\<not> (se_lt x = None \<and> se_gt x = None)" using some x by (cases l; cases r) auto
    then have step: "schedule_sink s h a = schedule_sink s1 h1 a"
      using x(1) s1(1) by (subst schedule_sink.simps) (auto simp: sink_step_def)
    obtain s' h' cs' where s2: "schedule_sink s1 h1 a = Some (s', h')" "sch_earliest_wakeup s' = sch_earliest_wakeup s1"
      "sched_tree s' h' (plug (Node Leaf a Leaf) cs')" "inorder (plug (Node Leaf a Leaf) cs') = inorder (plug (Node l1 a r1) cs1)"
      "heapy (pri_but (pri_of h) a) (plug (Node Leaf a Leaf) cs')" "same_keys h1 h'"
      "same_outside (set_tree (plug (Node l1 a r1) cs1)) h1 h'"
      using less.hyps [OF s1(4,3)] s1(6,7) by (auto simp: pri_but_cong)
    have "same_keys h h'" using s1(7) s2(6) by (rule same_keys_trans)
    moreover have "same_outside (set_tree (plug (Node l a r) cs)) h h'"
      using s1(8) s2(7) unfolding set_plug_eq [OF s1(5)] by (rule same_outside_trans)
    ultimately show ?thesis using step s2(1-5) s1(2,5) by simp blast
  qed
qed

text \<open>Without the node that the loop has brought down, everything else is in place.\<close>

lemma schedule_detach_ok:
  assumes t: "sched_tree s h (plug (Node Leaf a Leaf) cs)"
  shows "\<exists>s' h' x. schedule_detach_parent s h (Some a) = Some (s', h') \<and> sch_earliest_wakeup s' = sch_earliest_wakeup s \<and>
    sched_tree s' h' (plug Leaf cs) \<and> h' a = Some x \<and> se_parent x = None \<and> se_lt x = None \<and> se_gt x = None \<and>
    same_keys h h' \<and> same_outside (set_tree (plug (Node Leaf a Leaf) cs)) h h'"
proof -
  have dist: "distinct (lefts cs @ a # rights cs)" using t by (simp add: sched_tree_def inorder_plug)
  obtain x where x: "h a = Some x" "se_lt x = None" "se_gt x = None" "se_parent x = parent_of cs"
    using sched_tree_node [OF t] by auto
  have c: "ctx_at (sch_root s) h (Some a) (parent_of cs) cs"
  proof -
    obtain e q where eq: "ctx_at (sch_root s) h e q cs" "tree_at h e q (Node Leaf a Leaf)"
      using t unfolding sched_tree_def tree_at_plug by blast
    then show ?thesis using ctx_at_parent [OF eq(1)] by simp
  qed
  note defs = schedule_detach_parent_def upd_entry_def same_keys_def same_outside_def set_tree_plug sched_tree_def
    tree_at_plug inorder_plug
  show ?thesis
  proof (cases cs rule: lefts.cases)
    case 1
    then show ?thesis using x c by (auto simp: defs)
  next
    case (2 g S cs')
    then obtain z where z: "h g = Some z" "se_lt z = Some a" "tree_at h (se_gt z) (Some g) S"
      "ctx_at (sch_root s) h (Some g) (se_parent z) cs'" using c by auto
    then show ?thesis using x c dist unfolding 2 by (auto simp: defs)
  next
    case (3 S g cs')
    then obtain z where z: "h g = Some z" "se_gt z = Some a" "tree_at h (se_lt z) (Some g) S"
      "ctx_at (sch_root s) h (Some g) (se_parent z) cs'" using c by auto
    moreover have "se_lt z \<noteq> Some a" using z(3) dist 3 by (auto dest: tree_at_member)
    ultimately show ?thesis using x c dist unfolding 3 by (auto simp: defs)
  qed
qed

lemma heapy_mono: "heapy P t \<Longrightarrow> (\<And>b c. b \<in> set_tree t \<Longrightarrow> c \<in> set_tree t \<Longrightarrow> P b c \<Longrightarrow> Q b c) \<Longrightarrow> heapy Q t"
  by (induction t) auto

lemma sched_tree_agree:
  assumes "sched_tree s h t" "\<And>b. b \<in> set_tree t \<Longrightarrow> h' b = h b"
  shows "sched_tree s h' t"
  using assms by (auto simp: sched_tree_def intro: tree_at_agree)

definition same_keys_but :: "addr \<Rightarrow> sched_heap \<Rightarrow> sched_heap \<Rightarrow> bool" where
  "same_keys_but a h h' \<longleftrightarrow>
     (\<forall>b. b \<noteq> a \<longrightarrow> map_option (\<lambda>x. (se_tv x, se_pri x)) (h' b) = map_option (\<lambda>x. (se_tv x, se_pri x)) (h b))"

lemma same_keys_butI: "same_keys h h' \<Longrightarrow> same_keys_but a h h'" by (simp add: same_keys_def same_keys_but_def)

lemma same_keys_but_trans: "same_keys_but a h h1 \<Longrightarrow> same_keys_but a h1 h2 \<Longrightarrow> same_keys_but a h h2"
  by (simp add: same_keys_but_def)

lemma same_keys_but_pri: "same_keys_but a h h' \<Longrightarrow> b \<noteq> a \<Longrightarrow> pri_of h' b = pri_of h b"
  by (auto simp: same_keys_but_def pri_of_def dest!: spec [of _ b] split: option.splits)

abbreviation pri_ordered :: "sched_heap \<Rightarrow> addr tree \<Rightarrow> bool" where
  "pri_ordered h \<equiv> heapy (\<lambda>b c. pri_of h b \<le> pri_of h c)"

lemma heapy_ctx_mono: "heapy_ctx P S cs \<Longrightarrow> T \<subseteq> S \<Longrightarrow> heapy_ctx P T cs"
proof (induction cs arbitrary: S T rule: lefts.induct)
  case (2 p r cs)
  have "heapy_ctx P (insert p (S \<union> set_tree r)) cs" "insert p (T \<union> set_tree r) \<subseteq> insert p (S \<union> set_tree r)" using 2(2,3) by auto
  then have "heapy_ctx P (insert p (T \<union> set_tree r)) cs" by (rule 2(1))
  then show ?case using 2(2,3) by auto
next
  case (3 l p cs)
  have "heapy_ctx P (insert p (S \<union> set_tree l)) cs" "insert p (T \<union> set_tree l) \<subseteq> insert p (S \<union> set_tree l)" using 3(2,3) by auto
  then have "heapy_ctx P (insert p (T \<union> set_tree l)) cs" by (rule 3(1))
  then show ?case using 3(2,3) by auto
qed simp

lemma schedule_remove_node_ok:
  assumes t: "sched_tree s h t" "a \<in> set_tree t" "heapy (pri_but (pri_of h) a) t"
  obtains s' h' t' x where "schedule_remove_node s h a = Some (s', h')" "sch_earliest_wakeup s' = sch_earliest_wakeup s"
    "sched_tree s' h' t'" "inorder t' = remove1 a (inorder t)" "pri_ordered h' t'" "h a = Some x"
    "h' a = Some \<lparr>se_tv = se_tv x, se_pri = 0, se_parent = None, se_lt = None, se_gt = None\<rparr>"
    "same_keys_but a h h'" "same_outside (set_tree t) h h'"
proof -
  obtain l r cs where pl: "t = plug (Node l a r) cs" using plug_ex [OF t(2)] by blast
  obtain s1 h1 cs1 where s1: "schedule_sink s h a = Some (s1, h1)" "sch_earliest_wakeup s1 = sch_earliest_wakeup s"
    "sched_tree s1 h1 (plug (Node Leaf a Leaf) cs1)" "inorder (plug (Node Leaf a Leaf) cs1) = inorder t"
    "heapy (pri_but (pri_of h) a) (plug (Node Leaf a Leaf) cs1)" "same_keys h h1" "same_outside (set_tree t) h h1"
    using schedule_sink_ok [OF t(1,3) [unfolded pl]] unfolding pl by blast
  obtain s2 h2 y where s2: "schedule_detach_parent s1 h1 (Some a) = Some (s2, h2)" "sch_earliest_wakeup s2 = sch_earliest_wakeup s1"
    "sched_tree s2 h2 (plug Leaf cs1)" "h2 a = Some y" "se_parent y = None" "se_lt y = None" "se_gt y = None"
    "same_keys h1 h2" "same_outside (set_tree (plug (Node Leaf a Leaf) cs1)) h1 h2"
    using schedule_detach_ok [OF s1(3)] by blast
  have st: "set_tree (plug (Node Leaf a Leaf) cs1) = set_tree t" using s1(4) by (metis set_inorder)
  have k: "same_keys h h2" using s1(6) s2(8) by (rule same_keys_trans)
  obtain x where x: "h a = Some x" "se_tv x = se_tv y"
    using k s2(4) by (cases "h a") (auto simp: same_keys_def dest!: spec [of _ a])
  define h3 where "h3 = h2(a \<mapsto> y\<lparr>se_pri := 0\<rparr>)"
  have dist: "distinct (inorder t)" using t(1) by (simp add: sched_tree_def)
  have l: "lefts cs1 @ a # rights cs1 = inorder t" using s1(4) by (simp add: inorder_plug)
  have na: "a \<notin> set (lefts cs1)" "a \<notin> set (rights cs1)" using dist unfolding l [symmetric] by auto
  then have na': "a \<notin> set_tree (plug Leaf cs1)" by (simp add: set_tree_plug)
  show thesis
  proof (rule that)
    show "schedule_remove_node s h a = Some (s2, h3)"
      using s1(1) s2(1,4) by (simp add: schedule_remove_node_def upd_entry_def h3_def)
    show "sch_earliest_wakeup s2 = sch_earliest_wakeup s" using s1(2) s2(2) by simp
    show "sched_tree s2 h3 (plug Leaf cs1)"
      by (rule sched_tree_agree [OF s2(3)]) (use na' in \<open>auto simp: h3_def\<close>)
    show "inorder (plug Leaf cs1) = remove1 a (inorder t)"
      unfolding l [symmetric] using na by (simp add: inorder_plug remove1_append)
    have sub: "b \<noteq> a \<and> pri_of h3 b = pri_of h b" if "b \<in> set_tree (plug Leaf cs1)" for b
    proof -
      have "b \<noteq> a" using that na' by blast
      then show ?thesis using same_keys_pri [OF k, of b] by (simp add: h3_def pri_of_def)
    qed
    have "heapy (pri_but (pri_of h) a) (plug Leaf cs1)"
      using s1(5) heapy_ctx_mono [of _ "{a}" cs1 "{}"] unfolding heapy_plug by simp
    then show "pri_ordered h3 (plug Leaf cs1)"
      by (rule heapy_mono) (use sub in \<open>simp add: pri_but_def\<close>)
    show "h a = Some x" by (rule x(1))
    show "h3 a = Some \<lparr>se_tv = se_tv x, se_pri = 0, se_parent = None, se_lt = None, se_gt = None\<rparr>"
      using s2(5-7) x(2) by (cases y) (simp add: h3_def)
    show "same_keys_but a h h3" using k by (simp add: same_keys_but_def same_keys_def h3_def)
    show "same_outside (set_tree t) h h3"
      using s1(7) s2(9) t(2) st by (auto simp: same_outside_def h3_def)
  qed
qed

section \<open>The order of the keys\<close>

definition sched_key :: "schedule_entry \<Rightarrow> int \<times> int \<times> u32" where
  "sched_key x = (tv_sec (se_tv x), tv_usec (se_tv x), se_pri x)"

lemma schedule_entry_compare_key:
  "schedule_entry_compare x y = (if sched_key x < sched_key y then - 1 else if sched_key y < sched_key x then 1 else 0)"
  by (auto simp: schedule_entry_compare_def sched_key_def)

definition key_of :: "sched_heap \<Rightarrow> addr \<Rightarrow> int \<times> int \<times> u32" where
  "key_of h b = (case h b of None \<Rightarrow> (0, 0, 0) | Some x \<Rightarrow> sched_key x)"

lemma key_of_Some [simp]: "h b = Some x \<Longrightarrow> key_of h b = sched_key x" by (simp add: key_of_def)

abbreviation key_ordered :: "sched_heap \<Rightarrow> addr tree \<Rightarrow> bool" where
  "key_ordered h t \<equiv> sorted_wrt (\<lambda>b c. key_of h b < key_of h c) (inorder t)"

lemma same_keys_but_key: "same_keys_but a h h' \<Longrightarrow> b \<noteq> a \<Longrightarrow> key_of h' b = key_of h b"
  by (auto simp: same_keys_but_def key_of_def sched_key_def dest!: spec [of _ b] split: option.splits)

lemma sorted_wrt_cong: "sorted_wrt P xs \<Longrightarrow> (\<And>b c. b \<in> set xs \<Longrightarrow> c \<in> set xs \<Longrightarrow> P b c \<Longrightarrow> Q b c) \<Longrightarrow> sorted_wrt Q xs"
  by (induction xs) auto

lemma attach_lt:
  assumes "sched_tree s h (plug (Node Leaf c r) cs)" "h c = Some y" "h a = Some x" "se_lt x = None" "se_gt x = None"
    and "a \<notin> set_tree (plug (Node Leaf c r) cs)"
  shows "sched_tree s (h(c \<mapsto> y\<lparr>se_lt := Some a\<rparr>, a \<mapsto> x\<lparr>se_parent := Some c\<rparr>)) (plug (Node Leaf a Leaf) (InLt c r # cs))"
proof -
  have dist: "distinct (lefts cs @ c # inorder r @ rights cs)" using assms(1) by (simp add: sched_tree_def inorder_plug)
  obtain e q where "ctx_at (sch_root s) h e q cs" "tree_at h e q (Node Leaf c r)"
    using assms(1) unfolding sched_tree_def tree_at_plug by blast
  then show ?thesis
    using assms(2-) dist by (auto simp: sched_tree_def tree_at_plug inorder_plug set_tree_plug)
qed

lemma attach_gt:
  assumes "sched_tree s h (plug (Node l c Leaf) cs)" "h c = Some y" "h a = Some x" "se_lt x = None" "se_gt x = None"
    and "a \<notin> set_tree (plug (Node l c Leaf) cs)"
  shows "sched_tree s (h(c \<mapsto> y\<lparr>se_gt := Some a\<rparr>, a \<mapsto> x\<lparr>se_parent := Some c\<rparr>)) (plug (Node Leaf a Leaf) (InGt l c # cs))"
proof -
  have dist: "distinct (lefts cs @ inorder l @ c # rights cs)" using assms(1) by (simp add: sched_tree_def inorder_plug)
  obtain e q where "ctx_at (sch_root s) h e q cs" "tree_at h e q (Node l c Leaf)"
    using assms(1) unfolding sched_tree_def tree_at_plug by blast
  then show ?thesis
    using assms(2-) dist by (auto simp: sched_tree_def tree_at_plug inorder_plug set_tree_plug)
qed

text \<open>One search: the node finds a place, or meets a node with its own key and takes another priority.\<close>

definition insert_again :: "schedule \<Rightarrow> sched_heap \<Rightarrow> addr \<Rightarrow> u32 list \<Rightarrow> (sched_heap \<times> u32 list) option" where
  "insert_again s h a rnd =
     do { (h1, rnd1) \<leftarrow> schedule_set_pri h a rnd; schedule_insert_at s h1 a (sch_root s) rnd1 }"

definition placed :: "schedule \<Rightarrow> sched_heap \<Rightarrow> addr \<Rightarrow> addr tree \<Rightarrow> sched_heap \<Rightarrow> bool" where
  "placed s h a t h' \<longleftrightarrow> (\<exists>cs. plug Leaf cs = t \<and> sched_tree s h' (plug (Node Leaf a Leaf) cs) \<and>
     (\<forall>b \<in> set (lefts cs). key_of h b < key_of h a) \<and> (\<forall>b \<in> set (rights cs). key_of h a < key_of h b)) \<and>
     same_keys h h' \<and> same_outside (insert a (set_tree t)) h h'"

lemma insert_search:
  assumes "sched_tree s h (plug t cs)" "t \<noteq> Leaf" "a \<notin> set_tree (plug t cs)" "key_ordered h (plug t cs)"
    and "h a = Some x" "se_lt x = None" "se_gt x = None"
    and "\<forall>b \<in> set (lefts cs). key_of h b < key_of h a" "\<forall>b \<in> set (rights cs). key_of h a < key_of h b"
  shows "(\<exists>h'. schedule_insert_at s h a (root_of t) rnd = Some (h', rnd) \<and> placed s h a (plug t cs) h') \<or>
    (\<exists>b \<in> set_tree (plug t cs). key_of h b = key_of h a) \<and> schedule_insert_at s h a (root_of t) rnd = insert_again s h a rnd"
  using assms
proof (induction t arbitrary: cs)
  case (Node l c r)
  obtain y where y: "h c = Some y" "se_lt y = root_of l" "se_gt y = root_of r" using sched_tree_node [OF Node.prems(1)] by blast
  have ac: "a \<noteq> c" using Node.prems(3) by (auto simp: set_tree_plug)
  have ord: "key_of h b < key_of h c" if "b \<in> set (lefts cs) \<union> set_tree l" for b
    using Node.prems(4) that by (auto simp: inorder_plug sorted_wrt_append)
  have ord': "key_of h c < key_of h b" if "b \<in> set_tree r \<union> set (rights cs)" for b
    using Node.prems(4) that by (auto simp: inorder_plug sorted_wrt_append)
  note eq = schedule_insert_at.simps [of s h a "Some c" rnd]
  consider (less) "sched_key x < sched_key y" | (greater) "sched_key y < sched_key x" | (same) "sched_key x = sched_key y" by fastforce
  then show ?case
  proof cases
    case less
    show ?thesis
    proof (cases l)
      case Leaf
      let ?h = "h(c \<mapsto> y\<lparr>se_lt := Some a\<rparr>, a \<mapsto> x\<lparr>se_parent := Some c\<rparr>)"
      have run: "schedule_insert_at s h a (Some c) rnd = Some (?h, rnd)"
        using less y Leaf Node.prems(5) ac by (subst eq) (simp add: schedule_entry_compare_key upd_entry_def)
      have t': "sched_tree s ?h (plug (Node Leaf a Leaf) (InLt c r # cs))"
        using attach_lt [OF Node.prems(1) [unfolded Leaf] y(1) Node.prems(5-7) Node.prems(3) [unfolded Leaf]] .
      have "key_of h a < key_of h c" using less y(1) Node.prems(5) by simp
      then have "\<forall>b \<in> set (rights (InLt c r # cs)). key_of h a < key_of h b"
        using ord' by (auto intro: less_trans)
      then have "placed s h a (plug (Node l c r) cs) ?h"
        unfolding placed_def using t' Node.prems(5,8) y(1) Leaf
        by (intro conjI exI [of _ "InLt c r # cs"]) (auto simp: same_keys_def same_outside_def set_tree_plug)
      then show ?thesis using run by simp
    next
      case l: (Node l1 d l2)
      have run: "schedule_insert_at s h a (Some c) rnd = schedule_insert_at s h a (Some d) rnd"
        using less y l Node.prems(5) by (subst eq) (simp add: schedule_entry_compare_key)
      have "key_of h a < key_of h c" using less y(1) Node.prems(5) by simp
      then have "\<forall>b \<in> set (rights (InLt c r # cs)). key_of h a < key_of h b"
        using ord' by (auto intro: less_trans)
      then show ?thesis
        using Node.IH(1) [of "InLt c r # cs"] Node.prems run l by simp
    qed
  next
    case greater
    then have ne: "\<not> sched_key x < sched_key y" by simp
    show ?thesis
    proof (cases r)
      case Leaf
      let ?h = "h(c \<mapsto> y\<lparr>se_gt := Some a\<rparr>, a \<mapsto> x\<lparr>se_parent := Some c\<rparr>)"
      have run: "schedule_insert_at s h a (Some c) rnd = Some (?h, rnd)"
        using greater ne y Leaf Node.prems(5) ac by (subst eq) (simp add: schedule_entry_compare_key upd_entry_def)
      have t': "sched_tree s ?h (plug (Node Leaf a Leaf) (InGt l c # cs))"
        using attach_gt [OF Node.prems(1) [unfolded Leaf] y(1) Node.prems(5-7) Node.prems(3) [unfolded Leaf]] .
      have "key_of h c < key_of h a" using greater y(1) Node.prems(5) by simp
      then have "\<forall>b \<in> set (lefts (InGt l c # cs)). key_of h b < key_of h a"
        using ord by (auto intro: less_trans)
      then have "placed s h a (plug (Node l c r) cs) ?h"
        unfolding placed_def using t' Node.prems(5,9) y(1) Leaf
        by (intro conjI exI [of _ "InGt l c # cs"]) (auto simp: same_keys_def same_outside_def set_tree_plug)
      then show ?thesis using run by simp
    next
      case r: (Node r1 d r2)
      have run: "schedule_insert_at s h a (Some c) rnd = schedule_insert_at s h a (Some d) rnd"
        using greater ne y r Node.prems(5) by (subst eq) (simp add: schedule_entry_compare_key)
      have "key_of h c < key_of h a" using greater y(1) Node.prems(5) by simp
      then have "\<forall>b \<in> set (lefts (InGt l c # cs)). key_of h b < key_of h a"
        using ord by (auto intro: less_trans)
      then show ?thesis
        using Node.IH(2) [of "InGt l c # cs"] Node.prems run r by simp
    qed
  next
    case same
    have "schedule_insert_at s h a (Some c) rnd = insert_again s h a rnd"
      using same y Node.prems(5) by (subst eq) (simp add: schedule_entry_compare_key insert_again_def)
    then show ?thesis using same y(1) Node.prems(5) by (auto simp: set_tree_plug)
  qed
qed simp

text \<open>A new priority keeps the tree; enough of them, and the node finds a place.\<close>

definition pri_free :: "sched_heap \<Rightarrow> addr tree \<Rightarrow> timeval \<Rightarrow> u32 \<Rightarrow> bool" where
  "pri_free h t tv p \<longleftrightarrow> (\<forall>b \<in> set_tree t. key_of h b \<noteq> (tv_sec tv, tv_usec tv, p))"

lemma schedule_insert_ok:
  assumes "sched_tree s h t" "t \<noteq> Leaf" "a \<notin> set_tree t" "key_ordered h t"
    and "h a = Some x" "se_lt x = None" "se_gt x = None" "se_pri x \<noteq> 0"
    and "pri_free h t (se_tv x) (se_pri x) \<or> (\<exists>r \<in> set rnd. pri_free h t (se_tv x) (sched_pri r))"
  shows "\<exists>h' rnd' p. schedule_insert s h a rnd = Some (h', rnd') \<and> p \<noteq> 0 \<and> placed s (h(a \<mapsto> x\<lparr>se_pri := p\<rparr>)) a t h'"
  using assms(1,3-)
proof (induction rnd arbitrary: h x)
  case Nil
  have root: "sch_root s = root_of t" using Nil.prems(1) by (rule sched_tree_root)
  have "\<not> (\<exists>b \<in> set_tree t. key_of h b = key_of h a)"
    using Nil.prems(4,8) by (auto simp: pri_free_def sched_key_def)
  then obtain h' where "schedule_insert_at s h a (root_of t) [] = Some (h', [])" "placed s h a t h'"
    using insert_search [of s h t "[]" a x "[]"] Nil.prems assms(2) by auto
  moreover have "h(a \<mapsto> x\<lparr>se_pri := se_pri x\<rparr>) = h" using Nil.prems(4) by auto
  ultimately show ?case unfolding schedule_insert_def root using Nil.prems(7) by metis
next
  case (Cons r rnd)
  have root: "sch_root s = root_of t" using Cons.prems(1) by (rule sched_tree_root)
  have self: "h(a \<mapsto> x\<lparr>se_pri := se_pri x\<rparr>) = h" using Cons.prems(4) by auto
  from insert_search [of s h t "[]" a x "r # rnd"] Cons.prems assms(2)
  consider h' where "schedule_insert_at s h a (root_of t) (r # rnd) = Some (h', r # rnd)" "placed s h a t h'"
    | "\<exists>b \<in> set_tree t. key_of h b = key_of h a" "schedule_insert_at s h a (root_of t) (r # rnd) = insert_again s h a (r # rnd)"
    by auto
  then show ?case
  proof cases
    case 1
    then show ?thesis unfolding schedule_insert_def root using self Cons.prems(7) by metis
  next
    case 2
    let ?x = "x\<lparr>se_pri := sched_pri r\<rparr>" and ?h = "h(a \<mapsto> x\<lparr>se_pri := sched_pri r\<rparr>)"
    have again: "schedule_insert s h a (r # rnd) = schedule_insert s ?h a rnd"
      using 2(2) root Cons.prems(4) by (simp add: schedule_insert_def insert_again_def upd_entry_def)
    have key: "key_of ?h b = key_of h b" if "b \<in> set_tree t" for b
      using that Cons.prems(2) by (auto simp: key_of_def)
    have free: "pri_free ?h t tv p = pri_free h t tv p" for tv p by (simp add: pri_free_def key)
    have "\<not> pri_free h t (se_tv x) (se_pri x)"
      using 2(1) Cons.prems(4) by (auto simp: pri_free_def sched_key_def)
    then have f: "pri_free ?h t (se_tv ?x) (se_pri ?x) \<or> (\<exists>r \<in> set rnd. pri_free ?h t (se_tv ?x) (sched_pri r))"
      using Cons.prems(8) by (auto simp: free)
    have t: "sched_tree s ?h t" by (rule sched_tree_agree [OF Cons.prems(1)]) (use Cons.prems(2) in auto)
    have k: "key_ordered ?h t" by (rule sorted_wrt_cong [OF Cons.prems(3)]) (simp add: key)
    have e: "?h a = Some ?x" "se_lt ?x = None" "se_gt ?x = None" "se_pri ?x \<noteq> 0"
      using Cons.prems(5,6) by (simp_all add: sched_pri_def)
    have "?h(a \<mapsto> ?x\<lparr>se_pri := p\<rparr>) = h(a \<mapsto> x\<lparr>se_pri := p\<rparr>)" for p by simp
    then obtain h' rnd' p where "schedule_insert s ?h a rnd = Some (h', rnd')" "p \<noteq> 0"
      "placed s (h(a \<mapsto> x\<lparr>se_pri := p\<rparr>)) a t h'"
      using Cons.IH [OF t Cons.prems(2) k e f] by metis
    then show ?thesis unfolding again by blast
  qed
qed

section \<open>Up to its place\<close>

lemma pri_but_bound: "pri_but pr a q b \<Longrightarrow> q \<noteq> a \<Longrightarrow> pr q \<le> pr a \<Longrightarrow> pr q \<le> pr b"
  by (auto simp: pri_but_def)

lemma heapy_without: "heapy (pri_but pr a) t \<Longrightarrow> a \<notin> set_tree t \<Longrightarrow> heapy (\<lambda>b c. pr b \<le> pr c) t"
  by (induction t) (auto simp: pri_but_def)

lemma heapy_ctx_above:
  assumes "heapy_ctx (pri_but pr a) S cs" "p \<in> S" "p \<noteq> a" "pr p \<le> pr a" "a \<notin> set (lefts cs)" "a \<notin> set (rights cs)"
  shows "heapy_ctx (\<lambda>b c. pr b \<le> pr c) S cs"
  using assms
proof (induction cs arbitrary: S rule: lefts.induct)
  case (2 q R cs)
  have qa: "q \<noteq> a" using 2(6,7) by auto
  have "pri_but pr a q p" using 2(2,3) by simp
  then have "pr q \<le> pr a" using 2(4,5) qa by (auto simp: pri_but_def)
  then have "\<forall>b \<in> S \<union> set_tree R. pr q \<le> pr b" using 2(2) pri_but_bound [OF _ qa] by simp
  moreover have "heapy (\<lambda>b c. pr b \<le> pr c) R" by (rule heapy_without [of pr a]) (use 2(2,6,7) in simp_all)
  moreover have "heapy_ctx (\<lambda>b c. pr b \<le> pr c) (insert q (S \<union> set_tree R)) cs"
    by (rule 2(1)) (use 2(2-7) in simp_all)
  ultimately show ?case by simp
next
  case (3 R q cs)
  have qa: "q \<noteq> a" using 3(6,7) by auto
  have "pri_but pr a q p" using 3(2,3) by simp
  then have "pr q \<le> pr a" using 3(4,5) qa by (auto simp: pri_but_def)
  then have "\<forall>b \<in> S \<union> set_tree R. pr q \<le> pr b" using 3(2) pri_but_bound [OF _ qa] by simp
  moreover have "heapy (\<lambda>b c. pr b \<le> pr c) R" by (rule heapy_without [of pr a]) (use 3(2,6,7) in simp_all)
  moreover have "heapy_ctx (\<lambda>b c. pr b \<le> pr c) (insert q (S \<union> set_tree R)) cs"
    by (rule 3(1)) (use 3(2-7) in simp_all)
  ultimately show ?case by simp
qed simp

lemma heapy_settled:
  assumes hp: "heapy (pri_but pr a) (plug (Node l a r) cs)" and dist: "distinct (inorder (plug (Node l a r) cs))"
    and below: "\<forall>b \<in> set_tree l \<union> set_tree r. pr a \<le> pr b"
    and above: "\<forall>p. parent_of cs = Some p \<longrightarrow> pr p \<le> pr a"
  shows "heapy (\<lambda>b c. pr b \<le> pr c) (plug (Node l a r) cs)"
proof -
  have na: "a \<notin> set_tree l" "a \<notin> set_tree r" "a \<notin> set (lefts cs)" "a \<notin> set (rights cs)"
    using dist by (auto simp: inorder_plug)
  have ctx: "heapy_ctx (pri_but pr a) (set_tree (Node l a r)) cs" "heapy (pri_but pr a) l" "heapy (pri_but pr a) r"
    using hp unfolding heapy_plug by simp_all
  have "heapy (\<lambda>b c. pr b \<le> pr c) l" "heapy (\<lambda>b c. pr b \<le> pr c) r"
    by (rule heapy_mono [OF ctx(2)] heapy_mono [OF ctx(3)], use na in \<open>auto simp: pri_but_def\<close>)+
  moreover have "heapy_ctx (\<lambda>b c. pr b \<le> pr c) (set_tree (Node l a r)) cs"
  proof (cases cs rule: lefts.cases)
    case (2 p R cs')
    have pa: "p \<noteq> a" "a \<notin> set_tree R" using na 2 by auto
    have "heapy (\<lambda>b c. pr b \<le> pr c) R"
      by (rule heapy_mono [of "pri_but pr a"]) (use ctx(1) pa 2 in \<open>auto simp: pri_but_def\<close>)
    moreover have "\<forall>b \<in> set_tree (Node l a r) \<union> set_tree R. pr p \<le> pr b"
      using ctx(1) above pa 2 by (auto simp: pri_but_def)
    ultimately show ?thesis
      using heapy_ctx_above [of pr a _ cs' p] ctx(1) above pa na 2 by simp
  next
    case (3 R p cs')
    have pa: "p \<noteq> a" "a \<notin> set_tree R" using na 3 by auto
    have "heapy (\<lambda>b c. pr b \<le> pr c) R"
      by (rule heapy_mono [of "pri_but pr a"]) (use ctx(1) pa 3 in \<open>auto simp: pri_but_def\<close>)
    moreover have "\<forall>b \<in> set_tree (Node l a r) \<union> set_tree R. pr p \<le> pr b"
      using ctx(1) above pa 3 by (auto simp: pri_but_def)
    ultimately show ?thesis
      using heapy_ctx_above [of pr a _ cs' p] ctx(1) above pa na 3 by simp
  qed simp
  ultimately show ?thesis using below by (simp add: heapy_plug)
qed

lemma pri_but_intros: "pr p \<le> pr x \<Longrightarrow> pri_but pr a p x" "pri_but pr a p a"
  by (simp_all add: pri_but_def)

lemma heapy_weaken: "heapy (\<lambda>b c. pr b \<le> pr c) t \<Longrightarrow> heapy (pri_but pr a) t"
  by (erule heapy_mono) (simp add: pri_but_def)

lemma heapy_ctx_join: "heapy_ctx (\<lambda>b c. pr b \<le> pr c) S cs \<Longrightarrow> heapy_ctx (pri_but pr a) (insert a S) cs"
proof (induction cs arbitrary: S rule: lefts.induct)
  case (2 p r cs)
  have "heapy_ctx (pri_but pr a) (insert a (insert p (S \<union> set_tree r))) cs" by (rule 2(1)) (use 2(2) in simp)
  then show ?case using 2(2) heapy_weaken [of pr r a] by (auto simp: insert_commute intro: pri_but_intros)
next
  case (3 l p cs)
  have "heapy_ctx (pri_but pr a) (insert a (insert p (S \<union> set_tree l))) cs" by (rule 3(1)) (use 3(2) in simp)
  then show ?case using 3(2) heapy_weaken [of pr l a] by (auto simp: insert_commute intro: pri_but_intros)
qed simp

lemma schedule_float_ok:
  assumes "sched_tree s h (plug (Node l a r) cs)" "heapy (pri_but (pri_of h) a) (plug (Node l a r) cs)"
    and "\<forall>b \<in> set_tree l \<union> set_tree r. pri_of h a \<le> pri_of h b"
  shows "\<exists>s' h' t'. schedule_float s h a = Some (s', h') \<and> sch_earliest_wakeup s' = sch_earliest_wakeup s \<and>
    sched_tree s' h' t' \<and> inorder t' = inorder (plug (Node l a r) cs) \<and> pri_ordered h t' \<and> same_keys h h' \<and>
    same_outside (set_tree (plug (Node l a r) cs)) h h'"
  using assms
proof (induction "length cs" arbitrary: s h l r cs)
  case 0
  then obtain x where "h a = Some x" "se_parent x = None" 
    using sched_tree_node [OF 0(2), of thesis] by simp
  then have "schedule_float s h a = Some (s, h)" by (subst schedule_float.simps) simp
  moreover have "pri_ordered h (plug (Node l a r) cs)"
    by (rule heapy_settled [OF 0(3)]) (use 0 in \<open>auto simp: sched_tree_def\<close>)
  ultimately show ?case using 0(2) by auto
next
  case (Suc n)
  obtain x where x: "h a = Some x" "se_parent x = parent_of cs" by (rule sched_tree_node [OF Suc(3)])
  have dist: "distinct (inorder (plug (Node l a r) cs))" using Suc(3) by (simp add: sched_tree_def)
  obtain p where p: "parent_of cs = Some p" using Suc(2) by (cases cs rule: parent_of.cases) auto
  have "p \<in> dom h"
  proof (cases cs rule: lefts.cases)
    case (2 q R cs')
    then show ?thesis using p Suc(3) by (auto elim: sched_tree_node [where cs = cs'])
  next
    case (3 R q cs')
    then show ?thesis using p Suc(3) by (auto elim: sched_tree_node [where cs = cs'])
  qed (use p in simp)
  then obtain y where y: "h p = Some y" by auto
  have pri: "pri_of h a = se_pri x" "pri_of h p = se_pri y" using x(1) y by (simp_all add: pri_of_def)
  show ?case
  proof (cases "se_pri y > se_pri x")
    case False
    then have "schedule_float s h a = Some (s, h)" using x y p by (subst schedule_float.simps) simp
    moreover have "pri_ordered h (plug (Node l a r) cs)"
      by (rule heapy_settled [OF Suc(4) dist Suc(5)]) (use False p pri in auto)
    ultimately show ?thesis using Suc(3) by auto
  next
    case True
    have step: thesis if found: "\<And>s1 h1 l1 r1 cs1. schedule_rotate_up s h (Some a) = Some (s1, h1) \<Longrightarrow> n = length cs1 \<Longrightarrow>
        sch_earliest_wakeup s1 = sch_earliest_wakeup s \<Longrightarrow> sched_tree s1 h1 (plug (Node l1 a r1) cs1) \<Longrightarrow>
        inorder (plug (Node l1 a r1) cs1) = inorder (plug (Node l a r) cs) \<Longrightarrow>
        heapy (pri_but (pri_of h) a) (plug (Node l1 a r1) cs1) \<Longrightarrow>
        \<forall>b \<in> set_tree l1 \<union> set_tree r1. pri_of h a \<le> pri_of h b \<Longrightarrow> same_keys h h1 \<Longrightarrow>
        same_outside (set_tree (plug (Node l a r) cs)) h h1 \<Longrightarrow> thesis" for thesis
    proof (cases cs rule: lefts.cases)
      case (2 q R cs')
      have cs: "cs = InLt p R # cs'" using p 2 by simp
      have na: "a \<notin> set_tree R" "p \<noteq> a" using dist cs by (auto simp: inorder_plug)
      have hp: "heapy (pri_but (pri_of h) a) (Node (Node l a r) p R)"
        "heapy_ctx (pri_but (pri_of h) a) (set_tree (Node (Node l a r) p R)) cs'" using Suc(4) cs by (simp_all add: heapy_plug)
      have st: "set_tree (Node l a (Node r p R)) = set_tree (Node (Node l a r) p R)" by auto
      have "heapy (pri_but (pri_of h) a) (Node l a (Node r p R))" using hp(1) by (auto simp: pri_but_def)
      then have hp': "heapy (pri_but (pri_of h) a) (plug (Node l a (Node r p R)) cs')"
        using hp(2) unfolding heapy_plug st by blast
      have "pri_of h p \<le> pri_of h b" if "b \<in> set_tree R" for b
        using hp(1) that na by (auto simp: pri_but_def)
      then have below: "\<forall>b \<in> set_tree l \<union> set_tree (Node r p R). pri_of h a \<le> pri_of h b"
        using Suc(5) True pri by (auto intro: order_trans [of _ "se_pri y"])
      obtain s1 h1 where "schedule_rotate_up s h (Some a) = Some (s1, h1)" "sch_earliest_wakeup s1 = sch_earliest_wakeup s"
        "sched_tree s1 h1 (plug (Node l a (Node r p R)) cs')" "same_keys h h1"
        "same_outside (set_tree (plug (Node (Node l a r) p R) cs')) h h1"
        using rotate_lt_tree [of s h l a r p R cs'] Suc(3) cs by auto
      then show thesis using found [of s1 h1 cs' l "Node r p R"] hp' below Suc(2) cs by (simp add: inorder_plug)
    next
      case (3 L q cs')
      have cs: "cs = InGt L p # cs'" using p 3 by simp
      have na: "a \<notin> set_tree L" "p \<noteq> a" using dist cs by (auto simp: inorder_plug)
      have hp: "heapy (pri_but (pri_of h) a) (Node L p (Node l a r))"
        "heapy_ctx (pri_but (pri_of h) a) (set_tree (Node L p (Node l a r))) cs'" using Suc(4) cs by (simp_all add: heapy_plug)
      have st: "set_tree (Node (Node L p l) a r) = set_tree (Node L p (Node l a r))" by auto
      have "heapy (pri_but (pri_of h) a) (Node (Node L p l) a r)" using hp(1) by (auto simp: pri_but_def)
      then have hp': "heapy (pri_but (pri_of h) a) (plug (Node (Node L p l) a r) cs')"
        using hp(2) unfolding heapy_plug st by blast
      have "pri_of h p \<le> pri_of h b" if "b \<in> set_tree L" for b
        using hp(1) that na by (auto simp: pri_but_def)
      then have below: "\<forall>b \<in> set_tree (Node L p l) \<union> set_tree r. pri_of h a \<le> pri_of h b"
        using Suc(5) True pri by (auto intro: order_trans [of _ "se_pri y"])
      obtain s1 h1 where "schedule_rotate_up s h (Some a) = Some (s1, h1)" "sch_earliest_wakeup s1 = sch_earliest_wakeup s"
        "sched_tree s1 h1 (plug (Node (Node L p l) a r) cs')" "same_keys h h1"
        "same_outside (set_tree (plug (Node L p (Node l a r)) cs')) h h1"
        using rotate_gt_tree [of s h L p l a r cs'] Suc(3) cs by auto
      then show thesis using found [of s1 h1 cs' "Node L p l" r] hp' below Suc(2) cs by (simp add: inorder_plug)
    qed (use p in simp)
    show ?thesis
    proof (rule step)
      fix s1 h1 l1 r1 cs1
      assume r: "schedule_rotate_up s h (Some a) = Some (s1, h1)" "n = length cs1"
        "sch_earliest_wakeup s1 = sch_earliest_wakeup s" "sched_tree s1 h1 (plug (Node l1 a r1) cs1)"
        "inorder (plug (Node l1 a r1) cs1) = inorder (plug (Node l a r) cs)"
        "heapy (pri_but (pri_of h) a) (plug (Node l1 a r1) cs1)"
        "\<forall>b \<in> set_tree l1 \<union> set_tree r1. pri_of h a \<le> pri_of h b" "same_keys h h1"
        "same_outside (set_tree (plug (Node l a r) cs)) h h1"
      have k: "pri_of h1 = pri_of h" using r(8) by (simp add: fun_eq_iff same_keys_pri)
      have go: "schedule_float s h a = schedule_float s1 h1 a"
        using x y p True r(1) by (subst schedule_float.simps) simp
      obtain s' h' t' where "schedule_float s1 h1 a = Some (s', h')" "sch_earliest_wakeup s' = sch_earliest_wakeup s1"
        "sched_tree s' h' t'" "inorder t' = inorder (plug (Node l1 a r1) cs1)" "pri_ordered h1 t'" "same_keys h1 h'"
        "same_outside (set_tree (plug (Node l1 a r1) cs1)) h1 h'"
        using Suc(1) [OF r(2,4)] r(6,7) unfolding k by blast
      moreover from this have "same_keys h h'" "same_outside (set_tree (plug (Node l a r) cs)) h h'"
        using r(8,9) set_plug_eq [OF r(5)] by (simp_all add: same_keys_def same_outside_def)
      ultimately show ?thesis using go r(3,5) k by simp blast
    qed
  qed
qed

section \<open>Adding and changing a wakeup\<close>

lemma same_keys_tv:
  assumes "same_keys h h'" "h a = Some x"
  obtains x' where "h' a = Some x'" "se_tv x' = se_tv x" "se_pri x' = se_pri x"
  using assms by (cases "h' a") (auto simp: same_keys_def dest!: spec [of _ a])

lemma key_ordered_keep:
  assumes "key_ordered h t" "\<And>b. b \<in> set_tree t' \<Longrightarrow> key_of h' b = key_of h b" "inorder t' = inorder t"
  shows "key_ordered h' t'"
proof -
  have "set_tree t' = set_tree t" using assms(3) by (metis set_inorder)
  then show ?thesis unfolding assms(3) by (intro sorted_wrt_cong [OF assms(1)]) (use assms(2) in auto)
qed

lemma placed_float:
  assumes pl: "placed s h a t h2" and t: "a \<notin> set_tree t" "key_ordered h t" "pri_ordered h t" and x: "h a = Some x"
  obtains s3 h3 t3 where "schedule_float s h2 a = Some (s3, h3)" "sch_earliest_wakeup s3 = sch_earliest_wakeup s"
    "sched_tree s3 h3 t3" "set_tree t3 = insert a (set_tree t)" "key_ordered h3 t3" "pri_ordered h3 t3"
    "same_keys h h3" "same_outside (insert a (set_tree t)) h h3"
proof -
  obtain cs where cs: "plug Leaf cs = t" "sched_tree s h2 (plug (Node Leaf a Leaf) cs)"
    "\<forall>b \<in> set (lefts cs). key_of h b < key_of h a" "\<forall>b \<in> set (rights cs). key_of h a < key_of h b"
    and k2: "same_keys h h2" "same_outside (insert a (set_tree t)) h h2"
    using pl by (auto simp: placed_def)
  have pr: "pri_of h2 = pri_of h" using k2(1) by (simp add: fun_eq_iff same_keys_pri)
  have st: "set_tree (plug (Node Leaf a Leaf) cs) = insert a (set_tree t)"
    using cs(1) by (auto simp: set_tree_plug)
  have ctx: "heapy_ctx (\<lambda>b c. pri_of h b \<le> pri_of h c) {} cs" using t(3) cs(1) heapy_plug [of _ Leaf cs] by simp
  have "heapy_ctx (pri_but (pri_of h) a) {a} cs" by (rule heapy_ctx_join [OF ctx])
  then have hp: "heapy (pri_but (pri_of h2) a) (plug (Node Leaf a Leaf) cs)" unfolding pr heapy_plug by simp
  obtain s3 h3 t3 where f: "schedule_float s h2 a = Some (s3, h3)" "sch_earliest_wakeup s3 = sch_earliest_wakeup s"
    "sched_tree s3 h3 t3" "inorder t3 = inorder (plug (Node Leaf a Leaf) cs)" "pri_ordered h2 t3" "same_keys h2 h3"
    "same_outside (set_tree (plug (Node Leaf a Leaf) cs)) h2 h3"
    using schedule_float_ok [OF cs(2) hp] by auto
  have pr3: "pri_of h3 = pri_of h2" using f(6) by (simp add: fun_eq_iff same_keys_pri)
  have k3: "same_keys h h3" using k2(1) f(6) by (rule same_keys_trans)
  have key: "key_of h3 b = key_of h b" for b
    using k3 by (auto simp: same_keys_def key_of_def sched_key_def dest!: spec [of _ b] split: option.splits)
  have io: "inorder t = lefts cs @ rights cs" using cs(1) inorder_plug [of Leaf cs] by simp
  have "key_ordered h t3"
    using t(2) cs(3,4) unfolding f(4) io by (simp add: inorder_plug sorted_wrt_append)
  then have ko: "key_ordered h3 t3" by (rule key_ordered_keep) (simp_all add: key)
  show thesis
  proof (rule that [OF f(1-3) _ ko _ k3])
    show "set_tree t3 = insert a (set_tree t)" using f(4) st by (metis set_inorder)
    show "pri_ordered h3 t3" unfolding pr3 by (rule f(5))
    show "same_outside (insert a (set_tree t)) h h3"
      using k2(2) f(7) unfolding st by (rule same_outside_trans)
  qed
qed

text \<open>From an entry that is in no tree: a priority, a place, and up.\<close>

lemma schedule_fresh_ok:
  assumes t: "sched_tree s h t" "a \<notin> set_tree t" "key_ordered h t" "pri_ordered h t"
    and x: "h a = Some x" "se_parent x = None" "se_lt x = None" "se_gt x = None"
    and rnd: "\<exists>r \<in> set rnd. pri_free h t (se_tv x) (sched_pri r)"
  shows "\<exists>h2 rnd1 s2 h3 rnd2 s3 h4 t3. schedule_set_pri h a rnd = Some (h2, rnd1) \<and>
    (case sch_root s of
       Some _ \<Rightarrow> do { (h3, rnd2) \<leftarrow> schedule_insert s h2 a rnd1; Some (s, h3, rnd2) }
     | None \<Rightarrow> Some (s\<lparr>sch_root := Some a\<rparr>, h2, rnd1)) = Some (s2, h3, rnd2) \<and>
    schedule_float s2 h3 a = Some (s3, h4) \<and> sch_earliest_wakeup s3 = sch_earliest_wakeup s \<and>
    sched_tree s3 h4 t3 \<and> set_tree t3 = insert a (set_tree t) \<and> key_ordered h4 t3 \<and> pri_ordered h4 t3 \<and>
    same_keys_but a h h4 \<and> same_outside (insert a (set_tree t)) h h4 \<and>
    (\<exists>y. h4 a = Some y \<and> se_tv y = se_tv x \<and> se_pri y \<noteq> 0)"
proof -
  obtain r rnd1 where rn: "rnd = r # rnd1" using rnd by (cases rnd) auto
  let ?x = "x\<lparr>se_pri := sched_pri r\<rparr>"
  let ?h = "h(a \<mapsto> ?x)"
  have set: "schedule_set_pri h a rnd = Some (?h, rnd1)" using rn x(1) by (simp add: upd_entry_def)
  have sub: "key_of (h(a \<mapsto> z)) b = key_of h b" "pri_of (h(a \<mapsto> z)) b = pri_of h b" if "b \<in> set_tree t" for b z
  proof -
    have "b \<noteq> a" using that t(2) by blast
    then show "key_of (h(a \<mapsto> z)) b = key_of h b" "pri_of (h(a \<mapsto> z)) b = pri_of h b" by (simp_all add: key_of_def pri_of_def)
  qed
  have t': "sched_tree s (h(a \<mapsto> z)) t" "key_ordered (h(a \<mapsto> z)) t" "pri_ordered (h(a \<mapsto> z)) t" for z
  proof -
    show "sched_tree s (h(a \<mapsto> z)) t" by (rule sched_tree_agree [OF t(1)]) (use t(2) in auto)
    show "key_ordered (h(a \<mapsto> z)) t" by (rule key_ordered_keep [OF t(3)]) (simp_all add: sub)
    show "pri_ordered (h(a \<mapsto> z)) t" by (rule heapy_mono [OF t(4)]) (simp add: sub)
  qed
  have nz: "sched_pri r \<noteq> 0" by (simp add: sched_pri_def)
  have middle: "\<exists>s2 h3 rnd2 p. (case sch_root s of
       Some _ \<Rightarrow> do { (h3, rnd2) \<leftarrow> schedule_insert s ?h a rnd1; Some (s, h3, rnd2) }
     | None \<Rightarrow> Some (s\<lparr>sch_root := Some a\<rparr>, ?h, rnd1)) = Some (s2, h3, rnd2) \<and> p \<noteq> 0 \<and>
     sch_earliest_wakeup s2 = sch_earliest_wakeup s \<and> placed s2 (h(a \<mapsto> x\<lparr>se_pri := p\<rparr>)) a t h3"
  proof (cases t)
    case Leaf
    then have "sch_root s = None" using sched_tree_root [OF t(1)] by simp
    moreover have "placed (s\<lparr>sch_root := Some a\<rparr>) ?h a t ?h"
      using Leaf x by (auto simp: placed_def sched_tree_def intro!: exI [of _ "[]"])
    ultimately show ?thesis using nz by auto
  next
    case (Node l c q)
    then have root: "sch_root s = Some c" using sched_tree_root [OF t(1)] by simp
    have free: "pri_free ?h t tv p = pri_free h t tv p" for tv p by (simp add: pri_free_def sub)
    have f: "pri_free ?h t (se_tv ?x) (se_pri ?x) \<or> (\<exists>r \<in> set rnd1. pri_free ?h t (se_tv ?x) (sched_pri r))"
      using rnd rn by (auto simp: free)
    have e: "?h a = Some ?x" "se_lt ?x = None" "se_gt ?x = None" "se_pri ?x \<noteq> 0" "t \<noteq> Leaf"
      using x nz Node by simp_all
    have h: "?h(a \<mapsto> ?x\<lparr>se_pri := p\<rparr>) = h(a \<mapsto> x\<lparr>se_pri := p\<rparr>)" for p by simp
    obtain h3 rnd2 p where "schedule_insert s ?h a rnd1 = Some (h3, rnd2)" "p \<noteq> 0"
      "placed s (h(a \<mapsto> x\<lparr>se_pri := p\<rparr>)) a t h3"
      using schedule_insert_ok [OF t'(1) e(5) t(2) t'(2) e(1-4) f] unfolding h by blast
    then show ?thesis using root by auto
  qed
  then obtain s2 h3 rnd2 p where m: "(case sch_root s of
       Some _ \<Rightarrow> do { (h3, rnd2) \<leftarrow> schedule_insert s ?h a rnd1; Some (s, h3, rnd2) }
     | None \<Rightarrow> Some (s\<lparr>sch_root := Some a\<rparr>, ?h, rnd1)) = Some (s2, h3, rnd2)" "p \<noteq> 0"
     "sch_earliest_wakeup s2 = sch_earliest_wakeup s" "placed s2 (h(a \<mapsto> x\<lparr>se_pri := p\<rparr>)) a t h3" by blast
  let ?g = "h(a \<mapsto> x\<lparr>se_pri := p\<rparr>)"
  have ga: "?g a = Some (x\<lparr>se_pri := p\<rparr>)" by simp
  obtain s3 h4 t3 where f: "schedule_float s2 h3 a = Some (s3, h4)" "sch_earliest_wakeup s3 = sch_earliest_wakeup s2"
    "sched_tree s3 h4 t3" "set_tree t3 = insert a (set_tree t)" "key_ordered h4 t3" "pri_ordered h4 t3"
    "same_keys ?g h4" "same_outside (insert a (set_tree t)) ?g h4"
    by (rule placed_float [OF m(4) t(2) t'(2,3) ga])
  obtain y where y: "h4 a = Some y" "se_tv y = se_tv (x\<lparr>se_pri := p\<rparr>)" "se_pri y = se_pri (x\<lparr>se_pri := p\<rparr>)"
    by (rule same_keys_tv [OF f(7) ga])
  have y': "\<exists>y. h4 a = Some y \<and> se_tv y = se_tv x \<and> se_pri y \<noteq> 0" using y m(2) by simp
  have b: "same_keys_but a h h4" using f(7) by (simp add: same_keys_def same_keys_but_def)
  have o: "same_outside (insert a (set_tree t)) h h4" using f(8) by (simp add: same_outside_def)
  show ?thesis
    by ((rule exI)+, intro conjI, rule set, rule m(1), rule f(1)) (use f(2-6) m(3) b o y' in simp_all)
qed

section \<open>The scheduler as a queue of wakeups\<close>

text \<open>
  The state of a scheduler: a treap of the entries with a priority, ordered by their keys, with the priorities
  increasing from the root; every other entry is linked to nothing; and the cache is empty or right.
\<close>

definition earliest :: "addr tree \<Rightarrow> addr option" where
  "earliest t = (case inorder t of [] \<Rightarrow> None | a # _ \<Rightarrow> Some a)"

definition idle_entry :: "timeval \<Rightarrow> schedule_entry" where
  "idle_entry tv = \<lparr>se_tv = tv, se_pri = 0, se_parent = None, se_lt = None, se_gt = None\<rparr>"

definition entries_ok :: "sched_heap \<Rightarrow> addr tree \<Rightarrow> bool" where
  "entries_ok h t \<longleftrightarrow> (\<forall>a x. h a = Some x \<longrightarrow> (if a \<in> set_tree t then se_pri x \<noteq> 0 else x = idle_entry (se_tv x)))"

definition sched_inv :: "schedule \<times> sched_heap \<Rightarrow> addr tree \<Rightarrow> bool" where
  "sched_inv = (\<lambda>(s, h) t. sched_tree s h t \<and> key_ordered h t \<and> pri_ordered h t \<and> entries_ok h t \<and>
     (sch_earliest_wakeup s = None \<or> sch_earliest_wakeup s = earliest t))"

definition pending :: "schedule \<times> sched_heap \<Rightarrow> addr \<rightharpoonup> timeval" where
  "pending = (\<lambda>(s, h) a. case h a of None \<Rightarrow> None | Some x \<Rightarrow> if IN_TREE x then Some (se_tv x) else None)"

lemma tree_at_dom: "tree_at h p q t \<Longrightarrow> b \<in> set_tree t \<Longrightarrow> \<exists>x. h b = Some x"
  by (induction t arbitrary: p q) auto

lemma sched_inv_pending:
  assumes "sched_inv (s, h) t"
  shows "pending (s, h) a = (if a \<in> set_tree t then map_option se_tv (h a) else None)" "dom (pending (s, h)) = set_tree t"
proof -
  have t: "tree_at h (sch_root s) None t" using assms by (simp add: sched_inv_def sched_tree_def)
  have d: "set_tree t \<subseteq> dom h" using tree_at_dom [OF t] by blast
  have e: "entries_ok h t" using assms by (simp add: sched_inv_def)
  show p: "pending (s, h) a = (if a \<in> set_tree t then map_option se_tv (h a) else None)" for a
  proof (cases "h a")
    case None
    then show ?thesis using d by (auto simp: pending_def)
  next
    case (Some x)
    then have "if a \<in> set_tree t then se_pri x \<noteq> 0 else x = idle_entry (se_tv x)" using e by (auto simp: entries_ok_def)
    then show ?thesis using Some by (auto simp: pending_def IN_TREE_def idle_entry_def split: if_splits) (metis schedule_entry.select_convs(2))
  qed
  show "dom (pending (s, h)) = set_tree t" using d by (auto simp: p dom_def)
qed

lemma pri_free_ex:
  assumes "card (set_tree t) < card (sched_pri ` set rnd)"
  shows "\<exists>r \<in> set rnd. pri_free h t tv (sched_pri r)"
proof (rule ccontr)
  assume "\<not> ?thesis"
  then have "sched_pri ` set rnd \<subseteq> (\<lambda>b. snd (snd (key_of h b))) ` set_tree t" by (force simp: pri_free_def)
  then have "card (sched_pri ` set rnd) \<le> card (set_tree t)"
    by (meson card_image_le card_mono finite_imageI finite_set_tree le_trans)
  then show False using assms by simp
qed

lemma tree_at_tv: "tree_at h p q t \<Longrightarrow> h a = Some x \<Longrightarrow> tree_at (h(a \<mapsto> x\<lparr>se_tv := tv\<rparr>)) p q t"
  by (induction t arbitrary: p q) auto

lemma sched_tree_tv: "sched_tree s h t \<Longrightarrow> h a = Some x \<Longrightarrow> sched_tree s (h(a \<mapsto> x\<lparr>se_tv := tv\<rparr>)) t"
  by (simp add: sched_tree_def tree_at_tv)

lemma sorted_wrt_remove1: "sorted_wrt P xs \<Longrightarrow> sorted_wrt P (remove1 a xs)"
  by (induction xs) (auto dest: notin_set_remove1 [THEN contrapos_pn] set_remove1_subset [THEN subsetD])

text \<open>A change of an entry's time breaks the order only at the entry; removing it mends the order.\<close>

lemma schedule_take_out:
  assumes inv: "sched_inv (s, h) t" and x: "h a = Some x" and h1: "h1 = h(a \<mapsto> x\<lparr>se_tv := tv\<rparr>)"
  obtains s' h' t' where
    "(if IN_TREE (x\<lparr>se_tv := tv\<rparr>) then schedule_remove_node s h1 a else Some (s, h1)) = Some (s', h')"
    "sch_earliest_wakeup s' = sch_earliest_wakeup s" "sched_tree s' h' t'" "set_tree t' = set_tree t - {a}"
    "key_ordered h' t'" "pri_ordered h' t'" "h' a = Some (idle_entry tv)" "same_keys_but a h h'"
    "same_outside (insert a (set_tree t)) h h'"
proof -
  have t: "sched_tree s h t" "key_ordered h t" "pri_ordered h t" "entries_ok h t" using inv by (simp_all add: sched_inv_def)
  have dist: "distinct (inorder t)" using t(1) by (simp add: sched_tree_def)
  have sk: "same_keys_but a h h1" by (simp add: same_keys_but_def h1)
  have pri: "pri_of h1 = pri_of h" using x by (auto simp: pri_of_def h1 fun_eq_iff)
  have t1: "sched_tree s h1 t" unfolding h1 by (rule sched_tree_tv [OF t(1) x])
  show thesis
  proof (cases "a \<in> set_tree t")
    case False
    then have xi: "x = idle_entry (se_tv x)" using t(4) x by (auto simp: entries_ok_def)
    have "IN_TREE (x\<lparr>se_tv := tv\<rparr>) = False" by (subst xi) (simp add: IN_TREE_def idle_entry_def)
    moreover have "key_ordered h1 t"
      by (rule key_ordered_keep [OF t(2)]) (use False sk in \<open>auto intro: same_keys_but_key\<close>)
    moreover have "h1 a = Some (idle_entry tv)" unfolding h1 by (subst xi) (simp add: idle_entry_def)
    moreover have "same_outside (insert a (set_tree t)) h h1" by (simp add: same_outside_def h1)
    moreover have "pri_ordered h1 t" unfolding pri by (rule t(3))
    ultimately show thesis using that [of s h1 t] t1 False sk by simp
  next
    case True
    then have "se_pri x \<noteq> 0" using t(4) x by (auto simp: entries_ok_def)
    then have it: "IN_TREE (x\<lparr>se_tv := tv\<rparr>)" by (simp add: IN_TREE_def)
    have hp: "heapy (pri_but (pri_of h1) a) t" unfolding pri by (rule heapy_weaken [OF t(3)])
    obtain s' h' t' y where r: "schedule_remove_node s h1 a = Some (s', h')" "sch_earliest_wakeup s' = sch_earliest_wakeup s"
      "sched_tree s' h' t'" "inorder t' = remove1 a (inorder t)" "pri_ordered h' t'" "h1 a = Some y"
      "h' a = Some \<lparr>se_tv = se_tv y, se_pri = 0, se_parent = None, se_lt = None, se_gt = None\<rparr>"
      "same_keys_but a h1 h'" "same_outside (set_tree t) h1 h'"
      by (rule schedule_remove_node_ok [OF t1 True hp])
    have st: "set_tree t' = set_tree t - {a}"
      using arg_cong [OF r(4), of set] dist by (simp add: set_remove1_eq)
    have k: "same_keys_but a h h'" using sk r(8) by (rule same_keys_but_trans)
    have "sorted_wrt (\<lambda>b c. key_of h b < key_of h c) (inorder t')" unfolding r(4) using t(2) by (rule sorted_wrt_remove1)
    then have "key_ordered h' t'"
      by (rule sorted_wrt_cong) (use k st in \<open>auto simp: same_keys_but_key\<close>)
    moreover have "h' a = Some (idle_entry tv)" using r(6,7) by (auto simp: h1 idle_entry_def)
    moreover have "same_outside (insert a (set_tree t)) h h'" using r(9) by (auto simp: same_outside_def h1)
    ultimately show thesis using that [of s' h' t'] it r(1-3,5) st k by simp
  qed
qed

lemma same_keys_but_pending:
  assumes "same_keys_but a h h'" "b \<noteq> a"
  shows "pending (s', h') b = pending (s, h) b" "(h' b = None) = (h b = None)"
proof -
  have "map_option (\<lambda>x. (se_tv x, se_pri x)) (h' b) = map_option (\<lambda>x. (se_tv x, se_pri x)) (h b)"
    using assms by (simp add: same_keys_but_def)
  then show "pending (s', h') b = pending (s, h) b" "(h' b = None) = (h b = None)"
    by (cases "h b"; cases "h' b"; simp add: pending_def IN_TREE_def)+
qed

text \<open>\<open>schedule_add_entry\<close>: it returns if and only if some priority it draws is free.\<close>

definition free_priority :: "sched_heap \<Rightarrow> addr tree \<Rightarrow> addr \<Rightarrow> timeval \<Rightarrow> u32 list \<Rightarrow> bool" where
  "free_priority h t a tv rnd \<longleftrightarrow>
     (\<exists>r \<in> set rnd. \<forall>b \<in> set_tree t - {a}. key_of h b \<noteq> (tv_sec tv, tv_usec tv, sched_pri r))"

definition keeps_wakeup :: "schedule_entry \<Rightarrow> timeval \<Rightarrow> u32 \<Rightarrow> bool" where
  "keeps_wakeup x tv sigma \<longleftrightarrow> IN_TREE x \<and> sigma \<noteq> 0 \<and> tv_within_sigma tv (se_tv x) sigma"

lemma schedule_add_entry_kept:
  "h a = Some x \<Longrightarrow> keeps_wakeup x tv sigma \<Longrightarrow> schedule_add_entry s h a tv sigma rnd = Some (s, h, rnd)"
  by (simp add: schedule_add_entry_def keeps_wakeup_def)

lemma schedule_add_entry_changed:
  "h a = Some x \<Longrightarrow> \<not> keeps_wakeup x tv sigma \<Longrightarrow> schedule_add_entry s h a tv sigma rnd =
     do { (s1, h2, rnd1) \<leftarrow> schedule_add_modify s (h(a \<mapsto> x\<lparr>se_tv := tv\<rparr>)) a rnd;
          Some (s1\<lparr>sch_earliest_wakeup := None\<rparr>, h2, rnd1) }"
  by (simp add: schedule_add_entry_def keeps_wakeup_def upd_entry_def)

lemma entries_ok_change:
  assumes "entries_ok h t" "same_keys_but a h h1" "same_outside (insert a (set_tree t)) h h1"
    and "set_tree t3 = insert a (set_tree t)" "h1 a = Some y" "se_pri y \<noteq> 0"
  shows "entries_ok h1 t3"
  unfolding entries_ok_def
proof (intro allI impI)
  fix b z assume z: "h1 b = Some z"
  show "if b \<in> set_tree t3 then se_pri z \<noteq> 0 else z = idle_entry (se_tv z)"
  proof (cases "b \<in> set_tree t3")
    case False
    then have "h1 b = h b" using assms(3,4) by (simp add: same_outside_def)
    then show ?thesis using False assms(1,4) z by (auto simp: entries_ok_def)
  next
    case True
    show ?thesis
    proof (cases "b = a")
      case False
      then have b: "b \<in> set_tree t" using True assms(4) by simp
      have "map_option (\<lambda>x. (se_tv x, se_pri x)) (h1 b) = map_option (\<lambda>x. (se_tv x, se_pri x)) (h b)"
        using assms(2) False by (simp add: same_keys_but_def)
      then obtain w where "h b = Some w" "se_pri w = se_pri z" using z by (cases "h b") auto
      then show ?thesis using assms(1) b True by (auto simp: entries_ok_def)
    qed (use assms(5,6) z True in simp)
  qed
qed

lemma schedule_add_changed_ok:
  assumes inv: "sched_inv (s, h) t" and x: "h a = Some x" "\<not> keeps_wakeup x tv sigma"
    and rnd: "free_priority h t a tv rnd"
  shows "\<exists>s' h' rnd' t'. schedule_add_entry s h a tv sigma rnd = Some (s', h', rnd') \<and> sched_inv (s', h') t' \<and>
    set_tree t' = insert a (set_tree t) \<and> dom h' = dom h \<and> pending (s', h') = (pending (s, h))(a \<mapsto> tv)"
proof -
  define h0 where "h0 = h(a \<mapsto> x\<lparr>se_tv := tv\<rparr>)"
  obtain s1 h1 t1 where r: "(if IN_TREE (x\<lparr>se_tv := tv\<rparr>) then schedule_remove_node s h0 a else Some (s, h0)) = Some (s1, h1)"
    "sched_tree s1 h1 t1" "set_tree t1 = set_tree t - {a}" "key_ordered h1 t1" "pri_ordered h1 t1"
    "h1 a = Some (idle_entry tv)" "same_keys_but a h h1" "same_outside (insert a (set_tree t)) h h1"
    by (rule schedule_take_out [OF inv x(1) h0_def])
  have na: "a \<notin> set_tree t1" using r(3) by simp
  have free: "\<exists>q \<in> set rnd. pri_free h1 t1 (se_tv (idle_entry tv)) (sched_pri q)"
    using rnd r(3,7) by (auto simp: free_priority_def pri_free_def idle_entry_def same_keys_but_key)
  have idle: "se_parent (idle_entry tv) = None" "se_lt (idle_entry tv) = None" "se_gt (idle_entry tv) = None"
    by (simp_all add: idle_entry_def)
  obtain h2 rnd1 s2 h3 rnd2 s3 h4 t3 where f: "schedule_set_pri h1 a rnd = Some (h2, rnd1)"
    "(case sch_root s1 of
       Some _ \<Rightarrow> do { (h3, rnd2) \<leftarrow> schedule_insert s1 h2 a rnd1; Some (s1, h3, rnd2) }
     | None \<Rightarrow> Some (s1\<lparr>sch_root := Some a\<rparr>, h2, rnd1)) = Some (s2, h3, rnd2)"
    "schedule_float s2 h3 a = Some (s3, h4)" "sched_tree s3 h4 t3" "set_tree t3 = insert a (set_tree t1)"
    "key_ordered h4 t3" "pri_ordered h4 t3" "same_keys_but a h1 h4" "same_outside (insert a (set_tree t1)) h1 h4"
    "\<exists>y. h4 a = Some y \<and> se_tv y = se_tv (idle_entry tv) \<and> se_pri y \<noteq> 0"
    using schedule_fresh_ok [OF r(2) na r(4,5,6) idle free] by blast
  obtain y where y: "h4 a = Some y" "se_tv y = tv" "se_pri y \<noteq> 0" using f(10) by (auto simp: idle_entry_def)
  have h0a: "h0 a = Some (x\<lparr>se_tv := tv\<rparr>)" by (simp add: h0_def)
  have run: "schedule_add_entry s h a tv sigma rnd = Some (s3\<lparr>sch_earliest_wakeup := None\<rparr>, h4, rnd2)"
    unfolding schedule_add_entry_changed [where h = h and a = a and x = x, OF x] h0_def [symmetric] using r(1) f(1-3) h0a
    by (simp add: schedule_add_modify_def)
  have st: "set_tree t3 = insert a (set_tree t)" using f(5) r(3) by auto
  have k: "same_keys_but a h h4" using r(7) f(8) by (rule same_keys_but_trans)
  have o: "same_outside (insert a (set_tree t)) h h4" using r(3,8) f(9) by (simp add: same_outside_def)
  have eo: "entries_ok h4 t3" by (rule entries_ok_change [OF _ k o st y(1,3)]) (use inv in \<open>simp add: sched_inv_def\<close>)
  have inv': "sched_inv (s3\<lparr>sch_earliest_wakeup := None\<rparr>, h4) t3"
    using f(4,6,7) eo by (simp add: sched_inv_def sched_tree_def)
  have d: "(h4 b = None) = (h b = None)" for b
    using same_keys_but_pending [OF k, of b] y(1) x(1) by (cases "b = a") auto
  then have dom: "dom h4 = dom h" by (simp add: dom_def)
  have "pending (s3\<lparr>sch_earliest_wakeup := None\<rparr>, h4) b = ((pending (s, h))(a \<mapsto> tv)) b" for b
    using same_keys_but_pending [OF k, of b] y by (cases "b = a") (auto simp: pending_def IN_TREE_def)
  then have "pending (s3\<lparr>sch_earliest_wakeup := None\<rparr>, h4) = (pending (s, h))(a \<mapsto> tv)" by (rule ext)
  then show ?thesis using run inv' st dom by blast
qed

lemma schedule_remove_entry_ok:
  assumes inv: "sched_inv (s, h) t" and x: "h a = Some x"
  shows "\<exists>s' h' t'. schedule_remove_entry s h a = Some (s', h') \<and> sched_inv (s', h') t' \<and>
    set_tree t' = set_tree t - {a} \<and> dom h' = dom h \<and> pending (s', h') = (pending (s, h))(a := None)"
proof -
  let ?s = "s\<lparr>sch_earliest_wakeup := None\<rparr>"
  have inv0: "sched_inv (?s, h) t" using inv by (auto simp: sched_inv_def sched_tree_def)
  have self: "h = h(a \<mapsto> x\<lparr>se_tv := se_tv x\<rparr>)" using x by auto
  obtain s1 h1 t1 where r: "(if IN_TREE (x\<lparr>se_tv := se_tv x\<rparr>) then schedule_remove_node ?s h a else Some (?s, h)) = Some (s1, h1)"
    "sch_earliest_wakeup s1 = sch_earliest_wakeup ?s"
    "sched_tree s1 h1 t1" "set_tree t1 = set_tree t - {a}" "key_ordered h1 t1" "pri_ordered h1 t1"
    "h1 a = Some (idle_entry (se_tv x))" "same_keys_but a h h1" "same_outside (insert a (set_tree t)) h h1"
    by (rule schedule_take_out [OF inv0 x self])
  have run: "schedule_remove_entry s h a = Some (s1, h1)"
  proof (cases "IN_TREE x")
    case True
    then show ?thesis using r(1) by (simp add: schedule_remove_entry_def)
  next
    case False
    then have e: "s1 = ?s" "h1 = h" using r(1) by simp_all
    have xi: "x = idle_entry (se_tv x)" using r(7) x e(2) by simp
    have na: "a \<notin> set_tree t"
    proof
      assume "a \<in> set_tree t"
      then have "se_pri x \<noteq> 0" using inv x by (auto simp: sched_inv_def entries_ok_def)
      then show False using False by (simp add: IN_TREE_def)
    qed
    have "se_lt x = None" "se_gt x = None" "se_parent x = None" "se_pri x = 0"
      by (subst xi, simp add: idle_entry_def)+
    moreover have "schedule_sink ?s h a = Some (?s, h)"
      using x calculation(1,2) by (subst schedule_sink.simps) simp
    moreover have "sch_root s \<noteq> Some a"
      using sched_tree_root [of s h t] inv na by (cases t) (auto simp: sched_inv_def)
    moreover have "x\<lparr>se_pri := 0\<rparr> = x" using calculation(4) by (cases x) simp
    then have "h(a \<mapsto> x\<lparr>se_pri := 0\<rparr>) = h" using x by (intro fun_upd_idem) simp
    ultimately show ?thesis
      using x e by (simp add: schedule_remove_entry_def schedule_remove_node_def schedule_detach_parent_def upd_entry_def)
  qed
  have eo: "entries_ok h1 t1"
    unfolding entries_ok_def
  proof (intro allI impI)
    fix b z assume z: "h1 b = Some z"
    show "if b \<in> set_tree t1 then se_pri z \<noteq> 0 else z = idle_entry (se_tv z)"
    proof (cases "b = a")
      case True
      then have zi: "z = idle_entry (se_tv x)" using z r(7) by simp
      then have "se_tv z = se_tv x" by (simp add: idle_entry_def)
      then show ?thesis using zi r(4) True by simp
    next
      case ne: False
      show ?thesis
      proof (cases "b \<in> set_tree t")
        case True
        have "map_option (\<lambda>x. (se_tv x, se_pri x)) (h1 b) = map_option (\<lambda>x. (se_tv x, se_pri x)) (h b)"
          using r(8) ne by (simp add: same_keys_but_def)
        then obtain w where "h b = Some w" "se_pri w = se_pri z" using z by (cases "h b") auto
        then show ?thesis using inv True r(4) ne by (auto simp: sched_inv_def entries_ok_def)
      next
        case False
        then have "h1 b = h b" using r(9) ne by (simp add: same_outside_def)
        then show ?thesis using inv False r(4) z by (auto simp: sched_inv_def entries_ok_def)
      qed
    qed
  qed
  have inv': "sched_inv (s1, h1) t1" using r(2,3,5,6) eo by (simp add: sched_inv_def)
  have d: "(h1 b = None) = (h b = None)" for b
    using same_keys_but_pending [OF r(8), of b] r(7) x by (cases "b = a") auto
  then have dom: "dom h1 = dom h" by (simp add: dom_def)
  have "pending (s1, h1) b = ((pending (s, h))(a := None)) b" for b
    using same_keys_but_pending [OF r(8), of b] r(7) by (cases "b = a") (auto simp: pending_def IN_TREE_def idle_entry_def)
  then have "pending (s1, h1) = (pending (s, h))(a := None)" by (rule ext)
  then show ?thesis using run inv' r(4) dom by blast
qed

lemma schedule_least_ok: "tree_at h (Some a) q (Node l a r) \<Longrightarrow> schedule_least h a = Some (hd (inorder (Node l a r)))"
proof (induction l arbitrary: a q r)
  case Leaf
  then show ?case by (subst schedule_least.simps) auto
next
  case (Node l1 b l2)
  then obtain x where x: "h a = Some x" "se_lt x = Some b" "tree_at h (Some b) (Some a) (Node l1 b l2)" by auto
  have "schedule_least h a = schedule_least h b" using x(1,2) by (subst schedule_least.simps) simp
  then show ?case using Node.IH(1) [OF x(3)] by (cases "inorder l1") simp_all
qed

lemma sched_key_tv: "sched_key x < sched_key y \<Longrightarrow> tv_le (se_tv x) (se_tv y)"
  by (simp add: sched_key_def tv_le_def) auto

text \<open>A node with the earliest time of all: what a queue promises.\<close>

definition earliest_of :: "(addr \<rightharpoonup> timeval) \<Rightarrow> addr option \<Rightarrow> bool" where
  "earliest_of m r \<longleftrightarrow> (case r of None \<Rightarrow> m = Map.empty
     | Some a \<Rightarrow> (\<exists>t. m a = Some t \<and> (\<forall>b u. m b = Some u \<longrightarrow> tv_le t u)))"

lemma sched_inv_earliest:
  assumes inv: "sched_inv (s, h) t"
  shows "earliest_of (pending (s, h)) (earliest t)"
proof (cases "inorder t")
  case Nil
  then have "set_tree t = {}" by (metis list.set(1) set_inorder)
  then have "pending (s, h) = Map.empty" using sched_inv_pending(2) [OF inv] by auto
  then show ?thesis using Nil by (simp add: earliest_of_def earliest_def)
next
  case (Cons a as)
  have at: "a \<in> set_tree t" using Cons by (metis list.set_intros(1) set_inorder)
  obtain x where x: "h a = Some x" using inv at by (auto simp: sched_inv_def sched_tree_def dest: tree_at_dom)
  have "tv_le (se_tv x) u" if pb: "pending (s, h) b = Some u" for b u
  proof -
    have bt: "b \<in> set_tree t" using pb sched_inv_pending(2) [OF inv] by blast
    then obtain y where y: "h b = Some y" "se_tv y = u"
      using pb sched_inv_pending(1) [OF inv, of b] by (cases "h b") auto
    have "b = a \<or> key_of h a < key_of h b"
    proof -
      have "b \<in> set (a # as)" using bt Cons by (metis set_inorder)
      then show ?thesis using inv Cons by (auto simp: sched_inv_def)
    qed
    then show ?thesis
    proof
      assume "b = a"
      then show ?thesis using x y by simp
    next
      assume "key_of h a < key_of h b"
      then have "sched_key x < sched_key y" using x y(1) by simp
      then show ?thesis unfolding y(2) [symmetric] by (rule sched_key_tv)
    qed
  qed
  then show ?thesis using Cons at x sched_inv_pending(1) [OF inv, of a] by (auto simp: earliest_of_def earliest_def)
qed

lemma schedule_get_earliest_ok:
  assumes inv: "sched_inv (s, h) t"
  shows "\<exists>w. schedule_get_earliest_wakeup s h wakeup = Some (earliest t, w, s\<lparr>sch_earliest_wakeup := earliest t\<rparr>) \<and>
    w = (case earliest t of None \<Rightarrow> wakeup | Some a \<Rightarrow> the (pending (s, h) a)) \<and>
    sched_inv (s\<lparr>sch_earliest_wakeup := earliest t\<rparr>, h) t"
proof -
  have t: "tree_at h (sch_root s) None t" using inv by (simp add: sched_inv_def sched_tree_def)
  have inv': "sched_inv (s\<lparr>sch_earliest_wakeup := earliest t\<rparr>, h) t" using inv by (simp add: sched_inv_def sched_tree_def)
  have l: "schedule_find_least h (sch_root s) = Some (earliest t)"
  proof (cases t)
    case Leaf
    then show ?thesis using t by (simp add: schedule_find_least_def earliest_def)
  next
    case (Node l a r)
    then have "tree_at h (Some a) None (Node l a r)" using t by auto
    then have "schedule_least h a = Some (hd (inorder t))" using schedule_least_ok Node by blast
    then show ?thesis using t Node by (cases "inorder l") (simp_all add: schedule_find_least_def earliest_def)
  qed
  have c: "sch_earliest_wakeup s \<noteq> None \<Longrightarrow> s\<lparr>sch_earliest_wakeup := earliest t\<rparr> = s"
    using inv by (cases s) (auto simp: sched_inv_def)
  have s1: "(if sch_earliest_wakeup s = None
      then do { l \<leftarrow> schedule_find_least h (sch_root s); Some (s\<lparr>sch_earliest_wakeup := l\<rparr>) } else Some s) =
      Some (s\<lparr>sch_earliest_wakeup := earliest t\<rparr>)" using l c by auto
  show ?thesis
  proof (cases "earliest t")
    case None
    then show ?thesis using inv' unfolding schedule_get_earliest_wakeup_def s1 by simp
  next
    case (Some a)
    then have at: "a \<in> set_tree t" by (cases "inorder t") (auto simp: earliest_def simp flip: set_inorder)
    then obtain x where "h a = Some x" using tree_at_dom [OF t] by blast
    then show ?thesis
      using Some inv' at sched_inv_pending(1) [OF inv, of a] unfolding schedule_get_earliest_wakeup_def s1 by simp
  qed
qed

section \<open>A run of the scheduler\<close>

text \<open>A request to wake an entry comes with the values that \<open>random\<close> gives while it is served.\<close>

datatype sched_request = Wake addr timeval u32 "u32 list" | Cancel addr | Next

definition add_wakeup :: "(addr \<rightharpoonup> timeval) \<Rightarrow> addr \<Rightarrow> timeval \<Rightarrow> u32 \<Rightarrow> (addr \<rightharpoonup> timeval)" where
  "add_wakeup m a tv sigma =
     (case m a of None \<Rightarrow> m(a \<mapsto> tv)
      | Some t \<Rightarrow> if sigma \<noteq> 0 \<and> tv_within_sigma tv t sigma then m else m(a \<mapsto> tv))"

text \<open>The answers that a queue of wakeups may give to a list of requests.\<close>

fun wakeups_allow :: "(addr \<rightharpoonup> timeval) \<Rightarrow> sched_request list \<Rightarrow> addr option list \<Rightarrow> bool" where
  "wakeups_allow m [] as \<longleftrightarrow> as = []"
| "wakeups_allow m (Wake a tv sigma rnd # rs) as \<longleftrightarrow> wakeups_allow (add_wakeup m a tv sigma) rs as"
| "wakeups_allow m (Cancel a # rs) as \<longleftrightarrow> wakeups_allow (m(a := None)) rs as"
| "wakeups_allow m (Next # rs) [] \<longleftrightarrow> False"
| "wakeups_allow m (Next # rs) (r # as) \<longleftrightarrow> earliest_of m r \<and> wakeups_allow m rs as"

text \<open>A request is for an entry that exists; its random values give more priorities than there are entries.\<close>

definition request_ok :: "addr set \<Rightarrow> sched_request \<Rightarrow> bool" where
  "request_ok A q = (case q of
      Wake a tv sigma rnd \<Rightarrow> a \<in> A \<and> card A < card (sched_pri ` set rnd)
    | Cancel a \<Rightarrow> a \<in> A
    | Next \<Rightarrow> True)"

text \<open>What a scheduler offers, and what it promises.\<close>

fun requests_run :: "('s \<Rightarrow> addr \<Rightarrow> timeval \<Rightarrow> u32 \<Rightarrow> u32 list \<Rightarrow> 's option) \<Rightarrow> ('s \<Rightarrow> addr \<Rightarrow> 's option) \<Rightarrow>
    ('s \<Rightarrow> (addr option \<times> 's) option) \<Rightarrow> 's \<Rightarrow> sched_request list \<Rightarrow> (addr option list \<times> 's) option" where
  "requests_run add remove first q [] = Some ([], q)"
| "requests_run add remove first q (Wake a tv sigma rnd # rs) =
     do { q1 \<leftarrow> add q a tv sigma rnd; requests_run add remove first q1 rs }"
| "requests_run add remove first q (Cancel a # rs) = do { q1 \<leftarrow> remove q a; requests_run add remove first q1 rs }"
| "requests_run add remove first q (Next # rs) =
     do { (r, q1) \<leftarrow> first q; (as, q2) \<leftarrow> requests_run add remove first q1 rs; Some (r # as, q2) }"

locale wakeup_queue =
  fixes valid :: "'s \<Rightarrow> bool"
    and waiting :: "'s \<Rightarrow> addr \<rightharpoonup> timeval"
    and known :: "'s \<Rightarrow> addr set"
    and add :: "'s \<Rightarrow> addr \<Rightarrow> timeval \<Rightarrow> u32 \<Rightarrow> u32 list \<Rightarrow> 's option"
    and remove :: "'s \<Rightarrow> addr \<Rightarrow> 's option"
    and first :: "'s \<Rightarrow> (addr option \<times> 's) option"
  assumes add: "valid q \<Longrightarrow> a \<in> known q \<Longrightarrow> card (known q) < card (sched_pri ` set rnd) \<Longrightarrow>
      \<exists>q'. add q a tv sigma rnd = Some q' \<and> valid q' \<and> known q' = known q \<and> waiting q' = add_wakeup (waiting q) a tv sigma"
    and remove: "valid q \<Longrightarrow> a \<in> known q \<Longrightarrow>
      \<exists>q'. remove q a = Some q' \<and> valid q' \<and> known q' = known q \<and> waiting q' = (waiting q)(a := None)"
    and first: "valid q \<Longrightarrow>
      \<exists>r q'. first q = Some (r, q') \<and> valid q' \<and> known q' = known q \<and> waiting q' = waiting q \<and> earliest_of (waiting q) r"
begin

lemma run_allowed:
  assumes "valid q" "\<forall>r \<in> set rs. request_ok (known q) r"
  shows "\<exists>as q'. requests_run add remove first q rs = Some (as, q') \<and> valid q' \<and> wakeups_allow (waiting q) rs as"
  using assms
proof (induction rs arbitrary: q)
  case (Cons r rs)
  show ?case
  proof (cases r)
    case (Wake a tv sigma rnd)
    then obtain q1 where "add q a tv sigma rnd = Some q1" "valid q1" "known q1 = known q"
      "waiting q1 = add_wakeup (waiting q) a tv sigma"
      using add [of q a rnd tv sigma] Cons.prems by (auto simp: request_ok_def)
    then show ?thesis using Cons.IH [of q1] Cons.prems(2) Wake by auto
  next
    case (Cancel a)
    then obtain q1 where q1: "remove q a = Some q1" "valid q1" "known q1 = known q" "waiting q1 = (waiting q)(a := None)"
      using remove [of q a] Cons.prems by (auto simp: request_ok_def)
    obtain as q' where "requests_run add remove first q1 rs = Some (as, q')" "valid q'" "wakeups_allow (waiting q1) rs as"
      using Cons.IH [of q1] Cons.prems(2) q1(2,3) by auto
    then show ?thesis unfolding Cancel q1(4) using q1(1) by (intro exI [of _ as] exI [of _ q']) simp
  next
    case Next
    obtain x q1 where "first q = Some (x, q1)" "valid q1" "known q1 = known q" "waiting q1 = waiting q" "earliest_of (waiting q) x"
      using first [OF Cons.prems(1)] by blast
    then show ?thesis using Cons.IH [of q1] Cons.prems(2) Next by auto
  qed
qed simp

end

definition sched_add :: "schedule \<times> sched_heap \<Rightarrow> addr \<Rightarrow> timeval \<Rightarrow> u32 \<Rightarrow> u32 list \<Rightarrow> (schedule \<times> sched_heap) option" where
  "sched_add = (\<lambda>(s, h) a tv sigma rnd. map_option (\<lambda>(s1, h1, _). (s1, h1)) (schedule_add_entry s h a tv sigma rnd))"

definition sched_remove :: "schedule \<times> sched_heap \<Rightarrow> addr \<Rightarrow> (schedule \<times> sched_heap) option" where
  "sched_remove = (\<lambda>(s, h) a. schedule_remove_entry s h a)"

definition sched_first :: "schedule \<times> sched_heap \<Rightarrow> (addr option \<times> schedule \<times> sched_heap) option" where
  "sched_first = (\<lambda>(s, h). map_option (\<lambda>(r, _, s1). (r, s1, h)) (schedule_get_earliest_wakeup s h tv_clear))"

definition sched_known :: "schedule \<times> sched_heap \<Rightarrow> addr set" where
  "sched_known = (\<lambda>(s, h). dom h)"

definition sched_valid :: "schedule \<times> sched_heap \<Rightarrow> bool" where
  "sched_valid q \<longleftrightarrow> finite (sched_known q) \<and> (\<exists>t. sched_inv q t)"

lemma sched_inv_known: "sched_inv (s, h) t \<Longrightarrow> set_tree t \<subseteq> dom h"
  by (auto simp: sched_inv_def sched_tree_def dest: tree_at_dom)

lemma add_wakeup_entry:
  assumes "h a = Some x"
  shows "add_wakeup (pending (s, h)) a tv sigma = (if keeps_wakeup x tv sigma then pending (s, h) else (pending (s, h))(a \<mapsto> tv))"
  using assms by (auto simp: add_wakeup_def keeps_wakeup_def pending_def)

interpretation sq: wakeup_queue sched_valid pending sched_known sched_add sched_remove sched_first
proof unfold_locales
  fix q :: "schedule \<times> sched_heap" and a tv sigma rnd
  assume v: "sched_valid q" and a: "a \<in> sched_known q" and c: "card (sched_known q) < card (sched_pri ` set rnd)"
  obtain s h where q: "q = (s, h)" by (cases q)
  obtain t where t: "sched_inv (s, h) t" and fin: "finite (dom h)" using v q by (auto simp: sched_valid_def sched_known_def)
  obtain x where x: "h a = Some x" using a q by (auto simp: sched_known_def)
  show "\<exists>q'. sched_add q a tv sigma rnd = Some q' \<and> sched_valid q' \<and> sched_known q' = sched_known q \<and>
      pending q' = add_wakeup (pending q) a tv sigma"
  proof (cases "keeps_wakeup x tv sigma")
    case True
    then show ?thesis using v x q by (auto simp: sched_add_def schedule_add_entry_kept add_wakeup_entry)
  next
    case False
    have "card (set_tree t) \<le> card (dom h)" using sched_inv_known [OF t] fin by (rule card_mono [rotated])
    then have "card (set_tree t) < card (sched_pri ` set rnd)" using c q by (simp add: sched_known_def)
    then have "free_priority h t a tv rnd"
      using pri_free_ex [of t rnd h tv] by (auto simp: free_priority_def pri_free_def)
    then obtain s' h' rnd' t' where r: "schedule_add_entry s h a tv sigma rnd = Some (s', h', rnd')" "sched_inv (s', h') t'"
      "dom h' = dom h" "pending (s', h') = (pending (s, h))(a \<mapsto> tv)"
      using schedule_add_changed_ok [OF t x False] by blast
    have "add_wakeup (pending (s, h)) a tv sigma = (pending (s, h))(a \<mapsto> tv)" using add_wakeup_entry [of h a x s tv sigma] x False by simp
    then show ?thesis unfolding q using r fin by (intro exI [of _ "(s', h')"]) (auto simp: sched_add_def sched_valid_def sched_known_def)
  qed
next
  fix q :: "schedule \<times> sched_heap" and a
  assume v: "sched_valid q" and a: "a \<in> sched_known q"
  obtain s h where q: "q = (s, h)" by (cases q)
  obtain t x where t: "sched_inv (s, h) t" "h a = Some x" using v a q by (auto simp: sched_valid_def sched_known_def)
  show "\<exists>q'. sched_remove q a = Some q' \<and> sched_valid q' \<and> sched_known q' = sched_known q \<and> pending q' = (pending q)(a := None)"
    using schedule_remove_entry_ok [OF t] v q by (auto simp: sched_remove_def sched_valid_def sched_known_def)
next
  fix q :: "schedule \<times> sched_heap"
  assume v: "sched_valid q"
  obtain s h where q: "q = (s, h)" by (cases q)
  obtain t where t: "sched_inv (s, h) t" using v q by (auto simp: sched_valid_def)
  obtain w where w: "schedule_get_earliest_wakeup s h tv_clear = Some (earliest t, w, s\<lparr>sch_earliest_wakeup := earliest t\<rparr>)"
    "sched_inv (s\<lparr>sch_earliest_wakeup := earliest t\<rparr>, h) t"
    using schedule_get_earliest_ok [OF t, of tv_clear] by blast
  moreover have "pending (s\<lparr>sch_earliest_wakeup := earliest t\<rparr>, h) = pending (s, h)" by (simp add: pending_def fun_eq_iff)
  ultimately show "\<exists>r q'. sched_first q = Some (r, q') \<and> sched_valid q' \<and> sched_known q' = sched_known q \<and>
      pending q' = pending q \<and> earliest_of (pending q) r"
    using v q sched_inv_earliest [OF t] by (auto simp: sched_first_def sched_valid_def sched_known_def)
qed

section \<open>When the search for a place ends\<close>

lemma insert_not_placed:
  assumes "placed s h a t h'" "h a = Some x"
  shows "pri_free h t (se_tv x) (se_pri x)"
proof -
  obtain cs where cs: "plug Leaf cs = t" "\<forall>b \<in> set (lefts cs). key_of h b < key_of h a" "\<forall>b \<in> set (rights cs). key_of h a < key_of h b"
    using assms(1) by (auto simp: placed_def)
  have "key_of h b \<noteq> key_of h a" if "b \<in> set_tree t" for b
    using that cs unfolding cs(1) [symmetric] by (auto simp: set_tree_plug)
  then show ?thesis using assms(2) by (auto simp: pri_free_def sched_key_def)
qed

lemma schedule_insert_stuck:
  assumes "sched_tree s h t" "t \<noteq> Leaf" "a \<notin> set_tree t" "key_ordered h t"
    and "h a = Some x" "se_lt x = None" "se_gt x = None"
    and "\<not> pri_free h t (se_tv x) (se_pri x)" "\<forall>r \<in> set rnd. \<not> pri_free h t (se_tv x) (sched_pri r)"
  shows "schedule_insert s h a rnd = None"
  using assms(1,3-)
proof (induction rnd arbitrary: h x)
  case Nil
  have again: "schedule_insert_at s h a (root_of t) [] = insert_again s h a []"
    using insert_search [of s h t "[]" a x "[]"] insert_not_placed [of s h a t _ x] Nil.prems assms(2) by auto
  then show ?case using sched_tree_root [OF Nil.prems(1)] by (simp add: schedule_insert_def insert_again_def)
next
  case (Cons r rnd)
  have again: "schedule_insert_at s h a (root_of t) (r # rnd) = insert_again s h a (r # rnd)"
    using insert_search [of s h t "[]" a x "r # rnd"] insert_not_placed [of s h a t _ x] Cons.prems assms(2) by auto
  let ?x = "x\<lparr>se_pri := sched_pri r\<rparr>" and ?h = "h(a \<mapsto> x\<lparr>se_pri := sched_pri r\<rparr>)"
  have go: "schedule_insert s h a (r # rnd) = schedule_insert s ?h a rnd"
    using again sched_tree_root [OF Cons.prems(1)] Cons.prems(4) by (simp add: schedule_insert_def insert_again_def upd_entry_def)
  have key: "key_of ?h b = key_of h b" if "b \<in> set_tree t" for b
    using that Cons.prems(2) by (auto simp: key_of_def)
  have free: "pri_free ?h t tv p = pri_free h t tv p" for tv p by (simp add: pri_free_def key)
  show ?case unfolding go
  proof (rule Cons.IH [of ?h ?x])
    show "sched_tree s ?h t" by (rule sched_tree_agree [OF Cons.prems(1)]) (use Cons.prems(2) in auto)
    show "key_ordered ?h t" by (rule sorted_wrt_cong [OF Cons.prems(3)]) (simp add: key)
  qed (use Cons.prems in \<open>simp_all add: free fun_upd_same del: fun_upd_apply\<close>)
qed

lemma schedule_add_stuck:
  assumes inv: "sched_inv (s, h) t" and x: "h a = Some x" "\<not> keeps_wakeup x tv sigma"
    and rnd: "\<not> free_priority h t a tv rnd"
  shows "schedule_add_entry s h a tv sigma rnd = None"
proof -
  define h0 where "h0 = h(a \<mapsto> x\<lparr>se_tv := tv\<rparr>)"
  obtain s1 h1 t1 where r: "(if IN_TREE (x\<lparr>se_tv := tv\<rparr>) then schedule_remove_node s h0 a else Some (s, h0)) = Some (s1, h1)"
    "sched_tree s1 h1 t1" "set_tree t1 = set_tree t - {a}" "key_ordered h1 t1"
    "h1 a = Some (idle_entry tv)" "same_keys_but a h h1"
    by (rule schedule_take_out [OF inv x(1) h0_def])
  have h0a: "h0 a = Some (x\<lparr>se_tv := tv\<rparr>)" by (simp add: h0_def)
  note run = schedule_add_entry_changed [where h = h and a = a and x = x, OF x, of s rnd, folded h0_def]
  show ?thesis
  proof (cases rnd)
    case Nil
    then show ?thesis unfolding run using r(1) h0a by (simp add: schedule_add_modify_def)
  next
    case (Cons q rnd1)
    let ?x = "(idle_entry tv)\<lparr>se_pri := sched_pri q\<rparr>"
    have na: "a \<notin> set_tree t1" using r(3) by simp
    have busy: "\<not> pri_free h1 t1 tv (sched_pri p)" if "p \<in> set rnd" for p
      using rnd r(3,6) that by (auto simp: free_priority_def pri_free_def same_keys_but_key)
    then have "\<not> pri_free h1 t1 tv (sched_pri q)" using Cons by simp
    then have tl: "t1 \<noteq> Leaf" by (auto simp: pri_free_def)
    have key: "key_of (h1(a \<mapsto> z)) b = key_of h1 b" if "b \<in> set_tree t1" for b z
      using that na by (auto simp: key_of_def)
    have free: "pri_free (h1(a \<mapsto> z)) t1 tv p = pri_free h1 t1 tv p" for tv p z by (simp add: pri_free_def key)
    have "schedule_insert s1 (h1(a \<mapsto> ?x)) a rnd1 = None"
    proof (rule schedule_insert_stuck [OF _ tl na, of _ _ ?x])
      show "sched_tree s1 (h1(a \<mapsto> ?x)) t1" by (rule sched_tree_agree [OF r(2)]) (use na in auto)
      show "key_ordered (h1(a \<mapsto> ?x)) t1" by (rule sorted_wrt_cong [OF r(4)]) (simp add: key)
    qed (use busy Cons in \<open>simp_all add: free idle_entry_def fun_upd_same del: fun_upd_apply\<close>)
    moreover obtain c where "sch_root s1 = Some c" using sched_tree_root [OF r(2)] tl by (cases t1) auto
    ultimately show ?thesis
      unfolding run using r(1,5) h0a Cons by (simp add: schedule_add_modify_def upd_entry_def)
  qed
qed

section \<open>The scheduler is right\<close>

lemma sched_init_inv: "\<forall>a x. h a = Some x \<longrightarrow> x = idle_entry (se_tv x) \<Longrightarrow> sched_inv (schedule_init, h) Leaf"
  by (auto simp: sched_inv_def schedule_init_def sched_tree_def entries_ok_def)

text \<open>C36. A scheduler that starts empty answers every sequence of requests - to wake an entry at a time, to cancel a
  wakeup, to tell the earliest one - as a finite map from the entries to their times does: each answer is an entry
  with the least time of all, or none when no wakeup is pending. A request to wake an entry that is due within
  \<open>sigma\<close> of its present time changes nothing. No request aborts or runs forever, when \<open>random\<close> gives
  more different priorities than there are entries.\<close>

theorem schedule_refines_wakeups:
  assumes "finite (dom h)" "\<forall>a x. h a = Some x \<longrightarrow> x = idle_entry (se_tv x)" "\<forall>r \<in> set rs. request_ok (dom h) r"
  shows "\<exists>as q. requests_run sched_add sched_remove sched_first (schedule_init, h) rs = Some (as, q) \<and>
    wakeups_allow Map.empty rs as"
proof -
  have inv: "sched_inv (schedule_init, h) Leaf" using assms(2) by (rule sched_init_inv)
  then have v: "sched_valid (schedule_init, h)" using assms(1) by (auto simp: sched_valid_def sched_known_def)
  have "dom (pending (schedule_init, h)) = {}" using sched_inv_pending(2) [OF inv] by simp
  then have p: "pending (schedule_init, h) = Map.empty" by simp
  have "\<forall>r \<in> set rs. request_ok (sched_known (schedule_init, h)) r" using assms(3) by (simp add: sched_known_def)
  then show ?thesis using sq.run_allowed [OF v] unfolding p by blast
qed

definition demo_heap :: sched_heap where
  "demo_heap = [1 \<mapsto> idle_entry tv_clear, 2 \<mapsto> idle_entry tv_clear]"

definition demo_wakes :: "sched_request list" where
  "demo_wakes = [Wake 1 \<lparr>tv_sec = 9, tv_usec = 0\<rparr> 0 [5, 6, 7], Wake 2 \<lparr>tv_sec = 4, tv_usec = 1\<rparr> 0 [5, 6, 7], Next, Cancel 2, Next]"

lemma demo_wakes_ok:
  "finite (dom demo_heap)" "\<forall>a x. demo_heap a = Some x \<longrightarrow> x = idle_entry (se_tv x)"
  "\<forall>r \<in> set demo_wakes. request_ok (dom demo_heap) r"
  by (auto simp: demo_heap_def demo_wakes_def request_ok_def sched_pri_def idle_entry_def split: if_splits)

lemma schedule_refines_wakeups_witness:
  "\<exists>q. requests_run sched_add sched_remove sched_first (schedule_init, demo_heap) demo_wakes = Some ([Some 2, Some 1], q)"
proof -
  obtain as q where r: "requests_run sched_add sched_remove sched_first (schedule_init, demo_heap) demo_wakes = Some (as, q)"
    "wakeups_allow Map.empty demo_wakes as"
    using schedule_refines_wakeups [OF demo_wakes_ok] by blast
  define m where "m = [1 \<mapsto> \<lparr>tv_sec = 9, tv_usec = 0\<rparr>, 2 :: addr \<mapsto> \<lparr>tv_sec = 4, tv_usec = 1\<rparr>]"
  have "wakeups_allow m [Next, Cancel 2, Next] as" using r(2) by (simp add: demo_wakes_def add_wakeup_def m_def)
  then obtain x y where as: "as = [x, y]" "earliest_of m x" "earliest_of (m(2 := None)) y"
    by (cases as; cases "tl as") auto
  have "x = Some 2" using as(2) by (auto simp: m_def earliest_of_def tv_le_def fun_eq_iff split: option.splits if_splits)
  moreover have "y = Some 1" using as(3) by (auto simp: m_def earliest_of_def fun_eq_iff split: option.splits if_splits)
  ultimately show ?thesis using r(1) as(1) by simp
qed

text \<open>C37. What every operation keeps of the treap: after any sequence of requests to a scheduler that started empty,
  the links form one tree over the pending entries, ordered by time and priority from left to right and with the
  priorities increasing downwards; every other entry has its links cleared; and the cached earliest wakeup is
  absent or right.\<close>

theorem schedule_stays_treap:
  assumes "finite (dom h)" "\<forall>a x. h a = Some x \<longrightarrow> x = idle_entry (se_tv x)" "\<forall>r \<in> set rs. request_ok (dom h) r"
  shows "\<exists>as s h' t. requests_run sched_add sched_remove sched_first (schedule_init, h) rs = Some (as, (s, h')) \<and>
    tree_at h' (sch_root s) None t \<and> distinct (inorder t) \<and> set_tree t = dom (pending (s, h')) \<and>
    sorted_wrt (\<lambda>b c. key_of h' b < key_of h' c) (inorder t) \<and> heapy (\<lambda>b c. pri_of h' b \<le> pri_of h' c) t \<and>
    entries_ok h' t \<and> (sch_earliest_wakeup s = None \<or> sch_earliest_wakeup s = earliest t)"
proof -
  have inv: "sched_inv (schedule_init, h) Leaf" using assms(2) by (rule sched_init_inv)
  then have v: "sched_valid (schedule_init, h)" using assms(1) by (auto simp: sched_valid_def sched_known_def)
  have "\<forall>r \<in> set rs. request_ok (sched_known (schedule_init, h)) r" using assms(3) by (simp add: sched_known_def)
  then obtain as q where r: "requests_run sched_add sched_remove sched_first (schedule_init, h) rs = Some (as, q)" "sched_valid q"
    using sq.run_allowed [OF v] by blast
  obtain s h' where q: "q = (s, h')" by (cases q)
  obtain t where t: "sched_inv (s, h') t" using r(2) unfolding q by (auto simp: sched_valid_def)
  have "set_tree t = dom (pending (s, h'))" using sched_inv_pending(2) [OF t] by simp
  then show ?thesis using r(1) t unfolding q sched_inv_def sched_tree_def by blast
qed

lemma schedule_stays_treap_witness:
  "\<exists>as s h' t. requests_run sched_add sched_remove sched_first (schedule_init, demo_heap) demo_wakes = Some (as, (s, h')) \<and>
    tree_at h' (sch_root s) None t \<and> distinct (inorder t)"
  using schedule_stays_treap [OF demo_wakes_ok] by blast

text \<open>C38. A node that meets another node with its own time and priority draws a new priority and starts again. In a
  well-formed scheduler \<open>schedule_add_entry\<close> returns if and only if the wakeup stays as it is or \<open>random\<close> gives,
  sooner or later, a priority that no other entry of the same time has; in particular no other loop of it runs
  forever.\<close>

theorem schedule_add_entry_returns:
  assumes "sched_inv (s, h) t" "h a = Some x"
  shows "schedule_add_entry s h a tv sigma rnd = None \<longleftrightarrow> \<not> keeps_wakeup x tv sigma \<and> \<not> free_priority h t a tv rnd"
proof (cases "keeps_wakeup x tv sigma")
  case True
  then show ?thesis using schedule_add_entry_kept [of h a x] assms(2) by simp
next
  case False
  show ?thesis
  proof (cases "free_priority h t a tv rnd")
    case True
    obtain s' h' rnd' where "schedule_add_entry s h a tv sigma rnd = Some (s', h', rnd')"
      using schedule_add_changed_ok [OF assms False True] by blast
    then show ?thesis using True by simp
  next
    case busy: False
    then show ?thesis using schedule_add_stuck [OF assms False busy] False by simp
  qed
qed

lemma schedule_add_entry_returns_witness:
  "schedule_add_entry schedule_init demo_heap 1 \<lparr>tv_sec = 9, tv_usec = 0\<rparr> 0 [5] \<noteq> None \<and>
   schedule_add_entry schedule_init demo_heap 1 \<lparr>tv_sec = 9, tv_usec = 0\<rparr> 0 [] = None"
proof -
  have inv: "sched_inv (schedule_init, demo_heap) Leaf" by (rule sched_init_inv [OF demo_wakes_ok(2)])
  have x: "demo_heap 1 = Some (idle_entry tv_clear)" by (simp add: demo_heap_def)
  show ?thesis
    using schedule_add_entry_returns [OF inv x, of "\<lparr>tv_sec = 9, tv_usec = 0\<rparr>" 0 "[5]"]
      schedule_add_entry_returns [OF inv x, of "\<lparr>tv_sec = 9, tv_usec = 0\<rparr>" 0 "[]"]
    by (simp add: free_priority_def keeps_wakeup_def)
qed

end
