(* ===== verification/KeyExchange.thy ===== *)
theory KeyExchange
  imports DataChannel
begin

text \<open>
  Keys of the data channel (src: ssl.c, ssl_common.h, crypto.h, crypto.c): the random material that the two ends
  send each other, the derivation of the keys from it and the choice of the key for each direction.
\<close>

section \<open>Source material\<close>

record key_source =
  kso_pre_master :: bytes
  kso_random1 :: bytes
  kso_random2 :: bytes

record key_source2 =
  k2s_client :: key_source
  k2s_server :: key_source

definition key_source_clear :: key_source where
  "key_source_clear = \<lparr>kso_pre_master = replicate 48 0, kso_random1 = replicate 32 0, kso_random2 = replicate 32 0\<rparr>"

text \<open>\<open>rnd\<close> holds the octets that \<open>rand_bytes\<close> will give; without enough of them it fails, which is fatal.\<close>

definition rand_bytes :: "bytes \<Rightarrow> int \<Rightarrow> (bytes \<times> bytes) option" where
  "rand_bytes rnd n = (if n \<le> int (length rnd) then Some (take (nat n) rnd, drop (nat n) rnd) else None)"

text \<open>The answer, the buffer, the octets drawn and the rest of \<open>rnd\<close>.\<close>

definition random_bytes_to_buf :: "buffer \<Rightarrow> int \<Rightarrow> bytes \<Rightarrow> (bool \<times> buffer \<times> bytes \<times> bytes) option" where
  "random_bytes_to_buf buf outlen rnd =
     do { (out, rnd1) \<leftarrow> rand_bytes rnd outlen;
          (ok, buf1) \<leftarrow> buf_write buf out;
          Some (ok, buf1, out, rnd1) }"

definition k2_set :: "bool \<Rightarrow> key_source \<Rightarrow> key_source2 \<Rightarrow> key_source2" where
  "k2_set server k k2 = (if server then k2\<lparr>k2s_server := k\<rparr> else k2\<lparr>k2s_client := k\<rparr>)"

definition key_source2_randomize_write ::
  "key_source2 \<Rightarrow> buffer \<Rightarrow> bool \<Rightarrow> bytes \<Rightarrow> (bool \<times> key_source2 \<times> buffer \<times> bytes) option" where
  "key_source2_randomize_write k2 buf server rnd =
     do { let k = key_source_clear;
          (ok0, k0, buf0, rnd0) \<leftarrow>
            (if \<not> server
             then do { (ok, b, x, r) \<leftarrow> random_bytes_to_buf buf 48 rnd; Some (ok, k\<lparr>kso_pre_master := x\<rparr>, b, r) }
             else Some (True, k, buf, rnd));
          if \<not> ok0 then Some (False, k2_set server k0 k2, buf0, rnd0)
          else do {
            (ok1, buf1, x1, rnd1) \<leftarrow> random_bytes_to_buf buf0 32 rnd0;
            let k1 = k0\<lparr>kso_random1 := x1\<rparr>;
            if \<not> ok1 then Some (False, k2_set server k1 k2, buf1, rnd1)
            else do {
              (ok2, buf2, x2, rnd2) \<leftarrow> random_bytes_to_buf buf1 32 rnd1;
              Some (ok2, k2_set server (k1\<lparr>kso_random2 := x2\<rparr>) k2, buf2, rnd2) } } }"

definition key_source2_read :: "key_source2 \<Rightarrow> buffer \<Rightarrow> bool \<Rightarrow> (bool \<times> key_source2 \<times> buffer) option" where
  "key_source2_read k2 buf server =
     do { let k = key_source_clear;
          (r0, buf0) \<leftarrow> (if server then buf_read buf 48 else Some (Some (kso_pre_master k), buf));
          case r0 of
            None \<Rightarrow> Some (False, k2_set (\<not> server) k k2, buf0)
          | Some x0 \<Rightarrow>
              do { let k0 = k\<lparr>kso_pre_master := x0\<rparr>;
                   (r1, buf1) \<leftarrow> buf_read buf0 32;
                   case r1 of
                     None \<Rightarrow> Some (False, k2_set (\<not> server) k0 k2, buf1)
                   | Some x1 \<Rightarrow>
                       do { let k1 = k0\<lparr>kso_random1 := x1\<rparr>;
                            (r2, buf2) \<leftarrow> buf_read buf1 32;
                            case r2 of
                              None \<Rightarrow> Some (False, k2_set (\<not> server) k1 k2, buf2)
                            | Some x2 \<Rightarrow> Some (True, k2_set (\<not> server) (k1\<lparr>kso_random2 := x2\<rparr>) k2, buf2) } } }"

section \<open>Keys and their types\<close>

definition MAX_CIPHER_KEY_LENGTH :: nat where "MAX_CIPHER_KEY_LENGTH = 64"
definition MAX_HMAC_KEY_LENGTH :: nat where "MAX_HMAC_KEY_LENGTH = 64"

record key =
  key_cipher :: bytes
  key_hmac :: bytes

record key2 =
  k2_n :: int
  k2_keys :: "key list"

text \<open>
  The cipher and the hash of the library: what they make of a key, in the direction of sealing (\<open>True\<close>) or opening,
  and what the library knows of DES keys.
\<close>

record cipher_kt =
  ck_init :: "bytes \<Rightarrow> bool \<Rightarrow> cipher_ctx"
  ck_mode :: cipher_mode
  ck_key_size :: int
  ck_iv_size :: int
  ck_block_size :: int
  ck_des_num_cblocks :: int
  ck_des_check :: "bytes \<Rightarrow> bool"
  ck_des_fixup :: "bytes \<Rightarrow> bytes"

record md_kt =
  mk_init :: "bytes \<Rightarrow> hmac_ctx"
  mk_size :: int

record key_type =
  kt_cipher_length :: nat
  kt_hmac_length :: nat
  kt_cipher :: "cipher_kt option"
  kt_digest :: "md_kt option"

datatype key_direction = KEY_DIRECTION_BIDIRECTIONAL | KEY_DIRECTION_NORMAL | KEY_DIRECTION_INVERSE

record key_direction_state =
  kds_out_key :: nat
  kds_in_key :: nat
  kds_need_keys :: int

fun key_direction_state_init :: "key_direction \<Rightarrow> key_direction_state" where
  "key_direction_state_init KEY_DIRECTION_NORMAL = \<lparr>kds_out_key = 0, kds_in_key = 1, kds_need_keys = 2\<rparr>"
| "key_direction_state_init KEY_DIRECTION_INVERSE = \<lparr>kds_out_key = 1, kds_in_key = 0, kds_need_keys = 2\<rparr>"
| "key_direction_state_init KEY_DIRECTION_BIDIRECTIONAL = \<lparr>kds_out_key = 0, kds_in_key = 0, kds_need_keys = 1\<rparr>"

record key_ctx_bi =
  kb_encrypt :: key_ctx
  kb_decrypt :: key_ctx
  kb_initialized :: bool

definition init_key_ctx :: "key \<Rightarrow> key_type \<Rightarrow> bool \<Rightarrow> key_ctx" where
  "init_key_ctx key kt enc =
     \<lparr>kc_cipher = (case kt_cipher kt of None \<Rightarrow> None
        | Some c \<Rightarrow> if kt_cipher_length kt > 0 then Some (ck_init c (take (kt_cipher_length kt) (key_cipher key)) enc) else None),
      kc_hmac = (case kt_digest kt of None \<Rightarrow> None
        | Some d \<Rightarrow> if kt_hmac_length kt > 0 then Some (mk_init d (take (kt_hmac_length kt) (key_hmac key))) else None),
      kc_implicit_iv = replicate (nat OPENVPN_MAX_IV_LENGTH) 0,
      kc_implicit_iv_len = 0\<rparr>"

definition init_key_ctx_bi :: "key2 \<Rightarrow> key_direction \<Rightarrow> key_type \<Rightarrow> key_ctx_bi" where
  "init_key_ctx_bi key2 dir kt =
     (let kds = key_direction_state_init dir
      in \<lparr>kb_encrypt = init_key_ctx (k2_keys key2 ! kds_out_key kds) kt True,
          kb_decrypt = init_key_ctx (k2_keys key2 ! kds_in_key kds) kt False,
          kb_initialized = True\<rparr>)"

definition free_key_ctx :: "key_ctx \<Rightarrow> key_ctx" where
  "free_key_ctx ctx = ctx\<lparr>kc_cipher := None, kc_hmac := None, kc_implicit_iv_len := 0\<rparr>"

definition free_key_ctx_bi :: "key_ctx_bi \<Rightarrow> key_ctx_bi" where
  "free_key_ctx_bi ctx = ctx\<lparr>kb_encrypt := free_key_ctx (kb_encrypt ctx), kb_decrypt := free_key_ctx (kb_decrypt ctx)\<rparr>"

definition key_is_zero :: "key \<Rightarrow> key_type \<Rightarrow> bool" where
  "key_is_zero key kt \<longleftrightarrow> (\<forall>x \<in> set (take (kt_cipher_length kt) (key_cipher key)). x = 0)"

definition check_key :: "key \<Rightarrow> key_type \<Rightarrow> bool" where
  "check_key key kt =
     (case kt_cipher kt of
        None \<Rightarrow> True
      | Some c \<Rightarrow>
          if key_is_zero key kt then False
          else if ck_des_num_cblocks c \<noteq> 0 then ck_des_check c (take (kt_cipher_length kt) (key_cipher key))
          else True)"

text \<open>The library changes the first \<open>cipher_length\<close> octets.\<close>

definition fixup_key :: "key \<Rightarrow> key_type \<Rightarrow> key" where
  "fixup_key key kt =
     (case kt_cipher kt of
        None \<Rightarrow> key
      | Some c \<Rightarrow>
          if ck_des_num_cblocks c \<noteq> 0
          then key\<lparr>key_cipher := ck_des_fixup c (take (kt_cipher_length kt) (key_cipher key)) @
                  drop (kt_cipher_length kt) (key_cipher key)\<rparr>
          else key)"

text \<open>The two keys as they lie in memory.\<close>

definition key2_of_bytes :: "bytes \<Rightarrow> key list" where
  "key2_of_bytes x =
     [\<lparr>key_cipher = take 64 x, key_hmac = take 64 (drop 64 x)\<rparr>,
      \<lparr>key_cipher = take 64 (drop 128 x), key_hmac = take 64 (drop 192 x)\<rparr>]"

section \<open>Derivation\<close>

definition str_bytes :: "string \<Rightarrow> bytes" where "str_bytes s = map of_char s"

text \<open>\<open>prf seed secret len\<close> is \<open>ssl_tls1_PRF\<close> of the library.\<close>

type_synonym tls_prf = "bytes \<Rightarrow> bytes \<Rightarrow> int \<Rightarrow> bytes"

definition openvpn_PRF ::
  "tls_prf \<Rightarrow> bytes \<Rightarrow> string \<Rightarrow> bytes \<Rightarrow> bytes \<Rightarrow> bytes option \<Rightarrow> bytes option \<Rightarrow> int \<Rightarrow> bytes option" where
  "openvpn_PRF prf secret label client_seed server_seed client_sid server_sid output_len =
     do { seed \<leftarrow> alloc_buf (int (length label) + int (length client_seed) + int (length server_seed) + 8 * 2);
          (ok1, seed1) \<leftarrow> buf_write seed (str_bytes label);
          ASSERT ok1;
          (ok2, seed2) \<leftarrow> buf_write seed1 client_seed;
          ASSERT ok2;
          (ok3, seed3) \<leftarrow> buf_write seed2 server_seed;
          ASSERT ok3;
          seed4 \<leftarrow> (case client_sid of None \<Rightarrow> Some seed3
            | Some x \<Rightarrow> do { (ok, b) \<leftarrow> buf_write seed3 x; ASSERT ok; Some b });
          seed5 \<leftarrow> (case server_sid of None \<Rightarrow> Some seed4
            | Some x \<Rightarrow> do { (ok, b) \<leftarrow> buf_write seed4 x; ASSERT ok; Some b });
          s \<leftarrow> buf_bytes seed5;
          Some (prf s secret output_len) }"

text \<open>\<open>KEY_EXPANSION_ID\<close> is ''OpenVPN''; \<open>sid\<close> is the session identifier of this end, \<open>sid_remote\<close> that of the other.\<close>

definition generate_key_expansion_openvpn_prf ::
  "tls_prf \<Rightarrow> bool \<Rightarrow> key_type \<Rightarrow> key_source2 \<Rightarrow> bytes \<Rightarrow> bytes \<Rightarrow> key2 option" where
  "generate_key_expansion_openvpn_prf prf server kt key_src sid sid_remote =
     do { let client_sid = (if server then sid_remote else sid);
          let server_sid = (if \<not> server then sid_remote else sid);
          let client = k2s_client key_src;
          let srv = k2s_server key_src;
          master \<leftarrow> openvpn_PRF prf (kso_pre_master client) ''OpenVPN master secret'' (kso_random1 client)
                     (kso_random1 srv) None None 48;
          keys \<leftarrow> openvpn_PRF prf master ''OpenVPN key expansion'' (kso_random2 client) (kso_random2 srv)
                   (Some client_sid) (Some server_sid) 256;
          Some \<lparr>k2_n = 2, k2_keys = map (\<lambda>k. fixup_key k kt) (key2_of_bytes keys)\<rparr> }"

text \<open>\<open>ekm\<close> is the answer of \<open>key_state_export_keying_material\<close>, 256 octets or a failure.\<close>

definition generate_key_expansion_tls_export :: "bytes option \<Rightarrow> key2 option" where
  "generate_key_expansion_tls_export ekm = map_option (\<lambda>x. \<lparr>k2_n = 2, k2_keys = key2_of_bytes x\<rparr>) ekm"

definition key_ctx_update_implicit_iv :: "key_ctx \<Rightarrow> bytes \<Rightarrow> int \<Rightarrow> key_ctx option" where
  "key_ctx_update_implicit_iv ctx key key_len =
     (if cipher_kt_mode_aead (kc_cipher ctx)
      then do { c \<leftarrow> kc_cipher ctx;
                ASSERT (cc_iv_length c \<ge> OPENVPN_AEAD_MIN_IV_LEN);
                let impl_iv_len = cc_iv_length c - 4;
                ASSERT (impl_iv_len \<le> OPENVPN_MAX_IV_LENGTH);
                ASSERT (impl_iv_len \<le> key_len);
                Some (ctx\<lparr>kc_implicit_iv := take (nat impl_iv_len) key @ drop (nat impl_iv_len) (kc_implicit_iv ctx),
                          kc_implicit_iv_len := impl_iv_len\<rparr>) }
      else Some ctx)"

definition init_key_contexts :: "key_type \<Rightarrow> bool \<Rightarrow> key2 \<Rightarrow> key_ctx_bi option" where
  "init_key_contexts kt server key2 =
     do { let bi = init_key_ctx_bi key2 (if server then KEY_DIRECTION_INVERSE else KEY_DIRECTION_NORMAL) kt;
          e \<leftarrow> key_ctx_update_implicit_iv (kb_encrypt bi) (key_hmac (k2_keys key2 ! (if server then 1 else 0))) 64;
          d \<leftarrow> key_ctx_update_implicit_iv (kb_decrypt bi) (key_hmac (k2_keys key2 ! (if server then 0 else 1))) 64;
          Some (bi\<lparr>kb_encrypt := e, kb_decrypt := d\<rparr>) }"

definition CO_USE_TLS_KEY_MATERIAL_EXPORT :: u32 where "CO_USE_TLS_KEY_MATERIAL_EXPORT = 8"

definition generate_key_expansion ::
  "tls_prf \<Rightarrow> bytes option \<Rightarrow> key_ctx_bi \<Rightarrow> bool \<Rightarrow> u32 \<Rightarrow> key_type \<Rightarrow> key_source2 \<Rightarrow> bytes \<Rightarrow> bytes \<Rightarrow>
   (bool \<times> key_ctx_bi) option" where
  "generate_key_expansion prf ekm bi server crypto_flags kt key_src sid sid_remote =
     (if kb_initialized bi then Some (False, bi)
      else if crypto_flags AND CO_USE_TLS_KEY_MATERIAL_EXPORT \<noteq> 0 \<and> ekm = None then Some (False, bi)
      else do {
        key2 \<leftarrow> (if crypto_flags AND CO_USE_TLS_KEY_MATERIAL_EXPORT \<noteq> 0
                then generate_key_expansion_tls_export ekm
                else generate_key_expansion_openvpn_prf prf server kt key_src sid sid_remote);
        if \<not> check_key (k2_keys key2 ! 0) kt \<or> \<not> check_key (k2_keys key2 ! 1) kt then Some (False, bi)
        else do { bi1 \<leftarrow> init_key_contexts kt server key2; Some (True, bi1) } })"

section \<open>Keys in a buffer\<close>

definition write_key :: "key \<Rightarrow> key_type \<Rightarrow> buffer \<Rightarrow> (bool \<times> buffer) option" where
  "write_key key kt buf =
     do { ASSERT (kt_cipher_length kt \<le> MAX_CIPHER_KEY_LENGTH \<and> kt_hmac_length kt \<le> MAX_HMAC_KEY_LENGTH);
          (ok1, b1) \<leftarrow> buf_write buf [of_nat (kt_cipher_length kt)];
          if \<not> ok1 then Some (False, b1)
          else do {
            (ok2, b2) \<leftarrow> buf_write b1 [of_nat (kt_hmac_length kt)];
            if \<not> ok2 then Some (False, b2)
            else do {
              (ok3, b3) \<leftarrow> buf_write b2 (take (kt_cipher_length kt) (key_cipher key));
              if \<not> ok3 then Some (False, b3)
              else buf_write b3 (take (kt_hmac_length kt) (key_hmac key)) } } }"

text \<open>The answer is 1, -1 for a read error or 0 for another length.\<close>

definition read_key :: "key_type \<Rightarrow> buffer \<Rightarrow> (int \<times> key \<times> buffer) option" where
  "read_key kt buf =
     do { let key = \<lparr>key_cipher = replicate 64 0, key_hmac = replicate 64 0\<rparr>;
          (r1, b1) \<leftarrow> buf_read buf 1;
          case r1 of None \<Rightarrow> Some (- 1, key, b1)
          | Some l1 \<Rightarrow>
            do { (r2, b2) \<leftarrow> buf_read b1 1;
                 case r2 of None \<Rightarrow> Some (- 1, key, b2)
                 | Some l2 \<Rightarrow>
                   if unat (hd l1) \<noteq> kt_cipher_length kt \<or> unat (hd l2) \<noteq> kt_hmac_length kt then Some (0, key, b2)
                   else do {
                     (r3, b3) \<leftarrow> buf_read b2 (uint (hd l1));
                     case r3 of None \<Rightarrow> Some (- 1, key, b3)
                     | Some c \<Rightarrow>
                       do { let key1 = key\<lparr>key_cipher := c @ drop (length c) (key_cipher key)\<rparr>;
                            (r4, b4) \<leftarrow> buf_read b3 (uint (hd l2));
                            case r4 of None \<Rightarrow> Some (- 1, key1, b4)
                            | Some m \<Rightarrow> Some (1, key1\<lparr>key_hmac := m @ drop (length m) (key_hmac key1)\<rparr>, b4) } } } }"

section \<open>Both ends get the same keys\<close>

text \<open>The exchange: each end writes its half, which reaches the other end unchanged through the TLS connection.\<close>

definition key_exchange ::
  "key_source2 \<Rightarrow> key_source2 \<Rightarrow> buffer \<Rightarrow> buffer \<Rightarrow> bytes \<Rightarrow> bytes \<Rightarrow> (key_source2 \<times> key_source2) option" where
  "key_exchange kc ks bc bs rc rs =
     do { (ok1, kc1, b1, _) \<leftarrow> key_source2_randomize_write kc bc False rc;
          ASSERT ok1;
          (ok2, ks1, _) \<leftarrow> key_source2_read ks b1 True;
          ASSERT ok2;
          (ok3, ks2, b2, _) \<leftarrow> key_source2_randomize_write ks1 bs True rs;
          ASSERT ok3;
          (ok4, kc2, _) \<leftarrow> key_source2_read kc1 b2 False;
          ASSERT ok4;
          Some (kc2, ks2) }"

lemma random_bytes_to_buf_ok:
  assumes "buf_ok buf" "int n \<le> buf_room buf" "n \<le> length rnd"
  shows "random_bytes_to_buf buf (int n) rnd = Some (True, buf_append buf (take n rnd), take n rnd, drop n rnd)"
  using assms by (simp add: random_bytes_to_buf_def rand_bytes_def buf_write_ok)

lemma take_chunks:
  "take n (take (n + m) xs) = take n xs" "take m (drop n (take (n + m) xs)) = take m (drop n xs)"
  by (simp_all add: drop_take)

lemma randomize_write_client:
  assumes "buf_ok b" "buf_content b = []" "112 \<le> buf_room b" "112 \<le> length rnd"
  shows "\<exists>b' rnd'. key_source2_randomize_write k2 b False rnd =
      Some (True, k2\<lparr>k2s_client := \<lparr>kso_pre_master = take 48 rnd, kso_random1 = take 32 (drop 48 rnd),
        kso_random2 = take 32 (drop 80 rnd)\<rparr>\<rparr>, b', rnd') \<and>
    buf_ok b' \<and> buf_content b' = take 48 rnd @ take 32 (drop 48 rnd) @ take 32 (drop 80 rnd)"
proof -
  let ?b1 = "buf_append b (take 48 rnd)" and ?r1 = "drop 48 rnd"
  have b1: "buf_ok ?b1" "buf_content ?b1 = take 48 rnd" "buf_room ?b1 = buf_room b - 48" using assms by simp_all
  let ?b2 = "buf_append ?b1 (take 32 ?r1)" and ?r2 = "drop 32 ?r1"
  have b2: "buf_ok ?b2" "buf_content ?b2 = take 48 rnd @ take 32 ?r1" "buf_room ?b2 = buf_room b - 80" using assms b1 by simp_all
  let ?b3 = "buf_append ?b2 (take 32 ?r2)"
  have b3: "buf_ok ?b3" "buf_content ?b3 = take 48 rnd @ take 32 ?r1 @ take 32 ?r2" using assms b2 by simp_all
  have "random_bytes_to_buf b 48 rnd = Some (True, ?b1, take 48 rnd, ?r1)" using random_bytes_to_buf_ok [of b 48 rnd] assms by simp
  moreover have "random_bytes_to_buf ?b1 32 ?r1 = Some (True, ?b2, take 32 ?r1, ?r2)"
    using random_bytes_to_buf_ok [of ?b1 32 ?r1] assms b1 by simp
  moreover have "random_bytes_to_buf ?b2 32 ?r2 = Some (True, ?b3, take 32 ?r2, drop 32 ?r2)"
    using random_bytes_to_buf_ok [of ?b2 32 ?r2] assms b2 by simp
  ultimately show ?thesis using b3
    by (simp add: key_source2_randomize_write_def k2_set_def key_source_clear_def)
qed

lemma randomize_write_server:
  assumes "buf_ok b" "buf_content b = []" "64 \<le> buf_room b" "64 \<le> length rnd"
  shows "\<exists>b' rnd'. key_source2_randomize_write k2 b True rnd =
      Some (True, k2\<lparr>k2s_server := \<lparr>kso_pre_master = replicate 48 0, kso_random1 = take 32 rnd,
        kso_random2 = take 32 (drop 32 rnd)\<rparr>\<rparr>, b', rnd') \<and>
    buf_ok b' \<and> buf_content b' = take 32 rnd @ take 32 (drop 32 rnd)"
proof -
  let ?b1 = "buf_append b (take 32 rnd)" and ?r1 = "drop 32 rnd"
  have b1: "buf_ok ?b1" "buf_content ?b1 = take 32 rnd" "buf_room ?b1 = buf_room b - 32" using assms by simp_all
  let ?b2 = "buf_append ?b1 (take 32 ?r1)"
  have b2: "buf_ok ?b2" "buf_content ?b2 = take 32 rnd @ take 32 ?r1" using assms b1 by simp_all
  have "random_bytes_to_buf b 32 rnd = Some (True, ?b1, take 32 rnd, ?r1)" using random_bytes_to_buf_ok [of b 32 rnd] assms by simp
  moreover have "random_bytes_to_buf ?b1 32 ?r1 = Some (True, ?b2, take 32 ?r1, drop 32 ?r1)"
    using random_bytes_to_buf_ok [of ?b1 32 ?r1] assms b1 by simp
  ultimately show ?thesis using b2
    by (simp add: key_source2_randomize_write_def k2_set_def key_source_clear_def)
qed

lemma key_source2_read_client_half:
  assumes "buf_ok b" "buf_content b = x @ y @ z" "length x = 48" "length y = 32" "length z = 32"
  shows "\<exists>b'. key_source2_read k2 b True =
    Some (True, k2\<lparr>k2s_client := \<lparr>kso_pre_master = x, kso_random1 = y, kso_random2 = z\<rparr>\<rparr>, b')"
proof -
  have l: "b_len b = 112" using length_buf_content [OF assms(1)] assms(2-) by simp
  have r0: "buf_read b 48 = Some (Some x, buf_drop b 48)" using assms l by (simp add: buf_read_ok)
  have b0: "buf_ok (buf_drop b 48)" "buf_content (buf_drop b 48) = y @ z" "b_len (buf_drop b 48) = 64"
    using assms l by simp_all
  have r1: "buf_read (buf_drop b 48) 32 = Some (Some y, buf_drop (buf_drop b 48) 32)" using assms b0 by (simp add: buf_read_ok)
  have b1: "buf_ok (buf_drop (buf_drop b 48) 32)" "buf_content (buf_drop (buf_drop b 48) 32) = z"
    "b_len (buf_drop (buf_drop b 48) 32) = 32" using assms b0 by simp_all
  have r2: "buf_read (buf_drop (buf_drop b 48) 32) 32 = Some (Some z, buf_drop (buf_drop (buf_drop b 48) 32) 32)"
    using assms b1 by (simp add: buf_read_ok)
  show ?thesis using r0 r1 r2 by (simp add: key_source2_read_def k2_set_def)
qed

lemma key_source2_read_server_half:
  assumes "buf_ok b" "buf_content b = y @ z" "length y = 32" "length z = 32"
  shows "\<exists>b'. key_source2_read k2 b False =
    Some (True, k2\<lparr>k2s_server := \<lparr>kso_pre_master = replicate 48 0, kso_random1 = y, kso_random2 = z\<rparr>\<rparr>, b')"
proof -
  have l: "b_len b = 64" using length_buf_content [OF assms(1)] assms(2-) by simp
  have r0: "buf_read b 32 = Some (Some y, buf_drop b 32)" using assms l by (simp add: buf_read_ok)
  have b0: "buf_ok (buf_drop b 32)" "buf_content (buf_drop b 32) = z" "b_len (buf_drop b 32) = 32"
    using assms l by simp_all
  have r1: "buf_read (buf_drop b 32) 32 = Some (Some z, buf_drop (buf_drop b 32) 32)" using assms b0 by (simp add: buf_read_ok)
  show ?thesis using r0 r1 by (simp add: key_source2_read_def k2_set_def key_source_clear_def)
qed

lemma key_exchange_ok:
  assumes "buf_ok bc" "buf_content bc = []" "112 \<le> buf_room bc" "112 \<le> length rc"
    and "buf_ok bs" "buf_content bs = []" "64 \<le> buf_room bs" "64 \<le> length rs"
  shows "key_exchange kc ks bc bs rc rs =
    (let c = \<lparr>kso_pre_master = take 48 rc, kso_random1 = take 32 (drop 48 rc), kso_random2 = take 32 (drop 80 rc)\<rparr>;
         s = \<lparr>kso_pre_master = replicate 48 0, kso_random1 = take 32 rs, kso_random2 = take 32 (drop 32 rs)\<rparr>
     in Some (\<lparr>k2s_client = c, k2s_server = s\<rparr>, \<lparr>k2s_client = c, k2s_server = s\<rparr>))"
proof -
  let ?c = "\<lparr>kso_pre_master = take 48 rc, kso_random1 = take 32 (drop 48 rc), kso_random2 = take 32 (drop 80 rc)\<rparr>"
  let ?s = "\<lparr>kso_pre_master = replicate 48 0, kso_random1 = take 32 rs, kso_random2 = take 32 (drop 32 rs)\<rparr>"
  obtain b1 r1 where w1: "key_source2_randomize_write kc bc False rc = Some (True, kc\<lparr>k2s_client := ?c\<rparr>, b1, r1)"
    "buf_ok b1" "buf_content b1 = take 48 rc @ take 32 (drop 48 rc) @ take 32 (drop 80 rc)"
    using randomize_write_client [OF assms(1-4)] by blast
  obtain b1' where d1: "key_source2_read ks b1 True = Some (True, ks\<lparr>k2s_client := ?c\<rparr>, b1')"
    using key_source2_read_client_half [OF w1(2,3)] assms(4) by auto
  obtain b2 r2 where w2: "key_source2_randomize_write (ks\<lparr>k2s_client := ?c\<rparr>) bs True rs =
      Some (True, ks\<lparr>k2s_client := ?c, k2s_server := ?s\<rparr>, b2, r2)"
    "buf_ok b2" "buf_content b2 = take 32 rs @ take 32 (drop 32 rs)"
    using randomize_write_server [OF assms(5-8), of "ks\<lparr>k2s_client := ?c\<rparr>"] by auto
  obtain b2' where d2: "key_source2_read (kc\<lparr>k2s_client := ?c\<rparr>) b2 False = Some (True, kc\<lparr>k2s_client := ?c, k2s_server := ?s\<rparr>, b2')"
    using key_source2_read_server_half [OF w2(2,3), of "kc\<lparr>k2s_client := ?c\<rparr>"] assms(8) by auto
  have e: "kc\<lparr>k2s_client := ?c, k2s_server := ?s\<rparr> = \<lparr>k2s_client = ?c, k2s_server = ?s\<rparr>"
    "ks\<lparr>k2s_client := ?c, k2s_server := ?s\<rparr> = \<lparr>k2s_client = ?c, k2s_server = ?s\<rparr>" by (cases kc; simp)+
  show ?thesis unfolding key_exchange_def w1(1) Let_def using d1 w2(1) d2 e by simp
qed


lemma openvpn_PRF_eq:
  assumes "int (length label) + int (length cs) + int (length ss) + 16 < BUF_SIZE_MAX"
    and "\<And>x. csid = Some x \<Longrightarrow> length x = 8" and "\<And>x. ssid = Some x \<Longrightarrow> length x = 8"
  shows "openvpn_PRF prf secret label cs ss csid ssid n =
    Some (prf (str_bytes label @ cs @ ss @ (case csid of None \<Rightarrow> [] | Some x \<Rightarrow> x) @ (case ssid of None \<Rightarrow> [] | Some x \<Rightarrow> x)) secret n)"
proof -
  let ?sz = "int (length label) + int (length cs) + int (length ss) + 16"
  obtain b where b: "alloc_buf ?sz = Some b" "buf_ok b" "buf_content b = []" "buf_room b = ?sz"
    using assms(1) by (auto simp: alloc_buf_def buf_size_valid_def buf_ok_def buf_content_def buf_room_def)
  let ?b1 = "buf_append b (str_bytes label)"
  have b1: "buf_ok ?b1" "buf_content ?b1 = str_bytes label" "buf_room ?b1 = int (length cs) + int (length ss) + 16"
    using b by (simp_all add: str_bytes_def)
  let ?b2 = "buf_append ?b1 cs"
  have b2: "buf_ok ?b2" "buf_content ?b2 = str_bytes label @ cs" "buf_room ?b2 = int (length ss) + 16"
    using b1 by simp_all
  let ?b3 = "buf_append ?b2 ss"
  have b3: "buf_ok ?b3" "buf_content ?b3 = str_bytes label @ cs @ ss" "buf_room ?b3 = 16"
    using b2 by simp_all
  have w: "buf_write b (str_bytes label) = Some (True, ?b1)" "buf_write ?b1 cs = Some (True, ?b2)" "buf_write ?b2 ss = Some (True, ?b3)"
    using b b1 b2 by (simp_all add: buf_write_ok str_bytes_def)
  obtain b4 where b4: "(case csid of None \<Rightarrow> Some ?b3 | Some x \<Rightarrow> do { (ok, b) \<leftarrow> buf_write ?b3 x; ASSERT ok; Some b }) = Some b4"
    "buf_ok b4" "buf_content b4 = str_bytes label @ cs @ ss @ (case csid of None \<Rightarrow> [] | Some x \<Rightarrow> x)" "8 \<le> buf_room b4"
    using b3 assms(2) by (cases csid) (auto simp: buf_write_ok)
  obtain b5 where b5: "(case ssid of None \<Rightarrow> Some b4 | Some x \<Rightarrow> do { (ok, b) \<leftarrow> buf_write b4 x; ASSERT ok; Some b }) = Some b5"
    "buf_ok b5" "buf_content b5 = buf_content b4 @ (case ssid of None \<Rightarrow> [] | Some x \<Rightarrow> x)"
    using b4 assms(3) by (cases ssid) (auto simp: buf_write_ok)
  show ?thesis using w b4 b5 b(1) by (simp add: openvpn_PRF_def buf_bytes_ok)
qed


lemma key2_keys_nth:
  assumes "length x = 256" "i < 2"
  shows "length (key_hmac (key2_of_bytes x ! i)) = 64" "length (key_hmac (map (\<lambda>k. fixup_key k kt) (key2_of_bytes x) ! i)) = 64"
  using assms by (auto simp: key2_of_bytes_def less_2_cases_iff fixup_key_def split: option.splits)

text \<open>One direction: the context of a key for an AEAD cipher with its implicit vector.\<close>

definition direction_ctx :: "key_type \<Rightarrow> cipher_kt \<Rightarrow> key \<Rightarrow> bool \<Rightarrow> key_ctx" where
  "direction_ctx kt c k enc =
     (let ctx = init_key_ctx k kt enc; n = cc_iv_length (ck_init c (take (kt_cipher_length kt) (key_cipher k)) enc) - 4
      in ctx\<lparr>kc_implicit_iv := take (nat n) (key_hmac k) @ drop (nat n) (kc_implicit_iv ctx), kc_implicit_iv_len := n\<rparr>)"

lemma update_implicit_iv_ok:
  assumes "kt_cipher kt = Some c" "0 < kt_cipher_length kt" "length (key_hmac k) = 64"
    and "aead_pair (ck_init c (take (kt_cipher_length kt) (key_cipher k)) True) (ck_init c (take (kt_cipher_length kt) (key_cipher k)) False)"
  shows "key_ctx_update_implicit_iv (init_key_ctx k kt enc) (key_hmac k) 64 = Some (direction_ctx kt c k enc)"
    "implicit_ok (direction_ctx kt c k enc) (ck_init c (take (kt_cipher_length kt) (key_cipher k)) enc)"
    "implicit_iv (direction_ctx kt c k True) = implicit_iv (direction_ctx kt c k False)"
proof -
  let ?ck = "\<lambda>enc. ck_init c (take (kt_cipher_length kt) (key_cipher k)) enc"
  note P = aead_pairD [OF assms(4)]
  have sz: "cc_iv_length (?ck True) \<le> OPENVPN_MAX_IV_LENGTH" using P(5) by (simp add: cipher_sizes_def)
  have m: "cc_mode (?ck enc) = OPENVPN_MODE_AEAD" "cc_iv_length (?ck enc) = cc_iv_length (?ck True)" for enc
    using P(1-3) by (cases enc; simp)+
  have iv: "OPENVPN_AEAD_MIN_IV_LEN \<le> cc_iv_length (?ck enc)" "cc_iv_length (?ck enc) \<le> 16" for enc
    using P(4) sz m(2) [of enc] by (simp_all add: OPENVPN_MAX_IV_LENGTH_def)
  have k: "kc_cipher (init_key_ctx k kt enc) = Some (?ck enc)" for enc using assms(1,2) by (simp add: init_key_ctx_def)
  show "key_ctx_update_implicit_iv (init_key_ctx k kt enc) (key_hmac k) 64 = Some (direction_ctx kt c k enc)"
    using k [of enc] m(1) [of enc] iv [of enc]
    by (simp add: key_ctx_update_implicit_iv_def cipher_kt_mode_aead_def direction_ctx_def Let_def OPENVPN_MAX_IV_LENGTH_def)
  show "implicit_ok (direction_ctx kt c k enc) (?ck enc)"
    using k [of enc] iv [of enc] assms(3)
    by (simp add: implicit_ok_def direction_ctx_def Let_def init_key_ctx_def OPENVPN_MAX_IV_LENGTH_def OPENVPN_AEAD_MIN_IV_LEN_def)
  show "implicit_iv (direction_ctx kt c k True) = implicit_iv (direction_ctx kt c k False)"
    using iv(2) [of True] assms(3) m(2) [of False] by (simp add: implicit_iv_def direction_ctx_def Let_def)
qed

lemma init_key_contexts_ok:
  assumes "kt_cipher kt = Some c" "0 < kt_cipher_length kt" "\<And>k. aead_pair (ck_init c k True) (ck_init c k False)"
    and "length (key_hmac (k2_keys k2 ! 0)) = 64" "length (key_hmac (k2_keys k2 ! 1)) = 64"
  shows "init_key_contexts kt server k2 =
    Some \<lparr>kb_encrypt = direction_ctx kt c (k2_keys k2 ! (if server then 1 else 0)) True,
          kb_decrypt = direction_ctx kt c (k2_keys k2 ! (if server then 0 else 1)) False, kb_initialized = True\<rparr>"
  using update_implicit_iv_ok(1) [OF assms(1,2) assms(4) assms(3)] update_implicit_iv_ok(1) [OF assms(1,2) assms(5) assms(3)]
  by (cases server) (simp_all add: init_key_contexts_def init_key_ctx_bi_def)

lemma direction_ctx_good:
  assumes "kt_cipher kt = Some c" "0 < kt_cipher_length kt" "\<And>k. aead_pair (ck_init c k True) (ck_init c k False)"
    and "length (key_hmac k) = 64"
  shows "aead_good (direction_ctx kt c k True, direction_ctx kt c k False, hdr)"
  using update_implicit_iv_ok(2,3) [OF assms(1,2,4) assms(3)] assms(3) by (auto simp: aead_good_def)

lemma openvpn_prf_keys:
  assumes "\<And>s k n. length (prf s k n) = nat n" and "length sid = 8" "length sid' = 8"
    and "length (kso_random1 (k2s_client k2)) = 32" "length (kso_random1 (k2s_server k2)) = 32"
    and "length (kso_random2 (k2s_client k2)) = 32" "length (kso_random2 (k2s_server k2)) = 32"
  obtains x where "length x = 256"
    "generate_key_expansion_openvpn_prf prf False kt k2 sid sid' =
      Some \<lparr>k2_n = 2, k2_keys = map (\<lambda>k. fixup_key k kt) (key2_of_bytes x)\<rparr>"
    "generate_key_expansion_openvpn_prf prf True kt k2 sid' sid =
      Some \<lparr>k2_n = 2, k2_keys = map (\<lambda>k. fixup_key k kt) (key2_of_bytes x)\<rparr>"
proof -
  obtain m where m: "openvpn_PRF prf (kso_pre_master (k2s_client k2)) ''OpenVPN master secret'' (kso_random1 (k2s_client k2))
      (kso_random1 (k2s_server k2)) None None 48 = Some m"
    using openvpn_PRF_eq [of "''OpenVPN master secret''" "kso_random1 (k2s_client k2)" "kso_random1 (k2s_server k2)" None None] assms
    by (simp add: BUF_SIZE_MAX_def)
  obtain x where "openvpn_PRF prf m ''OpenVPN key expansion'' (kso_random2 (k2s_client k2)) (kso_random2 (k2s_server k2))
      (Some sid) (Some sid') 256 = Some x" "length x = 256"
    using openvpn_PRF_eq [of "''OpenVPN key expansion''" "kso_random2 (k2s_client k2)" "kso_random2 (k2s_server k2)" "Some sid" "Some sid'"]
      assms by (simp add: BUF_SIZE_MAX_def)
  then show ?thesis using m that by (simp add: generate_key_expansion_openvpn_prf_def Let_def)
qed


text \<open>The contexts that the two ends build from the same source material match in both directions.\<close>

lemma generate_key_expansion_pair:
  assumes "kt_cipher kt = Some c" "0 < kt_cipher_length kt" "\<And>k. aead_pair (ck_init c k True) (ck_init c k False)"
    and "\<And>s k n. length (prf s k n) = nat n" and "\<And>x. ekm = Some x \<Longrightarrow> length x = 256"
    and "length sid = 8" "length sid' = 8" and "\<not> kb_initialized bc" "\<not> kb_initialized bs"
    and "length (kso_random1 (k2s_client k2)) = 32" "length (kso_random1 (k2s_server k2)) = 32"
    and "length (kso_random2 (k2s_client k2)) = 32" "length (kso_random2 (k2s_server k2)) = 32"
  shows "\<exists>ok bc' bs'. generate_key_expansion prf ekm bc False flags kt k2 sid sid' = Some (ok, bc') \<and>
    generate_key_expansion prf ekm bs True flags kt k2 sid' sid = Some (ok, bs') \<and>
    (ok \<longrightarrow> (\<forall>hdr. aead_good (kb_encrypt bc', kb_decrypt bs', hdr) \<and> aead_good (kb_encrypt bs', kb_decrypt bc', hdr)))"
proof (cases "flags AND CO_USE_TLS_KEY_MATERIAL_EXPORT \<noteq> 0 \<and> ekm = None")
  case True
  then show ?thesis using assms(8,9) by (auto simp: generate_key_expansion_def)
next
  case False
  obtain x where x: "length x = 256"
    "generate_key_expansion_openvpn_prf prf False kt k2 sid sid' =
      Some \<lparr>k2_n = 2, k2_keys = map (\<lambda>k. fixup_key k kt) (key2_of_bytes x)\<rparr>"
    "generate_key_expansion_openvpn_prf prf True kt k2 sid' sid =
      Some \<lparr>k2_n = 2, k2_keys = map (\<lambda>k. fixup_key k kt) (key2_of_bytes x)\<rparr>"
    by (rule openvpn_prf_keys [where kt = kt, OF assms(4,6,7,10-13)])
  define keys where "keys server = (if flags AND CO_USE_TLS_KEY_MATERIAL_EXPORT \<noteq> 0
      then generate_key_expansion_tls_export ekm
      else generate_key_expansion_openvpn_prf prf server kt k2 (if server then sid' else sid) (if server then sid else sid'))" for server
  obtain k where k: "keys False = Some k" "keys True = Some k"
    "length (key_hmac (k2_keys k ! 0)) = 64" "length (key_hmac (k2_keys k ! 1)) = 64"
  proof (cases "flags AND CO_USE_TLS_KEY_MATERIAL_EXPORT \<noteq> 0")
    case True
    then obtain y where "ekm = Some y" using False by auto
    then show ?thesis using that True assms(5) key2_keys_nth(1) [of y 0] key2_keys_nth(1) [of y 1]
      by (simp add: keys_def generate_key_expansion_tls_export_def)
  next
    case no: False
    then show ?thesis using that x key2_keys_nth(2) [of x 0 kt] key2_keys_nth(2) [of x 1 kt] by (simp add: keys_def)
  qed
  let ?bad = "\<not> check_key (k2_keys k ! 0) kt \<or> \<not> check_key (k2_keys k ! 1) kt"
  let ?bi = "\<lambda>server. \<lparr>kb_encrypt = direction_ctx kt c (k2_keys k ! (if server then 1 else 0)) True,
          kb_decrypt = direction_ctx kt c (k2_keys k ! (if server then 0 else 1)) False, kb_initialized = True\<rparr>"
  have e: "generate_key_expansion prf ekm b server flags kt k2 (if server then sid' else sid) (if server then sid else sid') =
      Some (if ?bad then (False, b) else (True, ?bi server))" if "\<not> kb_initialized b" for b server
  proof -
    have "generate_key_expansion prf ekm b server flags kt k2 (if server then sid' else sid) (if server then sid else sid') =
      do { key2 \<leftarrow> keys server;
           if \<not> check_key (k2_keys key2 ! 0) kt \<or> \<not> check_key (k2_keys key2 ! 1) kt then Some (False, b)
           else do { bi1 \<leftarrow> init_key_contexts kt server key2; Some (True, bi1) } }"
      using that False by (simp only: generate_key_expansion_def keys_def if_False)
    moreover have "keys server = Some k" using k(1,2) by (cases server) simp_all
    ultimately show ?thesis using init_key_contexts_ok [where server = server, OF assms(1-3) k(3,4)] by simp
  qed
  have g: "aead_good (direction_ctx kt c (k2_keys k ! i) True, direction_ctx kt c (k2_keys k ! i) False, hdr)" if "i < 2" for i hdr
    using that k(3,4) direction_ctx_good [OF assms(1-3)] by (auto simp: less_2_cases_iff)
  show ?thesis using e [of bc False] e [of bs True] assms(8,9) g [of 0] g [of 1] by auto
qed

text \<open>
  C39. The key exchange pairs the ends. When the client has written its pre-master secret and its random values, the
  server has read them and answered with its own, both ends hold the same source material; and the keys that each
  of them derives from it, by the PRF of OpenVPN or by the exporter of TLS, are accepted or refused by both alike and,
  when accepted, match: what one end seals the other opens, in both directions, with a key of its own for each.
\<close>

theorem key_exchange_pairs_ends:
  assumes "buf_ok bufc" "buf_content bufc = []" "112 \<le> buf_room bufc" "112 \<le> length rc"
    and "buf_ok bufs" "buf_content bufs = []" "64 \<le> buf_room bufs" "64 \<le> length rs"
    and "kt_cipher kt = Some c" "0 < kt_cipher_length kt" "\<And>k. aead_pair (ck_init c k True) (ck_init c k False)"
    and "\<And>s k n. length (prf s k n) = nat n" and "\<And>x. ekm = Some x \<Longrightarrow> length x = 256"
    and "length sid = 8" "length sid' = 8" and "\<not> kb_initialized bc" "\<not> kb_initialized bs"
  shows "\<exists>k2 ok bc' bs'. key_exchange kc ks bufc bufs rc rs = Some (k2, k2) \<and>
    generate_key_expansion prf ekm bc False flags kt k2 sid sid' = Some (ok, bc') \<and>
    generate_key_expansion prf ekm bs True flags kt k2 sid' sid = Some (ok, bs') \<and>
    (ok \<longrightarrow> (\<forall>hdr. aead_good (kb_encrypt bc', kb_decrypt bs', hdr) \<and> aead_good (kb_encrypt bs', kb_decrypt bc', hdr)))"
proof -
  obtain k2 where k2: "key_exchange kc ks bufc bufs rc rs = Some (k2, k2)"
    "length (kso_random1 (k2s_client k2)) = 32" "length (kso_random1 (k2s_server k2)) = 32"
    "length (kso_random2 (k2s_client k2)) = 32" "length (kso_random2 (k2s_server k2)) = 32"
    using key_exchange_ok [OF assms(1-8), of kc ks] assms(4,8) by (simp add: Let_def)
  from generate_key_expansion_pair [where flags = flags, OF assms(9-17) k2(2-5)]
  show ?thesis by (intro exI [of _ k2]) (simp only: k2(1) simp_thms)
qed

definition demo_kt :: key_type where
  "demo_kt = \<lparr>kt_cipher_length = 16, kt_hmac_length = 0,
     kt_cipher = Some \<lparr>ck_init = (\<lambda>k e. demo_cipher), ck_mode = OPENVPN_MODE_AEAD, ck_key_size = 16, ck_iv_size = 12,
       ck_block_size = 16, ck_des_num_cblocks = 0, ck_des_check = (\<lambda>_. True), ck_des_fixup = (\<lambda>x. x)\<rparr>,
     kt_digest = None\<rparr>"

definition demo_source :: key_source2 where
  "demo_source = \<lparr>k2s_client = key_source_clear, k2s_server = key_source_clear\<rparr>"

definition demo_bi :: key_ctx_bi where
  "demo_bi = \<lparr>kb_encrypt = \<lparr>kc_cipher = None, kc_hmac = None, kc_implicit_iv = replicate 16 0, kc_implicit_iv_len = 0\<rparr>,
     kb_decrypt = \<lparr>kc_cipher = None, kc_hmac = None, kc_implicit_iv = replicate 16 0, kc_implicit_iv_len = 0\<rparr>,
     kb_initialized = False\<rparr>"

definition demo_long_buf :: buffer where
  "demo_long_buf = \<lparr>b_capacity = 200, b_offset = 0, b_len = 0, b_data = Some (replicate 200 0)\<rparr>"

lemma key_exchange_pairs_ends_witness:
  "\<exists>k2 bc' bs'. key_exchange demo_source demo_source demo_long_buf demo_long_buf (replicate 112 7) (replicate 64 8) = Some (k2, k2) \<and>
    generate_key_expansion (\<lambda>s k n. replicate (nat n) 1) None demo_bi False 0 demo_kt k2 (replicate 8 3) (replicate 8 4) = Some (True, bc') \<and>
    generate_key_expansion (\<lambda>s k n. replicate (nat n) 1) None demo_bi True 0 demo_kt k2 (replicate 8 4) (replicate 8 3) = Some (True, bs') \<and>
    aead_good (kb_encrypt bc', kb_decrypt bs', [1]) \<and> aead_good (kb_encrypt bs', kb_decrypt bc', [1])"
proof -
  let ?PRF = "\<lambda>s k n. replicate (nat n) 1 :: bytes"
  have b: "buf_ok demo_long_buf" "buf_content demo_long_buf = []" "buf_room demo_long_buf = 200"
    by (simp_all add: demo_long_buf_def buf_ok_def buf_content_def buf_room_def BUF_SIZE_MAX_def)
  obtain k2 ok bc' bs' where r:
    "key_exchange demo_source demo_source demo_long_buf demo_long_buf (replicate 112 7) (replicate 64 8) = Some (k2, k2)"
    "generate_key_expansion ?PRF None demo_bi False 0 demo_kt k2 (replicate 8 3) (replicate 8 4) = Some (ok, bc')"
    "generate_key_expansion ?PRF None demo_bi True 0 demo_kt k2 (replicate 8 4) (replicate 8 3) = Some (ok, bs')"
    "ok \<longrightarrow> (\<forall>hdr. aead_good (kb_encrypt bc', kb_decrypt bs', hdr) \<and> aead_good (kb_encrypt bs', kb_decrypt bc', hdr))"
    using key_exchange_pairs_ends [of demo_long_buf "replicate 112 7" demo_long_buf "replicate 64 8" demo_kt "the (kt_cipher demo_kt)"
        ?PRF None "replicate 8 3" "replicate 8 4" demo_bi demo_bi demo_source demo_source 0] b demo_pair
    by (auto simp: demo_kt_def demo_bi_def)
  have k: "length (kso_random1 (k2s_client k2)) = 32" "length (kso_random1 (k2s_server k2)) = 32"
    "length (kso_random2 (k2s_client k2)) = 32" "length (kso_random2 (k2s_server k2)) = 32"
    using key_exchange_ok [of demo_long_buf "replicate 112 7" demo_long_buf "replicate 64 8" demo_source demo_source] b r(1)
    by (auto simp: Let_def)
  have m: "openvpn_PRF ?PRF sec lab cs ss None None 48 = Some (replicate 48 1)"
    "openvpn_PRF ?PRF sec lab cs ss (Some (replicate 8 3)) (Some (replicate 8 4)) 256 = Some (replicate 256 1)"
    if "length lab < 100" "length cs = 32" "length ss = 32" for sec lab cs ss
    using that openvpn_PRF_eq [of lab cs ss None None ?PRF sec 48]
      openvpn_PRF_eq [of lab cs ss "Some (replicate 8 3)" "Some (replicate 8 4)" ?PRF sec 256] by (simp_all add: BUF_SIZE_MAX_def)
  have "generate_key_expansion_openvpn_prf ?PRF False demo_kt k2 (replicate 8 3) (replicate 8 4) =
      Some \<lparr>k2_n = 2, k2_keys = map (\<lambda>k. fixup_key k demo_kt) (key2_of_bytes (replicate 256 1))\<rparr>"
    using k by (simp add: generate_key_expansion_openvpn_prf_def Let_def m)
  then have "ok = True" using r(2)
    by (auto simp: generate_key_expansion_def demo_bi_def bind_eq_Some_conv key2_of_bytes_def check_key_def key_is_zero_def
        demo_kt_def fixup_key_def split: if_splits)
  then show ?thesis using r by auto
qed

end
