(* ===== verification/SocketAddr.thy ===== *)
theory SocketAddr
  imports StreamBuf
begin

text \<open>
  Addresses of peers (src: socket.h, socket.c): comparison of socket addresses, the checks on where a packet comes
  from, and the address that packets go to.
\<close>

section \<open>Socket addresses\<close>

datatype sa_family = AF_UNSPEC | AF_INET | AF_INET6

text \<open>
  The union of \<open>sockaddr_in\<close> and \<open>sockaddr_in6\<close>: the port is at the same place in both, \<open>sin_addr\<close> lies over
  \<open>sin6_flowinfo\<close>, and \<open>sin6_addr\<close> lies behind it, whatever the family says. The fields are as on the wire.
\<close>

record openvpn_sockaddr =
  sa_family :: sa_family
  sa_port :: bytes
  sa_in4 :: bytes
  sa_in6 :: bytes

text \<open>The packet information of \<open>link_socket_actual\<close> is only passed on to the system.\<close>

record link_socket_actual =
  lsa_dest :: openvpn_sockaddr

record addrinfo =
  ai_family :: sa_family
  ai_addr :: openvpn_sockaddr

definition CLEAR_actual :: link_socket_actual where
  "CLEAR_actual = \<lparr>lsa_dest = \<lparr>sa_family = AF_UNSPEC, sa_port = [0, 0], sa_in4 = [0, 0, 0, 0], sa_in6 = replicate 16 0\<rparr>\<rparr>"

definition addr_defined :: "openvpn_sockaddr \<Rightarrow> bool" where
  "addr_defined addr =
     (case sa_family addr of
        AF_INET \<Rightarrow> sa_in4 addr \<noteq> [0, 0, 0, 0]
      | AF_INET6 \<Rightarrow> sa_in6 addr \<noteq> replicate 16 0
      | AF_UNSPEC \<Rightarrow> False)"

definition addr_local :: "openvpn_sockaddr \<Rightarrow> bool" where
  "addr_local addr =
     (case sa_family addr of
        AF_INET \<Rightarrow> sa_in4 addr = [127, 0, 0, 1]
      | AF_INET6 \<Rightarrow> sa_in6 addr = replicate 15 0 @ [1]
      | AF_UNSPEC \<Rightarrow> False)"

definition link_socket_actual_defined :: "link_socket_actual option \<Rightarrow> bool" where
  "link_socket_actual_defined act = (case act of None \<Rightarrow> False | Some a \<Rightarrow> addr_defined (lsa_dest a))"

definition addr_match :: "openvpn_sockaddr \<Rightarrow> openvpn_sockaddr \<Rightarrow> bool option" where
  "addr_match a1 a2 =
     (case sa_family a1 of
        AF_INET \<Rightarrow> Some (sa_in4 a1 = sa_in4 a2)
      | AF_INET6 \<Rightarrow> Some (sa_in6 a1 = sa_in6 a2)
      | AF_UNSPEC \<Rightarrow> None)"

primrec addrlist_match :: "openvpn_sockaddr \<Rightarrow> addrinfo list \<Rightarrow> bool option" where
  "addrlist_match a1 [] = Some False"
| "addrlist_match a1 (curele # rest) =
     (case sa_family a1 of
        AF_INET \<Rightarrow> if sa_in4 a1 = sa_in4 (ai_addr curele) then Some True else addrlist_match a1 rest
      | AF_INET6 \<Rightarrow> if sa_in6 a1 = sa_in6 (ai_addr curele) then Some True else addrlist_match a1 rest
      | AF_UNSPEC \<Rightarrow> None)"

definition addr_host :: "openvpn_sockaddr \<Rightarrow> u32" where
  "addr_host addr = (if sa_family addr \<noteq> AF_INET then 0 else bytes_u32 (sa_in4 addr))"

primrec addrlist_port_match :: "openvpn_sockaddr \<Rightarrow> addrinfo list \<Rightarrow> bool option" where
  "addrlist_port_match a1 [] = Some False"
| "addrlist_port_match a1 (curele # rest) =
     (case sa_family a1 of
        AF_INET \<Rightarrow>
          if ai_family curele = AF_INET \<and> sa_in4 a1 = sa_in4 (ai_addr curele) \<and> sa_port a1 = sa_port (ai_addr curele)
          then Some True else addrlist_port_match a1 rest
      | AF_INET6 \<Rightarrow>
          if ai_family curele = AF_INET6 \<and> sa_in6 a1 = sa_in6 (ai_addr curele) \<and> sa_port a1 = sa_port (ai_addr curele)
          then Some True else addrlist_port_match a1 rest
      | AF_UNSPEC \<Rightarrow> None)"

definition addr_port_match :: "openvpn_sockaddr \<Rightarrow> openvpn_sockaddr \<Rightarrow> bool option" where
  "addr_port_match a1 a2 =
     (case sa_family a1 of
        AF_INET \<Rightarrow> Some (sa_in4 a1 = sa_in4 a2 \<and> sa_port a1 = sa_port a2)
      | AF_INET6 \<Rightarrow> Some (sa_in6 a1 = sa_in6 a2 \<and> sa_port a1 = sa_port a2)
      | AF_UNSPEC \<Rightarrow> None)"

definition addr_zero_host :: "openvpn_sockaddr \<Rightarrow> openvpn_sockaddr" where
  "addr_zero_host addr =
     (case sa_family addr of
        AF_INET \<Rightarrow> addr\<lparr>sa_in4 := [0, 0, 0, 0]\<rparr>
      | AF_INET6 \<Rightarrow> addr\<lparr>sa_in6 := replicate 16 0\<rparr>
      | AF_UNSPEC \<Rightarrow> addr)"

definition addr_copy_sa :: "openvpn_sockaddr \<Rightarrow> openvpn_sockaddr \<Rightarrow> openvpn_sockaddr" where
  "addr_copy_sa dst src = src"

definition addr_inet4or6 :: "openvpn_sockaddr \<Rightarrow> bool" where
  "addr_inet4or6 addr \<longleftrightarrow> sa_family addr = AF_INET \<or> sa_family addr = AF_INET6"

definition af_addr_size :: "sa_family \<Rightarrow> int" where
  "af_addr_size af = (case af of AF_INET \<Rightarrow> 16 | AF_INET6 \<Rightarrow> 28 | AF_UNSPEC \<Rightarrow> 0)"

definition link_socket_actual_match :: "link_socket_actual \<Rightarrow> link_socket_actual \<Rightarrow> bool option" where
  "link_socket_actual_match a1 a2 = addr_port_match (lsa_dest a1) (lsa_dest a2)"

section \<open>Protocols\<close>

definition proto_is_net :: "proto_num \<Rightarrow> bool option" where
  "proto_is_net proto = do { ASSERT (proto \<noteq> PROTO_N); Some (proto \<noteq> PROTO_NONE) }"

definition proto_is_udp :: "proto_num \<Rightarrow> bool option" where
  "proto_is_udp proto = do { ASSERT (proto \<noteq> PROTO_N); Some (proto = PROTO_UDP) }"

definition proto_is_dgram :: "proto_num \<Rightarrow> bool option" where
  "proto_is_dgram proto = proto_is_udp proto"

definition proto_is_tcp :: "proto_num \<Rightarrow> bool option" where
  "proto_is_tcp proto = do { ASSERT (proto \<noteq> PROTO_N); Some (proto = PROTO_TCP_CLIENT \<or> proto = PROTO_TCP_SERVER) }"

definition IPv4_UDP_HEADER_SIZE :: int where "IPv4_UDP_HEADER_SIZE = 28"
definition IPv4_TCP_HEADER_SIZE :: int where "IPv4_TCP_HEADER_SIZE = 40"
definition IPv6_UDP_HEADER_SIZE :: int where "IPv6_UDP_HEADER_SIZE = 48"
definition IPv6_TCP_HEADER_SIZE :: int where "IPv6_TCP_HEADER_SIZE = 60"

definition proto_overhead :: "int list" where
  "proto_overhead = [0, IPv4_UDP_HEADER_SIZE, IPv4_TCP_HEADER_SIZE, IPv4_TCP_HEADER_SIZE, IPv6_UDP_HEADER_SIZE,
     IPv6_TCP_HEADER_SIZE, IPv6_TCP_HEADER_SIZE, IPv6_TCP_HEADER_SIZE]"

fun proto_index :: "proto_num \<Rightarrow> nat" where
  "proto_index PROTO_NONE = 0"
| "proto_index PROTO_UDP = 1"
| "proto_index PROTO_TCP = 2"
| "proto_index PROTO_TCP_SERVER = 3"
| "proto_index PROTO_TCP_CLIENT = 4"
| "proto_index PROTO_N = 5"

definition datagram_overhead :: "proto_num \<Rightarrow> int option" where
  "datagram_overhead proto = do { ASSERT (proto \<noteq> PROTO_N); Some (proto_overhead ! proto_index proto) }"

definition link_socket_proto_connection_oriented :: "proto_num \<Rightarrow> bool option" where
  "link_socket_proto_connection_oriented proto = map_option Not (proto_is_dgram proto)"

definition addr_match_proto :: "openvpn_sockaddr \<Rightarrow> openvpn_sockaddr \<Rightarrow> proto_num \<Rightarrow> bool option" where
  "addr_match_proto a1 a2 proto =
     do { c \<leftarrow> link_socket_proto_connection_oriented proto;
          if c then addr_match a1 a2 else addr_port_match a1 a2 }"

definition addrlist_match_proto :: "openvpn_sockaddr \<Rightarrow> addrinfo list \<Rightarrow> proto_num \<Rightarrow> bool option" where
  "addrlist_match_proto a1 addr_list proto =
     do { c \<leftarrow> link_socket_proto_connection_oriented proto;
          if c then addrlist_match a1 addr_list else addrlist_port_match a1 addr_list }"

section \<open>The peer of a link\<close>

record link_socket_addr =
  la_remote_list :: "addrinfo list"
  la_current_remote :: "addrinfo option"
  la_actual :: link_socket_actual

record link_socket_info =
  li_lsa :: link_socket_addr
  li_connection_established :: bool
  li_remote_float :: bool
  li_proto :: proto_num

text \<open>May a packet from this address be looked at?\<close>

definition link_socket_verify_incoming_addr :: "buffer \<Rightarrow> link_socket_info \<Rightarrow> link_socket_actual \<Rightarrow> bool option" where
  "link_socket_verify_incoming_addr buf info from_addr =
     (if b_len buf > 0 \<and> sa_family (lsa_dest from_addr) \<in> {AF_INET6, AF_INET}
      then if \<not> link_socket_actual_defined (Some from_addr) then Some False
           else if li_remote_float info \<or> la_remote_list (li_lsa info) = [] then Some True
           else addrlist_match_proto (lsa_dest from_addr) (la_remote_list (li_lsa info)) (li_proto info)
      else Some False)"

definition link_socket_get_outgoing_addr ::
  "buffer \<Rightarrow> link_socket_info \<Rightarrow> link_socket_actual option \<Rightarrow> buffer \<times> link_socket_actual option" where
  "link_socket_get_outgoing_addr buf info act =
     (if b_len buf > 0
      then if link_socket_actual_defined (Some (la_actual (li_lsa info))) then (buf, Some (la_actual (li_lsa info)))
           else (buf\<lparr>b_len := 0\<rparr>, None)
      else (buf, act))"

text \<open>The scripts and plugins that are told of the new address are left out.\<close>

definition link_socket_connection_initiated :: "link_socket_info \<Rightarrow> link_socket_actual \<Rightarrow> link_socket_info" where
  "link_socket_connection_initiated info act =
     info\<lparr>li_lsa := (li_lsa info)\<lparr>la_actual := act\<rparr>, li_connection_established := True\<rparr>"

definition link_socket_set_outgoing_addr :: "link_socket_info \<Rightarrow> link_socket_actual \<Rightarrow> link_socket_info option" where
  "link_socket_set_outgoing_addr info act =
     do { changed \<leftarrow> (if \<not> li_connection_established info then Some True
                     else map_option Not (addr_match_proto (lsa_dest act) (lsa_dest (la_actual (li_lsa info))) (li_proto info)));
          if \<not> changed then Some info
          else do {
            ours \<leftarrow> (if li_remote_float info \<or> la_remote_list (li_lsa info) = [] then Some True
                    else addrlist_match_proto (lsa_dest act) (la_remote_list (li_lsa info)) (li_proto info));
            Some (if ours then link_socket_connection_initiated info act else info) } }"

definition link_socket_bad_incoming_addr :: "buffer \<Rightarrow> buffer" where
  "link_socket_bad_incoming_addr buf = buf\<lparr>b_len := 0\<rparr>"

definition IPV4_INVALID_ADDR :: u32 where "IPV4_INVALID_ADDR = 0xffffffff"

definition link_socket_current_remote :: "link_socket_info \<Rightarrow> u32" where
  "link_socket_current_remote info =
     (let lsa = li_lsa info
      in if sa_family (lsa_dest (la_actual lsa)) \<noteq> AF_INET then IPV4_INVALID_ADDR
         else if link_socket_actual_defined (Some (la_actual lsa)) then bytes_u32 (sa_in4 (lsa_dest (la_actual lsa)))
         else case la_current_remote lsa of Some r \<Rightarrow> bytes_u32 (sa_in4 (ai_addr r)) | None \<Rightarrow> 0)"

definition link_socket_current_remote_ipv6 :: "link_socket_info \<Rightarrow> bytes option" where
  "link_socket_current_remote_ipv6 info =
     (let lsa = li_lsa info
      in if sa_family (lsa_dest (la_actual lsa)) \<noteq> AF_INET6 then None
         else if link_socket_actual_defined (Some (la_actual lsa)) then Some (sa_in6 (lsa_dest (la_actual lsa)))
         else map_option (\<lambda>r. sa_in6 (ai_addr r)) (la_current_remote lsa))"

section \<open>Facts\<close>

lemma actual_defined_family: "link_socket_actual_defined (Some a) \<Longrightarrow> sa_family (lsa_dest a) \<noteq> AF_UNSPEC"
  by (auto simp: link_socket_actual_defined_def addr_defined_def)

lemma actual_match_Some: "sa_family (lsa_dest a) \<noteq> AF_UNSPEC \<Longrightarrow> \<exists>r. link_socket_actual_match a b = Some r"
  by (auto simp: link_socket_actual_match_def addr_port_match_def split: sa_family.splits)

lemma actual_match_refl [simp]: "sa_family (lsa_dest a) \<noteq> AF_UNSPEC \<Longrightarrow> link_socket_actual_match a a = Some True"
  by (auto simp: link_socket_actual_match_def addr_port_match_def split: sa_family.splits)

lemma CLEAR_actual_undefined [simp]: "\<not> link_socket_actual_defined (Some CLEAR_actual)"
  by (simp add: link_socket_actual_defined_def addr_defined_def CLEAR_actual_def)

text \<open>A packet passes the check on its sender only if that is one of the addresses of the configuration, unless any is allowed.\<close>

lemma addrlist_port_match_iff:
  "addrlist_port_match a l = Some True \<Longrightarrow>
     \<exists>x \<in> set l. sa_family a = ai_family x \<and> sa_port a = sa_port (ai_addr x) \<and>
       (sa_family a = AF_INET \<and> sa_in4 a = sa_in4 (ai_addr x) \<or> sa_family a = AF_INET6 \<and> sa_in6 a = sa_in6 (ai_addr x))"
  by (induction l) (auto split: sa_family.splits if_splits)

end
