(* ===== verification/TlsState.thy ===== *)
theory TlsState
  imports KeyExchange TlsCrypt ReliableChannel SocketAddr
begin

text \<open>
  The state of a TLS session (src: ssl_common.h, and the life cycle of \<open>key_state\<close>, \<open>tls_session\<close> and \<open>tls_multi\<close> in
  ssl.c): a session has a primary key state and a retiring one, the tunnel has an active session, an untrusted one that
  may take its place, and the remains of an old one.
\<close>

section \<open>The TLS object\<close>

text \<open>
  The TLS library keeps its own state \<open>'ssl\<close>. The program talks to it through three streams: plaintext, ciphertext
  in and ciphertext out. \<open>to_bio_write\<close> gives the answer of \<open>BIO_write\<close>, \<open>BIO_should_retry\<close> and the new state;
  \<open>to_bio_read\<close> that of \<open>BIO_read\<close> with the octets read.
\<close>

datatype bio = ssl_bio | ct_in | ct_out

record 'ssl tls_object =
  to_new :: "bool \<Rightarrow> 'ssl"
  to_bio_write :: "bio \<Rightarrow> bytes \<Rightarrow> 'ssl \<Rightarrow> int \<times> bool \<times> 'ssl"
  to_bio_read :: "bio \<Rightarrow> int \<Rightarrow> 'ssl \<Rightarrow> int \<times> bytes \<times> bool \<times> 'ssl"

definition bio_write :: "'ssl tls_object \<Rightarrow> bio \<Rightarrow> bytes \<Rightarrow> 'ssl \<Rightarrow> int \<times> 'ssl" where
  "bio_write tls bio data s =
     (if data = [] then (0, s)
      else let (i, retry, s') = to_bio_write tls bio data s
           in (if i < 0 then (if retry then 0 else - 1) else if i \<noteq> int (length data) then - 1 else 1, s'))"

definition bio_write_post :: "int \<Rightarrow> buffer \<Rightarrow> buffer option" where
  "bio_write_post status buf =
     (if status = 1
      then do { p \<leftarrow> buf_bptr buf;
                b \<leftarrow> buf_store buf p (replicate (nat (buf_len buf)) 0);
                Some (b\<lparr>b_len := 0\<rparr>) }
      else Some buf)"

definition bio_read :: "'ssl tls_object \<Rightarrow> bio \<Rightarrow> buffer \<Rightarrow> int \<Rightarrow> 'ssl \<Rightarrow> (int \<times> buffer \<times> 'ssl) option" where
  "bio_read tls bio buf maxlen s =
     do { ASSERT (b_len buf \<ge> 0);
          if b_len buf \<noteq> 0 then Some (0, buf, s)
          else do {
            let len = (if maxlen < buf_forward_capacity buf then maxlen else buf_forward_capacity buf);
            let (i, data, retry, s') = to_bio_read tls bio len s;
            if i < 0 then Some (if retry then (0, buf, s') else (- 1, buf\<lparr>b_len := 0\<rparr>, s'))
            else if i = 0 then Some (0, buf\<lparr>b_len := 0\<rparr>, s')
            else do { p \<leftarrow> buf_bptr buf;
                      b \<leftarrow> buf_store buf p data;
                      Some (1, b\<lparr>b_len := i\<rparr>, s') } } }"

definition key_state_write_plaintext :: "'ssl tls_object \<Rightarrow> 'ssl \<Rightarrow> buffer \<Rightarrow> (int \<times> buffer \<times> 'ssl) option" where
  "key_state_write_plaintext tls s buf =
     do { data \<leftarrow> buf_bytes buf;
          let (ret, s') = bio_write tls ssl_bio data s;
          b \<leftarrow> bio_write_post ret buf;
          Some (ret, b, s') }"

definition key_state_write_plaintext_const :: "'ssl tls_object \<Rightarrow> 'ssl \<Rightarrow> bytes \<Rightarrow> int \<times> 'ssl" where
  "key_state_write_plaintext_const tls s data = bio_write tls ssl_bio data s"

definition key_state_read_ciphertext :: "'ssl tls_object \<Rightarrow> 'ssl \<Rightarrow> buffer \<Rightarrow> int \<Rightarrow> (int \<times> buffer \<times> 'ssl) option" where
  "key_state_read_ciphertext tls s buf maxlen = bio_read tls ct_out buf maxlen s"

definition key_state_write_ciphertext :: "'ssl tls_object \<Rightarrow> 'ssl \<Rightarrow> buffer \<Rightarrow> (int \<times> buffer \<times> 'ssl) option" where
  "key_state_write_ciphertext tls s buf =
     do { data \<leftarrow> buf_bytes buf;
          let (ret, s') = bio_write tls ct_in data s;
          b \<leftarrow> bio_write_post ret buf;
          Some (ret, b, s') }"

definition key_state_read_plaintext :: "'ssl tls_object \<Rightarrow> 'ssl \<Rightarrow> buffer \<Rightarrow> int \<Rightarrow> (int \<times> buffer \<times> 'ssl) option" where
  "key_state_read_plaintext tls s buf maxlen = bio_read tls ssl_bio buf maxlen s"

section \<open>States\<close>

definition S_ERROR :: int where "S_ERROR = - 1"
definition S_UNDEF :: int where "S_UNDEF = 0"
definition S_INITIAL :: int where "S_INITIAL = 1"
definition S_PRE_START :: int where "S_PRE_START = 2"
definition S_START :: int where "S_START = 3"
definition S_SENT_KEY :: int where "S_SENT_KEY = 4"
definition S_GOT_KEY :: int where "S_GOT_KEY = 5"
definition S_ACTIVE :: int where "S_ACTIVE = 6"

lemmas state_defs = S_ERROR_def S_UNDEF_def S_INITIAL_def S_PRE_START_def S_START_def S_SENT_KEY_def S_GOT_KEY_def S_ACTIVE_def

datatype ks_auth_state = KS_AUTH_FALSE | KS_AUTH_DEFERRED | KS_AUTH_TRUE

text \<open>\<open>ks_initialized\<close> is \<open>crypto_options.key_ctx_bi.initialized\<close>; a pointer to allocated memory is an option.\<close>

record 'ssl key_state =
  ks_state :: int
  ks_key_id :: int
  ks_ssl :: "'ssl option"
  ks_established :: int
  ks_must_negotiate :: int
  ks_must_die :: int
  ks_initial_opcode :: int
  ks_session_id_remote :: session_id
  ks_remote_addr :: link_socket_actual
  ks_crypto :: crypto_options
  ks_initialized :: bool
  ks_key_src :: "key_source2 option"
  ks_plaintext_read_buf :: buffer
  ks_plaintext_write_buf :: buffer
  ks_ack_write_buf :: buffer
  ks_send_reliable :: "reliable option"
  ks_rec_reliable :: "reliable option"
  ks_rec_ack :: "reliable_ack option"
  ks_paybuf :: "bytes list option"
  ks_n_bytes :: u64
  ks_n_packets :: u64
  ks_authenticated :: ks_auth_state
  ks_auth_deferred_expire :: int

record tls_options =
  o_server :: bool
  o_xmit_hold :: bool
  o_replay :: bool
  o_single_session :: bool
  o_pull :: bool
  o_mode_server :: bool
  o_transition_window :: int
  o_handshake_window :: int
  o_packet_timeout :: int
  o_renegotiate_bytes :: int
  o_renegotiate_packets :: int
  o_renegotiate_seconds :: int
  o_crypto_flags :: u32
  o_key_type :: key_type
  o_replay_window :: int
  o_replay_time :: int
  o_config_ciphername :: bytes
  o_tls_crypt_v2 :: bool
  o_tls_wrap :: tls_wrap_ctx
  o_frame :: frame
  o_local_options :: bytes
  o_remote_options :: bytes
  o_disable_occ :: bool
  o_ssl_flags :: u32
  o_gremlin :: int

record 'ssl tls_session =
  se_burst :: bool
  se_tls_wrap :: tls_wrap_ctx
  se_initial_opcode :: int
  se_session_id :: session_id
  se_key_id :: int
  se_untrusted_addr :: link_socket_actual
  se_primary :: "'ssl key_state"
  se_lame :: "'ssl key_state"

text \<open>\<open>key[KS_PRIMARY]\<close> and \<open>key[KS_LAME_DUCK]\<close> are fields; \<open>save_ks\<close> points into \<open>key_scan\<close>.\<close>

record 'ssl tls_multi =
  tm_opt :: tls_options
  tm_save_ks :: "nat option"
  tm_to_link_addr :: link_socket_actual
  tm_n_sessions :: int
  tm_n_hard_errors :: int
  tm_n_soft_errors :: int
  tm_peer_id :: u32
  tm_use_peer_id :: bool
  tm_tas_last :: int
  tm_peer_info :: "bytes option"
  tm_remote_ciphername :: "bytes option"
  tm_session :: "'ssl tls_session list"

definition TM_ACTIVE :: nat where "TM_ACTIVE = 0"
definition TM_UNTRUSTED :: nat where "TM_UNTRUSTED = 1"
definition TM_LAME_DUCK :: nat where "TM_LAME_DUCK = 2"
definition TM_SIZE :: nat where "TM_SIZE = 3"
definition KEY_SCAN_SIZE :: nat where "KEY_SCAN_SIZE = 3"

lemmas tm_defs = TM_ACTIVE_def TM_UNTRUSTED_def TM_LAME_DUCK_def TM_SIZE_def KEY_SCAN_SIZE_def

text \<open>The octets of a cleared structure.\<close>

definition CLEAR_packet_id :: packet_id where
  "CLEAR_packet_id = \<lparr>p_send = \<lparr>s_id = 0, s_time = 0\<rparr>,
     p_rec = \<lparr>r_last_reap = 0, r_time = 0, r_id = 0, r_seq_backtrack = 0, r_time_backtrack = 0, r_max_backtrack_stat = 0,
              r_initialized = False, r_seq_list = None, r_name = '''', r_unit = 0\<rparr>\<rparr>"

definition CLEAR_key_ctx :: key_ctx where
  "CLEAR_key_ctx = \<lparr>kc_cipher = None, kc_hmac = None, kc_implicit_iv = replicate 16 0, kc_implicit_iv_len = 0\<rparr>"

definition CLEAR_crypto_options :: crypto_options where
  "CLEAR_crypto_options = \<lparr>co_encrypt = CLEAR_key_ctx, co_decrypt = CLEAR_key_ctx, co_packet_id = CLEAR_packet_id,
     co_pid_persist = None, co_flags = 0\<rparr>"

definition CLEAR_tls_wrap :: tls_wrap_ctx where
  "CLEAR_tls_wrap = \<lparr>tw_mode = TLS_WRAP_NONE, tw_opt = CLEAR_crypto_options, tw_work = clear_buf,
     tw_tls_crypt_v2_server_key = CLEAR_key_ctx, tw_tls_crypt_v2_wkc = None, tw_tls_crypt_v2_metadata = clear_buf,
     tw_cleanup_key_ctx = False\<rparr>"

definition CLEAR_key_state :: "'ssl key_state" where
  "CLEAR_key_state = \<lparr>ks_state = S_UNDEF, ks_key_id = 0, ks_ssl = None, ks_established = 0, ks_must_negotiate = 0,
     ks_must_die = 0, ks_initial_opcode = 0, ks_session_id_remote = x_session_id_zero, ks_remote_addr = CLEAR_actual,
     ks_crypto = CLEAR_crypto_options, ks_initialized = False, ks_key_src = None, ks_plaintext_read_buf = clear_buf,
     ks_plaintext_write_buf = clear_buf, ks_ack_write_buf = clear_buf, ks_send_reliable = None, ks_rec_reliable = None,
     ks_rec_ack = None, ks_paybuf = None, ks_n_bytes = 0, ks_n_packets = 0, ks_authenticated = KS_AUTH_FALSE,
     ks_auth_deferred_expire = 0\<rparr>"

definition CLEAR_tls_session :: "'ssl tls_session" where
  "CLEAR_tls_session = \<lparr>se_burst = False, se_tls_wrap = CLEAR_tls_wrap, se_initial_opcode = 0,
     se_session_id = x_session_id_zero, se_key_id = 0, se_untrusted_addr = CLEAR_actual,
     se_primary = CLEAR_key_state, se_lame = CLEAR_key_state\<rparr>"

section \<open>Key states\<close>

definition TLS_CHANNEL_BUF_SIZE :: int where "TLS_CHANNEL_BUF_SIZE = 2048"

text \<open>Allocated and cleared: no acknowledgement, no entry, all keys zero.\<close>

definition ack_clear :: reliable_ack where
  "ack_clear = \<lparr>a_len = 0, a_packet_id = replicate (nat RELIABLE_ACK_SIZE) 0\<rparr>"

text \<open>The result is the session, whose counters change, with the key state that was initialised.\<close>

definition key_state_init ::
  "'ssl tls_object \<Rightarrow> tls_options \<Rightarrow> 'ssl tls_session \<Rightarrow> ('ssl tls_session \<times> 'ssl key_state) option" where
  "key_state_init tls opt session =
     do { let key_id = se_key_id session;
          let next0 = (key_id + 1) AND 7;
          let next = (if next0 = 0 then 1 else next0);
          rd \<leftarrow> alloc_buf TLS_CHANNEL_BUF_SIZE;
          wr \<leftarrow> alloc_buf TLS_CHANNEL_BUF_SIZE;
          ak \<leftarrow> alloc_buf (BUF_SIZE (o_frame opt));
          snd \<leftarrow> reliable_init (BUF_SIZE (o_frame opt)) (FRAME_HEADROOM (o_frame opt)) TLS_RELIABLE_N_SEND_BUFFERS
                  (if key_id \<noteq> 0 then False else o_xmit_hold opt);
          rec \<leftarrow> reliable_init (BUF_SIZE (o_frame opt)) (FRAME_HEADROOM (o_frame opt)) TLS_RELIABLE_N_REC_BUFFERS False;
          pid \<leftarrow> (if o_replay opt then packet_id_init (o_replay_window opt) (o_replay_time opt) ''SSL'' key_id
                 else Some CLEAR_packet_id);
          Some (session\<lparr>se_initial_opcode := P_CONTROL_SOFT_RESET_V1, se_key_id := next\<rparr>,
                CLEAR_key_state\<lparr>ks_ssl := Some (to_new tls (o_server opt)),
                  ks_initial_opcode := se_initial_opcode session, ks_state := S_INITIAL, ks_key_id := key_id,
                  ks_key_src := Some \<lparr>k2s_client = key_source_clear, k2s_server = key_source_clear\<rparr>,
                  ks_rec_ack := Some ack_clear, ks_plaintext_read_buf := rd, ks_plaintext_write_buf := wr,
                  ks_ack_write_buf := ak, ks_send_reliable := Some (reliable_set_timeout snd (o_packet_timeout opt)),
                  ks_rec_reliable := Some rec,
                  ks_crypto := CLEAR_crypto_options\<lparr>co_packet_id := pid, co_pid_persist := None\<rparr>\<rparr>) }"

definition packet_id_free :: "packet_id \<Rightarrow> packet_id" where
  "packet_id_free p = CLEAR_packet_id"

text \<open>
  Freed memory is not used again: every caller overwrites the key state or clears it, so the pointers that the code
  leaves dangling are \<open>None\<close> here.
\<close>

definition key_state_free :: "'ssl key_state \<Rightarrow> bool \<Rightarrow> 'ssl key_state" where
  "key_state_free ks clear =
     (if clear then CLEAR_key_state
      else ks\<lparr>ks_state := S_UNDEF, ks_ssl := None,
              ks_crypto := (ks_crypto ks)\<lparr>co_encrypt := free_key_ctx (co_encrypt (ks_crypto ks)),
                             co_decrypt := free_key_ctx (co_decrypt (ks_crypto ks)),
                             co_packet_id := packet_id_free (co_packet_id (ks_crypto ks))\<rparr>,
              ks_plaintext_read_buf := free_buf (ks_plaintext_read_buf ks),
              ks_plaintext_write_buf := free_buf (ks_plaintext_write_buf ks),
              ks_ack_write_buf := free_buf (ks_ack_write_buf ks), ks_paybuf := None,
              ks_send_reliable := None, ks_rec_reliable := None, ks_rec_ack := None, ks_key_src := None\<rparr>)"

definition key_state_soft_reset ::
  "'ssl tls_object \<Rightarrow> tls_options \<Rightarrow> int \<Rightarrow> 'ssl tls_session \<Rightarrow> 'ssl tls_session option" where
  "key_state_soft_reset tls opt now session =
     do { let ks = (se_primary session)\<lparr>ks_must_die := now + o_transition_window opt\<rparr>;
          (session1, ks1) \<leftarrow> key_state_init tls opt session;
          Some (session1\<lparr>se_lame := ks,
                 se_primary := ks1\<lparr>ks_session_id_remote := ks_session_id_remote ks,
                                   ks_remote_addr := ks_remote_addr ks\<rparr>\<rparr>) }"

section \<open>Sessions\<close>

text \<open>\<open>ids\<close> holds the values that \<open>session_id_random\<close> will draw; zero is drawn again.\<close>

fun session_id_draw :: "session_id list \<Rightarrow> (session_id \<times> session_id list) option" where
  "session_id_draw [] = None"
| "session_id_draw (x # ids) = (if session_id_defined x then Some (x, ids) else session_id_draw ids)"

definition tls_wrap_free :: "tls_wrap_ctx \<Rightarrow> tls_wrap_ctx" where
  "tls_wrap_free w =
     (let o1 = (tw_opt w)\<lparr>co_packet_id := (if packet_id_initialized (co_packet_id (tw_opt w))
                                           then packet_id_free (co_packet_id (tw_opt w)) else co_packet_id (tw_opt w))\<rparr>;
          o2 = (if tw_cleanup_key_ctx w
                then o1\<lparr>co_encrypt := free_key_ctx (co_encrypt o1), co_decrypt := free_key_ctx (co_decrypt o1)\<rparr> else o1)
      in w\<lparr>tw_opt := o2, tw_tls_crypt_v2_metadata := free_buf (tw_tls_crypt_v2_metadata w), tw_work := free_buf (tw_work w)\<rparr>)"

definition tls_session_init ::
  "'ssl tls_object \<Rightarrow> tls_options \<Rightarrow> session_id list \<Rightarrow> ('ssl tls_session \<times> session_id list) option" where
  "tls_session_init tls opt ids =
     do { (sid, ids1) \<leftarrow> session_id_draw ids;
          work \<leftarrow> alloc_buf (BUF_SIZE (o_frame opt));
          pid \<leftarrow> packet_id_init (o_replay_window opt) (o_replay_time opt) ''TLS_WRAP'' 0;
          let wopt = tw_opt (o_tls_wrap opt);
          let pid1 = (case co_pid_persist wopt of None \<Rightarrow> pid
                      | Some p \<Rightarrow> pid\<lparr>p_rec := packet_id_persist_load_obj p (p_rec pid)\<rparr>);
          let session = CLEAR_tls_session\<lparr>se_session_id := sid,
                se_initial_opcode := (if o_server opt then P_CONTROL_HARD_RESET_SERVER_V2
                                      else if o_tls_crypt_v2 opt then P_CONTROL_HARD_RESET_CLIENT_V3
                                      else P_CONTROL_HARD_RESET_CLIENT_V2),
                se_tls_wrap := (o_tls_wrap opt)\<lparr>tw_work := work, tw_opt := wopt\<lparr>co_packet_id := pid1\<rparr>\<rparr>\<rparr>;
          (session1, ks) \<leftarrow> key_state_init tls opt session;
          Some (session1\<lparr>se_primary := ks\<rparr>, ids1) }"

definition tls_session_free :: "'ssl tls_session \<Rightarrow> bool \<Rightarrow> 'ssl tls_session" where
  "tls_session_free session clear =
     (if clear then CLEAR_tls_session
      else session\<lparr>se_tls_wrap := tls_wrap_free (se_tls_wrap session),
                   se_primary := key_state_free (se_primary session) False,
                   se_lame := key_state_free (se_lame session) False\<rparr>)"

definition move_session ::
  "'ssl tls_object \<Rightarrow> 'ssl tls_multi \<Rightarrow> nat \<Rightarrow> nat \<Rightarrow> bool \<Rightarrow> session_id list \<Rightarrow> ('ssl tls_multi \<times> session_id list) option" where
  "move_session tls multi dest src reinit_src ids =
     do { ASSERT (src \<noteq> dest);
          ASSERT (src < TM_SIZE);
          ASSERT (dest < TM_SIZE);
          let s1 = (tm_session multi)[dest := tm_session multi ! src];
          (new, ids1) \<leftarrow> (if reinit_src then tls_session_init tls (tm_opt multi) ids else Some (CLEAR_tls_session, ids));
          Some (multi\<lparr>tm_session := s1[src := new]\<rparr>, ids1) }"

definition reset_session ::
  "'ssl tls_object \<Rightarrow> 'ssl tls_multi \<Rightarrow> nat \<Rightarrow> session_id list \<Rightarrow> ('ssl tls_multi \<times> session_id list) option" where
  "reset_session tls multi i ids =
     do { (new, ids1) \<leftarrow> tls_session_init tls (tm_opt multi) ids;
          Some (multi\<lparr>tm_session := (tm_session multi)[i := new]\<rparr>, ids1) }"

definition compute_earliest_wakeup :: "int \<Rightarrow> int \<Rightarrow> int" where
  "compute_earliest_wakeup earliest seconds_from_now =
     (let e = (if seconds_from_now < earliest then seconds_from_now else earliest) in if e < 0 then 0 else e)"

text \<open>The answer and the wakeup.\<close>

definition lame_duck_must_die :: "'ssl tls_session \<Rightarrow> int \<Rightarrow> int \<Rightarrow> (bool \<times> int) option" where
  "lame_duck_must_die session wakeup now =
     (let lame = se_lame session
      in if ks_state lame \<ge> S_INITIAL
         then do { ASSERT (ks_must_die lame \<noteq> 0);
                   if now < ks_must_die lame
                   then Some (False, compute_earliest_wakeup wakeup (ks_must_die lame - now))
                   else Some (True, wakeup) }
         else if ks_state lame = S_ERROR then Some (True, wakeup)
         else Some (False, wakeup))"

section \<open>The tunnel\<close>

definition tls_adjust_frame_parameters :: "frame \<Rightarrow> frame" where
  "tls_adjust_frame_parameters frame = frame_add_to_extra_frame frame 1"

definition reliable_ack_adjust_frame_parameters :: "frame \<Rightarrow> int \<Rightarrow> frame" where
  "reliable_ack_adjust_frame_parameters frame mx = frame_add_to_extra_frame frame (ACK_SIZE mx)"

definition tls_init_control_channel_frame_parameters :: "frame \<Rightarrow> frame \<Rightarrow> frame option" where
  "tls_init_control_channel_frame_parameters data_channel_frame frame =
     do { let f1 = frame\<lparr>link_mtu := link_mtu data_channel_frame, extra_link := extra_link data_channel_frame\<rparr>;
          let f2 = reliable_ack_adjust_frame_parameters (tls_adjust_frame_parameters f1) CONTROL_SEND_ACK_MAX;
          let f3 = frame_add_to_extra_frame f2 (SID_SIZE + 4);
          ASSERT (TUN_LINK_DELTA f3 < min_int (link_mtu f3) 1250);
          Some (f3\<lparr>link_mtu_dynamic := min_int (link_mtu f3) 1250 - TUN_LINK_DELTA f3\<rparr>) }"

definition tls_multi_init :: "tls_options \<Rightarrow> 'ssl tls_multi" where
  "tls_multi_init opt =
     \<lparr>tm_opt = opt, tm_save_ks = None, tm_to_link_addr = CLEAR_actual, tm_n_sessions = 0, tm_n_hard_errors = 0,
      tm_n_soft_errors = 0, tm_peer_id = 0, tm_use_peer_id = False, tm_tas_last = 0,
      tm_peer_info = None, tm_remote_ciphername = None, tm_session = replicate 3 CLEAR_tls_session\<rparr>"

definition tls_multi_init_finalize ::
  "'ssl tls_object \<Rightarrow> 'ssl tls_multi \<Rightarrow> frame \<Rightarrow> session_id list \<Rightarrow> ('ssl tls_multi \<times> session_id list) option" where
  "tls_multi_init_finalize tls multi frame ids =
     do { f \<leftarrow> tls_init_control_channel_frame_parameters frame (o_frame (tm_opt multi));
          let opt = (tm_opt multi)\<lparr>o_frame := f\<rparr>;
          (s0, ids0) \<leftarrow> tls_session_init tls opt ids;
          let m0 = multi\<lparr>tm_opt := opt, tm_session := (tm_session multi)[TM_ACTIVE := s0]\<rparr>;
          if o_single_session opt then Some (m0, ids0)
          else do { (s1, ids1) \<leftarrow> tls_session_init tls opt ids0;
                    Some (m0\<lparr>tm_session := (tm_session m0)[TM_UNTRUSTED := s1]\<rparr>, ids1) } }"

text \<open>The keys in the order in which the data channel looks at them, and a change of one of them.\<close>

definition key_scan :: "'ssl tls_multi \<Rightarrow> nat \<Rightarrow> 'ssl key_state" where
  "key_scan multi i =
     (if i = 0 then se_primary (tm_session multi ! TM_ACTIVE)
      else if i = 1 then se_lame (tm_session multi ! TM_ACTIVE)
      else se_lame (tm_session multi ! TM_LAME_DUCK))"

definition key_scan_update :: "'ssl tls_multi \<Rightarrow> nat \<Rightarrow> 'ssl key_state \<Rightarrow> 'ssl tls_multi" where
  "key_scan_update multi i ks =
     (let s = tm_session multi
      in multi\<lparr>tm_session :=
           (if i = 0 then s[TM_ACTIVE := (s ! TM_ACTIVE)\<lparr>se_primary := ks\<rparr>]
            else if i = 1 then s[TM_ACTIVE := (s ! TM_ACTIVE)\<lparr>se_lame := ks\<rparr>]
            else s[TM_LAME_DUCK := (s ! TM_LAME_DUCK)\<lparr>se_lame := ks\<rparr>])\<rparr>)"

definition DECRYPT_KEY_ENABLED :: "'ssl tls_multi \<Rightarrow> 'ssl key_state \<Rightarrow> bool" where
  "DECRYPT_KEY_ENABLED multi ks \<longleftrightarrow> ks_state ks \<ge> S_GOT_KEY - (if o_server (tm_opt multi) then 1 else 0)"

definition tls_update_remote_addr :: "'ssl tls_multi \<Rightarrow> link_socket_actual \<Rightarrow> 'ssl tls_multi option" where
  "tls_update_remote_addr multi addr =
     do { let upd = (\<lambda>ks. if \<not> link_socket_actual_defined (Some (ks_remote_addr ks)) then Some ks
                        else do { same \<leftarrow> link_socket_actual_match addr (ks_remote_addr ks);
                                  Some (if same then ks else ks\<lparr>ks_remote_addr := addr\<rparr>) });
          let upd_session = (\<lambda>s. do { p \<leftarrow> upd (se_primary s); l \<leftarrow> upd (se_lame s);
                                    Some (s\<lparr>se_primary := p, se_lame := l\<rparr>) });
          s0 \<leftarrow> upd_session (tm_session multi ! 0);
          s1 \<leftarrow> upd_session (tm_session multi ! 1);
          s2 \<leftarrow> upd_session (tm_session multi ! 2);
          Some (multi\<lparr>tm_session := [s0, s1, s2]\<rparr>) }"

end
