(* ===== verification/KeyMethod.thy ===== *)
theory KeyMethod
  imports TlsState
begin

text \<open>
  Key method 2 (src: ssl.c, with options.c and ssl_verify.c): the message in which each end sends its random
  material, its options, the credentials and information on itself through the TLS connection, and the generation of the
  data channel keys that follows.
\<close>

section \<open>Strings in a buffer\<close>

text \<open>A C string is the list of its octets before the terminating zero.\<close>

definition c_string :: "bytes \<Rightarrow> bytes" where
  "c_string xs = takeWhile (\<lambda>x. x \<noteq> 0) xs"

definition write_empty_string :: "buffer \<Rightarrow> (bool \<times> buffer) option" where
  "write_empty_string buf = buf_write_u16 buf 0"

definition write_string :: "buffer \<Rightarrow> bytes \<Rightarrow> int \<Rightarrow> (bool \<times> buffer) option" where
  "write_string buf str maxlen =
     (let len = int (length str) + 1
      in if len < 1 \<or> maxlen \<ge> 0 \<and> len > maxlen then Some (False, buf)
         else do { (ok1, b1) \<leftarrow> buf_write_u16 buf len;
                   if \<not> ok1 then Some (False, b1)
                   else buf_write b1 (str @ [0]) })"

text \<open>The string read, if any; its last octet is overwritten by a zero.\<close>

definition read_string :: "buffer \<Rightarrow> int \<Rightarrow> (bytes option \<times> buffer) option" where
  "read_string buf capacity =
     do { (len, b1) \<leftarrow> buf_read_u16 buf;
          if len < 1 \<or> len > capacity then Some (None, b1)
          else do { (r, b2) \<leftarrow> buf_read b1 len;
                    Some (map_option (\<lambda>xs. c_string (take (nat len - 1) xs)) r, b2) } }"

definition read_string_alloc :: "buffer \<Rightarrow> (bytes option \<times> buffer) option" where
  "read_string_alloc buf =
     do { (len, b1) \<leftarrow> buf_read_u16 buf;
          if len < 1 then Some (None, b1)
          else do { (r, b2) \<leftarrow> buf_read b1 len;
                    Some (map_option (\<lambda>xs. c_string (take (nat len - 1) xs)) r, b2) } }"

text \<open>
  \<open>options_string_extract_option\<close>: at the start of the string and behind every comma, the name and a space are looked
  for; the value goes up to the next comma.
\<close>

definition comma :: u8 where "comma = 44"

function options_string_extract_option :: "bytes \<Rightarrow> bytes \<Rightarrow> bytes option" where
  "options_string_extract_option p opt_name =
     (let n = length opt_name
      in if take n p = opt_name \<and> length p > n + 1 \<and> p ! n = 32
         then Some (takeWhile (\<lambda>x. x \<noteq> comma) (drop (n + 1) p))
         else case dropWhile (\<lambda>x. x \<noteq> comma) p of
                [] \<Rightarrow> None
              | _ # p' \<Rightarrow> options_string_extract_option p' opt_name)"
  by pat_completeness auto
termination
proof (relation "measure (\<lambda>(p, _). length p)", goal_cases)
  case (2 p opt_name x x' p')
  then show ?case using length_dropWhile_le [of "\<lambda>x. x \<noteq> comma" p] by simp
qed simp

declare options_string_extract_option.simps [simp del]

section \<open>The environment of the handshake\<close>

text \<open>
  What the code asks others for: the PRF and the exporter of the TLS library, whether the cipher has a small block, the
  credentials to send (none when they are not enabled) and the information on this end (none when it is not sent), whether
  the library has had the certificate of the peer verified (\<open>session->verified\<close>, which its callbacks set), the
  verdict of \<open>verify_user_pass\<close> (for this key, or that the user name is not the one the tunnel is locked to), of \<open>verify_final_auth_checks\<close>, of the comparison of options and of the plugin that may
  veto (none when there is none).
\<close>

datatype final_check = FINAL_KEEP | FINAL_FALSE | FINAL_DEAUTHENTICATE

datatype user_check = USER_CHECKED ks_auth_state | USERNAME_CHANGED

record hs_env =
  he_prf :: tls_prf
  he_ekm :: "bytes option"
  he_insecure :: bool
  he_cred :: "(bytes \<times> bytes) option"
  he_peer_info :: "bytes option"
  he_verified :: bool
  he_user_pass_enabled :: bool
  he_verify_user_pass :: "bytes \<Rightarrow> bytes \<Rightarrow> user_check"
  he_final :: "bytes \<Rightarrow> final_check"
  he_options_equal :: "bytes \<Rightarrow> bytes \<Rightarrow> bool"
  he_tls_final :: "bool option"

definition push_peer_info :: "buffer \<Rightarrow> hs_env \<Rightarrow> (bool \<times> buffer) option" where
  "push_peer_info buf env =
     (case he_peer_info env of Some out \<Rightarrow> write_string buf out (- 1) | None \<Rightarrow> write_empty_string buf)"

section \<open>Keys of the data channel\<close>

definition tls_limit_reneg_bytes :: "bool \<Rightarrow> int \<Rightarrow> int" where
  "tls_limit_reneg_bytes insecure reneg_bytes = (if insecure \<and> reneg_bytes = - 1 then 64 * 1024 * 1024 else reneg_bytes)"

definition key_src_zero :: "key_source2 option" where
  "key_src_zero = Some \<lparr>k2s_client = key_source_clear, k2s_server = key_source_clear\<rparr>"

text \<open>The results: the answer, the options of the tunnel and the session.\<close>

definition tls_session_generate_data_channel_keys ::
  "hs_env \<Rightarrow> tls_options \<Rightarrow> 'ssl tls_session \<Rightarrow> (bool \<times> tls_options \<times> 'ssl tls_session) option" where
  "tls_session_generate_data_channel_keys env opt session =
     do {  let ks = se_primary session;
           src \<leftarrow> ks_key_src ks;
           if ks_authenticated ks = KS_AUTH_FALSE
           then Some (False, opt, session\<lparr>se_primary := ks\<lparr>ks_key_src := key_src_zero\<rparr>\<rparr>)
           else do {
           let co = (ks_crypto ks)\<lparr>co_flags := o_crypto_flags opt\<rparr>;
           (ok, bi) \<leftarrow> generate_key_expansion (he_prf env) (he_ekm env)
                        \<lparr>kb_encrypt = co_encrypt co, kb_decrypt = co_decrypt co, kb_initialized = ks_initialized ks\<rparr>
                        (o_server opt) (o_crypto_flags opt) (o_key_type opt) src
                        (sid_id (se_session_id session)) (sid_id (ks_session_id_remote ks));
           let ks1 = ks\<lparr>ks_crypto := co\<lparr>co_encrypt := kb_encrypt bi, co_decrypt := kb_decrypt bi\<rparr>,
                        ks_initialized := kb_initialized bi, ks_key_src := key_src_zero\<rparr>;
           Some (ok, if ok then opt\<lparr>o_renegotiate_bytes := tls_limit_reneg_bytes (he_insecure env) (o_renegotiate_bytes opt)\<rparr> else opt,
                 session\<lparr>se_primary := ks1\<rparr>) } }"

section \<open>Writing the message\<close>

definition TLS_OPTIONS_LEN :: int where "TLS_OPTIONS_LEN = 512"
definition KEY_METHOD_2 :: int where "KEY_METHOD_2 = 2"
definition KEY_METHOD_MASK :: int where "KEY_METHOD_MASK = 0x0F"
definition USER_PASS_LEN :: int where "USER_PASS_LEN = 128"
definition SSLF_AUTH_USER_PASS_OPTIONAL :: u32 where "SSLF_AUTH_USER_PASS_OPTIONAL = 8"
definition SSLF_OPT_VERIFY :: u32 where "SSLF_OPT_VERIFY = 16"

text \<open>The fields that are written; the results are the answer, the buffer, the source material and the rest of \<open>rnd\<close>.\<close>

definition key_method_2_fields ::
  "hs_env \<Rightarrow> tls_options \<Rightarrow> buffer \<Rightarrow> key_source2 \<Rightarrow> bytes \<Rightarrow> (bool \<times> buffer \<times> key_source2 \<times> bytes) option" where
  "key_method_2_fields env opt buf src rnd =
     do { let (ok, b0) = buf_init buf 0;
          ASSERT ok;
          (ok1, b1) \<leftarrow> buf_write_u32 b0 0;
          if \<not> ok1 then Some (False, b1, src, rnd) else do {
          (ok2, b2) \<leftarrow> buf_write_u8 b1 KEY_METHOD_2;
          if \<not> ok2 then Some (False, b2, src, rnd) else do {
          (ok3, src3, b3, rnd3) \<leftarrow> key_source2_randomize_write src b2 (o_server opt) rnd;
          if \<not> ok3 then Some (False, b3, src3, rnd3) else do {
          (ok4, b4) \<leftarrow> write_string b3 (o_local_options opt) TLS_OPTIONS_LEN;
          if \<not> ok4 then Some (False, b4, src3, rnd3) else do {
          (ok5, b5) \<leftarrow> (case he_cred env of Some (user, _) \<Rightarrow> write_string b4 user (- 1) | None \<Rightarrow> write_empty_string b4);
          if \<not> ok5 then Some (False, b5, src3, rnd3) else do {
          (ok6, b6) \<leftarrow> (case he_cred env of Some (_, pass) \<Rightarrow> write_string b5 pass (- 1) | None \<Rightarrow> write_empty_string b5);
          if \<not> ok6 then Some (False, b6, src3, rnd3) else do {
          (ok7, b7) \<leftarrow> push_peer_info b6 env;
          Some (ok7, b7, src3, rnd3) } } } } } } }"

definition key_method_2_write ::
  "hs_env \<Rightarrow> tls_options \<Rightarrow> buffer \<Rightarrow> 'ssl tls_session \<Rightarrow> bytes \<Rightarrow>
   (bool \<times> buffer \<times> tls_options \<times> 'ssl tls_session \<times> bytes) option" where
  "key_method_2_write env opt buf session rnd =
     do { let ks = se_primary session;
          src \<leftarrow> ks_key_src ks;
          (ok, b, src1, rnd1) \<leftarrow> key_method_2_fields env opt buf src rnd;
          let s1 = session\<lparr>se_primary := ks\<lparr>ks_key_src := (if ok then Some src1 else key_src_zero)\<rparr>\<rparr>;
          if \<not> ok then Some (False, b, opt, s1, rnd1)
          else if o_server opt \<and> \<not> (o_mode_server opt \<and> ks_key_id ks \<le> 0) \<and> ks_authenticated ks \<noteq> KS_AUTH_FALSE
          then do { (ok1, opt1, s2) \<leftarrow> tls_session_generate_data_channel_keys env opt s1;
                    Some (ok1, b, opt1, s2, rnd1) }
          else Some (True, b, opt, s1, rnd1) }"

section \<open>Reading the message\<close>

text \<open>The fields up to the options string; \<open>None\<close> when one of them is missing or wrong.\<close>

definition key_method_2_parse ::
  "tls_options \<Rightarrow> buffer \<Rightarrow> key_source2 \<Rightarrow> ((bytes option \<times> key_source2) \<times> buffer) option" where
  "key_method_2_parse opt buf src =
     do { let (ok, b1) = buf_advance buf 4;
          if \<not> ok then Some ((None, src), b1) else do {
          (key_method_flags, b2) \<leftarrow> buf_read_u8 b1;
          if key_method_flags AND KEY_METHOD_MASK \<noteq> 2 then Some ((None, src), b2) else do {
          (ok3, src3, b3) \<leftarrow> key_source2_read src b2 (o_server opt);
          if \<not> ok3 then Some ((None, src3), b3) else do {
          (options, b4) \<leftarrow> read_string b3 TLS_OPTIONS_LEN;
          Some ((options, src3), b4) } } } }"

definition tls_deauthenticate :: "'ssl tls_multi \<Rightarrow> 'ssl tls_multi" where
  "tls_deauthenticate multi =
     multi\<lparr>tm_session := map (\<lambda>s. s\<lparr>se_primary := (se_primary s)\<lparr>ks_authenticated := KS_AUTH_FALSE\<rparr>,
                                    se_lame := (se_lame s)\<lparr>ks_authenticated := KS_AUTH_FALSE\<rparr>\<rparr>) (tm_session multi)\<rparr>"

definition set_auth :: "'ssl tls_multi \<Rightarrow> nat \<Rightarrow> ks_auth_state \<Rightarrow> 'ssl tls_multi" where
  "set_auth multi i a =
     (let s = tm_session multi ! i
      in multi\<lparr>tm_session := (tm_session multi)[i := s\<lparr>se_primary := (se_primary s)\<lparr>ks_authenticated := a\<rparr>\<rparr>]\<rparr>)"

text \<open>
  What \<open>verify_user_pass\<close> does to the tunnel. A user name that changed takes the trust from every key of the tunnel
  (\<open>tls_lock_username\<close>), and then from this one.
\<close>

definition verify_user_pass :: "user_check \<Rightarrow> 'ssl tls_multi \<Rightarrow> nat \<Rightarrow> 'ssl tls_multi" where
  "verify_user_pass verdict multi i =
     (case verdict of USER_CHECKED a \<Rightarrow> set_auth multi i a
      | USERNAME_CHANGED \<Rightarrow> set_auth (tls_deauthenticate multi) i KS_AUTH_FALSE)"

text \<open>The checks of \<open>key_method_2_read\<close> between the user check and the generation of keys, on the state of this key.\<close>

definition key_method_2_checks :: "hs_env \<Rightarrow> bytes \<Rightarrow> 'ssl tls_multi \<Rightarrow> nat \<Rightarrow> 'ssl tls_multi" where
  "key_method_2_checks env options multi i =
     (let auth = (\<lambda>m. ks_authenticated (se_primary (tm_session m ! i)));
          opt = tm_opt multi;
          m1 = (if auth multi \<noteq> KS_AUTH_FALSE
                then (case he_final env options of
                        FINAL_KEEP \<Rightarrow> multi
                      | FINAL_FALSE \<Rightarrow> set_auth multi i KS_AUTH_FALSE
                      | FINAL_DEAUTHENTICATE \<Rightarrow> tls_deauthenticate multi)
                else multi);
          m2 = (if \<not> o_disable_occ opt \<and> \<not> he_options_equal env options (o_remote_options opt) \<and>
                   o_ssl_flags opt AND SSLF_OPT_VERIFY \<noteq> 0
                then set_auth m1 i KS_AUTH_FALSE else m1)
      in if auth m2 \<noteq> KS_AUTH_FALSE \<and> he_tls_final env = Some False then set_auth m2 i KS_AUTH_FALSE else m2)"

text \<open>The results: the answer, the buffer and the tunnel, whose session \<open>i\<close> reads the message.\<close>

definition key_method_2_error :: "buffer \<Rightarrow> 'ssl tls_multi \<Rightarrow> nat \<Rightarrow> (bool \<times> buffer \<times> 'ssl tls_multi) option" where
  "key_method_2_error buf multi i =
     do { b \<leftarrow> buf_clear buf;
          let s = tm_session multi ! i;
          Some (False, b, multi\<lparr>tm_session := (tm_session multi)[i :=
            s\<lparr>se_primary := (se_primary s)\<lparr>ks_authenticated := KS_AUTH_FALSE, ks_key_src := key_src_zero\<rparr>\<rparr>]\<rparr>) }"

definition key_method_2_read ::
  "hs_env \<Rightarrow> buffer \<Rightarrow> 'ssl tls_multi \<Rightarrow> nat \<Rightarrow> (bool \<times> buffer \<times> 'ssl tls_multi) option" where
  "key_method_2_read env buf multi i =
     do { let opt = tm_opt multi;
          let s = tm_session multi ! i;
          src \<leftarrow> ks_key_src (se_primary s);
          ((r, src1), b1) \<leftarrow> key_method_2_parse opt buf src;
          case r of
            None \<Rightarrow> key_method_2_error b1 multi i
          | Some options \<Rightarrow> do {
              (user, b2) \<leftarrow> read_string b1 USER_PASS_LEN;
              (pass, b3) \<leftarrow> read_string b2 USER_PASS_LEN;
              (info, b4) \<leftarrow> read_string_alloc b3;
              let cipher = options_string_extract_option options (str_bytes ''cipher'');
              let m0 = multi\<lparr>tm_peer_info := info,
                             tm_remote_ciphername := (if cipher = Some (str_bytes ''[null-cipher]'')
                                                      then Some (str_bytes ''none'') else cipher),
                             tm_session := (tm_session multi)[i := s\<lparr>se_primary := (se_primary s)\<lparr>
                               ks_key_src := Some src1, ks_authenticated := KS_AUTH_FALSE\<rparr>\<rparr>]\<rparr>;
              let given = (user \<noteq> None \<and> pass \<noteq> None);
              if he_user_pass_enabled env \<and> \<not> given \<and> o_ssl_flags opt AND SSLF_AUTH_USER_PASS_OPTIONAL = 0
              then key_method_2_error b4 m0 i
              else if \<not> he_user_pass_enabled env \<and> \<not> he_verified env then key_method_2_error b4 m0 i
              else do {
                let m1 = (if he_user_pass_enabled env
                  then verify_user_pass (if given then he_verify_user_pass env (the user) (the pass)
                                         else he_verify_user_pass env [] []) m0 i
                  else set_auth m0 i KS_AUTH_TRUE);
                let m2 = key_method_2_checks env options m1 i;
                b5 \<leftarrow> buf_clear b4;
                if \<not> o_server opt \<and> (\<not> o_pull opt \<or> ks_key_id (se_primary s) > 0)
                then do { (ok, opt1, s1) \<leftarrow> tls_session_generate_data_channel_keys env opt (tm_session m2 ! i);
                          let m3 = m2\<lparr>tm_opt := opt1, tm_session := (tm_session m2)[i := s1]\<rparr>;
                          if ok then Some (True, b5, m3) else key_method_2_error b5 m3 i }
                else Some (True, b5, m2) } } }"

end
