(* ===== verification/KeyMessage.thy ===== *)
theory KeyMessage
  imports KeyMethod
begin

text \<open>
  The key message on the wire: what \<open>key_method_2_write\<close> puts into its buffer is what \<open>key_method_2_read\<close> of the other end
  takes out of it, field by field.
\<close>

section \<open>Strings\<close>

definition str_wire :: "bytes option \<Rightarrow> bytes" where
  "str_wire s = (case s of None \<Rightarrow> u16_bytes 0 | Some x \<Rightarrow> u16_bytes (word_of_int (int (length x) + 1)) @ x @ [0])"

text \<open>A write that succeeded appended exactly these octets.\<close>

definition wrote :: "buffer \<Rightarrow> buffer \<Rightarrow> bytes \<Rightarrow> bool" where
  "wrote b b' m \<longleftrightarrow> buf_ok b' \<and> b_capacity b' = b_capacity b \<and> buf_content b' = buf_content b @ m"

lemma wrote_ok: "wrote b b' m \<Longrightarrow> buf_ok b'"
  by (simp add: wrote_def)

lemma buf_write_wrote: "buf_write b m = Some (True, b') \<Longrightarrow> buf_ok b \<Longrightarrow> wrote b b' m"
  by (auto simp: buf_write_ok wrote_def split: if_split_asm)

lemma buf_room_le: "buf_ok b \<Longrightarrow> buf_room b \<le> b_capacity b"
  by (elim buf_okE) (auto simp: buf_room_def)

lemma write_string_wrote:
  assumes "write_string b s mx = Some (True, b')" "buf_ok b" "b_capacity b < 65536"
  shows "wrote b b' (str_wire (Some s)) \<and> int (length s) + 1 < 65536"
proof -
  obtain b1 where w: "buf_write b (u16_bytes (word_of_int (int (length s) + 1))) = Some (True, b1)" "buf_write b1 (s @ [0]) = Some (True, b')"
    using assms(1) by (auto simp: write_string_def Let_def buf_write_u16_def split: if_split_asm Option.bind_split_asm prod.split_asm)
  note w1 = buf_write_wrote [OF w(1) assms(2)]
  note w2 = buf_write_wrote [OF w(2) wrote_ok [OF w1]]
  have "buf_room b1 \<le> b_capacity b" using buf_room_le [OF wrote_ok [OF w1]] w1 by (simp add: wrote_def)
  moreover have "int (length (s @ [0 :: u8])) \<le> buf_room b1"
    using w(2) wrote_ok [OF w1] by (auto simp: buf_write_ok split: if_split_asm)
  ultimately show ?thesis using w1 w2 assms(3) by (simp add: wrote_def str_wire_def)
qed

lemma write_empty_wrote:
  "write_empty_string b = Some (True, b') \<Longrightarrow> buf_ok b \<Longrightarrow> wrote b b' (str_wire None)"
  by (simp add: write_empty_string_def buf_write_u16_def str_wire_def buf_write_wrote)

lemma c_string_id: "0 \<notin> set s \<Longrightarrow> c_string s = s"
  unfolding c_string_def by (rule takeWhile_eq_all_conv [THEN iffD2]) auto

text \<open>A buffer whose content goes on with \<open>ys\<close> after what was read.\<close>

definition read_to :: "buffer \<Rightarrow> bytes \<Rightarrow> bool" where
  "read_to b ys \<longleftrightarrow> buf_ok b \<and> buf_content b = ys"

lemma buf_read_prefix:
  assumes "read_to b (xs @ ys)" "n = int (length xs)"
  obtains b' where "buf_read b n = Some (Some xs, b')" "read_to b' ys"
  using bq.get_prefix [of b xs ys n] assms by (auto simp: read_to_def)

lemma read_u16_prefix:
  assumes "read_to b (u16_bytes w @ ys)"
  obtains b' where "buf_read_u16 b = Some (uint w, b')" "read_to b' ys"
proof -
  obtain b' where "buf_read b 2 = Some (Some (u16_bytes w), b')" "read_to b' ys"
    by (rule buf_read_prefix [OF assms]) simp_all
  then show ?thesis using that by (simp add: buf_read_u16_def)
qed

lemma read_string_none:
  assumes "read_to b (str_wire None @ ys)"
  shows "\<exists>b'. read_string b cap = Some (None, b') \<and> read_string_alloc b = Some (None, b') \<and> read_to b' ys"
proof -
  obtain b' where "buf_read_u16 b = Some (0, b')" "read_to b' ys"
    using assms by (auto simp: str_wire_def elim: read_u16_prefix)
  then show ?thesis by (simp add: read_string_def read_string_alloc_def)
qed

lemma read_string_some:
  assumes "read_to b (str_wire (Some s) @ ys)" "0 \<notin> set s" "int (length s) + 1 < 65536"
  shows "\<exists>b'. (int (length s) + 1 \<le> cap \<longrightarrow> read_string b cap = Some (Some s, b')) \<and> read_string_alloc b = Some (Some s, b') \<and> read_to b' ys"
proof -
  let ?n = "int (length s) + 1"
  have u: "uint (word_of_int ?n :: u16) = ?n" using assms(3) by (subst uint_word_of_int) simp
  obtain b1 where b1: "buf_read_u16 b = Some (?n, b1)" "read_to b1 ((s @ [0]) @ ys)"
    using assms(1) u by (auto simp: str_wire_def elim: read_u16_prefix)
  obtain b2 where b2: "buf_read b1 ?n = Some (Some (s @ [0]), b2)" "read_to b2 ys"
    by (rule buf_read_prefix [OF b1(2), of ?n]) (use that in simp_all)
  have "c_string (take (nat ?n - 1) (s @ [0])) = s" using c_string_id [OF assms(2)] by simp
  then show ?thesis using b1(1) b2 by (auto simp: read_string_def read_string_alloc_def)
qed

text \<open>Both, for a string that may be missing.\<close>

definition sendable :: "int \<Rightarrow> bytes option \<Rightarrow> bool" where
  "sendable cap s \<longleftrightarrow> (\<forall>x. s = Some x \<longrightarrow> 0 \<notin> set x \<and> int (length x) + 1 < 65536 \<and> int (length x) + 1 \<le> cap)"

lemma read_string_back:
  assumes "read_to b (str_wire s @ ys)" "sendable cap s"
  obtains b' where "read_string b cap = Some (s, b')" "read_to b' ys"
  using read_string_none [of b ys cap] read_string_some [of b _ ys cap] assms that
  by (cases s) (auto simp: sendable_def)

lemma read_string_alloc_back:
  assumes "read_to b (str_wire s @ ys)" "sendable 65535 s"
  obtains b' where "read_string_alloc b = Some (s, b')" "read_to b' ys"
  using read_string_none [of b ys] read_string_some [of b _ ys] assms that
  by (cases s) (auto simp: sendable_def)

section \<open>Random material\<close>

lemma random_bytes_wrote:
  assumes "random_bytes_to_buf b n rnd = Some (True, b', x, rnd')" "buf_ok b" "0 \<le> n"
  shows "wrote b b' x \<and> int (length x) = n"
  using assms buf_write_wrote
  by (auto simp: random_bytes_to_buf_def rand_bytes_def split: if_split_asm Option.bind_split_asm prod.split_asm)

lemma wrote_trans: "wrote a b m \<Longrightarrow> wrote b c n \<Longrightarrow> wrote a c (m @ n)"
  by (simp add: wrote_def)

text \<open>The half of the material that this end wrote.\<close>

definition own_source :: "bool \<Rightarrow> key_source2 \<Rightarrow> key_source" where
  "own_source server k2 = (if server then k2s_server k2 else k2s_client k2)"

definition source_wire :: "bool \<Rightarrow> key_source \<Rightarrow> bytes" where
  "source_wire server k = (if server then [] else kso_pre_master k) @ kso_random1 k @ kso_random2 k"

lemma randomize_write_wrote:
  assumes "key_source2_randomize_write k2 b server rnd = Some (True, k2', b', rnd')" "buf_ok b"
  shows "wrote b b' (source_wire server (own_source server k2')) \<and>
    length (kso_pre_master (own_source server k2')) = 48 \<and> length (kso_random1 (own_source server k2')) = 32 \<and>
    length (kso_random2 (own_source server k2')) = 32 \<and> (server \<longrightarrow> kso_pre_master (own_source server k2') = kso_pre_master key_source_clear)"
proof (cases server)
  case True
  then obtain b1 x1 r1 x2 where w: "random_bytes_to_buf b 32 rnd = Some (True, b1, x1, r1)"
    "random_bytes_to_buf b1 32 r1 = Some (True, b', x2, rnd')"
    "k2' = k2_set True (key_source_clear\<lparr>kso_random1 := x1, kso_random2 := x2\<rparr>) k2"
    using assms(1) by (auto simp: key_source2_randomize_write_def Let_def split: if_split_asm Option.bind_split_asm prod.split_asm)
  note w1 = random_bytes_wrote [OF w(1) assms(2)]
  have w2: "wrote b1 b' x2 \<and> int (length x2) = 32" using random_bytes_wrote [OF w(2)] w1 wrote_ok [of b b1 x1] by simp
  show ?thesis using w1 w2 wrote_trans [of b b1 x1 b' x2] w(3) True
    by (simp add: own_source_def k2_set_def source_wire_def key_source_clear_def)
next
  case False
  then obtain b0 x0 r0 b1 x1 r1 x2 where w: "random_bytes_to_buf b 48 rnd = Some (True, b0, x0, r0)"
    "random_bytes_to_buf b0 32 r0 = Some (True, b1, x1, r1)"
    "random_bytes_to_buf b1 32 r1 = Some (True, b', x2, rnd')"
    "k2' = k2_set False (key_source_clear\<lparr>kso_pre_master := x0, kso_random1 := x1, kso_random2 := x2\<rparr>) k2"
    using assms(1) by (auto simp: key_source2_randomize_write_def Let_def split: if_split_asm Option.bind_split_asm prod.split_asm)
  have w0: "wrote b b0 x0 \<and> int (length x0) = 48" using random_bytes_wrote [OF w(1) assms(2)] by simp
  have w1: "wrote b0 b1 x1 \<and> int (length x1) = 32" using random_bytes_wrote [OF w(2)] w0 wrote_ok [of b b0 x0] by simp
  have w2: "wrote b1 b' x2 \<and> int (length x2) = 32" using random_bytes_wrote [OF w(3)] w1 wrote_ok [of b0 b1 x1] by simp
  have "wrote b b1 (x0 @ x1)" using wrote_trans w0 w1 by blast
  then have "wrote b b' (x0 @ x1 @ x2)" using wrote_trans [of b b1 "x0 @ x1" b' x2] w2 by simp
  then show ?thesis using w0 w1 w2 w(4) False by (simp add: own_source_def k2_set_def source_wire_def)
qed

lemma key_source2_read_back:
  assumes "read_to b (source_wire server k @ ys)" "length (kso_pre_master k) = 48" "length (kso_random1 k) = 32"
    "length (kso_random2 k) = 32" "server \<longrightarrow> kso_pre_master k = kso_pre_master key_source_clear"
  obtains b' where "key_source2_read k2 b (\<not> server) = Some (True, k2_set server k k2, b')" "read_to b' ys"
proof -
  obtain b0 where b0: "(if \<not> server then buf_read b 48 else Some (Some (kso_pre_master key_source_clear), b)) = Some (Some (kso_pre_master k), b0)"
    "read_to b0 (kso_random1 k @ kso_random2 k @ ys)"
  proof (cases server)
    case True
    then show ?thesis using that [of b] assms(1,5) by (simp add: source_wire_def)
  next
    case False
    then have "read_to b (kso_pre_master k @ (kso_random1 k @ kso_random2 k @ ys))" using assms(1) by (simp add: source_wire_def)
    then show ?thesis using that False assms(2) by (auto elim: buf_read_prefix [where n = 48])
  qed
  obtain b1 where b1: "buf_read b0 32 = Some (Some (kso_random1 k), b1)" "read_to b1 (kso_random2 k @ ys)"
    using b0(2) assms(3) by (auto elim: buf_read_prefix [where n = 32])
  obtain b2 where b2: "buf_read b1 32 = Some (Some (kso_random2 k), b2)" "read_to b2 ys"
    using b1(2) assms(4) by (auto elim: buf_read_prefix [where n = 32])
  have k: "key_source_clear\<lparr>kso_pre_master := kso_pre_master k, kso_random1 := kso_random1 k, kso_random2 := kso_random2 k\<rparr> = k"
    by (cases k) simp
  show ?thesis using that [OF _ b2(2)] b0(1) b1(1) b2(1) k by (simp add: key_source2_read_def Let_def)
qed

section \<open>The message\<close>

definition message_wire :: "hs_env \<Rightarrow> tls_options \<Rightarrow> key_source2 \<Rightarrow> bytes" where
  "message_wire env opt src = u32_bytes 0 @ [2] @ source_wire (o_server opt) (own_source (o_server opt) src) @
     str_wire (Some (o_local_options opt)) @ str_wire (map_option fst (he_cred env)) @ str_wire (map_option snd (he_cred env)) @
     str_wire (he_peer_info env)"

lemma write_optional_wrote:
  assumes "(case s of Some x \<Rightarrow> write_string b x mx | None \<Rightarrow> write_empty_string b) = Some (True, b')" "buf_ok b" "b_capacity b < 65536"
  shows "wrote b b' (str_wire s)"
  using assms write_string_wrote write_empty_wrote by (cases s) auto

lemma key_method_2_fields_wrote:
  assumes "key_method_2_fields env opt buf src rnd = Some (True, b, src', rnd')" "buf_ok buf" "b_capacity buf < 65536"
  shows "buf_ok b \<and> buf_content b = message_wire env opt src' \<and> int (length (o_local_options opt)) + 1 \<le> TLS_OPTIONS_LEN \<and>
    length (kso_pre_master (own_source (o_server opt) src')) = 48 \<and> length (kso_random1 (own_source (o_server opt) src')) = 32 \<and>
    length (kso_random2 (own_source (o_server opt) src')) = 32 \<and>
    (o_server opt \<longrightarrow> kso_pre_master (own_source (o_server opt) src') = kso_pre_master key_source_clear)"
proof -
  obtain b0 b1 b2 b3 b4 b5 b6 where w: "buf_init buf 0 = (True, b0)" "buf_write_u32 b0 0 = Some (True, b1)"
    "buf_write_u8 b1 KEY_METHOD_2 = Some (True, b2)"
    "key_source2_randomize_write src b2 (o_server opt) rnd = Some (True, src', b3, rnd')"
    "write_string b3 (o_local_options opt) TLS_OPTIONS_LEN = Some (True, b4)"
    "(case he_cred env of Some (user, _) \<Rightarrow> write_string b4 user (- 1) | None \<Rightarrow> write_empty_string b4) = Some (True, b5)"
    "(case he_cred env of Some (_, pass) \<Rightarrow> write_string b5 pass (- 1) | None \<Rightarrow> write_empty_string b5) = Some (True, b6)"
    "push_peer_info b6 env = Some (True, b)"
    using assms(1)
    by (auto simp: key_method_2_fields_def Let_def bind_eq_Some_conv ASSERT_def split: if_split_asm prod.split_asm)
  have b0: "buf_ok b0" "buf_content b0 = []" "b_capacity b0 < 65536"
    using w(1) assms(2,3) by (auto simp: buf_init_def buf_ok_def buf_content_def split: if_split_asm)
  note w1 = buf_write_wrote [OF w(2) [unfolded buf_write_u32_def] b0(1)]
  note w2 = buf_write_wrote [OF w(3) [unfolded buf_write_u8_def] wrote_ok [OF w1]]
  note w3 = randomize_write_wrote [OF w(4) wrote_ok [OF w2]]
  have c3: "buf_ok b3" "b_capacity b3 < 65536" using w1 w2 w3 b0(3) by (simp_all add: wrote_def)
  note w4 = write_string_wrote [OF w(5) c3]
  have c4: "buf_ok b4" "b_capacity b4 < 65536" using w4 c3(2) by (simp_all add: wrote_def)
  have w5: "wrote b4 b5 (str_wire (map_option fst (he_cred env)))"
    by (rule write_optional_wrote [OF _ c4, where mx = "- 1"]) (use w(6) in \<open>auto split: option.splits prod.splits\<close>)
  have c5: "buf_ok b5" "b_capacity b5 < 65536" using w5 c4(2) by (simp_all add: wrote_def)
  have w6: "wrote b5 b6 (str_wire (map_option snd (he_cred env)))"
    by (rule write_optional_wrote [OF _ c5, where mx = "- 1"]) (use w(7) in \<open>auto split: option.splits prod.splits\<close>)
  have c6: "buf_ok b6" "b_capacity b6 < 65536" using w6 c5(2) by (simp_all add: wrote_def)
  have w7: "wrote b6 b (str_wire (he_peer_info env))"
    by (rule write_optional_wrote [OF _ c6, where mx = "- 1"]) (use w(8) in \<open>auto simp: push_peer_info_def split: option.splits\<close>)
  have "int (length (o_local_options opt)) + 1 \<le> TLS_OPTIONS_LEN"
    using w(5) by (auto simp: write_string_def Let_def TLS_OPTIONS_LEN_def split: if_split_asm)
  then show ?thesis using w1 w2 w3 w4 w5 w6 w7 b0(2) by (simp add: wrote_def message_wire_def KEY_METHOD_2_def)
qed

text \<open>
  C40. The key message arrives whole. What one end writes with \<open>key_method_2_write\<close> the other reads with \<open>key_method_2_read\<close>: the
  options, the random material, as the half of the writer's role, both credentials and the information on the peer come back as they were,
  missing ones as missing, and nothing is left over.
\<close>

theorem key_message_roundtrip:
  assumes "key_method_2_fields env opt buf src rnd = Some (True, b, src', rnd')" and "buf_ok buf" and "b_capacity buf \<le> TLS_CHANNEL_BUF_SIZE"
    and "0 \<notin> set (o_local_options opt)" and "sendable USER_PASS_LEN (map_option fst (he_cred env))"
    and "sendable USER_PASS_LEN (map_option snd (he_cred env))" and "sendable 65535 (he_peer_info env)"
    and "buf_ok rbuf" and "buf_content rbuf = buf_content b" and "o_server ropt = (\<not> o_server opt)"
  shows "\<exists>b1 b2 b3 b4.
    key_method_2_parse ropt rbuf rsrc = Some ((Some (o_local_options opt), k2_set (o_server opt) (own_source (o_server opt) src') rsrc), b1) \<and>
    read_string b1 USER_PASS_LEN = Some (map_option fst (he_cred env), b2) \<and>
    read_string b2 USER_PASS_LEN = Some (map_option snd (he_cred env), b3) \<and>
    read_string_alloc b3 = Some (he_peer_info env, b4) \<and> buf_content b4 = []"
proof -
  have cap: "b_capacity buf < 65536" using assms(3) by (simp add: TLS_CHANNEL_BUF_SIZE_def)
  note w = key_method_2_fields_wrote [OF assms(1,2) cap]
  let ?k = "own_source (o_server opt) src'"
  let ?rest = "str_wire (map_option fst (he_cred env)) @ str_wire (map_option snd (he_cred env)) @ str_wire (he_peer_info env) @ []"
  have r0: "read_to rbuf (u32_bytes 0 @ ([2] @ source_wire (o_server opt) ?k @ str_wire (Some (o_local_options opt)) @ ?rest))"
    using w assms(8,9) by (simp add: read_to_def message_wire_def)
  have l0: "4 \<le> b_len rbuf" using r0 length_buf_content [OF assms(8)] by (simp add: read_to_def)
  define b0 where "b0 = buf_drop rbuf 4"
  have a: "buf_advance rbuf 4 = (True, b0)" "read_to b0 (2 # source_wire (o_server opt) ?k @ str_wire (Some (o_local_options opt)) @ ?rest)"
    using r0 l0 by (simp_all add: buf_advance_ok read_to_def b0_def)
  define b0' where "b0' = buf_drop b0 1"
  have l1: "1 \<le> b_len b0" using a(2) length_buf_content [of b0] by (simp add: read_to_def)
  have u8: "buf_read_u8 b0 = Some (2, b0')" "read_to b0' (source_wire (o_server opt) ?k @ str_wire (Some (o_local_options opt)) @ ?rest)"
    using a(2) l1 by (simp_all add: buf_read_u8_ok read_to_def b0'_def)
  obtain b1 where b1: "key_source2_read rsrc b0' (o_server ropt) = Some (True, k2_set (o_server opt) ?k rsrc, b1)"
    "read_to b1 (str_wire (Some (o_local_options opt)) @ ?rest)"
    using key_source2_read_back [OF u8(2)] w assms(10) by metis
  have s: "sendable TLS_OPTIONS_LEN (Some (o_local_options opt))"
    using w assms(4) by (simp add: sendable_def TLS_OPTIONS_LEN_def)
  obtain b2 where b2: "read_string b1 TLS_OPTIONS_LEN = Some (Some (o_local_options opt), b2)" "read_to b2 ?rest"
    by (rule read_string_back [OF b1(2) s])
  obtain b3 where b3: "read_string b2 USER_PASS_LEN = Some (map_option fst (he_cred env), b3)"
    "read_to b3 (str_wire (map_option snd (he_cred env)) @ str_wire (he_peer_info env) @ [])"
    by (rule read_string_back [OF b2(2) assms(5)])
  obtain b4 where b4: "read_string b3 USER_PASS_LEN = Some (map_option snd (he_cred env), b4)" "read_to b4 (str_wire (he_peer_info env) @ [])"
    by (rule read_string_back [OF b3(2) assms(6)])
  obtain b5 where b5: "read_string_alloc b4 = Some (he_peer_info env, b5)" "read_to b5 []"
    by (rule read_string_alloc_back [OF b4(2) assms(7)])
  have "key_method_2_parse ropt rbuf rsrc = Some ((Some (o_local_options opt), k2_set (o_server opt) ?k rsrc), b2)"
    using a(1) u8(1) b1(1) b2(1) by (simp add: key_method_2_parse_def KEY_METHOD_MASK_def)
  then show ?thesis using b3(1) b4(1) b5 unfolding read_to_def by blast
qed

definition demo_env :: hs_env where
  "demo_env = \<lparr>he_prf = (\<lambda>_ _ n. replicate (nat n) 0), he_ekm = None, he_insecure = False, he_cred = Some ([65], [66, 67]),
     he_peer_info = None, he_verified = True, he_user_pass_enabled = False, he_verify_user_pass = (\<lambda>_ _. USER_CHECKED KS_AUTH_TRUE), he_final = (\<lambda>_. FINAL_KEEP),
     he_options_equal = (=), he_tls_final = None\<rparr>"

definition demo_server_options :: tls_options where
  "demo_server_options = \<lparr>o_server = True, o_xmit_hold = False, o_replay = True, o_single_session = False, o_pull = False,
     o_mode_server = False, o_transition_window = 3600, o_handshake_window = 60, o_packet_timeout = 2, o_renegotiate_bytes = 0,
     o_renegotiate_packets = 0, o_renegotiate_seconds = 3600, o_crypto_flags = 0,
     o_key_type = \<lparr>kt_cipher_length = 0, kt_hmac_length = 0, kt_cipher = None, kt_digest = None\<rparr>,
     o_replay_window = 64, o_replay_time = 15, o_config_ciphername = [], o_tls_crypt_v2 = False, o_tls_wrap = CLEAR_tls_wrap, o_frame = demo_crypto_frame,
     o_local_options = [86, 52], o_remote_options = [], o_disable_occ = False, o_ssl_flags = 0, o_gremlin = 0\<rparr>"

lemma demo_fields: "\<exists>b src'. key_method_2_fields demo_env demo_server_options (demo_buf []) \<lparr>k2s_client = key_source_clear, k2s_server = key_source_clear\<rparr>
    (replicate 64 1) = Some (True, b, src', [])"
proof -
  have b: "buf_ok (demo_buf [])" "buf_init (demo_buf []) 0 = (True, (demo_buf [])\<lparr>b_len := 0, b_offset := 0\<rparr>)"
    using demo_buf_ok [of "[]"] by (simp_all add: buf_init_def demo_buf_def)
  define b0 where "b0 = (demo_buf [])\<lparr>b_len := 0, b_offset := 0\<rparr>"
  have b0: "buf_ok b0" "buf_room b0 = 100" by (simp_all add: b0_def demo_buf_def buf_ok_def buf_room_def BUF_SIZE_MAX_def)
  show ?thesis using b0
    by (simp add: key_method_2_fields_def demo_env_def demo_server_options_def b(2) b0_def [symmetric] buf_write_u32_def buf_write_u8_def
        key_source2_randomize_write_def random_bytes_to_buf_def rand_bytes_def write_string_def write_empty_string_def
        buf_write_u16_def buf_write_ok push_peer_info_def TLS_OPTIONS_LEN_def Let_def)
qed

lemma key_message_roundtrip_witness:
  "\<exists>b src' b1 b2 b3. key_method_2_fields demo_env demo_server_options (demo_buf [])
      \<lparr>k2s_client = key_source_clear, k2s_server = key_source_clear\<rparr> (replicate 64 1) = Some (True, b, src', []) \<and>
    key_method_2_parse (demo_server_options\<lparr>o_server := False\<rparr>) b \<lparr>k2s_client = key_source_clear, k2s_server = key_source_clear\<rparr> =
      Some ((Some [86, 52], \<lparr>k2s_client = key_source_clear, k2s_server = k2s_server src'\<rparr>), b1) \<and>
    read_string b1 USER_PASS_LEN = Some (Some [65], b2) \<and> read_string b2 USER_PASS_LEN = Some (Some [66, 67], b3)"
proof -
  obtain b src' where b: "key_method_2_fields demo_env demo_server_options (demo_buf [])
      \<lparr>k2s_client = key_source_clear, k2s_server = key_source_clear\<rparr> (replicate 64 1) = Some (True, b, src', [])"
    using demo_fields by blast
  have o: "o_server demo_server_options" "o_local_options demo_server_options = [86, 52]" "he_cred demo_env = Some ([65], [66, 67])"
    "he_peer_info demo_env = None" by (simp_all add: demo_server_options_def demo_env_def)
  have d: "buf_ok (demo_buf [])" "b_capacity (demo_buf []) \<le> TLS_CHANNEL_BUF_SIZE"
    using demo_buf_ok [of "[]"] by (simp_all add: TLS_CHANNEL_BUF_SIZE_def)
  then have "b_capacity (demo_buf []) < 65536" by (simp add: TLS_CHANNEL_BUF_SIZE_def)
  then have "buf_ok b" using key_method_2_fields_wrote [OF b d(1)] by simp
  then show ?thesis
    using key_message_roundtrip [OF b d, of b "demo_server_options\<lparr>o_server := False\<rparr>"
        "\<lparr>k2s_client = key_source_clear, k2s_server = key_source_clear\<rparr>"] b o
    by (auto simp: sendable_def USER_PASS_LEN_def k2_set_def own_source_def)
qed

end
