(* ===== verification/ControlAuth.thy ===== *)
theory ControlAuth
  imports TlsState
begin

text \<open>
  The envelope of a control packet (src: ssl.c): the opcode and the session identifier in front, acknowledgements, and
  the authentication of tls-auth or the encryption of tls-crypt around it.
\<close>

section \<open>The operations\<close>

definition SWAP_BUF_SIZE :: int where "SWAP_BUF_SIZE = 256"

definition swap_hmac :: "buffer \<Rightarrow> crypto_options \<Rightarrow> bool \<Rightarrow> (bool \<times> buffer) option" where
  "swap_hmac buf co incoming =
     do { h \<leftarrow> kc_hmac (if incoming then co_decrypt co else co_encrypt co);
          let hmac_size = hc_size h + packet_id_size True;
          let osid_size = 1 + SID_SIZE;
          let (e1, e2) = (if incoming then (osid_size, hmac_size) else (hmac_size, osid_size));
          ASSERT (e1 \<le> SWAP_BUF_SIZE \<and> e2 \<le> SWAP_BUF_SIZE);
          if b_len buf \<ge> e1 + e2
          then do { b \<leftarrow> buf_bptr buf;
                    buf1 \<leftarrow> buf_load buf b e1;
                    buf2 \<leftarrow> buf_load buf (b + e1) e2;
                    w1 \<leftarrow> buf_store buf b buf2;
                    w2 \<leftarrow> buf_store w1 (b + e2) buf1;
                    Some (True, w2) }
          else Some (False, buf) }"

text \<open>The first octet of a packet: the opcode above the key identifier.\<close>

definition control_header :: "int \<Rightarrow> int \<Rightarrow> u8" where
  "control_header key_id opcode = word_of_int (key_id OR push_bit P_OPCODE_SHIFT opcode)"

text \<open>
  The results: the wrapping context, the acknowledgements left, the packet, the block of the caller's buffer, which
  shares its memory, and the address when one was set. \<open>random\<close> serves the ciphers of \<open>openvpn_encrypt\<close>.
\<close>

definition write_control_auth ::
  "'ssl tls_session \<Rightarrow> 'ssl key_state \<Rightarrow> buffer \<Rightarrow> int \<Rightarrow> int \<Rightarrow> bool \<Rightarrow> bytes \<Rightarrow> int \<Rightarrow>
   (tls_wrap_ctx \<times> reliable_ack \<times> buffer \<times> bytes option \<times> link_socket_actual option) option" where
  "write_control_auth session ks buf opcode max_ack prepend_ack random now =
     do { let w = se_tls_wrap session;
          let header = control_header (ks_key_id ks) opcode;
          ASSERT (link_socket_actual_defined (Some (ks_remote_addr ks)));
          rec_ack \<leftarrow> ks_rec_ack ks;
          (ok, ack, b0) \<leftarrow> reliable_ack_write rec_ack buf (ks_session_id_remote ks) max_ack prepend_ack;
          ASSERT ok;
          b2 \<leftarrow> (if tw_mode w = TLS_WRAP_AUTH \<or> tw_mode w = TLS_WRAP_NONE
                then do { (ok1, b1) \<leftarrow> session_id_write_prepend (se_session_id session) b0;
                          ASSERT ok1;
                          (ok2, b2) \<leftarrow> buf_write_prepend b1 [header];
                          ASSERT ok2;
                          Some b2 }
                else Some b0);
          (case tw_mode w of
             TLS_WRAP_AUTH \<Rightarrow>
               do { (b3, o3) \<leftarrow> openvpn_encrypt b2 clear_buf (Some (tw_opt w)) random now;
                    opt \<leftarrow> o3;
                    (ok3, b4) \<leftarrow> swap_hmac b3 opt False;
                    ASSERT ok3;
                    Some (w\<lparr>tw_opt := opt\<rparr>, ack, b4, b_data b4, Some (ks_remote_addr ks)) }
           | TLS_WRAP_CRYPT \<Rightarrow>
               do { let (ok4, w0) = buf_init (tw_work w) (b_offset b2);
                    ASSERT ok4;
                    (ok5, w1) \<leftarrow> buf_write w0 [header];
                    ASSERT ok5;
                    (ok6, w2) \<leftarrow> session_id_write (se_session_id session) w1;
                    ASSERT ok6;
                    (ok7, w3, opt) \<leftarrow> tls_crypt_wrap b2 w2 (tw_opt w) now;
                    let w' = w\<lparr>tw_work := w3, tw_opt := opt\<rparr>;
                    if \<not> ok7 then Some (w', ack, b2\<lparr>b_len := 0\<rparr>, b_data b2, None)
                    else do {
                      (ok8, w4) \<leftarrow> (if opcode = P_CONTROL_HARD_RESET_CLIENT_V3
                                    then do { wkc \<leftarrow> tw_tls_crypt_v2_wkc w; buf_copy w3 wkc } else Some (True, w3));
                      let w'' = w'\<lparr>tw_work := w4\<rparr>;
                      if \<not> ok8 then Some (w'', ack, b2\<lparr>b_len := 0\<rparr>, b_data b2, None)
                      else Some (w'', ack, w4, b_data b2, Some (ks_remote_addr ks)) } }
           | TLS_WRAP_NONE \<Rightarrow> Some (w, ack, b2, b_data b2, Some (ks_remote_addr ks))) }"

text \<open>
  \<open>openvpn_decrypt\<close> is called without a frame, which a context with a cipher would read. \<open>load_key\<close> and \<open>verify\<close> are
  those of \<open>tls_crypt_v2_extract_client_key\<close>.
\<close>

definition no_frame :: frame where
  "no_frame = \<lparr>link_mtu = 0, link_mtu_dynamic = 0, extra_frame = 0, extra_buffer = 0, extra_tun = 0,
     extra_link = 0, align_flags = 0, align_adjust = 0\<rparr>"

definition read_control_auth ::
  "(bytes \<Rightarrow> key_ctx \<times> key_ctx) \<Rightarrow> (buffer \<Rightarrow> bool) option \<Rightarrow> buffer \<Rightarrow> tls_wrap_ctx \<Rightarrow> int \<Rightarrow>
   (bool \<times> buffer \<times> tls_wrap_ctx) option" where
  "read_control_auth load_key verify buf ctx now =
     do { p \<leftarrow> buf_bptr buf;
          first \<leftarrow> buf_load buf p 1;
          let opcode = drop_bit P_OPCODE_SHIFT (uint (hd first));
          (ok0, buf0, ctx0) \<leftarrow> (if opcode = P_CONTROL_HARD_RESET_CLIENT_V3
                               then tls_crypt_v2_extract_client_key load_key verify buf ctx
                               else Some (True, buf, ctx));
          if \<not> ok0 then Some (False, buf0, ctx0)
          else do {
            (ok1, buf1, ctx1) \<leftarrow>
              (case tw_mode ctx0 of
                 TLS_WRAP_AUTH \<Rightarrow>
                   do { (ok, b) \<leftarrow> swap_hmac buf0 (tw_opt ctx0) True;
                        if \<not> ok then Some (False, b, ctx0)
                        else do { ad \<leftarrow> buf_bptr b;
                                  ASSERT (kc_cipher (co_decrypt (tw_opt ctx0)) = None);
                                  (_, b', o') \<leftarrow> openvpn_decrypt b clear_buf (Some (tw_opt ctx0)) no_frame ad now;
                                  opt \<leftarrow> o';
                                  Some (b_len b' \<noteq> 0, b', ctx0\<lparr>tw_opt := opt\<rparr>) } }
               | TLS_WRAP_CRYPT \<Rightarrow>
                   do { tmp \<leftarrow> alloc_buf (buf_forward_capacity_total buf0);
                        (ok, tmp1, opt) \<leftarrow> tls_crypt_unwrap buf0 tmp (tw_opt ctx0) now;
                        let ctx' = ctx0\<lparr>tw_opt := opt\<rparr>;
                        if \<not> ok then Some (False, buf0, ctx')
                        else do { let (ok', b) = buf_init buf0 (b_offset buf0);
                                  ASSERT ok';
                                  (ok'', b') \<leftarrow> buf_copy b tmp1;
                                  ASSERT ok'';
                                  Some (True, b', ctx') } }
               | TLS_WRAP_NONE \<Rightarrow> Some (kc_cipher (tw_tls_crypt_v2_server_key ctx0) = None, buf0, ctx0));
            if \<not> ok1 then Some (False, buf1, ctx1)
            else Some (True, if tw_mode ctx1 = TLS_WRAP_NONE \<or> tw_mode ctx1 = TLS_WRAP_AUTH
                             then snd (buf_advance buf1 (SID_SIZE + 1)) else buf1, ctx1) } }"

end
