(* ===== verification/TlsPackets.thy ===== *)
theory TlsPackets
  imports ControlAuth
begin

text \<open>
  Packets and their sessions (src: ssl.c): which key opens an incoming data packet, which session an incoming control
  packet belongs to, which key seals an outgoing data packet, and the payload on the control channel.
\<close>

section \<open>Data packets\<close>

text \<open>The scan of \<open>handle_data_channel_packet\<close> for the key of a packet.\<close>

fun data_channel_key :: "'ssl tls_multi \<Rightarrow> link_socket_actual \<Rightarrow> bool \<Rightarrow> int \<Rightarrow> nat list \<Rightarrow> nat option option" where
  "data_channel_key multi from floated key_id [] = Some None"
| "data_channel_key multi from floated key_id (i # scan) =
     (let ks = key_scan multi i
      in if DECRYPT_KEY_ENABLED multi ks \<and> key_id = ks_key_id ks \<and> ks_authenticated ks = KS_AUTH_TRUE
         then do { here \<leftarrow> (if floated then Some True else link_socket_actual_match from (ks_remote_addr ks));
                   if here then Some (Some i) else data_channel_key multi from floated key_id scan }
         else data_channel_key multi from floated key_id scan)"

text \<open>
  The results: the state, the packet behind its header, the place of the key in \<open>key_scan\<close> whose \<open>crypto_options\<close> the
  caller gets, and where the authenticated header starts. A packet that is dropped has length 0 and no key.
\<close>

definition handle_data_channel_packet ::
  "'ssl tls_multi \<Rightarrow> link_socket_actual \<Rightarrow> buffer \<Rightarrow> bool \<Rightarrow> ('ssl tls_multi \<times> buffer \<times> nat option \<times> int option) option" where
  "handle_data_channel_packet multi from buf floated =
     do { p \<leftarrow> buf_bptr buf;
          first \<leftarrow> buf_load buf p 1;
          let op = drop_bit P_OPCODE_SHIFT (uint (hd first));
          let key_id = uint (hd first AND P_KEY_ID_MASK);
          sel \<leftarrow> data_channel_key multi from floated key_id [0..<KEY_SCAN_SIZE];
          case sel of
            None \<Rightarrow> Some (multi, buf\<lparr>b_len := 0\<rparr>, None, None)
          | Some i \<Rightarrow>
              let ks = key_scan multi i
              in if \<not> ks_initialized ks then Some (multi, buf\<lparr>b_len := 0\<rparr>, None, None)
                 else do {
                   let (ok1, b1) = buf_advance buf 1;
                   ASSERT ok1;
                   let ad_start = (if op = P_DATA_V2 then Some p else if op = P_DATA_V1 then buf_bptr b1 else None);
                   if op = P_DATA_V2 \<and> b_len b1 < 4
                   then Some (multi\<lparr>tm_n_soft_errors := tm_n_soft_errors multi + 1\<rparr>, b1\<lparr>b_len := 0\<rparr>, None, ad_start)
                   else do {
                     let (ok2, b2) = (if op = P_DATA_V2 then buf_advance b1 3 else (True, b1));
                     ASSERT ok2;
                     Some (key_scan_update multi i (ks\<lparr>ks_n_packets := ks_n_packets ks + 1,
                                                       ks_n_bytes := ks_n_bytes ks + word_of_int (b_len b2)\<rparr>),
                           b2, Some i, ad_start) } } }"

text \<open>The scan of \<open>tls_pre_encrypt\<close>: the first ready key whose deferred authentication is over, or else the first ready key.\<close>

fun encrypt_key :: "'ssl tls_multi \<Rightarrow> int \<Rightarrow> nat option \<Rightarrow> nat list \<Rightarrow> nat option" where
  "encrypt_key multi now sel [] = sel"
| "encrypt_key multi now sel (i # scan) =
     (let ks = key_scan multi i
      in if ks_state ks \<ge> S_ACTIVE \<and> ks_authenticated ks = KS_AUTH_TRUE \<and> ks_initialized ks
         then (if now \<ge> ks_auth_deferred_expire ks then Some i
               else encrypt_key multi now (if sel = None then Some i else sel) scan)
         else encrypt_key multi now sel scan)"

definition tls_pre_encrypt :: "'ssl tls_multi \<Rightarrow> buffer \<Rightarrow> int \<Rightarrow> 'ssl tls_multi \<times> buffer \<times> nat option" where
  "tls_pre_encrypt multi buf now =
     (let m = multi\<lparr>tm_save_ks := None\<rparr>
      in if b_len buf \<le> 0 then (m, buf\<lparr>b_len := 0\<rparr>, None)
         else case encrypt_key m now None [0..<KEY_SCAN_SIZE] of
                Some i \<Rightarrow> (m\<lparr>tm_save_ks := Some i\<rparr>, buf, Some i)
              | None \<Rightarrow> (m, buf\<lparr>b_len := 0\<rparr>, None))"

definition tls_prepend_opcode_v1 :: "'ssl tls_multi \<Rightarrow> buffer \<Rightarrow> buffer option" where
  "tls_prepend_opcode_v1 multi buf =
     do { i \<leftarrow> tm_save_ks multi;
          let op = (word_of_int (push_bit P_OPCODE_SHIFT P_DATA_V1 OR ks_key_id (key_scan multi i)) :: u8);
          (ok, b) \<leftarrow> buf_write_prepend buf [op];
          ASSERT ok;
          Some b }"

definition tls_prepend_opcode_v2 :: "'ssl tls_multi \<Rightarrow> buffer \<Rightarrow> buffer option" where
  "tls_prepend_opcode_v2 multi buf =
     do { i \<leftarrow> tm_save_ks multi;
          let op = (word_of_int (push_bit P_OPCODE_SHIFT P_DATA_V2 OR ks_key_id (key_scan multi i)) :: u32);
          let peer = push_bit 24 op OR (tm_peer_id multi AND 0xFFFFFF);
          (ok, b) \<leftarrow> buf_write_prepend buf (u32_bytes peer);
          ASSERT ok;
          Some b }"

definition tls_post_encrypt :: "'ssl tls_multi \<Rightarrow> buffer \<Rightarrow> 'ssl tls_multi option" where
  "tls_post_encrypt multi buf =
     (let m = multi\<lparr>tm_save_ks := None\<rparr>
      in if b_len buf > 0
         then do { i \<leftarrow> tm_save_ks multi;
                   let ks = key_scan m i;
                   Some (key_scan_update m i (ks\<lparr>ks_n_packets := ks_n_packets ks + 1,
                                                ks_n_bytes := ks_n_bytes ks + word_of_int (b_len buf)\<rparr>)) }
         else Some m)"

section \<open>Control packets\<close>

definition is_hard_reset_method2 :: "int \<Rightarrow> bool" where
  "is_hard_reset_method2 op \<longleftrightarrow> op = P_CONTROL_HARD_RESET_CLIENT_V2 \<or> op = P_CONTROL_HARD_RESET_SERVER_V2 \<or>
     op = P_CONTROL_HARD_RESET_CLIENT_V3"

text \<open>The loop that looks for the session that a remote session identifier belongs to.\<close>

definition session_of :: "'ssl tls_multi \<Rightarrow> session_id \<Rightarrow> nat" where
  "session_of multi sid =
     (case filter (\<lambda>i. session_id_equal (ks_session_id_remote (se_primary (tm_session multi ! i))) sid) [0..<TM_SIZE] of
        i # _ \<Rightarrow> i | [] \<Rightarrow> TM_SIZE)"

definition session_update :: "'ssl tls_multi \<Rightarrow> nat \<Rightarrow> 'ssl tls_session \<Rightarrow> 'ssl tls_multi" where
  "session_update multi i s = multi\<lparr>tm_session := (tm_session multi)[i := s]\<rparr>"

text \<open>
  The middle part of \<open>tls_pre_decrypt\<close>: from the session that the packet names to the authenticated packet. The result
  has, on success, the session it goes to, \<open>new_link\<close> and \<open>do_burst\<close>; none where the code goes to \<open>error\<close>.
\<close>

type_synonym auth_reader = "buffer \<Rightarrow> tls_wrap_ctx \<Rightarrow> (bool \<times> buffer \<times> tls_wrap_ctx) option"

definition tls_route_control ::
  "'ssl tls_object \<Rightarrow> auth_reader \<Rightarrow> 'ssl tls_multi \<Rightarrow> link_socket_actual \<Rightarrow> buffer \<Rightarrow> int \<Rightarrow> session_id \<Rightarrow> int \<Rightarrow>
   ('ssl tls_multi \<times> buffer \<times> (nat \<times> bool \<times> bool) option) option" where
  "tls_route_control tls auth multi from buf op sid now =
     do { let i0 = session_of multi sid;
          let active = tm_session multi ! TM_ACTIVE;
          let first = (i0 = TM_SIZE \<and> is_hard_reset_method2 op \<and>
                       \<not> session_id_defined (ks_session_id_remote (se_primary active)));
          if i0 = TM_LAME_DUCK \<or> first \<and> o_single_session (tm_opt multi) \<and> tm_n_sessions multi \<noteq> 0
          then Some (multi, buf, None)
          else do {
            let m1 = (if first then session_update multi TM_ACTIVE (active\<lparr>se_untrusted_addr := from\<rparr>) else multi);
            let i = (if first then TM_ACTIVE else i0);
            if i = TM_SIZE \<and> is_hard_reset_method2 op
            then if o_single_session (tm_opt multi) then Some (m1, buf, None)
                 else do { let s = tm_session m1 ! TM_UNTRUSTED;
                           (ok, b, w) \<leftarrow> auth buf (se_tls_wrap s);
                           let s1 = s\<lparr>se_tls_wrap := w\<rparr>;
                           if \<not> ok then Some (session_update m1 TM_UNTRUSTED s1, b, None)
                           else Some (session_update m1 TM_UNTRUSTED (s1\<lparr>se_untrusted_addr := from\<rparr>), b,
                                      Some (TM_UNTRUSTED, True, False)) }
            else if i \<noteq> TM_ACTIVE \<and> i \<noteq> TM_UNTRUSTED then Some (m1, buf, None)
            else do {
              let s = tm_session m1 ! i;
              known \<leftarrow> (if first then Some True else link_socket_actual_match (ks_remote_addr (se_primary s)) from);
              if \<not> known then Some (m1, buf, None)
              else do {
                (ok, b, w) \<leftarrow> auth buf (se_tls_wrap s);
                let s1 = s\<lparr>se_tls_wrap := w\<rparr>;
                if \<not> ok then Some (session_update m1 i s1, b, None)
                else if op = P_CONTROL_SOFT_RESET_V1 \<and> DECRYPT_KEY_ENABLED multi (se_primary s)
                then do { s2 \<leftarrow> key_state_soft_reset tls (tm_opt multi) now s1;
                          Some (session_update m1 i s2, b, Some (i, False, False)) }
                else Some (session_update m1 i s1, b, Some (i, first, first \<or> op = P_CONTROL_SOFT_RESET_V1)) } } } }"

text \<open>
  The last part of \<open>tls_pre_decrypt\<close>: the authenticated packet goes to the reliability layer of its session. The first
  result is \<open>False\<close> where the code goes to \<open>error\<close>.
\<close>

definition tls_accept_control ::
  "'ssl tls_multi \<Rightarrow> link_socket_actual \<Rightarrow> buffer \<Rightarrow> int \<Rightarrow> int \<Rightarrow> session_id \<Rightarrow> nat \<Rightarrow> bool \<Rightarrow> bool \<Rightarrow> int \<Rightarrow>
   (bool \<times> 'ssl tls_multi) option" where
  "tls_accept_control multi from buf op key_id sid i new_link do_burst now =
     do { let s = tm_session multi ! i;
          let ks = se_primary s;
          ASSERT (ks_state ks \<noteq> S_UNDEF);
          ASSERT (ks_state ks \<noteq> S_ERROR);
          ASSERT (session_id_defined (se_session_id s));
          same \<leftarrow> (if new_link then Some True else link_socket_actual_match (ks_remote_addr ks) from);
          if \<not> same then Some (False, multi)
          else do {
            let ks1 = (if new_link then ks\<lparr>ks_session_id_remote := sid, ks_remote_addr := from\<rparr> else ks);
            let m1 = (if new_link then multi\<lparr>tm_n_sessions := tm_n_sessions multi + 1\<rparr> else multi);
            snd1 \<leftarrow> ks_send_reliable ks1;
            let burst = (do_burst \<and> \<not> se_burst s);
            let ks2 = (if burst then ks1\<lparr>ks_send_reliable := Some (reliable_schedule_now snd1 now)\<rparr> else ks1);
            let s2 = (if burst then s\<lparr>se_burst := True\<rparr> else s)\<lparr>se_primary := ks2\<rparr>;
            if ks_key_id ks \<noteq> key_id then Some (False, session_update m1 i s2)
            else do {
              (ok, send_ack, b1) \<leftarrow> reliable_ack_read ack_clear buf (se_session_id s);
              if \<not> ok then Some (False, session_update m1 i s2)
              else do {
                snd2 \<leftarrow> ks_send_reliable ks2;
                rec \<leftarrow> ks_rec_reliable ks2;
                ack \<leftarrow> ks_rec_ack ks2;
                (ok2, rec2, ack2) \<leftarrow> control_receive rec ack b1 op;
                let ks3 = ks2\<lparr>ks_send_reliable := Some (reliable_send_purge snd2 send_ack), ks_rec_reliable := Some rec2,
                              ks_rec_ack := Some ack2\<rparr>;
                Some (ok2, session_update m1 i (s2\<lparr>se_primary := ks3\<rparr>)) } } } }"

definition pre_decrypt_error :: "bool \<Rightarrow> 'ssl tls_multi \<Rightarrow> buffer \<Rightarrow> bool \<times> 'ssl tls_multi \<times> buffer \<times> nat option \<times> int option" where
  "pre_decrypt_error ret multi buf =
     (ret, multi\<lparr>tm_n_soft_errors := tm_n_soft_errors multi + 1\<rparr>, buf\<lparr>b_len := 0\<rparr>, None, None)"

text \<open>\<open>auth\<close> is \<open>read_control_auth\<close>.\<close>

definition tls_pre_decrypt ::
  "'ssl tls_object \<Rightarrow> auth_reader \<Rightarrow> 'ssl tls_multi \<Rightarrow> link_socket_actual \<Rightarrow> buffer \<Rightarrow> bool \<Rightarrow> int \<Rightarrow>
   (bool \<times> 'ssl tls_multi \<times> buffer \<times> nat option \<times> int option) option" where
  "tls_pre_decrypt tls auth multi from buf floated now =
     (if b_len buf \<le> 0 then Some (False, multi, buf\<lparr>b_len := 0\<rparr>, None, None)
      else do {
        p \<leftarrow> buf_bptr buf;
        first \<leftarrow> buf_load buf p 1;
        let op = drop_bit P_OPCODE_SHIFT (uint (hd first));
        if op = P_DATA_V1 \<or> op = P_DATA_V2
        then do { (m, b, opt, ad) \<leftarrow> handle_data_channel_packet multi from buf floated; Some (False, m, b, opt, ad) }
        else do {
          let key_id = uint (hd first AND P_KEY_ID_MASK);
          if op < P_FIRST_OPCODE \<or> op > P_LAST_OPCODE then Some (pre_decrypt_error False multi buf)
          else if (op = P_CONTROL_HARD_RESET_CLIENT_V2 \<or> op = P_CONTROL_HARD_RESET_CLIENT_V3) \<and> \<not> o_server (tm_opt multi) \<or>
                  op = P_CONTROL_HARD_RESET_SERVER_V2 \<and> o_server (tm_opt multi)
          then Some (pre_decrypt_error False multi buf)
          else do {
            (r, _) \<leftarrow> session_id_read (snd (buf_advance buf 1));
            case r of
              None \<Rightarrow> Some (pre_decrypt_error False multi buf)
            | Some sid \<Rightarrow>
                if \<not> session_id_defined sid then Some (pre_decrypt_error False multi buf)
                else do {
                  (m1, b1, route) \<leftarrow> tls_route_control tls auth multi from buf op sid now;
                  case route of
                    None \<Rightarrow> Some (pre_decrypt_error False m1 b1)
                  | Some (i, new_link, do_burst) \<Rightarrow>
                      do { (ok, m2) \<leftarrow> tls_accept_control m1 from b1 op key_id sid i new_link do_burst now;
                           if ok then Some (True, m2, b1\<lparr>b_len := 0\<rparr>, None, None)
                           else Some (pre_decrypt_error True m2 b1) } } } } })"

record tls_auth_standalone =
  ta_tls_wrap :: tls_wrap_ctx
  ta_frame :: frame

definition tls_auth_standalone_init :: "tls_options \<Rightarrow> tls_auth_standalone" where
  "tls_auth_standalone_init opt =
     (let w = o_tls_wrap opt
      in \<lparr>ta_tls_wrap = w\<lparr>tw_opt := (tw_opt w)\<lparr>co_flags := co_flags (tw_opt w) OR CO_IGNORE_PACKET_ID\<rparr>\<rparr>,
          ta_frame = o_frame opt\<rparr>)"

definition tls_auth_standalone_finalize :: "tls_auth_standalone \<Rightarrow> frame \<Rightarrow> tls_auth_standalone option" where
  "tls_auth_standalone_finalize tas frame =
     do { f \<leftarrow> tls_init_control_channel_frame_parameters frame (ta_frame tas); Some (tas\<lparr>ta_frame := f\<rparr>) }"

definition EXPANDED_SIZE_DYNAMIC :: "frame \<Rightarrow> int" where
  "EXPANDED_SIZE_DYNAMIC f = link_mtu_dynamic f"

text \<open>\<open>fresh\<close> is the memory that \<open>clone_buf\<close> allocates.\<close>

definition tls_pre_decrypt_lite :: "auth_reader \<Rightarrow> bytes \<Rightarrow> tls_auth_standalone \<Rightarrow> buffer \<Rightarrow> bool option" where
  "tls_pre_decrypt_lite auth fresh tas buf =
     (if b_len buf \<le> 0 then Some False
      else do {
        p \<leftarrow> buf_bptr buf;
        first \<leftarrow> buf_load buf p 1;
        let op = drop_bit P_OPCODE_SHIFT (uint (hd first));
        let key_id = uint (hd first AND P_KEY_ID_MASK);
        if op \<noteq> P_CONTROL_HARD_RESET_CLIENT_V2 \<and> op \<noteq> P_CONTROL_HARD_RESET_CLIENT_V3 then Some False
        else if key_id \<noteq> 0 then Some False
        else if b_len buf > EXPANDED_SIZE_DYNAMIC (ta_frame tas) then Some False
        else do { newbuf \<leftarrow> clone_buf fresh buf;
                  (status, _) \<leftarrow> auth newbuf (ta_tls_wrap tas);
                  Some status } })"

section \<open>Payload on the control channel\<close>

definition tls_send_payload :: "'ssl tls_object \<Rightarrow> 'ssl tls_multi \<Rightarrow> bytes \<Rightarrow> (bool \<times> 'ssl tls_multi) option" where
  "tls_send_payload tls multi data =
     (let s = tm_session multi ! TM_ACTIVE; ks = se_primary s
      in if ks_state ks \<ge> S_ACTIVE
         then do { ssl \<leftarrow> ks_ssl ks;
                   let (ret, ssl') = key_state_write_plaintext_const tls ssl data;
                   Some (ret = 1, session_update multi TM_ACTIVE (s\<lparr>se_primary := ks\<lparr>ks_ssl := Some ssl'\<rparr>\<rparr>)) }
         else do { ASSERT (buf_size_valid (int (length data)));
                Some (True, session_update multi TM_ACTIVE (s\<lparr>se_primary := ks\<lparr>ks_paybuf := Some ((case ks_paybuf ks of None \<Rightarrow> [] | Some l \<Rightarrow> l) @ [data])\<rparr>\<rparr>)) })"

definition tls_rec_payload :: "'ssl tls_multi \<Rightarrow> buffer \<Rightarrow> (bool \<times> 'ssl tls_multi \<times> buffer) option" where
  "tls_rec_payload multi buf =
     (let s = tm_session multi ! TM_ACTIVE; ks = se_primary s
      in if ks_state ks \<ge> S_ACTIVE \<and> buf_len (ks_plaintext_read_buf ks) \<noteq> 0
         then do { (ok, b) \<leftarrow> buf_copy buf (ks_plaintext_read_buf ks);
                   Some (ok, session_update multi TM_ACTIVE
                     (s\<lparr>se_primary := ks\<lparr>ks_plaintext_read_buf := (ks_plaintext_read_buf ks)\<lparr>b_len := 0\<rparr>\<rparr>\<rparr>), b) }
         else Some (False, multi, buf))"

end
