(* ===== verification/TlsProcess.thy ===== *)
theory TlsProcess
  imports TlsPackets KeyMethod
begin

text \<open>
  The handshake (src: ssl.c): \<open>tls_process\<close> moves a session through its states and carries octets between the
  reliability layer and the TLS object; \<open>tls_multi_process\<close> does so for every session and decides which of them is in use.
\<close>

section \<open>The state of a call\<close>

text \<open>\<open>tp_rnd\<close> holds the random octets that the call will draw.\<close>

record 'ssl tls_proc =
  tp_multi :: "'ssl tls_multi"
  tp_to_link :: buffer
  tp_addr :: "link_socket_actual option"
  tp_info :: link_socket_info
  tp_wakeup :: int
  tp_active :: bool
  tp_rnd :: bytes

definition tp_session :: "'ssl tls_proc \<Rightarrow> nat \<Rightarrow> 'ssl tls_session" where
  "tp_session st i = tm_session (tp_multi st) ! i"

definition tp_ks :: "'ssl tls_proc \<Rightarrow> nat \<Rightarrow> 'ssl key_state" where
  "tp_ks st i = se_primary (tp_session st i)"

definition tp_set_session :: "'ssl tls_proc \<Rightarrow> nat \<Rightarrow> 'ssl tls_session \<Rightarrow> 'ssl tls_proc" where
  "tp_set_session st i s = st\<lparr>tp_multi := session_update (tp_multi st) i s\<rparr>"

definition tp_set_ks :: "'ssl tls_proc \<Rightarrow> nat \<Rightarrow> 'ssl key_state \<Rightarrow> 'ssl tls_proc" where
  "tp_set_ks st i ks = tp_set_session st i ((tp_session st i)\<lparr>se_primary := ks\<rparr>)"

text \<open>A part of the loop goes on, with \<open>state_change\<close> or without, goes to \<open>error\<close>, or leaves the loop.\<close>

datatype 'a tls_step = Going bool 'a | Failed 'a | Stopped 'a

fun step_state :: "'a tls_step \<Rightarrow> 'a" where
  "step_state (Going c st) = st"
| "step_state (Failed st) = st"
| "step_state (Stopped st) = st"

fun step_again :: "'a tls_step \<Rightarrow> bool" where
  "step_again (Going c st) = c"
| "step_again (Failed st) = False"
| "step_again (Stopped st) = False"

fun step_changed :: "bool \<Rightarrow> 'a tls_step \<Rightarrow> 'a tls_step" where
  "step_changed c (Going d st) = Going (c \<or> d) st"
| "step_changed c (Failed st) = Failed st"
| "step_changed c (Stopped st) = Stopped st"

definition then_step :: "'a tls_step option \<Rightarrow> ('a \<Rightarrow> 'a tls_step option) \<Rightarrow> 'a tls_step option" where
  "then_step m f =
     do { r \<leftarrow> m;
          case r of Going c st \<Rightarrow> map_option (step_changed c) (f st) | Failed st \<Rightarrow> Some r | Stopped st \<Rightarrow> Some r }"

section \<open>The parts of the loop\<close>

definition auth_deferred_expire_window :: "tls_options \<Rightarrow> int" where
  "auth_deferred_expire_window opt =
     (let ret = o_handshake_window opt; r2 = o_renegotiate_seconds opt div 2
      in if o_renegotiate_seconds opt \<noteq> 0 \<and> r2 < ret then r2 else ret)"

definition FULL_SYNC :: "'ssl key_state \<Rightarrow> bool option" where
  "FULL_SYNC ks = do { snd \<leftarrow> ks_send_reliable ks; ack \<leftarrow> ks_rec_ack ks; Some (reliable_empty snd \<and> reliable_ack_empty ack) }"

text \<open>Initial handshake\<close>

definition tls_initial :: "nat \<Rightarrow> int \<Rightarrow> 'ssl tls_proc \<Rightarrow> 'ssl tls_proc tls_step option" where
  "tls_initial i now st =
     (let ks = tp_ks st i; opt = tm_opt (tp_multi st)
      in if ks_state ks \<noteq> S_INITIAL then Some (Going False st)
         else do { snd \<leftarrow> ks_send_reliable ks;
                   (ix, snd1) \<leftarrow> reliable_get_buf_output_sequenced snd;
                   case ix of
                     None \<Rightarrow> Some (Going False st)
                   | Some j \<Rightarrow> do {
                       snd2 \<leftarrow> reliable_mark_active_outgoing snd1 j (ks_initial_opcode ks);
                       Some (Going True (tp_set_ks st i (ks\<lparr>ks_must_negotiate := now + o_handshake_window opt,
                         ks_auth_deferred_expire := now + auth_deferred_expire_window opt,
                         ks_send_reliable := Some snd2, ks_state := S_PRE_START\<rparr>))) } })"

text \<open>Are we timed out on receive?\<close>

definition tls_timed_out :: "nat \<Rightarrow> int \<Rightarrow> 'ssl tls_proc \<Rightarrow> 'ssl tls_proc tls_step option" where
  "tls_timed_out i now st =
     (let ks = tp_ks st i
      in Some (if now \<ge> ks_must_negotiate ks \<and> ks_state ks < S_ACTIVE then Failed st else Going False st))"

text \<open>Wait for Initial Handshake ACK\<close>

definition tls_wait_start :: "nat \<Rightarrow> 'ssl tls_proc \<Rightarrow> 'ssl tls_proc tls_step option" where
  "tls_wait_start i st =
     (let ks = tp_ks st i
      in if ks_state ks \<noteq> S_PRE_START then Some (Going False st)
         else do { sync \<leftarrow> FULL_SYNC ks;
                   Some (if sync then Going True (tp_set_ks st i (ks\<lparr>ks_state := S_START\<rparr>)) else Going False st) })"

primrec flush_payload :: "'ssl tls_object \<Rightarrow> 'ssl \<Rightarrow> bytes list \<Rightarrow> 'ssl" where
  "flush_payload tls ssl [] = ssl"
| "flush_payload tls ssl (b # bs) = flush_payload tls (snd (key_state_write_plaintext_const tls ssl b)) bs"

definition flush_payload_buffer :: "'ssl tls_object \<Rightarrow> 'ssl key_state \<Rightarrow> 'ssl key_state option" where
  "flush_payload_buffer tls ks =
     (case ks_paybuf ks of
        None \<Rightarrow> Some ks
      | Some bs \<Rightarrow> do { ssl \<leftarrow> ks_ssl ks; Some (ks\<lparr>ks_ssl := Some (flush_payload tls ssl bs), ks_paybuf := Some []\<rparr>) })"

text \<open>Wait for ACK\<close>

definition tls_wait_active :: "'ssl tls_object \<Rightarrow> nat \<Rightarrow> int \<Rightarrow> 'ssl tls_proc \<Rightarrow> 'ssl tls_proc tls_step option" where
  "tls_wait_active tls i now st =
     (let ks = tp_ks st i; server = o_server (tm_opt (tp_multi st))
      in if ks_state ks = S_GOT_KEY \<and> \<not> server \<or> ks_state ks = S_SENT_KEY \<and> server
         then do { sync \<leftarrow> FULL_SYNC ks;
                   if \<not> sync then Some (Going False st)
                   else do {
                     info \<leftarrow> link_socket_set_outgoing_addr (tp_info st) (ks_remote_addr ks);
                     ks1 \<leftarrow> flush_payload_buffer tls
                       (ks\<lparr>ks_established := now, ks_state := S_ACTIVE, ks_must_negotiate := 0\<rparr>);
                     Some (Going True ((tp_set_ks st i ks1)\<lparr>tp_info := info\<rparr>)) } }
         else Some (Going False st))"

text \<open>Reliable buffer to outgoing TCP/UDP\<close>

definition tls_send_control :: "nat \<Rightarrow> int \<Rightarrow> 'ssl tls_proc \<Rightarrow> 'ssl tls_proc tls_step option" where
  "tls_send_control i now st =
     (let s = tp_session st i; ks = se_primary s
      in do { snd \<leftarrow> ks_send_reliable ks;
              if b_len (tp_to_link st) \<noteq> 0 \<or> \<not> reliable_can_send snd now then Some (Going False st)
              else case reliable_send snd now of
                     (None, _) \<Rightarrow> None
                   | (Some (j, opcode), snd1) \<Rightarrow> do {
                       let e = rl_array snd1 ! j;
                       (w, ack, b, block, addr) \<leftarrow> write_control_auth s ks (e_buf e) opcode CONTROL_SEND_ACK_MAX True (tp_rnd st) now;
                       let snd2 = rel_update snd1 j (e\<lparr>e_buf := (e_buf e)\<lparr>b_data := block\<rparr>\<rparr>);
                       let s1 = s\<lparr>se_tls_wrap := w, se_primary := ks\<lparr>ks_send_reliable := Some snd2, ks_rec_ack := Some ack\<rparr>\<rparr>;
                       Some (Stopped ((tp_set_session st i s1)\<lparr>tp_to_link := b, tp_active := True,
                         tp_addr := (case addr of None \<Rightarrow> tp_addr st | Some a \<Rightarrow> Some a)\<rparr>)) } })"

text \<open>Write incoming ciphertext to TLS object\<close>

definition tls_take_ciphertext :: "'ssl tls_object \<Rightarrow> nat \<Rightarrow> 'ssl tls_proc \<Rightarrow> 'ssl tls_proc tls_step option" where
  "tls_take_ciphertext tls i st =
     (let ks = tp_ks st i
      in do { rec \<leftarrow> ks_rec_reliable ks;
              case reliable_get_buf_sequenced rec of
                None \<Rightarrow> Some (Going False st)
              | Some j \<Rightarrow> do {
                  ssl \<leftarrow> ks_ssl ks;
                  let e = rl_array rec ! j;
                  (status, b, ssl1) \<leftarrow> (if b_len (e_buf e) \<noteq> 0 then key_state_write_ciphertext tls ssl (e_buf e)
                                       else Some (1, e_buf e, ssl));
                  let rec1 = rel_update rec j (e\<lparr>e_buf := b\<rparr>);
                  let ks1 = ks\<lparr>ks_ssl := Some ssl1, ks_rec_reliable := Some rec1\<rparr>;
                  if status = - 1 then Some (Failed (tp_set_ks st i ks1))
                  else if status = 1
                  then do { rec2 \<leftarrow> reliable_mark_deleted rec1 j True;
                            Some (Going True (tp_set_ks st i (ks1\<lparr>ks_rec_reliable := Some rec2\<rparr>))) }
                  else Some (Going False (tp_set_ks st i ks1)) } })"

text \<open>Read incoming plaintext from TLS object\<close>

definition tls_take_plaintext :: "'ssl tls_object \<Rightarrow> nat \<Rightarrow> 'ssl tls_proc \<Rightarrow> 'ssl tls_proc tls_step option" where
  "tls_take_plaintext tls i st =
     (let ks = tp_ks st i
      in if b_len (ks_plaintext_read_buf ks) \<noteq> 0 then Some (Going False st)
         else do { let (ok, b0) = buf_init (ks_plaintext_read_buf ks) 0;
                   ASSERT ok;
                   ssl \<leftarrow> ks_ssl ks;
                   (status, b, ssl1) \<leftarrow> key_state_read_plaintext tls ssl b0 TLS_CHANNEL_BUF_SIZE;
                   let st1 = tp_set_ks st i (ks\<lparr>ks_ssl := Some ssl1, ks_plaintext_read_buf := b\<rparr>);
                   Some (if status = - 1 then Failed st1
                         else if status = 1 then Going True (st1\<lparr>tp_wakeup := 0\<rparr>) else Going False st1) })"

text \<open>Send Key\<close>

definition tls_send_key :: "hs_env \<Rightarrow> nat \<Rightarrow> 'ssl tls_proc \<Rightarrow> 'ssl tls_proc tls_step option" where
  "tls_send_key env i st =
     (let s = tp_session st i; ks = se_primary s; opt = tm_opt (tp_multi st)
      in if b_len (ks_plaintext_write_buf ks) = 0 \<and>
            (ks_state ks = S_START \<and> \<not> o_server opt \<or> ks_state ks = S_GOT_KEY \<and> o_server opt)
         then do { (ok, b, opt1, s1, rnd) \<leftarrow> key_method_2_write env opt (ks_plaintext_write_buf ks) s (tp_rnd st);
                   let s2 = s1\<lparr>se_primary := (se_primary s1)\<lparr>ks_plaintext_write_buf := b\<rparr>\<rparr>;
                   let st1 = (tp_set_session (st\<lparr>tp_multi := (tp_multi st)\<lparr>tm_opt := opt1\<rparr>\<rparr>) i s2)\<lparr>tp_rnd := rnd\<rparr>;
                   Some (if \<not> ok then Failed st1
                         else Going True (tp_set_ks st1 i ((tp_ks st1 i)\<lparr>ks_state := S_SENT_KEY\<rparr>))) }
         else Some (Going False st))"

text \<open>Receive Key\<close>

definition tls_receive_key :: "hs_env \<Rightarrow> nat \<Rightarrow> 'ssl tls_proc \<Rightarrow> 'ssl tls_proc tls_step option" where
  "tls_receive_key env i st =
     (let ks = tp_ks st i; opt = tm_opt (tp_multi st)
      in if b_len (ks_plaintext_read_buf ks) \<noteq> 0 \<and>
            (ks_state ks = S_SENT_KEY \<and> \<not> o_server opt \<or> ks_state ks = S_START \<and> o_server opt)
         then do { (ok, b, multi) \<leftarrow> key_method_2_read env (ks_plaintext_read_buf ks) (tp_multi st) i;
                   let st0 = st\<lparr>tp_multi := multi\<rparr>;
                   let st1 = tp_set_ks st0 i ((tp_ks st0 i)\<lparr>ks_plaintext_read_buf := b\<rparr>);
                   Some (if \<not> ok then Failed st1
                         else Going True (tp_set_ks st1 i ((tp_ks st1 i)\<lparr>ks_state := S_GOT_KEY\<rparr>))) }
         else Some (Going False st))"

text \<open>Write outgoing plaintext to TLS object\<close>

definition tls_give_plaintext :: "'ssl tls_object \<Rightarrow> nat \<Rightarrow> 'ssl tls_proc \<Rightarrow> 'ssl tls_proc tls_step option" where
  "tls_give_plaintext tls i st =
     (let ks = tp_ks st i
      in if b_len (ks_plaintext_write_buf ks) = 0 then Some (Going False st)
         else do { ssl \<leftarrow> ks_ssl ks;
                   (status, b, ssl1) \<leftarrow> key_state_write_plaintext tls ssl (ks_plaintext_write_buf ks);
                   let st1 = tp_set_ks st i (ks\<lparr>ks_ssl := Some ssl1, ks_plaintext_write_buf := b\<rparr>);
                   Some (if status = - 1 then Failed st1 else Going (status = 1) st1) })"

text \<open>Outgoing Ciphertext to reliable buffer\<close>

definition tls_give_ciphertext :: "'ssl tls_object \<Rightarrow> nat \<Rightarrow> 'ssl tls_proc \<Rightarrow> 'ssl tls_proc tls_step option" where
  "tls_give_ciphertext tls i st =
     (let ks = tp_ks st i
      in if ks_state ks < S_START then Some (Going False st)
         else do { snd \<leftarrow> ks_send_reliable ks;
                   (ix, snd1) \<leftarrow> reliable_get_buf_output_sequenced snd;
                   case ix of
                     None \<Rightarrow> Some (Going False st)
                   | Some j \<Rightarrow> do {
                       ssl \<leftarrow> ks_ssl ks;
                       let e = rl_array snd1 ! j;
                       (status, b, ssl1) \<leftarrow> key_state_read_ciphertext tls ssl (e_buf e)
                                            (PAYLOAD_SIZE_DYNAMIC (o_frame (tm_opt (tp_multi st))));
                       let snd2 = rel_update snd1 j (e\<lparr>e_buf := b\<rparr>);
                       let ks1 = ks\<lparr>ks_ssl := Some ssl1, ks_send_reliable := Some snd2\<rparr>;
                       if status = - 1 then Some (Failed (tp_set_ks st i ks1))
                       else if status = 1
                       then do { snd3 \<leftarrow> reliable_mark_active_outgoing snd2 j P_CONTROL_V1;
                                 Some (Going True (tp_set_ks st i (ks1\<lparr>ks_send_reliable := Some snd3\<rparr>))) }
                       else Some (Going False (tp_set_ks st i ks1)) } })"

section \<open>The loop\<close>

text \<open>One round of the loop of \<open>tls_process\<close>, at the time \<open>now\<close>.\<close>

definition tls_round :: "'ssl tls_object \<Rightarrow> hs_env \<Rightarrow> nat \<Rightarrow> int \<Rightarrow> 'ssl tls_proc \<Rightarrow> 'ssl tls_proc tls_step option" where
  "tls_round tls env i now st =
     foldl then_step (tls_initial i now st)
       [tls_timed_out i now, tls_wait_start i, tls_wait_active tls i now, tls_send_control i now,
        tls_take_ciphertext tls i, tls_take_plaintext tls i, tls_send_key env i, tls_receive_key env i,
        tls_give_plaintext tls i, tls_give_ciphertext tls i]"

text \<open>\<open>time k\<close> is the time at round \<open>k\<close>. The loop goes on as long as something changes; the result has the number of rounds.\<close>

partial_function (option) tls_rounds ::
  "'ssl tls_object \<Rightarrow> hs_env \<Rightarrow> nat \<Rightarrow> (nat \<Rightarrow> int) \<Rightarrow> nat \<Rightarrow> 'ssl tls_proc \<Rightarrow> (nat \<times> 'ssl tls_proc tls_step) option" where
  "tls_rounds tls env i time k st =
     do { r \<leftarrow> tls_round tls env i (time k) st;
          if step_again r then tls_rounds tls env i time (Suc k) (step_state r) else Some (Suc k, r) }"

text \<open>Should we trigger a soft reset?\<close>

definition tls_wants_soft_reset :: "tls_options \<Rightarrow> 'ssl key_state \<Rightarrow> int \<Rightarrow> bool" where
  "tls_wants_soft_reset opt ks now \<longleftrightarrow> ks_state ks \<ge> S_ACTIVE \<and>
     (o_renegotiate_seconds opt \<noteq> 0 \<and> now \<ge> ks_established ks + o_renegotiate_seconds opt \<or>
      o_renegotiate_bytes opt > 0 \<and> ks_n_bytes ks \<ge> word_of_int (o_renegotiate_bytes opt) \<or>
      o_renegotiate_packets opt \<noteq> 0 \<and> ks_n_packets ks \<ge> word_of_int (o_renegotiate_packets opt) \<or>
      packet_id_close_to_wrapping (p_send (co_packet_id (ks_crypto ks))))"

text \<open>Send 1 or more ACKs\<close>

definition tls_send_acks :: "nat \<Rightarrow> int \<Rightarrow> 'ssl tls_proc \<Rightarrow> 'ssl tls_proc option" where
  "tls_send_acks i now st =
     (let s = tp_session st i; ks = se_primary s
      in do { ack \<leftarrow> ks_rec_ack ks;
              if b_len (tp_to_link st) \<noteq> 0 \<or> reliable_ack_empty ack then Some st
              else do {
                let (ok, b0) = buf_init (ks_ack_write_buf ks) (FRAME_HEADROOM (o_frame (tm_opt (tp_multi st))));
                ASSERT ok;
                (w, ack1, b, block, addr) \<leftarrow> write_control_auth s ks b0 P_ACK_V1 RELIABLE_ACK_SIZE False (tp_rnd st) now;
                let s1 = s\<lparr>se_tls_wrap := w, se_primary := ks\<lparr>ks_rec_ack := Some ack1,
                           ks_ack_write_buf := (ks_ack_write_buf ks)\<lparr>b_data := block\<rparr>\<rparr>\<rparr>;
                Some ((tp_set_session st i s1)\<lparr>tp_to_link := b, tp_active := True,
                        tp_addr := (case addr of None \<Rightarrow> tp_addr st | Some a \<Rightarrow> Some a)\<rparr>) } })"

text \<open>When should we wake up again?\<close>

definition tls_next_wakeup :: "nat \<Rightarrow> int \<Rightarrow> 'ssl tls_proc \<Rightarrow> 'ssl tls_proc option" where
  "tls_next_wakeup i now st =
     (let ks = tp_ks st i; opt = tm_opt (tp_multi st)
      in do { w1 \<leftarrow> (if ks_state ks \<ge> S_INITIAL
                    then do { snd \<leftarrow> ks_send_reliable ks;
                              let w = compute_earliest_wakeup (tp_wakeup st) (reliable_send_timeout snd now);
                              Some (if ks_must_negotiate ks \<noteq> 0 then compute_earliest_wakeup w (ks_must_negotiate ks - now) else w) }
                    else Some (tp_wakeup st));
              let w2 = (if ks_established ks \<noteq> 0 \<and> o_renegotiate_seconds opt \<noteq> 0
                        then compute_earliest_wakeup w1 (ks_established ks + o_renegotiate_seconds opt - now) else w1);
              Some (if w2 \<le> 0 then st\<lparr>tp_wakeup := 1, tp_active := True\<rparr> else st\<lparr>tp_wakeup := w2\<rparr>) })"

text \<open>
  \<open>tls_process\<close> for session \<open>i\<close>: \<open>time 0\<close> is the time of the call, \<open>time 1\<close> that of a soft reset, \<open>time (k + 2)\<close> that of
  round \<open>k\<close>. The answer is \<open>tp_active\<close> of the result; after an error it is \<open>False\<close>.
\<close>

definition tls_process ::
  "'ssl tls_object \<Rightarrow> hs_env \<Rightarrow> nat \<Rightarrow> (nat \<Rightarrow> int) \<Rightarrow> 'ssl tls_proc \<Rightarrow> 'ssl tls_proc option" where
  "tls_process tls env i time st0 =
     do { let st = st0\<lparr>tp_active := False\<rparr>;
          let ks = tp_ks st i;
          ASSERT (ks_state ks \<noteq> S_UNDEF);
          ASSERT (ks_state ks \<noteq> S_ERROR);
          ASSERT (session_id_defined (se_session_id (tp_session st i)));
          let reset = tls_wants_soft_reset (tm_opt (tp_multi st)) ks (time 0);
          st1 \<leftarrow> (if reset
                 then map_option (tp_set_session st i) (key_state_soft_reset tls (tm_opt (tp_multi st)) (time 0) (tp_session st i))
                 else Some st);
          (die, wake) \<leftarrow> lame_duck_must_die (tp_session st1 i) (tp_wakeup st1) (time (if reset then 1 else 0));
          let s1 = tp_session st1 i;
          let st2 = (if die then tp_set_session st1 i (s1\<lparr>se_lame := key_state_free (se_lame s1) True\<rparr>) else st1)\<lparr>tp_wakeup := wake\<rparr>;
          (n, r) \<leftarrow> tls_rounds tls env i (\<lambda>k. time (k + 2)) 0 st2;
          case r of
            Failed st3 \<Rightarrow> Some ((tp_set_ks st3 i ((tp_ks st3 i)\<lparr>ks_state := S_ERROR\<rparr>))\<lparr>tp_active := False\<rparr>)
          | _ \<Rightarrow> do { st4 \<leftarrow> tls_send_acks i (time (n + 2)) (step_state r);
                      tls_next_wakeup i (time (n + 2)) st4 } }"

section \<open>All sessions\<close>

datatype acf_result = ACF_UNDEFINED | ACF_SUCCEEDED | ACF_DISABLED | ACF_FAILED
datatype tls_authentication = TLS_AUTHENTICATION_SUCCEEDED | TLS_AUTHENTICATION_FAILED | TLS_AUTHENTICATION_DEFERRED |
  TLS_AUTHENTICATION_UNDEFINED
datatype tlsmp = TLSMP_INACTIVE | TLSMP_ACTIVE | TLSMP_KILL

definition TLS_MULTI_AUTH_STATUS_INTERVAL :: int where "TLS_MULTI_AUTH_STATUS_INTERVAL = 10"

fun acf_merge :: "acf_result \<Rightarrow> acf_result \<Rightarrow> acf_result" where
  "acf_merge ACF_UNDEFINED s2 = (if s2 = ACF_FAILED then ACF_FAILED else ACF_UNDEFINED)"
| "acf_merge ACF_SUCCEEDED s2 =
     (case s2 of ACF_UNDEFINED \<Rightarrow> ACF_UNDEFINED | ACF_FAILED \<Rightarrow> ACF_FAILED | _ \<Rightarrow> ACF_SUCCEEDED)"
| "acf_merge ACF_DISABLED s2 = s2"
| "acf_merge ACF_FAILED s2 = ACF_FAILED"

text \<open>
  One key of \<open>tls_authentication_status\<close>. \<open>acf i\<close> holds what the control file of key \<open>i\<close> says and what the management
  interface says. The flags are \<open>active\<close>, \<open>success\<close> and \<open>deferred\<close>.
\<close>

definition tls_authentication_key ::
  "(nat \<Rightarrow> acf_result \<times> acf_result) \<Rightarrow> int \<Rightarrow> nat \<Rightarrow> 'ssl tls_multi \<times> bool \<times> bool \<times> bool \<Rightarrow> 'ssl tls_multi \<times> bool \<times> bool \<times> bool" where
  "tls_authentication_key acf now i st =
     (case st of (multi, active, success, deferred) \<Rightarrow>
        let ks = key_scan multi i
        in if \<not> DECRYPT_KEY_ENABLED multi ks then st
           else if ks_authenticated ks = KS_AUTH_FALSE then (multi, True, success, deferred)
           else case acf_merge (fst (acf i)) (snd (acf i)) of
                  ACF_UNDEFINED \<Rightarrow> (multi, True, success, deferred \<or> now < ks_auth_deferred_expire ks)
                | ACF_FAILED \<Rightarrow> (key_scan_update multi i (ks\<lparr>ks_authenticated := KS_AUTH_FALSE\<rparr>), True, success, deferred)
                | _ \<Rightarrow> (key_scan_update multi i (ks\<lparr>ks_authenticated := KS_AUTH_TRUE\<rparr>), True, True, deferred))"

definition tls_authentication_status ::
  "(nat \<Rightarrow> acf_result \<times> acf_result) \<Rightarrow> 'ssl tls_multi \<Rightarrow> int \<Rightarrow> int \<Rightarrow> tls_authentication \<times> 'ssl tls_multi" where
  "tls_authentication_status acf multi latency now =
     (if latency \<noteq> 0 \<and> tm_tas_last multi \<noteq> 0 \<and> tm_tas_last multi + latency \<ge> now
      then (TLS_AUTHENTICATION_UNDEFINED, multi)
      else case fold (tls_authentication_key acf now) [0..<KEY_SCAN_SIZE] (multi\<lparr>tm_tas_last := now\<rparr>, False, False, False) of
             (m, active, success, deferred) \<Rightarrow>
               (if success then TLS_AUTHENTICATION_SUCCEEDED
                else if \<not> active \<or> deferred then TLS_AUTHENTICATION_DEFERRED
                else TLS_AUTHENTICATION_FAILED, m))"

text \<open>
  One session of the loop of \<open>tls_multi_process\<close>. The state of the loop has the tunnel, the answer so far, \<open>error\<close> and the
  session identifiers to draw. \<open>tp_addr\<close> is \<open>*to_link_addr\<close>, the address of an outgoing packet.
\<close>

definition tls_multi_session ::
  "'ssl tls_object \<Rightarrow> hs_env \<Rightarrow> (nat \<Rightarrow> nat \<Rightarrow> int) \<Rightarrow> nat \<Rightarrow>
   'ssl tls_proc \<times> tlsmp \<times> bool \<times> session_id list \<Rightarrow> ('ssl tls_proc \<times> tlsmp \<times> bool \<times> session_id list) option" where
  "tls_multi_session tls env time i x =
     (case x of (st0, act, error, ids) \<Rightarrow>
        let ks0 = tp_ks st0 i;
            st = (if i = TM_ACTIVE \<and> ks_state ks0 = S_INITIAL \<and>
                     link_socket_actual_defined (Some (la_actual (li_lsa (tp_info st0))))
                  then tp_set_ks st0 i (ks0\<lparr>ks_remote_addr := la_actual (li_lsa (tp_info st0))\<rparr>) else st0)
        in if ks_state (tp_ks st i) \<ge> S_INITIAL \<and> link_socket_actual_defined (Some (ks_remote_addr (tp_ks st i)))
           then do {
             st1 \<leftarrow> tls_process tls env i (time i) (st\<lparr>tp_addr := None\<rparr>);
             let act1 = (if tp_active st1 then TLSMP_ACTIVE else act);
             let st2 = (case tp_addr st1 of
                          None \<Rightarrow> st1\<lparr>tp_addr := tp_addr st\<rparr>
                        | Some a \<Rightarrow> st1\<lparr>tp_multi := (tp_multi st1)\<lparr>tm_to_link_addr := a\<rparr>\<rparr>);
             if ks_state (tp_ks st2 i) \<noteq> S_ERROR then Some (st2, act1, error, ids)
             else do {
               let m = (tp_multi st2)\<lparr>tm_n_soft_errors := tm_n_soft_errors (tp_multi st2) + 1\<rparr>;
               (m1, ids1) \<leftarrow> (if i = TM_ACTIVE \<and> ks_state (se_lame (tp_session st2 i)) \<ge> S_ACTIVE \<and> \<not> o_single_session (tm_opt m)
                             then move_session tls m TM_LAME_DUCK TM_ACTIVE True ids
                             else reset_session tls m i ids);
               Some (st2\<lparr>tp_multi := m1\<rparr>, act1, error \<or> i = TM_ACTIVE, ids1) } }
           else Some (st, act, error, ids))"

definition GREMLIN_CONNECTION_FLOOD_LEVEL :: "int \<Rightarrow> int" where
  "GREMLIN_CONNECTION_FLOOD_LEVEL x = x AND 7"

text \<open>The last part: lame ducks, the promotion of the untrusted session, and hard errors.\<close>

definition tls_multi_finish ::
  "'ssl tls_object \<Rightarrow> 'ssl tls_proc \<Rightarrow> bool \<Rightarrow> session_id list \<Rightarrow> int \<Rightarrow> ('ssl tls_proc \<times> session_id list) option" where
  "tls_multi_finish tls st error ids now =
     do { let m0 = tp_multi st;
          (die, wake) \<leftarrow> lame_duck_must_die (tm_session m0 ! TM_LAME_DUCK) (tp_wakeup st) now;
          let m1 = (if die then session_update m0 TM_LAME_DUCK (tls_session_free (tm_session m0 ! TM_LAME_DUCK) True) else m0);
          (m2, ids1) \<leftarrow> (if DECRYPT_KEY_ENABLED m1 (se_primary (tm_session m1 ! TM_UNTRUSTED))
                        then move_session tls m1 TM_ACTIVE TM_UNTRUSTED True ids
                        else Some (m1, ids));
          let hard = (error \<and> (\<forall>i \<in> {0, 1, 2}. \<not> ks_state (key_scan m2 i) \<ge> S_ACTIVE));
          let m3 = (if hard then m2\<lparr>tm_n_hard_errors := tm_n_hard_errors m2 + 1\<rparr> else m2);
          let level = GREMLIN_CONNECTION_FLOOD_LEVEL (o_gremlin (tm_opt m3));
          let flood = (if level \<noteq> 0 then int (length (filter (\<lambda>i. ks_state (key_scan m3 i) \<ge> level) [0, 1, 2])) else 0);
          Some (st\<lparr>tp_multi := m3\<lparr>tm_n_hard_errors := tm_n_hard_errors m3 + flood, tm_n_soft_errors := tm_n_soft_errors m3 + flood\<rparr>,
                   tp_wakeup := wake\<rparr>, ids1) }"

definition tls_multi_process ::
  "'ssl tls_object \<Rightarrow> hs_env \<Rightarrow> (nat \<Rightarrow> acf_result \<times> acf_result) \<Rightarrow> (nat \<Rightarrow> nat \<Rightarrow> int) \<Rightarrow> int \<Rightarrow>
   'ssl tls_proc \<Rightarrow> session_id list \<Rightarrow> (tlsmp \<times> 'ssl tls_proc \<times> session_id list) option" where
  "tls_multi_process tls env acf time now st0 ids0 =
     do { x1 \<leftarrow> tls_multi_session tls env time 0 (st0, TLSMP_INACTIVE, False, ids0);
          x2 \<leftarrow> tls_multi_session tls env time 1 x1;
          (st, act, error, ids) \<leftarrow> tls_multi_session tls env time 2 x2;
          let (tas, m) = tls_authentication_status acf (tp_multi st) TLS_MULTI_AUTH_STATUS_INTERVAL now;
          (st', ids') \<leftarrow> tls_multi_finish tls (st\<lparr>tp_multi := m\<rparr>) error ids now;
          Some (if tas = TLS_AUTHENTICATION_FAILED then TLSMP_KILL else act, st', ids') }"

end
