(* ===== verification/TlsRouting.thy ===== *)
theory TlsRouting
  imports TlsPackets
begin

text \<open>
  What the choice of a key for a data packet guarantees: only keys that are negotiated and authenticated open packets,
  and a packet finds at the other end the key that it was sealed with.
\<close>

section \<open>The key of an incoming packet\<close>

lemma key_scan_indices: "[0..<KEY_SCAN_SIZE] = [0, 1, 2]"
  by (simp add: KEY_SCAN_SIZE_def upt_rec)

definition opens_for :: "'ssl tls_multi \<Rightarrow> link_socket_actual \<Rightarrow> bool \<Rightarrow> int \<Rightarrow> nat \<Rightarrow> bool" where
  "opens_for multi from floated key_id i \<longleftrightarrow>
     DECRYPT_KEY_ENABLED multi (key_scan multi i) \<and> ks_key_id (key_scan multi i) = key_id \<and>
     ks_authenticated (key_scan multi i) = KS_AUTH_TRUE \<and>
     (floated \<or> link_socket_actual_match from (ks_remote_addr (key_scan multi i)) = Some True)"

lemma data_channel_key_opens:
  "data_channel_key multi from floated key_id scan = Some (Some i) \<Longrightarrow> i \<in> set scan \<and> opens_for multi from floated key_id i"
  by (induction scan) (auto simp: Let_def opens_for_def bind_eq_Some_conv split: if_splits)

lemma data_channel_key_skip:
  "ks_key_id (key_scan multi i) \<noteq> key_id \<Longrightarrow>
   data_channel_key multi from floated key_id (i # scan) = data_channel_key multi from floated key_id scan"
  by (simp add: Let_def)

lemma data_channel_key_take:
  "opens_for multi from floated key_id i \<Longrightarrow> data_channel_key multi from floated key_id (i # scan) = Some (Some i)"
  by (auto simp: Let_def opens_for_def)

lemma data_channel_key_first:
  assumes "opens_for multi from floated key_id i" "i < 3" "\<forall>j < i. ks_key_id (key_scan multi j) \<noteq> key_id"
  shows "data_channel_key multi from floated key_id [0..<KEY_SCAN_SIZE] = Some (Some i)"
proof -
  consider "i = 0" | "i = 1" | "i = 2" using assms(2) by linarith
  then show ?thesis
  proof cases
    case 1
    then show ?thesis using assms(1) data_channel_key_take unfolding key_scan_indices by blast
  next
    case 2
    then have "ks_key_id (key_scan multi 0) \<noteq> key_id" using assms(3) by simp
    then show ?thesis using 2 assms(1) data_channel_key_take [of multi "from" floated key_id 1]
      unfolding key_scan_indices by (simp only: data_channel_key_skip simp_thms)
  next
    case 3
    then have "ks_key_id (key_scan multi 0) \<noteq> key_id" "ks_key_id (key_scan multi 1) \<noteq> key_id" using assms(3) by simp_all
    then show ?thesis using 3 assms(1) data_channel_key_take [of multi "from" floated key_id 2]
      unfolding key_scan_indices by (simp only: data_channel_key_skip simp_thms)
  qed
qed

lemma buf_load_first:
  assumes "buf_ok buf" "0 < b_len buf"
  shows "buf_load buf (b_offset buf) 1 = Some [hd (buf_content buf)]"
proof -
  obtain h w where w: "buf_content buf = h # w" using assms length_buf_content [of buf] by (cases "buf_content buf") auto
  then show ?thesis using assms(2) buf_load_ok [OF assms(1), of "b_offset buf" 1] by simp
qed

text \<open>The effect on a well-formed packet, with its opcode and key identifier.\<close>

definition data_key_used :: "'ssl tls_multi \<Rightarrow> nat \<Rightarrow> int \<Rightarrow> 'ssl tls_multi" where
  "data_key_used multi i len =
     key_scan_update multi i ((key_scan multi i)\<lparr>ks_n_packets := ks_n_packets (key_scan multi i) + 1,
       ks_n_bytes := ks_n_bytes (key_scan multi i) + word_of_int len\<rparr>)"

lemma handle_data_channel_packet_eq:
  assumes "buf_ok buf" "0 < b_len buf" "c = uint (hd (buf_content buf))" "n = (if drop_bit 3 c = P_DATA_V2 then 4 else 1)"
  shows "handle_data_channel_packet multi from buf floated =
    do { sel \<leftarrow> data_channel_key multi from floated (c AND 7) [0..<KEY_SCAN_SIZE];
         case sel of
           None \<Rightarrow> Some (multi, buf\<lparr>b_len := 0\<rparr>, None, None)
         | Some i \<Rightarrow>
             let ad = (if drop_bit 3 c = P_DATA_V2 then Some (b_offset buf)
                       else if drop_bit 3 c = P_DATA_V1 then Some (b_offset buf + 1) else None)
             in if \<not> ks_initialized (key_scan multi i) then Some (multi, buf\<lparr>b_len := 0\<rparr>, None, None)
                else if n = 4 \<and> b_len buf < 5
                then Some (multi\<lparr>tm_n_soft_errors := tm_n_soft_errors multi + 1\<rparr>, (buf_drop buf 1)\<lparr>b_len := 0\<rparr>, None, ad)
                else Some (data_key_used multi i (b_len buf - n), buf_drop buf n, Some i, ad) }"
proof -
  let ?h = "hd (buf_content buf)"
  have k: "uint (?h AND P_KEY_ID_MASK) = c AND 7" using assms(3) by (simp add: P_KEY_ID_MASK_def uint_and)
  have p: "buf_bptr buf = Some (b_offset buf)" "buf_bptr (buf_drop buf 1) = Some (b_offset buf + 1)"
    using assms(1,2) by simp_all
  have a1: "buf_advance buf 1 = (True, buf_drop buf 1)" using assms(1,2) by (simp add: buf_advance_ok)
  have l1: "b_len (buf_drop buf 1) = b_len buf - 1" "buf_ok (buf_drop buf 1)" using assms(1,2) by simp_all
  have a3: "buf_advance (buf_drop buf 1) 3 = (True, buf_drop buf 4)" if "\<not> b_len buf < 5"
    using that l1 by (simp add: buf_advance_ok) (simp add: buf_drop_def)
  have l4: "b_len (buf_drop buf 4) = b_len buf - 4" by (simp add: buf_drop_def)
  note H = handle_data_channel_packet_def [of multi "from" buf floated] 
  have cs: "drop_bit P_OPCODE_SHIFT (uint ?h) = drop_bit 3 c" using assms(3) by (simp add: P_OPCODE_SHIFT_def)
  show ?thesis
    unfolding H p(1) buf_load_first [OF assms(1,2)] bind.bind_lunit list.sel k cs Let_def a1 prod.case ASSERT_True [OF TrueI] l1(1)
    by (rule arg_cong [where f = "Option.bind (data_channel_key multi from floated (c AND 7) [0..<KEY_SCAN_SIZE])"], rule ext)
       (auto simp: assms(4) p(2) a3 l4 l1(1) data_key_used_def P_DATA_V1_def P_DATA_V2_def split: option.split)
qed

lemma tls_pre_decrypt_data:
  assumes "buf_ok buf" "0 < b_len buf" "drop_bit 3 (uint (hd (buf_content buf))) \<in> {P_DATA_V1, P_DATA_V2}"
  shows "tls_pre_decrypt tls auth multi from buf floated now =
    do { (m, b, opt, ad) \<leftarrow> handle_data_channel_packet multi from buf floated; Some (False, m, b, opt, ad) }"
  using assms by (auto simp: tls_pre_decrypt_def buf_load_first Let_def P_OPCODE_SHIFT_def)

lemma tls_pre_decrypt_control:
  assumes "buf_ok buf" "0 < b_len buf" "drop_bit 3 (uint (hd (buf_content buf))) \<notin> {P_DATA_V1, P_DATA_V2}"
    and "tls_pre_decrypt tls auth multi from buf floated now = Some (ret, multi', b, opt, ad)"
  shows "opt = None \<and> b_len b = 0"
  using assms
  by (auto simp: tls_pre_decrypt_def buf_load_first Let_def P_OPCODE_SHIFT_def pre_decrypt_error_def
      split: if_split_asm option.split_asm prod.split_asm Option.bind_split_asm)

text \<open>
  C10. Only a trusted key opens a data packet. Whatever packet arrives, \<open>tls_pre_decrypt\<close> hands the caller a key only
  for a data packet, and then one of the three keys in use: negotiated, initialized, with its peer fully authenticated,
  named by the identifier in the packet, and negotiated with the address that the packet comes from unless the peer has
  moved. The header is cut off and nothing but the two counters of that key changes. In every other case the packet is dropped.
\<close>

theorem data_packet_needs_trusted_key:
  assumes "tls_pre_decrypt tls auth multi from buf floated now = Some (ret, multi', b, opt, ad)" and "buf_ok buf"
  shows "case opt of
      None \<Rightarrow> b_len b = 0
    | Some i \<Rightarrow>
        let c = uint (hd (buf_content buf)); n = (if drop_bit 3 c = P_DATA_V2 then 4 else 1); ks = key_scan multi i
        in \<not> ret \<and> drop_bit 3 c \<in> {P_DATA_V1, P_DATA_V2} \<and> i < 3 \<and>
           DECRYPT_KEY_ENABLED multi ks \<and> ks_initialized ks \<and> ks_authenticated ks = KS_AUTH_TRUE \<and> ks_key_id ks = c AND 7 \<and>
           (floated \<or> link_socket_actual_match from (ks_remote_addr ks) = Some True) \<and>
           n \<le> b_len buf \<and> b = buf_drop buf n \<and> multi' = data_key_used multi i (b_len b)"
proof (cases "0 < b_len buf")
  case False
  then show ?thesis using assms(1) by (auto simp: tls_pre_decrypt_def)
next
  case len: True
  let ?c = "uint (hd (buf_content buf))"
  let ?n = "if drop_bit 3 ?c = P_DATA_V2 then 4 else 1 :: int"
  show ?thesis
  proof (cases "drop_bit 3 ?c \<in> {P_DATA_V1, P_DATA_V2}")
    case False
    then show ?thesis using tls_pre_decrypt_control [OF assms(2) len False assms(1)] by simp
  next
    case data: True
    have h: "handle_data_channel_packet multi from buf floated = Some (multi', b, opt, ad)" "\<not> ret"
      using assms(1) unfolding tls_pre_decrypt_data [OF assms(2) len data] by (auto simp: bind_eq_Some_conv)
    note E = handle_data_channel_packet_eq [OF assms(2) len refl refl, of multi "from" floated]
    obtain sel where sel: "data_channel_key multi from floated (?c AND 7) [0..<KEY_SCAN_SIZE] = Some sel"
      using h(1) unfolding E by (auto simp: bind_eq_Some_conv)
    show ?thesis
    proof (cases sel)
      case None
      then show ?thesis using h(1) sel unfolding E by auto
    next
      case (Some i)
      then have k: "i < 3" "opens_for multi from floated (?c AND 7) i"
        using sel data_channel_key_opens [of multi "from" floated] by (force simp: KEY_SCAN_SIZE_def)+
      have r: "(multi', b, opt, ad) = (if \<not> ks_initialized (key_scan multi i) then (multi, buf\<lparr>b_len := 0\<rparr>, None, None)
          else if ?n = 4 \<and> b_len buf < 5
          then (multi\<lparr>tm_n_soft_errors := tm_n_soft_errors multi + 1\<rparr>, (buf_drop buf 1)\<lparr>b_len := 0\<rparr>, None, ad)
          else (data_key_used multi i (b_len buf - ?n), buf_drop buf ?n, Some i, ad))"
        using h(1) sel Some unfolding E by (auto simp: Let_def split: if_splits)
      then show ?thesis using k data len h(2) unfolding opens_for_def by (auto simp: buf_drop_def Let_def split: if_splits)
    qed
  qed
qed

section \<open>The header of an outgoing packet\<close>

lemma v2_first_octet:
  assumes "0 \<le> k" "k < 8"
  shows "hd (u32_bytes (push_bit 24 (word_of_int (push_bit P_OPCODE_SHIFT P_DATA_V2 OR k)) OR (peer AND 0xFFFFFF))) = word_of_int (72 + k)"
proof -
  have m: "(0xFFFFFF :: u32) = mask 24" by (simp add: mask_eq_exp_minus_1)
  have "\<forall>n < 8. bit (ucast (drop_bit 24 (push_bit 24 w OR (peer AND mask 24))) :: u8) n = bit (ucast w :: u8) n" for w :: u32
    by (auto simp: bit_simps)
  then have u: "(ucast (drop_bit 24 (push_bit 24 w OR (peer AND mask 24))) :: u8) = ucast w" for w :: u32
    by (intro bit_word_eqI) auto
  have "k \<in> {0, 1, 2, 3, 4, 5, 6, 7}" using assms by auto
  then have "(ucast (word_of_int (push_bit P_OPCODE_SHIFT P_DATA_V2 OR k) :: u32) :: u8) = word_of_int (72 + k)"
    by (auto simp: P_OPCODE_SHIFT_def P_DATA_V2_def)
  then show ?thesis using u by (simp add: u32_bytes_def m)
qed

lemma v2_first_octet_read:
  assumes "0 \<le> k" "k < 8"
  shows "uint (word_of_int (72 + k) :: u8) = 72 + k" "drop_bit 3 (72 + k) = P_DATA_V2" "(72 + k) AND 7 = k"
proof -
  have "k \<in> {0, 1, 2, 3, 4, 5, 6, 7}" using assms by auto
  then show "uint (word_of_int (72 + k) :: u8) = 72 + k" "drop_bit 3 (72 + k) = P_DATA_V2" "(72 + k) AND 7 = k"
    by (auto simp: P_DATA_V2_def)
qed

lemma tls_pre_encrypt_key:
  assumes "tls_pre_encrypt multi buf now = (multi', buf', Some i)"
  shows "buf' = buf" "multi' = multi\<lparr>tm_save_ks := Some i\<rparr>" "key_scan multi' j = key_scan multi j"
  using assms by (auto simp: tls_pre_encrypt_def Let_def key_scan_def split: if_splits option.splits)

lemma tls_prepend_opcode_v2_ok:
  assumes "tm_save_ks multi = Some i" "k = ks_key_id (key_scan multi i)" "0 \<le> k" "k < 8"
    and "buf_ok work" "buf_content work = []" "4 \<le> b_offset work"
  obtains w a b c where "tls_prepend_opcode_v2 multi work = Some w" "buf_ok w" "buf_content w = [word_of_int (72 + k), a, b, c]"
    "b_len w = 4" "buf_room w = buf_room work"
proof -
  let ?peer = "push_bit 24 (word_of_int (push_bit P_OPCODE_SHIFT P_DATA_V2 OR k)) OR (tm_peer_id multi AND 0xFFFFFF) :: u32"
  obtain a b c where h: "u32_bytes ?peer = [word_of_int (72 + k), a, b, c]"
    using v2_first_octet [OF assms(3,4), of "tm_peer_id multi"] by (simp add: u32_bytes_def)
  have "b_len work = 0" using assms(5,6) length_buf_content [OF assms(5)] by simp
  then have "tls_prepend_opcode_v2 multi work = Some (buf_push work (u32_bytes ?peer))"
    using assms(1,2,5,7) by (simp add: tls_prepend_opcode_v2_def Let_def buf_write_prepend_ok)
  then show ?thesis using that h assms(5-7) \<open>b_len work = 0\<close> by simp
qed

text \<open>
  C7. What goes into the tunnel at one end comes out at the other. A packet for which \<open>tls_pre_encrypt\<close> finds a key is sealed
  with it behind the header of \<open>tls_prepend_opcode_v2\<close>; at the other end \<open>tls_pre_decrypt\<close> finds by that header the key
  with the same identifier, counts the packet for it and hands on the place of the authenticated header, and with the
  matching keys \<open>openvpn_decrypt\<close> gives back exactly the payload, unless its number is a replay.
\<close>

theorem tunnel_roundtrip:
  assumes "tls_pre_encrypt ms buf now = (ms', buf', Some i)"
    and "k = ks_key_id (key_scan ms i)" and "0 \<le> k" and "k < 8" and "s = ks_crypto (key_scan ms i)"
    and "buf_ok buf" and "0 < b_len buf" and "buf_ok work" and "buf_content work = []" and "4 \<le> b_offset work"
    and "j < 3" and "opens_for mr from floated k j" and "\<forall>x < j. ks_key_id (key_scan mr x) \<noteq> k"
    and "ks_initialized (key_scan mr j)" and "r = ks_crypto (key_scan mr j)"
    and "aead_pair e d" and "implicit_ok (co_encrypt s) e" and "implicit_ok (co_decrypt r) d"
    and "implicit_iv (co_encrypt s) = implicit_iv (co_decrypt r)"
    and "packet_id_initialized (co_packet_id s)" and "packet_id_send_update (p_send (co_packet_id s)) False now = (True, s')"
    and "4 + OPENVPN_AEAD_TAG_LENGTH + b_len buf + cc_block_size e \<le> buf_room work"
    and "packet_id_initialized (co_packet_id r)"
    and "buf_ok rwork" and "H = FRAME_HEADROOM_ADJ frame FRAME_HEADROOM_MARKER_DECRYPT" and "0 \<le> H"
    and "H + 4 + OPENVPN_AEAD_TAG_LENGTH + b_len buf + cc_block_size d \<le> b_capacity rwork"
    and "co_check_replay r \<lparr>n_id = s_id s', n_time = 0\<rparr> now' = Some (True, r')"
  shows "\<exists>w b1 b2 b3 ad. tls_prepend_opcode_v2 ms' work = Some w \<and>
    openvpn_encrypt buf' w (Some s) rnd now = Some (b1, Some (co_set_send s s')) \<and>
    tls_pre_decrypt tls auth mr from b1 floated now' = Some (False, data_key_used mr j (b_len b2), b2, Some j, Some ad) \<and>
    openvpn_decrypt b2 rwork (Some r) frame ad now' = Some (True, b3, Some r') \<and> buf_content b3 = buf_content buf"
proof -
  note pre = tls_pre_encrypt_key [OF assms(1)]
  have sk: "tm_save_ks ms' = Some i" "k = ks_key_id (key_scan ms' i)" using pre(2) pre(3) [of i] assms(2) by simp_all
  obtain w x y z where w: "tls_prepend_opcode_v2 ms' work = Some w" "buf_ok w" "buf_content w = [word_of_int (72 + k), x, y, z]"
    "b_len w = 4" "buf_room w = buf_room work"
    by (rule tls_prepend_opcode_v2_ok [OF sk assms(3,4,8-10)])
  obtain b1 b3 v where b1: "openvpn_encrypt buf w (Some s) rnd now = Some (b1, Some (co_set_send s s'))"
    "openvpn_decrypt (buf_drop b1 4) rwork (Some r) frame (b_offset b1) now' = Some (True, b3, Some r')"
    "buf_content b3 = buf_content buf" "buf_ok b1" "buf_content b1 = buf_content w @ v" "v \<noteq> []"
    using seal_open [OF assms(16-19,6,7) w(2) assms(20,21) _ assms(23-28)] w(4,5) assms(22) by force
  have len: "4 < b_len b1" "0 < b_len b1" using b1(4-6) w(3) length_buf_content [OF b1(4)] by (cases v; simp)+
  have hd: "uint (hd (buf_content b1)) = 72 + k" using b1(5) w(3) v2_first_octet_read(1) [OF assms(3,4)] by simp
  have op: "drop_bit 3 (uint (hd (buf_content b1))) = P_DATA_V2" "uint (hd (buf_content b1)) AND 7 = k"
    using hd v2_first_octet_read(2,3) [OF assms(3,4)] by simp_all
  have sel: "data_channel_key mr from floated k [0..<KEY_SCAN_SIZE] = Some (Some j)"
    by (rule data_channel_key_first [OF assms(12,11,13)])
  have "handle_data_channel_packet mr from b1 floated =
      Some (data_key_used mr j (b_len b1 - 4), buf_drop b1 4, Some j, Some (b_offset b1))"
    using handle_data_channel_packet_eq [OF b1(4) len(2) refl refl, of mr "from" floated] op sel assms(14) len(1) by simp
  moreover have data: "drop_bit 3 (uint (hd (buf_content b1))) \<in> {P_DATA_V1, P_DATA_V2}" using op(1) by simp
  ultimately have "tls_pre_decrypt tls auth mr from b1 floated now' =
      Some (False, data_key_used mr j (b_len (buf_drop b1 4)), buf_drop b1 4, Some j, Some (b_offset b1))"
    unfolding tls_pre_decrypt_data [OF b1(4) len(2) data] by (simp add: buf_drop_def)
  then show ?thesis using w(1) b1(1-3) pre(1) by blast
qed

section \<open>Concrete instances\<close>

definition demo_tls_options :: tls_options where
  "demo_tls_options = \<lparr>o_server = False, o_xmit_hold = False, o_replay = True, o_single_session = False, o_pull = False,
     o_mode_server = False, o_transition_window = 3600, o_handshake_window = 60, o_packet_timeout = 2, o_renegotiate_bytes = 0,
     o_renegotiate_packets = 0, o_renegotiate_seconds = 3600, o_crypto_flags = 0,
     o_key_type = \<lparr>kt_cipher_length = 0, kt_hmac_length = 0, kt_cipher = None, kt_digest = None\<rparr>,
     o_replay_window = 64, o_replay_time = 15, o_config_ciphername = [], o_tls_crypt_v2 = False, o_tls_wrap = CLEAR_tls_wrap, o_frame = demo_crypto_frame,
     o_local_options = [], o_remote_options = [], o_disable_occ = False, o_ssl_flags = 0, o_gremlin = 0\<rparr>"

definition demo_data_key :: "unit key_state" where
  "demo_data_key = CLEAR_key_state\<lparr>ks_state := S_ACTIVE, ks_authenticated := KS_AUTH_TRUE, ks_initialized := True,
     ks_crypto := demo_opts\<rparr>"

definition demo_multi :: "unit tls_multi" where
  "demo_multi = \<lparr>tm_opt = demo_tls_options, tm_save_ks = None, tm_to_link_addr = CLEAR_actual, tm_n_sessions = 1,
     tm_n_hard_errors = 0, tm_n_soft_errors = 0, tm_peer_id = 7, tm_use_peer_id = True, tm_tas_last = 0, tm_peer_info = None,
     tm_remote_ciphername = None,
     tm_session = [CLEAR_tls_session\<lparr>se_primary := demo_data_key\<rparr>, CLEAR_tls_session, CLEAR_tls_session]\<rparr>"

lemma demo_multi_key: "key_scan demo_multi 0 = demo_data_key" "ks_key_id demo_data_key = 0" "ks_crypto demo_data_key = demo_opts"
  "ks_initialized demo_data_key" "opens_for demo_multi CLEAR_actual True 0 0"
  by (simp_all add: demo_multi_def key_scan_def demo_data_key_def CLEAR_key_state_def opens_for_def DECRYPT_KEY_ENABLED_def tm_defs
      state_defs)

lemma data_packet_needs_trusted_key_witness:
  "\<exists>m b. tls_pre_decrypt (undefined :: unit tls_object) (\<lambda>_ _. None) demo_multi CLEAR_actual (demo_buf [72, 0, 0, 7, 1, 2]) True 100 =
      Some (False, m, b, Some 0, Some 10) \<and> b = buf_drop (demo_buf [72, 0, 0, 7, 1, 2]) 4 \<and> m = data_key_used demo_multi 0 2"
proof -
  let ?b = "demo_buf [72, 0, 0, 7, 1, 2]"
  have ok: "buf_ok ?b" "buf_content ?b = [72, 0, 0, 7, 1, 2]" "b_len ?b = 6" using demo_buf_ok [of "[72, 0, 0, 7, 1, 2]"] by simp_all
  have op: "drop_bit 3 (uint (hd (buf_content ?b))) = P_DATA_V2" "uint (hd (buf_content ?b)) AND 7 = 0"
    using ok(2) by (simp_all add: P_DATA_V2_def)
  have len: "0 < b_len ?b" using ok(3) by simp
  have "data_channel_key demo_multi CLEAR_actual True 0 [0..<KEY_SCAN_SIZE] = Some (Some 0)"
    by (rule data_channel_key_first [OF demo_multi_key(5)]) simp_all
  then have "handle_data_channel_packet demo_multi CLEAR_actual ?b True =
      Some (data_key_used demo_multi 0 (b_len ?b - 4), buf_drop ?b 4, Some 0, Some (b_offset ?b))"
    using handle_data_channel_packet_eq [OF ok(1) len refl refl, of demo_multi CLEAR_actual True] op ok(3) demo_multi_key(1,4) by simp
  then have r: "tls_pre_decrypt (undefined :: unit tls_object) (\<lambda>_ _. None) demo_multi CLEAR_actual ?b True 100 =
      Some (False, data_key_used demo_multi 0 2, buf_drop ?b 4, Some 0, Some 10)"
    using op(1) ok(3) by (subst tls_pre_decrypt_data [OF ok(1) len]) (simp_all add: demo_buf_def)
  from data_packet_needs_trusted_key [OF this ok(1)] r show ?thesis by simp
qed

lemma tunnel_roundtrip_witness:
  "\<exists>w b1 b2 b3 m ad s r. tls_prepend_opcode_v2 (demo_multi\<lparr>tm_save_ks := Some 0\<rparr>) (demo_buf []) = Some w \<and>
    openvpn_encrypt (demo_buf [5, 6]) w (Some demo_opts) [] 100 = Some (b1, Some s) \<and>
    tls_pre_decrypt (undefined :: unit tls_object) (\<lambda>_ _. None) demo_multi CLEAR_actual b1 True 100 = Some (False, m, b2, Some 0, Some ad) \<and>
    openvpn_decrypt b2 (demo_buf []) (Some demo_opts) demo_crypto_frame ad 100 = Some (True, b3, Some r) \<and>
    buf_content b3 = [5, 6]"
proof -
  obtain r' where r': "co_check_replay demo_opts \<lparr>n_id = 1, n_time = 0\<rparr> 100 = Some (True, r')" using demo_fresh by blast
  have s: "packet_id_send_update (p_send (co_packet_id demo_opts)) False 100 = (True, \<lparr>s_id = 1, s_time = 100\<rparr>)"
    by (simp add: demo_init(3) packet_id_send_update_def PACKET_ID_MAX_def)
  have k: "implicit_ok (co_encrypt demo_opts) demo_cipher" "implicit_ok (co_decrypt demo_opts) demo_cipher"
    "implicit_iv (co_encrypt demo_opts) = implicit_iv (co_decrypt demo_opts)"
    using demo_implicit by (simp_all add: demo_opts_def)
  have b: "buf_ok (demo_buf [5, 6])" "0 < b_len (demo_buf [5, 6])" "buf_ok (demo_buf [])" "buf_content (demo_buf []) = []"
      "4 \<le> b_offset (demo_buf [])"
    using demo_buf_ok [of "[5, 6]"] demo_buf_ok [of "[]"] by (simp_all add: demo_buf_def)
  have room: "4 + OPENVPN_AEAD_TAG_LENGTH + b_len (demo_buf [5, 6]) + cc_block_size demo_cipher \<le> buf_room (demo_buf [])"
    "0 + 4 + OPENVPN_AEAD_TAG_LENGTH + b_len (demo_buf [5, 6]) + cc_block_size demo_cipher \<le> b_capacity (demo_buf [])"
    using demo_buf_ok [of "[5, 6]"] demo_buf_ok [of "[]"] by (simp_all add: OPENVPN_AEAD_TAG_LENGTH_def demo_cipher_def)
  have f: "co_check_replay demo_opts \<lparr>n_id = s_id \<lparr>s_id = 1, s_time = 100\<rparr>, n_time = 0\<rparr> 100 = Some (True, r')" using r' by simp
  have e: "encrypt_key (demo_multi\<lparr>tm_save_ks := None\<rparr>) 100 None [0..<KEY_SCAN_SIZE] = Some 0"
    unfolding key_scan_indices
    by (simp add: Let_def demo_multi_def key_scan_def demo_data_key_def CLEAR_key_state_def tm_defs state_defs)
  have p: "tls_pre_encrypt demo_multi (demo_buf [5, 6]) 100 = (demo_multi\<lparr>tm_save_ks := Some 0\<rparr>, demo_buf [5, 6], Some 0)"
    using e b(2) by (simp add: tls_pre_encrypt_def Let_def)
  have key: "0 = ks_key_id (key_scan demo_multi 0)" "demo_opts = ks_crypto (key_scan demo_multi 0)" "ks_initialized (key_scan demo_multi 0)"
    using demo_multi_key by simp_all
  have "(0 :: nat) < 3" "\<forall>x < (0 :: nat). ks_key_id (key_scan demo_multi x) \<noteq> 0" by simp_all
  from tunnel_roundtrip [OF p key(1) _ _ key(2) b(1-5) this(1) demo_multi_key(5) this(2) key(3) key(2) demo_pair k demo_init(2) s room(1)
      demo_init(2) b(3) demo_headroom [symmetric] _ room(2) f]
  show ?thesis using demo_buf_ok [of "[5, 6]"] by fastforce
qed

end
