(* ===== verification/TlsHandshake.thy ===== *)
theory TlsHandshake
  imports TlsProcess TlsRouting
begin

text \<open>
  The states of the handshake: an abstract machine with a deadline, that \<open>tls_process\<close> runs through, and what holds
  for the keys of a tunnel at all times.
\<close>

section \<open>The abstract machine\<close>

text \<open>What the machine says of a key; everything else of a key may change freely.\<close>

definition hs_view :: "'ssl key_state \<Rightarrow> int \<times> int \<times> int \<times> int \<times> int \<times> int \<times> ks_auth_state \<times> bool \<times> session_id \<times> link_socket_actual" where
  "hs_view ks = (ks_state ks, ks_must_negotiate ks, ks_established ks, ks_must_die ks, ks_key_id ks, ks_initial_opcode ks,
     ks_authenticated ks, ks_initialized ks, ks_session_id_remote ks, ks_remote_addr ks)"

text \<open>
  A step at the time \<open>now\<close> of a server or a client whose handshakes may take \<open>w\<close> seconds. The server reads the
  key message before it writes its own, the client after. Both are active once everything they sent is acknowledged.
\<close>

inductive hs_step :: "bool \<Rightarrow> int \<Rightarrow> int \<Rightarrow> 'ssl key_state \<Rightarrow> 'ssl key_state \<Rightarrow> bool" for sv w now where
  hs_quiet: "hs_view ks' = hs_view ks \<Longrightarrow> hs_step sv w now ks ks'"
| hs_begin: "ks_state ks = S_INITIAL \<Longrightarrow>
    hs_view ks' = hs_view (ks\<lparr>ks_state := S_PRE_START, ks_must_negotiate := now + w\<rparr>) \<Longrightarrow> hs_step sv w now ks ks'"
| hs_sync: "ks_state ks = S_PRE_START \<Longrightarrow> FULL_SYNC ks = Some True \<Longrightarrow> now < ks_must_negotiate ks \<Longrightarrow>
    hs_view ks' = hs_view (ks\<lparr>ks_state := S_START\<rparr>) \<Longrightarrow> hs_step sv w now ks ks'"
| hs_send: "ks_state ks = (if sv then S_GOT_KEY else S_START) \<Longrightarrow> now < ks_must_negotiate ks \<Longrightarrow>
    init = ks_initialized ks \<or> sv \<and> ks_authenticated ks \<noteq> KS_AUTH_FALSE \<Longrightarrow>
    hs_view ks' = hs_view (ks\<lparr>ks_state := S_SENT_KEY, ks_initialized := init\<rparr>) \<Longrightarrow> hs_step sv w now ks ks'"
| hs_receive: "ks_state ks = (if sv then S_START else S_SENT_KEY) \<Longrightarrow> now < ks_must_negotiate ks \<Longrightarrow>
    init = ks_initialized ks \<or> \<not> sv \<and> auth \<noteq> KS_AUTH_FALSE \<Longrightarrow>
    hs_view ks' = hs_view (ks\<lparr>ks_state := S_GOT_KEY, ks_authenticated := auth, ks_initialized := init\<rparr>) \<Longrightarrow>
    hs_step sv w now ks ks'"
| hs_activate: "ks_state ks = (if sv then S_SENT_KEY else S_GOT_KEY) \<Longrightarrow> FULL_SYNC ks = Some True \<Longrightarrow>
    now < ks_must_negotiate ks \<Longrightarrow>
    hs_view ks' = hs_view (ks\<lparr>ks_state := S_ACTIVE, ks_established := now, ks_must_negotiate := 0\<rparr>) \<Longrightarrow>
    hs_step sv w now ks ks'"

inductive_simps hs_step_iff: "hs_step sv w now ks ks'"

lemma hs_step_key_id: "hs_step sv w now ks ks' \<Longrightarrow> ks_key_id ks' = ks_key_id ks"
  by (induction rule: hs_step.induct) (auto simp: hs_view_def)

text \<open>Before the deadline, or with no deadline any more; kept by the steps of one moment behind the first.\<close>

definition in_time :: "int \<Rightarrow> 'ssl key_state \<Rightarrow> bool" where
  "in_time now ks \<longleftrightarrow> now < ks_must_negotiate ks \<or> ks_state ks \<ge> S_ACTIVE"

lemma hs_step_in_time:
  "hs_step sv w now ks ks' \<Longrightarrow> in_time now ks \<Longrightarrow> ks_state ks \<noteq> S_INITIAL \<Longrightarrow> in_time now ks' \<and> ks_state ks' \<noteq> S_INITIAL"
  by (induction rule: hs_step.induct) (auto simp: hs_view_def in_time_def state_defs)

lemma in_time_view: "hs_view ks' = hs_view ks \<Longrightarrow> in_time now ks' = in_time now ks"
  by (simp add: hs_view_def in_time_def)

section \<open>What a part of the loop leaves alone\<close>

definition key_kept :: "'ssl key_state \<Rightarrow> 'ssl key_state \<Rightarrow> bool" where
  "key_kept ks ks' \<longleftrightarrow> (\<exists>a \<in> {ks_authenticated ks, KS_AUTH_FALSE}. hs_view ks' = hs_view (ks\<lparr>ks_authenticated := a\<rparr>))"

lemma key_kept_refl [simp]: "key_kept ks ks"
  by (simp add: key_kept_def)

lemma key_kept_trans: "key_kept a b \<Longrightarrow> key_kept b c \<Longrightarrow> key_kept a c"
  by (auto simp: key_kept_def hs_view_def)

definition hs_frame :: "nat \<Rightarrow> 'ssl tls_multi \<Rightarrow> 'ssl tls_multi \<Rightarrow> bool" where
  "hs_frame i m m' \<longleftrightarrow> length (tm_session m') = length (tm_session m) \<and>
     o_server (tm_opt m') = o_server (tm_opt m) \<and> o_handshake_window (tm_opt m') = o_handshake_window (tm_opt m) \<and>
     (\<forall>j < length (tm_session m).
        let s = tm_session m ! j; s' = tm_session m' ! j
        in se_key_id s' = se_key_id s \<and> se_session_id s' = se_session_id s \<and> key_kept (se_lame s) (se_lame s') \<and>
           (j \<noteq> i \<longrightarrow> key_kept (se_primary s) (se_primary s')) \<and>
           ks_key_id (se_primary s') = ks_key_id (se_primary s))"

lemma hs_frame_refl [simp]: "hs_frame i m m"
  by (simp add: hs_frame_def Let_def)

lemma hs_frame_trans: "hs_frame i a b \<Longrightarrow> hs_frame i b c \<Longrightarrow> hs_frame i a c"
  by (auto simp: hs_frame_def Let_def intro: key_kept_trans)

lemma session_update_length: "length (tm_session (session_update m i s)) = length (tm_session m)"
  by (simp add: session_update_def)

lemma session_update_same: "session_update m i (tm_session m ! i) = m"
  by (cases m) (simp add: session_update_def)

lemma session_update_twice: "session_update (session_update m i a) i b = session_update m i b"
  by (simp add: session_update_def)

lemma hs_frame_session:
  assumes "hs_frame i m m'" "se_key_id s = se_key_id (tm_session m' ! i)" "se_session_id s = se_session_id (tm_session m' ! i)"
    and "se_lame s = se_lame (tm_session m' ! i)" "ks_key_id (se_primary s) = ks_key_id (se_primary (tm_session m' ! i))"
  shows "hs_frame i m (session_update m' i s)"
proof -
  have e: "(tm_session m')[i := s] ! j = (if j = i then s else tm_session m' ! j)" if "j < length (tm_session m)" for j
    using that assms(1) by (cases "j = i") (simp_all add: hs_frame_def)
  show ?thesis using assms by (auto simp: hs_frame_def Let_def session_update_def e)
qed

text \<open>A part of the loop: it makes one step of the machine unless it fails.\<close>

definition hs_part :: "nat \<Rightarrow> int \<Rightarrow> 'ssl tls_proc \<Rightarrow> 'ssl tls_proc tls_step \<Rightarrow> bool" where
  "hs_part i now st r \<longleftrightarrow> hs_frame i (tp_multi st) (tp_multi (step_state r)) \<and>
     ((\<forall>st'. r \<noteq> Failed st') \<longrightarrow>
      (hs_step (o_server (tm_opt (tp_multi st))) (o_handshake_window (tm_opt (tp_multi st))) now)\<^sup>*\<^sup>* (tp_ks st i) (tp_ks (step_state r) i) \<and>
      (in_time now (tp_ks st i) \<longrightarrow> in_time now (tp_ks (step_state r) i)))"

definition tp_ok :: "nat \<Rightarrow> 'ssl tls_proc \<Rightarrow> bool" where
  "tp_ok i st \<longleftrightarrow> i < length (tm_session (tp_multi st))"

lemma tp_ks_set [simp]: "tp_ok i st \<Longrightarrow> tp_ks (tp_set_ks st i ks) i = ks" "tp_ok i st \<Longrightarrow> tp_ok i (tp_set_ks st i ks)"
  "tm_opt (tp_multi (tp_set_ks st i ks)) = tm_opt (tp_multi st)"
  by (simp_all add: tp_ok_def tp_ks_def tp_set_ks_def tp_set_session_def tp_session_def session_update_def)

lemma tp_ks_fields [simp]: "tp_ks (st\<lparr>tp_info := a\<rparr>) i = tp_ks st i" "tp_ks (st\<lparr>tp_wakeup := w\<rparr>) i = tp_ks st i"
  "tp_ks (st\<lparr>tp_rnd := b\<rparr>) i = tp_ks st i" "tp_ks (st\<lparr>tp_to_link := c, tp_active := d, tp_addr := e\<rparr>) i = tp_ks st i"
  by (simp_all add: tp_ks_def tp_session_def)

lemma hs_frame_ks:
  "ks_key_id ks = ks_key_id (tp_ks st i) \<Longrightarrow> hs_frame i (tp_multi st) (tp_multi (tp_set_ks st i ks))"
  by (simp add: tp_set_ks_def tp_set_session_def hs_frame_session tp_ks_def tp_session_def)

lemma hs_part_same: "hs_part i now st (Going c st)"
  by (simp add: hs_part_def)

lemma hs_part_ks:
  assumes "tp_ok i st" "tp_multi (step_state r) = tp_multi (tp_set_ks st i ks)"
    and "hs_step (o_server (tm_opt (tp_multi st))) (o_handshake_window (tm_opt (tp_multi st))) now (tp_ks st i) ks"
    and "ks_state (tp_ks st i) \<noteq> S_INITIAL \<or> hs_view ks = hs_view (tp_ks st i)"
  shows "hs_part i now st r"
proof -
  have k: "tp_ks (step_state r) i = ks" using assms(1,2) tp_ks_set(1) [OF assms(1), of ks] by (simp add: tp_ks_def tp_session_def)
  have t: "in_time now (tp_ks st i) \<longrightarrow> in_time now ks"
    using assms(4) hs_step_in_time [OF assms(3)] in_time_view [of ks] by auto
  have "hs_frame i (tp_multi st) (tp_multi (step_state r))" unfolding assms(2) by (rule hs_frame_ks [OF hs_step_key_id [OF assms(3)]])
  then show ?thesis using assms(3) k t by (auto simp: hs_part_def)
qed

lemma hs_part_view:
  assumes "tp_ok i st" "tp_multi (step_state r) = tp_multi (tp_set_ks st i ks)" "hs_view ks = hs_view (tp_ks st i)"
  shows "hs_part i now st r"
  by (rule hs_part_ks [OF assms(1,2) hs_quiet [OF assms(3)]]) (simp add: assms(3))

lemma hs_part_going:
  assumes "tp_ok i st" "hs_step (o_server (tm_opt (tp_multi st))) (o_handshake_window (tm_opt (tp_multi st))) now (tp_ks st i) ks"
    and "ks_state (tp_ks st i) \<noteq> S_INITIAL"
  shows "hs_part i now st (Going c (tp_set_ks st i ks))"
  using assms by (auto intro: hs_part_ks)

lemma hs_part_quiet:
  assumes "tp_ok i st" "hs_view ks = hs_view (tp_ks st i)"
  shows "hs_part i now st (Going c (tp_set_ks st i ks))" "hs_part i now st (Failed (tp_set_ks st i ks))"
    "hs_part i now st (Going c ((tp_set_ks st i ks)\<lparr>tp_wakeup := w\<rparr>))"
  using assms by (auto intro: hs_part_view)

section \<open>The parts of the loop\<close>

lemma tls_initial_part:
  assumes "tls_initial i now st = Some r" "tp_ok i st"
  obtains c st1 where "r = Going c st1" "hs_frame i (tp_multi st) (tp_multi st1)"
    "hs_step (o_server (tm_opt (tp_multi st))) (o_handshake_window (tm_opt (tp_multi st))) now (tp_ks st i) (tp_ks st1 i)"
proof -
  consider (same) "r = Going False st" | (start) ks where "r = Going True (tp_set_ks st i ks)" "ks_state (tp_ks st i) = S_INITIAL"
      "hs_view ks = hs_view ((tp_ks st i)\<lparr>ks_state := S_PRE_START,
         ks_must_negotiate := now + o_handshake_window (tm_opt (tp_multi st))\<rparr>)"
    using assms(1) by (auto simp: tls_initial_def Let_def hs_view_def split: if_split_asm option.split_asm prod.split_asm Option.bind_split_asm)
  then show ?thesis
  proof cases
    case same
    then show ?thesis by (intro that [of False st]) (auto intro: hs_quiet)
  next
    case start
    note s = hs_begin [OF start(2,3)]
    show ?thesis
      by (rule that [OF start(1) hs_frame_ks [OF hs_step_key_id [OF s]]]) (unfold tp_ks_set(1) [OF assms(2)], rule s)
  qed
qed

lemma tls_timed_out_part:
  "tls_timed_out i now st = Some r \<Longrightarrow>
   hs_part i now st r \<and> step_state r = st \<and> ((\<forall>st'. r \<noteq> Failed st') \<longrightarrow> in_time now (tp_ks st i))"
  by (auto simp: tls_timed_out_def Let_def hs_part_def in_time_def split: if_split_asm)

lemma tls_wait_start_part:
  "tls_wait_start i st = Some r \<Longrightarrow> tp_ok i st \<Longrightarrow> in_time now (tp_ks st i) \<Longrightarrow> hs_part i now st r"
  by (auto simp: tls_wait_start_def Let_def hs_view_def in_time_def state_defs intro!: hs_part_same hs_part_going hs_sync
      split: if_split_asm Option.bind_split_asm)

lemma flush_payload_buffer_view: "flush_payload_buffer tls ks = Some ks' \<Longrightarrow> hs_view ks' = hs_view ks"
  by (auto simp: flush_payload_buffer_def hs_view_def split: option.split_asm Option.bind_split_asm)

lemma tls_wait_active_part:
  assumes "tls_wait_active tls i now st = Some r" "tp_ok i st" "in_time now (tp_ks st i)"
  shows "hs_part i now st r"
proof -
  let ?ks = "tp_ks st i"
  let ?a = "?ks\<lparr>ks_established := now, ks_state := S_ACTIVE, ks_must_negotiate := 0\<rparr>"
  consider (same) "r = Going False st" | (act) ks1 info where
    "ks_state ?ks = (if o_server (tm_opt (tp_multi st)) then S_SENT_KEY else S_GOT_KEY)" "FULL_SYNC ?ks = Some True"
    "flush_payload_buffer tls ?a = Some ks1" "r = Going True ((tp_set_ks st i ks1)\<lparr>tp_info := info\<rparr>)"
    using assms(1) by (auto simp: tls_wait_active_def Let_def split: if_split_asm Option.bind_split_asm)
  then show ?thesis
  proof cases
    case act
    have t: "now < ks_must_negotiate ?ks" using assms(3) act(1) by (auto simp: in_time_def state_defs split: if_splits)
    have "hs_view ks1 = hs_view (?ks\<lparr>ks_state := S_ACTIVE, ks_established := now, ks_must_negotiate := 0\<rparr>)"
      using flush_payload_buffer_view [OF act(3)] by (simp add: hs_view_def)
    with act(4) assms(2) show ?thesis using act(1)
      by (intro hs_part_ks [where ks = ks1, OF assms(2) _ hs_activate [OF act(1,2) t]]) (auto simp: state_defs split: if_splits)
  qed (simp add: hs_part_same)
qed

lemma tls_send_control_part:
  assumes "tls_send_control i now st = Some r" "tp_ok i st"
  shows "hs_part i now st r"
proof -
  consider (same) "r = Going False st" | (sent) st1 ks w where "r = Stopped st1"
    "tp_multi st1 = tp_multi (tp_set_session st i ((tp_session st i)\<lparr>se_tls_wrap := w, se_primary := ks\<rparr>))"
    "hs_view ks = hs_view (tp_ks st i)"
    using assms(1) by (auto simp: tls_send_control_def Let_def tp_ks_def hs_view_def
        split: if_split_asm Option.bind_split_asm option.split_asm prod.split_asm)
  then show ?thesis
  proof cases
    case sent
    let ?s = "(tp_session st i)\<lparr>se_tls_wrap := w, se_primary := ks\<rparr>"
    have "ks_key_id ks = ks_key_id (tp_ks st i)" using sent(3) by (simp add: hs_view_def)
    then have "hs_frame i (tp_multi st) (tp_multi st1)"
      unfolding sent(2) by (simp add: tp_set_session_def hs_frame_session tp_session_def tp_ks_def)
    moreover have "tp_ks st1 i = ks"
      using sent(2) assms(2) by (simp add: tp_ks_def tp_session_def tp_set_session_def session_update_def tp_ok_def)
    ultimately show ?thesis using sent(1) hs_quiet [OF sent(3)] in_time_view [OF sent(3)] by (auto simp: hs_part_def intro: r_into_rtranclp)
  qed (simp add: hs_part_same)
qed

lemma tls_take_ciphertext_part: "tls_take_ciphertext tls i st = Some r \<Longrightarrow> tp_ok i st \<Longrightarrow> hs_part i now st r"
  by (auto simp: tls_take_ciphertext_def Let_def intro!: hs_part_same hs_part_quiet simp: hs_view_def
      split: if_split_asm option.split_asm prod.split_asm Option.bind_split_asm)

lemma tls_take_plaintext_part: "tls_take_plaintext tls i st = Some r \<Longrightarrow> tp_ok i st \<Longrightarrow> hs_part i now st r"
  by (auto simp: tls_take_plaintext_def Let_def intro!: hs_part_same hs_part_quiet simp: hs_view_def
      split: if_split_asm option.split_asm prod.split_asm Option.bind_split_asm)

lemma tls_give_plaintext_part: "tls_give_plaintext tls i st = Some r \<Longrightarrow> tp_ok i st \<Longrightarrow> hs_part i now st r"
  by (auto simp: tls_give_plaintext_def Let_def intro!: hs_part_same hs_part_quiet simp: hs_view_def
      split: if_split_asm option.split_asm prod.split_asm Option.bind_split_asm)

lemma tls_give_ciphertext_part: "tls_give_ciphertext tls i st = Some r \<Longrightarrow> tp_ok i st \<Longrightarrow> hs_part i now st r"
  by (auto simp: tls_give_ciphertext_def Let_def intro!: hs_part_same hs_part_quiet simp: hs_view_def
      split: if_split_asm option.split_asm prod.split_asm Option.bind_split_asm)

section \<open>The key messages\<close>

lemma generate_keys_session:
  assumes "tls_session_generate_data_channel_keys env opt s = Some (ok, opt', s')"
  obtains init where "hs_view (se_primary s') = hs_view ((se_primary s)\<lparr>ks_initialized := init\<rparr>)"
    "init = ks_initialized (se_primary s) \<or> ks_authenticated (se_primary s) \<noteq> KS_AUTH_FALSE"
    "se_lame s' = se_lame s" "se_key_id s' = se_key_id s" "se_session_id s' = se_session_id s"
    "o_server opt' = o_server opt" "o_handshake_window opt' = o_handshake_window opt"
  using assms
  by (auto simp: tls_session_generate_data_channel_keys_def Let_def hs_view_def
      split: if_split_asm Option.bind_split_asm prod.split_asm)

lemma key_method_2_write_session:
  assumes "key_method_2_write env opt buf s rnd = Some (ok, b, opt', s', rnd')"
  obtains init where "hs_view (se_primary s') = hs_view ((se_primary s)\<lparr>ks_initialized := init\<rparr>)"
    "init = ks_initialized (se_primary s) \<or> o_server opt \<and> ks_authenticated (se_primary s) \<noteq> KS_AUTH_FALSE"
    "se_lame s' = se_lame s" "se_key_id s' = se_key_id s" "se_session_id s' = se_session_id s"
    "o_server opt' = o_server opt" "o_handshake_window opt' = o_handshake_window opt"
proof -
  have "\<exists>q. let s1 = s\<lparr>se_primary := (se_primary s)\<lparr>ks_key_src := q\<rparr>\<rparr>
      in s' = s1 \<and> opt' = opt \<or> o_server opt \<and> ks_authenticated (se_primary s) \<noteq> KS_AUTH_FALSE \<and>
         (\<exists>ok. tls_session_generate_data_channel_keys env opt s1 = Some (ok, opt', s'))"
    using assms by (fastforce simp: key_method_2_write_def Let_def split: if_split_asm Option.bind_split_asm prod.split_asm)
  then obtain q where q: "let s1 = s\<lparr>se_primary := (se_primary s)\<lparr>ks_key_src := q\<rparr>\<rparr>
      in s' = s1 \<and> opt' = opt \<or> o_server opt \<and> ks_authenticated (se_primary s) \<noteq> KS_AUTH_FALSE \<and>
         (\<exists>ok. tls_session_generate_data_channel_keys env opt s1 = Some (ok, opt', s'))" ..
  define s1 where "s1 = s\<lparr>se_primary := (se_primary s)\<lparr>ks_key_src := q\<rparr>\<rparr>"
  have s1: "hs_view (se_primary s1) = hs_view (se_primary s)" "se_lame s1 = se_lame s" "se_key_id s1 = se_key_id s"
      "se_session_id s1 = se_session_id s"
      "s' = s1 \<and> opt' = opt \<or> o_server opt \<and> ks_authenticated (se_primary s) \<noteq> KS_AUTH_FALSE \<and>
       (\<exists>ok. tls_session_generate_data_channel_keys env opt s1 = Some (ok, opt', s'))"
    using q unfolding Let_def s1_def [symmetric] by (simp_all add: s1_def hs_view_def)
  from s1(5) show ?thesis
  proof (elim disjE conjE exE)
    assume "s' = s1" "opt' = opt"
    then show ?thesis using s1(1-4) by (intro that [of "ks_initialized (se_primary s)"]) (simp_all add: hs_view_def)
  next
    fix ok
    assume a: "o_server opt" "ks_authenticated (se_primary s) \<noteq> KS_AUTH_FALSE"
      "tls_session_generate_data_channel_keys env opt s1 = Some (ok, opt', s')"
    obtain init where "hs_view (se_primary s') = hs_view ((se_primary s1)\<lparr>ks_initialized := init\<rparr>)"
      "se_lame s' = se_lame s1" "se_key_id s' = se_key_id s1" "se_session_id s' = se_session_id s1"
      "o_server opt' = o_server opt" "o_handshake_window opt' = o_handshake_window opt"
      using generate_keys_session [OF a(3)] by metis
    then show ?thesis using a(1,2) s1(1-4) by (intro that [of init]) (simp_all add: hs_view_def)
  qed
qed

lemma tls_send_key_part:
  assumes "tls_send_key env i st = Some r" "tp_ok i st" "in_time now (tp_ks st i)"
  shows "hs_part i now st r"
proof -
  let ?opt = "tm_opt (tp_multi st)"
  let ?s = "tp_session st i"
  consider (same) "r = Going False st" | (sent) ok b opt1 s1 rnd where
    "ks_state (tp_ks st i) = (if o_server ?opt then S_GOT_KEY else S_START)"
    "key_method_2_write env ?opt (ks_plaintext_write_buf (tp_ks st i)) ?s (tp_rnd st) = Some (ok, b, opt1, s1, rnd)"
    "r = (let s2 = s1\<lparr>se_primary := (se_primary s1)\<lparr>ks_plaintext_write_buf := b\<rparr>\<rparr>;
              st1 = (tp_set_session (st\<lparr>tp_multi := (tp_multi st)\<lparr>tm_opt := opt1\<rparr>\<rparr>) i s2)\<lparr>tp_rnd := rnd\<rparr>
          in if \<not> ok then Failed st1 else Going True (tp_set_ks st1 i ((tp_ks st1 i)\<lparr>ks_state := S_SENT_KEY\<rparr>)))"
    using assms(1) by (auto simp: tls_send_key_def Let_def tp_ks_def split: if_split_asm Option.bind_split_asm prod.split_asm)
  then show ?thesis
  proof cases
    case sent
    from sent(2) show ?thesis
    proof (rule key_method_2_write_session)
      fix init
      assume w: "hs_view (se_primary s1) = hs_view ((se_primary ?s)\<lparr>ks_initialized := init\<rparr>)"
        "init = ks_initialized (se_primary ?s) \<or> o_server ?opt \<and> ks_authenticated (se_primary ?s) \<noteq> KS_AUTH_FALSE"
        "se_lame s1 = se_lame ?s" "se_key_id s1 = se_key_id ?s" "se_session_id s1 = se_session_id ?s"
        "o_server opt1 = o_server ?opt" "o_handshake_window opt1 = o_handshake_window ?opt"
      define ks2 where "ks2 = (if ok then (se_primary s1)\<lparr>ks_plaintext_write_buf := b, ks_state := S_SENT_KEY\<rparr>
                               else (se_primary s1)\<lparr>ks_plaintext_write_buf := b\<rparr>)"
      define s2 where "s2 = s1\<lparr>se_primary := ks2\<rparr>"
      have m: "tp_multi (step_state r) = session_update ((tp_multi st)\<lparr>tm_opt := opt1\<rparr>) i s2"
        using assms(2) unfolding sent(3) s2_def ks2_def
        by (simp add: Let_def tp_set_ks_def tp_set_session_def tp_session_def tp_ks_def session_update_def tp_ok_def)
      have f: "hs_frame i (tp_multi st) ((tp_multi st)\<lparr>tm_opt := opt1\<rparr>)" using w(6,7) by (simp add: hs_frame_def Let_def)
      have "ks_key_id ks2 = ks_key_id (se_primary ?s)" using w(1) by (simp add: ks2_def hs_view_def)
      then have fr: "hs_frame i (tp_multi st) (tp_multi (step_state r))"
        unfolding m by (intro hs_frame_session [OF f]) (simp_all add: s2_def w(3-5) tp_session_def)
      have k: "tp_ks (step_state r) i = ks2" using m assms(2) by (simp add: tp_ks_def tp_session_def session_update_def s2_def tp_ok_def)
      have t: "now < ks_must_negotiate (tp_ks st i)" using assms(3) sent(1) by (auto simp: in_time_def state_defs split: if_splits)
      have s: "hs_step (o_server ?opt) (o_handshake_window ?opt) now (tp_ks st i) ks2" if ok
        by (rule hs_send [OF sent(1) t]) (use w(1,2) that in \<open>auto simp: ks2_def hs_view_def tp_ks_def\<close>)
      have "ks_state (tp_ks st i) \<noteq> S_INITIAL" using sent(1) by (auto simp: state_defs split: if_splits)
      then have "in_time now ks2" if ok using hs_step_in_time [OF s] assms(3) that by simp
      then show ?thesis using s fr k sent(3) unfolding hs_part_def by (auto simp: Let_def)
    qed
  qed (simp add: hs_part_same)
qed

text \<open>
  \<open>key_method_2_read\<close> sets the authentication of the key that reads, and may take that of all others away.
\<close>

lemma key_kept_false: "hs_view ks' = hs_view (ks\<lparr>ks_authenticated := KS_AUTH_FALSE\<rparr>) \<Longrightarrow> key_kept ks ks'"
  by (auto simp: key_kept_def)

text \<open>Everything but the authentication is as before, and of other keys that can only be lost.\<close>

definition auth_only :: "nat \<Rightarrow> 'ssl tls_multi \<Rightarrow> 'ssl tls_multi \<Rightarrow> bool" where
  "auth_only i m m' \<longleftrightarrow> hs_frame i m m' \<and>
     (\<exists>a. hs_view (se_primary (tm_session m' ! i)) = hs_view ((se_primary (tm_session m ! i))\<lparr>ks_authenticated := a\<rparr>))"

lemma auth_only_trans: "auth_only i a b \<Longrightarrow> auth_only i b c \<Longrightarrow> auth_only i a c"
  by (auto simp: auth_only_def hs_view_def intro: hs_frame_trans)

lemma auth_only_refl [simp]: "auth_only i m m"
  by (auto simp: auth_only_def intro!: exI [of _ "ks_authenticated (se_primary (tm_session m ! i))"])

lemma auth_only_session:
  assumes "i < length (tm_session m)" "tm_opt m' = tm_opt m" "tm_session m' = (tm_session m)[i := s]"
    and "hs_view (se_primary s) = hs_view ((se_primary (tm_session m ! i))\<lparr>ks_authenticated := a\<rparr>)"
    and "se_lame s = se_lame (tm_session m ! i)" "se_key_id s = se_key_id (tm_session m ! i)"
    and "se_session_id s = se_session_id (tm_session m ! i)"
  shows "auth_only i m m'"
proof -
  have "ks_key_id (se_primary s) = ks_key_id (se_primary (tm_session m ! i))" using assms(4) by (simp add: hs_view_def)
  then have f: "hs_frame i m (session_update m i s)" using assms(5-7) by (intro hs_frame_session) simp_all
  have "tm_session m' = tm_session (session_update m i s)" "tm_opt m' = tm_opt (session_update m i s)"
    using assms(2,3) by (simp_all add: session_update_def)
  then have "hs_frame i m m'" using f by (simp add: hs_frame_def)
  then show ?thesis using assms(1,3,4) by (auto simp: auth_only_def)
qed

lemma set_auth_only: "i < length (tm_session m) \<Longrightarrow> auth_only i m (set_auth m i a)"
  by (rule auth_only_session [where s = "(tm_session m ! i)\<lparr>se_primary := (se_primary (tm_session m ! i))\<lparr>ks_authenticated := a\<rparr>\<rparr>"])
     (simp_all add: set_auth_def Let_def)

lemma tls_deauthenticate_only:
  assumes "i < length (tm_session m)"
  shows "auth_only i m (tls_deauthenticate m)"
  using assms by (auto simp: auth_only_def tls_deauthenticate_def hs_frame_def Let_def hs_view_def intro!: key_kept_false)

lemma auth_only_length: "auth_only i m m' \<Longrightarrow> length (tm_session m') = length (tm_session m)"
  by (simp add: auth_only_def hs_frame_def)

lemma verify_user_pass_only:
  assumes "i < length (tm_session m)"
  shows "auth_only i m (verify_user_pass v m i)"
proof -
  note d = tls_deauthenticate_only [OF assms]
  have "auth_only i m (set_auth (tls_deauthenticate m) i KS_AUTH_FALSE)"
    using auth_only_trans [OF d set_auth_only] auth_only_length [OF d] assms by simp
  then show ?thesis using set_auth_only [OF assms] by (simp add: verify_user_pass_def split: user_check.split)
qed

lemma key_method_2_checks_only:
  assumes "i < length (tm_session m)"
  shows "auth_only i m (key_method_2_checks env options m i)"
proof -
  have set: "auth_only i m (set_auth m' i a)" if "auth_only i m m'" for m' a
    using auth_only_trans [OF that set_auth_only] auth_only_length [OF that] assms by simp
  have "auth_only i m (case he_final env options of FINAL_KEEP \<Rightarrow> m | FINAL_FALSE \<Rightarrow> set_auth m i KS_AUTH_FALSE
      | FINAL_DEAUTHENTICATE \<Rightarrow> tls_deauthenticate m)"
    using assms by (auto intro: set_auth_only tls_deauthenticate_only split: final_check.split)
  then show ?thesis unfolding key_method_2_checks_def Let_def by (auto intro!: set)
qed

lemma key_method_2_error_frame:
  assumes "hs_frame i m m'" "i < length (tm_session m)" "key_method_2_error buf m' i = Some (ok, b, m'')"
  shows "hs_frame i m m'' \<and> \<not> ok"
proof -
  have len: "i < length (tm_session m')" using assms(1,2) by (simp add: hs_frame_def)
  have "\<not> ok" using assms(3) by (auto simp: key_method_2_error_def Let_def split: Option.bind_split_asm)
  moreover have "auth_only i m' m''"
    using assms(3) by (auto simp: key_method_2_error_def Let_def hs_view_def intro!: auth_only_session [OF len]
        split: Option.bind_split_asm)
  ultimately show ?thesis using assms(1) hs_frame_trans unfolding auth_only_def by blast
qed

text \<open>What reading the key message may do to the key: set its authentication, and then initialise it at a client.\<close>

definition key_read :: "nat \<Rightarrow> 'ssl tls_multi \<Rightarrow> 'ssl tls_multi \<Rightarrow> bool" where
  "key_read i m m' \<longleftrightarrow> (\<exists>a init. hs_view (se_primary (tm_session m' ! i)) =
      hs_view ((se_primary (tm_session m ! i))\<lparr>ks_authenticated := a, ks_initialized := init\<rparr>) \<and>
    (init = ks_initialized (se_primary (tm_session m ! i)) \<or> \<not> o_server (tm_opt m) \<and> a \<noteq> KS_AUTH_FALSE))"

lemma auth_only_key_read: "auth_only i m m' \<Longrightarrow> hs_frame i m m' \<and> key_read i m m'"
  by (auto simp: auth_only_def key_read_def hs_view_def)

lemma generate_key_read:
  assumes "auth_only i m m2" "i < length (tm_session m)" "\<not> o_server (tm_opt m)"
    and "tls_session_generate_data_channel_keys env opt (tm_session m2 ! i) = Some (ok, opt1, s1)" "opt = tm_opt m"
    and "m3 = m2\<lparr>tm_opt := opt1, tm_session := (tm_session m2)[i := s1]\<rparr>"
  shows "hs_frame i m m3 \<and> key_read i m m3"
proof -
  have len: "i < length (tm_session m2)" using assms(1,2) auth_only_length by fastforce
  have fr: "hs_frame i m m2" using assms(1) by (simp add: auth_only_def)
  obtain a where a: "hs_view (se_primary (tm_session m2 ! i)) = hs_view ((se_primary (tm_session m ! i))\<lparr>ks_authenticated := a\<rparr>)"
    using assms(1) by (auto simp: auth_only_def)
  obtain init where s1: "hs_view (se_primary s1) = hs_view ((se_primary (tm_session m2 ! i))\<lparr>ks_initialized := init\<rparr>)"
    "init = ks_initialized (se_primary (tm_session m2 ! i)) \<or> ks_authenticated (se_primary (tm_session m2 ! i)) \<noteq> KS_AUTH_FALSE"
    "se_lame s1 = se_lame (tm_session m2 ! i)" "se_key_id s1 = se_key_id (tm_session m2 ! i)"
    "se_session_id s1 = se_session_id (tm_session m2 ! i)" "o_server opt1 = o_server opt"
    "o_handshake_window opt1 = o_handshake_window opt"
    using generate_keys_session [OF assms(4)] by metis
  have "hs_frame i m2 (session_update m2 i s1)"
    using s1(1,3-5) by (intro hs_frame_session) (auto simp: hs_view_def)
  then have "hs_frame i m (session_update m2 i s1)" using fr hs_frame_trans by blast
  then have "hs_frame i m m3"
    using s1(6,7) assms(5) by (simp add: hs_frame_def assms(6) session_update_def)
  moreover have "key_read i m m3"
    using a s1(1,2) len assms(3) by (auto simp: key_read_def assms(6) hs_view_def)
  ultimately show ?thesis ..
qed

lemma key_method_2_read_frame:
  assumes "key_method_2_read env buf m i = Some (ok, b, m')" "i < length (tm_session m)"
  shows "hs_frame i m m' \<and> (ok \<longrightarrow> key_read i m m')"
proof -
  have fields: "auth_only i m (m\<lparr>tm_peer_info := x, tm_remote_ciphername := y,
      tm_session := (tm_session m)[i := (tm_session m ! i)\<lparr>se_primary := (se_primary (tm_session m ! i))\<lparr>
        ks_key_src := z, ks_authenticated := KS_AUTH_FALSE\<rparr>\<rparr>]\<rparr>)" (is "auth_only i m (?m0 x y z)") for x y z
    by (rule auth_only_session [where s = "(tm_session m ! i)\<lparr>se_primary := (se_primary (tm_session m ! i))\<lparr>
        ks_key_src := z, ks_authenticated := KS_AUTH_FALSE\<rparr>\<rparr>", OF assms(2)]) (auto simp: hs_view_def)
  have user: "auth_only i m (verify_user_pass v (?m0 x y z) i)" for x y z v
    using auth_only_trans [OF fields verify_user_pass_only] assms(2) by simp
  have chk: "auth_only i m (key_method_2_checks env options (set_auth (?m0 x y z) i a) i)"
    "auth_only i m (key_method_2_checks env options (verify_user_pass v (?m0 x y z) i) i)" for x y z a v options
    using auth_only_trans [OF auth_only_trans [OF fields set_auth_only] key_method_2_checks_only]
      auth_only_trans [OF user key_method_2_checks_only] auth_only_length [OF user] assms(2)
    by (simp_all add: set_auth_def Let_def)
  define Q where "Q \<longleftrightarrow> hs_frame i m m' \<and> (ok \<longrightarrow> key_read i m m')"
  have err: Q if "auth_only i m m1" "key_method_2_error b1 m1 i = Some (ok, b, m')" for m1 b1
    using key_method_2_error_frame [OF _ assms(2) that(2)] that(1) unfolding auth_only_def Q_def by blast
  have plain: Q if "auth_only i m m1" "m1 = m'" for m1 using auth_only_key_read [OF that(1)] that(2) by (simp add: Q_def)
  have gen: "hs_frame i m (m2\<lparr>tm_opt := opt1, tm_session := (tm_session m2)[i := s1]\<rparr>) \<and>
      key_read i m (m2\<lparr>tm_opt := opt1, tm_session := (tm_session m2)[i := s1]\<rparr>)"
    if "auth_only i m m2" "\<not> o_server (tm_opt m)"
      "tls_session_generate_data_channel_keys env (tm_opt m) (tm_session m2 ! i) = Some (ok', opt1, s1)" for m2 ok' opt1 s1
    by (rule generate_key_read [OF that(1) assms(2) that(2,3) refl refl])
  have gen_ok: Q if "auth_only i m m2" "\<not> o_server (tm_opt m)"
      "tls_session_generate_data_channel_keys env (tm_opt m) (tm_session m2 ! i) = Some (ok', opt1, s1)"
      "m2\<lparr>tm_opt := opt1, tm_session := (tm_session m2)[i := s1]\<rparr> = m'" for m2 ok' opt1 s1
    using gen [OF that(1-3)] that(4) by (simp add: Q_def)
  have gen_err: Q if "auth_only i m m2" "\<not> o_server (tm_opt m)"
      "tls_session_generate_data_channel_keys env (tm_opt m) (tm_session m2 ! i) = Some (ok', opt1, s1)"
      "key_method_2_error b3 (m2\<lparr>tm_opt := opt1, tm_session := (tm_session m2)[i := s1]\<rparr>) i = Some (ok, b, m')" for m2 ok' opt1 s1 b3
    using key_method_2_error_frame [OF _ assms(2) that(4)] gen [OF that(1-3)] by (simp add: Q_def)
  have Q
    using assms(1) unfolding key_method_2_read_def Let_def
    apply (simp split: if_split_asm Option.bind_split_asm prod.split_asm option.split_asm; (elim conjE)?)
    apply ((erule err [rotated], rule auth_only_refl) | (erule err [rotated], rule fields) |
        (rule gen_ok [OF chk(1)], assumption, assumption, assumption) | (rule gen_ok [OF chk(2)], assumption, assumption, assumption) |
        (rule gen_err [OF chk(1)], assumption, assumption, assumption) | (rule gen_err [OF chk(2)], assumption, assumption, assumption) |
        (rule plain [OF chk(1)], assumption) | (rule plain [OF chk(2)], assumption))+
    done
  then show ?thesis by (simp add: Q_def)
qed

lemma tls_receive_key_part:
  assumes "tls_receive_key env i st = Some r" "tp_ok i st" "in_time now (tp_ks st i)"
  shows "hs_part i now st r"
proof -
  let ?opt = "tm_opt (tp_multi st)"
  consider (same) "r = Going False st" | (got) ok b m where
    "ks_state (tp_ks st i) = (if o_server ?opt then S_START else S_SENT_KEY)"
    "key_method_2_read env (ks_plaintext_read_buf (tp_ks st i)) (tp_multi st) i = Some (ok, b, m)"
    "r = (let st0 = st\<lparr>tp_multi := m\<rparr>; st1 = tp_set_ks st0 i ((tp_ks st0 i)\<lparr>ks_plaintext_read_buf := b\<rparr>)
          in if \<not> ok then Failed st1 else Going True (tp_set_ks st1 i ((tp_ks st1 i)\<lparr>ks_state := S_GOT_KEY\<rparr>)))"
    using assms(1) by (auto simp: tls_receive_key_def Let_def split: if_split_asm Option.bind_split_asm prod.split_asm)
  then show ?thesis
  proof cases
    case got
    have f: "hs_frame i (tp_multi st) m" and kr: "ok \<longrightarrow> key_read i (tp_multi st) m"
      using key_method_2_read_frame [OF got(2)] assms(2) by (simp_all add: tp_ok_def)
    have len: "i < length (tm_session m)" using f assms(2) by (simp add: hs_frame_def tp_ok_def)
    let ?s = "tm_session m ! i"
    define ks2 where "ks2 = (if ok then (se_primary ?s)\<lparr>ks_plaintext_read_buf := b, ks_state := S_GOT_KEY\<rparr>
                             else (se_primary ?s)\<lparr>ks_plaintext_read_buf := b\<rparr>)"
    have m: "tp_multi (step_state r) = session_update m i (?s\<lparr>se_primary := ks2\<rparr>)"
      using len unfolding got(3) ks2_def
      by (simp add: Let_def tp_set_ks_def tp_set_session_def tp_session_def tp_ks_def session_update_def)
    have fr: "hs_frame i (tp_multi st) (tp_multi (step_state r))"
      unfolding m by (rule hs_frame_session [OF f]) (simp_all add: ks2_def)
    have k: "tp_ks (step_state r) i = ks2" using m len by (simp add: tp_ks_def tp_session_def session_update_def)
    have t: "now < ks_must_negotiate (tp_ks st i)" "ks_state (tp_ks st i) \<noteq> S_INITIAL"
      using assms(3) got(1) by (auto simp: in_time_def state_defs split: if_splits)
    have s: "hs_step (o_server ?opt) (o_handshake_window ?opt) now (tp_ks st i) ks2" if ok
    proof -
      note okay = that
      obtain a init where "hs_view (se_primary ?s) = hs_view ((tp_ks st i)\<lparr>ks_authenticated := a, ks_initialized := init\<rparr>)"
        "init = ks_initialized (tp_ks st i) \<or> \<not> o_server ?opt \<and> a \<noteq> KS_AUTH_FALSE"
        using kr okay by (auto simp: key_read_def tp_ks_def tp_session_def)
      then show ?thesis using okay by (intro hs_receive [OF got(1) t(1), of init a]) (auto simp: ks2_def hs_view_def)
    qed
    then have "in_time now ks2" if ok using hs_step_in_time assms(3) t(2) that by blast
    then show ?thesis using s fr k got(3) unfolding hs_part_def by (auto simp: Let_def)
  qed (simp add: hs_part_same)
qed

section \<open>A round and the loop\<close>

lemma hs_part_trans:
  assumes "hs_part i now st (Going c st1)" "hs_part i now st1 r"
  shows "hs_part i now st (step_changed d r)"
proof -
  have e: "step_state (step_changed d r) = step_state r" by (cases r) simp_all
  have f: "(\<forall>st'. step_changed d r \<noteq> Failed st') \<longleftrightarrow> (\<forall>st'. r \<noteq> Failed st')" by (cases r) simp_all
  have o: "o_server (tm_opt (tp_multi st1)) = o_server (tm_opt (tp_multi st))"
    "o_handshake_window (tm_opt (tp_multi st1)) = o_handshake_window (tm_opt (tp_multi st))"
    using assms(1) by (simp_all add: hs_part_def hs_frame_def)
  show ?thesis using assms hs_frame_trans rtranclp_trans unfolding hs_part_def e f o by (fastforce simp: o)
qed

lemma hs_part_ok: "hs_part i now st (Going c st1) \<Longrightarrow> tp_ok i st \<Longrightarrow> tp_ok i st1"
  by (simp add: hs_part_def hs_frame_def tp_ok_def)

lemma hs_part_in_time: "hs_part i now st (Going c st1) \<Longrightarrow> in_time now (tp_ks st i) \<Longrightarrow> in_time now (tp_ks st1 i)"
  by (simp add: hs_part_def)

lemma then_step_part:
  assumes "then_step m f = Some r" "\<And>r'. m = Some r' \<Longrightarrow> hs_part i now st r'" "tp_ok i st" "in_time now (tp_ks st i)"
    and "\<And>st1 r'. f st1 = Some r' \<Longrightarrow> tp_ok i st1 \<Longrightarrow> in_time now (tp_ks st1 i) \<Longrightarrow> hs_part i now st1 r'"
  shows "hs_part i now st r"
proof -
  obtain r1 where r1: "m = Some r1" using assms(1) by (auto simp: then_step_def split: Option.bind_split_asm)
  note p = assms(2) [OF r1]
  show ?thesis
  proof (cases r1)
    case (Going c st1)
    then obtain r2 where "f st1 = Some r2" "r = step_changed c r2" using assms(1) r1 by (auto simp: then_step_def)
    then show ?thesis using hs_part_trans p Going hs_part_ok hs_part_in_time assms(3-5) by metis
  qed (use assms(1) r1 p in \<open>auto simp: then_step_def\<close>)
qed

lemma foldl_part:
  assumes "foldl then_step m fs = Some r" "\<And>r'. m = Some r' \<Longrightarrow> hs_part i now st r'" "tp_ok i st" "in_time now (tp_ks st i)"
    and "\<forall>f \<in> set fs. \<forall>st1 r'. f st1 = Some r' \<longrightarrow> tp_ok i st1 \<longrightarrow> in_time now (tp_ks st1 i) \<longrightarrow> hs_part i now st1 r'"
  shows "hs_part i now st r"
  using assms(1,2,5)
proof (induction fs arbitrary: m)
  case (Cons f fs)
  have "hs_part i now st r'" if "then_step m f = Some r'" for r'
    by (rule then_step_part [OF that Cons.prems(2) assms(3,4)]) (use Cons.prems(3) in auto)
  then show ?case using Cons.IH Cons.prems by auto
qed simp

text \<open>Steps at moments of the set \<open>T\<close>.\<close>

definition hs_run :: "bool \<Rightarrow> int \<Rightarrow> int set \<Rightarrow> 'ssl key_state \<Rightarrow> 'ssl key_state \<Rightarrow> bool" where
  "hs_run sv w T = (\<lambda>a b. \<exists>now \<in> T. hs_step sv w now a b)\<^sup>*\<^sup>*"

lemma hs_run_moment: "(hs_step sv w now)\<^sup>*\<^sup>* a b \<Longrightarrow> now \<in> T \<Longrightarrow> hs_run sv w T a b"
  unfolding hs_run_def by (rule rtranclp_mono [THEN predicate2D, rotated]) auto

lemma hs_run_trans: "hs_run sv w T a b \<Longrightarrow> hs_run sv w T b c \<Longrightarrow> hs_run sv w T a c"
  unfolding hs_run_def by (rule rtranclp_trans)

lemma hs_run_refl [simp]: "hs_run sv w T a a"
  by (simp add: hs_run_def)

lemma hs_run_mono: "hs_run sv w T a b \<Longrightarrow> T \<subseteq> T' \<Longrightarrow> hs_run sv w T' a b"
  unfolding hs_run_def by (rule rtranclp_mono [THEN predicate2D, rotated]) auto

lemma hs_run_view: "hs_run sv w T a b \<Longrightarrow> now \<in> T \<Longrightarrow> hs_view c = hs_view b \<Longrightarrow> hs_run sv w T a c"
  unfolding hs_run_def by (rule rtranclp.rtrancl_into_rtrancl) (auto intro: hs_quiet)

lemma foldl_failed: "foldl then_step (Some (Failed st)) fs = Some (Failed st)"
  by (induction fs) (simp_all add: then_step_def)

lemma tls_round_part:
  assumes "tls_round tls env i now st = Some r" "tp_ok i st"
  shows "hs_frame i (tp_multi st) (tp_multi (step_state r)) \<and> ((\<forall>st'. r \<noteq> Failed st') \<longrightarrow>
    (hs_step (o_server (tm_opt (tp_multi st))) (o_handshake_window (tm_opt (tp_multi st))) now)\<^sup>*\<^sup>* (tp_ks st i) (tp_ks (step_state r) i))"
proof -
  let ?fs = "[tls_wait_start i, tls_wait_active tls i now, tls_send_control i now,
        tls_take_ciphertext tls i, tls_take_plaintext tls i, tls_send_key env i, tls_receive_key env i,
        tls_give_plaintext tls i, tls_give_ciphertext tls i]"
  obtain r0 where "tls_initial i now st = Some r0"
    using assms(1) by (cases "tls_initial i now st") (auto simp: tls_round_def then_step_def)
  moreover from this obtain c st1 where st1: "r0 = Going c st1" "hs_frame i (tp_multi st) (tp_multi st1)"
    "hs_step (o_server (tm_opt (tp_multi st))) (o_handshake_window (tm_opt (tp_multi st))) now (tp_ks st i) (tp_ks st1 i)"
    by (rule tls_initial_part [OF _ assms(2)])
  ultimately have r: "foldl then_step (then_step (Some (Going c st1)) (tls_timed_out i now)) ?fs = Some r"
    using assms(1) by (simp add: tls_round_def)
  obtain r1 where r1: "tls_timed_out i now st1 = Some r1" by (simp add: tls_timed_out_def Let_def)
  note to = tls_timed_out_part [OF r1]
  show ?thesis
  proof (cases r1)
    case (Failed st2)
    then have f: "st2 = st1" using to by simp
    have "then_step (Some (Going c st1)) (tls_timed_out i now) = Some (Failed st1)"
      using r1 Failed f by (simp add: then_step_def)
    then have "r = Failed st1" using r by (simp add: foldl_failed del: foldl.simps)
    then show ?thesis using st1(2) by simp
  next
    case (Going d st2)
    have st2: "st2 = st1" "in_time now (tp_ks st1 i)" using to Going by simp_all
    have m: "then_step (Some (Going c st1)) (tls_timed_out i now) = Some (Going (c \<or> d) st1)"
      using r1 Going st2 by (simp add: then_step_def)
    have ok: "tp_ok i st1" using st1(2) assms(2) by (simp add: hs_frame_def tp_ok_def)
    have "hs_part i now st1 r"
    proof (rule foldl_part [OF r [unfolded m] _ ok st2(2)])
      show "\<forall>f \<in> set ?fs. \<forall>st1 r'. f st1 = Some r' \<longrightarrow> tp_ok i st1 \<longrightarrow> in_time now (tp_ks st1 i) \<longrightarrow> hs_part i now st1 r'"
        using tls_wait_start_part tls_wait_active_part tls_send_control_part tls_take_ciphertext_part tls_take_plaintext_part
          tls_send_key_part tls_receive_key_part tls_give_plaintext_part tls_give_ciphertext_part by auto
    qed (auto intro: hs_part_same)
    moreover have "o_server (tm_opt (tp_multi st1)) = o_server (tm_opt (tp_multi st))"
      "o_handshake_window (tm_opt (tp_multi st1)) = o_handshake_window (tm_opt (tp_multi st))"
      using st1(2) by (simp_all add: hs_frame_def)
    ultimately show ?thesis using hs_frame_trans [OF st1(2)] converse_rtranclp_into_rtranclp [where r = "hs_step (o_server (tm_opt (tp_multi st)))
        (o_handshake_window (tm_opt (tp_multi st))) now", OF st1(3)]
      by (simp add: hs_part_def)
  next
    case (Stopped st2)
    then show ?thesis using r1 by (simp add: tls_timed_out_def Let_def split: if_splits)
  qed
qed

lemma tls_rounds_part:
  assumes "tls_rounds tls env i time k st = Some x"
  shows "tp_ok i st \<longrightarrow> hs_frame i (tp_multi st) (tp_multi (step_state (snd x))) \<and> k < fst x \<and>
    ((\<forall>st'. snd x \<noteq> Failed st') \<longrightarrow>
      hs_run (o_server (tm_opt (tp_multi st))) (o_handshake_window (tm_opt (tp_multi st))) (time ` {k..<fst x})
        (tp_ks st i) (tp_ks (step_state (snd x)) i))"
  using assms
proof (induction rule: tls_rounds.raw_induct [rotated, consumes 1, case_names Round])
  case (Round rounds tls env i time k st x)
  obtain r where r: "tls_round tls env i (time k) st = Some r"
    "(if step_again r then rounds tls env i time (Suc k) (step_state r) else Some (Suc k, r)) = Some x"
    using Round(2) by (auto split: Option.bind_split_asm)
  show ?case
  proof
    assume ok: "tp_ok i st"
    note p = tls_round_part [OF r(1) ok]
    show "hs_frame i (tp_multi st) (tp_multi (step_state (snd x))) \<and> k < fst x \<and>
      ((\<forall>st'. snd x \<noteq> Failed st') \<longrightarrow>
        hs_run (o_server (tm_opt (tp_multi st))) (o_handshake_window (tm_opt (tp_multi st))) (time ` {k..<fst x})
          (tp_ks st i) (tp_ks (step_state (snd x)) i))"
    proof (cases "step_again r")
      case False
      then have "x = (Suc k, r)" using r(2) by simp
      then show ?thesis using p hs_run_moment by fastforce
    next
      case True
      then have x: "rounds tls env i time (Suc k) (step_state r) = Some x" and nf: "\<forall>st'. r \<noteq> Failed st'"
        using r(2) by (auto elim: step_again.elims)
      have ok1: "tp_ok i (step_state r)" using p ok by (simp add: hs_frame_def tp_ok_def)
      have o: "o_server (tm_opt (tp_multi (step_state r))) = o_server (tm_opt (tp_multi st))"
        "o_handshake_window (tm_opt (tp_multi (step_state r))) = o_handshake_window (tm_opt (tp_multi st))"
        using p by (simp_all add: hs_frame_def)
      note ih = Round(1) [OF x, rule_format, OF ok1, unfolded o]
      have first: "hs_run (o_server (tm_opt (tp_multi st))) (o_handshake_window (tm_opt (tp_multi st))) (time ` {k..<fst x})
          (tp_ks st i) (tp_ks (step_state r) i)"
        using p nf ih by (intro hs_run_moment [of _ _ "time k"]) auto
      have sub: "time ` {Suc k..<fst x} \<subseteq> time ` {k..<fst x}" by auto
      have "hs_frame i (tp_multi st) (tp_multi (step_state (snd x)))" using p ih hs_frame_trans by blast
      moreover have "k < fst x" using ih by simp
      moreover have "hs_run (o_server (tm_opt (tp_multi st))) (o_handshake_window (tm_opt (tp_multi st))) (time ` {k..<fst x})
          (tp_ks st i) (tp_ks (step_state (snd x)) i)" if "\<forall>st'. snd x \<noteq> Failed st'"
        using hs_run_trans [OF first hs_run_mono [OF _ sub]] ih that by blast
      ultimately show ?thesis by blast
    qed
  qed
qed

section \<open>A call of \<open>tls_process\<close>\<close>

definition next_key_id :: "int \<Rightarrow> int" where
  "next_key_id k = (let n = (k + 1) AND 7 in if n = 0 then 1 else n)"

text \<open>A key before its handshake.\<close>

definition fresh_key :: "int \<Rightarrow> 'ssl key_state \<Rightarrow> bool" where
  "fresh_key k ks \<longleftrightarrow> ks_state ks = S_INITIAL \<and> ks_key_id ks = k \<and> \<not> ks_initialized ks \<and> ks_authenticated ks = KS_AUTH_FALSE"

lemma key_state_init_fresh:
  assumes "key_state_init tls opt s = Some (s', ks)"
  shows "fresh_key (se_key_id s) ks" "se_key_id s' = next_key_id (se_key_id s)" "se_primary s' = se_primary s"
    "se_lame s' = se_lame s" "se_session_id s' = se_session_id s"
  using assms
  by (auto simp: key_state_init_def fresh_key_def next_key_id_def Let_def CLEAR_key_state_def split: Option.bind_split_asm)

lemma soft_reset_fresh:
  assumes "key_state_soft_reset tls opt now s = Some s'"
  shows "fresh_key (se_key_id s) (se_primary s')" "se_key_id s' = next_key_id (se_key_id s)"
    "se_lame s' = (se_primary s)\<lparr>ks_must_die := now + o_transition_window opt\<rparr>" "se_session_id s' = se_session_id s"
proof -
  obtain s1 ks1 where k: "key_state_init tls opt s = Some (s1, ks1)"
    "s' = s1\<lparr>se_lame := (se_primary s)\<lparr>ks_must_die := now + o_transition_window opt\<rparr>,
             se_primary := ks1\<lparr>ks_session_id_remote := ks_session_id_remote (se_primary s),
                               ks_remote_addr := ks_remote_addr (se_primary s)\<rparr>\<rparr>"
    using assms by (auto simp: key_state_soft_reset_def Let_def split: Option.bind_split_asm prod.split_asm)
  show "fresh_key (se_key_id s) (se_primary s')" "se_key_id s' = next_key_id (se_key_id s)"
    "se_lame s' = (se_primary s)\<lparr>ks_must_die := now + o_transition_window opt\<rparr>" "se_session_id s' = se_session_id s"
    using key_state_init_fresh [OF k(1)] by (simp_all add: k(2) fresh_key_def)
qed

lemma tls_send_acks_frame:
  assumes "tls_send_acks i now st = Some st'" "tp_ok i st"
  shows "hs_frame i (tp_multi st) (tp_multi st') \<and> hs_view (tp_ks st' i) = hs_view (tp_ks st i)"
proof -
  consider (same) "st' = st" | (sent) ks w where
    "tp_multi st' = tp_multi (tp_set_session st i ((tp_session st i)\<lparr>se_tls_wrap := w, se_primary := ks\<rparr>))"
    "hs_view ks = hs_view (tp_ks st i)"
    using assms(1) by (auto simp: tls_send_acks_def Let_def tp_ks_def hs_view_def
        split: if_split_asm Option.bind_split_asm option.split_asm prod.split_asm)
  then show ?thesis
  proof cases
    case sent
    have "ks_key_id ks = ks_key_id (tp_ks st i)" using sent(2) by (simp add: hs_view_def)
    then have "hs_frame i (tp_multi st) (tp_multi st')"
      unfolding sent(1) by (simp add: tp_set_session_def hs_frame_session tp_session_def tp_ks_def)
    moreover have "tp_ks st' i = ks"
      using sent(1) assms(2) by (simp add: tp_ks_def tp_session_def tp_set_session_def session_update_def tp_ok_def)
    ultimately show ?thesis using sent(2) by simp
  qed simp
qed

lemma tls_next_wakeup_multi: "tls_next_wakeup i now st = Some st' \<Longrightarrow> tp_multi st' = tp_multi st"
  by (auto simp: tls_next_wakeup_def Let_def split: if_split_asm Option.bind_split_asm)

text \<open>The session with which the loop starts: behind a soft reset, if there is one, and without an expired lame duck.\<close>

definition session_started :: "bool \<Rightarrow> 'ssl tls_session \<Rightarrow> 'ssl tls_session \<Rightarrow> bool" where
  "session_started reset s s' \<longleftrightarrow> se_session_id s' = se_session_id s \<and>
     (if reset
      then fresh_key (se_key_id s) (se_primary s') \<and> se_key_id s' = next_key_id (se_key_id s) \<and>
           (se_lame s' = CLEAR_key_state \<or> (\<exists>t. se_lame s' = (se_primary s)\<lparr>ks_must_die := t\<rparr>))
      else se_primary s' = se_primary s \<and> se_key_id s' = se_key_id s \<and> (se_lame s' = CLEAR_key_state \<or> se_lame s' = se_lame s))"

lemma tls_process_parts:
  assumes "tls_process tls env i time st = Some st'" "tp_ok i st"
  obtains st2 n r where "tp_multi st2 = session_update (tp_multi st) i (tp_session st2 i)"
    "session_started (tls_wants_soft_reset (tm_opt (tp_multi st)) (tp_ks st i) (time 0)) (tp_session st i) (tp_session st2 i)"
    "tls_rounds tls env i (\<lambda>k. time (k + 2)) 0 st2 = Some (n, r)"
    "case r of Failed st3 \<Rightarrow> st' = (tp_set_ks st3 i ((tp_ks st3 i)\<lparr>ks_state := S_ERROR\<rparr>))\<lparr>tp_active := False\<rparr>
     | _ \<Rightarrow> (\<exists>st4. tls_send_acks i (time (n + 2)) (step_state r) = Some st4 \<and> tls_next_wakeup i (time (n + 2)) st4 = Some st')"
    "ks_state (tp_ks st i) \<noteq> S_UNDEF" "ks_state (tp_ks st i) \<noteq> S_ERROR"
proof -
  define reset where "reset = tls_wants_soft_reset (tm_opt (tp_multi st)) (tp_ks st i) (time 0)"
  let ?s = "tp_session st i"
  let ?st = "st\<lparr>tp_active := False\<rparr>"
  have e: "tp_ks ?st i = tp_ks st i" "tp_session ?st i = ?s" by (simp_all add: tp_ks_def tp_session_def)
  obtain st1 die wake n r where p:
    "ks_state (tp_ks st i) \<noteq> S_UNDEF" "ks_state (tp_ks st i) \<noteq> S_ERROR"
    "(if reset then map_option (tp_set_session ?st i) (key_state_soft_reset tls (tm_opt (tp_multi ?st)) (time 0) ?s) else Some ?st) = Some st1"
    "lame_duck_must_die (tp_session st1 i) (tp_wakeup st1) (time (if reset then 1 else 0)) = Some (die, wake)"
    "tls_rounds tls env i (\<lambda>k. time (k + 2)) 0
      ((if die then tp_set_session st1 i ((tp_session st1 i)\<lparr>se_lame := key_state_free (se_lame (tp_session st1 i)) True\<rparr>)
        else st1)\<lparr>tp_wakeup := wake\<rparr>) = Some (n, r)"
    "(case r of
        Failed st3 \<Rightarrow> Some ((tp_set_ks st3 i ((tp_ks st3 i)\<lparr>ks_state := S_ERROR\<rparr>))\<lparr>tp_active := False\<rparr>)
      | _ \<Rightarrow> do { st4 \<leftarrow> tls_send_acks i (time (n + 2)) (step_state r); tls_next_wakeup i (time (n + 2)) st4 }) = Some st'"
    using assms(1) unfolding tls_process_def Let_def e
    by (auto simp: bind_eq_Some_conv ASSERT_def reset_def split: prod.split_asm if_split_asm)
  define st2 where "st2 = (if die then tp_set_session st1 i ((tp_session st1 i)\<lparr>se_lame := key_state_free (se_lame (tp_session st1 i)) True\<rparr>)
        else st1)\<lparr>tp_wakeup := wake\<rparr>"
  have c: "case r of Failed st3 \<Rightarrow> st' = (tp_set_ks st3 i ((tp_ks st3 i)\<lparr>ks_state := S_ERROR\<rparr>))\<lparr>tp_active := False\<rparr>
     | _ \<Rightarrow> (\<exists>st4. tls_send_acks i (time (n + 2)) (step_state r) = Some st4 \<and> tls_next_wakeup i (time (n + 2)) st4 = Some st')"
    using p(6) by (cases r) (auto simp: bind_eq_Some_conv)
  have s1: "tp_multi st1 = session_update (tp_multi st) i (tp_session st1 i)"
    "session_started reset ?s (tp_session st1 i)"
  proof (atomize (full), cases reset)
    case False
    then have "st1 = ?st" using p(3) by simp
    then show "tp_multi st1 = session_update (tp_multi st) i (tp_session st1 i) \<and> session_started reset ?s (tp_session st1 i)"
      using False by (simp add: session_update_def session_started_def tp_session_def)
  next
    case True
    then obtain s where s: "key_state_soft_reset tls (tm_opt (tp_multi ?st)) (time 0) ?s = Some s" "st1 = tp_set_session ?st i s"
      using p(3) by auto
    have "tp_session st1 i = s" using s(2) assms(2) by (simp add: tp_set_session_def session_update_def tp_session_def tp_ok_def)
    moreover have "session_started reset ?s s" using True soft_reset_fresh [OF s(1)] by (auto simp: session_started_def)
    ultimately show "tp_multi st1 = session_update (tp_multi st) i (tp_session st1 i) \<and> session_started reset ?s (tp_session st1 i)"
      by (simp add: s(2) tp_set_session_def)
  qed
  have len: "i < length (tm_session (tp_multi st1))"
    using s1(1) assms(2) by (metis tp_ok_def session_update_length)
  define s2 where "s2 = (if die then (tp_session st1 i)\<lparr>se_lame := key_state_free (se_lame (tp_session st1 i)) True\<rparr> else tp_session st1 i)"
  have m2: "tp_multi st2 = session_update (tp_multi st1) i s2"
    by (simp add: st2_def s2_def tp_set_session_def session_update_same tp_session_def)
  then have k2: "tp_session st2 i = s2" using len by (simp add: tp_session_def session_update_def)
  have "tp_multi st2 = session_update (tp_multi st) i (tp_session st2 i)"
    unfolding k2 m2 by (subst s1(1)) (simp add: session_update_twice)
  moreover have "session_started reset ?s (tp_session st2 i)"
    using s1(2) unfolding k2 s2_def by (auto simp: session_started_def key_state_free_def)
  ultimately show ?thesis using that [of st2 n r] p(1,2,5) c unfolding st2_def [symmetric] reset_def by blast
qed

lemma tls_process_result:
  assumes "tls_process tls env i time st = Some st'" "tp_ok i st"
  obtains st2 n where "tp_multi st2 = session_update (tp_multi st) i (tp_session st2 i)"
    "session_started (tls_wants_soft_reset (tm_opt (tp_multi st)) (tp_ks st i) (time 0)) (tp_session st i) (tp_session st2 i)"
    "hs_frame i (tp_multi st2) (tp_multi st')"
    "ks_state (tp_ks st' i) = S_ERROR \<or>
     hs_run (o_server (tm_opt (tp_multi st))) (o_handshake_window (tm_opt (tp_multi st))) (time ` {2..n}) (tp_ks st2 i) (tp_ks st' i)"
proof -
  obtain st2 n r where p: "tp_multi st2 = session_update (tp_multi st) i (tp_session st2 i)"
    "session_started (tls_wants_soft_reset (tm_opt (tp_multi st)) (tp_ks st i) (time 0)) (tp_session st i) (tp_session st2 i)"
    "tls_rounds tls env i (\<lambda>k. time (k + 2)) 0 st2 = Some (n, r)"
    "case r of Failed st3 \<Rightarrow> st' = (tp_set_ks st3 i ((tp_ks st3 i)\<lparr>ks_state := S_ERROR\<rparr>))\<lparr>tp_active := False\<rparr>
     | _ \<Rightarrow> (\<exists>st4. tls_send_acks i (time (n + 2)) (step_state r) = Some st4 \<and> tls_next_wakeup i (time (n + 2)) st4 = Some st')"
    by (rule tls_process_parts [OF assms])
  have o2: "tm_opt (tp_multi st2) = tm_opt (tp_multi st)" unfolding p(1) by (simp add: session_update_def)
  have "length (tm_session (tp_multi st2)) = length (tm_session (tp_multi st))" unfolding p(1) by (simp add: session_update_def)
  then have ok: "tp_ok i st2" using assms(2) by (simp add: tp_ok_def)
  note q = tls_rounds_part [OF p(3), rule_format, OF ok, unfolded o2 fst_conv snd_conv]
  have okr: "tp_ok i (step_state r)" using q ok by (simp add: hs_frame_def tp_ok_def)
  show ?thesis
  proof (cases "\<exists>st3. r = Failed st3")
    case True
    then obtain st3 where r: "r = Failed st3" ..
    have "hs_frame i (tp_multi st3) (tp_multi st')" using p(4) r by (simp add: hs_frame_ks)
    moreover have "ks_state (tp_ks st' i) = S_ERROR" using p(4) r okr by (simp add: tp_ks_def tp_session_def tp_set_ks_def
        tp_set_session_def session_update_def tp_ok_def)
    ultimately show ?thesis using that [OF p(1,2)] q r hs_frame_trans by fastforce
  next
    case False
    then obtain st4 where st4: "tls_send_acks i (time (n + 2)) (step_state r) = Some st4" "tls_next_wakeup i (time (n + 2)) st4 = Some st'"
      using p(4) by (cases r) auto
    note a = tls_send_acks_frame [OF st4(1) okr]
    have m: "tp_multi st' = tp_multi st4" by (rule tls_next_wakeup_multi [OF st4(2)])
    have v: "hs_view (tp_ks st' i) = hs_view (tp_ks (step_state r) i)" using a m by (simp add: tp_ks_def tp_session_def)
    have "time ` {2..n + 1} = (\<lambda>k. time (k + 2)) ` {0..<n}"
    proof -
      have "{2..n + 1} = (\<lambda>k. k + 2) ` {0..<n}" by (simp only: image_add_atLeastLessThan') auto
      then show ?thesis by (simp add: image_image)
    qed
    then have "hs_run (o_server (tm_opt (tp_multi st))) (o_handshake_window (tm_opt (tp_multi st))) (time ` {2..n + 1})
        (tp_ks st2 i) (tp_ks (step_state r) i)" using q False by auto
    then have "hs_run (o_server (tm_opt (tp_multi st))) (o_handshake_window (tm_opt (tp_multi st))) (time ` {2..n + 1})
        (tp_ks st2 i) (tp_ks st' i)"
      by (rule hs_run_view [OF _ _ v, where now = "time 2"]) (use q in auto)
    then show ?thesis using that [OF p(1,2)] q a m hs_frame_trans by metis
  qed
qed

text \<open>
  C8. The loop runs the machine of the handshake. A call of \<open>tls_process\<close> takes the key that the session has, or a
  fresh one with the next identifier when the old key has served its time, through steps of the machine at the moments of
  its rounds, or declares it an error. So a key becomes active only after both key messages in the order of its role, with
  everything it sent acknowledged, and before its deadline. The keys of the other sessions stay as they are, but for their
  authentication, which they may lose.
\<close>

theorem handshake_refines:
  assumes "tls_process tls env i time st = Some st'" and "i < length (tm_session (tp_multi st))"
  shows "\<exists>start. (if tls_wants_soft_reset (tm_opt (tp_multi st)) (tp_ks st i) (time 0)
                  then fresh_key (se_key_id (tp_session st i)) start else start = tp_ks st i) \<and>
      (ks_state (tp_ks st' i) = S_ERROR \<or>
       (\<exists>n. hs_run (o_server (tm_opt (tp_multi st))) (o_handshake_window (tm_opt (tp_multi st))) (time ` {2..n}) start (tp_ks st' i))) \<and>
      ks_key_id (tp_ks st' i) = ks_key_id start \<and>
      (\<forall>j < length (tm_session (tp_multi st)). j \<noteq> i \<longrightarrow>
        key_kept (tp_ks st j) (tp_ks st' j) \<and> key_kept (se_lame (tp_session st j)) (se_lame (tp_session st' j)) \<and>
        se_key_id (tp_session st' j) = se_key_id (tp_session st j))"
proof -
  have ok: "tp_ok i st" using assms(2) by (simp add: tp_ok_def)
  obtain st2 n where p: "tp_multi st2 = session_update (tp_multi st) i (tp_session st2 i)"
    "session_started (tls_wants_soft_reset (tm_opt (tp_multi st)) (tp_ks st i) (time 0)) (tp_session st i) (tp_session st2 i)"
    "hs_frame i (tp_multi st2) (tp_multi st')"
    "ks_state (tp_ks st' i) = S_ERROR \<or>
     hs_run (o_server (tm_opt (tp_multi st))) (o_handshake_window (tm_opt (tp_multi st))) (time ` {2..n}) (tp_ks st2 i) (tp_ks st' i)"
    by (rule tls_process_result [OF assms(1) ok])
  have "length (tm_session (tp_multi st2)) = length (tm_session (tp_multi st))" unfolding p(1) by (simp add: session_update_def)
  moreover have s: "tp_session st2 j = tp_session st j" if "j \<noteq> i" for j
    using that by (simp add: tp_session_def) (subst p(1), simp add: session_update_def)
  ultimately have "\<forall>j < length (tm_session (tp_multi st)). j \<noteq> i \<longrightarrow>
        key_kept (tp_ks st j) (tp_ks st' j) \<and> key_kept (se_lame (tp_session st j)) (se_lame (tp_session st' j)) \<and>
        se_key_id (tp_session st' j) = se_key_id (tp_session st j)" "ks_key_id (tp_ks st' i) = ks_key_id (tp_ks st2 i)"
    using p(3) assms(2) by (auto simp: hs_frame_def Let_def tp_ks_def tp_session_def)
  moreover have "if tls_wants_soft_reset (tm_opt (tp_multi st)) (tp_ks st i) (time 0)
      then fresh_key (se_key_id (tp_session st i)) (tp_ks st2 i) else tp_ks st2 i = tp_ks st i"
    using p(2) by (simp add: session_started_def tp_ks_def)
  ultimately show ?thesis using p(4) by (intro exI [of _ "tp_ks st2 i"]) auto
qed

section \<open>A concrete run\<close>

definition demo_tls_object :: "unit tls_object" where
  "demo_tls_object = \<lparr>to_new = (\<lambda>_. ()), to_bio_write = (\<lambda>_ d s. (int (length d), False, s)), to_bio_read = (\<lambda>_ _ s. (- 1, [], True, s))\<rparr>"

definition demo_rel :: reliable where
  "demo_rel = \<lparr>rl_size = 1, rl_initial_timeout = 2, rl_packet_id = 1, rl_offset = 10, rl_hold = False,
     rl_array = [\<lparr>e_active = False, e_timeout = 0, e_next_try = 0, e_packet_id = 0, e_opcode = 0, e_buf = demo_buf []\<rparr>]\<rparr>"

definition demo_got_key :: "unit key_state" where
  "demo_got_key = CLEAR_key_state\<lparr>ks_state := S_GOT_KEY, ks_must_negotiate := 150, ks_authenticated := KS_AUTH_TRUE,
     ks_initialized := True, ks_ssl := Some (), ks_crypto := demo_opts, ks_plaintext_read_buf := (demo_buf [])\<lparr>b_offset := 0\<rparr>,
     ks_plaintext_write_buf := demo_buf [], ks_send_reliable := Some demo_rel, ks_rec_reliable := Some demo_rel,
     ks_rec_ack := Some ack_clear\<rparr>"

definition demo_info :: link_socket_info where
  "demo_info = \<lparr>li_lsa = \<lparr>la_remote_list = [], la_current_remote = None, la_actual = CLEAR_actual\<rparr>,
     li_connection_established = False, li_remote_float = False, li_proto = PROTO_UDP\<rparr>"

definition demo_proc :: "unit key_state \<Rightarrow> unit tls_proc" where
  "demo_proc ks = \<lparr>tp_multi = demo_multi\<lparr>tm_session := [CLEAR_tls_session\<lparr>se_primary := ks, se_session_id := \<lparr>sid_id = [1, 2, 3, 4, 5, 6, 7, 8]\<rparr>\<rparr>,
       CLEAR_tls_session, CLEAR_tls_session]\<rparr>,
     tp_to_link = demo_buf [], tp_addr = None, tp_info = demo_info, tp_wakeup = 10, tp_active = False, tp_rnd = []\<rparr>"

lemma demo_rel_idle: "reliable_empty demo_rel" "\<not> reliable_can_send demo_rel now" "reliable_get_buf_sequenced demo_rel = None"
  "reliable_get_buf_output_sequenced demo_rel = Some (Some 0, demo_rel)"
  by (simp_all add: demo_rel_def reliable_empty_def reliable_can_send_def rel_entries_def reliable_get_buf_sequenced_def
      reliable_get_buf_output_sequenced_def reliable_get_buf_def buf_init_def rel_update_def demo_buf_def)

lemma ack_clear_empty: "reliable_ack_empty ack_clear"
  by (simp add: reliable_ack_empty_def ack_clear_def)

lemma demo_tp: "tp_ks (demo_proc ks) 0 = ks" "tm_opt (tp_multi (demo_proc ks)) = demo_tls_options" "tp_info (demo_proc ks) = demo_info"
  "tp_set_ks (demo_proc ks) 0 ks' = demo_proc ks'" "tp_to_link (demo_proc ks) = demo_buf []" "b_len (demo_buf []) = 0"
  "tp_session (demo_proc ks) 0 = CLEAR_tls_session\<lparr>se_primary := ks, se_session_id := \<lparr>sid_id = [1, 2, 3, 4, 5, 6, 7, 8]\<rparr>\<rparr>"
  by (simp_all add: demo_proc_def tp_ks_def tp_session_def demo_multi_def tp_set_ks_def tp_set_session_def session_update_def demo_buf_def)

text \<open>With nothing to do, a round from the wait for acknowledgements on leaves everything as it is.\<close>

definition demo_active :: "unit key_state" where
  "demo_active = demo_got_key\<lparr>ks_state := S_ACTIVE, ks_established := 100, ks_must_negotiate := 0\<rparr>"

lemma demo_active_fields: "ks_state demo_active = 6" "b_len (ks_plaintext_read_buf demo_active) = 0"
  "ks_plaintext_read_buf demo_active = (demo_buf [])\<lparr>b_offset := 0\<rparr>" "ks_ssl demo_active = Some ()"
  "ks_send_reliable demo_active = Some demo_rel" "ks_rec_reliable demo_active = Some demo_rel" "ks_rec_ack demo_active = Some ack_clear"
  "b_len (ks_plaintext_write_buf demo_active) = 0"
  by (simp_all add: demo_active_def demo_got_key_def state_defs demo_buf_def)

lemma demo_same: "demo_active\<lparr>ks_ssl := Some (), ks_plaintext_read_buf := (demo_buf [])\<lparr>b_offset := 0\<rparr>\<rparr> = demo_active"
  "demo_active\<lparr>ks_ssl := Some (), ks_send_reliable := Some demo_rel\<rparr> = demo_active"
  by (simp_all add: demo_active_def demo_got_key_def)

lemma tp_info_set: "tp_set_ks (st\<lparr>tp_info := i\<rparr>) n ks = (tp_set_ks st n ks)\<lparr>tp_info := i\<rparr>"
  by (simp add: tp_set_ks_def tp_set_session_def tp_session_def)

lemma tp_info_session: "tp_session (st\<lparr>tp_info := i\<rparr>) n = tp_session st n"
  by (simp add: tp_session_def)

lemma demo_entry: "e_buf (rl_array demo_rel ! 0) = demo_buf []"
  "rel_update demo_rel 0 ((rl_array demo_rel ! 0)\<lparr>e_buf := demo_buf []\<rparr>) = demo_rel"
  by (simp_all add: demo_rel_def rel_update_def)

lemma demo_buf_init: "buf_init ((demo_buf [])\<lparr>b_offset := 0\<rparr>) 0 = (True, (demo_buf [])\<lparr>b_offset := 0\<rparr>)"
  by (simp add: buf_init_def demo_buf_def)

lemma demo_bio: "bio_read demo_tls_object b (demo_buf []) n () = Some (0, demo_buf [], ())"
  "bio_read demo_tls_object b ((demo_buf [])\<lparr>b_offset := 0\<rparr>) n () = Some (0, (demo_buf [])\<lparr>b_offset := 0\<rparr>, ())"
  by (simp_all add: bio_read_def demo_tls_object_def demo_buf_def Let_def)

lemma demo_idle_parts:
  assumes "st = (demo_proc demo_active)\<lparr>tp_info := info\<rparr>"
  shows "tls_initial 0 now st = Some (Going False st)" "tls_timed_out 0 now st = Some (Going False st)"
    "tls_wait_start 0 st = Some (Going False st)" "tls_wait_active demo_tls_object 0 now st = Some (Going False st)"
    "tls_send_control 0 now st = Some (Going False st)" "tls_take_ciphertext demo_tls_object 0 st = Some (Going False st)"
    "tls_take_plaintext demo_tls_object 0 st = Some (Going False st)" "tls_send_key env 0 st = Some (Going False st)"
    "tls_receive_key env 0 st = Some (Going False st)" "tls_give_plaintext demo_tls_object 0 st = Some (Going False st)"
    "tls_give_ciphertext demo_tls_object 0 st = Some (Going False st)"
  using assms
  by (simp_all add: tls_initial_def tls_timed_out_def tls_wait_start_def tls_wait_active_def tls_send_control_def
      tls_take_ciphertext_def tls_take_plaintext_def tls_send_key_def tls_receive_key_def tls_give_plaintext_def
      tls_give_ciphertext_def demo_tp demo_active_fields state_defs demo_rel_idle Let_def demo_buf_init demo_bio demo_same tp_info_set
      tp_info_session demo_entry key_state_read_plaintext_def key_state_read_ciphertext_def)

lemma demo_idle_round: "tls_round demo_tls_object env 0 now ((demo_proc demo_active)\<lparr>tp_info := info\<rparr>) =
    Some (Going False ((demo_proc demo_active)\<lparr>tp_info := info\<rparr>))"
  by (simp add: tls_round_def then_step_def demo_idle_parts [OF refl])

lemma demo_first_round: "\<exists>info. tls_round demo_tls_object env 0 100 (demo_proc demo_got_key) =
    Some (Going True ((demo_proc demo_active)\<lparr>tp_info := info\<rparr>))"
proof -
  obtain info where i: "link_socket_set_outgoing_addr demo_info (ks_remote_addr demo_got_key) = Some info"
    by (simp add: link_socket_set_outgoing_addr_def demo_info_def)
  let ?st = "demo_proc demo_got_key"
  have "tls_initial 0 100 ?st = Some (Going False ?st)" by (simp add: tls_initial_def demo_tp demo_got_key_def state_defs)
  moreover have "tls_timed_out 0 100 ?st = Some (Going False ?st)"
    by (simp add: tls_timed_out_def demo_tp demo_got_key_def state_defs)
  moreover have "tls_wait_start 0 ?st = Some (Going False ?st)"
    by (simp add: tls_wait_start_def demo_tp demo_got_key_def state_defs)
  moreover have "tls_wait_active demo_tls_object 0 100 ?st = Some (Going True ((demo_proc demo_active)\<lparr>tp_info := info\<rparr>))"
    using i by (simp add: tls_wait_active_def demo_tp demo_active_def demo_got_key_def state_defs demo_tls_options_def FULL_SYNC_def
        demo_rel_idle ack_clear_empty flush_payload_buffer_def CLEAR_key_state_def)
  ultimately show ?thesis by (intro exI [of _ info]) (simp add: tls_round_def then_step_def demo_idle_parts [OF refl])
qed

lemma demo_process: "\<exists>st'. tls_process demo_tls_object env 0 (\<lambda>_. 100) (demo_proc demo_got_key) = Some st' \<and> tp_ks st' 0 = demo_active"
proof -
  obtain info where r1: "tls_round demo_tls_object env 0 100 (demo_proc demo_got_key) =
      Some (Going True ((demo_proc demo_active)\<lparr>tp_info := info\<rparr>))"
    using demo_first_round by blast
  let ?st = "(demo_proc demo_active)\<lparr>tp_info := info\<rparr>"
  have "tls_rounds demo_tls_object env 0 (\<lambda>k. 100) 0 (demo_proc demo_got_key) = Some (2, Going False ?st)"
    by (subst tls_rounds.simps, simp add: r1) (subst tls_rounds.simps, simp add: demo_idle_round)
  moreover have "tls_send_acks 0 100 ?st = Some ?st"
    by (simp add: tls_send_acks_def tp_info_session demo_tp demo_active_fields ack_clear_empty)
  moreover obtain st' where w: "tls_next_wakeup 0 100 ?st = Some st'"
    by (cases "tls_next_wakeup 0 100 ?st") (auto simp: tls_next_wakeup_def demo_tp demo_active_fields Let_def split: if_split_asm)
  moreover have "(demo_proc demo_got_key)\<lparr>tp_active := False, tp_wakeup := 10\<rparr> = demo_proc demo_got_key" by (simp add: demo_proc_def)
  moreover have "lame_duck_must_die (CLEAR_tls_session\<lparr>se_primary := demo_got_key, se_session_id := x\<rparr>) 10 100 = Some (False, 10)" for x
    by (simp add: lame_duck_must_die_def CLEAR_tls_session_def CLEAR_key_state_def state_defs)
  moreover have a: "(demo_proc demo_got_key)\<lparr>tp_active := False\<rparr> = demo_proc demo_got_key"
    "(demo_proc demo_got_key)\<lparr>tp_wakeup := 10\<rparr> = demo_proc demo_got_key" "tp_wakeup (demo_proc demo_got_key) = 10"
    by (simp_all add: demo_proc_def)
  moreover have "\<not> tls_wants_soft_reset demo_tls_options demo_got_key 100" "ks_state demo_got_key = 5"
    by (simp_all add: tls_wants_soft_reset_def demo_got_key_def state_defs)
  moreover have "session_id_defined \<lparr>sid_id = [1, 2, 3, 4, 5, 6, 7, 8]\<rparr>" by (simp add: session_id_defined_def x_session_id_zero_def numeral_eq_Suc)
  ultimately have "tls_process demo_tls_object env 0 (\<lambda>_. 100) (demo_proc demo_got_key) = Some st'"
    by (simp add: tls_process_def demo_tp state_defs a)
  moreover have "tp_ks st' 0 = demo_active"
    using tls_next_wakeup_multi [OF w] by (simp add: tp_ks_def tp_session_def) (simp add: demo_proc_def)
  ultimately show ?thesis by blast
qed

lemma handshake_refines_witness:
  "\<forall>env. \<exists>st'. tls_process demo_tls_object env 0 (\<lambda>_. 100) (demo_proc demo_got_key) = Some st' \<and> ks_state (tp_ks st' 0) = S_ACTIVE \<and>
     (\<exists>n. hs_run False 60 ((\<lambda>_. 100) ` {2..n :: nat}) demo_got_key (tp_ks st' 0))"
proof
  fix env
  obtain st' where st': "tls_process demo_tls_object env 0 (\<lambda>_. 100) (demo_proc demo_got_key) = Some st'" "tp_ks st' 0 = demo_active"
    using demo_process by blast
  have l: "0 < length (tm_session (tp_multi (demo_proc demo_got_key)))" by (simp add: demo_proc_def)
  have "\<not> tls_wants_soft_reset demo_tls_options demo_got_key 100" "ks_state demo_active \<noteq> S_ERROR" "ks_state demo_active = S_ACTIVE"
    "o_server demo_tls_options = False" "o_handshake_window demo_tls_options = 60"
    by (simp_all add: tls_wants_soft_reset_def demo_got_key_def demo_active_def state_defs demo_tls_options_def)
  then show "\<exists>st'. tls_process demo_tls_object env 0 (\<lambda>_. 100) (demo_proc demo_got_key) = Some st' \<and> ks_state (tp_ks st' 0) = S_ACTIVE \<and>
     (\<exists>n. hs_run False 60 ((\<lambda>_. 100) ` {2..n :: nat}) demo_got_key (tp_ks st' 0))"
    using handshake_refines [OF st'(1) l] st' by (auto simp: demo_tp)
qed

end
