(* ===== verification/Ncp.thy ===== *)
theory Ncp
  imports TlsRouting KeyMethod
begin

text \<open>
  The cipher of the data channel (src: ssl_ncp.c, and what rests on it in ssl.c, crypto.c, multi.c and init.c): the lists of
  ciphers of both ends, the choice of the server, the check of the client, and \<open>tls_session_update_crypto_params\<close>,
  which sets the cipher of a session and generates its keys.
\<close>

section \<open>Lists of names\<close>

definition colon :: u8 where "colon = 58"
definition newline :: u8 where "newline = 10"

text \<open>The tokens that repeated calls of \<open>strsep\<close> give, and those of \<open>strtok\<close>, which are never empty.\<close>

fun strsep_tokens :: "u8 \<Rightarrow> bytes \<Rightarrow> bytes list" where
  "strsep_tokens d [] = [[]]"
| "strsep_tokens d (x # xs) =
     (if x = d then [] # strsep_tokens d xs
      else case strsep_tokens d xs of [] \<Rightarrow> [[x]] | t # ts \<Rightarrow> (x # t) # ts)"

definition strtok_tokens :: "u8 \<Rightarrow> bytes \<Rightarrow> bytes list" where
  "strtok_tokens d s = filter (\<lambda>t. t \<noteq> []) (strsep_tokens d s)"

definition tls_item_in_cipher_list :: "bytes \<Rightarrow> bytes \<Rightarrow> bool" where
  "tls_item_in_cipher_list item list \<longleftrightarrow> list_ex (\<lambda>token. token = item) (strtok_tokens colon list)"

text \<open>The rest of a string from the first occurrence of another on.\<close>

fun strstr :: "bytes \<Rightarrow> bytes \<Rightarrow> bytes option" where
  "strstr h n = (if take (length n) h = n then Some h else case h of [] \<Rightarrow> None | _ # t \<Rightarrow> strstr t n)"

declare strstr.simps [simp del]

text \<open>
  The conversion \<open>%d\<close> of \<open>sscanf\<close>: white space, a sign, digits. What C leaves open, a number that does not fit, is taken as the
  C library of the system does it: limited to 64 bits and cut to 32.
\<close>

definition is_digit :: "u8 \<Rightarrow> bool" where "is_digit x \<longleftrightarrow> 48 \<le> x \<and> x \<le> 57"

definition digits_value :: "bytes \<Rightarrow> int" where
  "digits_value ds = foldl (\<lambda>n x. 10 * n + (uint x - 48)) 0 ds"

definition scan_int :: "bytes \<Rightarrow> int option" where
  "scan_int s =
     (let s1 = dropWhile (\<lambda>x. x = 32 \<or> 9 \<le> x \<and> x \<le> 13) s;
          neg = (s1 \<noteq> [] \<and> hd s1 = 45);
          s2 = (if s1 \<noteq> [] \<and> (hd s1 = 45 \<or> hd s1 = 43) then tl s1 else s1);
          ds = takeWhile is_digit s2;
          n = (if neg then max (- (2 ^ 63)) (- digits_value ds) else min (2 ^ 63 - 1) (digits_value ds))
      in if ds = [] then None else Some (sint (word_of_int n :: 32 word)))"

text \<open>The number behind a name in the information on the peer.\<close>

definition peer_info_number :: "bytes option \<Rightarrow> string \<Rightarrow> int option" where
  "peer_info_number peer_info name =
     do { info \<leftarrow> peer_info; p \<leftarrow> strstr info (str_bytes name); scan_int (drop (length name) p) }"

definition tls_peer_info_ncp_ver :: "bytes option \<Rightarrow> int" where
  "tls_peer_info_ncp_ver peer_info = (case peer_info_number peer_info ''IV_NCP='' of Some ncp \<Rightarrow> ncp | None \<Rightarrow> 0)"

definition peer_ciphers :: "bytes option \<Rightarrow> bytes option" where
  "peer_ciphers peer_info = do { info \<leftarrow> peer_info; strstr info (str_bytes ''IV_CIPHERS='') }"

definition tls_peer_supports_ncp :: "bytes option \<Rightarrow> bool" where
  "tls_peer_supports_ncp peer_info \<longleftrightarrow>
     (if peer_info = None then False else tls_peer_info_ncp_ver peer_info \<ge> 2 \<or> peer_ciphers peer_info \<noteq> None)"

definition tls_peer_ncp_list :: "bytes option \<Rightarrow> bytes" where
  "tls_peer_ncp_list peer_info =
     (case peer_ciphers peer_info of
        Some p \<Rightarrow> takeWhile (\<lambda>x. x \<noteq> newline) (drop (length ''IV_CIPHERS='') p)
      | None \<Rightarrow> if tls_peer_info_ncp_ver peer_info \<ge> 2 then str_bytes ''AES-256-GCM:AES-128-GCM'' else [])"

definition ncp_get_best_cipher :: "bytes \<Rightarrow> bytes option \<Rightarrow> bytes option \<Rightarrow> bytes option" where
  "ncp_get_best_cipher server_list peer_info remote_cipher =
     (let peer_ncp_list = tls_peer_ncp_list peer_info;
          remote = (case remote_cipher of
                      None \<Rightarrow> []
                    | Some r \<Rightarrow> if peer_ciphers peer_info \<noteq> None then [] else r)
      in find (\<lambda>token. tls_item_in_cipher_list token peer_ncp_list \<or> token = remote) (strsep_tokens colon server_list))"

section \<open>Options\<close>

text \<open>The fields of \<open>struct options\<close> that are used here; those of the connection entry are the last ones.\<close>

record options =
  op_ciphername :: bytes
  op_authname :: bytes
  op_keysize :: int
  op_ncp_enabled :: bool
  op_ncp_ciphers :: bytes
  op_enable_ncp_fallback :: bool
  op_data_channel_use_ekm :: bool
  op_replay :: bool
  op_pull :: bool
  op_peer_id :: u32
  op_link_mtu_defined :: bool
  op_link_mtu :: int
  op_tun_mtu_defined :: bool
  op_tun_mtu :: int
  op_mssfix :: int
  op_fragment :: int

text \<open>
  The context of a tunnel, as far as it is used here. \<open>cl_cipher_kt_get\<close> and \<open>cl_md_kt_get\<close> look up a cipher and a hash of the
  library by name; \<open>cl_export\<close> says whether the library exports keying material (\<open>HAVE_EXPORT_KEYING_MATERIAL\<close>).
\<close>

record 'ssl tunnel_context =
  c2_tls_multi :: "'ssl tls_multi"
  c2_frame :: frame
  c2_frame_fragment :: frame
  c2_push_request_received :: bool
  c_options :: options

record crypto_lib =
  cl_cipher_kt_get :: "bytes \<Rightarrow> cipher_kt option"
  cl_md_kt_get :: "bytes \<Rightarrow> md_kt option"
  cl_export :: bool

definition tls_poor_mans_ncp :: "options \<Rightarrow> bytes option \<Rightarrow> bool \<times> options" where
  "tls_poor_mans_ncp o1 remote_ciphername =
     (case remote_ciphername of
        Some c \<Rightarrow> if tls_item_in_cipher_list c (op_ncp_ciphers o1) then (True, o1\<lparr>op_ciphername := c\<rparr>) else (False, o1)
      | None \<Rightarrow> (False, o1))"

text \<open>\<open>found\<close> says that the server pushed a cipher.\<close>

definition check_pull_client_ncp :: "bool \<Rightarrow> options \<Rightarrow> bytes option \<Rightarrow> bool \<times> options" where
  "check_pull_client_ncp found o1 remote_ciphername =
     (if found then (True, o1)
      else if \<not> op_ncp_enabled o1 then (True, o1)
      else let (switched, o2) = tls_poor_mans_ncp o1 remote_ciphername
           in (switched \<or> remote_ciphername = None \<and> op_enable_ncp_fallback o2, o2))"

section \<open>The type of a key\<close>

definition kt_mode_is :: "cipher_mode \<Rightarrow> cipher_kt option \<Rightarrow> bool" where
  "kt_mode_is mode c = (case c of None \<Rightarrow> False | Some x \<Rightarrow> ck_mode x = mode)"

text \<open>\<open>None\<close> is a fatal error: the cipher or the hash is not known, has a mode that is not supported or is too big.\<close>

definition init_key_type :: "crypto_lib \<Rightarrow> bytes \<Rightarrow> bytes \<Rightarrow> int \<Rightarrow> bool \<Rightarrow> key_type option" where
  "init_key_type lib ciphername authname keysize tls_mode =
     do { kt \<leftarrow> (if ciphername \<noteq> str_bytes ''none''
                then do { c \<leftarrow> cl_cipher_kt_get lib ciphername;
                          ASSERT (ck_mode c = OPENVPN_MODE_CBC \<or> tls_mode \<and> ck_mode c = OPENVPN_MODE_AEAD \<or>
                                  tls_mode \<and> ck_mode c = OPENVPN_MODE_OFB_CFB);
                          ASSERT (ck_block_size c \<le> OPENVPN_MAX_CIPHER_BLOCK_SIZE);
                          Some \<lparr>kt_cipher_length = nat (if keysize > 0 \<and> keysize \<le> int MAX_CIPHER_KEY_LENGTH then keysize
                                                        else ck_key_size c),
                                kt_hmac_length = 0, kt_cipher = Some c, kt_digest = None\<rparr> }
                else Some \<lparr>kt_cipher_length = 0, kt_hmac_length = 0, kt_cipher = None, kt_digest = None\<rparr>);
          if authname \<noteq> str_bytes ''none'' \<and> \<not> kt_mode_is OPENVPN_MODE_AEAD (kt_cipher kt)
          then do { d \<leftarrow> cl_md_kt_get lib authname;
                    ASSERT (mk_size d \<le> OPENVPN_MAX_HMAC_SIZE);
                    Some (kt\<lparr>kt_digest := Some d, kt_hmac_length := nat (mk_size d)\<rparr>) }
          else Some kt }"

definition crypto_adjust_frame_parameters :: "frame \<Rightarrow> key_type \<Rightarrow> bool \<Rightarrow> bool \<Rightarrow> frame" where
  "crypto_adjust_frame_parameters frame kt packet_id packet_id_long_form =
     (let o1 = (if packet_id then packet_id_size packet_id_long_form else 0);
          o2 = o1 + (case kt_cipher kt of None \<Rightarrow> 0
                     | Some c \<Rightarrow> ck_iv_size c + (if ck_mode c = OPENVPN_MODE_AEAD then OPENVPN_AEAD_TAG_LENGTH else 0) + ck_block_size c);
          crypto_overhead = o2 + int (kt_hmac_length kt)
      in frame_add_to_extra_frame frame crypto_overhead)"

definition crypto_max_overhead :: int where
  "crypto_max_overhead = packet_id_size True + OPENVPN_MAX_IV_LENGTH + OPENVPN_MAX_CIPHER_BLOCK_SIZE +
     max_int OPENVPN_MAX_HMAC_SIZE OPENVPN_AEAD_TAG_LENGTH"

section \<open>The cipher of a session\<close>

text \<open>Whether the cipher of the options may be used; the client accepts only what its own options allow.\<close>

definition cipher_allowed :: "tls_options \<Rightarrow> options \<Rightarrow> bool" where
  "cipher_allowed opt o1 \<longleftrightarrow>
     o_server opt \<or> op_enable_ncp_fallback o1 \<and> op_ciphername o1 = o_config_ciphername opt \<or>
     tls_item_in_cipher_list (op_ciphername o1) (op_ncp_ciphers o1)"

text \<open>The geometry of data packets and of their fragments, once the cipher is known.\<close>

definition update_frame :: "options \<Rightarrow> key_type \<Rightarrow> bool \<Rightarrow> frame \<Rightarrow> frame option" where
  "update_frame o1 kt long_form frame =
     do { let f1 = frame_remove_from_extra_frame frame crypto_max_overhead;
          let f2 = crypto_adjust_frame_parameters f1 kt (op_replay o1) long_form;
          f3 \<leftarrow> frame_finalize f2 (op_link_mtu_defined o1) (op_link_mtu o1) (op_tun_mtu_defined o1) (op_tun_mtu o1);
          frame_init_mssfix f3 (op_mssfix o1) }"

definition update_frame_fragment :: "options \<Rightarrow> key_type \<Rightarrow> bool \<Rightarrow> frame \<Rightarrow> frame option" where
  "update_frame_fragment o1 kt long_form frame =
     do { let f1 = frame_remove_from_extra_frame frame crypto_max_overhead;
          let f2 = crypto_adjust_frame_parameters f1 kt (op_replay o1) long_form;
          frame_set_mtu_dynamic f2 (op_fragment o1) SET_MTU_UPPER_BOUND }"

text \<open>The results: the answer, the options, both frames, the options of the tunnel and the session.\<close>

type_synonym 'ssl params_result = "bool \<times> options \<times> frame \<times> frame option \<times> tls_options \<times> 'ssl tls_session"

definition tls_session_update_crypto_params ::
  "crypto_lib \<Rightarrow> hs_env \<Rightarrow> tls_options \<Rightarrow> 'ssl tls_session \<Rightarrow> options \<Rightarrow> frame \<Rightarrow> frame option \<Rightarrow> 'ssl params_result option" where
  "tls_session_update_crypto_params lib env opt session o1 frame frame_fragment =
     (if ks_initialized (se_primary session) then Some (True, o1, frame, frame_fragment, opt, session)
      else if \<not> cipher_allowed opt o1
      then Some (False, o1\<lparr>op_ciphername := o_config_ciphername opt\<rparr>, frame, frame_fragment, opt, session)
      else do {
        let opt1 = (if op_data_channel_use_ekm o1
                    then opt\<lparr>o_crypto_flags := o_crypto_flags opt OR CO_USE_TLS_KEY_MATERIAL_EXPORT\<rparr> else opt);
        if op_ciphername o1 = o_config_ciphername opt
        then do { (ok, opt2, s) \<leftarrow> tls_session_generate_data_channel_keys env opt1 session;
                  Some (ok, o1, frame, frame_fragment, opt2, s) }
        else do {
          let o2 = (if op_keysize o1 \<noteq> 0 then o1\<lparr>op_keysize := 0\<rparr> else o1);
          kt \<leftarrow> init_key_type lib (op_ciphername o2) (op_authname o2) (op_keysize o2) True;
          let long_form = kt_mode_is OPENVPN_MODE_OFB_CFB (kt_cipher kt);
          let flags = o_crypto_flags opt1 AND NOT CO_PACKET_ID_LONG_FORM;
          let opt2 = opt1\<lparr>o_key_type := kt,
                          o_crypto_flags := (if long_form then flags OR CO_PACKET_ID_LONG_FORM else flags)\<rparr>;
          f \<leftarrow> update_frame o2 kt long_form frame;
          ff \<leftarrow> (case frame_fragment of None \<Rightarrow> Some None
                | Some g \<Rightarrow> map_option Some (update_frame_fragment o2 kt long_form g));
          (ok, opt3, s) \<leftarrow> tls_session_generate_data_channel_keys env opt2 session;
          Some (ok, o2, f, ff, opt3, s) } })"

text \<open>
  The same for the active session of a tunnel, as \<open>multi_client_generate_tls_keys\<close> of the server and the end of
  \<open>do_deferred_options\<close> of the client do it; the frame of fragments is given when the option is set.
\<close>

definition update_active_session ::
  "crypto_lib \<Rightarrow> hs_env \<Rightarrow> 'ssl tunnel_context \<Rightarrow> (bool \<times> 'ssl tunnel_context) option" where
  "update_active_session lib env c =
     do { let m = c2_tls_multi c;
          (ok, o1, f, ff, opt, s) \<leftarrow> tls_session_update_crypto_params lib env (tm_opt m) (tm_session m ! TM_ACTIVE) (c_options c)
             (c2_frame c) (if op_fragment (c_options c) \<noteq> 0 then Some (c2_frame_fragment c) else None);
          Some (ok, c\<lparr>c2_tls_multi := m\<lparr>tm_opt := opt, tm_session := (tm_session m)[TM_ACTIVE := s]\<rparr>, c2_frame := f,
                       c2_frame_fragment := (case ff of None \<Rightarrow> c2_frame_fragment c | Some g \<Rightarrow> g), c_options := o1\<rparr>) }"

text \<open>At the client, the end of \<open>do_deferred_options\<close>: the identifier of the peer, if it was pushed, and the cipher.\<close>

definition import_peer_id :: "'ssl tunnel_context \<Rightarrow> 'ssl tunnel_context" where
  "import_peer_id c =
     (let m = (c2_tls_multi c)\<lparr>tm_use_peer_id := True, tm_peer_id := op_peer_id (c_options c)\<rparr>;
          f = frame_add_to_extra_frame (c2_frame c) 3
      in c\<lparr>c2_tls_multi := m, c2_frame := (if \<not> op_link_mtu_defined (c_options c) then frame_add_to_link_mtu f 3 else f)\<rparr>)"

definition import_crypto_options ::
  "crypto_lib \<Rightarrow> hs_env \<Rightarrow> bool \<Rightarrow> bool \<Rightarrow> 'ssl tunnel_context \<Rightarrow> (bool \<times> 'ssl tunnel_context) option" where
  "import_crypto_options lib env found_peer_id found_ncp c =
     do { let c1 = (if found_peer_id then import_peer_id c else c);
          if op_pull (c_options c1)
          then do { let (ok, o1) = check_pull_client_ncp found_ncp (c_options c1) (tm_remote_ciphername (c2_tls_multi c1));
                    let c2 = c1\<lparr>c_options := o1\<rparr>;
                    if \<not> ok then Some (False, c2) else update_active_session lib env c2 }
          else Some (True, c1) }"

section \<open>The choice of the server\<close>

definition IV_PROTO_DATA_V2 :: int where "IV_PROTO_DATA_V2 = 2"
definition IV_PROTO_REQUEST_PUSH :: int where "IV_PROTO_REQUEST_PUSH = 4"
definition IV_PROTO_TLS_KEY_EXPORT :: int where "IV_PROTO_TLS_KEY_EXPORT = 8"

definition extract_iv_proto :: "bytes option \<Rightarrow> int" where
  "extract_iv_proto peer_info =
     (case peer_info_number peer_info ''IV_PROTO='' of Some proto \<Rightarrow> if proto > 0 then proto else 0 | None \<Rightarrow> 0)"

definition multi_client_set_protocol_options :: "crypto_lib \<Rightarrow> 'ssl tunnel_context \<Rightarrow> bool \<times> 'ssl tunnel_context" where
  "multi_client_set_protocol_options lib c =
     (let m = c2_tls_multi c;
          peer_info = tm_peer_info m;
          proto = extract_iv_proto peer_info;
          m1 = (if proto AND IV_PROTO_DATA_V2 \<noteq> 0 then m\<lparr>tm_use_peer_id := True\<rparr> else m);
          c1 = (if proto AND IV_PROTO_REQUEST_PUSH \<noteq> 0 then c\<lparr>c2_push_request_received := True\<rparr> else c);
          o1 = (if cl_export lib
                then (c_options c1)\<lparr>op_data_channel_use_ekm := proto AND IV_PROTO_TLS_KEY_EXPORT \<noteq> 0\<rparr> else c_options c1);
          c2 = c1\<lparr>c2_tls_multi := m1, c_options := o1\<rparr>
      in if \<not> op_ncp_enabled o1 then (True, c2)
         else if ks_initialized (se_primary (tm_session m ! TM_ACTIVE)) then (True, c2)
         else case ncp_get_best_cipher (op_ncp_ciphers o1) peer_info (tm_remote_ciphername m) of
                Some cipher \<Rightarrow> (True, c2\<lparr>c_options := o1\<lparr>op_ciphername := cipher\<rparr>\<rparr>)
              | None \<Rightarrow> (tls_peer_ncp_list peer_info = [] \<and> tm_remote_ciphername m = None \<and> op_enable_ncp_fallback o1, c2))"

section \<open>Both ends agree\<close>

lemma tls_item_in_cipher_list_iff:
  "tls_item_in_cipher_list x list \<longleftrightarrow> x \<in> set (strsep_tokens colon list) \<and> x \<noteq> []"
  by (auto simp: tls_item_in_cipher_list_def strtok_tokens_def list_ex_iff)

lemma tls_peer_ncp_list_sent:
  assumes "strstr info (str_bytes ''IV_CIPHERS='') = Some (str_bytes ''IV_CIPHERS='' @ list @ newline # rest)" "newline \<notin> set list"
  shows "peer_ciphers (Some info) \<noteq> None" "tls_peer_ncp_list (Some info) = list"
proof -
  have "takeWhile (\<lambda>x. x \<noteq> newline) (list @ newline # rest) = list"
    using assms(2) by (subst takeWhile_append2) auto
  then show "peer_ciphers (Some info) \<noteq> None" "tls_peer_ncp_list (Some info) = list"
    using assms(1) by (simp_all add: peer_ciphers_def tls_peer_ncp_list_def str_bytes_def)
qed

lemma find_SomeD: "find P xs = Some x \<Longrightarrow> \<exists>ys zs. xs = ys @ x # zs \<and> P x \<and> (\<forall>y \<in> set ys. \<not> P y)"
proof (induction xs)
  case (Cons a xs)
  show ?case
  proof (cases "P a")
    case True
    then show ?thesis using Cons.prems by (intro exI [of _ "[]"] exI [of _ xs]) simp
  next
    case False
    then obtain ys zs where "xs = ys @ x # zs" "P x" "\<forall>y \<in> set ys. \<not> P y" using Cons by auto
    then show ?thesis using False by (intro exI [of _ "a # ys"] exI [of _ zs]) simp
  qed
qed simp

lemma update_keeps_allowed:
  assumes "tls_session_update_crypto_params lib env opt s o1 f ff = Some (ok, o2, x)" "cipher_allowed opt o1"
  shows "op_ciphername o2 = op_ciphername o1"
  using assms by (auto simp: tls_session_update_crypto_params_def Let_def split: if_split_asm option.split_asm Option.bind_split_asm
      prod.split_asm)

text \<open>
  C12. The cipher that the server chooses is one that the client accepts. When the information on the client has the list
  of its ciphers, the server finds a cipher exactly when the two lists have one in common, takes the first of its own
  list that is also in that of the client, and the client to which it is pushed does not refuse it and keeps it.
\<close>

theorem negotiated_cipher_accepted:
  assumes "tm_peer_info (c2_tls_multi c) = Some info"
    and "strstr info (str_bytes ''IV_CIPHERS='') = Some (str_bytes ''IV_CIPHERS='' @ list @ newline # rest)"
    and "newline \<notin> set list" and "list \<noteq> []" and "op_ncp_enabled (c_options c)"
    and "\<not> ks_initialized (se_primary (tm_session (c2_tls_multi c) ! TM_ACTIVE))"
    and "[] \<notin> set (strsep_tokens colon (op_ncp_ciphers (c_options c)))"
    and "multi_client_set_protocol_options lib c = (ok, c')"
  shows "(ok \<longleftrightarrow> (\<exists>x. tls_item_in_cipher_list x (op_ncp_ciphers (c_options c)) \<and> tls_item_in_cipher_list x list)) \<and>
     (ok \<longrightarrow> (\<exists>xs cipher ys. op_ciphername (c_options c') = cipher \<and>
         strsep_tokens colon (op_ncp_ciphers (c_options c)) = xs @ cipher # ys \<and>
         tls_item_in_cipher_list cipher list \<and> (\<forall>x \<in> set xs. \<not> tls_item_in_cipher_list x list) \<and>
         (op_ciphername o1 = cipher \<and> op_ncp_ciphers o1 = list \<longrightarrow> cipher_allowed opt o1 \<and>
            (\<forall>done1 o2 r. tls_session_update_crypto_params clib env opt s o1 f ff = Some (done1, o2, r) \<longrightarrow> op_ciphername o2 = cipher))))"
proof -
  let ?own = "op_ncp_ciphers (c_options c)"
  have p: "peer_ciphers (Some info) \<noteq> None" "tls_peer_ncp_list (Some info) = list" by (rule tls_peer_ncp_list_sent [OF assms(2,3)])+
  have best: "ncp_get_best_cipher ?own (Some info) r = find (\<lambda>x. tls_item_in_cipher_list x list) (strsep_tokens colon ?own)" for r
  proof -
    have "ncp_get_best_cipher ?own (Some info) r = find (\<lambda>x. tls_item_in_cipher_list x list \<or> x = []) (strsep_tokens colon ?own)"
      using p by (simp add: ncp_get_best_cipher_def Let_def split: option.split)
    also have "\<dots> = find (\<lambda>x. tls_item_in_cipher_list x list) (strsep_tokens colon ?own)"
      using assms(7) by (intro find_cong) auto
    finally show ?thesis .
  qed
  define found where "found = find (\<lambda>x. tls_item_in_cipher_list x list) (strsep_tokens colon ?own)"
  have ok: "ok \<longleftrightarrow> found \<noteq> None" "found = Some x \<Longrightarrow> op_ciphername (c_options c') = x" for x
    using assms(8,4,5,6) p(2) unfolding multi_client_set_protocol_options_def Let_def assms(1)
    by (auto simp: best found_def split: option.split_asm if_split_asm)
  have own: "ok \<longleftrightarrow> (\<exists>x. tls_item_in_cipher_list x ?own \<and> tls_item_in_cipher_list x list)"
    unfolding ok(1) found_def by (auto simp: find_None_iff tls_item_in_cipher_list_iff)
  moreover have "\<exists>xs cipher ys. op_ciphername (c_options c') = cipher \<and> strsep_tokens colon ?own = xs @ cipher # ys \<and>
         tls_item_in_cipher_list cipher list \<and> (\<forall>x \<in> set xs. \<not> tls_item_in_cipher_list x list) \<and>
         (op_ciphername o1 = cipher \<and> op_ncp_ciphers o1 = list \<longrightarrow> cipher_allowed opt o1 \<and>
            (\<forall>done1 o2 r. tls_session_update_crypto_params clib env opt s o1 f ff = Some (done1, o2, r) \<longrightarrow> op_ciphername o2 = cipher))"
    if k: ok
  proof -
    obtain x where x: "found = Some x" using k ok(1) by blast
    obtain xs ys where f: "strsep_tokens colon ?own = xs @ x # ys" "tls_item_in_cipher_list x list"
      "\<forall>y \<in> set xs. \<not> tls_item_in_cipher_list y list" using find_SomeD [OF x [unfolded found_def]] by blast
    have a: "cipher_allowed opt o1" if "op_ciphername o1 = x" "op_ncp_ciphers o1 = list" using f(2) that by (simp add: cipher_allowed_def)
    have u: "op_ciphername o2 = x" if "op_ciphername o1 = x" "op_ncp_ciphers o1 = list"
        "tls_session_update_crypto_params clib env opt s o1 f ff = Some (d, o2, r)" for d o2 r
      using update_keeps_allowed [OF that(3) a [OF that(1,2)]] that(1) by simp
    show ?thesis using ok(2) [OF x] f a u by (intro exI [of _ xs] exI [of _ x] exI [of _ ys]) simp
  qed
  ultimately show ?thesis by blast
qed

definition demo_options :: options where
  "demo_options = \<lparr>op_ciphername = str_bytes ''A'', op_authname = str_bytes ''none'', op_keysize = 0, op_ncp_enabled = True,
     op_ncp_ciphers = str_bytes ''A:B:C'', op_enable_ncp_fallback = False, op_data_channel_use_ekm = False, op_replay = True,
     op_pull = False, op_peer_id = 0, op_link_mtu_defined = False, op_link_mtu = 0, op_tun_mtu_defined = True, op_tun_mtu = 1500,
     op_mssfix = 0, op_fragment = 0\<rparr>"

definition demo_peer_info :: bytes where
  "demo_peer_info = str_bytes ''IV_VER=2'' @ newline # str_bytes ''IV_CIPHERS=C:B'' @ [newline]"

definition demo_context :: "unit tunnel_context" where
  "demo_context = \<lparr>c2_tls_multi = demo_multi\<lparr>tm_peer_info := Some demo_peer_info,
       tm_session := [CLEAR_tls_session, CLEAR_tls_session, CLEAR_tls_session]\<rparr>,
     c2_frame = demo_crypto_frame, c2_frame_fragment = demo_crypto_frame, c2_push_request_received = False,
     c_options = demo_options\<rparr>"

definition demo_crypto_lib :: crypto_lib where
  "demo_crypto_lib = \<lparr>cl_cipher_kt_get = (\<lambda>_. None), cl_md_kt_get = (\<lambda>_. None), cl_export = True\<rparr>"

lemma negotiated_cipher_accepted_witness:
  "case multi_client_set_protocol_options demo_crypto_lib demo_context of (ok, c') \<Rightarrow>
     ok \<and> op_ciphername (c_options c') = str_bytes ''B'' \<and>
     cipher_allowed demo_tls_options (demo_options\<lparr>op_ciphername := str_bytes ''B'', op_ncp_ciphers := str_bytes ''C:B''\<rparr>)"
proof -
  obtain ok c' where r: "multi_client_set_protocol_options demo_crypto_lib demo_context = (ok, c')" by (rule prod.exhaust)
  let ?o = "demo_options\<lparr>op_ciphername := str_bytes ''B'', op_ncp_ciphers := str_bytes ''C:B''\<rparr>"
  have f: "tm_peer_info (c2_tls_multi demo_context) = Some demo_peer_info" "op_ncp_enabled (c_options demo_context)"
    "\<not> ks_initialized (se_primary (tm_session (c2_tls_multi demo_context) ! TM_ACTIVE))"
    "op_ncp_ciphers (c_options demo_context) = str_bytes ''A:B:C''" "op_ncp_ciphers ?o = str_bytes ''C:B''"
    by (simp_all add: demo_context_def demo_options_def tm_defs CLEAR_tls_session_def CLEAR_key_state_def)
  have s: "strstr demo_peer_info (str_bytes ''IV_CIPHERS='') = Some (str_bytes ''IV_CIPHERS='' @ str_bytes ''C:B'' @ newline # [])"
    by code_simp
  have l: "newline \<notin> set (str_bytes ''C:B'')" "str_bytes ''C:B'' \<noteq> []" "strsep_tokens colon (str_bytes ''A:B:C'') =
      [str_bytes ''A'', str_bytes ''B'', str_bytes ''C'']" "\<not> tls_item_in_cipher_list (str_bytes ''A'') (str_bytes ''C:B'')"
      "tls_item_in_cipher_list (str_bytes ''B'') (str_bytes ''C:B'')" "str_bytes ''A'' \<noteq> []" "str_bytes ''B'' \<noteq> []" "str_bytes ''C'' \<noteq> []"
      "distinct [str_bytes ''A'', str_bytes ''B'', str_bytes ''C'']"
    by code_simp+
  have ne: "[] \<notin> set [str_bytes ''A'', str_bytes ''B'', str_bytes ''C'']" using l(6-8) by simp
  note t = negotiated_cipher_accepted [OF f(1) s l(1,2) f(2,3) _ r, unfolded f(4) l(3), OF ne, of ?o demo_tls_options]
  have "tls_item_in_cipher_list (str_bytes ''B'') (str_bytes ''A:B:C'')" by code_simp
  then have ok: ok using t [THEN conjunct1] l(5) by blast
  then obtain xs cipher ys where x: "op_ciphername (c_options c') = cipher" "[str_bytes ''A'', str_bytes ''B'', str_bytes ''C''] = xs @ cipher # ys"
    "tls_item_in_cipher_list cipher (str_bytes ''C:B'')" "\<forall>x \<in> set xs. \<not> tls_item_in_cipher_list x (str_bytes ''C:B'')"
    "op_ciphername ?o = cipher \<longrightarrow> cipher_allowed demo_tls_options ?o"
    using t [THEN conjunct2] f(5) by metis
  have "cipher = str_bytes ''B''"
  proof (cases xs)
    case Nil
    then show ?thesis using x(2,3) l(4) by simp
  next
    case (Cons a zs)
    then show ?thesis using x(2,4) l(5) by (cases zs) auto
  qed
  then show ?thesis using ok x(1,5) by (simp add: r)
qed

end
