(* ===== verification/TlsTunnel.thy ===== *)
theory TlsTunnel
  imports TlsHandshake Ncp
begin

text \<open>
  All that happens to the TLS state of a tunnel, as one step relation, and what holds of the keys of every state that is
  reached: no key works before the key message of its peer has been read, and the keys of a session have different identifiers.
\<close>

section \<open>The invariant\<close>

definition key_ok :: "bool \<Rightarrow> 'ssl key_state \<Rightarrow> bool" where
  "key_ok sv ks \<longleftrightarrow> (ks_initialized ks \<or> ks_authenticated ks \<noteq> KS_AUTH_FALSE \<longrightarrow> ks_state ks \<ge> S_GOT_KEY - (if sv then 1 else 0))"

text \<open>With \<open>f\<close>, the primary key of the session may have failed.\<close>

definition session_ok :: "bool \<Rightarrow> bool \<Rightarrow> 'ssl tls_session \<Rightarrow> bool" where
  "session_ok sv f s \<longleftrightarrow> (key_ok sv (se_primary s) \<or> f \<and> ks_state (se_primary s) = S_ERROR) \<and> key_ok sv (se_lame s) \<and>
     (ks_state (se_primary s) \<noteq> S_UNDEF \<longrightarrow> ks_key_id (se_primary s) \<in> {0..<8} \<and>
        se_key_id s = next_key_id (ks_key_id (se_primary s))) \<and>
     (ks_state (se_lame s) \<noteq> S_UNDEF \<longrightarrow> ks_key_id (se_lame s) \<noteq> ks_key_id (se_primary s))"

text \<open>
  The sessions of \<open>F\<close> may have failed. Between the steps of a tunnel this is at most the third one, where a failed session
  is kept for the sake of its old key.
\<close>

definition tunnel_but :: "bool \<Rightarrow> nat set \<Rightarrow> 'ssl tls_multi \<Rightarrow> bool" where
  "tunnel_but sv F m \<longleftrightarrow> o_server (tm_opt m) = sv \<and> length (tm_session m) = 3 \<and> (\<forall>i < 3. session_ok sv (i \<in> F) (tm_session m ! i))"

abbreviation tunnel_ok :: "bool \<Rightarrow> 'ssl tls_multi \<Rightarrow> bool" where
  "tunnel_ok sv m \<equiv> tunnel_but sv {2} m"

lemma next_key_id: "k \<in> {0..<8} \<Longrightarrow> next_key_id k \<noteq> k \<and> next_key_id k \<in> {1..<8}"
proof -
  assume "k \<in> {0..<8}"
  then have "k \<in> {0, 1, 2, 3, 4, 5, 6, 7}" by auto
  then show ?thesis by (auto simp: next_key_id_def Let_def)
qed

text \<open>Changes that do not matter to the invariant.\<close>

definition key_same :: "'ssl key_state \<Rightarrow> 'ssl key_state \<Rightarrow> bool" where
  "key_same a b \<longleftrightarrow> ks_state b = ks_state a \<and> ks_key_id b = ks_key_id a \<and> ks_initialized b = ks_initialized a \<and>
     ks_authenticated b \<in> {ks_authenticated a, KS_AUTH_FALSE}"

lemma key_same_refl [simp]: "key_same a a"
  by (simp add: key_same_def)

lemma key_same_ok: "key_ok sv a \<Longrightarrow> key_same a b \<Longrightarrow> key_ok sv b"
  by (auto simp: key_ok_def key_same_def)

lemma key_kept_same: "key_kept a b \<Longrightarrow> key_same a b"
  by (auto simp: key_kept_def key_same_def hs_view_def)

lemma session_ok_mono: "session_ok sv f s \<Longrightarrow> f \<longrightarrow> g \<Longrightarrow> session_ok sv g s"
  by (auto simp: session_ok_def)

lemma session_not_failed: "session_ok sv f s \<Longrightarrow> ks_state (se_primary s) \<noteq> S_ERROR \<Longrightarrow> session_ok sv g s \<and> key_ok sv (se_primary s)"
  by (simp add: session_ok_def)

lemma session_same_ok:
  assumes "session_ok sv f s" "se_key_id s' = se_key_id s" "key_same (se_primary s) (se_primary s')" "key_same (se_lame s) (se_lame s')"
  shows "session_ok sv f s'"
proof -
  have k: "key_ok sv (se_primary s) \<Longrightarrow> key_ok sv (se_primary s')" "key_ok sv (se_lame s')"
    using assms(1) key_same_ok [OF _ assms(3)] key_same_ok [OF _ assms(4)] by (simp_all add: session_ok_def)
  have "ks_state (se_primary s') = ks_state (se_primary s)" "ks_key_id (se_primary s') = ks_key_id (se_primary s)"
    "ks_state (se_lame s') = ks_state (se_lame s)" "ks_key_id (se_lame s') = ks_key_id (se_lame s)"
    using assms(3,4) by (simp_all add: key_same_def)
  then show ?thesis using assms(1,2) k by (auto simp: session_ok_def)
qed

lemma tunnel_replace_ok:
  assumes "tunnel_but sv G m" "session_ok sv (i \<in> F) s" "G \<subseteq> insert i F"
  shows "tunnel_but sv F (session_update m i s)"
proof -
  have e: "(tm_session m)[i := s] ! j = (if j = i then s else tm_session m ! j)" if "j < 3" for j
    using that assms(1) by (cases "j = i") (simp_all add: tunnel_but_def)
  have "session_ok sv (j \<in> F) (tm_session m ! j)" if "j < 3" "j \<noteq> i" for j
  proof (rule session_ok_mono)
    show "session_ok sv (j \<in> G) (tm_session m ! j)" using assms(1) that(1) by (simp add: tunnel_but_def)
    show "j \<in> G \<longrightarrow> j \<in> F" using assms(3) that(2) by blast
  qed
  then show ?thesis using assms(1,2) by (simp add: tunnel_but_def session_update_def e)
qed

lemma tunnel_update_ok: "tunnel_but sv F m \<Longrightarrow> session_ok sv (i \<in> F) s \<Longrightarrow> tunnel_but sv F (session_update m i s)"
  by (rule tunnel_replace_ok) auto

lemma tunnel_ok_session: "tunnel_but sv F m \<Longrightarrow> i < 3 \<Longrightarrow> session_ok sv (i \<in> F) (tm_session m ! i)"
  by (simp add: tunnel_but_def)

lemma tunnel_fields_ok: "tunnel_but sv F m \<Longrightarrow> tm_session m' = tm_session m \<Longrightarrow> o_server (tm_opt m') = o_server (tm_opt m) \<Longrightarrow> tunnel_but sv F m'"
  by (simp add: tunnel_but_def)

lemma CLEAR_key_ok [simp]: "key_ok sv CLEAR_key_state" "ks_state CLEAR_key_state = S_UNDEF"
  by (simp_all add: key_ok_def CLEAR_key_state_def)

lemma key_ok_must_die [simp]: "key_ok sv (ks\<lparr>ks_must_die := t\<rparr>) = key_ok sv ks"
  by (simp add: key_ok_def)

lemma CLEAR_session_ok [simp]: "session_ok sv f CLEAR_tls_session"
  by (simp add: session_ok_def CLEAR_tls_session_def)

lemma fresh_key_ok: "fresh_key k ks \<Longrightarrow> key_ok sv ks \<and> ks_state ks \<noteq> S_UNDEF \<and> ks_key_id ks = k"
  by (simp add: fresh_key_def key_ok_def state_defs)

section \<open>Sessions that begin\<close>

lemma tls_session_init_ok:
  assumes "tls_session_init tls opt ids = Some (s, ids')"
  shows "session_ok sv f s"
proof -
  obtain s0 s1 ks where k: "key_state_init tls opt s0 = Some (s1, ks)" "s = s1\<lparr>se_primary := ks\<rparr>" "se_key_id s0 = 0"
    "se_lame s0 = CLEAR_key_state"
    using assms by (auto simp: tls_session_init_def Let_def CLEAR_tls_session_def split: Option.bind_split_asm prod.split_asm)
  note f = key_state_init_fresh [OF k(1)]
  show ?thesis using fresh_key_ok [OF f(1), of sv] f(2,4) k(2-4) by (simp add: session_ok_def)
qed

lemma move_session_ok:
  assumes "move_session tls m dest src reinit ids = Some (m', ids')" "tunnel_but sv G m" "G \<subseteq> insert src F" "src \<in> G \<longrightarrow> dest \<in> F"
  shows "tunnel_but sv F m'"
proof -
  obtain new where m': "m' = session_update (session_update m dest (tm_session m ! src)) src new" "src < 3"
    "(if reinit then tls_session_init tls (tm_opt m) ids else Some (CLEAR_tls_session, ids)) = Some (new, ids')"
    using assms(1) by (auto simp: move_session_def Let_def session_update_def TM_SIZE_def bind_eq_Some_conv ASSERT_def split: if_split_asm)
  have "session_ok sv f new" for f using m'(3) tls_session_init_ok by (auto split: if_splits)
  moreover have "session_ok sv (dest \<in> insert src F) (tm_session m ! src)"
    by (rule session_ok_mono [OF tunnel_ok_session [OF assms(2) m'(2)]]) (use assms(4) in blast)
  ultimately show ?thesis unfolding m'(1)
    by (intro tunnel_replace_ok [where G = "insert src F" and F = F] tunnel_replace_ok [OF assms(2), where F = "insert src F"])
      (use assms(3) in auto)
qed

lemma reset_session_ok:
  assumes "reset_session tls m i ids = Some (m', ids')" "tunnel_but sv G m" "G \<subseteq> insert i F"
  shows "tunnel_but sv F m'"
proof -
  obtain new where "m' = session_update m i new" "tls_session_init tls (tm_opt m) ids = Some (new, ids')"
    using assms(1) by (auto simp: reset_session_def session_update_def bind_eq_Some_conv)
  then show ?thesis using tunnel_replace_ok [OF assms(2) tls_session_init_ok assms(3)] by simp
qed

lemma tls_multi_init_finalize_ok:
  assumes "tls_multi_init_finalize tls (tls_multi_init opt) frame ids = Some (m, ids')"
  shows "tunnel_ok (o_server opt) m"
proof -
  obtain f s0 ids0 where s: "tls_session_init tls (opt\<lparr>o_frame := f\<rparr>) ids = Some (s0, ids0)"
    "if o_single_session opt then tm_session m = [s0, CLEAR_tls_session, CLEAR_tls_session]
     else \<exists>s1. tls_session_init tls (opt\<lparr>o_frame := f\<rparr>) ids0 = Some (s1, ids') \<and> tm_session m = [s0, s1, CLEAR_tls_session]"
    "o_server (tm_opt m) = o_server opt"
    using assms
    by (auto simp: tls_multi_init_finalize_def Let_def tls_multi_init_def bind_eq_Some_conv tm_defs numeral_3_eq_3
        split: if_split_asm prod.split_asm)
  obtain s1 where s1: "tm_session m = [s0, s1, CLEAR_tls_session]" "\<And>f. session_ok (o_server opt) f s1"
    using s(2) tls_session_init_ok CLEAR_session_ok by (metis (full_types))
  have "session_ok (o_server opt) f (tm_session m ! i)" if i: "i < 3" for i f
  proof -
    consider "i = 0" | "i = 1" | "i = 2" using i by linarith
    then show ?thesis by cases (use s1 tls_session_init_ok [OF s(1)] in simp_all)
  qed
  then show ?thesis using s(3) s1(1) by (simp add: tunnel_but_def)
qed

section \<open>The handshake\<close>

lemma hs_step_ok: "hs_step sv w now a b \<Longrightarrow> key_ok sv a \<and> ks_state a \<noteq> S_ERROR \<Longrightarrow> key_ok sv b \<and> ks_state b \<noteq> S_ERROR"
  by (induction rule: hs_step.induct) (auto simp: key_ok_def hs_view_def state_defs split: if_splits)

lemma hs_run_ok: "hs_run sv w T a b \<Longrightarrow> key_ok sv a \<and> ks_state a \<noteq> S_ERROR \<Longrightarrow> key_ok sv b \<and> ks_state b \<noteq> S_ERROR"
  unfolding hs_run_def by (induction rule: rtranclp_induct) (use hs_step_ok in blast)+

lemma session_started_ok:
  assumes "session_started reset s s'" "session_ok sv f s" "ks_state (se_primary s) \<noteq> S_UNDEF" "ks_state (se_primary s) \<noteq> S_ERROR"
  shows "session_ok sv g s' \<and> ks_state (se_primary s') \<noteq> S_UNDEF \<and> ks_state (se_primary s') \<noteq> S_ERROR"
proof (cases reset)
  case True
  let ?k = "ks_key_id (se_primary s)"
  have id: "?k \<in> {0..<8}" "se_key_id s = next_key_id ?k" "key_ok sv (se_primary s)" using assms(2-4) by (simp_all add: session_ok_def)
  have f: "fresh_key (next_key_id ?k) (se_primary s')" "se_key_id s' = next_key_id (next_key_id ?k)"
    and l: "se_lame s' = CLEAR_key_state \<or> (\<exists>t. se_lame s' = (se_primary s)\<lparr>ks_must_die := t\<rparr>)"
    using assms(1) True id(2) by (simp_all add: session_started_def)
  have "key_ok sv (se_lame s') \<and> (ks_state (se_lame s') \<noteq> S_UNDEF \<longrightarrow> ks_key_id (se_lame s') = ?k)"
    using l id(3) by auto
  then show ?thesis using f fresh_key_ok [OF f(1), of sv] next_key_id [OF id(1)]
    by (auto simp: session_ok_def fresh_key_def state_defs)
next
  case False
  then show ?thesis using assms by (auto simp: session_started_def session_ok_def)
qed

text \<open>The session that is processed may fail; what becomes of it is then for \<open>tls_multi_process\<close> to say.\<close>

lemma tls_process_ok:
  assumes "tls_process tls env i time st = Some st'" "tunnel_ok sv (tp_multi st)" "i < 3"
  shows "tunnel_but sv (if ks_state (tp_ks st' i) = S_ERROR then {i, 2} else {2}) (tp_multi st')"
proof -
  let ?F = "if ks_state (tp_ks st' i) = S_ERROR then {i, 2} else {2}"
  have ok: "tp_ok i st" using assms(2,3) by (simp add: tp_ok_def tunnel_but_def)
  have sv: "o_server (tm_opt (tp_multi st)) = sv" using assms(2) by (simp add: tunnel_but_def)
  obtain st2 n where p: "tp_multi st2 = session_update (tp_multi st) i (tp_session st2 i)"
    "session_started (tls_wants_soft_reset (tm_opt (tp_multi st)) (tp_ks st i) (time 0)) (tp_session st i) (tp_session st2 i)"
    "hs_frame i (tp_multi st2) (tp_multi st')"
    "ks_state (tp_ks st' i) = S_ERROR \<or>
     hs_run sv (o_handshake_window (tm_opt (tp_multi st))) (time ` {2..n}) (tp_ks st2 i) (tp_ks st' i)"
    by (rule tls_process_result [OF assms(1) ok, unfolded sv])
  have st: "ks_state (se_primary (tp_session st i)) \<noteq> S_UNDEF" "ks_state (se_primary (tp_session st i)) \<noteq> S_ERROR"
    using tls_process_parts [OF assms(1) ok] by (metis tp_ks_def)+
  have s1: "session_ok sv (i \<in> {2}) (tp_session st i)" using tunnel_ok_session [OF assms(2,3)] by (simp add: tp_session_def)
  have s2: "session_ok sv g (tp_session st2 i)" "ks_state (tp_ks st2 i) \<noteq> S_UNDEF" "ks_state (tp_ks st2 i) \<noteq> S_ERROR" for g
    using session_started_ok [OF p(2) s1 st] by (simp_all add: tp_ks_def)
  have t2: "tunnel_ok sv (tp_multi st2)" unfolding p(1) by (rule tunnel_update_ok [OF assms(2) s2(1)])
  have len: "length (tm_session (tp_multi st')) = 3" "length (tm_session (tp_multi st2)) = 3" "o_server (tm_opt (tp_multi st')) = sv"
    using p(3) t2 by (simp_all add: hs_frame_def tunnel_but_def)
  have "session_ok sv (j \<in> ?F) (tm_session (tp_multi st') ! j)" if j: "j < 3" for j
  proof -
    let ?s = "tm_session (tp_multi st2) ! j" and ?s' = "tm_session (tp_multi st') ! j"
    have f: "se_key_id ?s' = se_key_id ?s" "key_same (se_lame ?s) (se_lame ?s')"
      "j \<noteq> i \<longrightarrow> key_same (se_primary ?s) (se_primary ?s')" "ks_key_id (se_primary ?s') = ks_key_id (se_primary ?s)"
      using p(3) j len(2) key_kept_same by (auto simp: hs_frame_def Let_def)
    have s: "session_ok sv (j \<in> {2}) ?s" by (rule tunnel_ok_session [OF t2 j])
    show ?thesis
    proof (cases "j = i")
      case False
      then have "session_ok sv (j \<in> {2}) ?s'" using session_same_ok [OF s f(1)] f(2,3) by blast
      then show ?thesis by (rule session_ok_mono) auto
    next
      case True
      have k: "key_ok sv (tp_ks st2 i)" using s2(1) [of False] by (simp add: session_ok_def tp_ks_def)
      have "key_ok sv (tp_ks st' i) \<or> i \<in> ?F \<and> ks_state (tp_ks st' i) = S_ERROR"
        using p(4) hs_run_ok [OF _ conjI [OF k s2(3)]] by (cases "ks_state (tp_ks st' i) = S_ERROR") auto
      then have "key_ok sv (se_primary ?s') \<or> j \<in> ?F \<and> ks_state (se_primary ?s') = S_ERROR" unfolding True by (simp add: tp_ks_def tp_session_def)
      moreover have "key_ok sv (se_lame ?s')" using s f(2) key_same_ok by (auto simp: session_ok_def)
      moreover have "ks_state (se_primary ?s) \<noteq> S_UNDEF" using s2(2) True by (simp add: tp_ks_def tp_session_def)
      ultimately show ?thesis using s f(1,2,4) by (auto simp: session_ok_def key_same_def)
    qed
  qed
  then show ?thesis using len by (simp add: tunnel_but_def)
qed

section \<open>All sessions\<close>

lemma key_scan_ok:
  assumes "tunnel_ok sv m"
  shows "key_ok sv (key_scan m i)"
proof -
  have "session_ok sv False (tm_session m ! 0)" "session_ok sv True (tm_session m ! 2)"
    using tunnel_ok_session [OF assms, of 0] tunnel_ok_session [OF assms, of 2] by simp_all
  then show ?thesis by (simp add: key_scan_def session_ok_def tm_defs)
qed

lemma key_scan_update_ok:
  assumes "tunnel_ok sv m" "key_ok sv ks" "ks_state ks = ks_state (key_scan m i)" "ks_key_id ks = ks_key_id (key_scan m i)"
  shows "tunnel_ok sv (key_scan_update m i ks)"
proof -
  let ?a = "tm_session m ! TM_ACTIVE" and ?l = "tm_session m ! TM_LAME_DUCK"
  have s: "session_ok sv (TM_ACTIVE \<in> {2}) ?a" "session_ok sv (TM_LAME_DUCK \<in> {2}) ?l"
    using tunnel_ok_session [OF assms(1), of TM_ACTIVE] tunnel_ok_session [OF assms(1), of TM_LAME_DUCK] by (simp_all add: tm_defs)
  have "session_ok sv (TM_ACTIVE \<in> {2}) (?a\<lparr>se_primary := ks\<rparr>)" if "i = 0" using s(1) assms(2-4) that by (simp add: session_ok_def key_scan_def)
  moreover have "session_ok sv (TM_ACTIVE \<in> {2}) (?a\<lparr>se_lame := ks\<rparr>)" if "i = 1" using s(1) assms(2-4) that by (simp add: session_ok_def key_scan_def)
  moreover have "session_ok sv (TM_LAME_DUCK \<in> {2}) (?l\<lparr>se_lame := ks\<rparr>)" if "i \<noteq> 0" "i \<noteq> 1" using s(2) assms(2-4) that
    by (simp add: session_ok_def key_scan_def)
  moreover have "key_scan_update m i ks = (if i = 0 then session_update m TM_ACTIVE (?a\<lparr>se_primary := ks\<rparr>)
      else if i = 1 then session_update m TM_ACTIVE (?a\<lparr>se_lame := ks\<rparr>) else session_update m TM_LAME_DUCK (?l\<lparr>se_lame := ks\<rparr>))"
    by (simp add: key_scan_update_def session_update_def Let_def)
  ultimately show ?thesis using tunnel_update_ok [OF assms(1)] by simp
qed

lemma key_scan_same_ok:
  "tunnel_ok sv m \<Longrightarrow> key_same (key_scan m i) ks \<Longrightarrow> tunnel_ok sv (key_scan_update m i ks)"
  by (rule key_scan_update_ok) (auto intro: key_same_ok [OF key_scan_ok] simp: key_same_def)

lemma tls_authentication_key_ok:
  assumes "tunnel_ok sv m" "tls_authentication_key acf now i (m, x) = (m', y)"
  shows "tunnel_ok sv m'"
proof -
  obtain a s d where x: "x = (a, s, d)" by (cases x)
  show ?thesis
  proof (cases "DECRYPT_KEY_ENABLED m (key_scan m i)")
    case False
    then show ?thesis using assms by (simp add: tls_authentication_key_def Let_def x)
  next
    case True
    have "tunnel_ok sv (key_scan_update m i ((key_scan m i)\<lparr>ks_authenticated := v\<rparr>))" for v
      using True assms(1) by (intro key_scan_update_ok) (auto simp: key_ok_def DECRYPT_KEY_ENABLED_def tunnel_but_def split: if_splits)
    then show ?thesis using assms by (auto simp: tls_authentication_key_def Let_def x split: if_split_asm acf_result.split_asm)
  qed
qed

lemma tls_authentication_fold_ok:
  "tunnel_ok sv m \<Longrightarrow> fold (tls_authentication_key acf now) is (m, x) = (m', y) \<Longrightarrow> tunnel_ok sv m'"
proof (induction "is" arbitrary: m x)
  case (Cons i js)
  obtain m1 x1 where s: "tls_authentication_key acf now i (m, x) = (m1, x1)" by (cases "tls_authentication_key acf now i (m, x)")
  show ?case using Cons.IH [OF tls_authentication_key_ok [OF Cons.prems(1) s]] Cons.prems(2) s by simp
qed simp

lemma tls_authentication_status_ok:
  assumes "tls_authentication_status acf m latency now = (tas, m')" "tunnel_ok sv m"
  shows "tunnel_ok sv m'"
proof -
  have "tunnel_ok sv (m\<lparr>tm_tas_last := now\<rparr>)" using assms(2) by (rule tunnel_fields_ok) simp_all
  moreover obtain m1 y where f: "fold (tls_authentication_key acf now) [0..<KEY_SCAN_SIZE] (m\<lparr>tm_tas_last := now\<rparr>, False, False, False) = (m1, y)"
    by (rule prod.exhaust)
  ultimately have "tunnel_ok sv m1" using tls_authentication_fold_ok by blast
  moreover have "m' = m \<or> m' = m1"
    using assms(1) by (cases y) (simp add: tls_authentication_status_def f split: if_split_asm)
  ultimately show ?thesis using assms(2) by blast
qed

lemma tls_multi_session_ok:
  assumes "tls_multi_session tls env time i (st, act, error, ids) = Some (st', x)" "tunnel_ok sv (tp_multi st)" "i < 3"
  shows "tunnel_ok sv (tp_multi st')"
proof -
  define st0 where "st0 = (if i = TM_ACTIVE \<and> ks_state (tp_ks st i) = S_INITIAL \<and>
      link_socket_actual_defined (Some (la_actual (li_lsa (tp_info st))))
    then tp_set_ks st i ((tp_ks st i)\<lparr>ks_remote_addr := la_actual (li_lsa (tp_info st))\<rparr>) else st)"
  have s: "session_ok sv (i \<in> {2}) (tp_session st i)" using tunnel_ok_session [OF assms(2,3)] by (simp add: tp_session_def)
  have "session_ok sv (i \<in> {2}) ((tp_session st i)\<lparr>se_primary := (tp_ks st i)\<lparr>ks_remote_addr := a\<rparr>\<rparr>)" for a
    by (rule session_same_ok [OF s]) (simp_all add: key_same_def tp_ks_def)
  then have upd: "tunnel_ok sv (tp_multi (tp_set_ks st i ((tp_ks st i)\<lparr>ks_remote_addr := a\<rparr>)))" for a
    by (simp add: tp_set_ks_def tp_set_session_def tunnel_update_ok [OF assms(2)])
  have "tunnel_ok sv (tp_multi (if b then x else y))" if "tunnel_ok sv (tp_multi x)" "tunnel_ok sv (tp_multi y)"
    for b and x y :: "'a tls_proc" using that by simp
  then have t0: "tunnel_ok sv (tp_multi st0)" unfolding st0_def using upd assms(2) by blast
  consider (idle) "st' = st0" | (run) st1 st2 where "tls_process tls env i (time i) (st0\<lparr>tp_addr := None\<rparr>) = Some st1"
      "tm_session (tp_multi st2) = tm_session (tp_multi st1)" "tm_opt (tp_multi st2) = tm_opt (tp_multi st1)"
      "tp_session st2 i = tp_session st1 i"
      "st' = st2 \<and> ks_state (tp_ks st1 i) \<noteq> S_ERROR \<or> (\<exists>m m1 ids1. m = (tp_multi st2)\<lparr>tm_n_soft_errors := tm_n_soft_errors (tp_multi st2) + 1\<rparr> \<and>
         (i = TM_ACTIVE \<and> move_session tls m TM_LAME_DUCK TM_ACTIVE True ids = Some (m1, ids1) \<or> reset_session tls m i ids = Some (m1, ids1)) \<and>
         tp_multi st' = m1)"
  proof -
    note r = assms(1) [unfolded tls_multi_session_def prod.case Let_def st0_def [symmetric]]
    show ?thesis
    proof (cases "ks_state (tp_ks st0 i) \<ge> S_INITIAL \<and> link_socket_actual_defined (Some (ks_remote_addr (tp_ks st0 i)))")
      case False
      then show ?thesis using r that(1) by (simp only: if_False) simp
    next
      case True
      obtain st1 where st1: "tls_process tls env i (time i) (st0\<lparr>tp_addr := None\<rparr>) = Some st1"
        using r True by (cases "tls_process tls env i (time i) (st0\<lparr>tp_addr := None\<rparr>)") auto
      define st2 where "st2 = (case tp_addr st1 of None \<Rightarrow> st1\<lparr>tp_addr := tp_addr st0\<rparr>
        | Some a \<Rightarrow> st1\<lparr>tp_multi := (tp_multi st1)\<lparr>tm_to_link_addr := a\<rparr>\<rparr>)"
      have f: "tm_session (tp_multi st2) = tm_session (tp_multi st1)" "tm_opt (tp_multi st2) = tm_opt (tp_multi st1)"
        "tp_session st2 i = tp_session st1 i"
        by (simp_all add: st2_def tp_session_def split: option.split)
      note r2 = r [unfolded st1 bind.bind_lunit st2_def [symmetric]]
      show ?thesis using r2 True by (intro that(2) [OF st1 f]) (auto simp: bind_eq_Some_conv tp_ks_def f(3) split: if_split_asm)
    qed
  qed
  then show ?thesis
  proof cases
    case run
    let ?F = "if ks_state (tp_ks st1 i) = S_ERROR then {i, 2} else {2}"
    have "tunnel_but sv ?F (tp_multi st1)" by (rule tls_process_ok [OF run(1) _ assms(3)]) (simp add: t0)
    then have t2: "tunnel_but sv ?F (tp_multi st2)" using run(2,3) tunnel_fields_ok by metis
    then have t3: "tunnel_but sv ?F ((tp_multi st2)\<lparr>tm_n_soft_errors := tm_n_soft_errors (tp_multi st2) + 1\<rparr>)"
      by (rule tunnel_fields_ok) simp_all
    have F: "?F \<subseteq> insert i {2}" "i = TM_ACTIVE \<longrightarrow> ?F \<subseteq> insert TM_ACTIVE {2}" "TM_LAME_DUCK \<in> {2}" by (simp_all add: tm_defs)
    from run(5) show ?thesis
    proof (elim disjE conjE exE)
      assume "st' = st2" "ks_state (tp_ks st1 i) \<noteq> S_ERROR"
      then show ?thesis using t2 by simp
    next
      fix m m1 ids1
      assume m: "m = (tp_multi st2)\<lparr>tm_n_soft_errors := tm_n_soft_errors (tp_multi st2) + 1\<rparr>" "tp_multi st' = m1" "i = TM_ACTIVE"
        "move_session tls m TM_LAME_DUCK TM_ACTIVE True ids = Some (m1, ids1)"
      show ?thesis unfolding m(2) by (rule move_session_ok [OF m(4) t3 [folded m(1)]]) (use F m(3) in auto)
    next
      fix m m1 ids1
      assume m: "m = (tp_multi st2)\<lparr>tm_n_soft_errors := tm_n_soft_errors (tp_multi st2) + 1\<rparr>" "tp_multi st' = m1"
        "reset_session tls m i ids = Some (m1, ids1)"
      show ?thesis unfolding m(2) by (rule reset_session_ok [OF m(3) t3 [folded m(1)] F(1)])
    qed
  qed (simp add: t0)
qed

lemma bind_SomeE:
  assumes "m \<bind> f = Some y"
  obtains x where "m = Some x" "f x = Some y"
  using assms by (auto simp: bind_eq_Some_conv)

lemma tls_multi_finish_ok:
  assumes "tls_multi_finish tls st error ids now = Some (st', ids')" "tunnel_ok sv (tp_multi st)"
  shows "tunnel_ok sv (tp_multi st')"
proof -
  let ?m0 = "tp_multi st"
  obtain m1 m2 ids1 where f: "m1 = ?m0 \<or> m1 = session_update ?m0 TM_LAME_DUCK (tls_session_free (tm_session ?m0 ! TM_LAME_DUCK) True)"
    "m2 = m1 \<or> move_session tls m1 TM_ACTIVE TM_UNTRUSTED True ids = Some (m2, ids1)"
    "tm_session (tp_multi st') = tm_session m2" "tm_opt (tp_multi st') = tm_opt m2"
  proof -
    obtain die wake where d: "lame_duck_must_die (tm_session ?m0 ! TM_LAME_DUCK) (tp_wakeup st) now = Some (die, wake)"
      using assms(1) by (auto simp: tls_multi_finish_def Let_def bind_eq_Some_conv)
    define m1 where "m1 = (if die then session_update ?m0 TM_LAME_DUCK (tls_session_free (tm_session ?m0 ! TM_LAME_DUCK) True) else ?m0)"
    note r = assms(1) [unfolded tls_multi_finish_def Let_def d bind.bind_lunit prod.case, folded m1_def]
    obtain z where z: "(if DECRYPT_KEY_ENABLED m1 (se_primary (tm_session m1 ! TM_UNTRUSTED))
        then move_session tls m1 TM_ACTIVE TM_UNTRUSTED True ids else Some (m1, ids)) = Some z"
      using r by (rule bind_SomeE)
    obtain m2 ids1 where "z = (m2, ids1)" by (rule prod.exhaust)
    note m2 = z [unfolded this]
    have "tm_session (tp_multi st') = tm_session m2" "tm_opt (tp_multi st') = tm_opt m2"
      using r [unfolded m2 bind.bind_lunit prod.case] by auto
    then show ?thesis using m2 by (intro that [of m1 m2 ids1]) (auto simp: m1_def split: if_split_asm)
  qed
  have "tunnel_ok sv m1"
    using f(1) tunnel_update_ok [OF assms(2) CLEAR_session_ok] assms(2) by (auto simp: tls_session_free_def)
  moreover have "tunnel_ok sv m2" if "move_session tls m1 TM_ACTIVE TM_UNTRUSTED True ids = Some (m2, ids1)" "tunnel_ok sv m1"
    by (rule move_session_ok [OF that]) (auto simp: tm_defs)
  ultimately have "tunnel_ok sv m2" using f(2) by blast
  then show ?thesis using f(3,4) by (simp add: tunnel_fields_ok)
qed

lemma tls_multi_process_ok:
  assumes "tls_multi_process tls env acf time now st ids = Some (r, st', ids')" "tunnel_ok sv (tp_multi st)"
  shows "tunnel_ok sv (tp_multi st')"
proof -
  obtain s1 a1 e1 i1 where x1: "tls_multi_session tls env time 0 (st, TLSMP_INACTIVE, False, ids) = Some (s1, a1, e1, i1)"
    using assms(1) by (auto simp: tls_multi_process_def bind_eq_Some_conv)
  note r1 = assms(1) [unfolded tls_multi_process_def x1 bind.bind_lunit]
  obtain s2 a2 e2 i2 where x2: "tls_multi_session tls env time 1 (s1, a1, e1, i1) = Some (s2, a2, e2, i2)"
    using r1 by (auto simp: bind_eq_Some_conv)
  note r2 = r1 [unfolded x2 bind.bind_lunit]
  obtain s3 a3 e3 i3 where x3: "tls_multi_session tls env time 2 (s2, a2, e2, i2) = Some (s3, a3, e3, i3)"
    using r2 by (auto simp: bind_eq_Some_conv)
  note r3 = r2 [unfolded x3 bind.bind_lunit prod.case Let_def]
  obtain tas m where t: "tls_authentication_status acf (tp_multi s3) TLS_MULTI_AUTH_STATUS_INTERVAL now = (tas, m)"
    by (rule prod.exhaust)
  have f: "tls_multi_finish tls (s3\<lparr>tp_multi := m\<rparr>) e3 i3 now = Some (st', ids')"
    using r3 unfolding t prod.case by (auto simp: bind_eq_Some_conv)
  have "tunnel_ok sv (tp_multi s3)"
    using tls_multi_session_ok [OF x3] tls_multi_session_ok [OF x2] tls_multi_session_ok [OF x1 assms(2)] by simp
  then have "tunnel_ok sv m" by (rule tls_authentication_status_ok [OF t])
  then show ?thesis by (intro tls_multi_finish_ok [OF f]) simp
qed

section \<open>Incoming packets\<close>

lemma handle_data_channel_packet_ok:
  assumes "handle_data_channel_packet m from buf floated = Some (m', b, opt, ad)" "tunnel_ok sv m"
  shows "tunnel_ok sv m'"
proof -
  have "m' = m \<or> (\<exists>n. m' = m\<lparr>tm_n_soft_errors := n\<rparr>) \<or> (\<exists>i p n. m' = key_scan_update m i ((key_scan m i)\<lparr>ks_n_packets := p, ks_n_bytes := n\<rparr>))"
    using assms(1)
    by (auto simp: handle_data_channel_packet_def Let_def split: if_split_asm option.split_asm prod.split_asm Option.bind_split_asm)
  then show ?thesis using assms(2) key_scan_same_ok [OF assms(2)] tunnel_fields_ok by (fastforce simp: key_same_def)
qed

lemma soft_reset_ok:
  assumes "key_state_soft_reset tls opt now s = Some s'" "session_ok sv f s" "ks_state (se_primary s) > S_UNDEF"
  shows "session_ok sv g s'"
proof -
  have "session_started True s s'" using soft_reset_fresh [OF assms(1)] by (auto simp: session_started_def)
  then show ?thesis using session_started_ok [OF _ assms(2)] assms(3) by (simp add: state_defs)
qed

lemma session_wrap_ok [simp]:
  "session_ok sv f (s\<lparr>se_tls_wrap := w\<rparr>) = session_ok sv f s" "session_ok sv f (s\<lparr>se_untrusted_addr := a\<rparr>) = session_ok sv f s"
  "session_ok sv f (s\<lparr>se_burst := b\<rparr>) = session_ok sv f s"
  by (simp_all add: session_ok_def)

lemma tls_route_control_ok:
  assumes "tls_route_control tls auth m from buf op sid now = Some (m', b, route)" "tunnel_ok sv m"
  shows "tunnel_ok sv m' \<and> (\<forall>i x. route = Some (i, x) \<longrightarrow> i < 3)"
proof -
  have s: "session_ok sv (TM_ACTIVE \<in> {2}) (tm_session m ! TM_ACTIVE)" "session_ok sv (TM_UNTRUSTED \<in> {2}) (tm_session m ! TM_UNTRUSTED)"
    using tunnel_ok_session [OF assms(2), of TM_ACTIVE] tunnel_ok_session [OF assms(2), of TM_UNTRUSTED] by (simp_all add: tm_defs)
  define first where "first \<longleftrightarrow> session_of m sid = TM_SIZE \<and> is_hard_reset_method2 op \<and>
      \<not> session_id_defined (ks_session_id_remote (se_primary (tm_session m ! TM_ACTIVE)))"
  define m1 where "m1 = (if first then session_update m TM_ACTIVE ((tm_session m ! TM_ACTIVE)\<lparr>se_untrusted_addr := from\<rparr>) else m)"
  define i where "i = (if first then TM_ACTIVE else session_of m sid)"
  have m1: "tunnel_ok sv m1" using tunnel_update_ok [OF assms(2)] s(1) assms(2) by (simp add: m1_def)
  have s1: "session_ok sv (i \<in> {2}) (tm_session m1 ! i)" if "i < 3" for i by (rule tunnel_ok_session [OF m1 that])
  have upd: "tunnel_ok sv (session_update m1 i ((tm_session m1 ! i)\<lparr>se_tls_wrap := w\<rparr>))" if "i < 3" for i w
    using tunnel_update_ok [OF m1] s1 [OF that] by simp
  have upd2: "tunnel_ok sv (session_update m1 i ((tm_session m1 ! i)\<lparr>se_tls_wrap := w, se_untrusted_addr := a\<rparr>))" if "i < 3" for i w a
    using tunnel_update_ok [OF m1] s1 [OF that] by simp
  have soft: "tunnel_ok sv (session_update m1 i s2)"
    if "key_state_soft_reset tls opt now ((tm_session m1 ! i)\<lparr>se_tls_wrap := w\<rparr>) = Some s2" "i < 3"
      "DECRYPT_KEY_ENABLED m (se_primary (tm_session m1 ! i))" for i opt w s2
  proof (rule tunnel_update_ok [OF m1], rule soft_reset_ok [OF that(1)])
    show "session_ok sv (i \<in> {2}) ((tm_session m1 ! i)\<lparr>se_tls_wrap := w\<rparr>)" using s1 [OF that(2)] by simp
    show "S_UNDEF < ks_state (se_primary ((tm_session m1 ! i)\<lparr>se_tls_wrap := w\<rparr>))"
      using that(3) by (auto simp: DECRYPT_KEY_ENABLED_def state_defs split: if_splits)
  qed
  have lt: "TM_ACTIVE < 3" "TM_UNTRUSTED < 3" by (simp_all add: tm_defs)
  note r = assms(1) [unfolded tls_route_control_def Let_def, folded first_def, folded m1_def i_def]
  show ?thesis
  proof (cases "session_of m sid = TM_LAME_DUCK \<or> first \<and> o_single_session (tm_opt m) \<and> tm_n_sessions m \<noteq> 0")
    case True
    then show ?thesis using r [unfolded if_P [OF True]] assms(2) by simp
  next
    case refuse: False
    note r1 = r [unfolded if_not_P [OF refuse]]
    show ?thesis
    proof (cases "i = TM_SIZE \<and> is_hard_reset_method2 op")
      case True
      then show ?thesis using r1 [unfolded if_P [OF True]] upd [OF lt(2)] upd2 [OF lt(2)] m1 lt(2)
        by (auto split: if_split_asm prod.split_asm Option.bind_split_asm)
    next
      case new: False
      note r2 = r1 [unfolded if_not_P [OF new]]
      show ?thesis
      proof (cases "i \<noteq> TM_ACTIVE \<and> i \<noteq> TM_UNTRUSTED")
        case True
        then show ?thesis using r2 [unfolded if_P [OF True]] m1 by simp
      next
        case known: False
        note r3 = r2 [unfolded if_not_P [OF known]]
        from known lt have i: "i < 3" by auto
        obtain k where k: "(if \<not> k then Some (m1, buf, None)
            else do { (ok, b, w) \<leftarrow> auth buf (se_tls_wrap (tm_session m1 ! i));
              if \<not> ok then Some (session_update m1 i ((tm_session m1 ! i)\<lparr>se_tls_wrap := w\<rparr>), b, None)
              else if op = P_CONTROL_SOFT_RESET_V1 \<and> DECRYPT_KEY_ENABLED m (se_primary (tm_session m1 ! i))
              then do { s2 \<leftarrow> key_state_soft_reset tls (tm_opt m) now ((tm_session m1 ! i)\<lparr>se_tls_wrap := w\<rparr>);
                        Some (session_update m1 i s2, b, Some (i, False, False)) }
              else Some (session_update m1 i ((tm_session m1 ! i)\<lparr>se_tls_wrap := w\<rparr>), b,
                         Some (i, first, first \<or> op = P_CONTROL_SOFT_RESET_V1)) }) = Some (m', b, route)"
          using r3 by (rule bind_SomeE)
        show ?thesis
        proof (cases k)
          case True
          then obtain ok b' w where w: "(if \<not> ok then Some (session_update m1 i ((tm_session m1 ! i)\<lparr>se_tls_wrap := w\<rparr>), b', None)
              else if op = P_CONTROL_SOFT_RESET_V1 \<and> DECRYPT_KEY_ENABLED m (se_primary (tm_session m1 ! i))
              then do { s2 \<leftarrow> key_state_soft_reset tls (tm_opt m) now ((tm_session m1 ! i)\<lparr>se_tls_wrap := w\<rparr>);
                        Some (session_update m1 i s2, b', Some (i, False, False)) }
              else Some (session_update m1 i ((tm_session m1 ! i)\<lparr>se_tls_wrap := w\<rparr>), b',
                         Some (i, first, first \<or> op = P_CONTROL_SOFT_RESET_V1))) = Some (m', b, route)"
            using k by (auto simp: bind_eq_Some_conv)
          show ?thesis using w upd [OF i] soft [OF _ i] i by (auto simp: bind_eq_Some_conv split: if_split_asm)
        qed (use k m1 in simp)
      qed
    qed
  qed
qed

lemma tls_accept_control_ok:
  assumes "tls_accept_control m from buf op key_id sid i new_link do_burst now = Some (ok, m')" "tunnel_ok sv m" "i < 3"
  shows "tunnel_ok sv m'"
proof -
  let ?s = "tm_session m ! i"
  define m1 where "m1 = (if new_link then m\<lparr>tm_n_sessions := tm_n_sessions m + 1\<rparr> else m)"
  have "tunnel_ok sv (m\<lparr>tm_n_sessions := n\<rparr>)" for n using assms(2) by (rule tunnel_fields_ok) simp_all
  then have m1: "tunnel_ok sv m1" using assms(2) by (simp add: m1_def)
  have upd: "tunnel_ok sv (session_update m1 i s')"
    if "se_key_id s' = se_key_id ?s" "se_lame s' = se_lame ?s" "key_same (se_primary ?s) (se_primary s')" for s'
    using tunnel_update_ok [OF m1 session_same_ok [OF tunnel_ok_session [OF assms(2,3)] that(1,3)]] that(2) by simp
  show ?thesis
    using assms(1,2) unfolding tls_accept_control_def Let_def m1_def [symmetric]
    by (auto simp: key_same_def intro!: upd split: if_split_asm prod.split_asm Option.bind_split_asm)
qed

lemma tls_pre_decrypt_ok:
  assumes "tls_pre_decrypt tls auth m from buf floated now = Some (ret, m', b, opt, ad)" "tunnel_ok sv m"
  shows "tunnel_ok sv m'"
proof -
  have err: "tunnel_ok sv (m1\<lparr>tm_n_soft_errors := n\<rparr>)" if "tunnel_ok sv m1" for m1 n
    using that by (rule tunnel_fields_ok) simp_all
  have acc: "tunnel_ok sv m2" if "tls_route_control tls auth m from buf op sid now = Some (m1, b1, Some (i, x))"
    "tls_accept_control m1 from b1 op key_id sid i nl db now = Some (ok, m2)" for op sid m1 b1 i x key_id nl db ok m2
    using tls_accept_control_ok [OF that(2)] tls_route_control_ok [OF that(1) assms(2)] by blast
  have route: "tunnel_ok sv m1" if "tls_route_control tls auth m from buf op sid now = Some (m1, b1, x)" for op sid m1 b1 x
    using tls_route_control_ok [OF that assms(2)] by blast
  show ?thesis
    using assms unfolding tls_pre_decrypt_def Let_def
    by (auto simp: pre_decrypt_error_def split: if_split_asm option.split_asm prod.split_asm Option.bind_split_asm
        intro: err acc route handle_data_channel_packet_ok)
qed

section \<open>Everything else\<close>

lemma active_same_ok:
  assumes "tunnel_ok sv m" "key_same (se_primary (tm_session m ! TM_ACTIVE)) ks"
  shows "tunnel_ok sv (session_update m TM_ACTIVE ((tm_session m ! TM_ACTIVE)\<lparr>se_primary := ks\<rparr>))"
proof -
  have "TM_ACTIVE < 3" by (simp add: tm_defs)
  then show ?thesis
    using tunnel_update_ok [OF assms(1) session_same_ok [OF tunnel_ok_session [OF assms(1), of TM_ACTIVE],
      of "(tm_session m ! TM_ACTIVE)\<lparr>se_primary := ks\<rparr>"]] assms(2) by simp
qed

lemma tls_send_payload_ok: "tls_send_payload tls m data = Some (ok, m') \<Longrightarrow> tunnel_ok sv m \<Longrightarrow> tunnel_ok sv m'"
  by (auto simp: tls_send_payload_def Let_def key_same_def intro!: active_same_ok
      split: if_split_asm prod.split_asm Option.bind_split_asm)

lemma tls_rec_payload_ok: "tls_rec_payload m buf = Some (ok, m', b) \<Longrightarrow> tunnel_ok sv m \<Longrightarrow> tunnel_ok sv m'"
  by (auto simp: tls_rec_payload_def Let_def key_same_def intro!: active_same_ok
      split: if_split_asm prod.split_asm Option.bind_split_asm)

lemma tls_pre_encrypt_ok: "tls_pre_encrypt m buf now = (m', b, k) \<Longrightarrow> tunnel_ok sv m \<Longrightarrow> tunnel_ok sv m'"
  by (auto simp: tls_pre_encrypt_def Let_def intro!: tunnel_fields_ok [where sv = sv and m = m] split: if_split_asm option.split_asm)

lemma tls_post_encrypt_ok:
  assumes "tls_post_encrypt m buf = Some m'" "tunnel_ok sv m"
  shows "tunnel_ok sv m'"
proof -
  have "tunnel_ok sv (m\<lparr>tm_save_ks := None\<rparr>)" using assms(2) by (rule tunnel_fields_ok) simp_all
  then show ?thesis using assms(1)
    by (auto simp: tls_post_encrypt_def Let_def key_same_def intro!: key_scan_same_ok split: if_split_asm Option.bind_split_asm)
qed

lemma sessions3_ok:
  assumes "tunnel_ok sv m" "tm_session m' = [a, b, c]" "tm_opt m' = tm_opt m"
    and "session_ok sv False a" "session_ok sv False b" "session_ok sv True c"
  shows "tunnel_ok sv m'"
proof -
  have "session_ok sv (i \<in> {2}) ([a, b, c] ! i)" if i: "i < 3" for i
  proof -
    consider "i = 0" | "i = 1" | "i = 2" using i by linarith
    then show ?thesis by cases (simp_all add: assms(4-6))
  qed
  then show ?thesis using assms(1-3) by (simp add: tunnel_but_def)
qed

lemma tls_update_remote_addr_ok:
  assumes "tls_update_remote_addr m addr = Some m'" "tunnel_ok sv m"
  shows "tunnel_ok sv m'"
proof -
  define upd where "upd = (\<lambda>ks :: 'a key_state. if \<not> link_socket_actual_defined (Some (ks_remote_addr ks)) then Some ks
      else do { same \<leftarrow> link_socket_actual_match addr (ks_remote_addr ks);
                Some (if same then ks else ks\<lparr>ks_remote_addr := addr\<rparr>) })"
  define upd_session where "upd_session = (\<lambda>s :: 'a tls_session. do { p \<leftarrow> upd (se_primary s); l \<leftarrow> upd (se_lame s);
      Some (s\<lparr>se_primary := p, se_lame := l\<rparr>) })"
  obtain a b c where s: "upd_session (tm_session m ! 0) = Some a" "upd_session (tm_session m ! 1) = Some b"
      "upd_session (tm_session m ! 2) = Some c" "m' = m\<lparr>tm_session := [a, b, c]\<rparr>"
    using assms(1) unfolding tls_update_remote_addr_def Let_def upd_def [symmetric]
    by (auto simp: bind_eq_Some_conv upd_session_def simp del: One_nat_def)
  have u: "key_same ks ks'" if "upd ks = Some ks'" for ks ks'
    using that by (auto simp: upd_def key_same_def bind_eq_Some_conv split: if_split_asm)
  have "session_ok sv (i \<in> {2}) s'" if "upd_session (tm_session m ! i) = Some s'" "i < 3" for i s'
    using that(1) session_same_ok [OF tunnel_ok_session [OF assms(2) that(2)]] u by (auto simp: upd_session_def bind_eq_Some_conv)
  from this [OF s(1)] this [OF s(2)] this [OF s(3)] show ?thesis using s(4) by (intro sessions3_ok [OF assms(2), of _ a b c]) simp_all
qed

lemma tls_deauthenticate_ok:
  assumes "tunnel_ok sv m"
  shows "tunnel_ok sv (tls_deauthenticate m)"
proof -
  have "session_ok sv (i \<in> {2}) (tm_session (tls_deauthenticate m) ! i)" if "i < 3" for i
    using that assms by (intro session_same_ok [OF tunnel_ok_session [OF assms that]])
      (simp_all add: tls_deauthenticate_def key_same_def tunnel_but_def)
  then show ?thesis using assms by (simp add: tunnel_but_def) (simp add: tls_deauthenticate_def)
qed

section \<open>The cipher and the options from the other end\<close>

lemma generate_keys_ok:
  assumes "tls_session_generate_data_channel_keys env opt s = Some (ok, opt', s')" "session_ok (o_server opt) f s"
  shows "session_ok (o_server opt) f s' \<and> o_server opt' = o_server opt"
proof -
  obtain init where k: "hs_view (se_primary s') = hs_view ((se_primary s)\<lparr>ks_initialized := init\<rparr>)"
    "init = ks_initialized (se_primary s) \<or> ks_authenticated (se_primary s) \<noteq> KS_AUTH_FALSE"
    "se_lame s' = se_lame s" "se_key_id s' = se_key_id s" "o_server opt' = o_server opt"
    using generate_keys_session [OF assms(1)] by metis
  have v: "ks_state (se_primary s') = ks_state (se_primary s)" "ks_key_id (se_primary s') = ks_key_id (se_primary s)"
    "ks_initialized (se_primary s') = init" "ks_authenticated (se_primary s') = ks_authenticated (se_primary s)"
    using k(1) by (simp_all add: hs_view_def)
  have "key_ok sv (se_primary s) \<Longrightarrow> key_ok sv (se_primary s')" for sv using k(2) v by (auto simp: key_ok_def)
  then show ?thesis using assms(2) k(3-5) v(1,2) by (auto simp: session_ok_def)
qed

lemma update_crypto_params_generates:
  assumes "tls_session_update_crypto_params lib env opt s o1 fr ff = Some (ok, o2, fr', ff', opt', s')"
  shows "opt' = opt \<and> s' = s \<or>
    (\<exists>opt1 ok. o_server opt1 = o_server opt \<and> tls_session_generate_data_channel_keys env opt1 s = Some (ok, opt', s'))"
proof -
  define opt1 where "opt1 = (if op_data_channel_use_ekm o1
      then opt\<lparr>o_crypto_flags := o_crypto_flags opt OR CO_USE_TLS_KEY_MATERIAL_EXPORT\<rparr> else opt)"
  have o: "o_server opt1 = o_server opt" by (simp add: opt1_def)
  note r = assms [unfolded tls_session_update_crypto_params_def Let_def opt1_def [symmetric]]
  consider (kept) "ks_initialized (se_primary s) \<or> \<not> cipher_allowed opt o1"
    | (config) "\<not> ks_initialized (se_primary s)" "cipher_allowed opt o1" "op_ciphername o1 = o_config_ciphername opt"
    | (other) "\<not> ks_initialized (se_primary s)" "cipher_allowed opt o1" "op_ciphername o1 \<noteq> o_config_ciphername opt"
    by blast
  then show ?thesis
  proof cases
    case kept
    then show ?thesis using r by (auto split: if_split_asm)
  next
    case config
    then show ?thesis using r o by (auto simp: bind_eq_Some_conv)
  next
    case other
    have "\<exists>opt2. o_server opt2 = o_server opt \<and> (\<exists>ok. tls_session_generate_data_channel_keys env opt2 s = Some (ok, opt', s'))"
    proof -
      define o3 where "o3 = (if op_keysize o1 \<noteq> 0 then o1\<lparr>op_keysize := 0\<rparr> else o1)"
      note r1 = r [unfolded if_not_P [OF other(1)], folded o3_def, simplified other(2,3) not_True_eq_False if_False]
      from r1 obtain kt fl where "tls_session_generate_data_channel_keys env (opt1\<lparr>o_key_type := kt, o_crypto_flags := fl\<rparr>) s =
          Some (ok, opt', s')"
        by (elim bind_SomeE) auto
      then show ?thesis using o by (intro exI [of _ "opt1\<lparr>o_key_type := kt, o_crypto_flags := fl\<rparr>"]) auto
    qed
    then show ?thesis by blast
  qed
qed

lemma update_crypto_params_ok:
  assumes "tls_session_update_crypto_params lib env opt s o1 fr ff = Some (ok, o2, fr', ff', opt', s')" "session_ok (o_server opt) f s"
  shows "session_ok (o_server opt) f s' \<and> o_server opt' = o_server opt"
  using update_crypto_params_generates [OF assms(1)]
proof (elim disjE conjE exE)
  fix opt1 ok1
  assume a: "o_server opt1 = o_server opt" "tls_session_generate_data_channel_keys env opt1 s = Some (ok1, opt', s')"
  show ?thesis using generate_keys_ok [OF a(2)] assms(2) a(1) by simp
qed (use assms(2) in simp)

lemma update_active_session_ok:
  assumes "update_active_session lib env c = Some (ok, c')" "tunnel_ok sv (c2_tls_multi c)"
  shows "tunnel_ok sv (c2_tls_multi c')"
proof -
  let ?m = "c2_tls_multi c"
  obtain o1 f ff ff' opt s where u: "tls_session_update_crypto_params lib env (tm_opt ?m) (tm_session ?m ! TM_ACTIVE) (c_options c)
      (c2_frame c) ff = Some (ok, o1, f, ff', opt, s)" "c2_tls_multi c' = ?m\<lparr>tm_opt := opt, tm_session := (tm_session ?m)[TM_ACTIVE := s]\<rparr>"
    using assms(1) by (auto simp: update_active_session_def Let_def split: Option.bind_split_asm prod.split_asm)
  have sv: "o_server (tm_opt ?m) = sv" using assms(2) by (simp add: tunnel_but_def)
  have "session_ok sv (TM_ACTIVE \<in> {2}) (tm_session ?m ! TM_ACTIVE)" by (rule tunnel_ok_session [OF assms(2)]) (simp add: tm_defs)
  then have s: "session_ok sv (TM_ACTIVE \<in> {2}) s" "o_server opt = sv" using update_crypto_params_ok [OF u(1)] sv by simp_all
  show ?thesis using tunnel_fields_ok [OF tunnel_update_ok [OF assms(2) s(1)], of "c2_tls_multi c'"] s(2) sv
    by (simp add: u(2) session_update_def)
qed

lemma import_crypto_options_ok:
  assumes "import_crypto_options lib env found_peer_id found_ncp c = Some (ok, c')" "tunnel_ok sv (c2_tls_multi c)"
  shows "tunnel_ok sv (c2_tls_multi c')"
proof -
  define c1 where "c1 = (if found_peer_id then import_peer_id c else c)"
  have c1: "tunnel_ok sv (c2_tls_multi c1)"
    using tunnel_fields_ok [OF assms(2), of "c2_tls_multi (import_peer_id c)"] assms(2) by (simp add: c1_def import_peer_id_def Let_def)
  have "tunnel_ok sv (c2_tls_multi (c1\<lparr>c_options := x\<rparr>))" for x using c1 by simp
  then show ?thesis using assms(1) c1 unfolding import_crypto_options_def Let_def c1_def [symmetric]
    by (auto split: if_split_asm prod.split_asm dest: update_active_session_ok)
qed

lemma set_protocol_options_ok:
  assumes "multi_client_set_protocol_options lib c = (ok, c')" "tunnel_ok sv (c2_tls_multi c)"
  shows "tunnel_ok sv (c2_tls_multi c')"
proof -
  have "c2_tls_multi c' = c2_tls_multi c \<or> c2_tls_multi c' = (c2_tls_multi c)\<lparr>tm_use_peer_id := True\<rparr>"
    using assms(1) by (auto simp: multi_client_set_protocol_options_def Let_def split: if_split_asm option.split_asm)
  then show ?thesis using tunnel_fields_ok [OF assms(2)] assms(2) by auto
qed

section \<open>The states of a tunnel\<close>

text \<open>
  The operations of the program on the TLS state of a tunnel, in any order, whatever the peer, the TLS library, the scripts
  and the clock do: it is set up, processed, handed packets and payload from both sides, asked for its authentication, moved to
  another address, given a number by the server, used to seal and open data packets, closed to new sessions, told the cipher and the identifier by the other end, and stripped
  of its trust. \<open>tr_cipher\<close> and \<open>tr_import\<close> are the calls of \<open>tls_session_update_crypto_params\<close>, which generate the first keys at a
  server and at a client that pulls its options.
\<close>

inductive tunnel_reach :: "'ssl tls_object \<Rightarrow> tls_options \<Rightarrow> 'ssl tls_multi \<Rightarrow> bool" for tls opt where
  tr_init: "tls_multi_init_finalize tls (tls_multi_init opt) frame ids = Some (m, ids') \<Longrightarrow> tunnel_reach tls opt m"
| tr_process: "tunnel_reach tls opt (tp_multi st) \<Longrightarrow> tls_multi_process tls env acf time now st ids = Some (r, st', ids') \<Longrightarrow>
    tunnel_reach tls opt (tp_multi st')"
| tr_incoming: "tunnel_reach tls opt m \<Longrightarrow> tls_pre_decrypt tls auth m from buf floated now = Some (ret, m', b, k, ad) \<Longrightarrow>
    tunnel_reach tls opt m'"
| tr_outgoing: "tunnel_reach tls opt m \<Longrightarrow> tls_pre_encrypt m buf now = (m', b, k) \<Longrightarrow> tunnel_reach tls opt m'"
| tr_sent: "tunnel_reach tls opt m \<Longrightarrow> tls_post_encrypt m buf = Some m' \<Longrightarrow> tunnel_reach tls opt m'"
| tr_send: "tunnel_reach tls opt m \<Longrightarrow> tls_send_payload tls m data = Some (ok, m') \<Longrightarrow> tunnel_reach tls opt m'"
| tr_receive: "tunnel_reach tls opt m \<Longrightarrow> tls_rec_payload m buf = Some (ok, m', b) \<Longrightarrow> tunnel_reach tls opt m'"
| tr_status: "tunnel_reach tls opt m \<Longrightarrow> tls_authentication_status acf m latency now = (tas, m') \<Longrightarrow> tunnel_reach tls opt m'"
| tr_float: "tunnel_reach tls opt m \<Longrightarrow> tls_update_remote_addr m addr = Some m' \<Longrightarrow> tunnel_reach tls opt m'"
| tr_number: "tunnel_reach tls opt m \<Longrightarrow> tunnel_reach tls opt (m\<lparr>tm_peer_id := n\<rparr>)"
| tr_protocol: "tunnel_reach tls opt (c2_tls_multi c) \<Longrightarrow> multi_client_set_protocol_options lib c = (ok, c') \<Longrightarrow>
    tunnel_reach tls opt (c2_tls_multi c')"
| tr_cipher: "tunnel_reach tls opt (c2_tls_multi c) \<Longrightarrow> update_active_session lib env c = Some (ok, c') \<Longrightarrow>
    tunnel_reach tls opt (c2_tls_multi c')"
| tr_import: "tunnel_reach tls opt (c2_tls_multi c) \<Longrightarrow> import_crypto_options lib env found_peer_id found_ncp c = Some (ok, c') \<Longrightarrow>
    tunnel_reach tls opt (c2_tls_multi c')"
| tr_seal: "tunnel_reach tls opt m \<Longrightarrow> openvpn_encrypt buf work (Some (ks_crypto (key_scan m j))) random now = Some (b, Some co) \<Longrightarrow>
    tunnel_reach tls opt (key_scan_update m j ((key_scan m j)\<lparr>ks_crypto := co\<rparr>))"
| tr_open: "tunnel_reach tls opt m \<Longrightarrow>
    openvpn_decrypt buf work (Some (ks_crypto (key_scan m j))) fr ad_start now = Some (ok, b, Some co) \<Longrightarrow>
    tunnel_reach tls opt (key_scan_update m j ((key_scan m j)\<lparr>ks_crypto := co\<rparr>))"
| tr_single: "tunnel_reach tls opt m \<Longrightarrow> tunnel_reach tls opt (m\<lparr>tm_opt := (tm_opt m)\<lparr>o_single_session := True\<rparr>\<rparr>)"
| tr_deauth: "tunnel_reach tls opt m \<Longrightarrow> tunnel_reach tls opt (tls_deauthenticate m)"

lemma tunnel_reach_ok: "tunnel_reach tls opt m \<Longrightarrow> tunnel_ok (o_server opt) m"
proof (induction rule: tunnel_reach.induct)
  case (tr_number m n)
  show ?case by (rule tunnel_fields_ok [OF tr_number.IH]) simp_all
next
  case (tr_single m)
  show ?case by (rule tunnel_fields_ok [OF tr_single.IH]) simp_all
next
  case (tr_seal m buf work j random now b co)
  show ?case by (rule key_scan_same_ok [OF tr_seal.IH]) (simp add: key_same_def)
next
  case (tr_open m buf work j fr ad_start now ok b co)
  show ?case by (rule key_scan_same_ok [OF tr_open.IH]) (simp add: key_same_def)
qed (blast intro: tls_multi_init_finalize_ok tls_multi_process_ok tls_pre_decrypt_ok tls_pre_encrypt_ok tls_post_encrypt_ok
    tls_send_payload_ok tls_rec_payload_ok tls_authentication_status_ok tls_update_remote_addr_ok tls_deauthenticate_ok
    set_protocol_options_ok update_active_session_ok import_crypto_options_ok)+

text \<open>
  C9. The keys of a tunnel at any time. A key is authenticated, or initialized for data, only when the key message of its peer
  has been read, in the order of the role of this end: this holds of every key in which \<open>tls_pre_decrypt\<close> looks for the key of a data
  packet, and of the keys of all sessions, but for the primary key of a failed session that is kept as the third one, which
  is in the state of error and therefore of no use. The two keys of a session have different identifiers,
  so that within a session the identifier in a data packet names one key.
\<close>

theorem tunnel_keys_invariant:
  assumes "tunnel_reach tls opt m" and "i < 3"
  shows "let s = tm_session m ! i; trusted = (\<lambda>ks. ks_initialized ks \<or> ks_authenticated ks \<noteq> KS_AUTH_FALSE)
    in (\<forall>j. trusted (key_scan m j) \<longrightarrow> DECRYPT_KEY_ENABLED m (key_scan m j)) \<and>
       (trusted (se_lame s) \<longrightarrow> DECRYPT_KEY_ENABLED m (se_lame s)) \<and>
       (trusted (se_primary s) \<longrightarrow> DECRYPT_KEY_ENABLED m (se_primary s) \<or> i = TM_LAME_DUCK \<and> ks_state (se_primary s) = S_ERROR) \<and>
       (ks_state (se_lame s) \<noteq> S_UNDEF \<longrightarrow> ks_key_id (se_lame s) \<noteq> ks_key_id (se_primary s)) \<and>
       (ks_state (se_primary s) \<noteq> S_UNDEF \<longrightarrow> 0 \<le> ks_key_id (se_primary s) \<and> ks_key_id (se_primary s) < 8)"
proof -
  have o: "o_server (tm_opt m) = o_server opt" using tunnel_reach_ok [OF assms(1)] by (simp add: tunnel_but_def)
  have enabled: "key_ok (o_server opt) ks \<Longrightarrow> ks_initialized ks \<or> ks_authenticated ks \<noteq> KS_AUTH_FALSE \<Longrightarrow> DECRYPT_KEY_ENABLED m ks" for ks
    by (auto simp: key_ok_def DECRYPT_KEY_ENABLED_def o)
  have s: "session_ok (o_server opt) (i \<in> {2}) (tm_session m ! i)" by (rule tunnel_ok_session [OF tunnel_reach_ok [OF assms(1)] assms(2)])
  have "trusted (key_scan m j) \<longrightarrow> DECRYPT_KEY_ENABLED m (key_scan m j)"
    if "trusted = (\<lambda>ks. ks_initialized ks \<or> ks_authenticated ks \<noteq> KS_AUTH_FALSE)" for j trusted
    using enabled [OF key_scan_ok [OF tunnel_reach_ok [OF assms(1)]]] that by simp
  then show ?thesis using s enabled by (auto simp: session_ok_def tm_defs Let_def)
qed

section \<open>A tunnel that is set up\<close>

lemma reliable_init_entries_returns:
  "buf_size_valid sz \<Longrightarrow> 0 \<le> off \<Longrightarrow> off \<le> sz \<Longrightarrow> \<exists>es. reliable_init_entries n sz off = Some es"
  by (induction n) (auto simp: alloc_buf_def buf_init_def)

lemma reliable_init_returns:
  assumes "buf_size_valid sz" "0 \<le> off" "off \<le> sz" "0 < n" "n \<le> RELIABLE_CAPACITY"
  shows "\<exists>rel. reliable_init sz off n hold = Some rel"
  using reliable_init_entries_returns [OF assms(1-3), of "nat n"] assms(4,5) by (auto simp: reliable_init_def)

lemma alloc_buf_returns: "buf_size_valid n \<Longrightarrow> \<exists>b. alloc_buf n = Some b"
  by (simp add: alloc_buf_def)

lemma packet_id_init_returns:
  "0 \<le> sb \<Longrightarrow> sb \<le> MAX_SEQ_BACKTRACK \<Longrightarrow> 0 \<le> tb \<Longrightarrow> tb \<le> MAX_TIME_BACKTRACK \<Longrightarrow> \<exists>p. packet_id_init sb tb name un = Some p"
  by (simp add: packet_id_init_def Let_def)

text \<open>Options with which a session can be set up without a failed assertion.\<close>

definition tls_options_ok :: "tls_options \<Rightarrow> bool" where
  "tls_options_ok opt \<longleftrightarrow> buf_size_valid (BUF_SIZE (o_frame opt)) \<and> 0 \<le> FRAME_HEADROOM (o_frame opt) \<and>
     FRAME_HEADROOM (o_frame opt) \<le> BUF_SIZE (o_frame opt) \<and>
     0 \<le> o_replay_window opt \<and> o_replay_window opt \<le> MAX_SEQ_BACKTRACK \<and> 0 \<le> o_replay_time opt \<and> o_replay_time opt \<le> MAX_TIME_BACKTRACK"

lemma key_state_init_returns:
  assumes "tls_options_ok opt"
  shows "\<exists>x. key_state_init tls opt s = Some x"
proof -
  have v: "buf_size_valid TLS_CHANNEL_BUF_SIZE" by (simp add: buf_size_valid_def TLS_CHANNEL_BUF_SIZE_def BUF_SIZE_MAX_def)
  have f: "buf_size_valid (BUF_SIZE (o_frame opt))" "0 \<le> FRAME_HEADROOM (o_frame opt)" "FRAME_HEADROOM (o_frame opt) \<le> BUF_SIZE (o_frame opt)"
    using assms by (simp_all add: tls_options_ok_def)
  obtain b ab where b: "alloc_buf TLS_CHANNEL_BUF_SIZE = Some b" "alloc_buf (BUF_SIZE (o_frame opt)) = Some ab"
    using alloc_buf_returns [OF v] alloc_buf_returns [OF f(1)] by blast
  have n: "0 < TLS_RELIABLE_N_SEND_BUFFERS" "TLS_RELIABLE_N_SEND_BUFFERS \<le> RELIABLE_CAPACITY"
    "0 < TLS_RELIABLE_N_REC_BUFFERS" "TLS_RELIABLE_N_REC_BUFFERS \<le> RELIABLE_CAPACITY"
    by (simp_all add: TLS_RELIABLE_N_SEND_BUFFERS_def TLS_RELIABLE_N_REC_BUFFERS_def RELIABLE_CAPACITY_def)
  obtain sr where sr: "reliable_init (BUF_SIZE (o_frame opt)) (FRAME_HEADROOM (o_frame opt)) TLS_RELIABLE_N_SEND_BUFFERS
      (if se_key_id s \<noteq> 0 then False else o_xmit_hold opt) = Some sr"
    using reliable_init_returns [OF f n(1,2)] by blast
  obtain rr where rr: "reliable_init (BUF_SIZE (o_frame opt)) (FRAME_HEADROOM (o_frame opt)) TLS_RELIABLE_N_REC_BUFFERS False = Some rr"
    using reliable_init_returns [OF f n(3,4)] by blast
  have "\<exists>p. packet_id_init (o_replay_window opt) (o_replay_time opt) ''SSL'' (se_key_id s) = Some p"
    using assms by (intro packet_id_init_returns) (simp_all add: tls_options_ok_def)
  then have "\<exists>p. (if o_replay opt then packet_id_init (o_replay_window opt) (o_replay_time opt) ''SSL'' (se_key_id s)
      else Some CLEAR_packet_id) = Some p" by simp
  then obtain p where p: "(if o_replay opt then packet_id_init (o_replay_window opt) (o_replay_time opt) ''SSL'' (se_key_id s)
      else Some CLEAR_packet_id) = Some p" ..
  show ?thesis unfolding key_state_init_def Let_def b sr rr p by simp
qed

lemma tls_session_init_returns:
  assumes "tls_options_ok opt" "session_id_defined sid"
  shows "\<exists>s. tls_session_init tls opt (sid # ids) = Some (s, ids)"
proof -
  obtain ab where b: "alloc_buf (BUF_SIZE (o_frame opt)) = Some ab"
    using alloc_buf_returns assms(1) by (auto simp: tls_options_ok_def)
  obtain p where p: "packet_id_init (o_replay_window opt) (o_replay_time opt) ''TLS_WRAP'' 0 = Some p"
    using packet_id_init_returns [of "o_replay_window opt" "o_replay_time opt"] assms(1) by (auto simp: tls_options_ok_def)
  have d: "session_id_draw (sid # ids) = Some (sid, ids)" using assms(2) by simp
  have k: "\<exists>x. (key_state_init tls opt s \<bind> (\<lambda>(s1, ks). Some (s1\<lparr>se_primary := ks\<rparr>, ids))) = Some (x, ids)" for s
    using key_state_init_returns [OF assms(1), of tls s] by auto
  show ?thesis unfolding tls_session_init_def d b p Let_def bind.bind_lunit prod.case by (rule k)
qed

definition demo_frame :: frame where
  "demo_frame = demo_crypto_frame\<lparr>link_mtu := 1500\<rparr>"

lemma demo_frame_init: "\<exists>f. tls_init_control_channel_frame_parameters demo_frame demo_crypto_frame = Some f \<and>
    tls_options_ok (demo_tls_options\<lparr>o_frame := f\<rparr>)"
  by (simp add: tls_init_control_channel_frame_parameters_def demo_frame_def demo_tls_options_def demo_crypto_frame_def
      reliable_ack_adjust_frame_parameters_def tls_adjust_frame_parameters_def frame_add_to_extra_frame_def TUN_LINK_DELTA_def
      ACK_SIZE_def CONTROL_SEND_ACK_MAX_def SID_SIZE_def min_int_def tls_options_ok_def BUF_SIZE_def TUN_MTU_SIZE_def
      FRAME_HEADROOM_BASE_def FRAME_HEADROOM_def frame_headroom_def PAYLOAD_ALIGN_def buf_size_valid_def BUF_SIZE_MAX_def
      MAX_SEQ_BACKTRACK_def MAX_TIME_BACKTRACK_def)

lemma demo_finalize: "\<exists>m ids. tls_multi_init_finalize demo_tls_object (tls_multi_init demo_tls_options) demo_frame
    [\<lparr>sid_id = [1, 2, 3, 4, 5, 6, 7, 8]\<rparr>, \<lparr>sid_id = [8, 7, 6, 5, 4, 3, 2, 1]\<rparr>] = Some (m, ids)"
proof -
  obtain f where f: "tls_init_control_channel_frame_parameters demo_frame demo_crypto_frame = Some f"
    "tls_options_ok (demo_tls_options\<lparr>o_frame := f\<rparr>)"
    using demo_frame_init by blast
  have d: "session_id_defined \<lparr>sid_id = [1, 2, 3, 4, 5, 6, 7, 8]\<rparr>" "session_id_defined \<lparr>sid_id = [8, 7, 6, 5, 4, 3, 2, 1]\<rparr>"
    by (simp_all add: session_id_defined_def x_session_id_zero_def numeral_eq_Suc)
  obtain s0 s1 where s: "tls_session_init demo_tls_object (demo_tls_options\<lparr>o_frame := f\<rparr>)
      [\<lparr>sid_id = [1, 2, 3, 4, 5, 6, 7, 8]\<rparr>, \<lparr>sid_id = [8, 7, 6, 5, 4, 3, 2, 1]\<rparr>] = Some (s0, [\<lparr>sid_id = [8, 7, 6, 5, 4, 3, 2, 1]\<rparr>])"
    "tls_session_init demo_tls_object (demo_tls_options\<lparr>o_frame := f\<rparr>) [\<lparr>sid_id = [8, 7, 6, 5, 4, 3, 2, 1]\<rparr>] = Some (s1, [])"
    using tls_session_init_returns [OF f(2)] d by metis
  have "o_frame demo_tls_options = demo_crypto_frame" "\<not> o_single_session (demo_tls_options\<lparr>o_frame := f\<rparr>)"
    by (simp_all add: demo_tls_options_def)
  then show ?thesis by (simp add: tls_multi_init_finalize_def tls_multi_init_def f(1) s Let_def)
qed

lemma tunnel_keys_invariant_witness:
  "\<exists>m. tunnel_reach demo_tls_object demo_tls_options (tls_deauthenticate m) \<and>
     (ks_state (se_lame (tm_session (tls_deauthenticate m) ! 0)) \<noteq> S_UNDEF \<longrightarrow>
      ks_key_id (se_lame (tm_session (tls_deauthenticate m) ! 0)) \<noteq> ks_key_id (se_primary (tm_session (tls_deauthenticate m) ! 0)))"
proof -
  obtain m ids where "tls_multi_init_finalize demo_tls_object (tls_multi_init demo_tls_options) demo_frame
    [\<lparr>sid_id = [1, 2, 3, 4, 5, 6, 7, 8]\<rparr>, \<lparr>sid_id = [8, 7, 6, 5, 4, 3, 2, 1]\<rparr>] = Some (m, ids)"
    using demo_finalize by blast
  then have "tunnel_reach demo_tls_object demo_tls_options (tls_deauthenticate m)" by (intro tr_deauth tr_init)
  then show ?thesis using tunnel_keys_invariant [of demo_tls_object demo_tls_options "tls_deauthenticate m" 0] by (auto simp: Let_def)
qed

end
