(* ===== verification/Spec2Isabelle.thy ===== *)
theory Spec2Isabelle
  imports PacketIdStream ReliableChannel FragmentRoundtrip StreamBuf HashTable MssFixup ClientNat TlsCrypt Schedule KeyExchange KeyMessage TlsTunnel
begin

text \<open>
  A model of the VPN engine of the client: the OpenVPN sources under
  \<^verbatim>\<open>src/android/ics-openvpn/main/src/main/cpp/openvpn/src/openvpn\<close>, which the Android
  application (Java, under \<^verbatim>\<open>src/android\<close>) starts as a process and which the desktop packages
  build as well. The files named below are in that directory.

  \<^bold>\<open>The program.\<close> The engine carries IP packets between a virtual interface and a UDP or TCP socket.
  A packet from the interface may have its addresses translated (\<^verbatim>\<open>clinat.c\<close>) and the MSS of its
  TCP options lowered (\<^verbatim>\<open>mss.c\<close>), is cut into fragments (\<^verbatim>\<open>fragment.c\<close>), sealed with
  the session key and a packet number (\<^verbatim>\<open>crypto.c\<close>, \<^verbatim>\<open>packet_id.c\<close>), and, over TCP,
  framed by its length (\<^verbatim>\<open>socket.c\<close>). Keys come from a TLS handshake, which runs over an
  acknowledged and retransmitting channel of its own (\<^verbatim>\<open>reliable.c\<close>, used by \<^verbatim>\<open>ssl.c\<close>).
  All of it works on byte buffers with head and tail room (\<^verbatim>\<open>buffer.c\<close>) whose sizes are derived from
  one frame (\<^verbatim>\<open>mtu.c\<close>).

  \<^bold>\<open>Theories.\<close>
  \<^item> \<open>OvpnPrelude\<close>: machine integers, \<open>ASSERT\<close>, byte order, bounded memory; the conventions.
  \<^item> \<open>Buffer\<close> (\<^verbatim>\<open>buffer.h\<close>, \<^verbatim>\<open>buffer.c\<close>): the record \<open>buffer\<close> and its operations, all inside the
    block for a well-formed buffer (\<open>buf_ok\<close>); the locale \<open>octet_fifo\<close> with its interpretation \<open>bq\<close> is what
    the wire formats use.
  \<^item> \<open>CInteger\<close>, \<open>CircList\<close>, \<open>SessionId\<close>, \<open>SslOpcodes\<close>: the helpers of \<^verbatim>\<open>integer.h\<close>, the
    \<open>CIRC_LIST\<close> macros, \<^verbatim>\<open>session_id.h\<close>, the opcodes of \<^verbatim>\<open>ssl.h\<close>.
  \<^item> \<open>PacketId\<close>, \<open>PacketIdStream\<close> (\<^verbatim>\<open>packet_id.c\<close>, \<open>crypto_check_replay\<close>): the replay window, the
    numbering of the sender, the wire format and the persisted identifier.
  \<^item> \<open>Crypto\<close> (\<^verbatim>\<open>crypto.c\<close>): \<open>openvpn_encrypt\<close> and \<open>openvpn_decrypt\<close> in the AEAD, CBC, OFB/CFB
    and plain modes. \<open>CryptoSeal\<close>: the AEAD packets as octet strings, and that the code makes and opens exactly these.
    \<open>DataChannel\<close>: the locale \<open>protected_packets\<close> (a packet opens if and only if it was sealed), interpreted
    by the AEAD format, and \<open>packet_receiver\<close>, which adds a step of a receiver with a replay window: at most one
    delivery, no effect of forgeries.
  \<^item> \<open>TlsCrypt\<close> (\<^verbatim>\<open>tls_crypt.c\<close>): control packets wrapped under a static key, as a second instance of these two
    locales (\<open>tc\<close>, \<open>tcr\<close>), and client keys wrapped under the key of the server.
  \<^item> \<open>Reliable\<close>, \<open>ReliableChannel\<close> (\<^verbatim>\<open>reliable.c\<close>, its use in \<^verbatim>\<open>ssl.c\<close>): the send and receive buffers
    and the acknowledgements; a step relation of two ends over a network that loses, reorders and repeats, with
    its invariant, ordered delivery, and the absence of failed assertions.
  \<^item> \<open>Mtu\<close>, \<open>Fragment\<close>, \<open>FragmentRoundtrip\<close> (\<^verbatim>\<open>mtu.h\<close>, \<^verbatim>\<open>fragment.c\<close>): cutting and joining.
  \<^item> \<open>StreamBuf\<close> (\<^verbatim>\<open>socket.c\<close>, \<^verbatim>\<open>ps.c\<close>): packets in a TCP stream, with the detection of a foreign protocol.
  \<^item> \<open>Proto\<close>, \<open>MssFixup\<close>, \<open>ClientNat\<close> (\<^verbatim>\<open>proto.c\<close>, \<^verbatim>\<open>mss.c\<close>, \<^verbatim>\<open>clinat.c\<close>): headers and
    checksums, and the two rewriters of packets.
  \<^item> \<open>HashTable\<close> (\<^verbatim>\<open>list.c\<close>): the chained hash table, as a refinement of a finite map (locale \<open>kv_store\<close>).

  \<^item> \<open>Timing\<close> (\<^verbatim>\<open>otime.h\<close>, \<^verbatim>\<open>interval.h\<close>): arithmetic on times, the monotone clock, timeouts. \<open>Schedule\<close>
    (\<^verbatim>\<open>schedule.c\<close>): the treap of pending wakeups as nodes in a heap of records linked by addresses, as a refinement of a finite map.

  The control plane, \<^verbatim>\<open>ssl.c\<close> and what it calls, is in these theories, in this order:
  \<^item> \<open>KeyExchange\<close>: source material, key expansion, the contexts of both directions; both ends derive matching contexts.
  \<^item> \<open>SocketAddr\<close> (\<^verbatim>\<open>socket.h\<close>): addresses of peers. \<open>TlsState\<close>: the records \<open>key_state\<close>, \<open>tls_session\<close>,
    \<open>tls_multi\<close> and their life cycle (\<open>key_state_init\<close>, \<open>key_state_soft_reset\<close>, \<open>tls_session_init\<close>, \<open>move_session\<close>).
  \<^item> \<open>ControlAuth\<close>: the envelope of control packets, plain, under \<open>tls-auth\<close> and under \<open>tls-crypt\<close>.
    \<open>TlsPackets\<close>: \<open>tls_pre_decrypt\<close>, which gives a packet to a session or to a key, \<open>tls_pre_encrypt\<close>,
    payload of the control channel. \<open>TlsRouting\<close>: which key opens a data packet, and the way of a packet through both
    ends, from sealing through routing to opening.
  \<^item> \<open>KeyMethod\<close>: the message of the key exchange, its checks, and the data keys generated after it.
    \<open>KeyMessage\<close>: that message read back field by field.
  \<^item> \<open>Ncp\<close> (\<^verbatim>\<open>ssl_ncp.c\<close>, with parts of \<^verbatim>\<open>multi.c\<close> and \<^verbatim>\<open>init.c\<close>): the lists of ciphers, the choice of the
    server, the check of the client, \<open>tls_session_update_crypto_params\<close> and the two places that call it.
  \<^item> \<open>TlsProcess\<close>: \<open>tls_process\<close>, one definition per stage of its loop, and \<open>tls_multi_process\<close>.
    \<open>TlsHandshake\<close>: an abstract machine of the handshake, and that every run of the loop is a run of this machine.
    \<open>TlsTunnel\<close>: all operations on the TLS state of a tunnel as one step relation, and the invariant of its keys.

  \<^bold>\<open>Conventions.\<close> \<open>None\<close> stands for a run that does not return: a failed \<open>ASSERT\<close>, a fatal message,
  an access outside a block, a loop without end. So a theorem that an operation yields \<open>Some\<close> also says that it has no such run.
  Words are of the width of the C type; \<open>int\<close> models \<open>int\<close>, \<open>time_t\<close> and sizes, whose overflow C leaves
  undefined. Pointers into a block are offsets; a structure that the code shares through pointers is passed
  explicitly. Loops are structural recursion or have a termination proof; the only fuel is that of
  \<open>ip_checksum_carry\<close>, four rounds, of which two are ever used for a sum of 32 bits. The loops of \<^verbatim>\<open>schedule.c\<close> and
  of \<open>tls_process\<close> may run on (a priority drawn twice, a TLS library that always has more to say) and are partial functions
  whose \<open>None\<close> includes this; that adding a wakeup returns is a theorem with its exact condition.

  \<^bold>\<open>Parameters.\<close> What is outside the sources is an argument: the ciphers and keyed hashes of the crypto library
  (records of functions, with what they promise in \<open>aead_pair\<close>), the TLS library (the record \<open>tls_object\<close>), the
  verdicts of scripts, plugins, management and certificate checks (\<open>hs_env\<close>), system calls (\<open>recv\<close>, the persistence
  file), the resolver. Random octets and session identifiers are lists that are consumed, the clock within a call is a function
  \<open>time :: nat \<Rightarrow> int\<close> of the number of readings. Functions of the C library that parse strings (\<open>strsep\<close>,
  \<open>strtok\<close>, \<open>strstr\<close>, the conversion \<open>sscanf\<close> is used for) are defined in \<open>Ncp\<close>.

  \<^bold>\<open>Not modelled.\<close> The vendored libraries (OpenSSL, mbed TLS, LZO, libslack) and the two backends that call
  them; diagnostics; system calls on interfaces, routes and sockets; the option tables of \<^verbatim>\<open>options.c\<close> and the normalising
  of the configured list of ciphers; the pushing of options; the event loop of \<^verbatim>\<open>forward.c\<close> and the client list of
  \<^verbatim>\<open>multi.c\<close>, of which only the operations on the TLS state are here; the programs that \<open>verify_user_pass\<close> asks;
  the Java application.
\<close>

end
